(* ===== verification/FFC_Prelude.thy ===== *)
theory FFC_Prelude
  imports Main "HOL-Library.Word"
begin

text \<open>
  Shared vocabulary of the development: the machine integers of the C++ sources, the
  little-endian byte layout of x86-64, checked addition, and the generic word and list
  lemmas that the component theories use.  The two locales state the interfaces that
  several components rely on: a hash step that is injective in each of its arguments
  (XXH32 and FNV-1a), and a fixed-width little-endian codec.
\<close>

unbundle bit_operations_syntax

named_theorems ffc_defs \<open>definitions that the component proofs unfold together\<close>
named_theorems ffc_inv \<open>preservation lemmas of the component invariants\<close>

section \<open>Machine integers\<close>

type_synonym u8 = "8 word"
type_synonym u32 = "32 word"
type_synonym u64 = "64 word"
type_synonym bytes = "u8 list"

text \<open>\<open>(std::numeric_limits<std::uint32_t>::max)()\<close> and its 64-bit sibling.\<close>

definition u32_max :: u32 where "u32_max = - 1"
definition u64_max :: u64 where "u64_max = - 1"

lemma unat_u32_max [simp]: "unat u32_max = 4294967295"
  by (simp add: u32_max_def unsigned_minus_1_eq_mask mask_eq_exp_minus_1)

lemma unat_u64_max [simp]: "unat u64_max = 18446744073709551615"
  by (simp add: u64_max_def unsigned_minus_1_eq_mask mask_eq_exp_minus_1)

text \<open>\<open>static_cast<std::uint64_t>\<close> of a 32-bit value and the narrowing cast back.\<close>

definition u64_of_u32 :: "u32 \<Rightarrow> u64" where "u64_of_u32 x = ucast x"
definition u32_of_u64 :: "u64 \<Rightarrow> u32" where "u32_of_u64 x = ucast x"

lemma unat_u32_lt [simp]: "unat (x :: u32) < 4294967296"
  using unsigned_less [where ?'a = nat, of x] by simp

lemma unat_u64_lt [simp]: "unat (x :: u64) < 18446744073709551616"
  using unsigned_less [where ?'a = nat, of x] by simp

lemma unat_u64_le: "unat (x :: u64) \<le> 18446744073709551615"
  using unat_u64_lt [of x] by linarith

lemma unat_u64_of_u32 [simp]: "unat (u64_of_u32 x) = unat x"
  by (simp add: u64_of_u32_def unsigned_ucast_eq take_bit_nat_eq_self order_less_trans [OF unat_u32_lt])

lemma u64_of_u32_max [simp]: "u64_of_u32 u32_max = 4294967295"
  by (simp add: word_unat_eq_iff)

lemma unat_u32_of_u64: "unat (u32_of_u64 x) = unat x mod 4294967296"
  by (simp add: u32_of_u64_def unsigned_ucast_eq take_bit_eq_mod)

lemma unat_u32_of_u64_small [simp]:
  "unat x < 4294967296 \<Longrightarrow> unat (u32_of_u64 x) = unat x"
  by (simp add: unat_u32_of_u64)

lemma unat_add_noovf:
  "unat a + unat b < 2 ^ LENGTH('a) \<Longrightarrow> unat (a + b) = unat a + unat b" for a b :: "'a::len word"
  by (simp add: unat_word_ariths)

lemma unat_add_le:
  "unat a + unat b \<le> unat c \<Longrightarrow> unat (a + b) = unat a + unat b" for a b c :: "'a::len word"
  using unsigned_less [where ?'a = nat, of c] by (intro unat_add_noovf) (rule le_less_trans)

lemma unat_sub_le:
  "b \<le> a \<Longrightarrow> unat (a - b) = unat a - unat b" for a b :: "'a::len word"
  by (simp add: unat_sub)

lemma ucast_up_inject:
  fixes a b :: "'a::len word"
  assumes "LENGTH('a) \<le> LENGTH('b::len)"
  shows "(ucast a :: 'b word) = ucast b \<longleftrightarrow> a = b"
proof
  assume eq: "(ucast a :: 'b word) = ucast b"
  show "a = b"
  proof (rule bit_word_eqI)
    fix n assume "n < LENGTH('a)"
    then have "bit (ucast a :: 'b word) n = bit a n" "bit (ucast b :: 'b word) n = bit b n"
      using assms by (simp_all add: bit_ucast_iff)
    with eq show "bit a n = bit b n" by simp
  qed
qed simp

lemma xor_cancel [simp]:
  "a XOR b = a XOR c \<longleftrightarrow> b = c" "b XOR a = c XOR a \<longleftrightarrow> b = c" for a b c :: "'a::len word"
  by (auto simp: bit_eq_iff bit_xor_iff)

lemma ucast_u8_inject [simp]:
  "(ucast (a :: u8) :: u32) = ucast b \<longleftrightarrow> a = b" "(ucast (a :: u8) :: u64) = ucast b \<longleftrightarrow> a = b"
  by (simp_all add: ucast_up_inject)

lemma eq_word_of_nat: "unat x = n \<Longrightarrow> x = word_of_nat n" for x :: "'a::len word"
  by auto

lemma unat_min: "unat (min a b) = min (unat a) (unat b)" for a b :: "'a::len word"
  by (simp add: min_def word_le_nat_alt)

section \<open>Little-endian layout\<close>

definition le16 :: "u8 \<Rightarrow> u8 \<Rightarrow> 16 word" where
  "le16 b0 b1 = ucast b0 OR push_bit 8 (ucast b1)"

definition le32 :: "u8 \<Rightarrow> u8 \<Rightarrow> u8 \<Rightarrow> u8 \<Rightarrow> u32" where
  "le32 b0 b1 b2 b3 = ucast b0 OR push_bit 8 (ucast b1) OR push_bit 16 (ucast b2) OR
     push_bit 24 (ucast b3)"

definition byte_of :: "nat \<Rightarrow> 'a::len word \<Rightarrow> u8" where
  "byte_of k w = ucast (drop_bit (8 * k) w)"

lemma bit_byte_of: "bit (byte_of k w) n \<longleftrightarrow> n < 8 \<and> bit w (8 * k + n)"
  by (auto simp: byte_of_def bit_ucast_iff bit_drop_bit_eq dest: bit_imp_le_length)

lemma bit_le32:
  "bit (le32 b0 b1 b2 b3) n \<longleftrightarrow>
     (if n < 8 then bit b0 n else if n < 16 then bit b1 (n - 8)
      else if n < 24 then bit b2 (n - 16) else n < 32 \<and> bit b3 (n - 24))"
  by (auto simp: le32_def bit_or_iff bit_push_bit_iff bit_ucast_iff dest: bit_imp_le_length)

lemma byte_of_le32 [simp]:
  "byte_of 0 (le32 b0 b1 b2 b3) = b0" "byte_of (Suc 0) (le32 b0 b1 b2 b3) = b1"
  "byte_of 2 (le32 b0 b1 b2 b3) = b2" "byte_of 3 (le32 b0 b1 b2 b3) = b3"
  by (rule bit_word_eqI; simp add: bit_byte_of bit_le32)+

lemma le32_byte_of [simp]:
  "le32 (byte_of 0 w) (byte_of (Suc 0) w) (byte_of 2 w) (byte_of 3 w) = w"
  by (rule bit_word_eqI) (auto simp: bit_byte_of bit_le32)

lemma le32_inject [simp]:
  "le32 a0 a1 a2 a3 = le32 b0 b1 b2 b3 \<longleftrightarrow> a0 = b0 \<and> a1 = b1 \<and> a2 = b2 \<and> a3 = b3"
  by (metis byte_of_le32)

text \<open>\<open>std::memcpy\<close> of a 4- or 8-byte little-endian field out of a buffer.\<close>

fun get32 :: "bytes \<Rightarrow> u32" where
  "get32 (b0 # b1 # b2 # b3 # _) = le32 b0 b1 b2 b3"
| "get32 _ = 0"

definition get64 :: "bytes \<Rightarrow> u64" where
  "get64 bs = ucast (get32 bs) OR push_bit 32 (ucast (get32 (drop 4 bs)))"

definition put32 :: "u32 \<Rightarrow> bytes" where
  "put32 w = [byte_of 0 w, byte_of 1 w, byte_of 2 w, byte_of 3 w]"

definition put64 :: "u64 \<Rightarrow> bytes" where
  "put64 w = put32 (ucast w) @ put32 (ucast (drop_bit 32 w))"

lemma length_put32 [simp]: "length (put32 w) = 4"
  by (simp add: put32_def)

lemma length_put64 [simp]: "length (put64 w) = 8"
  by (simp add: put64_def)

lemma get32_put32 [simp]: "get32 (put32 w @ r) = w"
  by (simp add: put32_def)

lemma get32_put32' [simp]: "get32 (put32 w) = w"
  using get32_put32 [of w "[]"] by simp

lemma get64_put64 [simp]: "get64 (put64 w @ r) = w"
  by (rule bit_word_eqI)
    (auto simp: get64_def put64_def bit_or_iff bit_push_bit_iff bit_ucast_iff bit_drop_bit_eq
      dest: bit_imp_le_length)

lemma get64_put64' [simp]: "get64 (put64 w) = w"
  using get64_put64 [of w "[]"] by simp

text \<open>A field only depends on its own bytes.\<close>

lemma get32_take: "4 \<le> n \<Longrightarrow> get32 (take n bs) = get32 bs"
  by (cases bs rule: get32.cases) (auto simp: take_Cons' split: if_splits)

lemma get32_cong: "take 4 as = take 4 bs \<Longrightarrow> get32 as = get32 bs"
  by (metis get32_take order_refl)

lemma put32_get32:
  assumes "4 \<le> length bs"
  shows "put32 (get32 bs) = take 4 bs"
proof -
  from assms obtain b0 b1 b2 b3 r where "bs = b0 # b1 # b2 # b3 # r"
    by (auto simp: numeral_eq_Suc Suc_le_length_iff)
  then show ?thesis by (simp add: put32_def)
qed

text \<open>Fields read out of a buffer only see the bytes they cover.\<close>

lemma take_drop_frame:
  assumes "take n as = take n bs" "k + w \<le> n"
  shows "take w (drop k as) = take w (drop k bs)"
proof -
  have "take (w + k) as = take (w + k) bs"
    using assms by (metis add.commute take_take min.absorb1)
  then show ?thesis by (simp add: take_drop)
qed

lemma get32_frame: "take n as = take n bs \<Longrightarrow> k + 4 \<le> n \<Longrightarrow> get32 (drop k as) = get32 (drop k bs)"
  by (rule get32_cong) (rule take_drop_frame)

lemma get64_frame: "take n as = take n bs \<Longrightarrow> k + 8 \<le> n \<Longrightarrow> get64 (drop k as) = get64 (drop k bs)"
  using get32_frame [of n as bs k] get32_frame [of n as bs "k + 4"]
  by (simp add: get64_def add.commute)

section \<open>Checked addition\<close>

text \<open>
  \<open>AddChecked\<close> of DecompCache.cpp: the sum is stored and the result is true only when the
  64-bit addition does not wrap.
\<close>

definition AddChecked :: "u64 \<Rightarrow> u64 \<Rightarrow> u64 option" where
  "AddChecked a_lhs a_rhs = (if a_rhs > u64_max - a_lhs then None else Some (a_lhs + a_rhs))"

lemma AddChecked_Some_iff:
  "AddChecked a b = Some c \<longleftrightarrow> unat a + unat b < 2 ^ 64 \<and> unat c = unat a + unat b"
proof -
  have le: "a \<le> u64_max" by (simp add: u64_max_def)
  have "b > u64_max - a \<longleftrightarrow> \<not> (unat a + unat b < 2 ^ 64)"
    using unat_u64_lt [of a] unat_u64_lt [of b]
    by (simp add: word_less_nat_alt unat_sub_le [OF le], arith)
  moreover have "unat a + unat b < 2 ^ 64 \<Longrightarrow> (a + b = c \<longleftrightarrow> unat c = unat a + unat b)"
    by (simp add: word_unat_eq_iff unat_add_noovf eq_commute)
  ultimately show ?thesis by (auto simp: AddChecked_def)
qed

lemma AddChecked_None_iff: "AddChecked a b = None \<longleftrightarrow> 2 ^ 64 \<le> unat a + unat b"
proof (cases "AddChecked a b")
  case None
  then have "\<not> unat a + unat b < 2 ^ 64"
    using AddChecked_Some_iff [of a b "a + b"] by (auto simp: unat_add_noovf)
  then show ?thesis using None by simp
next
  case (Some c)
  then show ?thesis using AddChecked_Some_iff [of a b c] by simp
qed

lemma word_mult_cancel_inverse:
  "a = b" if "a * p = b * p" and "p * q = 1" for a b p q :: "'a::len word"
  by (metis that mult.assoc mult.right_neutral)

section \<open>Interface: injective hash steps\<close>

text \<open>
  One step of a running hash absorbs an input into an accumulator.  XXH32's rounds and
  tail steps and FNV-1a's byte step are all injective in the accumulator and in the input;
  that is all a single-change detection argument needs.
\<close>

locale injective_step =
  fixes stp :: "'h \<Rightarrow> 'a \<Rightarrow> 'h"
  assumes inj_acc: "stp h x = stp h' x \<Longrightarrow> h = h'"
    and inj_input: "stp h x = stp h y \<Longrightarrow> x = y"
begin

lemma foldl_acc_inj: "foldl stp h xs = foldl stp h' xs \<Longrightarrow> h = h'"
  by (induction xs arbitrary: h h') (auto dest: inj_acc)

lemma foldl_detects:
  assumes "length ys = length xs" "i < length xs" "\<And>j. j < length xs \<Longrightarrow> j \<noteq> i \<Longrightarrow> ys ! j = xs ! j"
    and "ys ! i \<noteq> xs ! i"
  shows "foldl stp h ys \<noteq> foldl stp h xs"
proof
  assume eq: "foldl stp h ys = foldl stp h xs"
  have tk: "take i ys = take i xs"
    using assms by (intro nth_equalityI) auto
  have dr: "drop (Suc i) ys = drop (Suc i) xs"
    using assms by (intro nth_equalityI) auto
  have split: "xs = take i xs @ xs ! i # drop (Suc i) xs" "ys = take i ys @ ys ! i # drop (Suc i) ys"
    using assms by (auto simp: id_take_nth_drop)
  from eq split have
    "foldl stp (stp (foldl stp h (take i ys)) (ys ! i)) (drop (Suc i) ys) =
     foldl stp (stp (foldl stp h (take i xs)) (xs ! i)) (drop (Suc i) xs)"
    by (metis foldl_append foldl_Cons)
  with tk dr show False
    using assms(4) by (metis foldl_acc_inj inj_input)
qed

lemma foldl_update:
  "i < length xs \<Longrightarrow> y \<noteq> xs ! i \<Longrightarrow> foldl stp h (xs[i := y]) \<noteq> foldl stp h xs"
  by (rule foldl_detects [where i = i]) auto

end

end
