(* ===== verification/Policies.thy ===== *)
theory Policies
  imports FFC_Prelude
begin

text \<open>
  The pure policy headers of the Skyrim plugin: CacheLimitPolicy.h (how much disk the cache
  may use and how much room an admission needs), CacheWarmPolicy.h (which payloads are warm
  enough to be served), CompressedReadPolicy.h (whether a native read made the progress it
  reports) and CompressedEntryLayout.h (where a compressed entry declares its size).
\<close>

section \<open>Disk limits (CacheLimitPolicy.h)\<close>

definition kBytesPerMiB :: u64 where "kBytesPerMiB = 1024 * 1024"

datatype Mode = kUnavailable | kAutomatic | kConfigured | kClamped

record Decision =
  configuredMiB :: u64
  configuredBytes :: u64
  physicalBytes :: u64
  automaticCeilingBytes :: u64
  effectiveBytes :: u64
  dmode :: Mode

definition decision_bool :: "Decision \<Rightarrow> bool" where
  "decision_bool d \<longleftrightarrow> effectiveBytes d > 0 \<and> dmode d \<noteq> kUnavailable"

definition MiBToBytesSaturating :: "u64 \<Rightarrow> u64" where
  "MiBToBytesSaturating a_mib =
     (if a_mib > u64_max div kBytesPerMiB then u64_max else a_mib * kBytesPerMiB)"

definition AddSaturating :: "u64 \<Rightarrow> u64 \<Rightarrow> u64" where
  "AddSaturating a_lhs a_rhs = (if a_rhs > u64_max - a_lhs then u64_max else a_lhs + a_rhs)"

definition RequiredHeadroom :: "u64 \<Rightarrow> u64 \<Rightarrow> u64 \<Rightarrow> u64" where
  "RequiredHeadroom a_capBytes a_pendingBytes a_newBytes =
     min a_capBytes (AddSaturating a_pendingBytes a_newBytes)"

definition EvictionTarget :: "u64 \<Rightarrow> u64 \<Rightarrow> u64" where
  "EvictionTarget a_capBytes a_requiredHeadroom = a_capBytes - min a_requiredHeadroom a_capBytes"

definition empty_decision :: Decision where
  "empty_decision = \<lparr>configuredMiB = 0, configuredBytes = 0, physicalBytes = 0,
     automaticCeilingBytes = 0, effectiveBytes = 0, dmode = kUnavailable\<rparr>"

definition Decide :: "u64 \<Rightarrow> u64 \<Rightarrow> Decision" where
  "Decide a_configuredMiB a_totalPhysicalBytes =
     (let result = empty_decision\<lparr>configuredMiB := a_configuredMiB,
            configuredBytes := MiBToBytesSaturating a_configuredMiB,
            physicalBytes := a_totalPhysicalBytes,
            automaticCeilingBytes := a_totalPhysicalBytes div 4\<rparr> in
      if automaticCeilingBytes result = 0 then result
      else if a_configuredMiB = 0 then
        result\<lparr>effectiveBytes := automaticCeilingBytes result, dmode := kAutomatic\<rparr>
      else
        result\<lparr>effectiveBytes := min (configuredBytes result) (automaticCeilingBytes result),
               dmode := (if configuredBytes result > automaticCeilingBytes result then kClamped
                         else kConfigured)\<rparr>)"

lemma unat_kBytesPerMiB [simp]: "unat kBytesPerMiB = 1048576"
  by (simp add: kBytesPerMiB_def)

lemma AddSaturating_unat:
  "unat (AddSaturating a b) = min (2 ^ 64 - 1) (unat a + unat b)"
  using AddChecked_Some_iff [of a b "a + b"] AddChecked_None_iff [of a b]
  by (auto simp: AddSaturating_def AddChecked_def min_def split: if_splits)

lemma MiBToBytesSaturating_unat:
  "unat (MiBToBytesSaturating a) = min (2 ^ 64 - 1) (unat a * 1048576)"
proof -
  have d: "unat (u64_max div kBytesPerMiB) = 17592186044415"
    by (simp add: unat_div)
  show ?thesis
  proof (cases "unat a > 17592186044415")
    case True
    then show ?thesis by (simp add: MiBToBytesSaturating_def word_less_nat_alt d)
  next
    case False
    then have "unat a * unat kBytesPerMiB < 2 ^ LENGTH(64)" by simp
    then have "unat (a * kBytesPerMiB) = unat a * 1048576"
      by (subst unat_mult_lem [THEN iffD1]) simp_all
    with False show ?thesis by (simp add: MiBToBytesSaturating_def word_less_nat_alt d)
  qed
qed

text \<open>
  Evicting down to the target leaves exactly the room the refused admission asked for,
  or empties the cache when the pending bytes and the new demand exceed the cap (a sum that
  would wrap 64 bits included).
\<close>

theorem eviction_makes_room:
  "unat (EvictionTarget cap (RequiredHeadroom cap pending new)) =
     unat cap - min (unat cap) (unat pending + unat new)"
proof -
  show ?thesis
    using unat_u64_le [of cap]
    by (auto simp: EvictionTarget_def RequiredHeadroom_def unat_sub_le unat_min AddSaturating_unat
        word_le_nat_alt min_def)
qed

text \<open>
  The limit in force never exceeds a quarter of physical memory, is the configured one
  exactly when one is set and fits, and exists unless physical memory is unknown (under
  four bytes); the configured size saturates instead of wrapping.
\<close>

theorem Decide_effective:
  "let d = Decide mib phys; ceiling = unat phys div 4 in
     unat (configuredBytes d) = min (2 ^ 64 - 1) (unat mib * 1048576) \<and>
     unat (effectiveBytes d) = (if mib = 0 then ceiling else min (unat (configuredBytes d)) ceiling) \<and>
     dmode d = (if ceiling = 0 then kUnavailable else if mib = 0 then kAutomatic
                else if unat mib * 1048576 > ceiling then kClamped else kConfigured) \<and>
     (decision_bool d \<longleftrightarrow> 0 < ceiling)"
proof -
  have c: "unat (phys div 4) = unat phys div 4" by (simp add: unat_div)
  have p: "unat phys div 4 < 18446744073709551615"
    using unat_u64_le [of phys] by linarith
  have m: "mib \<noteq> 0 \<Longrightarrow> 0 < unat mib" by (simp add: unat_gt_0)
  show ?thesis
  proof (cases "unat phys div 4 = 0")
    case True
    then have "phys div 4 = 0" using c by (metis unat_eq_zero)
    with True show ?thesis
      by (simp add: Decide_def Let_def empty_decision_def decision_bool_def MiBToBytesSaturating_unat)
  next
    case False
    then have "phys div 4 \<noteq> 0" using c by (metis unat_0)
    with False c p m show ?thesis
      by (auto simp: Decide_def Let_def empty_decision_def decision_bool_def MiBToBytesSaturating_unat
          unat_min word_less_nat_alt)
  qed
qed

section \<open>Warm payloads (CacheWarmPolicy.h)\<close>

definition IsRangeWarm :: "u64 \<Rightarrow> u64 \<Rightarrow> u64 \<Rightarrow> u64 \<Rightarrow> bool" where
  "IsRangeWarm a_offset a_size a_committedBytes a_warmedBytes =
     (if a_size = 0 \<or> a_offset > a_committedBytes \<or> a_size > a_committedBytes - a_offset then False
      else let warmed = min a_warmedBytes a_committedBytes
           in a_offset \<le> warmed \<and> a_size \<le> warmed - a_offset)"

lemma IsRangeWarm_iff:
  "IsRangeWarm off sz committed warmed \<longleftrightarrow>
     0 < unat sz \<and> unat off + unat sz \<le> min (unat warmed) (unat committed)"
proof (cases "unat off \<le> unat committed \<and> unat off \<le> unat warmed")
  case True
  then have "off \<le> committed" "off \<le> min warmed committed"
    by (simp_all add: word_le_nat_alt unat_min)
  with True show ?thesis
    by (auto simp: IsRangeWarm_def Let_def word_less_nat_alt word_le_nat_alt unat_sub_le unat_min
        unat_gt_0 unat_eq_zero)
next
  case False
  then show ?thesis
    by (auto simp: IsRangeWarm_def Let_def word_less_nat_alt word_le_nat_alt unat_min)
qed

section \<open>Native progress (CompressedReadPolicy.h)\<close>

record Progress =
  pr_valid :: bool
  pr_cursorAfter :: u32

definition SeekMoved :: "u32 \<Rightarrow> u64 \<Rightarrow> bool" where
  "SeekMoved before after \<longleftrightarrow> after \<noteq> u64_of_u32 before"

definition ValidateNativeProgress ::
  "bool \<Rightarrow> u32 \<Rightarrow> u32 \<Rightarrow> u64 \<Rightarrow> u64 \<Rightarrow> bool \<Rightarrow> bool \<Rightarrow> Progress" where
  "ValidateNativeProgress cursorKnown cursorBefore knownSize requested read succeeded bufferAvailable =
     (if \<not> cursorKnown \<or> \<not> succeeded \<or> read > requested \<or> (read > 0 \<and> \<not> bufferAvailable) \<or>
         read > u64_of_u32 (u32_max - cursorBefore)
      then \<lparr>pr_valid = False, pr_cursorAfter = cursorBefore\<rparr>
      else if knownSize > 0 \<and>
         (cursorBefore > knownSize \<or> read > u64_of_u32 (knownSize - cursorBefore))
      then \<lparr>pr_valid = False, pr_cursorAfter = cursorBefore\<rparr>
      else \<lparr>pr_valid = True, pr_cursorAfter = cursorBefore + u32_of_u64 read\<rparr>)"

lemma ValidateNativeProgress_cases:
  "let p = ValidateNativeProgress known before sz requested n ok buf in
     (pr_valid p \<longleftrightarrow> known \<and> ok \<and> unat n \<le> unat requested \<and> (n \<noteq> 0 \<longrightarrow> buf) \<and>
        unat before + unat n < 2 ^ 32 \<and> (sz \<noteq> 0 \<longrightarrow> unat before + unat n \<le> unat sz)) \<and>
     unat (pr_cursorAfter p) = unat before + (if pr_valid p then unat n else 0)"
proof -
  have r: "unat (u32_max - before) = 4294967295 - unat before"
    by (simp add: unat_sub_le u32_max_def flip: unat_u32_max [unfolded u32_max_def])
  have s: "unat before \<le> unat sz \<Longrightarrow> unat (sz - before) = unat sz - unat before"
    by (simp add: unat_sub_le word_le_nat_alt)
  have n: "unat before + unat n < 4294967296 \<Longrightarrow>
      unat (before + u32_of_u64 n) = unat before + unat n"
    by (subst unat_add_noovf) simp_all
  have b: "unat before < 4294967296" by simp
  have lim: "n > u64_of_u32 (u32_max - before) \<longleftrightarrow> \<not> unat before + unat n < 4294967296"
    using b by (simp only: word_less_nat_alt unat_u64_of_u32 r) linarith
  have szb: "(before > sz \<or> n > u64_of_u32 (sz - before)) \<longleftrightarrow> \<not> unat before + unat n \<le> unat sz"
    by (cases "unat before \<le> unat sz") (auto simp: word_less_nat_alt s)
  have g: "n > requested \<longleftrightarrow> \<not> unat n \<le> unat requested" "n > 0 \<longleftrightarrow> n \<noteq> 0" "sz > 0 \<longleftrightarrow> sz \<noteq> 0"
    by (simp_all add: word_less_nat_alt unat_gt_0 not_le)
  show ?thesis
    unfolding ValidateNativeProgress_def lim szb g Let_def
    by (simp add: n) blast
qed

section \<open>Declared sizes (CompressedEntryLayout.h)\<close>

definition SizeFieldOffset :: "u64 \<Rightarrow> u64 \<Rightarrow> bool \<Rightarrow> u8 \<Rightarrow> u64 option" where
  "SizeFieldOffset startOffset archiveSize hasEmbeddedFileNames embeddedNameLength =
     (let skip = 1 + ucast embeddedNameLength;
          prefixOffset = (if hasEmbeddedFileNames then
            (if embeddedNameLength = 0 then None
             else if startOffset > u64_max - skip then None
             else Some (startOffset + skip)) else Some startOffset)
      in case prefixOffset of None \<Rightarrow> None
         | Some p \<Rightarrow> if 4 > archiveSize \<or> p > archiveSize - 4 then None else Some p)"

definition IsUsableDeclaredSize :: "u32 \<Rightarrow> bool" where
  "IsUsableDeclaredSize declaredSize \<longleftrightarrow> declaredSize \<noteq> 0"

definition DecodeLittleEndianSize :: "bytes \<Rightarrow> u32" where
  "DecodeLittleEndianSize b =
     ucast (b ! 0) OR push_bit 8 (ucast (b ! 1)) OR push_bit 16 (ucast (b ! 2)) OR
     push_bit 24 (ucast (b ! 3))"

lemma DecodeLittleEndianSize_get32:
  "length b = 4 \<Longrightarrow> DecodeLittleEndianSize b = get32 b"
  by (auto simp: DecodeLittleEndianSize_def le32_def length_Suc_conv numeral_eq_Suc)

lemma DecodeLittleEndianSize_put32 [simp]: "DecodeLittleEndianSize (put32 w) = w"
  by (simp add: DecodeLittleEndianSize_get32)

lemma SizeFieldOffset_Some_iff:
  "SizeFieldOffset start len emb n = Some off \<longleftrightarrow>
     (emb \<longrightarrow> n \<noteq> 0) \<and> unat off = unat start + (if emb then 1 + unat n else 0) \<and>
     unat off + 4 \<le> unat len"
proof -
  have n: "unat n < 256" using unsigned_less [where ?'a = nat, of n] by simp
  have un: "unat (ucast n :: u64) = unat n"
    using n by (simp add: unsigned_ucast_eq take_bit_nat_eq_self)
  have sk: "unat (1 + ucast n :: u64) = 1 + unat n"
    using n un by (subst unat_add_noovf) simp_all
  have bound: "\<not> (4 > len \<or> p > len - 4) \<longleftrightarrow> unat p + 4 \<le> unat len" for p
    by (cases "unat len < 4") (auto simp: word_less_nat_alt unat_sub_le word_le_nat_alt)
  show ?thesis
  proof (cases emb)
    case False
    have "(if 4 > len \<or> start > len - 4 then None else Some start) = Some off \<longleftrightarrow>
        unat off = unat start \<and> unat off + 4 \<le> unat len"
      using bound [of start] by (auto simp: word_unat_eq_iff)
    with False show ?thesis by (simp add: SizeFieldOffset_def)
  next
    case True
    let ?s = "1 + ucast n :: u64"
    have chk: "(if start > u64_max - ?s then None else Some (start + ?s)) = AddChecked ?s start"
      by (simp add: AddChecked_def add.commute)
    have "(case AddChecked ?s start of None \<Rightarrow> None
         | Some p \<Rightarrow> if 4 > len \<or> p > len - 4 then None else Some p) = Some off \<longleftrightarrow>
        AddChecked ?s start = Some off \<and> unat off + 4 \<le> unat len"
      using bound by (auto split: option.splits)
    moreover have "SizeFieldOffset start len emb n = (if n = 0 then None
        else case AddChecked ?s start of None \<Rightarrow> None
         | Some p \<Rightarrow> if 4 > len \<or> p > len - 4 then None else Some p)"
      using True by (simp add: SizeFieldOffset_def Let_def chk)
    ultimately show ?thesis
      using True unat_u64_le [of off] by (auto simp: AddChecked_Some_iff sk)
  qed
qed

end
