(* ===== verification/BsaArchive.thy ===== *)
theory BsaArchive
  imports Policies "HOL-Library.List_Lexorder"
begin

text \<open>
  Skyrim/src/BSAMemoryMap.h and .cpp: opening a BSA archive, parsing its header, reading
  bounded byte ranges from it, resolving the declared decompressed size of an entry, and the
  manager that scans the Data directory.  The file behind a handle is a value: its content
  and the outcome of each Win32 call the code makes on it.  A read call that fails and one
  that delivers fewer bytes than asked are the same outcome, as in the code.
\<close>

section \<open>The header\<close>

record BSA_Header =
  b_magic :: bytes
  b_version :: u32
  b_folderOffset :: u32
  b_archiveFlags :: u32
  b_folderCount :: u32
  b_fileCount :: u32
  b_totalFolderNameLength :: u32
  b_totalFileNameLength :: u32
  b_fileFlags :: u32

definition sizeof_BSA_Header :: nat where "sizeof_BSA_Header = 36"

text \<open>\<open>std::memcpy(&header_, a_hdr, sizeof(Header))\<close>.\<close>

definition load_bsa_header :: "bytes \<Rightarrow> BSA_Header" where
  "load_bsa_header b =
     \<lparr>b_magic = take 4 b, b_version = get32 (drop 4 b), b_folderOffset = get32 (drop 8 b),
      b_archiveFlags = get32 (drop 12 b), b_folderCount = get32 (drop 16 b),
      b_fileCount = get32 (drop 20 b), b_totalFolderNameLength = get32 (drop 24 b),
      b_totalFileNameLength = get32 (drop 28 b), b_fileFlags = get32 (drop 32 b)\<rparr>"

text \<open>\<open>header_ = {}\<close>.\<close>

definition zero_bsa_header :: BSA_Header where
  "zero_bsa_header =
     \<lparr>b_magic = replicate 4 0, b_version = 0, b_folderOffset = 0, b_archiveFlags = 0,
      b_folderCount = 0, b_fileCount = 0, b_totalFolderNameLength = 0,
      b_totalFileNameLength = 0, b_fileFlags = 0\<rparr>"

definition kDefaultCompressed :: u32 where "kDefaultCompressed = push_bit 2 1"
definition kEmbedFileNames :: u32 where "kEmbedFileNames = push_bit 8 1"

section \<open>Archives\<close>

record bsa_file =
  bf_content :: bytes
  bf_opens :: bool
  bf_sizeKnown :: bool
  bf_mapping :: bool
  bf_view :: bool
  bf_headerRead :: bool
  bf_identity :: "(u32 \<times> u32 \<times> u32) option"
  bf_sampleRead :: "u64 \<Rightarrow> bool"

record MappedArchive =
  ma_path :: bytes
  ma_fileHandle :: "bsa_file option"
  ma_mapHandle :: bool
  ma_base :: "bytes option"
  ma_fileSize :: u64
  ma_fingerprint :: u64
  ma_header :: BSA_Header
  ma_defaultCompressed :: bool
  ma_valid :: bool
  ma_declaredSizes :: "u32 \<rightharpoonup> u32"

text \<open>A default-constructed archive, with the path it was last opened on.\<close>

definition closed_archive :: "bytes \<Rightarrow> MappedArchive" where
  "closed_archive path =
     \<lparr>ma_path = path, ma_fileHandle = None, ma_mapHandle = False, ma_base = None, ma_fileSize = 0,
      ma_fingerprint = 0, ma_header = zero_bsa_header, ma_defaultCompressed = False,
      ma_valid = False, ma_declaredSizes = Map.empty\<rparr>"

definition IsOpen :: "MappedArchive \<Rightarrow> bool" where "IsOpen a \<longleftrightarrow> ma_valid a"
definition IsMapped :: "MappedArchive \<Rightarrow> bool" where "IsMapped a \<longleftrightarrow> ma_base a \<noteq> None"

definition HasEmbeddedFileNames :: "MappedArchive \<Rightarrow> bool" where
  "HasEmbeddedFileNames a \<longleftrightarrow> b_archiveFlags (ma_header a) AND kEmbedFileNames \<noteq> 0"

definition Close :: "MappedArchive \<Rightarrow> MappedArchive" where
  "Close a = a\<lparr>ma_base := None, ma_mapHandle := False, ma_fileHandle := None, ma_fileSize := 0,
     ma_fingerprint := 0, ma_header := zero_bsa_header, ma_defaultCompressed := False,
     ma_valid := False, ma_declaredSizes := Map.empty\<rparr>"

text \<open>The moved-from object keeps its header and its default-compressed flag.\<close>

definition moved_from :: "MappedArchive \<Rightarrow> MappedArchive" where
  "moved_from other = other\<lparr>ma_path := [], ma_fileHandle := None, ma_mapHandle := False, ma_base := None,
     ma_fileSize := 0, ma_fingerprint := 0, ma_valid := False, ma_declaredSizes := Map.empty\<rparr>"

definition move_construct :: "MappedArchive \<Rightarrow> MappedArchive \<times> MappedArchive" where
  "move_construct other =
     (\<lparr>ma_path = ma_path other, ma_fileHandle = ma_fileHandle other,
       ma_mapHandle = ma_mapHandle other, ma_base = ma_base other, ma_fileSize = ma_fileSize other,
       ma_fingerprint = ma_fingerprint other, ma_header = ma_header other,
       ma_defaultCompressed = ma_defaultCompressed other, ma_valid = ma_valid other,
       ma_declaredSizes = ma_declaredSizes other\<rparr>, moved_from other)"

definition move_assign :: "MappedArchive \<Rightarrow> MappedArchive \<Rightarrow> MappedArchive \<times> MappedArchive" where
  "move_assign this other =
     ((Close this)\<lparr>ma_path := ma_path other, ma_fileHandle := ma_fileHandle other,
       ma_mapHandle := ma_mapHandle other, ma_base := ma_base other, ma_fileSize := ma_fileSize other,
       ma_fingerprint := ma_fingerprint other, ma_header := ma_header other,
       ma_defaultCompressed := ma_defaultCompressed other, ma_valid := ma_valid other,
       ma_declaredSizes := ma_declaredSizes other\<rparr>, moved_from other)"

definition kMaxFiles :: u32 where "kMaxFiles = 1000000"
definition kMaxFolders :: u32 where "kMaxFolders = 250000"

definition ParseHeader :: "bytes \<Rightarrow> MappedArchive \<Rightarrow> bool \<times> MappedArchive" where
  "ParseHeader a_hdr a0 =
     (let a = a0\<lparr>ma_header := load_bsa_header a_hdr\<rparr>; h = ma_header a in
      if b_magic h \<noteq> [0x42, 0x53, 0x41, 0] then (False, a)
      else if b_version h \<noteq> 104 \<and> b_version h \<noteq> 105 then (False, a)
      else if b_folderOffset h < of_nat sizeof_BSA_Header \<or>
              u64_of_u32 (b_folderOffset h) > ma_fileSize a then (False, a)
      else
        let nameBytes = u64_of_u32 (b_totalFolderNameLength h) + u64_of_u32 (b_totalFileNameLength h) in
        if nameBytes > ma_fileSize a \<or> b_fileCount h > kMaxFiles \<or> b_folderCount h > kMaxFolders \<or>
           u64_of_u32 (b_fileCount h) > ma_fileSize a div 4 then (False, a)
        else (True, a\<lparr>ma_defaultCompressed := (b_archiveFlags h AND kDefaultCompressed \<noteq> 0)\<rparr>))"

section \<open>Fingerprints\<close>

definition kFnvOffset :: u64 where "kFnvOffset = 14695981039346656037"
definition kFnvPrime :: u64 where "kFnvPrime = 1099511628211"
definition kSampleSize :: u64 where "kSampleSize = 4096"

definition fnv_step :: "u64 \<Rightarrow> u8 \<Rightarrow> u64" where
  "fnv_step hash b = (hash XOR ucast b) * kFnvPrime"

definition mix :: "u64 \<Rightarrow> bytes \<Rightarrow> u64" where "mix hash bs = foldl fnv_step hash bs"

definition byte_slice :: "nat \<Rightarrow> nat \<Rightarrow> bytes \<Rightarrow> bytes" where "byte_slice off n bs = take n (drop off bs)"

text \<open>One iteration of the sampling loop; \<open>None\<close> is the early \<open>return false\<close>.\<close>

definition sample_step :: "MappedArchive \<Rightarrow> u64 \<Rightarrow> (u64 \<times> u64) option \<Rightarrow> u64 \<Rightarrow> (u64 \<times> u64) option" where
  "sample_step a sampleBytes st offset =
     (case st of None \<Rightarrow> None
      | Some (hash, previous) \<Rightarrow>
          if offset = previous then Some (hash, previous)
          else
            let hash1 = mix hash (put64 offset) in
            case ma_base a of
              Some view \<Rightarrow> Some (mix hash1 (byte_slice (unat offset) (unat sampleBytes) view), offset)
            | None \<Rightarrow>
                (case ma_fileHandle a of
                   None \<Rightarrow> None
                 | Some f \<Rightarrow>
                     if bf_sampleRead f offset
                     then Some (mix hash1 (byte_slice (unat offset) (unat sampleBytes) (bf_content f)), offset)
                     else None))"

definition identity_bytes :: "bsa_file option \<Rightarrow> bytes" where
  "identity_bytes fh =
     (case fh of None \<Rightarrow> []
      | Some f \<Rightarrow> (case bf_identity f of None \<Rightarrow> []
                   | Some (vol, hi, lo) \<Rightarrow> put32 vol @ put32 hi @ put32 lo))"

definition sample_offsets :: "u64 \<Rightarrow> u64 list" where
  "sample_offsets fileSize =
     (let sampleBytes = min fileSize kSampleSize;
          middle = (if fileSize > sampleBytes then min (fileSize - sampleBytes) (fileSize div 2) else 0)
      in [0, middle, fileSize - sampleBytes])"

definition ComputeFingerprint :: "MappedArchive \<Rightarrow> bool \<times> MappedArchive" where
  "ComputeFingerprint a =
     (if ma_fileSize a = 0 then (False, a)
      else
        let hash0 = mix (mix kFnvOffset (put64 (ma_fileSize a))) (identity_bytes (ma_fileHandle a))
        in case foldl (sample_step a (min (ma_fileSize a) kSampleSize)) (Some (hash0, u64_max))
                  (sample_offsets (ma_fileSize a)) of
             None \<Rightarrow> (False, a)
           | Some (hash, _) \<Rightarrow> (True, a\<lparr>ma_fingerprint := (if hash \<noteq> 0 then hash else 1)\<rparr>))"

text \<open>\<open>Open\<close> on a path, \<open>f\<close> being the file the path names; a failed \<open>CreateFileW\<close> is
  \<open>bf_opens f = False\<close>.\<close>

definition Open :: "bytes \<Rightarrow> bsa_file \<Rightarrow> bool \<Rightarrow> MappedArchive \<Rightarrow> bool \<times> MappedArchive" where
  "Open archivePath f a_mapFull a0 =
     (let a1 = (Close a0)\<lparr>ma_path := archivePath\<rparr> in
      if \<not> bf_opens f then (False, a1)
      else
        let a2 = a1\<lparr>ma_fileHandle := Some f\<rparr> in
        if \<not> bf_sizeKnown f \<or> length (bf_content f) < sizeof_BSA_Header \<or>
           length (bf_content f) > unat u32_max then (False, Close a2)
        else
          let a3 = a2\<lparr>ma_fileSize := of_nat (length (bf_content f))\<rparr> in
          if a_mapFull then
            if \<not> bf_mapping f then (False, Close a3)
            else
              let a4 = a3\<lparr>ma_mapHandle := True\<rparr> in
              if \<not> bf_view f then (False, Close a4)
              else
                let a5 = a4\<lparr>ma_base := Some (bf_content f)\<rparr>;
                    (parsed, a6) = ParseHeader (bf_content f) a5 in
                if \<not> parsed then (False, Close a6)
                else
                  let (fingerprinted, a7) = ComputeFingerprint a6 in
                  if \<not> fingerprinted then (False, Close a7) else (True, a7\<lparr>ma_valid := True\<rparr>)
          else
            if \<not> bf_headerRead f then (False, Close a3)
            else
              let (parsed, a4) = ParseHeader (take sizeof_BSA_Header (bf_content f)) a3 in
              if \<not> parsed then (False, Close a4)
              else
                let (fingerprinted, a5) = ComputeFingerprint a4 in
                if \<not> fingerprinted then (False, Close a5) else (True, a5\<lparr>ma_valid := True\<rparr>))"

section \<open>Bounded reads\<close>

text \<open>\<open>At\<close> returns a pointer into the view; the model returns the offset into it.\<close>

definition At :: "MappedArchive \<Rightarrow> u64 \<Rightarrow> u64 \<Rightarrow> u64 option" where
  "At a offset n =
     (case ma_base a of None \<Rightarrow> None
      | Some view \<Rightarrow>
          if n > ma_fileSize a \<or> offset > ma_fileSize a - n then None else Some offset)"

text \<open>\<open>io offset n\<close> says whether the guarded copy or the positioned \<open>ReadFile\<close> of those
  bytes succeeds in full.\<close>

definition ReadAt :: "(u64 \<Rightarrow> u64 \<Rightarrow> bool) \<Rightarrow> MappedArchive \<Rightarrow> u64 \<Rightarrow> bool \<Rightarrow> u64 \<Rightarrow> bytes option" where
  "ReadAt io a offset destination n =
     (if \<not> ma_valid a \<or> (n > 0 \<and> \<not> destination) \<or> n > ma_fileSize a \<or>
         offset > ma_fileSize a - n then None
      else if n = 0 then Some []
      else case ma_base a of
        Some view \<Rightarrow> if io offset n then Some (byte_slice (unat offset) (unat n) view) else None
      | None \<Rightarrow>
          (case ma_fileHandle a of
             None \<Rightarrow> None
           | Some f \<Rightarrow>
               if n > u64_of_u32 u32_max then None
               else if io offset n then Some (byte_slice (unat offset) (unat n) (bf_content f)) else None))"

section \<open>Declared sizes\<close>

definition try_emplace :: "('k \<rightharpoonup> 'v) \<Rightarrow> 'k \<Rightarrow> 'v \<Rightarrow> ('k \<rightharpoonup> 'v)" where
  "try_emplace m k v = (case m k of None \<Rightarrow> m(k \<mapsto> v) | Some _ \<Rightarrow> m)"

definition nonzero_size :: "u32 \<Rightarrow> u32 option" where
  "nonzero_size v = (if v \<noteq> 0 then Some v else None)"

definition resolve_declared :: "(u64 \<Rightarrow> u64 \<Rightarrow> bool) \<Rightarrow> MappedArchive \<Rightarrow> u32 \<Rightarrow> u8 \<Rightarrow> u32" where
  "resolve_declared io a startOffset embeddedNameLength =
     (case SizeFieldOffset (u64_of_u32 startOffset) (ma_fileSize a) (HasEmbeddedFileNames a)
             embeddedNameLength of
        None \<Rightarrow> 0
      | Some off \<Rightarrow>
          (case ReadAt io a off True 4 of
             None \<Rightarrow> 0
           | Some sizeBytes \<Rightarrow>
               let candidate = DecodeLittleEndianSize sizeBytes
               in if IsUsableDeclaredSize candidate then candidate else 0))"

definition GetDeclaredDecompressedSize ::
  "(u64 \<Rightarrow> u64 \<Rightarrow> bool) \<Rightarrow> MappedArchive \<Rightarrow> u32 \<Rightarrow> u32 option \<times> MappedArchive" where
  "GetDeclaredDecompressedSize io a startOffset =
     (case ma_declaredSizes a startOffset of
        Some found \<Rightarrow> (nonzero_size found, a)
      | None \<Rightarrow>
          let embedded = (if HasEmbeddedFileNames a
                then map_option hd (ReadAt io a (u64_of_u32 startOffset) True 1) else Some 0)
          in case embedded of
               None \<Rightarrow> (None, a\<lparr>ma_declaredSizes := try_emplace (ma_declaredSizes a) startOffset 0\<rparr>)
             | Some embeddedNameLength \<Rightarrow>
                 let resolved = resolve_declared io a startOffset embeddedNameLength;
                     sizes = try_emplace (ma_declaredSizes a) startOffset resolved
                 in (nonzero_size (the (sizes startOffset)), a\<lparr>ma_declaredSizes := sizes\<rparr>))"

section \<open>What opening an archive means\<close>

definition header_plausible :: "BSA_Header \<Rightarrow> nat \<Rightarrow> bool" where
  "header_plausible h n \<longleftrightarrow>
     b_magic h = [0x42, 0x53, 0x41, 0] \<and> (b_version h = 104 \<or> b_version h = 105) \<and>
     sizeof_BSA_Header \<le> unat (b_folderOffset h) \<and> unat (b_folderOffset h) \<le> n \<and>
     unat (b_totalFolderNameLength h) + unat (b_totalFileNameLength h) \<le> n \<and>
     unat (b_fileCount h) \<le> 1000000 \<and> unat (b_folderCount h) \<le> 250000 \<and>
     4 * unat (b_fileCount h) \<le> n"

lemma ParseHeader_cases:
  "ParseHeader b a =
     (let h = load_bsa_header b in
      if header_plausible h (unat (ma_fileSize a))
      then (True, a\<lparr>ma_header := h, ma_defaultCompressed := (b_archiveFlags h AND kDefaultCompressed \<noteq> 0)\<rparr>)
      else (False, a\<lparr>ma_header := h\<rparr>))"
proof -
  let ?h = "load_bsa_header b"
  have names: "unat (u64_of_u32 (b_totalFolderNameLength ?h) + u64_of_u32 (b_totalFileNameLength ?h)) =
      unat (b_totalFolderNameLength ?h) + unat (b_totalFileNameLength ?h)"
    using unat_u32_lt [of "b_totalFolderNameLength ?h"] unat_u32_lt [of "b_totalFileNameLength ?h"]
    by (subst unat_add_noovf) (simp_all del: unat_u32_lt)
  have q: "unat (ma_fileSize a div 4) = unat (ma_fileSize a) div 4" by (simp add: unat_div)
  have d: "unat (b_fileCount ?h) > unat (ma_fileSize a) div 4 \<longleftrightarrow>
      \<not> 4 * unat (b_fileCount ?h) \<le> unat (ma_fileSize a)" by arith
  have g: "b_folderOffset ?h < of_nat sizeof_BSA_Header \<longleftrightarrow> \<not> sizeof_BSA_Header \<le> unat (b_folderOffset ?h)"
    "u64_of_u32 (b_folderOffset ?h) > ma_fileSize a \<longleftrightarrow> \<not> unat (b_folderOffset ?h) \<le> unat (ma_fileSize a)"
    "u64_of_u32 (b_totalFolderNameLength ?h) + u64_of_u32 (b_totalFileNameLength ?h) > ma_fileSize a \<longleftrightarrow>
       \<not> unat (b_totalFolderNameLength ?h) + unat (b_totalFileNameLength ?h) \<le> unat (ma_fileSize a)"
    "b_fileCount ?h > kMaxFiles \<longleftrightarrow> \<not> unat (b_fileCount ?h) \<le> 1000000"
    "b_folderCount ?h > kMaxFolders \<longleftrightarrow> \<not> unat (b_folderCount ?h) \<le> 250000"
    "u64_of_u32 (b_fileCount ?h) > ma_fileSize a div 4 \<longleftrightarrow>
       \<not> 4 * unat (b_fileCount ?h) \<le> unat (ma_fileSize a)"
    using d by (auto simp: word_less_nat_alt sizeof_BSA_Header_def names kMaxFiles_def kMaxFolders_def q)
  show ?thesis
    by (auto simp: ParseHeader_def Let_def header_plausible_def g simp del: not_less not_le)
qed

subsection \<open>The fingerprint's input\<close>

fun skip_repeats :: "u64 \<Rightarrow> u64 list \<Rightarrow> u64 list" where
  "skip_repeats previous [] = []"
| "skip_repeats previous (x # xs) =
     (if x = previous then skip_repeats previous xs else x # skip_repeats x xs)"

definition sampled :: "bytes \<Rightarrow> u64 list" where
  "sampled c = skip_repeats u64_max (sample_offsets (of_nat (length c)))"

definition sample_bytes :: "bytes \<Rightarrow> u64 \<Rightarrow> bytes" where
  "sample_bytes c offset =
     put64 offset @ byte_slice (unat offset) (min (length c) (unat kSampleSize)) c"

text \<open>The bytes the hash absorbs: the size, the file identity if known, and each sample.\<close>

definition fingerprint_input :: "bsa_file \<Rightarrow> bytes" where
  "fingerprint_input f =
     put64 (of_nat (length (bf_content f))) @ identity_bytes (Some f) @
     concat (map (sample_bytes (bf_content f)) (sampled (bf_content f)))"

definition fingerprint_of :: "bsa_file \<Rightarrow> u64" where
  "fingerprint_of f = (let h = mix kFnvOffset (fingerprint_input f) in if h \<noteq> 0 then h else 1)"

lemma mix_append [simp]: "mix h (xs @ ys) = mix (mix h xs) ys"
  by (simp add: mix_def)

lemma mix_Nil [simp]: "mix h [] = h"
  by (simp add: mix_def)

text \<open>A sample comes from the view when there is one, else from the handle.\<close>

lemma sample_step_None [simp]: "foldl (sample_step a n) None offs = None"
  by (induction offs) (simp_all add: sample_step_def)

lemma foldl_sample_step:
  assumes "ma_fileHandle a = Some f" "ma_base a = None \<or> ma_base a = Some (bf_content f)"
    and "unat n = min (length (bf_content f)) (unat kSampleSize)"
  shows "\<exists>l. foldl (sample_step a n) (Some (h, previous)) offs =
    (if ma_base a \<noteq> None \<or> list_all (bf_sampleRead f) (skip_repeats previous offs)
     then Some (mix h (concat (map (sample_bytes (bf_content f)) (skip_repeats previous offs))), l)
     else None)"
proof (induction offs arbitrary: h previous)
  case (Cons x offs)
  have st: "sample_step a n (Some (h, previous)) x =
      (if x = previous then Some (h, previous)
       else if ma_base a \<noteq> None \<or> bf_sampleRead f x
       then Some (mix h (sample_bytes (bf_content f) x), x) else None)"
    using assms by (auto simp: sample_step_def sample_bytes_def Let_def)
  show ?case
  proof (cases "x = previous")
    case True
    have e: "sample_step a n (Some (h, previous)) x = Some (h, previous)"
      using True unfolding st by simp
    have sk: "skip_repeats previous (x # offs) = skip_repeats previous offs" using True by simp
    show ?thesis unfolding foldl_Cons e sk by (rule Cons.IH)
  next
    case False
    then show ?thesis
      unfolding foldl_Cons st using Cons.IH [of "mix h (sample_bytes (bf_content f) x)" x]
      by (cases "ma_base a \<noteq> None \<or> bf_sampleRead f x") auto
  qed
qed simp

lemma ComputeFingerprint_cases:
  assumes "ma_fileHandle a = Some f" "ma_base a = None \<or> ma_base a = Some (bf_content f)"
    and "ma_fileSize a = of_nat (length (bf_content f))"
    and "0 < length (bf_content f)" "length (bf_content f) < 2 ^ 32"
  shows "ComputeFingerprint a =
    (if ma_base a \<noteq> None \<or> list_all (bf_sampleRead f) (sampled (bf_content f))
     then (True, a\<lparr>ma_fingerprint := fingerprint_of f\<rparr>) else (False, a))"
proof -
  let ?n = "min (ma_fileSize a) kSampleSize"
  let ?h = "mix (mix kFnvOffset (put64 (ma_fileSize a))) (identity_bytes (Some f))"
  have len: "unat (ma_fileSize a) = length (bf_content f)"
    using assms(3,5) by (simp add: unat_of_nat take_bit_nat_eq_self)
  then have nz: "ma_fileSize a \<noteq> 0" using assms(4) by auto
  have n: "unat ?n = min (length (bf_content f)) (unat kSampleSize)" by (simp add: unat_min len)
  let ?ok = "ma_base a \<noteq> None \<or> list_all (bf_sampleRead f) (sampled (bf_content f))"
  have "mix ?h (concat (map (sample_bytes (bf_content f)) (sampled (bf_content f)))) =
      mix kFnvOffset (fingerprint_input f)"
    by (simp add: fingerprint_input_def assms(3))
  with foldl_sample_step [OF assms(1,2) n, of ?h u64_max "sample_offsets (ma_fileSize a)"]
  obtain l where "foldl (sample_step a ?n) (Some (?h, u64_max)) (sample_offsets (ma_fileSize a)) =
      (if ?ok then Some (mix kFnvOffset (fingerprint_input f), l) else None)"
    unfolding sampled_def assms(3) by metis
  with nz show ?thesis
    by (cases ?ok) (simp_all add: ComputeFingerprint_def assms(1) fingerprint_of_def Let_def)
qed

definition open_accepts :: "bsa_file \<Rightarrow> bool \<Rightarrow> bool" where
  "open_accepts f full \<longleftrightarrow>
     bf_opens f \<and> bf_sizeKnown f \<and>
     sizeof_BSA_Header \<le> length (bf_content f) \<and> length (bf_content f) < 2 ^ 32 \<and>
     (if full then bf_mapping f \<and> bf_view f
      else bf_headerRead f \<and> list_all (bf_sampleRead f) (sampled (bf_content f))) \<and>
     header_plausible (load_bsa_header (bf_content f)) (length (bf_content f))"

definition opened :: "bytes \<Rightarrow> bsa_file \<Rightarrow> bool \<Rightarrow> MappedArchive" where
  "opened path f full =
     (let h = load_bsa_header (bf_content f) in
      \<lparr>ma_path = path, ma_fileHandle = Some f, ma_mapHandle = full,
       ma_base = (if full then Some (bf_content f) else None),
       ma_fileSize = of_nat (length (bf_content f)), ma_fingerprint = fingerprint_of f,
       ma_header = h, ma_defaultCompressed = (b_archiveFlags h AND kDefaultCompressed \<noteq> 0),
       ma_valid = True, ma_declaredSizes = Map.empty\<rparr>)"

lemma load_bsa_header_take:
  "length b \<ge> 36 \<Longrightarrow> load_bsa_header (take sizeof_BSA_Header b) = load_bsa_header b"
  by (simp add: load_bsa_header_def sizeof_BSA_Header_def drop_take get32_take)

lemma Close_update_closed: "ma_path a = p \<Longrightarrow> Close a = closed_archive p"
  by (simp add: Close_def closed_archive_def)

lemma Open_cases:
  "Open p f full a0 =
     (if open_accepts f full then (True, opened p f full) else (False, closed_archive p))"
proof (cases "bf_opens f \<and> bf_sizeKnown f \<and> sizeof_BSA_Header \<le> length (bf_content f) \<and>
    length (bf_content f) < 2 ^ 32")
  case False
  then show ?thesis
    by (auto simp: Open_def open_accepts_def Let_def not_less Close_def closed_archive_def)
next
  case True
  let ?c = "bf_content f" and ?h = "load_bsa_header (bf_content f)"
  have len: "unat (word_of_nat (length ?c) :: u64) = length ?c"
    using True by (simp add: unat_of_nat take_bit_nat_eq_self)
  define a1 where "a1 = (closed_archive p)\<lparr>ma_fileHandle := Some f, ma_fileSize := of_nat (length ?c),
    ma_mapHandle := full, ma_base := (if full then Some ?c else None)\<rparr>"
  define a2 where "a2 = a1\<lparr>ma_header := ?h,
    ma_defaultCompressed := (b_archiveFlags ?h AND kDefaultCompressed \<noteq> 0)\<rparr>"
  have parse: "ParseHeader (take sizeof_BSA_Header ?c) a1 =
      (if header_plausible ?h (length ?c) then (True, a2) else (False, a1\<lparr>ma_header := ?h\<rparr>))"
    "ParseHeader ?c a1 = (if header_plausible ?h (length ?c) then (True, a2) else (False, a1\<lparr>ma_header := ?h\<rparr>))"
    using True by (simp_all add: ParseHeader_cases load_bsa_header_take load_bsa_header_take [unfolded sizeof_BSA_Header_def]
        sizeof_BSA_Header_def a1_def a2_def len Let_def)
  have fp: "ComputeFingerprint a2 =
      (if full \<or> list_all (bf_sampleRead f) (sampled ?c)
       then (True, a2\<lparr>ma_fingerprint := fingerprint_of f\<rparr>) else (False, a2))"
    using True by (subst ComputeFingerprint_cases [where f = f]) (auto simp: a2_def a1_def sizeof_BSA_Header_def)
  have cl: "Close a2 = closed_archive p" "Close (a1\<lparr>ma_header := ?h\<rparr>) = closed_archive p"
    by (simp_all add: a2_def a1_def Close_def closed_archive_def)
  have op: "a2\<lparr>ma_fingerprint := fingerprint_of f, ma_valid := True\<rparr> = opened p f full"
    by (simp add: a2_def a1_def closed_archive_def opened_def Let_def)
  show ?thesis
  proof (cases full)
    case full: True
    then have a1: "a1 = (closed_archive p)\<lparr>ma_fileHandle := Some f, ma_fileSize := of_nat (length ?c),
        ma_mapHandle := True, ma_base := Some ?c\<rparr>" by (simp add: a1_def)
    have "Open p f full a0 = (if \<not> bf_mapping f \<or> \<not> bf_view f then (False, closed_archive p)
        else let (parsed, a6) = ParseHeader ?c a1 in
          if \<not> parsed then (False, Close a6)
          else let (fingerprinted, a7) = ComputeFingerprint a6 in
            if \<not> fingerprinted then (False, Close a7) else (True, a7\<lparr>ma_valid := True\<rparr>))"
      using True full by (cases a0) (simp add: Open_def Let_def a1 Close_def closed_archive_def)
    then show ?thesis
      using True full by (simp add: parse fp cl op open_accepts_def)
  next
    case nofull: False
    then have a1: "a1 = (closed_archive p)\<lparr>ma_fileHandle := Some f, ma_fileSize := of_nat (length ?c)\<rparr>"
      by (simp add: a1_def closed_archive_def)
    have "Open p f full a0 = (if \<not> bf_headerRead f then (False, closed_archive p)
        else let (parsed, a6) = ParseHeader (take sizeof_BSA_Header ?c) a1 in
          if \<not> parsed then (False, Close a6)
          else let (fingerprinted, a7) = ComputeFingerprint a6 in
            if \<not> fingerprinted then (False, Close a7) else (True, a7\<lparr>ma_valid := True\<rparr>))"
      using True nofull by (cases a0) (simp add: Open_def Let_def a1 Close_def closed_archive_def)
    then show ?thesis
      using True nofull by (simp add: parse fp cl op open_accepts_def)
  qed
qed

text \<open>
  C23: opening an archive, from any previous state of the object, succeeds exactly when the
  file can be opened, has a size between a header and 4 GiB, yields the bytes the mode
  needs, and carries a plausible version 104 or 105 header; it then describes that file,
  with the same fingerprint whether the file is mapped or only sampled.  Every failure
  leaves the object closed.
\<close>

theorem Open_spec:
  "Open p f full a0 =
     (if open_accepts f full then (True, opened p f full) else (False, closed_archive p))"
  by (rule Open_cases)

section \<open>Reads of an open archive\<close>

text \<open>What every archive object satisfies: when valid it describes the file it holds open,
  and what it memoizes about an entry is a failure or the entry's declared size.\<close>

definition declared_of :: "bytes \<Rightarrow> u32 \<Rightarrow> u32 option" where
  "declared_of c startOffset =
     (let s = unat startOffset;
          p = (if b_archiveFlags (load_bsa_header c) AND kEmbedFileNames = 0 then Some s
               else if s < length c \<and> c ! s \<noteq> 0 then Some (s + 1 + unat (c ! s)) else None)
      in case p of None \<Rightarrow> None
         | Some off \<Rightarrow> if off + 4 \<le> length c then nonzero_size (get32 (drop off c)) else None)"

definition describes :: "MappedArchive \<Rightarrow> bsa_file \<Rightarrow> bool" where
  "describes a f \<longleftrightarrow>
     ma_fileHandle a = Some f \<and> (ma_base a = None \<or> ma_base a = Some (bf_content f)) \<and>
     sizeof_BSA_Header \<le> length (bf_content f) \<and> length (bf_content f) < 2 ^ 32 \<and>
     ma_fileSize a = of_nat (length (bf_content f)) \<and>
     ma_header a = load_bsa_header (bf_content f) \<and>
     (\<forall>s v. ma_declaredSizes a s = Some v \<longrightarrow> v = 0 \<or> declared_of (bf_content f) s = Some v)"

definition archive_wf :: "MappedArchive \<Rightarrow> bool" where
  "archive_wf a \<longleftrightarrow> (ma_valid a \<longrightarrow> (\<exists>f. describes a f)) \<and> (\<not> ma_valid a \<longrightarrow> ma_base a = None)"

lemma describes_opened: "open_accepts f full \<Longrightarrow> describes (opened p f full) f"
  by (simp add: describes_def opened_def open_accepts_def Let_def)

lemma valid_opened [simp]: "ma_valid (opened p f full)"
  by (simp add: opened_def Let_def)

lemma opened_wf: "open_accepts f full \<Longrightarrow> archive_wf (opened p f full)"
  using describes_opened by (auto simp: archive_wf_def)

lemma Open_wf [ffc_inv]: "Open p f full a0 = (ok, a) \<Longrightarrow> archive_wf a \<and> (ma_valid a \<longleftrightarrow> ok)"
  using describes_opened [of f full p]
  by (auto simp: Open_cases archive_wf_def opened_def closed_archive_def Let_def split: if_splits)

lemma Close_wf [ffc_inv]: "archive_wf (Close a)"
  by (simp add: archive_wf_def Close_def)

lemma move_wf [ffc_inv]:
  "archive_wf other \<Longrightarrow> move_construct other = (a, b) \<Longrightarrow> archive_wf a \<and> archive_wf b \<and> a = other"
  "archive_wf other \<Longrightarrow> move_assign this other = (a, b) \<Longrightarrow> archive_wf a \<and> archive_wf b \<and> a = other"
  by (cases this; cases other; auto simp: move_construct_def move_assign_def moved_from_def
      archive_wf_def Close_def describes_def)+

lemma fileSize_describes:
  "describes a f \<Longrightarrow> unat (ma_fileSize a) = length (bf_content f)"
  by (simp add: describes_def unat_of_nat take_bit_nat_eq_self)

lemma in_file_iff:
  "describes a f \<Longrightarrow>
     (n > ma_fileSize a \<or> offset > ma_fileSize a - n) \<longleftrightarrow>
     \<not> unat offset + unat n \<le> length (bf_content f)"
proof -
  assume d: "describes a f"
  note s = fileSize_describes [OF d]
  show ?thesis
    by (cases "unat n \<le> unat (ma_fileSize a)")
      (auto simp: word_less_nat_alt s unat_sub_le word_le_nat_alt)
qed

lemma ReadAt_cases:
  assumes "describes a f" "ma_valid a"
  shows "ReadAt io a offset dest n =
    (if (0 < unat n \<longrightarrow> dest \<and> io offset n) \<and> unat offset + unat n \<le> length (bf_content f)
     then Some (byte_slice (unat offset) (unat n) (bf_content f)) else None)"
proof -
  have len: "length (bf_content f) < 4294967296" using assms(1) by (simp add: describes_def)
  have big: "unat offset + unat n \<le> length (bf_content f) \<Longrightarrow> \<not> n > u64_of_u32 u32_max"
    using len by (simp add: word_less_nat_alt del: u64_of_u32_max)
  have z: "n > 0 \<longleftrightarrow> 0 < unat n" "n = 0 \<longleftrightarrow> \<not> 0 < unat n"
    by (simp_all add: word_less_nat_alt unat_gt_0)
  from assms(1) have b: "ma_base a = None \<or> ma_base a = Some (bf_content f)" "ma_fileHandle a = Some f"
    by (simp_all add: describes_def)
  show ?thesis
    unfolding ReadAt_def in_file_iff [OF assms(1)] disj_assoc [symmetric] z
    using b big assms by (auto simp: in_file_iff [OF assms(1)] byte_slice_def split: option.splits)
qed

lemma At_cases:
  assumes "describes a f"
  shows "At a offset n =
    (if ma_base a \<noteq> None \<and> unat offset + unat n \<le> length (bf_content f) then Some offset else None)"
  using in_file_iff [OF assms, of n offset] by (auto simp: At_def split: option.splits)

text \<open>
  C24: on a valid archive a bounded read that succeeds delivers exactly the archive's bytes
  of that range, mapped or not; it fails when the range leaves the file, including when
  offset plus size wraps 64 bits, or when the copy or the read does.
\<close>

theorem ReadAt_in_bounds:
  assumes "Open p f full a0 = (True, a)"
  shows "ReadAt io a offset dest n =
    (if (0 < unat n \<longrightarrow> dest \<and> io offset n) \<and> unat offset + unat n \<le> length (bf_content f)
     then Some (byte_slice (unat offset) (unat n) (bf_content f)) else None)"
proof (rule ReadAt_cases)
  show "describes a f" "ma_valid a"
    using assms describes_opened [of f full p]
    by (auto simp: Open_cases opened_def Let_def split: if_splits)
qed

section \<open>Declared sizes\<close>

lemma declared_unfold:
  "declared_of c s =
     (if b_archiveFlags (load_bsa_header c) AND kEmbedFileNames \<noteq> 0 \<and>
         \<not> (unat s < length c \<and> c ! unat s \<noteq> 0) then None
      else
        let off = unat s + (if b_archiveFlags (load_bsa_header c) AND kEmbedFileNames \<noteq> 0
                            then 1 + unat (c ! unat s) else 0)
        in if off + 4 \<le> length c then nonzero_size (get32 (drop off c)) else None)"
  by (simp add: declared_of_def Let_def)

lemma nonzero_size_0 [simp]: "nonzero_size 0 = None"
  by (simp add: nonzero_size_def)

lemma get32_drop_slice:
  "off + 4 \<le> length c \<Longrightarrow> get32 (byte_slice off 4 c) = get32 (drop off c)"
  by (simp add: byte_slice_def get32_take)

text \<open>What is resolved is 0 or the declaration; with no failing read it is the declaration.\<close>

lemma resolve_declared_sound:
  assumes "describes a f" "ma_valid a"
    and "HasEmbeddedFileNames a \<longrightarrow> unat s < length (bf_content f) \<and> n = bf_content f ! unat s"
    and "\<not> HasEmbeddedFileNames a \<longrightarrow> n = 0"
  shows "nonzero_size (resolve_declared io a s n) =
    (if resolve_declared io a s n = 0 then None else declared_of (bf_content f) s)"
    and "(\<And>o1 k. io o1 k) \<Longrightarrow> nonzero_size (resolve_declared io a s n) = declared_of (bf_content f) s"
proof -
  let ?c = "bf_content f"
  let ?e = "HasEmbeddedFileNames a"
  have h: "?e \<longleftrightarrow> b_archiveFlags (load_bsa_header ?c) AND kEmbedFileNames \<noteq> 0"
    using assms(1) by (simp add: HasEmbeddedFileNames_def describes_def)
  note fs = fileSize_describes [OF assms(1)]
  let ?off = "unat s + (if ?e then 1 + unat n else 0)"
  have dec: "declared_of ?c s = (if ?e \<and> n = 0 then None
      else if ?off + 4 \<le> length ?c then nonzero_size (get32 (drop ?off ?c)) else None)"
    using assms(3,4) by (auto simp: declared_unfold h [symmetric] Let_def)
  have main: "resolve_declared io a s n = 0 \<or> nonzero_size (resolve_declared io a s n) = declared_of ?c s"
    and io: "(\<And>o1 k. io o1 k) \<Longrightarrow> nonzero_size (resolve_declared io a s n) = declared_of ?c s"
  proof -
    have "(resolve_declared io a s n = 0 \<or> nonzero_size (resolve_declared io a s n) = declared_of ?c s) \<and>
        ((\<forall>o1 k. io o1 k) \<longrightarrow> nonzero_size (resolve_declared io a s n) = declared_of ?c s)"
    proof (cases "SizeFieldOffset (u64_of_u32 s) (ma_fileSize a) ?e n")
      case None
      have "\<not> (\<not> (?e \<and> n = 0) \<and> ?off + 4 \<le> length ?c)"
      proof
        assume a: "\<not> (?e \<and> n = 0) \<and> ?off + 4 \<le> length ?c"
        then have "?off + 4 \<le> unat (ma_fileSize a)" by (simp add: fs)
        moreover from this have "?off < 18446744073709551616"
          using unat_u64_le [of "ma_fileSize a"] by linarith
        then have "unat (word_of_nat ?off :: u64) = ?off"
          by (subst unat_of_nat) (simp add: take_bit_nat_eq_self)
        ultimately have "SizeFieldOffset (u64_of_u32 s) (ma_fileSize a) ?e n = Some (word_of_nat ?off)"
          using a by (subst SizeFieldOffset_Some_iff) simp
        with None show False by simp
      qed
      then have "declared_of ?c s = None" by (auto simp: dec)
      then show ?thesis by (simp add: resolve_declared_def None)
    next
      case (Some off)
      then have off: "?e \<longrightarrow> n \<noteq> 0" "unat off = ?off" "unat off + 4 \<le> length ?c"
        using SizeFieldOffset_Some_iff [of "u64_of_u32 s" "ma_fileSize a" ?e n off] by (simp_all add: fs)
      then have d: "declared_of ?c s = nonzero_size (get32 (drop (unat off) ?c))"
        by (cases ?e) (simp_all add: dec)
      have r: "ReadAt io a off True 4 = (if io off 4 then Some (byte_slice (unat off) 4 ?c) else None)"
        using off(3) by (simp add: ReadAt_cases [OF assms(1,2)])
      have "DecodeLittleEndianSize (byte_slice (unat off) 4 ?c) = get32 (drop (unat off) ?c)"
        using off(3) by (simp add: DecodeLittleEndianSize_get32 get32_take byte_slice_def)
      then show ?thesis
        by (auto simp: resolve_declared_def Some r d IsUsableDeclaredSize_def Let_def)
    qed
    then show "resolve_declared io a s n = 0 \<or> nonzero_size (resolve_declared io a s n) = declared_of ?c s"
      "(\<And>o1 k. io o1 k) \<Longrightarrow> nonzero_size (resolve_declared io a s n) = declared_of ?c s" by auto
  qed
  from main show "nonzero_size (resolve_declared io a s n) =
    (if resolve_declared io a s n = 0 then None else declared_of (bf_content f) s)" by auto
  from io show "(\<And>o1 k. io o1 k) \<Longrightarrow> nonzero_size (resolve_declared io a s n) = declared_of (bf_content f) s" .
qed

definition memo_answer :: "MappedArchive \<Rightarrow> u32 \<Rightarrow> u32 option option" where
  "memo_answer a s = map_option nonzero_size (ma_declaredSizes a s)"

lemma GetDeclared_step:
  assumes "describes a f" "ma_valid a" "GetDeclaredDecompressedSize io a s = (r, a')"
  shows "describes a' f \<and> ma_valid a' \<and> memo_answer a' s = Some r \<and>
    (\<forall>t. t \<noteq> s \<or> ma_declaredSizes a s \<noteq> None \<longrightarrow> ma_declaredSizes a' t = ma_declaredSizes a t) \<and>
    (r = None \<or> r = declared_of (bf_content f) s) \<and>
    (ma_declaredSizes a s = None \<longrightarrow> (\<forall>o1 k. io o1 k) \<longrightarrow> r = declared_of (bf_content f) s)"
proof (cases "ma_declaredSizes a s")
  case (Some v)
  then have "v = 0 \<or> declared_of (bf_content f) s = Some v"
    using assms(1) by (simp add: describes_def)
  moreover have "r = nonzero_size v" "a' = a"
    using assms(3) Some by (simp_all add: GetDeclaredDecompressedSize_def)
  ultimately show ?thesis
    using assms(1,2) Some by (auto simp: memo_answer_def nonzero_size_def)
next
  case None
  let ?c = "bf_content f"
  let ?e = "HasEmbeddedFileNames a"
  have h: "?e \<longleftrightarrow> b_archiveFlags (load_bsa_header ?c) AND kEmbedFileNames \<noteq> 0"
    using assms(1) by (simp add: HasEmbeddedFileNames_def describes_def)
  have r1: "ReadAt io a (u64_of_u32 s) True 1 =
      (if io (u64_of_u32 s) 1 \<and> unat s < length ?c then Some (byte_slice (unat s) 1 ?c) else None)"
    by (auto simp: ReadAt_cases [OF assms(1,2)])
  have hd1: "unat s < length ?c \<Longrightarrow> hd (byte_slice (unat s) 1 ?c) = ?c ! unat s"
    by (simp add: byte_slice_def hd_drop_conv_nth)
  show ?thesis
  proof (cases "?e \<and> \<not> (io (u64_of_u32 s) 1 \<and> unat s < length ?c)")
    case True
    then have eq: "r = None" "a' = a\<lparr>ma_declaredSizes := (ma_declaredSizes a)(s \<mapsto> 0)\<rparr>"
      using assms(3) None r1 by (auto simp: GetDeclaredDecompressedSize_def try_emplace_def)
    have "(\<forall>o1 k. io o1 k) \<longrightarrow> declared_of ?c s = None"
      using True h by (auto simp: declared_unfold)
    then show ?thesis
      using assms(1,2) None by (auto simp: eq describes_def memo_answer_def)
  next
    case False
    define n where "n = (if ?e then ?c ! unat s else 0)"
    let ?v = "resolve_declared io a s n"
    have eq: "r = nonzero_size ?v" "a' = a\<lparr>ma_declaredSizes := (ma_declaredSizes a)(s \<mapsto> ?v)\<rparr>"
      using assms(3) None r1 False hd1
      by (auto simp: GetDeclaredDecompressedSize_def try_emplace_def n_def Let_def split: if_splits)
    have n: "?e \<longrightarrow> unat s < length ?c \<and> n = ?c ! unat s" "\<not> ?e \<longrightarrow> n = 0"
      using False by (auto simp: n_def)
    note snd = resolve_declared_sound [OF assms(1,2) n, where io = io]
    have "?v = 0 \<or> declared_of ?c s = Some ?v"
      using snd(1) by (auto simp: nonzero_size_def split: if_splits)
    then show ?thesis
      using assms(1,2) None snd by (auto simp: eq describes_def memo_answer_def split: if_splits)
  qed
qed

text \<open>A sequence of queries, each with its own I/O outcomes.\<close>

fun declared_queries ::
  "((u64 \<Rightarrow> u64 \<Rightarrow> bool) \<times> u32) list \<Rightarrow> MappedArchive \<Rightarrow> u32 option list \<times> MappedArchive" where
  "declared_queries [] a = ([], a)"
| "declared_queries ((io, s) # qs) a =
     (case GetDeclaredDecompressedSize io a s of
        (r, a') \<Rightarrow> (case declared_queries qs a' of (rs, a'') \<Rightarrow> (r # rs, a'')))"

lemma memo_stays:
  assumes "describes a f" "ma_valid a" "memo_answer a s = Some r"
    and "declared_queries qs a = (rs, a')" "i < length qs" "snd (qs ! i) = s"
  shows "rs ! i = r"
  using assms
proof (induction qs arbitrary: a rs i)
  case (Cons q qs)
  obtain io t where q: "q = (io, t)" by force
  obtain x b where x: "GetDeclaredDecompressedSize io a t = (x, b)" by force
  obtain ys where ys: "declared_queries qs b = (ys, a')" and rs: "rs = x # ys"
    using Cons.prems(4) by (auto simp: q x split: prod.splits)
  note step = GetDeclared_step [OF Cons.prems(1,2) x]
  have keep: "memo_answer b s = Some r"
    using step Cons.prems(3) by (cases "t = s") (auto simp: memo_answer_def)
  show ?case
  proof (cases i)
    case 0
    then show ?thesis using step keep Cons.prems(6) by (simp add: rs q)
  next
    case (Suc j)
    with Cons.prems(5,6) Cons.IH [of b ys j] step keep ys show ?thesis by (simp add: rs)
  qed
qed simp

lemma declared_queries_consistent:
  assumes "describes a f" "ma_valid a" "declared_queries qs a = (rs, a')"
    and "i < length qs" "j < length qs" "i \<le> j" "snd (qs ! i) = snd (qs ! j)"
  shows "rs ! i = rs ! j \<and> (rs ! i = None \<or> rs ! i = declared_of (bf_content f) (snd (qs ! i)))"
  using assms
proof (induction qs arbitrary: a rs i j)
  case (Cons q qs)
  obtain io t where q: "q = (io, t)" by force
  obtain x b where x: "GetDeclaredDecompressedSize io a t = (x, b)" by force
  obtain ys where ys: "declared_queries qs b = (ys, a')" and rs: "rs = x # ys"
    using Cons.prems(3) by (auto simp: q x split: prod.splits)
  note step = GetDeclared_step [OF Cons.prems(1,2) x]
  show ?case
  proof (cases i)
    case 0
    have "j \<noteq> 0 \<Longrightarrow> ys ! (j - 1) = x"
      using memo_stays [of b f t x qs ys a' "j - 1"] step ys Cons.prems 0 by (auto simp: q)
    with step 0 show ?thesis by (cases j) (auto simp: rs q)
  next
    case (Suc i')
    then obtain j' where "j = Suc j'" using Cons.prems(6) by (cases j) auto
    with Suc Cons.prems(4-7) step ys Cons.IH [of b ys i' j'] show ?thesis
      by (simp add: rs) metis
  qed
qed simp

text \<open>
  Over any sequence of queries of an open archive, whichever reads fail, the answers for
  one entry never change once given, and each is either absent or the size the archive
  declares for that entry.
\<close>

theorem declared_sizes_stable:
  assumes "Open p f full a0 = (True, a)" "declared_queries qs a = (rs, a')"
    and "i < length qs" "j < length qs" "i \<le> j" "snd (qs ! i) = snd (qs ! j)"
  shows "rs ! i = rs ! j \<and> (rs ! i = None \<or> rs ! i = declared_of (bf_content f) (snd (qs ! i)))"
proof (rule declared_queries_consistent [OF _ _ assms(2-)])
  show "describes a f" "ma_valid a"
    using assms(1) describes_opened [of f full p]
    by (auto simp: Open_cases opened_def Let_def split: if_splits)
qed

text \<open>A 44-byte archive with embedded names: the entry at 36 has a two-byte name and
  declares 7 bytes; a query at 40 runs off the end of the file.\<close>

definition sample_bsa :: bsa_file where
  "sample_bsa =
     \<lparr>bf_content = [0x42, 0x53, 0x41, 0] @ put32 105 @ put32 36 @ put32 0x100 @ put32 1 @ put32 1 @
        put32 0 @ put32 0 @ put32 0 @ [2, 0x61, 0x62] @ put32 7 @ [0],
      bf_opens = True, bf_sizeKnown = True, bf_mapping = True, bf_view = True,
      bf_headerRead = True, bf_identity = None, bf_sampleRead = (\<lambda>_. True)\<rparr>"

lemma sample_bsa_content:
  "bf_content sample_bsa =
     [66, 83, 65, 0, 105, 0, 0, 0, 36, 0, 0, 0, 0, 1, 0, 0, 1, 0, 0, 0, 1, 0, 0, 0, 0, 0, 0, 0,
      0, 0, 0, 0, 0, 0, 0, 0, 2, 97, 98, 7, 0, 0, 0, 0]"
  by (simp add: sample_bsa_def put32_def byte_of_def)

lemma sample_bsa_accepted: "open_accepts sample_bsa full"
proof -
  have "bf_opens sample_bsa" "bf_sizeKnown sample_bsa" "bf_mapping sample_bsa" "bf_view sample_bsa"
    "bf_headerRead sample_bsa" "bf_sampleRead sample_bsa = (\<lambda>_. True)"
    by (simp_all add: sample_bsa_def)
  then show ?thesis
    by (simp add: open_accepts_def sample_bsa_content sizeof_BSA_Header_def header_plausible_def
        load_bsa_header_def le32_def list_all_iff)
qed

lemma ReadAt_in_bounds_witness:
  "ReadAt (\<lambda>_ _. True) (opened [] sample_bsa False) 36 True 3 = Some [2, 97, 98] \<and>
   ReadAt (\<lambda>_ _. True) (opened [] sample_bsa False) 0xFFFFFFFFFFFFFFFF True 2 = None"
proof -
  have o: "Open [] sample_bsa False (closed_archive []) = (True, opened [] sample_bsa False)"
    by (simp add: Open_cases sample_bsa_accepted)
  show ?thesis
    by (simp add: ReadAt_in_bounds [OF o] sample_bsa_content byte_slice_def)
qed

lemma declared_sizes_stable_witness:
  "let (rs, a') = declared_queries [(\<lambda>_ _. True, 36), (\<lambda>_ _. False, 36)] (opened [] sample_bsa False)
   in rs ! 0 = rs ! 1 \<and> (rs ! 0 = None \<or> rs ! 0 = declared_of (bf_content sample_bsa) 36)"
proof -
  let ?qs = "[(\<lambda>_ _. True, 36), (\<lambda>_ _. False, 36)]"
  obtain rs a' where run: "declared_queries ?qs (opened [] sample_bsa False) = (rs, a')"
    by (cases "declared_queries ?qs (opened [] sample_bsa False)") simp
  have o: "Open [] sample_bsa False (closed_archive []) = (True, opened [] sample_bsa False)"
    by (simp add: Open_cases sample_bsa_accepted)
  from declared_sizes_stable [OF o run, of 0 1] show ?thesis
    by (simp add: run del: declared_queries.simps) metis
qed

lemma sample_bsa_declared: "declared_of (bf_content sample_bsa) 36 = Some 7"
  by (simp add: declared_of_def sample_bsa_content load_bsa_header_def le32_def kEmbedFileNames_def
      nonzero_size_def)

section \<open>What the fingerprint detects\<close>

lemma fnv_inverse: "kFnvPrime * 14886173955864302971 = 1"
  by (simp add: kFnvPrime_def)

lemma fnv_prime_inject [simp]: "a * kFnvPrime = b * kFnvPrime \<longleftrightarrow> a = b"
  using word_mult_cancel_inverse fnv_inverse by metis

interpretation fnv: injective_step fnv_step
  by unfold_locales (simp_all add: fnv_step_def)

lemma slice_update:
  "off + n \<le> length c \<Longrightarrow>
     byte_slice off n (c[i := b]) =
       (if off \<le> i \<and> i < off + n then (byte_slice off n c)[i - off := b] else byte_slice off n c)"
  by (auto simp: byte_slice_def list_eq_iff_nth_eq nth_list_update)

lemma mix_update:
  "j < length w \<Longrightarrow> b \<noteq> w ! j \<Longrightarrow> mix (mix h (w[j := b])) r \<noteq> mix (mix h w) r"
  unfolding mix_def using fnv.foldl_acc_inj fnv.foldl_update by blast

text \<open>The three windows of an archive of at least 16 KiB.\<close>

definition windows :: "nat \<Rightarrow> nat list" where
  "windows n = [0, n div 2, n - 4096]"

lemma sampled_windows:
  assumes "16384 \<le> length c" "length c < 2 ^ 32"
  shows "sampled c = map word_of_nat (windows (length c))"
proof -
  let ?n = "length c" and ?w = "word_of_nat (length c) :: u64"
  have w: "unat ?w = ?n"
    using assms(2) by (simp add: unat_of_nat take_bit_nat_eq_self)
  have u: "unat (word_of_nat k :: u64) = k" if "k \<le> ?n" for k
    using assms(2) that by (simp add: unat_of_nat take_bit_nat_eq_self)
  have k: "unat kSampleSize = 4096" by (simp add: kSampleSize_def)
  have m: "min ?w kSampleSize = kSampleSize"
    using assms(1) by (simp add: min_def word_le_nat_alt w k)
  have a: "?w - kSampleSize = word_of_nat (?n - 4096)"
    using assms(1) by (intro eq_word_of_nat) (simp add: unat_sub_le word_le_nat_alt w k)
  have d: "?w div 2 = word_of_nat (?n div 2)"
    by (intro eq_word_of_nat) (simp add: unat_div w)
  have e: "unat (word_of_nat (?n - 4096) :: u64) = ?n - 4096" "unat (word_of_nat (?n div 2) :: u64) = ?n div 2"
    by (rule u; simp)+
  have half: "?n div 2 \<le> ?n - 4096" using assms(1) by linarith
  have md: "min (word_of_nat (?n - 4096) :: u64) (word_of_nat (?n div 2)) = word_of_nat (?n div 2)"
    by (rule min_absorb2) (simp only: word_le_nat_alt e half)
  have gt: "?w > kSampleSize"
    using assms(1) by (simp add: word_less_nat_alt w k)
  have so: "sample_offsets ?w = [0, word_of_nat (?n div 2), word_of_nat (?n - 4096)]"
    by (simp add: sample_offsets_def Let_def m a d md gt)
  have "(0 :: u64) \<noteq> u64_max" "(word_of_nat (?n div 2) :: u64) \<noteq> 0"
    "(word_of_nat (?n - 4096) :: u64) \<noteq> word_of_nat (?n div 2)"
    using assms(1) by (simp_all add: word_unat_eq_iff e del: of_nat_diff)
  then show ?thesis
    by (simp add: sampled_def so windows_def)
qed

lemma sample_bytes_plain:
  assumes "16384 \<le> length c" "o1 \<le> length c - 4096" "length c < 2 ^ 32"
  shows "sample_bytes c (word_of_nat o1) = put64 (word_of_nat o1) @ byte_slice o1 4096 c"
proof -
  have "unat (word_of_nat o1 :: u64) = o1"
    using assms by (simp add: unat_of_nat take_bit_nat_eq_self)
  then show ?thesis
    using assms by (simp add: sample_bytes_def kSampleSize_def)
qed

lemma window_update_differs:
  assumes "16384 \<le> length c" "o1 \<le> length c - 4096" "o1 \<le> i" "i < o1 + 4096" "b \<noteq> c ! i"
  shows "mix (mix h ((byte_slice o1 4096 c)[i - o1 := b])) r \<noteq> mix (mix h (byte_slice o1 4096 c)) r"
  using assms by (intro mix_update) (auto simp: byte_slice_def)

definition three_windows :: "bytes \<Rightarrow> nat \<Rightarrow> nat \<Rightarrow> bytes" where
  "three_windows c m l =
     put64 0 @ byte_slice 0 4096 c @ put64 (word_of_nat m) @ byte_slice m 4096 c @
     put64 (word_of_nat l) @ byte_slice l 4096 c"

lemma fingerprint_input_windows:
  assumes "16384 \<le> length (bf_content f)" "length (bf_content f) < 2 ^ 32"
  defines "n \<equiv> length (bf_content f)"
  shows "fingerprint_input f =
    put64 (word_of_nat n) @ identity_bytes (Some f) @ three_windows (bf_content f) (n div 2) (n - 4096)"
proof -
  have k: "0 \<le> length (bf_content f) - 4096" "length (bf_content f) div 2 \<le> length (bf_content f) - 4096"
    using assms(1) by simp_all
  note plain = sample_bytes_plain [OF assms(1) _ assms(2)]
  show ?thesis
    unfolding fingerprint_input_def sampled_windows [OF assms(1,2)] windows_def n_def three_windows_def
    using plain [OF k(1)] plain [OF k(2)] plain [OF order_refl] by (simp del: of_nat_diff)
qed

lemma three_windows_update:
  assumes "4096 \<le> m" "m + 4096 \<le> l" "l + 4096 \<le> length c"
    and "o1 = 0 \<or> o1 = m \<or> o1 = l" "o1 \<le> i" "i < o1 + 4096" "b \<noteq> c ! i"
  shows "mix h (three_windows (c[i := b]) m l) \<noteq> mix h (three_windows c m l)"
proof -
  have b1: "byte_slice k 4096 (c[i := b]) =
      (if k \<le> i \<and> i < k + 4096 then (byte_slice k 4096 c)[i - k := b] else byte_slice k 4096 c)"
    if "k \<le> l" for k
    using that assms(3) by (intro slice_update) simp
  have d: "mix h (pre @ (byte_slice o1 4096 c)[i - o1 := b] @ r) \<noteq> mix h (pre @ byte_slice o1 4096 c @ r)" for pre r
    unfolding mix_append using assms by (intro mix_update) (auto simp: byte_slice_def)
  let ?W = "\<lambda>k. byte_slice k 4096 c"
  from assms(4) consider "o1 = 0" | "o1 = m" | "o1 = l" by blast
  then show ?thesis
  proof cases
    case 1
    then show ?thesis
      using assms(1-3,5,6) d [of "put64 0" "put64 (word_of_nat m) @ ?W m @ put64 (word_of_nat l) @ ?W l"]
      by (simp add: three_windows_def b1 del: mix_append)
  next
    case 2
    then show ?thesis
      using assms(1-3,5,6) d [of "put64 0 @ ?W 0 @ put64 (word_of_nat m)" "put64 (word_of_nat l) @ ?W l"]
      by (simp add: three_windows_def b1 del: mix_append)
  next
    case 3
    then show ?thesis
      using assms(1-3,5,6)
        d [of "put64 0 @ ?W 0 @ put64 (word_of_nat m) @ ?W m @ put64 (word_of_nat l)" "[]"]
      by (simp add: three_windows_def b1 del: mix_append)
  qed
qed

text \<open>
  In an archive of 16 KiB to 4 GiB, any single changed byte inside the three sampled
  4 KiB windows (the start, the middle, the end) changes the 64-bit hash that becomes the
  fingerprint, whatever is known of the file's identity.
\<close>

theorem fingerprint_detects_sampled_byte:
  assumes "16384 \<le> length (bf_content f)" "length (bf_content f) < 2 ^ 32"
    and "o1 \<in> set (windows (length (bf_content f)))" "o1 \<le> i" "i < o1 + 4096"
    and "b \<noteq> bf_content f ! i"
  shows "mix kFnvOffset (fingerprint_input (f\<lparr>bf_content := (bf_content f)[i := b]\<rparr>)) \<noteq>
    mix kFnvOffset (fingerprint_input f)"
proof -
  let ?f = "f\<lparr>bf_content := (bf_content f)[i := b]\<rparr>"
  have id: "identity_bytes (Some ?f) = identity_bytes (Some f)"
    by (simp add: identity_bytes_def)
  have "mix h (three_windows ((bf_content f)[i := b]) (length (bf_content f) div 2) (length (bf_content f) - 4096)) \<noteq>
      mix h (three_windows (bf_content f) (length (bf_content f) div 2) (length (bf_content f) - 4096))" for h
    using assms by (intro three_windows_update [where ?o1.0 = o1]) (auto simp: windows_def)
  moreover have "fingerprint_input ?f = put64 (word_of_nat (length (bf_content f))) @ identity_bytes (Some f) @
      three_windows ((bf_content f)[i := b]) (length (bf_content f) div 2) (length (bf_content f) - 4096)"
    using assms(1,2) fingerprint_input_windows [of ?f] by (simp add: id del: of_nat_diff)
  ultimately show ?thesis
    unfolding fingerprint_input_windows [OF assms(1,2)] by simp
qed

lemma fingerprint_detects_sampled_byte_witness:
  "let f = sample_bsa\<lparr>bf_content := replicate 16384 0\<rparr> in
     mix kFnvOffset (fingerprint_input (f\<lparr>bf_content := (bf_content f)[8200 := 1]\<rparr>)) \<noteq>
     mix kFnvOffset (fingerprint_input f)"
  using fingerprint_detects_sampled_byte
    [where f = "sample_bsa\<lparr>bf_content := replicate 16384 0\<rparr>" and i = 8200 and ?o1.0 = 8192 and b = 1]
  by (simp add: windows_def Let_def)

end
