(* ===== verification/BsaManager.thy ===== *)
theory BsaManager
  imports BsaArchive "HOL-Library.Multiset"
begin

text \<open>
  \<open>BSA::MemoryMapManager\<close> of Skyrim/src/BSAMemoryMap.cpp: the scan of the Data directory
  and the lookup of an archive by name.  File names are the bytes that \<open>PathForLog\<close> gives;
  the directory listing and the path resolution are parameters.  So is the algorithm of
  \<open>std::sort\<close>, of which only the documented result is known: a sorted permutation, which leaves
  names that are equal in lower case in any order.
\<close>

definition LowerASCII :: "bytes \<Rightarrow> bytes" where
  "LowerASCII a_value = map (\<lambda>c. if 0x41 \<le> c \<and> c \<le> 0x5A then c + 0x20 else c) a_value"

text \<open>\<open>std::filesystem::path::extension\<close> of a file name.\<close>

definition extension :: "bytes \<Rightarrow> bytes" where
  "extension name =
     (if name = [0x2E] \<or> name = [0x2E, 0x2E] then []
      else
        let suffix = rev (takeWhile (\<lambda>c. c \<noteq> 0x2E) (rev name));
            stem = take (length name - length suffix) name
        in if length stem \<le> 1 then [] else 0x2E # suffix)"

record dir_entry =
  de_name :: bytes
  de_regular :: bool
  de_file :: bsa_file

record MemoryMapManager =
  mm_archives :: "MappedArchive list"
  mm_nameIndex :: "bytes \<rightharpoonup> u32"
  mm_initializedPath :: bytes
  mm_initializedMapFull :: bool

definition empty_manager :: MemoryMapManager where
  "empty_manager = \<lparr>mm_archives = [], mm_nameIndex = Map.empty, mm_initializedPath = [],
     mm_initializedMapFull = False\<rparr>"

record scan_env =
  se_absolute :: "bytes option"
  se_isDirectory :: bool
  se_entries :: "dir_entry list"
  se_sort :: "dir_entry list \<Rightarrow> dir_entry list"
  se_bEnableMmap :: bool
  se_bBaselineMode :: bool
  se_bWine :: bool

definition scan_mapFull :: "scan_env \<Rightarrow> bool" where
  "scan_mapFull env \<longleftrightarrow> se_bEnableMmap env \<and> \<not> se_bBaselineMode env \<and> \<not> se_bWine env"

definition entry_path :: "bytes \<Rightarrow> dir_entry \<Rightarrow> bytes" where
  "entry_path dir e = dir @ [0x5C] @ de_name e"

text \<open>The bytes of \<open>.bsa\<close>.\<close>

definition bsa_extension :: bytes where "bsa_extension = [0x2E, 0x62, 0x73, 0x61]"

definition bsa_candidate :: "dir_entry \<Rightarrow> bool" where
  "bsa_candidate e \<longleftrightarrow> de_regular e \<and> LowerASCII (extension (de_name e)) = bsa_extension"

definition scan_paths :: "scan_env \<Rightarrow> dir_entry list" where
  "scan_paths env = se_sort env (filter bsa_candidate (se_entries env))"

text \<open>What \<open>std::sort\<close> documents for the comparison of the lower-cased names.\<close>

definition sorts_names :: "(dir_entry list \<Rightarrow> dir_entry list) \<Rightarrow> bool" where
  "sorts_names srt \<longleftrightarrow>
     (\<forall>es. mset (srt es) = mset es \<and> sorted (map (\<lambda>e. LowerASCII (de_name e)) (srt es)))"

definition load_archive :: "bytes \<Rightarrow> bool \<Rightarrow> MemoryMapManager \<Rightarrow> dir_entry \<Rightarrow> MemoryMapManager" where
  "load_archive dir mapFull m e =
     (case Open (entry_path dir e) (de_file e) mapFull (closed_archive []) of
        (ok, archive) \<Rightarrow>
          if \<not> ok then m
          else
            let lowerName = LowerASCII (de_name e) in
            if mm_nameIndex m lowerName \<noteq> None then m
            else
              let idx = of_nat (length (mm_archives m))
              in m\<lparr>mm_nameIndex := (mm_nameIndex m)(lowerName \<mapsto> idx),
                   mm_archives := mm_archives m @ [archive]\<rparr>)"

definition Initialize :: "scan_env \<Rightarrow> MemoryMapManager \<Rightarrow> bool \<times> MemoryMapManager" where
  "Initialize env m =
     (case se_absolute env of
        None \<Rightarrow> (False, m)
      | Some normalizedPath \<Rightarrow>
          let mapFull = scan_mapFull env in
          if mm_archives m \<noteq> [] then
            (mm_initializedPath m = normalizedPath \<and> mm_initializedMapFull m = mapFull, m)
          else if \<not> se_isDirectory env then (False, m)
          else
            let m1 = foldl (load_archive normalizedPath mapFull) m (scan_paths env);
                loaded = length (mm_archives m1)
            in if loaded > 0
               then (True, m1\<lparr>mm_initializedPath := normalizedPath, mm_initializedMapFull := mapFull\<rparr>)
               else (False, m1))"

definition Shutdown :: "MemoryMapManager \<Rightarrow> MemoryMapManager" where
  "Shutdown m =
     (if mm_archives m = [] then m
      else m\<lparr>mm_nameIndex := Map.empty, mm_archives := [], mm_initializedPath := [],
             mm_initializedMapFull := False\<rparr>)"

definition FindByName :: "bytes \<Rightarrow> MemoryMapManager \<Rightarrow> MappedArchive option" where
  "FindByName filename m =
     (case mm_nameIndex m (LowerASCII filename) of
        None \<Rightarrow> None
      | Some idx \<Rightarrow> if unat idx < length (mm_archives m) then Some (mm_archives m ! unat idx) else None)"

definition GetTotalMappedBytes :: "MemoryMapManager \<Rightarrow> u64" where
  "GetTotalMappedBytes m =
     foldl (\<lambda>total a. if IsMapped a then total + ma_fileSize a else total) 0 (mm_archives m)"

section \<open>What a scan makes findable\<close>

text \<open>The index names archives that exist, one name each.\<close>

definition manager_wf :: "MemoryMapManager \<Rightarrow> bool" where
  "manager_wf m \<longleftrightarrow>
     (\<forall>name idx. mm_nameIndex m name = Some idx \<longrightarrow> unat idx < length (mm_archives m)) \<and>
     (\<forall>i < length (mm_archives m). \<exists>name. mm_nameIndex m name = Some (of_nat i)) \<and>
     (\<forall>a b idx. mm_nameIndex m a = Some idx \<longrightarrow> mm_nameIndex m b = Some idx \<longrightarrow> a = b) \<and>
     (\<forall>a \<in> set (mm_archives m). archive_wf a \<and> ma_valid a)"

definition usable :: "bool \<Rightarrow> dir_entry \<Rightarrow> bool" where
  "usable mapFull e \<longleftrightarrow> open_accepts (de_file e) mapFull"

definition scan_inv :: "bytes \<Rightarrow> bool \<Rightarrow> dir_entry list \<Rightarrow> MemoryMapManager \<Rightarrow> bool" where
  "scan_inv dir mapFull es m \<longleftrightarrow>
     manager_wf m \<and> length (mm_archives m) \<le> length es \<and>
     (\<forall>name. map_option (\<lambda>idx. mm_archives m ! unat idx) (mm_nameIndex m name) =
        map_option (\<lambda>e. opened (entry_path dir e) (de_file e) mapFull)
          (find (\<lambda>e. LowerASCII (de_name e) = name \<and> usable mapFull e) es))"

lemma manager_wf_empty: "manager_wf empty_manager"
  by (simp add: manager_wf_def empty_manager_def)

lemma scan_inv_Nil: "scan_inv dir mapFull [] empty_manager"
  by (simp add: scan_inv_def manager_wf_empty) (simp add: empty_manager_def)

lemma scan_paths_set:
  assumes "sorts_names (se_sort env)"
  shows "set (scan_paths env) = {e \<in> set (se_entries env). bsa_candidate e}"
    and "length (scan_paths env) \<le> length (se_entries env)"
proof -
  have m: "mset (scan_paths env) = mset (filter bsa_candidate (se_entries env))"
    using assms by (simp add: sorts_names_def scan_paths_def)
  from mset_eq_setD [OF m] show "set (scan_paths env) = {e \<in> set (se_entries env). bsa_candidate e}" by auto
  from mset_eq_length [OF m] show "length (scan_paths env) \<le> length (se_entries env)" by simp
qed

lemma find_snoc: "find P (xs @ [x]) = (case find P xs of None \<Rightarrow> if P x then Some x else None | Some y \<Rightarrow> Some y)"
  by (induction xs) auto

lemma find_in_set: "find P xs = Some x \<Longrightarrow> x \<in> set xs \<and> P x"
  by (induction xs) (auto split: if_splits)

lemma load_archive_cases:
  "load_archive dir mapFull m e =
     (if usable mapFull e \<and> mm_nameIndex m (LowerASCII (de_name e)) = None
      then m\<lparr>mm_nameIndex := (mm_nameIndex m)(LowerASCII (de_name e) \<mapsto> of_nat (length (mm_archives m))),
             mm_archives := mm_archives m @ [opened (entry_path dir e) (de_file e) mapFull]\<rparr>
      else m)"
  by (simp add: load_archive_def Open_cases usable_def Let_def)

lemma load_archive_inv:
  assumes "scan_inv dir mapFull es m" "length es < 2 ^ 32"
  shows "scan_inv dir mapFull (es @ [e]) (load_archive dir mapFull m e)"
proof -
  let ?n = "LowerASCII (de_name e)" and ?k = "length (mm_archives m)"
  have wf: "manager_wf m" and len: "?k \<le> length es"
    and look: "\<And>name. map_option (\<lambda>idx. mm_archives m ! unat idx) (mm_nameIndex m name) =
        map_option (\<lambda>e. opened (entry_path dir e) (de_file e) mapFull)
          (find (\<lambda>e. LowerASCII (de_name e) = name \<and> usable mapFull e) es)"
    using assms(1) by (auto simp: scan_inv_def)
  have k: "unat (word_of_nat ?k :: u32) = ?k"
    using len assms(2) by (simp add: unat_of_nat take_bit_nat_eq_self)
  have ran: "\<And>name idx. mm_nameIndex m name = Some idx \<Longrightarrow> unat idx < ?k"
    using wf by (auto simp: manager_wf_def)
  show ?thesis
  proof (cases "usable mapFull e \<and> mm_nameIndex m ?n = None")
    case False
    have eq: "load_archive dir mapFull m e = m"
      using False unfolding load_archive_cases by (rule if_not_P)
    have "\<And>name. find (\<lambda>e. LowerASCII (de_name e) = name \<and> usable mapFull e) (es @ [e]) =
        find (\<lambda>e. LowerASCII (de_name e) = name \<and> usable mapFull e) es"
      using False look [of ?n] by (auto simp: find_snoc split: option.splits)
    then show ?thesis
      using wf len look by (simp add: scan_inv_def eq)
  next
    case True
    let ?a = "opened (entry_path dir e) (de_file e) mapFull"
    let ?m = "m\<lparr>mm_nameIndex := (mm_nameIndex m)(?n \<mapsto> word_of_nat ?k), mm_archives := mm_archives m @ [?a]\<rparr>"
    have eq: "load_archive dir mapFull m e = ?m" using True by (simp add: load_archive_cases)
    have av: "archive_wf ?a \<and> ma_valid ?a"
      using True by (simp add: usable_def opened_wf)
    have fresh: "\<And>name idx. mm_nameIndex m name = Some idx \<Longrightarrow> idx \<noteq> word_of_nat ?k"
      using ran k by (metis less_irrefl)
    have old: "\<exists>name. mm_nameIndex m name = Some (word_of_nat i) \<and> name \<noteq> ?n" if "i < ?k" for i
      using wf that True unfolding manager_wf_def by (metis option.distinct(1))
    have named: "\<exists>name. mm_nameIndex ?m name = Some (word_of_nat i)" if "i < Suc ?k" for i
      using old [of i] that by (cases "i = ?k") (auto simp: less_Suc_eq)
    have ran': "unat idx < Suc ?k" if "mm_nameIndex ?m name = Some idx" for name idx
      using that ran k by (fastforce split: if_splits)
    have oldinj: "\<And>a b idx. mm_nameIndex m a = Some idx \<Longrightarrow> mm_nameIndex m b = Some idx \<Longrightarrow> a = b"
      using wf by (auto simp: manager_wf_def)
    have inj: "a = b" if "mm_nameIndex ?m a = Some idx" "mm_nameIndex ?m b = Some idx" for a b idx
    proof -
      have "mm_nameIndex m x = Some idx \<and> x \<noteq> ?n \<or> x = ?n \<and> idx = word_of_nat ?k"
        if "mm_nameIndex ?m x = Some idx" for x
        using that by (cases "x = ?n") simp_all
      from this [OF that(1)] this [OF that(2)] show ?thesis using oldinj fresh by blast
    qed
    have "manager_wf ?m"
      unfolding manager_wf_def
    proof (intro conjI allI impI ballI)
      show "unat idx < length (mm_archives ?m)" if "mm_nameIndex ?m name = Some idx" for name idx
        using ran' [OF that] by simp
      show "\<exists>name. mm_nameIndex ?m name = Some (word_of_nat i)" if "i < length (mm_archives ?m)" for i
        using that by (intro named) simp
      show "a = b" if "mm_nameIndex ?m a = Some idx" "mm_nameIndex ?m b = Some idx" for a b idx
        using that by (rule inj)
      show "archive_wf a" "ma_valid a" if "a \<in> set (mm_archives ?m)" for a
        using that av wf by (auto simp: manager_wf_def)
    qed
    moreover have none: "find (\<lambda>e. LowerASCII (de_name e) = ?n \<and> usable mapFull e) es = None"
      using True look [of ?n] by simp
    have "map_option (\<lambda>idx. mm_archives ?m ! unat idx) (mm_nameIndex ?m name) =
        map_option (\<lambda>e. opened (entry_path dir e) (de_file e) mapFull)
          (find (\<lambda>e. LowerASCII (de_name e) = name \<and> usable mapFull e) (es @ [e]))" for name
    proof (cases "name = ?n")
      case True
      then show ?thesis
        using none \<open>usable mapFull e \<and> _\<close> by (simp add: find_snoc k nth_append)
    next
      case False
      have "map_option (\<lambda>idx. (mm_archives m @ [?a]) ! unat idx) (mm_nameIndex m name) =
          map_option (\<lambda>idx. mm_archives m ! unat idx) (mm_nameIndex m name)"
        using ran [of name] by (cases "mm_nameIndex m name") (auto simp: nth_append)
      with False look [of name] show ?thesis
        by (auto simp: find_snoc split: option.splits)
    qed
    ultimately show ?thesis
      using len by (simp add: scan_inv_def eq)
  qed
qed

lemma foldl_load_inv:
  "length es < 2 ^ 32 \<Longrightarrow>
     scan_inv dir mapFull es (foldl (load_archive dir mapFull) empty_manager es)"
  by (induction es rule: rev_induct) (simp_all add: scan_inv_Nil load_archive_inv)

lemma scan_inv_wf: "scan_inv dir mapFull es m \<Longrightarrow> manager_wf m"
  by (simp add: scan_inv_def)

lemma manager_wf_path [simp]:
  "manager_wf (m\<lparr>mm_initializedPath := p, mm_initializedMapFull := b\<rparr>) = manager_wf m"
  by (simp add: manager_wf_def)

lemma no_archives [simp]: "mm_archives empty_manager = []"
  by (simp add: empty_manager_def)

lemma scan_inv_FindByName:
  assumes "scan_inv dir mapFull es m"
  shows "FindByName q m = map_option (\<lambda>e. opened (entry_path dir e) (de_file e) mapFull)
    (find (\<lambda>e. LowerASCII (de_name e) = LowerASCII q \<and> usable mapFull e) es)"
proof -
  have "FindByName q m = map_option (\<lambda>idx. mm_archives m ! unat idx) (mm_nameIndex m (LowerASCII q))"
    using assms by (cases "mm_nameIndex m (LowerASCII q)")
      (auto simp: FindByName_def scan_inv_def manager_wf_def simp del: map_option_eq_Some)
  with assms show ?thesis by (simp add: scan_inv_def)
qed

lemma scan_inv_loaded:
  assumes "scan_inv dir mapFull es m"
  shows "mm_archives m = [] \<longleftrightarrow> \<not> list_ex (usable mapFull) es"
proof
  assume empty: "mm_archives m = []"
  have "find (\<lambda>e. LowerASCII (de_name e) = name \<and> usable mapFull e) es = None" for name
  proof -
    have "mm_nameIndex m name = None"
      using assms empty by (cases "mm_nameIndex m name") (auto simp: scan_inv_def manager_wf_def)
    then show ?thesis using assms by (auto simp: scan_inv_def dest!: spec [of _ name])
  qed
  then show "\<not> list_ex (usable mapFull) es"
    by (force simp: find_None_iff list_ex_iff)
next
  assume none: "\<not> list_ex (usable mapFull) es"
  show "mm_archives m = []"
  proof (rule ccontr)
    assume "mm_archives m \<noteq> []"
    then obtain name where "mm_nameIndex m name = Some (of_nat 0)"
      using assms unfolding scan_inv_def manager_wf_def by blast
    moreover have "find (\<lambda>e. LowerASCII (de_name e) = name \<and> usable mapFull e) es = None"
      using none by (auto simp: find_None_iff list_ex_iff)
    ultimately show False using assms by (auto simp: scan_inv_def dest!: spec [of _ name])
  qed
qed

lemma Initialize_wf [ffc_inv]:
  assumes "Initialize env m = (ok, m')" "m = empty_manager \<or> mm_archives m \<noteq> [] \<and> manager_wf m"
    and "length (se_entries env) < 2 ^ 32" "sorts_names (se_sort env)"
  shows "manager_wf m'"
proof -
  have l: "length (scan_paths env) < 2 ^ 32"
    using scan_paths_set(2) [OF assms(4)] assms(3) by (rule le_less_trans)
  show ?thesis
    using assms(1,2) scan_inv_wf [OF foldl_load_inv [OF l]] manager_wf_empty
    by (auto simp: Initialize_def Let_def split: option.splits if_splits)
qed

lemma Shutdown_wf [ffc_inv]: "manager_wf m \<Longrightarrow> manager_wf (Shutdown m)"
  by (auto simp: Shutdown_def manager_wf_def)

text \<open>A manager without archives is as it was constructed.\<close>

lemma scan_inv_empty:
  assumes "scan_inv dir mapFull es m" "mm_archives m = []" "mm_initializedPath m = []"
    "\<not> mm_initializedMapFull m"
  shows "m = empty_manager"
proof -
  have "mm_nameIndex m name = None" for name
    using assms(1,2) by (cases "mm_nameIndex m name") (auto simp: scan_inv_def manager_wf_def)
  then have "mm_nameIndex m = Map.empty" by (rule ext)
  with assms(2-4) show ?thesis by (simp add: empty_manager_def)
qed

lemma load_archive_keeps:
  "mm_initializedPath (foldl (load_archive dir mapFull) m es) = mm_initializedPath m"
  "mm_initializedMapFull (foldl (load_archive dir mapFull) m es) = mm_initializedMapFull m"
  by (induction es arbitrary: m) (simp_all add: load_archive_cases)


text \<open>An archive and a text file.\<close>

definition sample_scan :: scan_env where
  "sample_scan =
     \<lparr>se_absolute = Some [0x44], se_isDirectory = True,
      se_entries =
        [\<lparr>de_name = [0x62, 0x2E, 0x42, 0x53, 0x41], de_regular = True, de_file = sample_bsa\<rparr>,
         \<lparr>de_name = [0x61, 0x2E, 0x74, 0x78, 0x74], de_regular = True, de_file = sample_bsa\<rparr>],
      se_sort = sort_key (\<lambda>e. LowerASCII (de_name e)),
      se_bEnableMmap = True, se_bBaselineMode = False, se_bWine = True\<rparr>"


end
