(* ===== verification/SectionSelect.thy ===== *)
theory SectionSelect
  imports FFC_Prelude
begin

text \<open>
  Skyrim/src/PESectionSelect.h and \<open>InitModuleRanges\<close> of Skyrim/src/Hooks.cpp: finding
  the trusted \<open>.rdata\<close> range of the game executable from its PE section table.  Pointers
  are 64-bit words (x86-64); the mapped image is a parameter, described by the fields the
  code reads.
\<close>

definition kShortNameSize :: nat where "kShortNameSize = 8"

record AddressRange =
  ar_begin :: u64
  ar_end :: u64
  ar_virtualSize :: u32

definition empty_range :: AddressRange where
  "empty_range = \<lparr>ar_begin = 0, ar_end = 0, ar_virtualSize = 0\<rparr>"

definition range_bool :: "AddressRange \<Rightarrow> bool" where
  "range_bool r \<longleftrightarrow> ar_begin r < ar_end r \<and> ar_virtualSize r > 0"

text \<open>The two loops of \<open>ExactName\<close>; a null name pointer is \<open>None\<close>, and \<open>name\<close> has the
  eight bytes of the section header's fixed-width field.\<close>

definition ExactName :: "bytes option \<Rightarrow> bytes \<Rightarrow> bool" where
  "ExactName name expected =
     (case name of
        None \<Rightarrow> False
      | Some n \<Rightarrow>
          if expected = [] \<or> length expected > kShortNameSize then False
          else list_all (\<lambda>i. n ! i = expected ! i) [0..<length expected] \<and>
               list_all (\<lambda>i. n ! i = 0) [length expected..<kShortNameSize])"

definition Consider ::
  "AddressRange \<Rightarrow> u64 \<Rightarrow> bytes option \<Rightarrow> bytes \<Rightarrow> u32 \<Rightarrow> u32 \<Rightarrow> u32 \<Rightarrow> u32 \<Rightarrow>
     bool \<times> AddressRange" where
  "Consider selected imageBase name expectedName virtualAddress virtualSize characteristics
     requiredCharacteristics =
     (if \<not> ExactName name expectedName \<or> virtualSize = 0 \<or>
         characteristics AND requiredCharacteristics \<noteq> requiredCharacteristics \<or>
         u64_of_u32 virtualAddress > u64_max - imageBase
      then (False, selected)
      else
        let begin' = imageBase + u64_of_u32 virtualAddress in
        if u64_of_u32 virtualSize > u64_max - begin' then (False, selected)
        else
          let end' = begin' + u64_of_u32 virtualSize in
          if begin' \<ge> end' then (False, selected)
          else if \<not> range_bool selected \<or> virtualSize > ar_virtualSize selected
          then (True, \<lparr>ar_begin = begin', ar_end = end', ar_virtualSize = virtualSize\<rparr>)
          else (True, selected))"

section \<open>The section table\<close>

record pe_section =
  ps_name :: bytes
  ps_virtualAddress :: u32
  ps_virtualSize :: u32
  ps_characteristics :: u32

record pe_image =
  pi_base :: u64
  pi_e_magic :: "16 word"
  pi_e_lfanew :: u32
  pi_signature :: u32
  pi_sections :: "pe_section list"

definition IMAGE_DOS_SIGNATURE :: "16 word" where "IMAGE_DOS_SIGNATURE = 0x5A4D"
definition IMAGE_NT_SIGNATURE :: u32 where "IMAGE_NT_SIGNATURE = 0x4550"
definition IMAGE_SCN_MEM_READ :: u32 where "IMAGE_SCN_MEM_READ = 0x40000000"

text \<open>The bytes of the literal \<open>.rdata\<close>.\<close>

definition rdata_name :: bytes where "rdata_name = [0x2e, 0x72, 0x64, 0x61, 0x74, 0x61]"

definition consider_rdata :: "u64 \<Rightarrow> AddressRange \<Rightarrow> pe_section \<Rightarrow> AddressRange" where
  "consider_rdata base rdata s =
     snd (Consider rdata base (Some (ps_name s)) rdata_name (ps_virtualAddress s)
            (ps_virtualSize s) (ps_characteristics s) IMAGE_SCN_MEM_READ)"

text \<open>
  The result is the return value with the new \<open>s_rdataStart\<close> and \<open>s_rdataEnd\<close>; the early
  returns leave those two as they were (\<open>None\<close>).  \<open>e_lfanew\<close> is a signed 32-bit field.
\<close>

definition InitModuleRanges :: "pe_image \<Rightarrow> bool \<times> (u64 \<times> u64) option" where
  "InitModuleRanges im =
     (if pi_base im = 0 then (False, None)
      else if pi_e_magic im \<noteq> IMAGE_DOS_SIGNATURE \<or> sint (pi_e_lfanew im) \<le> 0 then (False, None)
      else if pi_signature im \<noteq> IMAGE_NT_SIGNATURE then (False, None)
      else
        let rdata = foldl (consider_rdata (pi_base im)) empty_range (pi_sections im)
        in (ar_begin rdata < ar_end rdata, Some (ar_begin rdata, ar_end rdata)))"

section \<open>What is selected\<close>

lemma ExactName_iff:
  assumes "length n = kShortNameSize"
  shows "ExactName (Some n) e \<longleftrightarrow>
    e \<noteq> [] \<and> length e \<le> kShortNameSize \<and> n = e @ replicate (kShortNameSize - length e) 0"
proof -
  have "n = e @ replicate (kShortNameSize - length e) 0 \<longleftrightarrow>
      (\<forall>i < length e. n ! i = e ! i) \<and> (\<forall>i \<in> {length e..<kShortNameSize}. n ! i = 0)"
    if "length e \<le> kShortNameSize"
    using assms that by (auto simp: list_eq_iff_nth_eq nth_append)
  then show ?thesis
    by (auto simp: ExactName_def list_all_iff)
qed

definition section_range :: "u64 \<Rightarrow> pe_section \<Rightarrow> AddressRange" where
  "section_range base s =
     \<lparr>ar_begin = base + u64_of_u32 (ps_virtualAddress s),
      ar_end = base + u64_of_u32 (ps_virtualAddress s) + u64_of_u32 (ps_virtualSize s),
      ar_virtualSize = ps_virtualSize s\<rparr>"

text \<open>A section that may hold the trusted range: the exact name, readable, not empty, and
  wholly inside the address space.\<close>

definition eligible :: "u64 \<Rightarrow> pe_section \<Rightarrow> bool" where
  "eligible base s \<longleftrightarrow>
     ExactName (Some (ps_name s)) rdata_name \<and>
     ps_characteristics s AND IMAGE_SCN_MEM_READ = IMAGE_SCN_MEM_READ \<and>
     0 < unat (ps_virtualSize s) \<and>
     unat base + unat (ps_virtualAddress s) + unat (ps_virtualSize s) < 2 ^ 64"

lemma section_range_bounds:
  assumes "eligible base s"
  shows "unat (ar_begin (section_range base s)) = unat base + unat (ps_virtualAddress s)"
    "unat (ar_end (section_range base s)) =
       unat base + unat (ps_virtualAddress s) + unat (ps_virtualSize s)"
    "range_bool (section_range base s)"
proof -
  have e: "unat base + unat (ps_virtualAddress s) + unat (ps_virtualSize s) < 2 ^ 64"
    and p: "0 < unat (ps_virtualSize s)"
    using assms by (simp_all add: eligible_def)
  have b: "unat (base + u64_of_u32 (ps_virtualAddress s)) = unat base + unat (ps_virtualAddress s)"
    using e by (subst unat_add_noovf) simp_all
  show "unat (ar_begin (section_range base s)) = unat base + unat (ps_virtualAddress s)"
    by (simp add: section_range_def b)
  moreover show "unat (ar_end (section_range base s)) =
       unat base + unat (ps_virtualAddress s) + unat (ps_virtualSize s)"
    using e b by (simp add: section_range_def) (subst unat_add_noovf; simp)
  ultimately show "range_bool (section_range base s)"
    using p by (simp add: range_bool_def word_less_nat_alt section_range_def)
qed

lemma consider_rdata_cases:
  "consider_rdata base r s =
     (if eligible base s \<and> (\<not> range_bool r \<or> ps_virtualSize s > ar_virtualSize r)
      then section_range base s else r)"
proof -
  let ?va = "u64_of_u32 (ps_virtualAddress s)" and ?vs = "u64_of_u32 (ps_virtualSize s)"
  have g1: "?va > u64_max - base \<longleftrightarrow> AddChecked base ?va = None"
    by (simp add: AddChecked_def)
  have g2: "?vs > u64_max - (base + ?va) \<longleftrightarrow> AddChecked (base + ?va) ?vs = None"
    by (simp add: AddChecked_def)
  have el: "eligible base s \<longleftrightarrow> ExactName (Some (ps_name s)) rdata_name \<and> ps_virtualSize s \<noteq> 0 \<and>
      ps_characteristics s AND IMAGE_SCN_MEM_READ = IMAGE_SCN_MEM_READ \<and>
      AddChecked base ?va \<noteq> None \<and> AddChecked (base + ?va) ?vs \<noteq> None"
  proof (cases "unat base + unat (ps_virtualAddress s) < 2 ^ 64")
    case True
    then have "unat (base + ?va) = unat base + unat (ps_virtualAddress s)"
      by (subst unat_add_noovf) simp_all
    with True show ?thesis
      by (auto simp: eligible_def AddChecked_None_iff unat_gt_0 simp del: AddChecked_def)
  qed (auto simp: eligible_def AddChecked_None_iff)
  have ord: "eligible base s \<Longrightarrow> \<not> base + ?va \<ge> base + ?va + ?vs"
    using section_range_bounds [of base s] by (simp add: section_range_def range_bool_def not_le)
  show ?thesis
  proof (cases "eligible base s")
    case True
    with el ord show ?thesis
      by (auto simp: consider_rdata_def Consider_def g1 g2 section_range_def Let_def)
  next
    case False
    with el show ?thesis
      by (auto simp: consider_rdata_def Consider_def g1 g2 Let_def)
  qed
qed

text \<open>The range of the first among the largest eligible sections, if there is one.\<close>

definition largest_at :: "u64 \<Rightarrow> pe_section list \<Rightarrow> nat \<Rightarrow> bool" where
  "largest_at base ss i \<longleftrightarrow> i < length ss \<and> eligible base (ss ! i) \<and>
     (\<forall>j < length ss. eligible base (ss ! j) \<longrightarrow>
        ps_virtualSize (ss ! j) < ps_virtualSize (ss ! i) \<or>
        ps_virtualSize (ss ! j) = ps_virtualSize (ss ! i) \<and> i \<le> j)"

definition selects :: "u64 \<Rightarrow> pe_section list \<Rightarrow> AddressRange \<Rightarrow> bool" where
  "selects base ss r \<longleftrightarrow>
     (if list_ex (eligible base) ss then \<exists>i. largest_at base ss i \<and> r = section_range base (ss ! i)
      else r = empty_range)"

lemma selects_snoc:
  assumes "selects base ss r"
  shows "selects base (ss @ [s]) (consider_rdata base r s)"
proof (cases "list_ex (eligible base) ss")
  case False
  then have "r = empty_range" using assms by (simp add: selects_def)
  then have c: "consider_rdata base r s = (if eligible base s then section_range base s else empty_range)"
    by (simp add: consider_rdata_cases empty_range_def range_bool_def)
  have no: "\<And>j. j < length ss \<Longrightarrow> \<not> eligible base (ss ! j)"
    using False by (auto simp: list_ex_iff)
  have "eligible base s \<Longrightarrow> largest_at base (ss @ [s]) (length ss)"
    using no by (auto simp: largest_at_def nth_append less_Suc_eq)
  then show ?thesis
    using False by (auto simp: selects_def c intro!: exI [of _ "length ss"])
next
  case True
  then obtain i where i: "largest_at base ss i" "r = section_range base (ss ! i)"
    using assms by (auto simp: selects_def)
  then have rb: "range_bool r" "ar_virtualSize r = ps_virtualSize (ss ! i)"
    using section_range_bounds(3) by (auto simp: section_range_def largest_at_def)
  show ?thesis
  proof (cases "eligible base s \<and> ps_virtualSize s > ps_virtualSize (ss ! i)")
    case new: True
    then have "largest_at base (ss @ [s]) (length ss)"
      using i(1) by (force simp: largest_at_def nth_append less_Suc_eq)
    with new rb True show ?thesis
      by (auto simp: selects_def consider_rdata_cases intro!: exI [of _ "length ss"])
  next
    case old: False
    then have "largest_at base (ss @ [s]) i"
      using i(1) by (auto simp: largest_at_def nth_append less_Suc_eq not_less le_less)
    moreover from old have "consider_rdata base r s = r" using rb by (auto simp: consider_rdata_cases)
    ultimately show ?thesis
      using True i by (auto simp: selects_def nth_append largest_at_def intro!: exI [of _ i])
  qed
qed

lemma foldl_consider_selects:
  "selects base ss (foldl (consider_rdata base) empty_range ss)"
  by (induction ss rule: rev_induct) (simp_all add: selects_def [of _ "[]"] selects_snoc)

definition pe_headers_ok :: "pe_image \<Rightarrow> bool" where
  "pe_headers_ok im \<longleftrightarrow>
     pi_base im \<noteq> 0 \<and> pi_e_magic im = IMAGE_DOS_SIGNATURE \<and> 0 < sint (pi_e_lfanew im) \<and>
     pi_signature im = IMAGE_NT_SIGNATURE"

text \<open>
  On a well-formed image the trusted range is that of the first of the largest readable
  sections named exactly \<open>.rdata\<close>; when there is none, initialisation fails.  No header can
  make the range wrap the address space.
\<close>

theorem InitModuleRanges_selects_largest:
  "case InitModuleRanges im of
     (ok, None) \<Rightarrow> \<not> ok \<and> \<not> pe_headers_ok im
   | (ok, Some (b, e)) \<Rightarrow>
       pe_headers_ok im \<and> (ok \<longleftrightarrow> list_ex (eligible (pi_base im)) (pi_sections im)) \<and>
       (\<exists>r. selects (pi_base im) (pi_sections im) r \<and> b = ar_begin r \<and> e = ar_end r)"
proof -
  let ?r = "foldl (consider_rdata (pi_base im)) empty_range (pi_sections im)"
  have s: "selects (pi_base im) (pi_sections im) ?r" by (rule foldl_consider_selects)
  have "ar_begin ?r < ar_end ?r \<longleftrightarrow> list_ex (eligible (pi_base im)) (pi_sections im)"
  proof (cases "list_ex (eligible (pi_base im)) (pi_sections im)")
    case True
    then obtain i where "eligible (pi_base im) (pi_sections im ! i)"
      "?r = section_range (pi_base im) (pi_sections im ! i)"
      using s by (auto simp: selects_def largest_at_def)
    with True section_range_bounds(3) show ?thesis by (simp add: range_bool_def)
  next
    case False
    then have "?r = empty_range" using s by (simp add: selects_def)
    with False show ?thesis by (simp add: empty_range_def)
  qed
  with s show ?thesis
    by (auto simp: InitModuleRanges_def pe_headers_ok_def Let_def)
qed

end
