(* ===== verification/XXH32.thy ===== *)
theory XXH32
  imports FFC_Prelude
begin

text \<open>
  \<open>CacheFormat::Checksum\<close> of Skyrim/src/CacheFormat.h: XXH32 with seed 0 over the whole
  payload.  The definitions follow the function's three phases (16-byte stripes over four
  lanes, 4-byte tail words, tail bytes) and its final avalanche; the lemmas show that every
  one of its steps is injective, from which any change confined to one byte of a payload
  changes the checksum.
\<close>

section \<open>The checksum\<close>

definition xxh_p1 :: u32 where "xxh_p1 = 0x9E3779B1"
definition xxh_p2 :: u32 where "xxh_p2 = 0x85EBCA77"
definition xxh_p3 :: u32 where "xxh_p3 = 0xC2B2AE3D"
definition xxh_p4 :: u32 where "xxh_p4 = 0x27D4EB2F"
definition xxh_p5 :: u32 where "xxh_p5 = 0x165667B1"

lemmas xxh_primes = xxh_p1_def xxh_p2_def xxh_p3_def xxh_p4_def xxh_p5_def

text \<open>The lambda \<open>round\<close>.\<close>

definition xxh_round :: "u32 \<Rightarrow> u32 \<Rightarrow> u32" where
  "xxh_round a_acc a_input = word_rotl 13 (a_acc + a_input * xxh_p2) * xxh_p1"

type_synonym lanes = "u32 \<times> u32 \<times> u32 \<times> u32"

text \<open>
  The \<open>do ... while (p <= limit)\<close> loop with \<open>limit = end - 16\<close>: one iteration reads
  sixteen bytes, one word into each lane, while at least sixteen bytes remain.
\<close>

definition xxh_stripe :: "lanes \<Rightarrow> bytes \<Rightarrow> lanes" where
  "xxh_stripe v p = (case v of (v1, v2, v3, v4) \<Rightarrow>
     (xxh_round v1 (get32 p), xxh_round v2 (get32 (drop 4 p)),
      xxh_round v3 (get32 (drop 8 p)), xxh_round v4 (get32 (drop 12 p))))"

function xxh_stripes :: "lanes \<Rightarrow> bytes \<Rightarrow> lanes \<times> bytes" where
  "xxh_stripes v p = (if 16 \<le> length p then xxh_stripes (xxh_stripe v p) (drop 16 p) else (v, p))"
  by pat_completeness auto
termination
  by (relation "measure (\<lambda>(v, p). length p)") auto

declare xxh_stripes.simps [simp del]

definition xxh_merge :: "lanes \<Rightarrow> u32" where
  "xxh_merge v = (case v of (v1, v2, v3, v4) \<Rightarrow>
     word_rotl 1 v1 + word_rotl 7 v2 + word_rotl 12 v3 + word_rotl 18 v4)"

text \<open>The two tail loops: words while four bytes remain, then single bytes.\<close>

definition xxh_word_step :: "u32 \<Rightarrow> u32 \<Rightarrow> u32" where
  "xxh_word_step h w = word_rotl 17 (h + w * xxh_p3) * xxh_p4"

definition xxh_byte_step :: "u32 \<Rightarrow> u8 \<Rightarrow> u32" where
  "xxh_byte_step h b = word_rotl 11 (h + ucast b * xxh_p5) * xxh_p1"

fun xxh_tail :: "u32 \<Rightarrow> bytes \<Rightarrow> u32" where
  "xxh_tail h (b0 # b1 # b2 # b3 # p) = xxh_tail (xxh_word_step h (le32 b0 b1 b2 b3)) p"
| "xxh_tail h p = foldl xxh_byte_step h p"

definition xxh_avalanche :: "u32 \<Rightarrow> u32" where
  "xxh_avalanche h0 =
     (let h1 = h0 XOR drop_bit 15 h0; h2 = h1 * xxh_p2;
          h3 = h2 XOR drop_bit 13 h2; h4 = h3 * xxh_p3
      in h4 XOR drop_bit 16 h4)"

definition xxh_init_lanes :: lanes where
  "xxh_init_lanes = (xxh_p1 + xxh_p2, xxh_p2, 0, 0 - xxh_p1)"

definition xxh32 :: "bytes \<Rightarrow> u32" where
  "xxh32 p =
     (let (h, rest) = (if 16 \<le> length p
                       then (case xxh_stripes xxh_init_lanes p of (v, r) \<Rightarrow> (xxh_merge v, r))
                       else (xxh_p5, p))
      in xxh_avalanche (xxh_tail (h + word_of_nat (length p)) rest))"

text \<open>
  The entry point: a null pointer with a nonzero size hashes to 0, a null pointer with size
  zero is the empty payload.  A non-null pointer is the buffer it points to, of which the
  first \<open>a_size\<close> bytes are read.
\<close>

definition Checksum :: "bytes option \<Rightarrow> nat \<Rightarrow> u32" where
  "Checksum a_data a_size =
     (case a_data of
        None \<Rightarrow> if a_size \<noteq> 0 then 0 else xxh32 []
      | Some bs \<Rightarrow> xxh32 (take a_size bs))"

section \<open>Every step is injective\<close>

text \<open>The five primes are odd, so multiplication by them is undone by their inverses.\<close>

lemma xxh_inverses:
  "xxh_p1 * 244002641 = 1" "xxh_p2 * 3066638151 = 1" "xxh_p3 * 2828982549 = 1"
  "xxh_p4 * 2701016015 = 1" "xxh_p5 * 2923004241 = 1"
  by (simp_all add: xxh_primes)

lemma mult_prime_inject [simp]:
  "a * xxh_p1 = b * xxh_p1 \<longleftrightarrow> a = b" "a * xxh_p2 = b * xxh_p2 \<longleftrightarrow> a = b"
  "a * xxh_p3 = b * xxh_p3 \<longleftrightarrow> a = b" "a * xxh_p4 = b * xxh_p4 \<longleftrightarrow> a = b"
  "a * xxh_p5 = b * xxh_p5 \<longleftrightarrow> a = b"
  using word_mult_cancel_inverse xxh_inverses by metis+

lemma word_rotl_inject [simp]: "word_rotl k a = word_rotl k b \<longleftrightarrow> a = b"
  by (metis word_rot_lr)

text \<open>\<open>h ^= h >> s\<close> is injective for a positive shift.\<close>

lemma drop_bit_fixpoint_zero:
  fixes d :: "'a::len word"
  assumes "d = drop_bit s d" "0 < s"
  shows "d = 0"
proof (rule bit_word_eqI)
  fix n
  assume "n < LENGTH('a)"
  have step: "bit d m = bit d (m + s)" for m
    by (subst assms(1)) (simp add: bit_drop_bit_eq add.commute)
  have "bit d n = bit d (n + k * s)" for k
  proof (induction k)
    case (Suc k)
    then show ?case using step [of "n + k * s"] by (simp add: ac_simps)
  qed simp
  from this [of "LENGTH('a)"] have "bit d n = bit d (n + LENGTH('a) * s)" .
  moreover have "LENGTH('a) \<le> n + LENGTH('a) * s"
    using assms(2) by (simp add: trans_le_add2)
  ultimately show "bit d n = bit 0 n"
    by (auto dest: bit_imp_le_length)
qed

lemma xorshift_inject:
  fixes x y :: "'a::len word"
  assumes "x XOR drop_bit s x = y XOR drop_bit s y" "0 < s"
  shows "x = y"
proof -
  have "x XOR y = drop_bit s (x XOR y)"
  proof (rule bit_word_eqI)
    fix n
    from assms(1) have "bit (x XOR drop_bit s x) n = bit (y XOR drop_bit s y) n" by simp
    then show "bit (x XOR y) n = bit (drop_bit s (x XOR y)) n"
      by (auto simp: bit_xor_iff bit_drop_bit_eq)
  qed
  then have "x XOR y = 0"
    using assms(2) by (rule drop_bit_fixpoint_zero)
  then show ?thesis
    by (metis xor.left_neutral xor_self_eq xor.assoc xor.commute)
qed

interpretation round: injective_step xxh_round
  by unfold_locales (simp_all add: xxh_round_def)

interpretation word_step: injective_step xxh_word_step
  by unfold_locales (simp_all add: xxh_word_step_def)

interpretation byte_step: injective_step xxh_byte_step
  by unfold_locales (simp_all add: xxh_byte_step_def)

lemma xxh_avalanche_inject: "xxh_avalanche a = xxh_avalanche b \<Longrightarrow> a = b"
  by (auto simp: xxh_avalanche_def Let_def dest!: xorshift_inject)

section \<open>One changed byte\<close>

lemma get32_update_same:
  "4 \<le> i \<Longrightarrow> get32 (q[i := b]) = get32 q"
  by (rule get32_cong) simp

lemma get32_update_differs:
  assumes "i < 4" "4 \<le> length q" "b \<noteq> q ! i"
  shows "get32 (q[i := b]) \<noteq> get32 q"
proof -
  from assms(2) obtain b0 b1 b2 b3 r where q: "q = b0 # b1 # b2 # b3 # r"
    by (auto simp: numeral_eq_Suc Suc_le_length_iff)
  from assms(1) have "i = 0 \<or> i = 1 \<or> i = 2 \<or> i = 3" by arith
  with assms(3) q show ?thesis by (auto simp: numeral_eq_Suc)
qed

text \<open>Two lane tuples that differ in exactly one lane.\<close>

fun one_lane :: "lanes \<Rightarrow> lanes \<Rightarrow> bool" where
  "one_lane (a1, a2, a3, a4) (b1, b2, b3, b4) \<longleftrightarrow>
     (a1 \<noteq> b1 \<and> a2 = b2 \<and> a3 = b3 \<and> a4 = b4) \<or> (a1 = b1 \<and> a2 \<noteq> b2 \<and> a3 = b3 \<and> a4 = b4) \<or>
     (a1 = b1 \<and> a2 = b2 \<and> a3 \<noteq> b3 \<and> a4 = b4) \<or> (a1 = b1 \<and> a2 = b2 \<and> a3 = b3 \<and> a4 \<noteq> b4)"

lemma one_lane_stripe: "one_lane v w \<Longrightarrow> one_lane (xxh_stripe v p) (xxh_stripe w p)"
  by (cases v; cases w) (auto simp: xxh_stripe_def dest: round.inj_acc)

lemma one_lane_merge: "one_lane v w \<Longrightarrow> xxh_merge v \<noteq> xxh_merge w"
  by (cases v; cases w) (auto simp: xxh_merge_def)

lemma get32_drop_update:
  assumes "16 \<le> length p" "b \<noteq> p ! i" "i < 16" "k \<in> {0, 4, 8, 12}"
  shows "get32 (drop k p) = get32 (drop k (p[i := b])) \<longleftrightarrow> \<not> (k \<le> i \<and> i < k + 4)"
proof (cases "k \<le> i")
  case True
  then have eq: "drop k (p[i := b]) = (drop k p)[i - k := b]"
    by (rule drop_update_swap)
  have len: "4 \<le> length (drop k p)" using assms by auto
  have nth: "drop k p ! (i - k) = p ! i" using assms True by (auto simp: nth_drop)
  show ?thesis
  proof (cases "i < k + 4")
    case True
    then have "get32 ((drop k p)[i - k := b]) \<noteq> get32 (drop k p)"
      using \<open>k \<le> i\<close> assms(2) nth len by (intro get32_update_differs) auto
    with eq True \<open>k \<le> i\<close> show ?thesis by (metis (no_types))
  next
    case False
    then show ?thesis using eq by (simp add: get32_update_same)
  qed
qed (simp add: drop_update_cancel)

lemma stripe_update:
  assumes "16 \<le> length p" "b \<noteq> p ! i" "i < 16"
  shows "one_lane (xxh_stripe v p) (xxh_stripe v (p[i := b]))"
proof -
  have c: "i < 4 \<or> 4 \<le> i \<and> i < 8 \<or> 8 \<le> i \<and> i < 12 \<or> 12 \<le> i \<and> i < 16" using assms(3) by arith
  note g = get32_drop_update [OF assms, of 0] get32_drop_update [OF assms, of 4]
    get32_drop_update [OF assms, of 8] get32_drop_update [OF assms, of 12]
  have eqv: "xxh_round h x = xxh_round h y \<longleftrightarrow> x = y" for h x y
    using round.inj_input by blast
  obtain v1 v2 v3 v4 where v: "v = (v1, v2, v3, v4)" by (cases v)
  from c show ?thesis
    by (elim disjE) (simp_all add: v xxh_stripe_def eqv g [simplified])
qed

lemma stripe_update_beyond:
  "16 \<le> i \<Longrightarrow> xxh_stripe v (p[i := b]) = xxh_stripe v p"
  by (cases v) (simp add: xxh_stripe_def get32_update_same drop_update_swap)

lemma stripes_one_lane:
  "one_lane v w \<Longrightarrow> one_lane (fst (xxh_stripes v p)) (fst (xxh_stripes w p)) \<and>
     snd (xxh_stripes v p) = snd (xxh_stripes w p)"
proof (induction v p arbitrary: w rule: xxh_stripes.induct)
  case (1 v p)
  show ?case
  proof (cases "16 \<le> length p")
    case True
    with "1.IH" [OF True one_lane_stripe [OF "1.prems"]] show ?thesis
      by (simp add: xxh_stripes.simps [of v p] xxh_stripes.simps [of w p])
  next
    case False
    with "1.prems" show ?thesis
      by (simp add: xxh_stripes.simps [of v p] xxh_stripes.simps [of w p])
  qed
qed

text \<open>
  After all stripes, a one-byte change shows either as one differing lane and the same
  unread tail, or as the same lanes and a one-byte change of the tail.
\<close>

definition stripe_delta :: "u8 \<Rightarrow> lanes \<times> bytes \<Rightarrow> lanes \<times> bytes \<Rightarrow> bool" where
  "stripe_delta b x y \<longleftrightarrow>
     one_lane (fst x) (fst y) \<and> snd x = snd y \<or>
     fst x = fst y \<and> (\<exists>j < length (snd x). b \<noteq> snd x ! j \<and> snd y = (snd x)[j := b])"

lemma stripes_update:
  "i < length p \<Longrightarrow> b \<noteq> p ! i \<Longrightarrow> stripe_delta b (xxh_stripes v p) (xxh_stripes v (p[i := b]))"
proof (induction v p arbitrary: i rule: xxh_stripes.induct)
  case (1 v p)
  show ?case
  proof (cases "16 \<le> length p")
    case False
    with "1.prems" show ?thesis
      by (auto simp: xxh_stripes.simps [of v] stripe_delta_def)
  next
    case True
    show ?thesis
    proof (cases "i < 16")
      case True
      then have "one_lane (xxh_stripe v p) (xxh_stripe v (p[i := b]))"
        using \<open>16 \<le> length p\<close> "1.prems" by (intro stripe_update) auto
      from stripes_one_lane [OF this, of "drop 16 p"] \<open>i < 16\<close> \<open>16 \<le> length p\<close>
      show ?thesis
        by (simp add: xxh_stripes.simps [of v] stripe_delta_def drop_update_cancel)
    next
      case False
      with "1.prems" have "i - 16 < length (drop 16 p)" "b \<noteq> drop 16 p ! (i - 16)"
        by (auto simp: nth_drop)
      from "1.IH" [OF \<open>16 \<le> length p\<close> this] False \<open>16 \<le> length p\<close> show ?thesis
        by (simp add: xxh_stripes.simps [of v p] xxh_stripes.simps [of v "p[i := b]"]
            stripe_update_beyond drop_update_swap)
    qed
  qed
qed

lemma tail_acc_inject: "xxh_tail h p = xxh_tail h' p \<Longrightarrow> h = h'"
  by (induction h p arbitrary: h' rule: xxh_tail.induct)
    (auto dest: word_step.inj_acc byte_step.inj_acc)

lemma xxh_tail_short: "length p < 4 \<Longrightarrow> xxh_tail h p = foldl xxh_byte_step h p"
  by (cases "(h, p)" rule: xxh_tail.cases) auto

lemma tail_update_short:
  "length p < 4 \<Longrightarrow> i < length p \<Longrightarrow> b \<noteq> p ! i \<Longrightarrow> xxh_tail h (p[i := b]) \<noteq> xxh_tail h p"
  by (simp add: xxh_tail_short byte_step.foldl_update)

lemma tail_update: "i < length p \<Longrightarrow> b \<noteq> p ! i \<Longrightarrow> xxh_tail h (p[i := b]) \<noteq> xxh_tail h p"
proof (induction h p arbitrary: i rule: xxh_tail.induct)
  case (1 h b0 b1 b2 b3 p)
  show ?case
  proof (cases "i < 4")
    case True
    then have "i = 0 \<or> i = 1 \<or> i = 2 \<or> i = 3" by arith
    with "1.prems" show ?thesis
      by (auto simp: numeral_eq_Suc dest!: tail_acc_inject word_step.inj_input)
  next
    case False
    then obtain j where j: "i = Suc (Suc (Suc (Suc j)))"
      using that [of "i - 4"] by simp
    with "1.prems" "1.IH" [of j] show ?thesis by simp
  qed
qed (rule tail_update_short; simp)+

lemma xxh32_update:
  assumes "i < length p" "b \<noteq> p ! i"
  shows "xxh32 (p[i := b]) \<noteq> xxh32 p"
proof (cases "16 \<le> length p")
  case False
  with tail_update [OF assms] show ?thesis
    by (auto simp: xxh32_def dest!: xxh_avalanche_inject)
next
  case True
  obtain v r w s where st: "xxh_stripes xxh_init_lanes p = (v, r)"
    "xxh_stripes xxh_init_lanes (p[i := b]) = (w, s)" by fastforce
  from stripes_update [OF assms, of xxh_init_lanes] st
  have "stripe_delta b (v, r) (w, s)" by simp
  then have "xxh_tail (xxh_merge v + word_of_nat (length p)) r \<noteq>
      xxh_tail (xxh_merge w + word_of_nat (length p)) s"
    by (auto simp: stripe_delta_def dest!: tail_acc_inject one_lane_merge)
      (metis tail_update)
  with True st show ?thesis
    by (auto simp: xxh32_def dest!: xxh_avalanche_inject)
qed

text \<open>The checksum of a cache payload detects every change of a single byte.\<close>

theorem checksum_detects_byte_change:
  assumes "i < length p" "b \<noteq> p ! i"
  shows "Checksum (Some (p[i := b])) (length p) \<noteq> Checksum (Some p) (length p)"
  using xxh32_update [OF assms] by (simp add: Checksum_def)

theorem checksum_detects_byte_change_witness:
  "Checksum (Some ([1, 2, 3, 4, 5][4 := 9])) (length [1, 2, 3, 4, 5 :: u8]) \<noteq>
   Checksum (Some [1, 2, 3, 4, 5]) (length [1, 2, 3, 4, 5 :: u8])"
  by (rule checksum_detects_byte_change) simp_all

text \<open>The published XXH32 test vectors for seed 0.\<close>

lemma checksum_vectors:
  "Checksum None 0 = 0x02CC5D05"
  "Checksum (Some [97, 98, 99]) 3 = 0x32D153FF"
  "Checksum None 1 = 0"
  by code_simp+

end
