(* ===== verification/CacheFormat.thy ===== *)
theory CacheFormat
  imports XXH32
begin

text \<open>
  Skyrim/src/CacheFormat.h: the on-disk format of a decompression-cache file (a 44-byte
  header, a fixed-capacity index of 20-byte slots, then the payloads back to back) and its
  validator.  The lemmas give the validator an exact declarative meaning and show which
  bytes of a file it depends on.
\<close>

section \<open>Header, entries and their layout\<close>

definition kMagic :: bytes where "kMagic = [66, 83, 68, 67]"
definition kVersion :: u32 where "kVersion = 7"
definition kMaxPayloadSize :: u32 where "kMaxPayloadSize = 256 * 1024 * 1024"
definition kMaxIndexCapacity :: u32 where "kMaxIndexCapacity = 1000000"

definition sizeof_Header :: nat where "sizeof_Header = 44"
definition sizeof_Entry :: nat where "sizeof_Entry = 20"

record Header =
  h_magic :: bytes
  h_version :: u32
  h_bsaFileSize :: u64
  h_bsaLastWrite :: u64
  h_bsaFingerprint :: u64
  h_bsaEntryCount :: u32
  h_indexCapacity :: u32
  h_entryCount :: u32

record Entry =
  e_startOffset :: u32
  e_decompSize :: u32
  e_cacheOffset :: u64
  e_checksum :: u32

record ArchiveIdentity =
  ai_fileSize :: u64
  ai_lastWrite :: u64
  ai_fingerprint :: u64
  ai_entryCount :: u32

text \<open>The packed structs as bytes, and \<open>std::memcpy\<close> into them.\<close>

definition header_bytes :: "Header \<Rightarrow> bytes" where
  "header_bytes h = h_magic h @ put32 (h_version h) @ put64 (h_bsaFileSize h) @
     put64 (h_bsaLastWrite h) @ put64 (h_bsaFingerprint h) @ put32 (h_bsaEntryCount h) @
     put32 (h_indexCapacity h) @ put32 (h_entryCount h)"

definition load_header :: "bytes \<Rightarrow> Header" where
  "load_header bs =
     \<lparr>h_magic = take 4 bs, h_version = get32 (drop 4 bs), h_bsaFileSize = get64 (drop 8 bs),
      h_bsaLastWrite = get64 (drop 16 bs), h_bsaFingerprint = get64 (drop 24 bs),
      h_bsaEntryCount = get32 (drop 32 bs), h_indexCapacity = get32 (drop 36 bs),
      h_entryCount = get32 (drop 40 bs)\<rparr>"

definition entry_bytes :: "Entry \<Rightarrow> bytes" where
  "entry_bytes e = put32 (e_startOffset e) @ put32 (e_decompSize e) @ put64 (e_cacheOffset e) @
     put32 (e_checksum e)"

definition load_entry :: "bytes \<Rightarrow> Entry" where
  "load_entry bs =
     \<lparr>e_startOffset = get32 bs, e_decompSize = get32 (drop 4 bs),
      e_cacheOffset = get64 (drop 8 bs), e_checksum = get32 (drop 16 bs)\<rparr>"

lemma length_entry_bytes [simp]: "length (entry_bytes e) = 20"
  by (simp add: entry_bytes_def)

lemma length_header_bytes [simp]: "length (h_magic h) = 4 \<Longrightarrow> length (header_bytes h) = 44"
  by (simp add: header_bytes_def)

lemma drop_fields:
  "drop 8 (put32 a @ put32 b @ r) = r" "drop 8 (put64 c @ r) = r" "drop 4 (put32 a @ r) = r"
  by (simp_all flip: drop_drop [of 4 4, simplified])

lemma load_entry_bytes [simp]: "load_entry (entry_bytes e @ r) = e"
  by (simp add: load_entry_def entry_bytes_def drop_fields)

lemma load_header_bytes [simp]:
  "length (h_magic h) = 4 \<Longrightarrow> load_header (header_bytes h @ r) = h"
  by (simp add: load_header_def header_bytes_def)

section \<open>The validator\<close>

datatype ValidationMode = StructuralOnly | FullPayload

datatype ValidationError =
    VNone | NullData | FileTooSmall | BadMagic | UnsupportedVersion | ArchiveMismatch
  | InvalidEntryCount | IndexOutOfBounds | EmptyPayload | PayloadTooLarge
  | NonContiguousPayload | PayloadOutOfBounds | PayloadChecksumMismatch | TrailingData
  | DuplicateStartOffset

record ValidationResult =
  vr_error :: ValidationError
  vr_header :: Header
  vr_dataStart :: nat
  vr_validSize :: nat
  vr_invalidEntry :: u32

definition empty_header :: Header where
  "empty_header = \<lparr>h_magic = [0, 0, 0, 0], h_version = 0, h_bsaFileSize = 0, h_bsaLastWrite = 0,
     h_bsaFingerprint = 0, h_bsaEntryCount = 0, h_indexCapacity = 0, h_entryCount = 0\<rparr>"

definition initial_result :: ValidationResult where
  "initial_result = \<lparr>vr_error = VNone, vr_header = empty_header, vr_dataStart = 0,
     vr_validSize = 0, vr_invalidEntry = u32_max\<rparr>"

text \<open>\<open>explicit operator bool\<close>.\<close>

definition vr_ok :: "ValidationResult \<Rightarrow> bool" where
  "vr_ok r \<longleftrightarrow> vr_error r = VNone"

text \<open>
  One iteration of the entry loop: the entry is loaded, \<open>invalidEntry\<close> is set, the start
  offset is recorded and the checks run in order.  The left result is an early return.  The
  64-bit cursor never passes the file size, so it is kept as a natural number.
\<close>

definition entry_at :: "bytes \<Rightarrow> nat \<Rightarrow> Entry" where
  "entry_at bytes i = load_entry (drop (sizeof_Header + i * sizeof_Entry) bytes)"

definition check_entry :: "bytes \<Rightarrow> nat \<Rightarrow> ValidationMode \<Rightarrow> nat \<Rightarrow> Entry \<Rightarrow> ValidationError" where
  "check_entry bytes a_size a_mode cursor entry =
     (if e_decompSize entry = 0 then EmptyPayload
      else if e_decompSize entry > kMaxPayloadSize then PayloadTooLarge
      else if unat (e_cacheOffset entry) \<noteq> cursor then NonContiguousPayload
      else if cursor > a_size \<or> unat (e_decompSize entry) > a_size - cursor then PayloadOutOfBounds
      else if a_mode = FullPayload \<and>
        Checksum (Some (drop cursor bytes)) (unat (e_decompSize entry)) \<noteq> e_checksum entry
      then PayloadChecksumMismatch
      else VNone)"

fun validate_entries :: "bytes \<Rightarrow> nat \<Rightarrow> ValidationMode \<Rightarrow> nat list \<Rightarrow> nat \<Rightarrow> u32 list \<Rightarrow>
    ValidationResult \<Rightarrow> ValidationResult + (ValidationResult \<times> nat \<times> u32 list)" where
  "validate_entries bytes a_size a_mode [] cursor startOffsets result =
     Inr (result, cursor, startOffsets)"
| "validate_entries bytes a_size a_mode (i # is) cursor startOffsets result =
     (let entry = entry_at bytes i;
          result' = result\<lparr>vr_invalidEntry := word_of_nat i\<rparr>;
          err = check_entry bytes a_size a_mode cursor entry
      in if err \<noteq> VNone then Inl (result'\<lparr>vr_error := err\<rparr>)
         else validate_entries bytes a_size a_mode is (cursor + unat (e_decompSize entry))
                (startOffsets @ [e_startOffset entry]) result')"

text \<open>\<open>std::adjacent_find\<close> on the sorted offsets.\<close>

fun adjacent_find :: "'a list \<Rightarrow> bool" where
  "adjacent_find (x # y # ys) \<longleftrightarrow> x = y \<or> adjacent_find (y # ys)"
| "adjacent_find _ \<longleftrightarrow> False"

definition identity_mismatch :: "Header \<Rightarrow> ArchiveIdentity \<Rightarrow> bool" where
  "identity_mismatch h e \<longleftrightarrow>
     h_bsaFileSize h \<noteq> ai_fileSize e \<or> h_bsaLastWrite h \<noteq> ai_lastWrite e \<or>
     h_bsaFingerprint h \<noteq> ai_fingerprint e \<or> h_bsaEntryCount h \<noteq> ai_entryCount e"

definition bad_entry_count :: "Header \<Rightarrow> ArchiveIdentity option \<Rightarrow> bool" where
  "bad_entry_count h a_expected \<longleftrightarrow>
     h_indexCapacity h = 0 \<or> h_indexCapacity h > kMaxIndexCapacity \<or>
     h_entryCount h = 0 \<or> h_entryCount h > h_indexCapacity h \<or>
     (case a_expected of None \<Rightarrow> False
      | Some e \<Rightarrow> h_indexCapacity h \<noteq> ai_entryCount e \<or> h_entryCount h > ai_entryCount e)"

definition Validate :: "bytes option \<Rightarrow> nat \<Rightarrow> ArchiveIdentity option \<Rightarrow> ValidationMode \<Rightarrow> bool \<Rightarrow>
    ValidationResult" where
  "Validate a_data a_size a_expected a_mode a_allowTrailingData =
     (case a_data of
        None \<Rightarrow> initial_result\<lparr>vr_error := NullData\<rparr>
      | Some bytes \<Rightarrow>
        if a_size < sizeof_Header then initial_result\<lparr>vr_error := FileTooSmall\<rparr>
        else
          let h = load_header bytes; result = initial_result\<lparr>vr_header := h\<rparr>
          in if h_magic h \<noteq> kMagic then result\<lparr>vr_error := BadMagic\<rparr>
             else if h_version h \<noteq> kVersion then result\<lparr>vr_error := UnsupportedVersion\<rparr>
             else if (case a_expected of None \<Rightarrow> False | Some e \<Rightarrow> identity_mismatch h e)
             then result\<lparr>vr_error := ArchiveMismatch\<rparr>
             else if bad_entry_count h a_expected then result\<lparr>vr_error := InvalidEntryCount\<rparr>
             else if unat (h_indexCapacity h) > (a_size - sizeof_Header) div sizeof_Entry
             then result\<lparr>vr_error := IndexOutOfBounds\<rparr>
             else
               let dataStart = sizeof_Header + unat (h_indexCapacity h) * sizeof_Entry;
                   result1 = result\<lparr>vr_dataStart := dataStart\<rparr>
               in (case validate_entries bytes a_size a_mode [0..<unat (h_entryCount h)]
                          dataStart [] result1 of
                     Inl r \<Rightarrow> r
                   | Inr (result2, cursor, startOffsets) \<Rightarrow>
                       if adjacent_find (sort startOffsets)
                       then result2\<lparr>vr_error := DuplicateStartOffset\<rparr>
                       else
                         let result3 = result2\<lparr>vr_validSize := cursor\<rparr>
                         in if cursor \<noteq> a_size \<and> \<not> a_allowTrailingData
                            then result3\<lparr>vr_error := TrailingData\<rparr>
                            else result3\<lparr>vr_invalidEntry := u32_max\<rparr>))"

fun ErrorName :: "ValidationError \<Rightarrow> string" where
  "ErrorName VNone = ''none''"
| "ErrorName NullData = ''null data''"
| "ErrorName FileTooSmall = ''file too small''"
| "ErrorName BadMagic = ''bad magic''"
| "ErrorName UnsupportedVersion = ''unsupported version''"
| "ErrorName ArchiveMismatch = ''archive identity mismatch''"
| "ErrorName InvalidEntryCount = ''invalid entry count''"
| "ErrorName IndexOutOfBounds = ''index out of bounds''"
| "ErrorName EmptyPayload = ''empty payload''"
| "ErrorName PayloadTooLarge = ''payload too large''"
| "ErrorName NonContiguousPayload = ''non-contiguous payload''"
| "ErrorName PayloadOutOfBounds = ''payload out of bounds''"
| "ErrorName PayloadChecksumMismatch = ''payload checksum mismatch''"
| "ErrorName TrailingData = ''trailing data''"
| "ErrorName DuplicateStartOffset = ''duplicate start offset''"

section \<open>What an accepted file is\<close>

text \<open>
  The declarative reading of the format: the committed entries are the first
  \<open>entryCount\<close> index slots, and payload \<open>i\<close> starts where payload \<open>i - 1\<close> ends.
\<close>

definition committed_entries :: "bytes \<Rightarrow> nat \<Rightarrow> Entry list" where
  "committed_entries bytes n = map (entry_at bytes) [0..<n]"

definition payload_start :: "nat \<Rightarrow> Entry list \<Rightarrow> nat \<Rightarrow> nat" where
  "payload_start dataStart es i = dataStart + sum_list (map (unat \<circ> e_decompSize) (take i es))"

definition data_start :: "Header \<Rightarrow> nat" where
  "data_start h = sizeof_Header + unat (h_indexCapacity h) * sizeof_Entry"

definition header_accepted :: "bytes \<Rightarrow> ArchiveIdentity option \<Rightarrow> bool" where
  "header_accepted bytes ident \<longleftrightarrow>
     (let h = load_header bytes in
      sizeof_Header \<le> length bytes \<and> h_magic h = kMagic \<and> h_version h = kVersion \<and>
      (case ident of None \<Rightarrow> True | Some e \<Rightarrow> \<not> identity_mismatch h e) \<and>
      \<not> bad_entry_count h ident \<and> data_start h \<le> length bytes)"

definition entry_accepted :: "bytes \<Rightarrow> ValidationMode \<Rightarrow> nat \<Rightarrow> Entry list \<Rightarrow> nat \<Rightarrow> bool" where
  "entry_accepted bytes mode d es i \<longleftrightarrow>
     (let e = es ! i; p = payload_start d es i in
      0 < e_decompSize e \<and> e_decompSize e \<le> kMaxPayloadSize \<and> unat (e_cacheOffset e) = p \<and>
      p + unat (e_decompSize e) \<le> length bytes \<and>
      (mode = FullPayload \<longrightarrow>
         xxh32 (take (unat (e_decompSize e)) (drop p bytes)) = e_checksum e))"

definition cache_accepted :: "bytes \<Rightarrow> ArchiveIdentity option \<Rightarrow> ValidationMode \<Rightarrow> bool \<Rightarrow> bool" where
  "cache_accepted bytes ident mode allow \<longleftrightarrow>
     (let h = load_header bytes; n = unat (h_entryCount h); es = committed_entries bytes n;
          d = data_start h
      in header_accepted bytes ident \<and> (\<forall>i < n. entry_accepted bytes mode d es i) \<and>
         distinct (map e_startOffset es) \<and> (allow \<or> payload_start d es n = length bytes))"

section \<open>The validator decides the format\<close>

lemma adjacent_find_sorted: "sorted ys \<Longrightarrow> adjacent_find ys \<longleftrightarrow> \<not> distinct ys"
  by (induction ys rule: adjacent_find.induct) (auto simp: order_antisym)

lemma adjacent_find_sort [simp]: "adjacent_find (sort xs) \<longleftrightarrow> \<not> distinct xs"
  for xs :: "u32 list"
  by (simp add: adjacent_find_sorted)

lemma length_committed_entries [simp]: "length (committed_entries bytes n) = n"
  by (simp add: committed_entries_def)

lemma nth_committed_entries [simp]: "i < n \<Longrightarrow> committed_entries bytes n ! i = entry_at bytes i"
  by (simp add: committed_entries_def)

lemma payload_start_0 [simp]: "payload_start d es 0 = d"
  by (simp add: payload_start_def)

lemma payload_start_Suc:
  "i < length es \<Longrightarrow> payload_start d es (Suc i) = payload_start d es i + unat (e_decompSize (es ! i))"
  by (simp add: payload_start_def take_Suc_conv_app_nth)

lemma payload_start_mono: "i \<le> j \<Longrightarrow> payload_start d es i \<le> payload_start d es j"
  by (auto simp: payload_start_def le_iff_add take_add)

lemma check_entry_ok:
  assumes "i < n" "es = committed_entries bytes n"
  shows "check_entry bytes (length bytes) mode (payload_start d es i) (entry_at bytes i) = VNone \<longleftrightarrow>
     entry_accepted bytes mode d es i"
proof -
  have "es ! i = entry_at bytes i" using assms by simp
  then show ?thesis
    by (auto simp: check_entry_def entry_accepted_def Let_def Checksum_def word_neq_0_conv
        not_less le_diff_conv)
qed

lemma validate_entries_accept:
  assumes "k \<le> n" "es = committed_entries bytes n"
    and "\<And>i. k \<le> i \<Longrightarrow> i < n \<Longrightarrow> entry_accepted bytes mode d es i"
  shows "validate_entries bytes (length bytes) mode [k..<n] (payload_start d es k) offs r =
     Inr (if k = n then r else r\<lparr>vr_invalidEntry := word_of_nat (n - 1)\<rparr>,
          payload_start d es n, offs @ map e_startOffset (drop k es))"
  using assms(1,3)
proof (induction arbitrary: offs r rule: inc_induct)
  case base
  then show ?case using assms(2) by simp
next
  case (step m)
  then have ok: "check_entry bytes (length bytes) mode (payload_start d es m) (entry_at bytes m) = VNone"
    using assms(2) by (simp add: check_entry_ok)
  have nxt: "payload_start d es (Suc m) = payload_start d es m + unat (e_decompSize (entry_at bytes m))"
    using assms(2) step.hyps by (simp add: payload_start_Suc)
  have dr: "drop m es = entry_at bytes m # drop (Suc m) es"
    using assms(2) step.hyps by (simp add: Cons_nth_drop_Suc flip: nth_committed_entries)
  show ?case
    using step.hyps step.IH step.prems ok dr
    by (auto simp: upt_conv_Cons Let_def simp flip: nxt)
qed

lemma validate_entries_reject:
  assumes "k \<le> i" "i < n" "es = committed_entries bytes n" "\<not> entry_accepted bytes mode d es i"
  shows "\<exists>r'. validate_entries bytes (length bytes) mode [k..<n] (payload_start d es k) offs r = Inl r' \<and>
    vr_error r' \<noteq> VNone"
  using assms(1)
proof (induction arbitrary: offs r rule: inc_induct)
  case base
  have "check_entry bytes (length bytes) mode (payload_start d es i) (entry_at bytes i) \<noteq> VNone"
    using assms by (simp add: check_entry_ok)
  then show ?case using assms(2) by (simp add: upt_conv_Cons Let_def)
next
  case (step m)
  have nxt: "payload_start d es (Suc m) = payload_start d es m + unat (e_decompSize (entry_at bytes m))"
    using assms step.hyps by (simp add: payload_start_Suc)
  show ?case
    using step.hyps assms(2) step.IH by (simp add: upt_conv_Cons Let_def flip: nxt)
qed

lemma index_fits_iff:
  "44 \<le> len \<Longrightarrow> cap \<le> (len - 44) div 20 \<longleftrightarrow> 44 + cap * 20 \<le> (len :: nat)"
  by (simp add: less_eq_div_iff_mult_less_eq) arith

text \<open>The result on an accepted file.\<close>

definition accepted_result :: "bytes \<Rightarrow> ValidationResult" where
  "accepted_result bytes =
     (let h = load_header bytes; n = unat (h_entryCount h); d = data_start h in
      \<lparr>vr_error = VNone, vr_header = h, vr_dataStart = d,
       vr_validSize = payload_start d (committed_entries bytes n) n, vr_invalidEntry = u32_max\<rparr>)"

lemma Validate_header_rejected:
  "\<not> header_accepted bytes ident \<Longrightarrow>
     vr_error (Validate (Some bytes) (length bytes) ident mode allow) \<noteq> VNone"
  by (auto simp: Validate_def header_accepted_def Let_def data_start_def sizeof_Header_def
      sizeof_Entry_def not_less index_fits_iff initial_result_def split: option.splits)

lemma Validate_header_accepted:
  assumes "header_accepted bytes ident"
  shows "Validate (Some bytes) (length bytes) ident mode allow =
    (let h = load_header bytes; d = data_start h;
         result1 = initial_result\<lparr>vr_header := h, vr_dataStart := d\<rparr>
     in case validate_entries bytes (length bytes) mode [0..<unat (h_entryCount h)] d [] result1 of
          Inl r \<Rightarrow> r
        | Inr (result2, cursor, offs) \<Rightarrow>
            if \<not> distinct offs then result2\<lparr>vr_error := DuplicateStartOffset\<rparr>
            else let result3 = result2\<lparr>vr_validSize := cursor\<rparr>
                 in if cursor \<noteq> length bytes \<and> \<not> allow then result3\<lparr>vr_error := TrailingData\<rparr>
                    else result3\<lparr>vr_invalidEntry := u32_max\<rparr>)"
proof -
  let ?h = "load_header bytes"
  have f: "\<not> length bytes < sizeof_Header" "h_magic ?h = kMagic" "h_version ?h = kVersion"
    "\<not> (case ident of None \<Rightarrow> False | Some e \<Rightarrow> identity_mismatch ?h e)"
    "\<not> bad_entry_count ?h ident" "data_start ?h \<le> length bytes"
    using assms by (auto simp: header_accepted_def Let_def split: option.splits)
  then have g: "\<not> (length bytes - sizeof_Header) div sizeof_Entry < unat (h_indexCapacity ?h)"
    by (simp add: data_start_def sizeof_Header_def sizeof_Entry_def not_less index_fits_iff)
  show ?thesis
    using f(1-5) g by (simp add: Validate_def data_start_def Let_def split: sum.split prod.split)
qed

lemma Validate_accepted:
  assumes "cache_accepted bytes ident mode allow"
  shows "Validate (Some bytes) (length bytes) ident mode allow = accepted_result bytes"
proof -
  define h where "h = load_header bytes"
  define n where "n = unat (h_entryCount h)"
  define es where "es = committed_entries bytes n"
  have h: "header_accepted bytes ident" and es: "\<And>i. i < n \<Longrightarrow> entry_accepted bytes mode (data_start h) es i"
    and dist: "distinct (map e_startOffset es)"
    and tail: "allow \<or> payload_start (data_start h) es n = length bytes"
    using assms by (simp_all add: cache_accepted_def Let_def h_def n_def es_def)
  from validate_entries_accept [of 0 n es bytes mode "data_start h", OF _ es_def] es
  have "validate_entries bytes (length bytes) mode [0..<n] (data_start h) [] r =
     Inr (if 0 = n then r else r\<lparr>vr_invalidEntry := word_of_nat (n - 1)\<rparr>,
          payload_start (data_start h) es n, map e_startOffset es)" for r
    by simp
  with tail dist show ?thesis
    by (auto simp: Validate_header_accepted [OF h] Let_def accepted_result_def initial_result_def
        simp flip: h_def n_def es_def)
qed

lemma Validate_ok_iff:
  "vr_ok (Validate (Some bytes) (length bytes) ident mode allow) \<longleftrightarrow>
     cache_accepted bytes ident mode allow"
proof
  assume "cache_accepted bytes ident mode allow"
  then show "vr_ok (Validate (Some bytes) (length bytes) ident mode allow)"
    by (simp add: Validate_accepted vr_ok_def accepted_result_def Let_def)
next
  assume ok: "vr_ok (Validate (Some bytes) (length bytes) ident mode allow)"
  define h where "h = load_header bytes"
  define n where "n = unat (h_entryCount h)"
  define es where "es = committed_entries bytes n"
  have hd: "header_accepted bytes ident"
    using ok Validate_header_rejected by (auto simp: vr_ok_def)
  have acc: "entry_accepted bytes mode (data_start h) es i" if "i < n" for i
  proof (rule ccontr)
    assume "\<not> ?thesis"
    from validate_entries_reject [OF _ that es_def this, of 0 "[]"
        "initial_result\<lparr>vr_header := h, vr_dataStart := data_start h\<rparr>"]
    obtain r' where "validate_entries bytes (length bytes) mode [0..<n] (data_start h) []
        (initial_result\<lparr>vr_header := h, vr_dataStart := data_start h\<rparr>) = Inl r'" "vr_error r' \<noteq> VNone"
      by auto
    with ok show False
      by (simp add: Validate_header_accepted [OF hd] Let_def vr_ok_def flip: h_def n_def)
  qed
  from validate_entries_accept [of 0 n es bytes mode "data_start h", OF _ es_def] acc
  have "validate_entries bytes (length bytes) mode [0..<n] (data_start h) [] r =
     Inr (if 0 = n then r else r\<lparr>vr_invalidEntry := word_of_nat (n - 1)\<rparr>,
          payload_start (data_start h) es n, map e_startOffset es)" for r
    by simp
  with ok hd acc show "cache_accepted bytes ident mode allow"
    by (auto simp: Validate_header_accepted [OF hd] Let_def vr_ok_def cache_accepted_def
        simp flip: h_def n_def es_def split: if_splits)
qed

text \<open>
  C6: the validator accepts exactly the files of the declarative format: a matching header,
  payloads of legal size packed back to back inside the file, distinct start offsets, no
  trailing data unless allowed and, in full mode, a correct checksum for every payload.  For
  such a file it reports no error, the header that is stored, the end of the index as the start
  of the data, the end of the last committed payload as the valid size, and no invalid entry.
\<close>

theorem Validate_decides_format:
  "vr_ok (Validate (Some bytes) (length bytes) ident mode allow) =
     cache_accepted bytes ident mode allow \<and>
   (if cache_accepted bytes ident mode allow
    then let h = load_header bytes; n = unat (h_entryCount h);
             d = sizeof_Header + unat (h_indexCapacity h) * sizeof_Entry in
      Validate (Some bytes) (length bytes) ident mode allow =
        \<lparr>vr_error = VNone, vr_header = h, vr_dataStart = d,
         vr_validSize = d + (\<Sum>e \<leftarrow> map (entry_at bytes) [0..<n]. unat (e_decompSize e)),
         vr_invalidEntry = u32_max\<rparr>
    else vr_error (Validate (Some bytes) (length bytes) ident mode allow) \<noteq> VNone)"
proof (cases "cache_accepted bytes ident mode allow")
  case True
  then show ?thesis
    by (simp add: Validate_ok_iff Validate_accepted accepted_result_def Let_def data_start_def
        payload_start_def committed_entries_def comp_def vr_ok_def)
next
  case False
  then show ?thesis using Validate_ok_iff by (simp add: vr_ok_def)
qed

section \<open>Consequences of acceptance\<close>

abbreviation committed_of :: "bytes \<Rightarrow> Entry list" where
  "committed_of bytes \<equiv> committed_entries bytes (unat (h_entryCount (load_header bytes)))"

lemma cache_acceptedD:
  assumes "cache_accepted bytes ident mode allow"
  shows "header_accepted bytes ident"
    and "i < unat (h_entryCount (load_header bytes)) \<Longrightarrow>
      entry_accepted bytes mode (data_start (load_header bytes)) (committed_of bytes) i"
    and "distinct (map e_startOffset (committed_of bytes))"
    and "allow \<or> payload_start (data_start (load_header bytes)) (committed_of bytes)
      (unat (h_entryCount (load_header bytes))) = length bytes"
  using assms by (auto simp: cache_accepted_def Let_def)

lemma header_accepted_counts:
  assumes "header_accepted bytes ident"
  shows "0 < unat (h_entryCount (load_header bytes))"
    "unat (h_entryCount (load_header bytes)) \<le> unat (h_indexCapacity (load_header bytes))"
    "sizeof_Header + unat (h_entryCount (load_header bytes)) * sizeof_Entry
       \<le> data_start (load_header bytes)"
    "data_start (load_header bytes) \<le> length bytes" "sizeof_Header \<le> length bytes"
  using assms
  by (auto simp: header_accepted_def bad_entry_count_def data_start_def Let_def not_less
      word_le_nat_alt word_neq_0_conv word_less_nat_alt)

lemma accepted_payload_places:
  assumes "cache_accepted bytes ident mode allow" "k < unat (h_entryCount (load_header bytes))"
  shows "unat (e_cacheOffset (entry_at bytes k)) =
      payload_start (data_start (load_header bytes)) (committed_of bytes) k"
    and "payload_start (data_start (load_header bytes)) (committed_of bytes) k +
      unat (e_decompSize (entry_at bytes k)) \<le> length bytes"
  using cache_acceptedD(2) [OF assms] assms(2) by (simp_all add: entry_accepted_def Let_def)

lemma accepted_payloads_ordered:
  assumes "cache_accepted bytes ident mode allow" "i < j" "j < unat (h_entryCount (load_header bytes))"
  shows "unat (e_cacheOffset (entry_at bytes i)) + unat (e_decompSize (entry_at bytes i))
    \<le> unat (e_cacheOffset (entry_at bytes j))"
proof -
  let ?d = "data_start (load_header bytes)" and ?es = "committed_of bytes"
  have "payload_start ?d ?es (Suc i) \<le> payload_start ?d ?es j"
    using assms(2) by (intro payload_start_mono) simp
  with assms(2,3) show ?thesis
    using accepted_payload_places(1) [OF assms(1)] by (simp add: payload_start_Suc)
qed

text \<open>
  C19: in an accepted file every payload lies behind the committed index and behind the whole
  index area, ends inside the file, and shares no byte with the payload of another entry.
\<close>

theorem accepted_payloads_disjoint:
  assumes "vr_ok (Validate (Some bytes) (length bytes) ident mode allow)"
    and "i < unat (h_entryCount (load_header bytes))"
  shows "sizeof_Header + unat (h_entryCount (load_header bytes)) * sizeof_Entry
      \<le> data_start (load_header bytes) \<and>
    data_start (load_header bytes) \<le> unat (e_cacheOffset (entry_at bytes i)) \<and>
    unat (e_cacheOffset (entry_at bytes i)) + unat (e_decompSize (entry_at bytes i)) \<le> length bytes \<and>
    (\<forall>j < unat (h_entryCount (load_header bytes)). j \<noteq> i \<longrightarrow>
      unat (e_cacheOffset (entry_at bytes i)) + unat (e_decompSize (entry_at bytes i))
        \<le> unat (e_cacheOffset (entry_at bytes j)) \<or>
      unat (e_cacheOffset (entry_at bytes j)) + unat (e_decompSize (entry_at bytes j))
        \<le> unat (e_cacheOffset (entry_at bytes i)))"
proof -
  have acc: "cache_accepted bytes ident mode allow"
    using assms(1) by (simp add: Validate_ok_iff)
  note places = accepted_payload_places [OF acc assms(2)]
  have "data_start (load_header bytes) \<le> unat (e_cacheOffset (entry_at bytes i))"
    unfolding places(1) by (simp add: payload_start_def)
  moreover have "unat (e_cacheOffset (entry_at bytes i)) + unat (e_decompSize (entry_at bytes i))
      \<le> unat (e_cacheOffset (entry_at bytes j)) \<or>
    unat (e_cacheOffset (entry_at bytes j)) + unat (e_decompSize (entry_at bytes j))
      \<le> unat (e_cacheOffset (entry_at bytes i))"
    if "j < unat (h_entryCount (load_header bytes))" "j \<noteq> i" for j
    using that assms(2) accepted_payloads_ordered [OF acc] by (meson nat_neq_iff)
  ultimately show ?thesis
    using places header_accepted_counts(3) [OF cache_acceptedD(1) [OF acc]] by simp
qed

section \<open>Which bytes matter\<close>

lemma load_header_frame: "take n as = take n bs \<Longrightarrow> 44 \<le> n \<Longrightarrow> load_header as = load_header bs"
  using take_drop_frame [of n as bs 0 4] get32_frame [of n as bs] get64_frame [of n as bs]
  by (simp add: load_header_def)

lemma entry_at_frame:
  assumes "take n as = take n bs" "sizeof_Header + Suc i * sizeof_Entry \<le> n"
  shows "entry_at as i = entry_at bs i"
  using get32_frame [OF assms(1)] get64_frame [OF assms(1)] assms(2)
  by (simp add: entry_at_def load_entry_def sizeof_Header_def sizeof_Entry_def)

lemma committed_entries_frame:
  assumes "take m as = take m bs" "sizeof_Header + n * sizeof_Entry \<le> m"
  shows "committed_entries as n = committed_entries bs n"
proof -
  have "entry_at as i = entry_at bs i" if "i < n" for i
  proof (rule entry_at_frame [OF assms(1)])
    have "Suc i * sizeof_Entry \<le> n * sizeof_Entry" using that by (intro mult_le_mono1) simp
    then show "sizeof_Header + Suc i * sizeof_Entry \<le> m" using assms(2) by linarith
  qed
  then show ?thesis by (simp add: committed_entries_def)
qed

definition committed_size :: "bytes \<Rightarrow> nat" where
  "committed_size bytes = vr_validSize (accepted_result bytes)"

lemma committed_size_eq:
  "committed_size bytes = payload_start (data_start (load_header bytes)) (committed_of bytes)
     (unat (h_entryCount (load_header bytes)))"
  by (simp add: committed_size_def accepted_result_def Let_def)

lemma committed_size_le:
  assumes "cache_accepted bytes ident mode allow"
  shows "committed_size bytes \<le> length bytes"
proof -
  let ?n = "unat (h_entryCount (load_header bytes))"
  obtain m where m: "?n = Suc m"
    using header_accepted_counts(1) [OF cache_acceptedD(1) [OF assms]] by (cases ?n) auto
  with cache_acceptedD(2) [OF assms, of m] show ?thesis
    by (simp add: committed_size_eq entry_accepted_def Let_def payload_start_Suc)
qed

lemma Validate_prefix_eq:
  assumes "vr_ok (Validate (Some bytes) (length bytes) ident StructuralOnly True)"
    and "take (sizeof_Header + unat (h_entryCount (load_header bytes)) * sizeof_Entry) bytes' =
         take (sizeof_Header + unat (h_entryCount (load_header bytes)) * sizeof_Entry) bytes"
    and "committed_size bytes \<le> length bytes'"
  shows "Validate (Some bytes') (length bytes') ident StructuralOnly True =
         Validate (Some bytes) (length bytes) ident StructuralOnly True"
proof -
  have acc: "cache_accepted bytes ident StructuralOnly True"
    using assms(1) by (simp add: Validate_ok_iff)
  have hd: "load_header bytes' = load_header bytes"
    by (rule load_header_frame [OF assms(2)]) (simp add: sizeof_Header_def)
  have es: "committed_entries bytes' (unat (h_entryCount (load_header bytes))) = committed_of bytes"
    by (rule committed_entries_frame [OF assms(2)]) simp
  have size: "committed_size bytes' = committed_size bytes"
    by (simp add: committed_size_eq hd es)
  have le: "data_start (load_header bytes) \<le> committed_size bytes"
    by (simp add: committed_size_eq payload_start_def)
  have len: "payload_start (data_start (load_header bytes)) (committed_of bytes) (Suc i) \<le> length bytes'"
    if "i < unat (h_entryCount (load_header bytes))" for i
    using assms(3) payload_start_mono [of "Suc i"] that
    by (metis committed_size_eq Suc_leI order_trans)
  have "header_accepted bytes' ident"
  proof -
    have "data_start (load_header bytes) \<le> length bytes'" using le assms(3) by simp
    moreover from this have "sizeof_Header \<le> length bytes'" by (simp add: data_start_def)
    ultimately show ?thesis
      using cache_acceptedD(1) [OF acc] by (simp add: header_accepted_def hd Let_def)
  qed
  moreover have "entry_accepted bytes' StructuralOnly (data_start (load_header bytes))
      (committed_of bytes) i" if "i < unat (h_entryCount (load_header bytes))" for i
    using cache_acceptedD(2) [OF acc that] len [OF that] that
    by (simp add: entry_accepted_def Let_def payload_start_Suc)
  ultimately have "cache_accepted bytes' ident StructuralOnly True"
    using cache_acceptedD(3) [OF acc] by (simp add: cache_accepted_def Let_def hd es)
  then show ?thesis
    using acc by (simp add: Validate_accepted accepted_result_def Let_def hd es)
qed

text \<open>
  Structural acceptance with trailing data allowed depends only on the header, the
  committed index slots and the file being long enough: whatever an interrupted writer left
  in reserved slots or behind the committed prefix does not matter.
\<close>

theorem Validate_committed_prefix:
  assumes "vr_ok (Validate (Some bytes) (length bytes) ident StructuralOnly True)"
    and "take (sizeof_Header + unat (h_entryCount (load_header bytes)) * sizeof_Entry) bytes' =
         take (sizeof_Header + unat (h_entryCount (load_header bytes)) * sizeof_Entry) bytes"
    and "committed_size bytes \<le> length bytes'"
  shows "Validate (Some bytes') (length bytes') ident StructuralOnly True =
         Validate (Some bytes) (length bytes) ident StructuralOnly True"
  using assms by (rule Validate_prefix_eq)

section \<open>A changed payload byte is rejected\<close>

lemma payload_start_covers:
  "d \<le> j \<Longrightarrow> j < payload_start d es n \<Longrightarrow> n \<le> length es \<Longrightarrow>
     \<exists>i < n. payload_start d es i \<le> j \<and> j < payload_start d es (Suc i)"
proof (induction n)
  case (Suc n)
  then show ?case
    by (cases "j < payload_start d es n") (auto intro: less_SucI)
qed simp

text \<open>
  C20: in full validation, changing any single byte of any committed payload of an accepted
  file makes the file rejected.
\<close>

theorem full_validation_detects_corruption:
  assumes "vr_ok (Validate (Some bytes) (length bytes) ident FullPayload allow)"
    and "data_start (load_header bytes) \<le> j" "j < committed_size bytes" "b \<noteq> bytes ! j"
  shows "\<not> vr_ok (Validate (Some (bytes[j := b])) (length bytes) ident FullPayload allow)"
proof
  let ?h = "load_header bytes" and ?bs = "bytes[j := b]"
  let ?n = "unat (h_entryCount ?h)" and ?d = "data_start ?h" and ?es = "committed_of bytes"
  assume "vr_ok (Validate (Some ?bs) (length bytes) ident FullPayload allow)"
  then have acc': "cache_accepted ?bs ident FullPayload allow"
    using Validate_ok_iff [of ?bs] by simp
  have acc: "cache_accepted bytes ident FullPayload allow"
    using assms(1) by (simp add: Validate_ok_iff)
  note counts = header_accepted_counts [OF cache_acceptedD(1) [OF acc]]
  have fr: "take (sizeof_Header + ?n * sizeof_Entry) ?bs = take (sizeof_Header + ?n * sizeof_Entry) bytes"
    using counts(3) assms(2) by simp
  have hd: "load_header ?bs = ?h"
    by (rule load_header_frame [OF fr]) (simp add: sizeof_Header_def)
  have es: "committed_entries ?bs ?n = ?es"
    by (rule committed_entries_frame [OF fr]) simp
  from payload_start_covers [of ?d j ?es ?n] assms(2,3)
  obtain i where i: "i < ?n" "payload_start ?d ?es i \<le> j" "j < payload_start ?d ?es (Suc i)"
    by (auto simp: committed_size_eq)
  let ?p = "payload_start ?d ?es i" and ?sz = "unat (e_decompSize (?es ! i))"
  have sz: "j < ?p + ?sz" using i by (simp add: payload_start_Suc)
  have ok: "?p + ?sz \<le> length bytes" "xxh32 (take ?sz (drop ?p bytes)) = e_checksum (?es ! i)"
    using cache_acceptedD(2) [OF acc i(1)] by (simp_all add: entry_accepted_def Let_def)
  have ok': "xxh32 (take ?sz (drop ?p ?bs)) = e_checksum (?es ! i)"
    using cache_acceptedD(2) [OF acc', of i] i(1) by (simp add: entry_accepted_def Let_def hd es)
  have "take ?sz (drop ?p ?bs) = (take ?sz (drop ?p bytes))[j - ?p := b]"
    using i(2) by (simp add: drop_update_swap take_update_swap)
  moreover have "xxh32 ((take ?sz (drop ?p bytes))[j - ?p := b]) \<noteq> xxh32 (take ?sz (drop ?p bytes))"
    using i(2) sz ok(1) assms(4) by (intro xxh32_update) auto
  ultimately show False using ok(2) ok' by simp
qed

end
