(* ===== verification/CacheFiles.thy ===== *)
theory CacheFiles
  imports CacheFormat
begin

text \<open>
  The cache-file writers of Skyrim/src/DecompCache.cpp: bounded cancellable writes, mapping a
  committed file, writing a fresh file behind an atomic replacement, and appending to a
  committed file (payloads, then index, then header, with a rollback).  The outcomes of the
  Win32 calls and the values the cancel flag has when it is read are a script consumed in
  the order of the calls; a failing write may leave a prefix of its chunk in the file.

  Each file carries a ghost window: the contents it had since its last successful flush.
  What a crash can leave on the disk is any byte-wise mixture of them, except that the
  44-byte header, inside the first sector, is not torn.
\<close>

section \<open>Files and their environment\<close>

record cfile =
  fl_content :: bytes
  fl_window :: "bytes list"

definition durable_file :: "bytes \<Rightarrow> cfile" where
  "durable_file c = \<lparr>fl_content = c, fl_window = [c]\<rparr>"

datatype outcome = Succeeds | Fails nat

record disk =
  dk_base :: "cfile option"
  dk_temp :: "cfile option"
  dk_cancel :: "bool list"
  dk_sys :: "outcome list"

datatype target = BaseFile | TempFile

fun the_file :: "target \<Rightarrow> disk \<Rightarrow> cfile" where
  "the_file BaseFile d = (case dk_base d of Some f \<Rightarrow> f | None \<Rightarrow> durable_file [])"
| "the_file TempFile d = (case dk_temp d of Some f \<Rightarrow> f | None \<Rightarrow> durable_file [])"

fun set_file :: "target \<Rightarrow> cfile \<Rightarrow> disk \<Rightarrow> disk" where
  "set_file BaseFile f d = d\<lparr>dk_base := Some f\<rparr>"
| "set_file TempFile f d = d\<lparr>dk_temp := Some f\<rparr>"

text \<open>The next outcome of the script; an exhausted script only succeeds and never cancels.\<close>

definition next_sys :: "disk \<Rightarrow> outcome \<times> disk" where
  "next_sys d = (case dk_sys d of [] \<Rightarrow> (Succeeds, d) | r # rs \<Rightarrow> (r, d\<lparr>dk_sys := rs\<rparr>))"

definition sys_call :: "disk \<Rightarrow> bool \<times> disk" where
  "sys_call d = (case next_sys d of (r, d') \<Rightarrow> (r = Succeeds, d'))"

definition Cancelled :: "bool \<Rightarrow> disk \<Rightarrow> bool \<times> disk" where
  "Cancelled cancellable d =
     (if \<not> cancellable then (False, d)
      else case dk_cancel d of [] \<Rightarrow> (False, d) | c # cs \<Rightarrow> (c, d\<lparr>dk_cancel := cs\<rparr>))"

definition change_file :: "target \<Rightarrow> (bytes \<Rightarrow> bytes) \<Rightarrow> disk \<Rightarrow> disk" where
  "change_file t g d =
     (let f = the_file t d; c = g (fl_content f)
      in set_file t \<lparr>fl_content = c, fl_window = fl_window f @ [c]\<rparr> d)"

definition write_span :: "nat \<Rightarrow> bytes \<Rightarrow> bytes \<Rightarrow> bytes" where
  "write_span off data c =
     (if data = [] then c
      else take off c @ replicate (off - length c) 0 @ data @ drop (off + length data) c)"

definition set_length :: "nat \<Rightarrow> bytes \<Rightarrow> bytes" where
  "set_length n c = take n c @ replicate (n - length c) 0"

section \<open>Bounded I/O\<close>

definition kWriteChunk :: nat where "kWriteChunk = 8 * 1024 * 1024"

definition Seek :: "nat \<Rightarrow> disk \<Rightarrow> bool \<times> disk" where
  "Seek a_offset d = (if a_offset > 2 ^ 63 - 1 then (False, d) else sys_call d)"

definition Truncate :: "target \<Rightarrow> nat \<Rightarrow> disk \<Rightarrow> bool \<times> disk" where
  "Truncate t a_size d =
     (case Seek a_size d of (False, d1) \<Rightarrow> (False, d1)
      | (True, d1) \<Rightarrow>
          (case sys_call d1 of (False, d2) \<Rightarrow> (False, d2)
           | (True, d2) \<Rightarrow> (True, change_file t (set_length a_size) d2)))"

definition FlushFileBuffers :: "target \<Rightarrow> disk \<Rightarrow> bool \<times> disk" where
  "FlushFileBuffers t d =
     (case sys_call d of (False, d1) \<Rightarrow> (False, d1)
      | (True, d1) \<Rightarrow> (True, set_file t (durable_file (fl_content (the_file t d1))) d1))"

text \<open>The chunk loop of \<open>WriteAt\<close>: the cancel flag is read before every chunk.\<close>

function write_chunks :: "target \<Rightarrow> bool \<Rightarrow> nat \<Rightarrow> bytes \<Rightarrow> disk \<Rightarrow> bool \<times> disk" where
  "write_chunks t cancellable off data d =
     (if data = [] then (True, d)
      else case Cancelled cancellable d of
        (True, d1) \<Rightarrow> (False, d1)
      | (False, d1) \<Rightarrow>
          let chunk = take kWriteChunk data in
          (case next_sys d1 of
             (Fails k, d2) \<Rightarrow> (False, change_file t (write_span off (take k chunk)) d2)
           | (Succeeds, d2) \<Rightarrow>
               write_chunks t cancellable (off + length chunk) (drop kWriteChunk data)
                 (change_file t (write_span off chunk) d2)))"
  by pat_completeness auto
termination
  by (relation "measure (\<lambda>(t, cancellable, off, data, d). length data)")
    (auto simp: kWriteChunk_def)

definition WriteAt :: "target \<Rightarrow> bool \<Rightarrow> nat \<Rightarrow> bytes \<Rightarrow> disk \<Rightarrow> bool \<times> disk" where
  "WriteAt t cancellable a_offset data d =
     (case Seek a_offset d of (False, d1) \<Rightarrow> (False, d1)
      | (True, d1) \<Rightarrow> write_chunks t cancellable a_offset data d1)"

section \<open>Verification states and mapped views\<close>

datatype VerifyState = kVerifyUnknown | kVerifyBusy | kVerifyValid | kVerifyInvalid

record MappedView =
  mv_base :: bytes
  mv_size :: nat
  mv_committedSize :: nat
  mv_prefaultedThrough :: nat
  mv_unusable :: bool
  mv_verification :: "VerifyState list"

text \<open>A cached entry points into its view: \<open>ce_data\<close> is the offset of its payload and
  \<open>ce_slot\<close> the index of its verification byte.\<close>

record CachedEntry =
  ce_data :: nat
  ce_size :: u32
  ce_checksum :: u32
  ce_slot :: nat

text \<open>The index of a view, one cached entry per committed index slot; \<open>emplace\<close> keeps the
  first entry of a start offset.  The list order stands for the order in which the map is
  iterated, which the code does not rely on.\<close>

definition cached_entry :: "nat \<Rightarrow> Entry \<Rightarrow> CachedEntry" where
  "cached_entry i e =
     \<lparr>ce_data = unat (e_cacheOffset e), ce_size = e_decompSize e, ce_checksum = e_checksum e,
      ce_slot = i\<rparr>"

definition emplace_entry ::
  "bytes \<Rightarrow> (u32 \<times> CachedEntry) list \<Rightarrow> nat \<Rightarrow> (u32 \<times> CachedEntry) list" where
  "emplace_entry base m i =
     (let e = entry_at base i
      in if map_of m (e_startOffset e) = None then m @ [(e_startOffset e, cached_entry i e)] else m)"

definition index_of :: "bytes \<Rightarrow> nat \<Rightarrow> (u32 \<times> CachedEntry) list" where
  "index_of base n = foldl (emplace_entry base) [] [0..<n]"

record OLResult =
  ol_ok :: bool
  ol_view :: "MappedView option"
  ol_index :: "(u32 \<times> CachedEntry) list"
  ol_fileSize :: nat

definition ol_failure :: OLResult where
  "ol_failure = \<lparr>ol_ok = False, ol_view = None, ol_index = [], ol_fileSize = 0\<rparr>"

text \<open>Opening, sizing, mapping and viewing the file at the base path; each step may fail.\<close>

fun sys_calls :: "nat \<Rightarrow> disk \<Rightarrow> bool \<times> disk" where
  "sys_calls 0 d = (True, d)"
| "sys_calls (Suc n) d =
     (case sys_call d of (False, d1) \<Rightarrow> (False, d1) | (True, d1) \<Rightarrow> sys_calls n d1)"

text \<open>
  \<open>MapCommittedFile\<close>: the open, the size query, the section and the view, and the
  validator's allocations are the five calls that may fail.  The size bound by
  \<open>std::size_t\<close> always holds on x86-64.
\<close>

definition MapCommittedFile :: "ArchiveIdentity \<Rightarrow> u32 list \<Rightarrow> disk \<Rightarrow> OLResult \<times> disk" where
  "MapCommittedFile a_identity a_knownValid d =
     (case dk_base d of
        None \<Rightarrow> (ol_failure, d)
      | Some f \<Rightarrow>
          (case sys_calls 2 d of (False, d1) \<Rightarrow> (ol_failure, d1)
           | (True, d1) \<Rightarrow>
               let bytes = fl_content f; fileSize = length bytes in
               if fileSize < sizeof_Header then (ol_failure, d1)
               else (case sys_calls 3 d1 of (False, d2) \<Rightarrow> (ol_failure, d2)
                 | (True, d2) \<Rightarrow>
                     let validation = Validate (Some bytes) fileSize (Some a_identity) StructuralOnly False;
                         n = unat (h_entryCount (vr_header validation))
                     in if \<not> vr_ok validation then (ol_failure, d2)
                        else
                          (\<lparr>ol_ok = True,
                            ol_view = Some
                              \<lparr>mv_base = bytes, mv_size = fileSize,
                               mv_committedSize = vr_validSize validation,
                               mv_prefaultedThrough = 0, mv_unusable = False,
                               mv_verification =
                                 map (\<lambda>i. if e_startOffset (entry_at bytes i) \<in> set a_knownValid
                                          then kVerifyValid else kVerifyUnknown) [0..<n]\<rparr>,
                            ol_index = index_of bytes n,
                            ol_fileSize = fileSize\<rparr>, d2))))"

section \<open>Pending work\<close>

record OLPending =
  op_off :: u32
  op_accountedBytes :: u64
  op_data :: bytes

text \<open>One archive's share of a flush.  The four identity fields of the source are the record
  \<open>IdentityFor\<close> builds from them; archives and views are named by numbers, and a work item
  without a cancel flag is not cancellable.\<close>

record OLWork =
  wk_archive :: nat
  wk_basePath :: bytes
  wk_identity :: ArchiveIdentity
  wk_cancellable :: bool
  wk_resetFile :: bool
  wk_sourceView :: "nat option"
  wk_verifiedOffsets :: "u32 list"
  wk_pending :: "OLPending list"

record PreparedPending =
  pp_off :: u32
  pp_data :: bytes
  pp_size :: u32
  pp_checksum :: u32

text \<open>The loop of \<open>PreparePending\<close>; \<open>None\<close> is the early \<open>return {}\<close>.\<close>

fun prepare_loop :: "bool \<Rightarrow> OLPending list \<Rightarrow> disk \<Rightarrow> PreparedPending list option \<times> disk" where
  "prepare_loop cancellable [] d = (Some [], d)"
| "prepare_loop cancellable (p # ps) d =
     (case Cancelled cancellable d of (True, d1) \<Rightarrow> (None, d1)
      | (False, d1) \<Rightarrow>
          let data = op_data p in
          if data = [] \<or> length data > unat u32_max then (None, d1)
          else
            let checksum = Checksum (Some data) (length data) in
            (case Cancelled cancellable d1 of (True, d2) \<Rightarrow> (None, d2)
             | (False, d2) \<Rightarrow>
                 (case prepare_loop cancellable ps d2 of
                    (None, d3) \<Rightarrow> (None, d3)
                  | (Some result, d3) \<Rightarrow>
                      (Some (\<lparr>pp_off = op_off p, pp_data = data, pp_size = of_nat (length data),
                              pp_checksum = checksum\<rparr> # result), d3))))"

definition PreparePending :: "OLWork \<Rightarrow> disk \<Rightarrow> PreparedPending list \<times> disk" where
  "PreparePending a_work d =
     (case prepare_loop (wk_cancellable a_work) (wk_pending a_work) d of
        (None, d1) \<Rightarrow> ([], d1) | (Some ps, d1) \<Rightarrow> (ps, d1))"

text \<open>Laying out entries from a 64-bit cursor with checked additions.\<close>

fun layout_entries :: "u64 \<Rightarrow> PreparedPending list \<Rightarrow> Entry list option" where
  "layout_entries cursor [] = Some []"
| "layout_entries cursor (p # ps) =
     (case AddChecked cursor (u64_of_u32 (pp_size p)) of
        None \<Rightarrow> None
      | Some cursor' \<Rightarrow>
          map_option (\<lambda>es. \<lparr>e_startOffset = pp_off p, e_decompSize = pp_size p,
            e_cacheOffset = cursor, e_checksum = pp_checksum p\<rparr> # es)
            (layout_entries cursor' ps))"

fun write_payloads :: "target \<Rightarrow> bool \<Rightarrow> u64 \<Rightarrow> PreparedPending list \<Rightarrow> disk \<Rightarrow> bool \<times> disk" where
  "write_payloads t cancellable payloadOffset [] d = (True, d)"
| "write_payloads t cancellable payloadOffset (p # ps) d =
     (case WriteAt t cancellable (unat payloadOffset) (pp_data p) d of
        (False, d1) \<Rightarrow> (False, d1)
      | (True, d1) \<Rightarrow> write_payloads t cancellable (payloadOffset + u64_of_u32 (pp_size p)) ps d1)"

definition index_bytes :: "Entry list \<Rightarrow> bytes" where
  "index_bytes es = concat (map entry_bytes es)"

section \<open>A fresh file\<close>

definition fresh_header :: "ArchiveIdentity \<Rightarrow> nat \<Rightarrow> Header" where
  "fresh_header ident n =
     \<lparr>h_magic = kMagic, h_version = kVersion, h_bsaFileSize = ai_fileSize ident,
      h_bsaLastWrite = ai_lastWrite ident, h_bsaFingerprint = ai_fingerprint ident,
      h_bsaEntryCount = ai_entryCount ident, h_indexCapacity = ai_entryCount ident,
      h_entryCount = of_nat n\<rparr>"

text \<open>Header, index and payloads into the temp file, then the flush unless cancelled.\<close>

definition write_temp :: "OLWork \<Rightarrow> u64 \<Rightarrow> Entry list \<Rightarrow> PreparedPending list \<Rightarrow> disk \<Rightarrow> bool \<times> disk" where
  "write_temp a_work dataStart entries a_pending d =
     (let cancellable = wk_cancellable a_work;
          header = fresh_header (wk_identity a_work) (length entries)
      in case WriteAt TempFile cancellable 0 (header_bytes header) d of
           (False, d1) \<Rightarrow> (False, d1)
         | (True, d1) \<Rightarrow>
             (case WriteAt TempFile cancellable sizeof_Header (index_bytes entries) d1 of
                (False, d2) \<Rightarrow> (False, d2)
              | (True, d2) \<Rightarrow>
                  (case write_payloads TempFile cancellable dataStart a_pending d2 of
                     (False, d3) \<Rightarrow> (False, d3)
                   | (True, d3) \<Rightarrow>
                       (case Cancelled cancellable d3 of
                          (True, d4) \<Rightarrow> (True, d4)
                        | (False, d4) \<Rightarrow> FlushFileBuffers TempFile d4))))"

text \<open>\<open>MoveFileExW\<close> with replacement; its failure leaves both files.\<close>

definition move_temp :: "disk \<Rightarrow> bool \<times> disk" where
  "move_temp d =
     (case sys_call d of (False, d1) \<Rightarrow> (False, d1)
      | (True, d1) \<Rightarrow> (True, d1\<lparr>dk_base := dk_temp d1, dk_temp := None\<rparr>))"

definition remove_temp :: "disk \<Rightarrow> disk" where
  "remove_temp d =
     (case sys_call d of (False, d1) \<Rightarrow> d1 | (True, d1) \<Rightarrow> d1\<lparr>dk_temp := None\<rparr>)"

text \<open>The destination is locked when it exists and can be opened; \<open>False\<close> is a lock that
  another process holds.\<close>

definition lock_destination :: "disk \<Rightarrow> bool \<times> disk" where
  "lock_destination d =
     (case dk_base d of
        None \<Rightarrow> (True, d)
      | Some _ \<Rightarrow> (case sys_call d of (False, d1) \<Rightarrow> (True, d1) | (True, d1) \<Rightarrow> sys_call d1))"

text \<open>Publishing a laid-out temp file: write it, replace the base file, map the result.\<close>

definition publish_temp ::
  "OLWork \<Rightarrow> u64 \<Rightarrow> Entry list \<Rightarrow> PreparedPending list \<Rightarrow> disk \<Rightarrow> OLResult \<times> disk" where
  "publish_temp a_work dataStart entries a_pending d =
     (case sys_call d of
        (False, d1) \<Rightarrow> (ol_failure, d1)
      | (True, d1) \<Rightarrow>
          (case write_temp a_work dataStart entries a_pending
                  (d1\<lparr>dk_temp := Some (durable_file [])\<rparr>) of
             (False, d2) \<Rightarrow> (ol_failure, remove_temp d2)
           | (True, d2) \<Rightarrow>
               (case move_temp d2 of
                  (False, d3) \<Rightarrow> (ol_failure, remove_temp d3)
                | (True, d3) \<Rightarrow>
                    MapCommittedFile (wk_identity a_work) (map pp_off a_pending) d3)))"

definition WriteFreshFile :: "OLWork \<Rightarrow> PreparedPending list \<Rightarrow> disk \<Rightarrow> OLResult \<times> disk" where
  "WriteFreshFile a_work a_pending d =
     (if a_pending = [] \<or> length a_pending > unat (ai_entryCount (wk_identity a_work))
      then (ol_failure, d)
      else case Cancelled (wk_cancellable a_work) d of
        (True, d1) \<Rightarrow> (ol_failure, d1)
      | (False, d1) \<Rightarrow>
          (case lock_destination d1 of
             (False, d2) \<Rightarrow> (ol_failure, d2)
           | (True, d2) \<Rightarrow>
               if \<not> distinct (map pp_off a_pending) then (ol_failure, d2)
               else
                 let indexBytes = u64_of_u32 (ai_entryCount (wk_identity a_work)) * of_nat sizeof_Entry in
                 (case AddChecked (of_nat sizeof_Header) indexBytes of
                    None \<Rightarrow> (ol_failure, d2)
                  | Some dataStart \<Rightarrow>
                      (case layout_entries dataStart a_pending of
                         None \<Rightarrow> (ol_failure, d2)
                       | Some entries \<Rightarrow> publish_temp a_work dataStart entries a_pending d2))))"

section \<open>Appending\<close>

text \<open>
  The reconciliation with the entries already committed: \<open>None\<close> asks for a fresh file; the
  lists are the entries to append and the offsets whose persisted bytes were verified.
\<close>

fun find_entry :: "bytes \<Rightarrow> nat \<Rightarrow> u32 \<Rightarrow> Entry option" where
  "find_entry view n off = find (\<lambda>e. e_startOffset e = off) (map (entry_at view) [0..<n])"

fun reconcile :: "bytes \<Rightarrow> nat \<Rightarrow> PreparedPending list \<Rightarrow> PreparedPending list \<Rightarrow> u32 list \<Rightarrow>
    (PreparedPending list \<times> u32 list) option" where
  "reconcile view n [] newEntries knownValid = Some (newEntries, knownValid)"
| "reconcile view n (p # ps) newEntries knownValid =
     (case find_entry view n (pp_off p) of
        None \<Rightarrow> reconcile view n ps (newEntries @ [p]) knownValid
      | Some found \<Rightarrow>
          if e_decompSize found = pp_size p \<and> e_checksum found = pp_checksum p then
            (let persisted = drop (unat (e_cacheOffset found)) view in
             if Checksum (Some persisted) (unat (e_decompSize found)) = e_checksum found
             then reconcile view n ps newEntries (knownValid @ [pp_off p])
             else None)
          else None)"

text \<open>Everything that decides between appending and a fresh file, read under the lock.\<close>

definition plan_append :: "OLWork \<Rightarrow> PreparedPending list \<Rightarrow> bytes \<Rightarrow> disk \<Rightarrow>
    (ValidationResult \<times> PreparedPending list \<times> u32 list) option \<times> disk" where
  "plan_append a_work prepared content d =
     (case sys_calls 1 d of
        (False, d1) \<Rightarrow> (None, d1)
      | (True, d1) \<Rightarrow>
          if length content < sizeof_Header then (None, d1)
          else (case sys_calls 3 d1 of
             (False, d2) \<Rightarrow> (None, d2)
           | (True, d2) \<Rightarrow>
               let validation = Validate (Some content) (length content)
                     (Some (wk_identity a_work)) StructuralOnly True;
                   h = vr_header validation; n = unat (h_entryCount h)
               in if \<not> vr_ok validation then (None, d2)
                  else case reconcile content n prepared [] (wk_verifiedOffsets a_work) of
                         None \<Rightarrow> (None, d2)
                       | Some (newEntries, knownValid) \<Rightarrow>
                           if length newEntries > unat (h_indexCapacity h - h_entryCount h)
                           then (None, d2)
                           else (Some (validation, newEntries, knownValid), d2)))"

text \<open>Phase 1: cut the uncommitted tail and write the payloads behind the committed prefix.
  The flush is skipped when the load becomes active meanwhile.\<close>

definition append_payloads :: "bool \<Rightarrow> nat \<Rightarrow> PreparedPending list \<Rightarrow> bool \<Rightarrow> disk \<Rightarrow> bool \<times> disk" where
  "append_payloads cancellable oldCommittedSize newEntries laidOut d =
     (case Cancelled cancellable d of
        (True, d1) \<Rightarrow> (False, d1)
      | (False, d1) \<Rightarrow>
          (case Truncate BaseFile oldCommittedSize d1 of
             (False, d2) \<Rightarrow> (False, d2)
           | (True, d2) \<Rightarrow>
               if \<not> laidOut then (False, d2)
               else (case write_payloads BaseFile cancellable (of_nat oldCommittedSize) newEntries d2 of
                  (False, d3) \<Rightarrow> (False, d3)
                | (True, d3) \<Rightarrow>
                    (case Cancelled cancellable d3 of
                       (True, d4) \<Rightarrow> (True, d4)
                     | (False, d4) \<Rightarrow> FlushFileBuffers BaseFile d4))))"

text \<open>Phase 2: the new index slots, flushed.\<close>

definition append_index :: "bool \<Rightarrow> Header \<Rightarrow> Entry list \<Rightarrow> disk \<Rightarrow> bool \<times> disk" where
  "append_index cancellable oldHeader appendedIndex d =
     (if appendedIndex = [] then (True, d)
      else case WriteAt BaseFile cancellable (sizeof_Header + unat (h_entryCount oldHeader) * sizeof_Entry)
                  (index_bytes appendedIndex) d of
        (False, d1) \<Rightarrow> (False, d1)
      | (True, d1) \<Rightarrow> FlushFileBuffers BaseFile d1)"

text \<open>Phase 3: the header with the new entry count, flushed.\<close>

definition append_header :: "bool \<Rightarrow> Header \<Rightarrow> Entry list \<Rightarrow> disk \<Rightarrow> bool \<times> disk" where
  "append_header cancellable oldHeader appendedIndex d =
     (if appendedIndex = [] then (True, d)
      else
        let newHeader = oldHeader\<lparr>h_entryCount := h_entryCount oldHeader + of_nat (length appendedIndex)\<rparr> in
        case WriteAt BaseFile cancellable 0 (header_bytes newHeader) d of
          (False, d1) \<Rightarrow> (False, d1)
        | (True, d1) \<Rightarrow> FlushFileBuffers BaseFile d1)"

text \<open>The rollback ignores the outcomes of its calls.\<close>

definition rollback :: "Header \<Rightarrow> nat \<Rightarrow> disk \<Rightarrow> disk" where
  "rollback oldHeader oldCommittedSize d =
     (let (_, d1) = WriteAt BaseFile False 0 (header_bytes oldHeader) d;
          (_, d2) = Truncate BaseFile oldCommittedSize d1;
          (_, d3) = FlushFileBuffers BaseFile d2
      in d3)"

definition append_phases :: "bool \<Rightarrow> Header \<Rightarrow> nat \<Rightarrow> PreparedPending list \<Rightarrow> disk \<Rightarrow> bool \<times> disk" where
  "append_phases cancellable oldHeader oldCommittedSize newEntries d =
     (let laid = layout_entries (of_nat oldCommittedSize) newEntries;
          appendedIndex = (case laid of None \<Rightarrow> [] | Some es \<Rightarrow> es)
      in case append_payloads cancellable oldCommittedSize newEntries (laid \<noteq> None) d of
           (False, d1) \<Rightarrow> (False, d1)
         | (True, d1) \<Rightarrow>
             (case append_index cancellable oldHeader appendedIndex d1 of
                (False, d2) \<Rightarrow> (False, d2)
              | (True, d2) \<Rightarrow> append_header cancellable oldHeader appendedIndex d2))"

definition AppendFile :: "OLWork \<Rightarrow> disk \<Rightarrow> OLResult \<times> disk" where
  "AppendFile a_work d =
     (case Cancelled (wk_cancellable a_work) d of
        (True, d1) \<Rightarrow> (ol_failure, d1)
      | (False, d1) \<Rightarrow>
          (case PreparePending a_work d1 of
             (prepared, d2) \<Rightarrow>
               if length prepared \<noteq> length (wk_pending a_work) then (ol_failure, d2)
               else if wk_resetFile a_work then WriteFreshFile a_work prepared d2
               else (case dk_base d2 of
                  None \<Rightarrow> WriteFreshFile a_work prepared d2
                | Some base \<Rightarrow>
                    (case sys_call d2 of
                       (False, d3) \<Rightarrow> WriteFreshFile a_work prepared d3
                     | (True, d3) \<Rightarrow>
                         (case sys_call d3 of
                            (False, d4) \<Rightarrow> (ol_failure, d4)
                          | (True, d4) \<Rightarrow>
                              (case plan_append a_work prepared (fl_content base) d4 of
                                 (None, d5) \<Rightarrow> WriteFreshFile a_work prepared d5
                               | (Some (validation, newEntries, knownValid), d5) \<Rightarrow>
                                   (case Cancelled (wk_cancellable a_work) d5 of
                                      (True, d6) \<Rightarrow> (ol_failure, d6)
                                    | (False, d6) \<Rightarrow>
                                        (case append_phases (wk_cancellable a_work) (vr_header validation)
                                                (vr_validSize validation) newEntries d6 of
                                           (False, d7) \<Rightarrow>
                                             (ol_failure, rollback (vr_header validation)
                                                (vr_validSize validation) d7)
                                         | (True, d7) \<Rightarrow>
                                             MapCommittedFile (wk_identity a_work)
                                               (knownValid @ map pp_off prepared) d7))))))))"

end
