(* ===== verification/EntryVerify.thy ===== *)
theory EntryVerify
  imports CacheFiles
begin

text \<open>
  The two page-level primitives of Skyrim/src/DecompCache.cpp: \<open>TouchMappedPages\<close>, which
  faults every page of a range of a mapped file, and \<open>VerifyEntry\<close>, the lock-free lazy
  checksum of a cached entry.  \<open>VerifyEntry\<close> is modelled as a step relation of any number of
  threads on the entry's verification byte, and as the function a thread that runs alone
  computes.
\<close>

section \<open>Touching pages\<close>

text \<open>The loop that starts at the first page boundary behind \<open>a_begin\<close>.\<close>

function touch_loop :: "u64 \<Rightarrow> u64 \<Rightarrow> u64 \<Rightarrow> u64 list" where
  "touch_loop a_pageSize a_end offset =
     (if offset < a_end then
        offset # (if a_end - offset \<le> a_pageSize \<or> a_pageSize = 0 then []
                  else touch_loop a_pageSize a_end (offset + a_pageSize))
      else [])"
  by pat_completeness auto
termination
proof (relation "measure (\<lambda>(ps, e, off). unat (e - off))")
  fix ps e off :: u64
  assume a: "off < e" "\<not> (e - off \<le> ps \<or> ps = 0)"
  have "e - (off + ps) = (e - off) - ps" by (rule diff_diff_eq [symmetric])
  moreover have "unat ((e - off) - ps) = unat (e - off) - unat ps"
    using a by (intro unat_sub_le) (simp add: not_le less_imp_le)
  moreover have "0 < unat ps" "unat ps < unat (e - off)"
    using a by (simp_all add: word_less_nat_alt word_le_nat_alt unat_gt_0)
  ultimately show "((ps, e, off + ps), (ps, e, off)) \<in> measure (\<lambda>(ps, e, off). unat (e - off))"
    by (simp only: in_measure prod.case)
qed simp

declare touch_loop.simps [simp del]

definition touched_offsets :: "u64 \<Rightarrow> u64 \<Rightarrow> u64 \<Rightarrow> u64 list" where
  "touched_offsets a_begin a_end a_pageSize =
     (let misalignment = a_begin mod a_pageSize;
          advance = (if misalignment = 0 then a_pageSize else a_pageSize - misalignment)
      in [a_begin] @
         (if advance < a_end - a_begin then touch_loop a_pageSize a_end (a_begin + advance) else []) @
         [a_end - 1])"

text \<open>A read of a page whose storage fails raises the structured exception that the function
  turns into \<open>False\<close>.\<close>

definition TouchMappedPages :: "(u64 \<Rightarrow> bool) \<Rightarrow> bool \<Rightarrow> u64 \<Rightarrow> u64 \<Rightarrow> u64 \<Rightarrow> bool" where
  "TouchMappedPages faults a_base a_begin a_end a_pageSize =
     (if \<not> a_base \<or> a_begin \<ge> a_end \<or> a_pageSize = 0 then True
      else list_all (\<lambda>offset. \<not> faults offset) (touched_offsets a_begin a_end a_pageSize))"

lemma touch_loop_range:
  "off \<in> set (touch_loop ps e start) \<Longrightarrow> start \<le> off \<and> off < e"
proof (induction ps e start rule: touch_loop.induct)
  case (1 ps e start)
  show ?case
  proof (cases "start < e \<and> \<not> (e - start \<le> ps \<or> ps = 0) \<and> off \<in> set (touch_loop ps e (start + ps))")
    case True
    with "1.IH" have "start + ps \<le> off \<and> off < e" by auto
    moreover have "unat (e - start) = unat e - unat start" using True by (intro unat_sub_le) auto
    then have "unat start + unat ps \<le> unat e"
      using True by (auto simp: word_le_nat_alt word_less_nat_alt not_le)
    then have "start \<le> start + ps"
      by (simp add: word_le_nat_alt unat_add_le [of start ps e])
    ultimately show ?thesis by auto
  next
    case False
    with "1.prems" show ?thesis
      by (subst (asm) touch_loop.simps) (auto split: if_splits)
  qed
qed

text \<open>Every page from an aligned start on holds an offset the loop touches.\<close>

lemma touch_loop_covers:
  "unat start mod unat ps = 0 \<Longrightarrow> ps \<noteq> 0 \<Longrightarrow> start \<le> x \<Longrightarrow> x < e \<Longrightarrow>
   \<exists>off \<in> set (touch_loop ps e start). unat off div unat ps = unat x div unat ps"
proof (induction ps e start rule: touch_loop.induct)
  case (1 ps e start)
  have lt: "start < e" using "1.prems" by auto
  have ps: "0 < unat ps" using "1.prems"(2) by (simp add: unat_gt_0)
  show ?case
  proof (cases "unat x < unat start + unat ps")
    case True
    obtain k where k: "unat start = unat ps * k"
      using "1.prems"(1) by (auto simp: mod_eq_0_iff_dvd dvd_def)
    have "unat x div unat ps = k"
      using True "1.prems"(3) k ps
      by (intro div_nat_eqI) (simp_all add: word_le_nat_alt algebra_simps)
    moreover have "unat start div unat ps = k" using k ps by simp
    ultimately show ?thesis using lt by (subst touch_loop.simps) simp
  next
    case False
    have sub: "unat (e - start) = unat e - unat start" using lt by (intro unat_sub_le) simp
    have far: "unat start + unat ps < unat e"
      using False "1.prems"(4) by (simp add: word_less_nat_alt)
    then have go: "\<not> (e - start \<le> ps \<or> ps = 0)"
      using "1.prems"(2) sub by (simp add: word_le_nat_alt)
    have add: "unat (start + ps) = unat start + unat ps"
      using far by (intro unat_add_le [of _ _ e]) simp
    have "\<exists>off \<in> set (touch_loop ps e (start + ps)). unat off div unat ps = unat x div unat ps"
    proof (rule "1.IH")
      show "unat (start + ps) mod unat ps = 0" using "1.prems"(1) add by simp
      show "start + ps \<le> x" using False add by (simp add: word_le_nat_alt)
    qed (use lt go "1.prems" in auto)
    then show ?thesis using lt go by (subst touch_loop.simps) auto
  qed
qed

lemma touched_offsets_cover:
  assumes "ps \<noteq> 0" "a_begin \<le> x" "x < a_end"
  shows "\<exists>off \<in> set (touched_offsets a_begin a_end ps). unat off div unat ps = unat x div unat ps"
proof -
  let ?p = "unat ps" and ?b = "unat a_begin" and ?e = "unat a_end"
  let ?adv = "if a_begin mod ps = 0 then ps else ps - a_begin mod ps"
  have p: "0 < ?p" using assms(1) by (simp add: unat_gt_0)
  have adv: "unat ?adv = ?p - ?b mod ?p"
    using p by (auto simp: unat_mod word_unat_eq_iff unat_sub word_le_nat_alt less_imp_le)
  have be: "?b < ?e" "?b \<le> unat x" "unat x < ?e"
    using assms by (simp_all add: word_less_nat_alt word_le_nat_alt)
  have sub: "unat (a_end - a_begin) = ?e - ?b"
    using assms by (intro unat_sub_le) simp
  have "?b mod ?p < ?p" "?b = ?p * (?b div ?p) + ?b mod ?p" using p by simp_all
  then have block: "?b + (?p - ?b mod ?p) = ?p * Suc (?b div ?p)"
    unfolding mult_Suc_right by linarith
  show ?thesis
  proof (cases "unat x < ?b + (?p - ?b mod ?p)")
    case True
    have "unat x div ?p = ?b div ?p"
    proof (rule antisym)
      have "unat x div ?p < Suc (?b div ?p)"
        using True block p by (simp add: div_less_iff_less_mult mult.commute)
      then show "unat x div ?p \<le> ?b div ?p" by simp
      show "?b div ?p \<le> unat x div ?p" using be by (intro div_le_mono)
    qed
    then show ?thesis by (auto simp: touched_offsets_def Let_def)
  next
    case False
    have start: "unat (a_begin + ?adv) = ?b + (?p - ?b mod ?p)"
      unfolding adv [symmetric] using False be adv by (intro unat_add_le [of _ _ a_end]) simp
    have "?adv < a_end - a_begin"
      using False be adv sub by (simp add: word_less_nat_alt)
    moreover have "\<exists>off \<in> set (touch_loop ps a_end (a_begin + ?adv)). unat off div ?p = unat x div ?p"
      by (rule touch_loop_covers)
        (use False assms start block in \<open>simp_all add: word_le_nat_alt del: mult_Suc_right\<close>)
    ultimately show ?thesis by (auto simp: touched_offsets_def Let_def)
  qed
qed

lemma touched_offsets_range:
  assumes "a_begin < a_end" "off \<in> set (touched_offsets a_begin a_end ps)"
  shows "a_begin \<le> off \<and> off < a_end"
proof -
  let ?adv = "if a_begin mod ps = 0 then ps else ps - a_begin mod ps"
  have last: "a_begin \<le> a_end - 1 \<and> a_end - 1 < a_end"
  proof -
    have "1 \<le> a_end" using assms(1) by (simp add: word_less_nat_alt word_le_nat_alt)
    then have "unat (a_end - 1) = unat a_end - 1" by (simp add: unat_sub_le)
    then show ?thesis using assms(1) by (simp add: word_less_nat_alt word_le_nat_alt)
  qed
  consider "off = a_begin" | "off = a_end - 1"
    | "?adv < a_end - a_begin" "off \<in> set (touch_loop ps a_end (a_begin + ?adv))"
    using assms(2) by (auto simp: touched_offsets_def Let_def split: if_splits)
  then show ?thesis
  proof cases
    case 3
    have "unat (a_end - a_begin) = unat a_end - unat a_begin"
      using assms(1) by (intro unat_sub_le) simp
    then have "unat a_begin + unat ?adv \<le> unat a_end"
      using 3(1) by (simp add: word_less_nat_alt)
    from unat_add_le [OF this] have "a_begin \<le> a_begin + ?adv"
      by (simp add: word_le_nat_alt)
    with touch_loop_range [OF 3(2)] show ?thesis by auto
  qed (use assms(1) last in auto)
qed

text \<open>
  A range that was touched without a fault is resident: every page of it holds an offset
  inside the range that was read successfully, also when the range starts or ends inside a
  page and up to the last 64-bit offset.
\<close>

theorem touch_covers_pages:
  assumes "TouchMappedPages faults True a_begin a_end a_pageSize" "a_pageSize \<noteq> 0"
    and "a_begin \<le> x" "x < a_end"
  shows "\<exists>off. a_begin \<le> off \<and> off < a_end \<and> \<not> faults off \<and>
    unat off div unat a_pageSize = unat x div unat a_pageSize"
proof -
  have lt: "a_begin < a_end" using assms(3,4) by simp
  obtain off where "off \<in> set (touched_offsets a_begin a_end a_pageSize)"
    "unat off div unat a_pageSize = unat x div unat a_pageSize"
    using touched_offsets_cover [OF assms(2-4)] by blast
  with touched_offsets_range [OF lt this(1)] assms(1,2) not_le [THEN iffD2, OF lt] show ?thesis
    by (intro exI [of _ off]) (simp add: TouchMappedPages_def list_all_iff)
qed

lemma touch_covers_pages_witness:
  "\<exists>off. (100 :: u64) \<le> off \<and> off < 9000 \<and> \<not> False \<and>
     unat off div unat (4096 :: u64) = unat (5000 :: u64) div unat (4096 :: u64)"
  by (rule touch_covers_pages) (simp_all add: TouchMappedPages_def list_all_iff)

section \<open>Lazy verification\<close>

record VerificationResult =
  vf_valid :: bool
  vf_computed :: bool
  vf_waited :: bool
  vf_qpcTicks :: u64

definition verification_result :: "bool \<Rightarrow> bool \<Rightarrow> bool \<Rightarrow> u64 \<Rightarrow> VerificationResult" where
  "verification_result v c w t = \<lparr>vf_valid = v, vf_computed = c, vf_waited = w, vf_qpcTicks = t\<rparr>"

text \<open>\<open>TryChecksumMapped\<close>: \<open>None\<close> when the pages cannot be read.\<close>

definition TryChecksumMapped :: "bool \<Rightarrow> bytes option \<Rightarrow> nat \<Rightarrow> u32 option" where
  "TryChecksumMapped readable a_data a_size =
     (if a_data = None \<or> a_size = 0 then None
      else if readable then Some (Checksum a_data a_size) else None)"

text \<open>The payload of an entry in the mapping its view owns.\<close>

definition entry_payload :: "bytes \<Rightarrow> CachedEntry \<Rightarrow> bytes" where
  "entry_payload base e = drop (ce_data e) base"

definition entry_verdict :: "bool \<Rightarrow> bytes \<Rightarrow> CachedEntry \<Rightarrow> bool" where
  "entry_verdict readable base e \<longleftrightarrow>
     TryChecksumMapped readable (Some (entry_payload base e)) (unat (ce_size e)) = Some (ce_checksum e)"

definition elapsed_ticks :: "bool \<Rightarrow> u64 \<Rightarrow> u64 \<Rightarrow> u64" where
  "elapsed_ticks measured started finished =
     (if measured \<and> finished \<ge> started then finished - started else 0)"

text \<open>
  A thread inside \<open>VerifyEntry\<close>; the flag is its local \<open>waited\<close>.  It has yet to load the
  byte, has loaded \<open>kVerifyUnknown\<close> and will try the exchange, owns the byte and computes the
  checksum, waits for the owner, or has returned.
\<close>

datatype verify_pc =
    Loading bool | Exchanging bool | Computing bool | Waiting | Verified VerificationResult

record verify_sys =
  vs_state :: VerifyState
  vs_pc :: "nat \<Rightarrow> verify_pc"

definition verify_init :: "VerifyState \<Rightarrow> verify_sys" where
  "verify_init st = \<lparr>vs_state = st, vs_pc = (\<lambda>_. Loading False)\<rparr>"

definition verify_load :: "nat \<Rightarrow> bool \<Rightarrow> verify_sys \<Rightarrow> verify_sys" where
  "verify_load i waited s =
     s\<lparr>vs_pc := (vs_pc s)(i :=
        (case vs_state s of
           kVerifyValid \<Rightarrow> Verified (verification_result True False waited 0)
         | kVerifyInvalid \<Rightarrow> Verified (verification_result False False waited 0)
         | kVerifyUnknown \<Rightarrow> Exchanging waited
         | kVerifyBusy \<Rightarrow> Waiting))\<rparr>"

definition verify_exchange :: "nat \<Rightarrow> bool \<Rightarrow> verify_sys \<Rightarrow> verify_sys" where
  "verify_exchange i waited s =
     (if vs_state s = kVerifyUnknown
      then s\<lparr>vs_state := kVerifyBusy, vs_pc := (vs_pc s)(i := Computing waited)\<rparr>
      else s\<lparr>vs_pc := (vs_pc s)(i := Loading waited)\<rparr>)"

definition verify_store :: "bool \<Rightarrow> u64 \<Rightarrow> nat \<Rightarrow> bool \<Rightarrow> verify_sys \<Rightarrow> verify_sys" where
  "verify_store valid ticks i waited s =
     s\<lparr>vs_state := (if valid then kVerifyValid else kVerifyInvalid),
       vs_pc := (vs_pc s)(i := Verified (verification_result valid True waited ticks))\<rparr>"

text \<open>The verdict and the ticks of a thread that computes depend on its own reads.\<close>

inductive verify_step :: "(nat \<Rightarrow> bool) \<Rightarrow> (nat \<Rightarrow> u64) \<Rightarrow> verify_sys \<Rightarrow> verify_sys \<Rightarrow> bool"
  for verdict ticks where
  load: "vs_pc s i = Loading waited \<Longrightarrow> verify_step verdict ticks s (verify_load i waited s)"
| exchange: "vs_pc s i = Exchanging waited \<Longrightarrow> verify_step verdict ticks s (verify_exchange i waited s)"
| store: "vs_pc s i = Computing waited \<Longrightarrow>
     verify_step verdict ticks s (verify_store (verdict i) (ticks i) i waited s)"
| wake: "vs_pc s i = Waiting \<Longrightarrow> vs_state s \<noteq> kVerifyBusy \<Longrightarrow>
     verify_step verdict ticks s (s\<lparr>vs_pc := (vs_pc s)(i := Loading True)\<rparr>)"

inductive verify_reach :: "(nat \<Rightarrow> bool) \<Rightarrow> (nat \<Rightarrow> u64) \<Rightarrow> VerifyState \<Rightarrow> verify_sys \<Rightarrow> bool"
  for verdict ticks st where
  start: "verify_reach verdict ticks st (verify_init st)"
| again: "verify_reach verdict ticks st s \<Longrightarrow> verify_step verdict ticks s t \<Longrightarrow>
     verify_reach verdict ticks st t"

inductive_cases verify_stepE: "verify_step verdict ticks s t"

text \<open>
  What one call returns and the byte it leaves, when no other thread intervenes except the
  owner it waits for: \<open>owner_valid\<close> is the verdict that owner stores.
\<close>

definition VerifyEntry ::
  "bool \<Rightarrow> u64 \<Rightarrow> bool \<Rightarrow> bytes \<Rightarrow> CachedEntry \<Rightarrow> VerifyState \<Rightarrow> VerificationResult \<times> VerifyState" where
  "VerifyEntry readable ticks owner_valid base e st =
     (if ce_size e = 0 then (verification_result False False False 0, st)
      else case st of
        kVerifyValid \<Rightarrow> (verification_result True False False 0, st)
      | kVerifyInvalid \<Rightarrow> (verification_result False False False 0, st)
      | kVerifyUnknown \<Rightarrow>
          let valid = entry_verdict readable base e
          in (verification_result valid True False ticks,
                if valid then kVerifyValid else kVerifyInvalid)
      | kVerifyBusy \<Rightarrow>
          (verification_result owner_valid False True 0,
             if owner_valid then kVerifyValid else kVerifyInvalid))"

section \<open>One checksum per entry\<close>

fun settled :: "verify_pc \<Rightarrow> bool" where
  "settled (Computing w) = True"
| "settled (Verified r) = True"
| "settled _ = False"

text \<open>The byte was final from the start, or one thread made it final with its verdict.\<close>

definition made_final :: "(nat \<Rightarrow> bool) \<Rightarrow> VerifyState \<Rightarrow> bool \<Rightarrow> verify_sys \<Rightarrow> bool" where
  "made_final verdict st v s \<longleftrightarrow>
     (\<forall>i w. vs_pc s i \<noteq> Computing w) \<and> (\<forall>i r. vs_pc s i = Verified r \<longrightarrow> vf_valid r = v) \<and>
     (if st = kVerifyUnknown
      then \<exists>i r. vs_pc s i = Verified r \<and> vf_computed r \<and> verdict i = v \<and>
             (\<forall>j r'. vs_pc s j = Verified r' \<and> vf_computed r' \<longrightarrow> j = i)
      else st = (if v then kVerifyValid else kVerifyInvalid) \<and>
           (\<forall>i r. vs_pc s i = Verified r \<longrightarrow> \<not> vf_computed r))"

definition verify_inv :: "(nat \<Rightarrow> bool) \<Rightarrow> VerifyState \<Rightarrow> verify_sys \<Rightarrow> bool" where
  "verify_inv verdict st s \<longleftrightarrow>
     (case vs_state s of
        kVerifyUnknown \<Rightarrow> st = kVerifyUnknown \<and> (\<forall>i. \<not> settled (vs_pc s i))
      | kVerifyBusy \<Rightarrow> st = kVerifyUnknown \<and>
          (\<exists>i w. vs_pc s i = Computing w \<and> (\<forall>j. j \<noteq> i \<longrightarrow> \<not> settled (vs_pc s j)))
      | kVerifyValid \<Rightarrow> made_final verdict st True s
      | kVerifyInvalid \<Rightarrow> made_final verdict st False s)"

lemma settled_iff: "settled p \<longleftrightarrow> (\<exists>w. p = Computing w) \<or> (\<exists>r. p = Verified r)"
  by (cases p) auto

lemma verify_init_inv: "st \<noteq> kVerifyBusy \<Longrightarrow> verify_inv verdict st (verify_init st)"
  by (cases st) (auto simp: verify_inv_def made_final_def verify_init_def)

lemma verification_result_sel [simp]:
  "vf_valid (verification_result v c w t) = v" "vf_computed (verification_result v c w t) = c"
  by (simp_all add: verification_result_def)

text \<open>A step that keeps a final byte and lets a thread return its value without computing.\<close>

lemma made_final_update:
  assumes "made_final verdict st v s" "\<not> settled (vs_pc s i)"
    and "\<And>w. p \<noteq> Computing w" "\<And>r. p = Verified r \<Longrightarrow> vf_valid r = v \<and> \<not> vf_computed r"
  shows "made_final verdict st v (s\<lparr>vs_pc := (vs_pc s)(i := p)\<rparr>)"
proof -
  let ?s = "s\<lparr>vs_pc := (vs_pc s)(i := p)\<rparr>"
  have 1: "\<forall>j w. vs_pc ?s j \<noteq> Computing w" "\<forall>j r. vs_pc ?s j = Verified r \<longrightarrow> vf_valid r = v"
    using assms(1,3,4) by (simp_all add: made_final_def)
  show ?thesis
  proof (cases "st = kVerifyUnknown")
    case True
    have "\<exists>k r. vs_pc s k = Verified r \<and> vf_computed r \<and> verdict k = v \<and>
        (\<forall>j r'. vs_pc s j = Verified r' \<and> vf_computed r' \<longrightarrow> j = k)"
      using assms(1) unfolding made_final_def by (simp only: True refl if_True)
    then obtain k r where k: "vs_pc s k = Verified r" "vf_computed r" "verdict k = v"
      "\<forall>j r'. vs_pc s j = Verified r' \<and> vf_computed r' \<longrightarrow> j = k"
      by blast
    have ki: "k \<noteq> i" using assms(2) k(1) by auto
    have "\<forall>j r'. vs_pc ?s j = Verified r' \<and> vf_computed r' \<longrightarrow> j = k"
    proof (intro allI impI)
      fix j r'
      assume "vs_pc ?s j = Verified r' \<and> vf_computed r'"
      with assms(4) [of r'] k(4) [rule_format, of j r'] show "j = k"
        by (cases "j = i") auto
    qed
    moreover have "vs_pc ?s k = Verified r" using k(1) ki by simp
    ultimately have "\<exists>k r. vs_pc ?s k = Verified r \<and> vf_computed r \<and> verdict k = v \<and>
        (\<forall>j r'. vs_pc ?s j = Verified r' \<and> vf_computed r' \<longrightarrow> j = k)"
      using k(2,3) by (intro exI [of _ k] exI [of _ r] conjI)
    with 1 True show ?thesis unfolding made_final_def by simp
  next
    case False
    with assms(1,4) have "st = (if v then kVerifyValid else kVerifyInvalid)"
      "\<forall>j r. vs_pc ?s j = Verified r \<longrightarrow> \<not> vf_computed r"
      by (simp_all add: made_final_def)
    with 1 False show ?thesis unfolding made_final_def by simp
  qed
qed

lemma busy_update:
  assumes "\<exists>k w. vs_pc s k = Computing w \<and> (\<forall>j. j \<noteq> k \<longrightarrow> \<not> settled (vs_pc s j))"
    and "\<not> settled (vs_pc s i)" "\<not> settled p"
  shows "\<exists>k w. ((vs_pc s)(i := p)) k = Computing w \<and> (\<forall>j. j \<noteq> k \<longrightarrow> \<not> settled (((vs_pc s)(i := p)) j))"
proof -
  from assms(1) obtain k w where k: "vs_pc s k = Computing w" "\<forall>j. j \<noteq> k \<longrightarrow> \<not> settled (vs_pc s j)"
    by blast
  with assms(2) have "k \<noteq> i" by auto
  with k assms(3) show ?thesis by (intro exI [of _ k] exI [of _ w]) simp
qed

lemma verify_step_inv:
  assumes "verify_step verdict ticks s t" "verify_inv verdict st s"
  shows "verify_inv verdict st t"
  using assms(1)
proof cases
  case (load i waited)
  then have i: "\<not> settled (vs_pc s i)" by simp
  show ?thesis
  proof (cases "vs_state s")
    case kVerifyValid
    then show ?thesis using assms(2) load
      by (auto simp: verify_inv_def verify_load_def intro!: made_final_update [OF _ i])
  next
    case kVerifyInvalid
    then show ?thesis using assms(2) load
      by (auto simp: verify_inv_def verify_load_def intro!: made_final_update [OF _ i])
  next
    case kVerifyBusy
    then have "\<exists>k w. vs_pc s k = Computing w \<and> (\<forall>j. j \<noteq> k \<longrightarrow> \<not> settled (vs_pc s j))"
      "st = kVerifyUnknown"
      using assms(2) by (simp_all add: verify_inv_def)
    from busy_update [OF this(1) i] this(2) kVerifyBusy load show ?thesis
      by (simp add: verify_inv_def verify_load_def del: fun_upd_apply)
  qed (use assms(2) load in \<open>auto simp: verify_inv_def verify_load_def\<close>)
next
  case (exchange i waited)
  then have i: "\<not> settled (vs_pc s i)" by simp
  show ?thesis
  proof (cases "vs_state s")
    case kVerifyValid
    then show ?thesis using assms(2) exchange
      by (auto simp: verify_inv_def verify_exchange_def intro!: made_final_update [OF _ i])
  next
    case kVerifyInvalid
    then show ?thesis using assms(2) exchange
      by (auto simp: verify_inv_def verify_exchange_def intro!: made_final_update [OF _ i])
  next
    case kVerifyBusy
    then have "\<exists>k w. vs_pc s k = Computing w \<and> (\<forall>j. j \<noteq> k \<longrightarrow> \<not> settled (vs_pc s j))"
      "st = kVerifyUnknown"
      using assms(2) by (simp_all add: verify_inv_def)
    from busy_update [OF this(1) i] this(2) kVerifyBusy exchange show ?thesis
      by (simp add: verify_inv_def verify_exchange_def del: fun_upd_apply)
  qed (use assms(2) exchange in \<open>auto simp: verify_inv_def verify_exchange_def\<close>)
next
  case (store i waited)
  have busy: "vs_state s = kVerifyBusy"
    using assms(2) store by (cases "vs_state s") (auto simp: verify_inv_def made_final_def dest: spec [of _ i])
  then have "st = kVerifyUnknown" "\<forall>j. j \<noteq> i \<longrightarrow> \<not> settled (vs_pc s j)"
    using assms(2) store by (auto simp: verify_inv_def) (metis settled.simps(1))
  then show ?thesis using store
    by (auto simp: verify_inv_def made_final_def verify_store_def settled_iff)
next
  case (wake i)
  then have i: "\<not> settled (vs_pc s i)" by simp
  show ?thesis
  proof (cases "vs_state s")
    case kVerifyValid
    then show ?thesis using assms(2) wake
      by (auto simp: verify_inv_def intro!: made_final_update [OF _ i])
  next
    case kVerifyInvalid
    then show ?thesis using assms(2) wake
      by (auto simp: verify_inv_def intro!: made_final_update [OF _ i])
  qed (use assms(2) wake in \<open>auto simp: verify_inv_def\<close>)
qed

lemma verify_reach_inv:
  "verify_reach verdict ticks st s \<Longrightarrow> st \<noteq> kVerifyBusy \<Longrightarrow> verify_inv verdict st s"
  by (induction rule: verify_reach.induct) (auto intro: verify_init_inv verify_step_inv)

text \<open>
  C15: however many threads verify one entry at once, its payload is checksummed by at most one
  of them, all of them return the same verdict, and that verdict is the byte the entry had
  when it was already known, and the verdict of the one thread that read the payload
  otherwise.
\<close>

theorem verify_computed_once:
  assumes "verify_reach verdict ticks st s" "st \<noteq> kVerifyBusy"
    and "vs_pc s i = Verified r" "vs_pc s j = Verified r'"
  shows "vf_valid r = vf_valid r' \<and> (vf_computed r \<and> vf_computed r' \<longrightarrow> i = j) \<and>
    (if st = kVerifyUnknown
     then \<exists>k q. vs_pc s k = Verified q \<and> vf_computed q \<and> vf_valid r = verdict k
     else st = (if vf_valid r then kVerifyValid else kVerifyInvalid) \<and> \<not> vf_computed r)"
proof -
  have inv: "verify_inv verdict st s" by (rule verify_reach_inv [OF assms(1,2)])
  have "settled (vs_pc s i)" "\<And>w. vs_pc s i \<noteq> Computing w" using assms(3) by simp_all
  with inv have "\<exists>v. made_final verdict st v s"
    by (cases "vs_state s") (auto simp: verify_inv_def, metis)
  then obtain v where v: "made_final verdict st v s" by blast
  then have val: "vf_valid r = v" "vf_valid r' = v"
    using assms(3,4) by (auto simp: made_final_def)
  show ?thesis
  proof (cases "st = kVerifyUnknown")
    case True
    with v obtain k q where k: "vs_pc s k = Verified q" "vf_computed q" "verdict k = v"
      "\<And>j r'. vs_pc s j = Verified r' \<Longrightarrow> vf_computed r' \<Longrightarrow> j = k"
      unfolding made_final_def by (metis (full_types))
    have "vf_computed r \<and> vf_computed r' \<longrightarrow> i = j"
      using k(4) [OF assms(3)] k(4) [OF assms(4)] by blast
    moreover have "\<exists>k q. vs_pc s k = Verified q \<and> vf_computed q \<and> vf_valid r = verdict k"
      using k(1-3) val(1) by blast
    ultimately show ?thesis using True val by simp
  next
    case False
    with v val assms(3,4) show ?thesis by (auto simp: made_final_def)
  qed
qed

text \<open>
  Verification never deadlocks: as long as some thread has not returned, a step is
  possible; in particular a thread waits only while another one computes.
\<close>

theorem verify_progress:
  assumes "verify_reach verdict ticks st s" "st \<noteq> kVerifyBusy" "\<forall>r. vs_pc s i \<noteq> Verified r"
  shows "\<exists>t. verify_step verdict ticks s t"
proof (cases "vs_pc s i")
  case Waiting
  show ?thesis
  proof (cases "vs_state s = kVerifyBusy")
    case True
    then obtain k w where "vs_pc s k = Computing w"
      using verify_reach_inv [OF assms(1,2)] by (auto simp: verify_inv_def)
    then show ?thesis by (blast intro: verify_step.store)
  next
    case False
    with Waiting show ?thesis by (blast intro: verify_step.wake)
  qed
next
  case (Verified r)
  with assms(3) show ?thesis by blast
qed (blast intro: verify_step.intros)+

text \<open>
  The function \<open>VerifyEntry\<close> used by the cache is what a thread of the concurrent protocol
  does when it runs alone: it ends with that result and leaves that byte.
\<close>

theorem VerifyEntry_runs_alone:
  assumes "vs_pc s i = Loading False" "vs_state s = st" "st \<noteq> kVerifyBusy" "ce_size e \<noteq> 0"
    and "verdict i = entry_verdict readable base e"
  shows "\<exists>t. (verify_step verdict ticks)\<^sup>*\<^sup>* s t \<and>
    vs_pc t i = Verified (fst (VerifyEntry readable (ticks i) owner_valid base e st)) \<and>
    vs_state t = snd (VerifyEntry readable (ticks i) owner_valid base e st)"
proof (cases "st = kVerifyUnknown")
  case False
  have "verify_step verdict ticks s (verify_load i False s)"
    using assms(1) by (rule verify_step.load)
  then show ?thesis using False assms(2-4)
    by (intro exI [of _ "verify_load i False s"])
      (cases st; auto simp: verify_load_def VerifyEntry_def)
next
  case True
  let ?s1 = "verify_load i False s"
  let ?s2 = "verify_exchange i False ?s1"
  let ?s3 = "verify_store (verdict i) (ticks i) i False ?s2"
  have "verify_step verdict ticks s ?s1" using assms(1) by (rule verify_step.load)
  moreover have "verify_step verdict ticks ?s1 ?s2"
    using True assms(2) by (intro verify_step.exchange) (simp add: verify_load_def)
  moreover have "verify_step verdict ticks ?s2 ?s3"
    using True assms(2) by (intro verify_step.store) (simp add: verify_load_def verify_exchange_def)
  ultimately have "(verify_step verdict ticks)\<^sup>*\<^sup>* s ?s3" by auto
  then show ?thesis using True assms(4,5)
    by (intro exI [of _ ?s3]) (simp add: verify_store_def VerifyEntry_def Let_def)
qed

lemma VerifyEntry_runs_alone_witness:
  "\<exists>t. (verify_step (\<lambda>_. True) (\<lambda>_. 5))\<^sup>*\<^sup>* (verify_init kVerifyUnknown) t \<and>
     vs_state t = kVerifyValid"
proof -
  let ?e = "\<lparr>ce_data = 0, ce_size = 3, ce_checksum = xxh32 [1, 2, 3], ce_slot = 0\<rparr>"
  have v: "entry_verdict True [1, 2, 3] ?e"
    by (simp add: entry_verdict_def TryChecksumMapped_def entry_payload_def Checksum_def)
  show ?thesis
    using VerifyEntry_runs_alone [of "verify_init kVerifyUnknown" 0 kVerifyUnknown ?e "\<lambda>_. True" True
        "[1, 2, 3]" "\<lambda>_. 5" True] v
    by (auto simp: verify_init_def VerifyEntry_def Let_def)
qed

text \<open>Thread 0 computes a positive verdict while thread 1 waits for it and then reads it.\<close>

definition two_verifiers :: verify_sys where
  "two_verifiers =
     (let s1 = verify_load 0 False (verify_init kVerifyUnknown);
          s2 = verify_exchange 0 False s1;
          s3 = verify_load 1 False s2;
          s4 = verify_store True 5 0 False s3;
          s5 = s4\<lparr>vs_pc := (vs_pc s4)(1 := Loading True)\<rparr>
      in verify_load 1 True s5)"

lemmas verifier_defs = verify_load_def verify_exchange_def verify_store_def verify_init_def Let_def

lemma two_verifiers_reach: "verify_reach (\<lambda>_. True) (\<lambda>_. 5) kVerifyUnknown two_verifiers"
proof -
  let ?s1 = "verify_load 0 False (verify_init kVerifyUnknown)"
  let ?s2 = "verify_exchange 0 False ?s1"
  let ?s3 = "verify_load 1 False ?s2"
  let ?s4 = "verify_store True 5 0 False ?s3"
  let ?s5 = "?s4\<lparr>vs_pc := (vs_pc ?s4)(1 := Loading True)\<rparr>"
  have 1: "verify_reach (\<lambda>_. True) (\<lambda>_. 5) kVerifyUnknown ?s1"
    by (rule verify_reach.again [OF verify_reach.start verify_step.load]) (simp add: verifier_defs)
  have 2: "verify_reach (\<lambda>_. True) (\<lambda>_. 5) kVerifyUnknown ?s2"
    by (rule verify_reach.again [OF 1 verify_step.exchange]) (simp add: verifier_defs)
  have 3: "verify_reach (\<lambda>_. True) (\<lambda>_. 5) kVerifyUnknown ?s3"
    by (rule verify_reach.again [OF 2 verify_step.load]) (simp add: verifier_defs)
  have 4: "verify_reach (\<lambda>_. True) (\<lambda>_. 5) kVerifyUnknown ?s4"
    using verify_reach.again [OF 3 verify_step.store [of _ 0 False]] by (simp add: verifier_defs)
  have 5: "verify_reach (\<lambda>_. True) (\<lambda>_. 5) kVerifyUnknown ?s5"
    by (rule verify_reach.again [OF 4 verify_step.wake]) (simp_all add: verifier_defs)
  have 6: "verify_reach (\<lambda>_. True) (\<lambda>_. 5) kVerifyUnknown (verify_load 1 True ?s5)"
    by (rule verify_reach.again [OF 5 verify_step.load]) (simp add: verifier_defs)
  then show ?thesis by (simp add: two_verifiers_def Let_def)
qed

lemma verify_computed_once_witness:
  "\<exists>r r'. vs_pc two_verifiers 0 = Verified r \<and> vs_pc two_verifiers 1 = Verified r' \<and>
     vf_valid r = vf_valid r' \<and> \<not> (vf_computed r \<and> vf_computed r')"
proof -
  have pcs: "vs_pc two_verifiers 0 = Verified (verification_result True True False 5)"
    "vs_pc two_verifiers 1 = Verified (verification_result True False True 0)"
    by (simp_all add: two_verifiers_def verifier_defs)
  from verify_computed_once [OF two_verifiers_reach _ pcs] pcs show ?thesis by auto
qed

lemma verify_progress_witness:
  "\<exists>t. verify_step (\<lambda>_. True) (\<lambda>_. 5) two_verifiers t"
  by (rule verify_progress [OF two_verifiers_reach, of 2])
    (simp_all add: two_verifiers_def verifier_defs)

end
