(* ===== verification/DecompState.thy ===== *)
theory DecompState
  imports EntryVerify Policies BsaArchive
begin

text \<open>
  The state of \<open>DecompCache\<close> (Skyrim/src/DecompCache.h) and the operations the hooks call on
  it: lookups, failure reports, recording decompressed payloads, the requests to the worker
  and the diagnostics.  Each operation holds the lookup lock for its whole critical section,
  so it is one atomic step; the clock, the readability of mapped pages and allocation
  failures are arguments.
\<close>

section \<open>State\<close>

definition kBytesPerMB :: u64 where "kBytesPerMB = 1024 * 1024"
definition kColdMs :: u64 where "kColdMs = 60 * 1000"
definition kMaxPendingMemoryBytes :: u64 where "kMaxPendingMemoryBytes = 256 * kBytesPerMB"
definition kFlushWakeBytes :: u64 where "kFlushWakeBytes = 32 * kBytesPerMB"
definition kWarmChunkBytes :: u64 where "kWarmChunkBytes = 8 * kBytesPerMB"

record CacheSettings =
  cfg_bPrefaultDecompCache :: bool
  cfg_bMeasureStats :: bool
  cfg_iDecompCacheMode :: int
  cfg_uDecompCacheMaxBytes :: u64

record DecompCacheDiagnostics =
  dg_queued :: u64
  dg_duplicates :: u64
  dg_pendingCapRejects :: u64
  dg_diskCapRejects :: u64
  dg_lookupAttempts :: u64
  dg_lookupHits :: u64
  dg_lookupArchiveMisses :: u64
  dg_lookupInvalidMisses :: u64
  dg_lookupEntryMisses :: u64
  dg_lookupColdMisses :: u64
  dg_lookupColdBytes :: u64
  dg_checksumComputations :: u64
  dg_checksumBytes :: u64
  dg_checksumQpcTicks :: u64
  dg_checksumFailures :: u64
  dg_checksumWaits :: u64
  dg_warmRequests :: u64
  dg_warmPassesStarted :: u64
  dg_warmPassesCompleted :: u64
  dg_warmInterruptedLoad :: u64
  dg_warmInterruptedFlush :: u64
  dg_warmInterruptedEpoch :: u64
  dg_warmInterruptedStop :: u64
  dg_warmIoFailures :: u64
  dg_warmBytesTouched :: u64
  dg_warmQpcTicks :: u64

definition zero_diagnostics :: DecompCacheDiagnostics where
  "zero_diagnostics =
     \<lparr>dg_queued = 0, dg_duplicates = 0, dg_pendingCapRejects = 0, dg_diskCapRejects = 0,
      dg_lookupAttempts = 0, dg_lookupHits = 0, dg_lookupArchiveMisses = 0,
      dg_lookupInvalidMisses = 0, dg_lookupEntryMisses = 0, dg_lookupColdMisses = 0,
      dg_lookupColdBytes = 0, dg_checksumComputations = 0, dg_checksumBytes = 0,
      dg_checksumQpcTicks = 0, dg_checksumFailures = 0, dg_checksumWaits = 0,
      dg_warmRequests = 0, dg_warmPassesStarted = 0, dg_warmPassesCompleted = 0,
      dg_warmInterruptedLoad = 0, dg_warmInterruptedFlush = 0, dg_warmInterruptedEpoch = 0,
      dg_warmInterruptedStop = 0, dg_warmIoFailures = 0, dg_warmBytesTouched = 0,
      dg_warmQpcTicks = 0\<rparr>"

record PendingEntry =
  pe_startOffset :: u32
  pe_accountedBytes :: u64
  pe_data :: bytes

text \<open>Views are shared, so a cache holds the number of its view in the list of all views.\<close>

record ArchiveCache =
  ac_view :: "nat option"
  ac_activePath :: bytes
  ac_bsaFingerprint :: u64
  ac_diskInvalidated :: bool
  ac_needsReplacement :: bool
  ac_lastAccessMs :: u64
  ac_onDiskBytes :: u64
  ac_index :: "(u32 \<times> CachedEntry) list"
  ac_pending :: "PendingEntry list"
  ac_bufferedOffsets :: "u32 set"

definition empty_cache :: ArchiveCache where
  "empty_cache =
     \<lparr>ac_view = None, ac_activePath = [], ac_bsaFingerprint = 0, ac_diskInvalidated = False,
      ac_needsReplacement = False, ac_lastAccessMs = 0, ac_onDiskBytes = 0, ac_index = [],
      ac_pending = [], ac_bufferedOffsets = {}\<rparr>"

text \<open>\<open>dc_notifies\<close> counts the calls of \<open>m_workerCv.notify_all\<close>.\<close>

record DecompCache =
  dc_caches :: "(nat \<times> ArchiveCache) list"
  dc_views :: "MappedView list"
  dc_warmPriorityRank :: "bytes \<rightharpoonup> u64"
  dc_backgroundStarted :: bool
  dc_flushRequested :: bool
  dc_warmRequested :: bool
  dc_prefaultEnabled :: bool
  dc_warmComplete :: bool
  dc_lastOverCapNotifyMs :: u64
  dc_ready :: bool
  dc_building :: bool
  dc_loadActive :: bool
  dc_sessionStartMs :: u64
  dc_pendingBytes :: u64
  dc_committedReservations :: u64
  dc_totalCacheBytes :: u64
  dc_requiredHeadroom :: u64
  dc_diag :: DecompCacheDiagnostics
  dc_lastWarmRequestQpc :: u64
  dc_cacheEpoch :: u64
  dc_warmedBytes :: u64
  dc_unownedFiles :: "bytes list"
  dc_notifies :: nat

text \<open>A counter that is bumped under a condition.\<close>

definition count_if ::
  "bool \<Rightarrow> ((u64 \<Rightarrow> u64) \<Rightarrow> DecompCacheDiagnostics \<Rightarrow> DecompCacheDiagnostics) \<Rightarrow> u64 \<Rightarrow>
   DecompCache \<Rightarrow> DecompCache" where
  "count_if b counter n s = (if b then s\<lparr>dc_diag := counter (\<lambda>x. x + n) (dc_diag s)\<rparr> else s)"

definition update_cache :: "nat \<Rightarrow> (ArchiveCache \<Rightarrow> ArchiveCache) \<Rightarrow> DecompCache \<Rightarrow> DecompCache" where
  "update_cache a f s = s\<lparr>dc_caches := map (\<lambda>(k, c). (k, if k = a then f c else c)) (dc_caches s)\<rparr>"

definition update_view :: "nat \<Rightarrow> (MappedView \<Rightarrow> MappedView) \<Rightarrow> DecompCache \<Rightarrow> DecompCache" where
  "update_view v f s =
     (if v < length (dc_views s) then s\<lparr>dc_views := (dc_views s)[v := f (dc_views s ! v)]\<rparr> else s)"

definition add_view :: "MappedView \<Rightarrow> DecompCache \<Rightarrow> nat \<times> DecompCache" where
  "add_view v s = (length (dc_views s), s\<lparr>dc_views := dc_views s @ [v]\<rparr>)"

definition next_epoch :: "DecompCache \<Rightarrow> DecompCache" where
  "next_epoch s = s\<lparr>dc_cacheEpoch := dc_cacheEpoch s + 1\<rparr>"

section \<open>Requests to the worker\<close>

definition RequestFlush :: "DecompCache \<Rightarrow> DecompCache" where
  "RequestFlush s =
     (let notify = \<not> dc_flushRequested s; s1 = s\<lparr>dc_flushRequested := True\<rparr>
      in if notify then s1\<lparr>dc_notifies := dc_notifies s1 + 1\<rparr> else s1)"

definition RequestWarmup :: "CacheSettings \<Rightarrow> u64 \<Rightarrow> DecompCache \<Rightarrow> DecompCache" where
  "RequestWarmup cfg qpc s =
     (if \<not> cfg_bPrefaultDecompCache cfg then s\<lparr>dc_warmedBytes := 0, dc_warmComplete := True\<rparr>
      else
        let s1 = count_if (cfg_bMeasureStats cfg) dg_warmRequests_update 1 s;
            notify = \<not> dc_warmRequested s1;
            s2 = s1\<lparr>dc_warmComplete := False, dc_warmRequested := True\<rparr>;
            s3 = (if notify \<and> cfg_bMeasureStats cfg then s2\<lparr>dc_lastWarmRequestQpc := qpc\<rparr> else s2)
        in if notify then s3\<lparr>dc_notifies := dc_notifies s3 + 1\<rparr> else s3)"

text \<open>The end of a load screen asks for a flush and revalidates the warm state.\<close>

definition SetLoadActive :: "CacheSettings \<Rightarrow> u64 \<Rightarrow> bool \<Rightarrow> DecompCache \<Rightarrow> DecompCache" where
  "SetLoadActive cfg qpc a_active s =
     (let wasActive = dc_loadActive s;
          s1 = s\<lparr>dc_loadActive := a_active\<rparr>;
          s2 = (if wasActive \<noteq> a_active then s1\<lparr>dc_notifies := dc_notifies s1 + 1\<rparr> else s1)
      in if wasActive \<and> \<not> a_active then RequestWarmup cfg qpc (RequestFlush s2) else s2)"

definition HasPending :: "DecompCache \<Rightarrow> bool" where
  "HasPending s = (if dc_pendingBytes s = 0 then False
     else list_ex (\<lambda>(archive, cache). ac_pending cache \<noteq> []) (dc_caches s))"

definition HasInvalidGeneration :: "DecompCache \<Rightarrow> bool" where
  "HasInvalidGeneration s = list_ex (\<lambda>(archive, cache). ac_diskInvalidated cache) (dc_caches s)"

definition anyUsable :: "DecompCache \<Rightarrow> bool" where
  "anyUsable s = list_ex (\<lambda>(archive, cache). ac_view cache \<noteq> None \<and> \<not> ac_diskInvalidated cache) (dc_caches s)"

definition IsRamWarm :: "DecompCache \<Rightarrow> bool" where
  "IsRamWarm s \<longleftrightarrow> dc_prefaultEnabled s \<and> dc_warmComplete s"

definition GetDiagnostics :: "DecompCache \<Rightarrow> DecompCacheDiagnostics" where
  "GetDiagnostics s =
     \<lparr>dg_queued = dg_queued (dc_diag s), dg_duplicates = dg_duplicates (dc_diag s),
      dg_pendingCapRejects = dg_pendingCapRejects (dc_diag s),
      dg_diskCapRejects = dg_diskCapRejects (dc_diag s),
      dg_lookupAttempts = dg_lookupAttempts (dc_diag s), dg_lookupHits = dg_lookupHits (dc_diag s),
      dg_lookupArchiveMisses = dg_lookupArchiveMisses (dc_diag s),
      dg_lookupInvalidMisses = dg_lookupInvalidMisses (dc_diag s),
      dg_lookupEntryMisses = dg_lookupEntryMisses (dc_diag s),
      dg_lookupColdMisses = dg_lookupColdMisses (dc_diag s),
      dg_lookupColdBytes = dg_lookupColdBytes (dc_diag s),
      dg_checksumComputations = dg_checksumComputations (dc_diag s),
      dg_checksumBytes = dg_checksumBytes (dc_diag s),
      dg_checksumQpcTicks = dg_checksumQpcTicks (dc_diag s),
      dg_checksumFailures = dg_checksumFailures (dc_diag s),
      dg_checksumWaits = dg_checksumWaits (dc_diag s),
      dg_warmRequests = dg_warmRequests (dc_diag s),
      dg_warmPassesStarted = dg_warmPassesStarted (dc_diag s),
      dg_warmPassesCompleted = dg_warmPassesCompleted (dc_diag s),
      dg_warmInterruptedLoad = dg_warmInterruptedLoad (dc_diag s),
      dg_warmInterruptedFlush = dg_warmInterruptedFlush (dc_diag s),
      dg_warmInterruptedEpoch = dg_warmInterruptedEpoch (dc_diag s),
      dg_warmInterruptedStop = dg_warmInterruptedStop (dc_diag s),
      dg_warmIoFailures = dg_warmIoFailures (dc_diag s),
      dg_warmBytesTouched = dg_warmBytesTouched (dc_diag s),
      dg_warmQpcTicks = dg_warmQpcTicks (dc_diag s)\<rparr>"

section \<open>Lookups\<close>

record LookupResult =
  lr_data :: "nat option"
  lr_size :: u32
  lr_owner :: "nat option"

definition no_result :: LookupResult where
  "no_result = \<lparr>lr_data = None, lr_size = 0, lr_owner = None\<rparr>"

definition result_bool :: "LookupResult \<Rightarrow> bool" where
  "result_bool r \<longleftrightarrow> lr_data r \<noteq> None \<and> lr_size r > 0"

text \<open>What a call observes of its environment: the tick and performance counters, whether
  the payload's pages can be read, and the verdict of an owner it waits for.\<close>

record lookup_env =
  le_now :: u64
  le_qpc :: u64
  le_ticks :: u64
  le_readable :: bool
  le_owner_valid :: bool

text \<open>Verification of an entry in the view that owns it, with the counters of the callers.\<close>

definition verify_in_view :: "CacheSettings \<Rightarrow> lookup_env \<Rightarrow> nat \<Rightarrow> CachedEntry \<Rightarrow> DecompCache \<Rightarrow>
    VerificationResult \<times> DecompCache" where
  "verify_in_view cfg env v entry s =
     (let measured = cfg_bMeasureStats cfg; view = dc_views s ! v in
      case VerifyEntry (le_readable env) (if measured then le_ticks env else 0) (le_owner_valid env)
             (mv_base view) entry (mv_verification view ! ce_slot entry) of
        (verification, st) \<Rightarrow>
          let s1 = update_view v
                (\<lambda>w. w\<lparr>mv_verification := (mv_verification w)[ce_slot entry := st]\<rparr>) s;
              c = measured \<and> vf_computed verification;
              s2 = count_if c dg_checksumComputations_update 1 s1;
              s3 = count_if c dg_checksumBytes_update (u64_of_u32 (ce_size entry)) s2;
              s4 = count_if c dg_checksumQpcTicks_update (vf_qpcTicks verification) s3;
              s5 = count_if (measured \<and> vf_waited verification) dg_checksumWaits_update 1 s4
          in (verification, s5))"

text \<open>The cache of an archive is invalidated once; the caller learns whether it was the one.\<close>

definition invalidate_cache :: "nat \<Rightarrow> DecompCache \<Rightarrow> bool \<times> DecompCache" where
  "invalidate_cache a s =
     (case map_of (dc_caches s) a of
        None \<Rightarrow> (False, s)
      | Some cache \<Rightarrow>
          (\<not> ac_diskInvalidated cache, update_cache a (\<lambda>c. c\<lparr>ac_diskInvalidated := True\<rparr>) s))"

definition makeResult :: "CacheSettings \<Rightarrow> lookup_env \<Rightarrow> nat \<Rightarrow> nat \<Rightarrow> CachedEntry \<Rightarrow> DecompCache \<Rightarrow>
    LookupResult \<times> DecompCache" where
  "makeResult cfg env a v entry s =
     (case verify_in_view cfg env v entry s of
        (verification, s1) \<Rightarrow>
          if \<not> vf_valid verification then
            let s2 = count_if (cfg_bMeasureStats cfg) dg_checksumFailures_update 1 s1;
                s3 = update_view v (\<lambda>w. w\<lparr>mv_unusable := True\<rparr>) s2;
                (newly, s4) = invalidate_cache a s3
            in (no_result,
                if newly then RequestWarmup cfg (le_qpc env) (RequestFlush (next_epoch s4)) else s4)
          else
            (\<lparr>lr_data = Some (ce_data entry), lr_size = ce_size entry, lr_owner = Some v\<rparr>,
             count_if (cfg_bMeasureStats cfg) dg_lookupHits_update 1 s1))"

text \<open>
  \<open>Lookup\<close>.  The data pointer of an entry is its offset in the view, so the test that it is
  not below the base of the view always passes.
\<close>

definition Lookup :: "CacheSettings \<Rightarrow> lookup_env \<Rightarrow> nat \<Rightarrow> u32 \<Rightarrow> DecompCache \<Rightarrow>
    LookupResult \<times> DecompCache" where
  "Lookup cfg env a_archive a_startOffset s0 =
     (let measured = cfg_bMeasureStats cfg;
          s = count_if measured dg_lookupAttempts_update 1 s0
      in case map_of (dc_caches s) a_archive of
           None \<Rightarrow> (no_result, count_if measured dg_lookupArchiveMisses_update 1 s)
         | Some cache \<Rightarrow>
             (case ac_view cache of
                None \<Rightarrow> (no_result, count_if measured dg_lookupInvalidMisses_update 1 s)
              | Some v \<Rightarrow>
                  let view = dc_views s ! v in
                  if mv_unusable view \<or> ac_diskInvalidated cache
                  then (no_result, count_if measured dg_lookupInvalidMisses_update 1 s)
                  else
                    (case map_of (ac_index cache) a_startOffset of
                       None \<Rightarrow> (no_result, count_if measured dg_lookupEntryMisses_update 1 s)
                     | Some entry \<Rightarrow>
                         if cfg_bPrefaultDecompCache cfg \<and>
                            \<not> IsRangeWarm (of_nat (ce_data entry)) (u64_of_u32 (ce_size entry))
                               (of_nat (mv_committedSize view)) (of_nat (mv_prefaultedThrough view))
                         then (no_result,
                               count_if measured dg_lookupColdBytes_update (u64_of_u32 (ce_size entry))
                                 (count_if measured dg_lookupColdMisses_update 1 s))
                         else makeResult cfg env a_archive v entry
                                (update_cache a_archive (\<lambda>c. c\<lparr>ac_lastAccessMs := le_now env\<rparr>) s))))"

text \<open>
  \<open>ReportMappingIoFailure\<close> invalidates the cache that still holds the failed view; a
  validation failure takes the same path.
\<close>

definition ReportMappingIoFailure :: "CacheSettings \<Rightarrow> u64 \<Rightarrow> nat option \<Rightarrow> DecompCache \<Rightarrow> DecompCache" where
  "ReportMappingIoFailure cfg qpc a_owner s =
     (case a_owner of
        None \<Rightarrow> s
      | Some v \<Rightarrow>
          let s1 = update_view v (\<lambda>w. w\<lparr>mv_unusable := True\<rparr>) s;
              (newly, s2) =
                (case find (\<lambda>(archive, cache). ac_view cache = Some v) (dc_caches s1) of
                   None \<Rightarrow> (False, s1)
                 | Some (archive, cache) \<Rightarrow> invalidate_cache archive s1)
          in if newly then RequestWarmup cfg qpc (RequestFlush (next_epoch s2)) else s2)"

definition ReportCacheValidationFailure ::
  "CacheSettings \<Rightarrow> u64 \<Rightarrow> nat option \<Rightarrow> DecompCache \<Rightarrow> DecompCache" where
  "ReportCacheValidationFailure cfg qpc a_owner s = ReportMappingIoFailure cfg qpc a_owner s"

section \<open>Recording payloads\<close>

text \<open>The allocations of the insertion: both succeed, or one of them throws.\<close>

datatype alloc_outcome = AllocOk | MarkerThrows | PushThrows

record record_env =
  re_now :: u64
  re_alloc :: alloc_outcome

text \<open>The header and index footprint charged to the first payload of an absent file.\<close>

definition fixed_overhead :: "MappedArchive \<Rightarrow> ArchiveCache \<Rightarrow> u64 option" where
  "fixed_overhead archive cache =
     (if (ac_view cache = None \<or> ac_diskInvalidated cache) \<and> ac_bufferedOffsets cache = {}
      then AddChecked (of_nat sizeof_Header)
             (u64_of_u32 (b_fileCount (ma_header archive)) * of_nat sizeof_Entry)
      else Some 0)"

text \<open>The compare-exchange loop that raises the requested headroom.\<close>

definition raise_headroom :: "u64 \<Rightarrow> DecompCache \<Rightarrow> DecompCache" where
  "raise_headroom required s =
     (if dc_requiredHeadroom s < required then s\<lparr>dc_requiredHeadroom := required\<rparr> else s)"

text \<open>A rejection by the disk cap asks for headroom and wakes the worker at most once per
  cold window.\<close>

definition reject_over_cap :: "CacheSettings \<Rightarrow> u64 \<Rightarrow> u64 \<Rightarrow> DecompCache \<Rightarrow> DecompCache" where
  "reject_over_cap cfg nowMs admissionBytes s =
     (let diskCap = cfg_uDecompCacheMaxBytes cfg;
          s1 = count_if True dg_diskCapRejects_update 1 s
      in if diskCap > 0 \<and> admissionBytes \<le> diskCap then
           let s2 = raise_headroom (RequiredHeadroom diskCap (dc_pendingBytes s) admissionBytes) s1;
               lastMs = dc_lastOverCapNotifyMs s2
           in if lastMs = 0 \<or> nowMs - lastMs \<ge> kColdMs
              then RequestFlush (s2\<lparr>dc_lastOverCapNotifyMs := nowMs\<rparr>)
              else s2
         else s1)"

text \<open>The admission decision, under the accounting lock.\<close>

definition admit :: "CacheSettings \<Rightarrow> u64 \<Rightarrow> u64 \<Rightarrow> DecompCache \<Rightarrow> bool \<times> DecompCache" where
  "admit cfg nowMs admissionBytes s =
     (let buffered = dc_pendingBytes s; disk = dc_totalCacheBytes s;
          diskCap = cfg_uDecompCacheMaxBytes cfg
      in if buffered > kMaxPendingMemoryBytes \<or> admissionBytes > kMaxPendingMemoryBytes - buffered
         then (False, count_if True dg_pendingCapRejects_update 1 s)
         else if diskCap = 0 \<or> disk \<ge> diskCap \<or> buffered > diskCap - disk \<or>
                 admissionBytes > diskCap - disk - buffered
         then (False, reject_over_cap cfg nowMs admissionBytes s)
         else (True, s\<lparr>dc_pendingBytes := buffered + admissionBytes\<rparr>))"

text \<open>The marker and the payload go into the queue together, or the reservation is given
  back; the first component says whether an exception leaves the call.  The queue lock is
  held since the marker was found absent, so inserting it always succeeds.\<close>

definition enqueue :: "record_env \<Rightarrow> nat \<Rightarrow> u32 \<Rightarrow> u64 \<Rightarrow> bytes \<Rightarrow> DecompCache \<Rightarrow> bool \<times> DecompCache" where
  "enqueue env a off admissionBytes payload s =
     (let release = s\<lparr>dc_pendingBytes := dc_pendingBytes s - admissionBytes\<rparr>
      in case re_alloc env of
           MarkerThrows \<Rightarrow> (True, release)
         | PushThrows \<Rightarrow> (True, release)
         | AllocOk \<Rightarrow>
             let s1 = update_cache a (\<lambda>c. c\<lparr>ac_bufferedOffsets := insert off (ac_bufferedOffsets c),
                    ac_pending := ac_pending c @
                      [\<lparr>pe_startOffset = off, pe_accountedBytes = admissionBytes, pe_data = payload\<rparr>],
                    ac_lastAccessMs := re_now env\<rparr>) s;
                 s2 = count_if True dg_queued_update 1 s1
             in (False, if dc_pendingBytes s2 \<ge> kFlushWakeBytes then RequestFlush s2 else s2))"

definition RecordDecompressed :: "CacheSettings \<Rightarrow> record_env \<Rightarrow> (nat \<Rightarrow> MappedArchive) \<Rightarrow>
    nat option \<Rightarrow> u32 \<Rightarrow> bytes \<Rightarrow> DecompCache \<Rightarrow> bool \<times> DecompCache" where
  "RecordDecompressed cfg env archives a_archive a_startOffset a_payload s =
     (case a_archive of
        None \<Rightarrow> (False, s)
      | Some a \<Rightarrow>
          if \<not> dc_building s \<or> a_payload = [] \<or> length a_payload > unat kMaxPayloadSize then (False, s)
          else
            (case map_of (dc_caches s) a of
               None \<Rightarrow> (False, s)
             | Some cache \<Rightarrow>
                 let known = (case map_of (ac_index cache) a_startOffset of
                       None \<Rightarrow> False
                     | Some existing \<Rightarrow>
                         (case ac_view cache of
                            None \<Rightarrow> False
                          | Some v \<Rightarrow>
                              mv_verification (dc_views s ! v) ! ce_slot existing \<noteq> kVerifyInvalid))
                 in if \<not> ac_diskInvalidated cache \<and> known \<or> a_startOffset \<in> ac_bufferedOffsets cache
                    then (False, count_if True dg_duplicates_update 1 s)
                    else
                      (case fixed_overhead (archives a) cache of
                         None \<Rightarrow> (False, count_if True dg_diskCapRejects_update 1 s)
                       | Some fixed \<Rightarrow>
                           (case AddChecked (of_nat (length a_payload)) fixed of
                              None \<Rightarrow> (False, count_if True dg_diskCapRejects_update 1 s)
                            | Some admissionBytes \<Rightarrow>
                                (case admit cfg (re_now env) admissionBytes s of
                                   (False, s1) \<Rightarrow> (False, s1)
                                 | (True, s1) \<Rightarrow>
                                     enqueue env a a_startOffset admissionBytes a_payload s1)))))"

text \<open>The overload that copies a raw buffer first.\<close>

definition RecordDecompressedRaw :: "CacheSettings \<Rightarrow> record_env \<Rightarrow> (nat \<Rightarrow> MappedArchive) \<Rightarrow>
    nat option \<Rightarrow> u32 \<Rightarrow> bytes option \<Rightarrow> u32 \<Rightarrow> DecompCache \<Rightarrow> bool \<times> DecompCache" where
  "RecordDecompressedRaw cfg env archives a_archive a_startOffset a_data a_size s =
     (case a_data of
        None \<Rightarrow> (False, s)
      | Some bytes \<Rightarrow>
          if \<not> dc_building s \<or> a_size = 0 \<or> a_size > kMaxPayloadSize then (False, s)
          else RecordDecompressed cfg env archives a_archive a_startOffset
                 (take (unat a_size) bytes) s)"

end
