(* ===== verification/CacheCommit.thy ===== *)
theory CacheCommit
  imports CacheFiles
begin

text \<open>
  What the cache-file writers guarantee.  The effect of a successful run of bounded writes,
  the window invariant that every crash image inherits, and from them: a published fresh
  file validates with its payloads, an interrupted append never loses a committed entry, a
  completed append commits exactly the new entries after the old ones, and a rollback
  restores the committed prefix.
\<close>

section \<open>Frames\<close>

abbreviation content :: "target \<Rightarrow> disk \<Rightarrow> bytes" where
  "content t d \<equiv> fl_content (the_file t d)"

abbreviation window :: "target \<Rightarrow> disk \<Rightarrow> bytes list" where
  "window t d \<equiv> fl_window (the_file t d)"

lemma the_file_update [simp]:
  "the_file t (d\<lparr>dk_sys := x\<rparr>) = the_file t d" "the_file t (d\<lparr>dk_cancel := y\<rparr>) = the_file t d"
  by (cases t; simp)+

lemma the_set_file [simp]:
  "the_file t (set_file t' f d) = (if t = t' then f else the_file t d)"
  by (cases t; cases t') simp_all

fun slot :: "target \<Rightarrow> disk \<Rightarrow> cfile option" where
  "slot BaseFile d = dk_base d"
| "slot TempFile d = dk_temp d"

lemma slot_set_file [simp]: "slot t (set_file t' f d) = (if t = t' then Some f else slot t d)"
  by (cases t; cases t') simp_all

lemma slot_change_file [simp]: "t \<noteq> t' \<Longrightarrow> slot t (change_file t' g d) = slot t d"
  by (simp add: change_file_def Let_def)

lemma slot_frame: "dk_base d' = dk_base d \<Longrightarrow> dk_temp d' = dk_temp d \<Longrightarrow> slot t d' = slot t d"
  by (cases t) simp_all

lemma next_sys_frame:
  "next_sys d = (r, d') \<Longrightarrow> the_file t d' = the_file t d \<and> dk_base d' = dk_base d \<and> dk_temp d' = dk_temp d"
  by (auto simp: next_sys_def split: list.splits)

lemma sys_call_frame:
  "sys_call d = (r, d') \<Longrightarrow> the_file t d' = the_file t d \<and> dk_base d' = dk_base d \<and> dk_temp d' = dk_temp d"
  by (auto simp: sys_call_def next_sys_def split: list.splits)

lemma Cancelled_frame:
  "Cancelled b d = (r, d') \<Longrightarrow> the_file t d' = the_file t d \<and> dk_base d' = dk_base d \<and> dk_temp d' = dk_temp d"
  by (auto simp: Cancelled_def split: list.splits if_splits)

lemma sys_calls_frame:
  "sys_calls n d = (r, d') \<Longrightarrow> the_file t d' = the_file t d \<and> dk_base d' = dk_base d \<and> dk_temp d' = dk_temp d"
proof (induction n d rule: sys_calls.induct)
  case (2 n d)
  then show ?case
    by (cases "sys_call d") (auto dest: sys_call_frame [where t = t] split: bool.splits)
qed simp

lemma Seek_frame:
  "Seek off d = (r, d') \<Longrightarrow> the_file t d' = the_file t d \<and> dk_base d' = dk_base d \<and> dk_temp d' = dk_temp d"
  by (auto simp: Seek_def sys_call_frame [where t = t] split: if_splits)

lemma the_change_file [simp]:
  "the_file t (change_file t' g d) =
     (if t = t' then \<lparr>fl_content = g (content t d), fl_window = window t d @ [g (content t d)]\<rparr>
      else the_file t d)"
  by (simp add: change_file_def Let_def)

declare the_file.simps [simp del]

section \<open>Byte spans\<close>

lemma write_span_Nil [simp]: "write_span off [] c = c"
  by (simp add: write_span_def)

lemma length_write_span:
  "data \<noteq> [] \<Longrightarrow> length (write_span off data c) = max (length c) (off + length data)"
  by (simp add: write_span_def)

lemma length_write_span_ge: "length c \<le> length (write_span off data c)"
  by (cases "data = []") (simp_all add: length_write_span)

lemma nth_write_span:
  "p < length (write_span off data c) \<Longrightarrow>
     write_span off data c ! p =
       (if off \<le> p \<and> p < off + length data then data ! (p - off)
        else if p < length c then c ! p else 0)"
proof (cases "data = []")
  case False
  have "min (length c) off + (off - length c) = off" by simp
  then show "p < length (write_span off data c) \<Longrightarrow> ?thesis"
    using False by (auto simp: write_span_def nth_append split: if_splits)
qed auto

lemma write_span_append:
  "write_span (off + length a) b (write_span off a c) = write_span off (a @ b) c"
proof (cases "a = [] \<or> b = []")
  case False
  then have "length (write_span (off + length a) b (write_span off a c)) = length (write_span off (a @ b) c)"
    by (simp add: length_write_span max_def)
  then show ?thesis
    using False
    by (intro nth_equalityI) (auto simp: nth_write_span length_write_span nth_append)
qed auto

lemma take_write_span: "m \<le> off \<Longrightarrow> m \<le> length c \<Longrightarrow> take m (write_span off data c) = take m c"
  by (cases "data = []") (simp_all add: write_span_def)

lemma length_set_length [simp]: "length (set_length n c) = n"
  by (simp add: set_length_def)

lemma take_set_length: "m \<le> n \<Longrightarrow> m \<le> length c \<Longrightarrow> take m (set_length n c) = take m c"
  by (simp add: set_length_def min_absorb1)

section \<open>Bounded writes\<close>

text \<open>A property of every content since the last flush.\<close>

definition window_inv :: "target \<Rightarrow> (bytes \<Rightarrow> bool) \<Rightarrow> disk \<Rightarrow> bool" where
  "window_inv t P d \<longleftrightarrow> content t d \<in> set (window t d) \<and> (\<forall>c \<in> set (window t d). P c)"

lemma window_invD: "window_inv t P d \<Longrightarrow> P (content t d)"
  by (simp add: window_inv_def)

lemma window_inv_frame: "the_file t d' = the_file t d \<Longrightarrow> window_inv t P d \<Longrightarrow> window_inv t P d'"
  by (simp add: window_inv_def)

lemma window_inv_change:
  "window_inv t P d \<Longrightarrow> P (g (content t d)) \<Longrightarrow> window_inv t P (change_file t g d)"
  by (simp add: window_inv_def)

lemma write_chunks_inv:
  assumes "write_chunks t b off data d = (r, d')" "window_inv t P d"
    and "\<And>c k x. off \<le> k \<Longrightarrow> k + length x \<le> off + length data \<Longrightarrow> P c \<Longrightarrow> P (write_span k x c)"
  shows "window_inv t P d'"
  using assms
proof (induction t b off data d rule: write_chunks.induct)
  case (1 t b off data d)
  show ?case
  proof (cases "data = []")
    case True
    then show ?thesis using "1.prems" by simp
  next
    case data: False
    obtain cn d1 where cn: "Cancelled b d = (cn, d1)" by force
    obtain o1 d2 where o1: "next_sys d1 = (o1, d2)" by force
    have w2: "window_inv t P d2"
      using Cancelled_frame [OF cn, of t] next_sys_frame [OF o1, of t] "1.prems"(2) by (simp add: window_inv_def)
    have w1: "window_inv t P d1"
      using Cancelled_frame [OF cn, of t] "1.prems"(2) by (simp add: window_inv_def)
    have wr: "window_inv t P (change_file t (write_span off x) d2)" if "length x \<le> length data" for x
      using w2 "1.prems"(3) [of off x] that window_invD [OF w2] by (intro window_inv_change) auto
    show ?thesis
    proof (cases cn)
      case True
      then show ?thesis using "1.prems"(1) data cn w1 by simp
    next
      case False
      show ?thesis
      proof (cases o1)
        case (Fails k)
        then show ?thesis using "1.prems"(1) data cn False o1 wr by (auto simp: Let_def)
      next
        case Succeeds
        with data cn False o1 "1.prems" show ?thesis
          by (intro "1.IH" [of False d1 "take kWriteChunk data" Succeeds d2])
            (auto simp: Let_def intro: cn [unfolded False] wr)
      qed
    qed
  qed
qed

lemma write_chunks_content:
  assumes "write_chunks t b off data d = (True, d')"
  shows "content t d' = write_span off data (content t d)"
  using assms
proof (induction t b off data d rule: write_chunks.induct)
  case (1 t b off data d)
  show ?case
  proof (cases "data = []")
    case True
    then show ?thesis using "1.prems" by simp
  next
    case data: False
    obtain cn d1 where cn: "Cancelled b d = (cn, d1)" by force
    obtain o1 d2 where o1: "next_sys d1 = (o1, d2)" by force
    have f: "\<not> cn" "o1 = Succeeds"
      using "1.prems" data cn o1 by (auto simp: Let_def split: bool.splits outcome.splits)
    let ?c = "take kWriteChunk data"
    have ct: "content t d2 = content t d"
      using Cancelled_frame [OF cn, of t] next_sys_frame [OF o1, of t] by simp
    have "content t d' = write_span (off + length ?c) (drop kWriteChunk data)
        (content t (change_file t (write_span off ?c) d2))"
      using "1.prems" data cn o1 f by (intro "1.IH" [of False d1 ?c Succeeds d2]) (auto simp: Let_def)
    also have "\<dots> = write_span off data (content t d)"
      by (simp add: ct write_span_append del: length_take)
    finally show ?thesis .
  qed
qed

lemma write_chunks_other:
  "write_chunks t b off data d = (r, d') \<Longrightarrow> t' \<noteq> t \<Longrightarrow> slot t' d' = slot t' d"
proof (induction t b off data d rule: write_chunks.induct)
  case (1 t b off data d)
  obtain cn d1 where cn: "Cancelled b d = (cn, d1)" by force
  obtain o1 d2 where o1: "next_sys d1 = (o1, d2)" by force
  have fr: "slot t' d1 = slot t' d" "slot t' d2 = slot t' d"
    using Cancelled_frame [OF cn, of t'] next_sys_frame [OF o1, of t'] by (auto intro: slot_frame)
  show ?case
  proof (cases "data = [] \<or> cn \<or> (\<exists>k. o1 = Fails k)")
    case True
    then show ?thesis using "1.prems" cn o1 fr by (cases cn) (auto simp: Let_def split: if_splits)
  next
    case False
    then have "o1 = Succeeds" by (cases o1) auto
    with False "1.prems" cn o1 fr "1.IH" [of False d1 "take kWriteChunk data" Succeeds d2] show ?thesis
      by (auto simp: Let_def)
  qed
qed

declare write_chunks.simps [simp del]

lemma WriteAt_inv:
  assumes "WriteAt t b off data d = (r, d')" "window_inv t P d"
    and "\<And>c k x. off \<le> k \<Longrightarrow> k + length x \<le> off + length data \<Longrightarrow> P c \<Longrightarrow> P (write_span k x c)"
  shows "window_inv t P d'"
proof -
  obtain s d1 where s: "Seek off d = (s, d1)" by force
  have "window_inv t P d1" by (rule window_inv_frame [OF _ assms(2)]) (simp add: Seek_frame [OF s])
  with assms s show ?thesis
    by (cases s) (auto simp: WriteAt_def intro: write_chunks_inv)
qed

lemma WriteAt_content:
  assumes "WriteAt t b off data d = (True, d')"
  shows "content t d' = write_span off data (content t d)"
proof -
  obtain s d1 where s: "Seek off d = (s, d1)" by force
  with assms have "write_chunks t b off data d1 = (True, d')" by (auto simp: WriteAt_def split: bool.splits)
  from write_chunks_content [OF this] show ?thesis using Seek_frame [OF s, of t] by simp
qed

lemma WriteAt_other:
  assumes "WriteAt t b off data d = (r, d')" "t' \<noteq> t"
  shows "slot t' d' = slot t' d"
proof -
  obtain s d1 where s: "Seek off d = (s, d1)" by force
  have "slot t' d1 = slot t' d" using Seek_frame [OF s, of t'] by (auto intro: slot_frame)
  with assms s show ?thesis
    by (cases s) (auto simp: WriteAt_def dest: write_chunks_other)
qed

lemma Truncate_inv:
  assumes "Truncate t n d = (r, d')" "window_inv t P d" "\<And>c. P c \<Longrightarrow> P (set_length n c)"
  shows "window_inv t P d'"
proof -
  obtain s d1 where s: "Seek n d = (s, d1)" by force
  obtain y d2 where y: "sys_call d1 = (y, d2)" by force
  have w: "window_inv t P d1" "window_inv t P d2"
    using assms(2) Seek_frame [OF s, of t] sys_call_frame [OF y, of t] by (simp_all add: window_inv_def)
  have "window_inv t P (change_file t (set_length n) d2)"
    using w(2) by (intro window_inv_change) (auto intro: assms(3) dest: window_invD)
  with assms(1) s y w show ?thesis
    by (auto simp: Truncate_def split: bool.splits)
qed

lemma Truncate_content:
  assumes "Truncate t n d = (True, d')"
  shows "content t d' = set_length n (content t d)"
proof -
  obtain s d1 where s: "Seek n d = (s, d1)" by force
  obtain y d2 where y: "sys_call d1 = (y, d2)" by force
  have "s" "y" "d' = change_file t (set_length n) d2"
    using assms s y by (auto simp: Truncate_def split: bool.splits)
  then show ?thesis
    using Seek_frame [OF s, of t] sys_call_frame [OF y, of t] by simp
qed

lemma Flush_cases:
  assumes "FlushFileBuffers t d = (r, d')"
  shows "content t d' = content t d \<and> (r \<longrightarrow> window t d' = [content t d]) \<and>
    (\<not> r \<longrightarrow> window t d' = window t d) \<and> (t' \<noteq> t \<longrightarrow> slot t' d' = slot t' d)"
proof -
  obtain y d1 where y: "sys_call d = (y, d1)" by force
  have "slot t' d1 = slot t' d" using sys_call_frame [OF y, of t'] by (auto intro: slot_frame)
  then show ?thesis
    using assms y sys_call_frame [OF y, of t]
    by (cases y) (auto simp: FlushFileBuffers_def durable_file_def)
qed

lemma Flush_inv:
  assumes "FlushFileBuffers t d = (r, d')" "window_inv t P d"
  shows "window_inv t P d'"
  using Flush_cases [OF assms(1), of t] assms(2)
  by (cases r) (auto simp: window_inv_def)

text \<open>Successful payload writes put the payloads one after the other.\<close>

definition payload_bytes :: "PreparedPending list \<Rightarrow> bytes" where
  "payload_bytes ps = concat (map pp_data ps)"

definition prepared_ok :: "PreparedPending \<Rightarrow> bool" where
  "prepared_ok p \<longleftrightarrow> pp_data p \<noteq> [] \<and> length (pp_data p) = unat (pp_size p) \<and>
     pp_checksum p = xxh32 (pp_data p)"

lemma write_payloads_inv:
  assumes "write_payloads t b off ps d = (r, d')" "window_inv t P d" "\<forall>p \<in> set ps. prepared_ok p"
    and "unat off + length (payload_bytes ps) < 2 ^ 64"
    and "\<And>c k x. unat off \<le> k \<Longrightarrow> P c \<Longrightarrow> P (write_span k x c)"
  shows "window_inv t P d'"
  using assms
proof (induction t b off ps d rule: write_payloads.induct)
  case (2 t b off p ps d)
  obtain w d1 where w: "WriteAt t b (unat off) (pp_data p) d = (w, d1)" by force
  have i: "window_inv t P d1" using "2.prems"(5) by (intro WriteAt_inv [OF w "2.prems"(2)]) auto
  have len: "length (payload_bytes (p # ps)) = unat (pp_size p) + length (payload_bytes ps)"
    using "2.prems"(3) by (simp add: payload_bytes_def prepared_ok_def)
  have off: "unat (off + u64_of_u32 (pp_size p)) = unat off + unat (pp_size p)"
    using "2.prems"(4) unfolding len by (subst unat_add_noovf) simp_all
  show ?case
  proof (cases w)
    case False
    then show ?thesis using "2.prems"(1) w i by simp
  next
    case True
    show ?thesis
    proof (rule "2.IH" [of True d1])
      show "write_payloads t b (off + u64_of_u32 (pp_size p)) ps d1 = (r, d')"
        using "2.prems"(1) w True by simp
      show "unat (off + u64_of_u32 (pp_size p)) + length (payload_bytes ps) < 2 ^ 64"
        using "2.prems"(4) unfolding len off by simp
      show "P (write_span k x c)" if "unat (off + u64_of_u32 (pp_size p)) \<le> k" "P c" for c k x
        using that "2.prems"(5) unfolding off by simp
    qed (use "2.prems"(3) i w True in simp_all)
  qed
qed simp

lemma write_payloads_content:
  assumes "write_payloads t b off ps d = (True, d')" "\<forall>p \<in> set ps. prepared_ok p"
    and "unat off + length (payload_bytes ps) < 2 ^ 64"
  shows "content t d' = write_span (unat off) (payload_bytes ps) (content t d)"
  using assms
proof (induction t b off ps d rule: write_payloads.induct)
  case (1 t b off d)
  then show ?case by (simp add: payload_bytes_def)
next
  case (2 t b off p ps d)
  obtain d1 where w: "WriteAt t b (unat off) (pp_data p) d = (True, d1)"
    and r: "write_payloads t b (off + u64_of_u32 (pp_size p)) ps d1 = (True, d')"
    using "2.prems"(1) by (auto split: prod.splits bool.splits)
  have sz: "length (pp_data p) = unat (pp_size p)"
    using "2.prems"(2) by (simp add: prepared_ok_def)
  have len: "length (payload_bytes (p # ps)) = unat (pp_size p) + length (payload_bytes ps)"
    using sz by (simp add: payload_bytes_def)
  have off: "unat (off + u64_of_u32 (pp_size p)) = unat off + length (pp_data p)"
    using "2.prems"(3) unfolding len sz by (subst unat_add_noovf) simp_all
  have "content t d' = write_span (unat off + length (pp_data p)) (payload_bytes ps) (content t d1)"
    using "2.IH" [OF w [symmetric] refl r] "2.prems"(2,3) off len sz by simp
  also have "\<dots> = write_span (unat off) (payload_bytes (p # ps)) (content t d)"
    by (simp add: WriteAt_content [OF w] write_span_append payload_bytes_def)
  finally show ?case .
qed

lemma write_payloads_other:
  "write_payloads t b off ps d = (r, d') \<Longrightarrow> t' \<noteq> t \<Longrightarrow> slot t' d' = slot t' d"
proof (induction t b off ps d rule: write_payloads.induct)
  case (2 t b off p ps d)
  obtain w d1 where w: "WriteAt t b (unat off) (pp_data p) d = (w, d1)" by force
  from 2 WriteAt_other [OF w] show ?case
    by (cases w) (auto simp: w)
qed simp

section \<open>Files as images\<close>

text \<open>Header, committed index slots, spare slots, payloads.\<close>

definition cache_image :: "Header \<Rightarrow> Entry list \<Rightarrow> bytes \<Rightarrow> bytes \<Rightarrow> bytes" where
  "cache_image h es gap data = header_bytes h @ index_bytes es @ gap @ data"

lemma length_index_bytes [simp]: "length (index_bytes es) = 20 * length es"
  by (induction es) (simp_all add: index_bytes_def)

lemma index_bytes_append [simp]: "index_bytes (xs @ ys) = index_bytes xs @ index_bytes ys"
  by (simp add: index_bytes_def)

lemma length_cache_image:
  "length (h_magic h) = 4 \<Longrightarrow>
     length (cache_image h es gap data) = 44 + 20 * length es + length gap + length data"
  by (simp add: cache_image_def)

lemma load_header_image: "length (h_magic h) = 4 \<Longrightarrow> load_header (cache_image h es gap data) = h"
  by (simp add: cache_image_def)

lemma drop_index_bytes:
  "i < length es \<Longrightarrow> drop (20 * i) (index_bytes es @ r) = entry_bytes (es ! i) @ index_bytes (drop (Suc i) es) @ r"
proof -
  assume i: "i < length es"
  then have "es = take i es @ es ! i # drop (Suc i) es" by (simp add: id_take_nth_drop)
  then have "index_bytes es = index_bytes (take i es) @ entry_bytes (es ! i) @ index_bytes (drop (Suc i) es)"
    by (metis append_Cons append_Nil concat.simps(2) index_bytes_append index_bytes_def list.simps(9))
  with i show ?thesis by simp
qed

lemma entry_at_image:
  assumes "length (h_magic h) = 4" "i < length es"
  shows "entry_at (cache_image h es gap data) i = es ! i"
proof -
  have "drop (44 + i * 20) (cache_image h es gap data) = drop (20 * i) (index_bytes es @ gap @ data)"
    using assms(1) by (simp add: cache_image_def mult.commute)
  then show ?thesis
    unfolding entry_at_def sizeof_Header_def sizeof_Entry_def drop_index_bytes [OF assms(2)] by simp
qed

lemma committed_entries_image:
  "length (h_magic h) = 4 \<Longrightarrow> n = length es \<Longrightarrow> committed_entries (cache_image h es gap data) n = es"
  by (rule nth_equalityI) (simp_all add: entry_at_image)

lemma drop_cache_image:
  "length (h_magic h) = 4 \<Longrightarrow> p = 44 + 20 * length es + length gap + k \<Longrightarrow>
     drop p (cache_image h es gap data) = drop k data"
  by (simp add: cache_image_def)

text \<open>An accepted file, cut at its committed size, is the image of what it commits.\<close>

lemma put64_get64:
  assumes "8 \<le> length bs"
  shows "put64 (get64 bs) = take 8 bs"
proof -
  have lo: "(ucast (get64 bs) :: u32) = get32 bs"
    by (rule bit_word_eqI) (auto simp: get64_def bit_ucast_iff bit_or_iff bit_push_bit_iff)
  have hi: "(ucast (drop_bit 32 (get64 bs)) :: u32) = get32 (drop 4 bs)"
    by (rule bit_word_eqI)
      (auto simp: get64_def bit_ucast_iff bit_or_iff bit_push_bit_iff bit_drop_bit_eq dest: bit_imp_le_length)
  have "take 4 bs @ take 4 (drop 4 bs) = take 8 bs"
    by (simp flip: take_add)
  then show ?thesis
    using assms by (simp add: put64_def lo hi put32_get32)
qed

lemma take_fields:
  "take a xs @ take b (drop a xs) = take (a + b) xs"
  by (simp add: take_add)

lemma entry_bytes_load: "20 \<le> length bs \<Longrightarrow> entry_bytes (load_entry bs) = take 20 bs"
  using put32_get32 [of bs] put32_get32 [of "drop 4 bs"] put64_get64 [of "drop 8 bs"]
    put32_get32 [of "drop 16 bs"] take_fields [of 4 bs 4] take_fields [of 8 bs 8] take_fields [of 16 bs 4]
  by (simp add: entry_bytes_def load_entry_def) (metis append_assoc)

lemma header_bytes_load: "44 \<le> length bs \<Longrightarrow> header_bytes (load_header bs) = take 44 bs"
  using put32_get32 [of "drop 4 bs"] put64_get64 [of "drop 8 bs"] put64_get64 [of "drop 16 bs"]
    put64_get64 [of "drop 24 bs"] put32_get32 [of "drop 32 bs"] put32_get32 [of "drop 36 bs"]
    put32_get32 [of "drop 40 bs"] take_fields [of 4 bs 4] take_fields [of 8 bs 8] take_fields [of 16 bs 8]
    take_fields [of 24 bs 8] take_fields [of 32 bs 4] take_fields [of 36 bs 4] take_fields [of 40 bs 4]
  by (simp add: header_bytes_def load_header_def) (metis append_assoc)

lemma index_bytes_committed:
  "44 + 20 * n \<le> length bs \<Longrightarrow> index_bytes (committed_entries bs n) = take (20 * n) (drop 44 bs)"
proof (induction n)
  case (Suc n)
  have "entry_bytes (entry_at bs n) = take 20 (drop (20 * n) (drop 44 bs))"
    using Suc.prems by (simp add: entry_at_def sizeof_Header_def sizeof_Entry_def entry_bytes_load mult.commute
        add.commute)
  then show ?case
    using Suc take_fields [of "20 * n" "drop 44 bs" 20]
    by (simp add: committed_entries_def index_bytes_def add.commute)
qed (simp add: committed_entries_def index_bytes_def)

lemma accepted_is_image:
  assumes "cache_accepted old ident mode allow"
  defines "h \<equiv> load_header old" and "es \<equiv> committed_of old"
  shows "\<exists>gap data. take (committed_size old) old = cache_image h es gap data \<and>
    20 * length es + length gap = 20 * unat (h_indexCapacity h) \<and>
    length data = sum_list (map (unat \<circ> e_decompSize) es) \<and> length (h_magic h) = 4 \<and>
    length es = unat (h_entryCount h)"
proof -
  let ?n = "unat (h_entryCount h)" and ?cap = "unat (h_indexCapacity h)"
  note counts = header_accepted_counts [OF cache_acceptedD(1) [OF assms(1)], folded h_def]
  have ds: "data_start h = 44 + 20 * ?cap" by (simp add: data_start_def sizeof_Header_def sizeof_Entry_def)
  have fit: "?n \<le> ?cap" "44 + 20 * ?cap \<le> length old"
    using counts ds by (simp_all add: h_def)
  have size: "committed_size old = 44 + 20 * ?cap + sum_list (map (unat \<circ> e_decompSize) es)"
    by (simp add: committed_size_eq payload_start_def ds es_def h_def [symmetric])
  have le: "committed_size old \<le> length old" by (rule committed_size_le [OF assms(1)])
  let ?L = "committed_size old"
  let ?gap = "take (20 * (?cap - ?n)) (drop (44 + 20 * ?n) old)"
  let ?data = "take (?L - (44 + 20 * ?cap)) (drop (44 + 20 * ?cap) old)"
  have "cache_image h es ?gap ?data = take 44 old @ take (20 * ?n) (drop 44 old) @ ?gap @ ?data"
    using fit by (simp add: cache_image_def h_def es_def header_bytes_load index_bytes_committed)
  also have "take 44 old @ take (20 * ?n) (drop 44 old) = take (44 + 20 * ?n) old"
    by (rule take_fields)
  then have "take 44 old @ take (20 * ?n) (drop 44 old) @ ?gap @ ?data =
      (take (44 + 20 * ?n) old @ ?gap) @ ?data" by simp
  also have "take (44 + 20 * ?n) old @ ?gap = take (44 + 20 * ?cap) old"
    using fit(1) by (simp add: take_fields diff_mult_distrib2)
  also have "take (44 + 20 * ?cap) old @ ?data = take ?L old"
    using size by (simp add: take_fields)
  finally have "take ?L old = cache_image h es ?gap ?data" by simp
  moreover have "length (h_magic h) = 4"
    using cache_acceptedD(1) [OF assms(1)] by (simp add: header_accepted_def Let_def h_def kMagic_def)
  moreover have "length es = ?n" by (simp add: es_def h_def)
  moreover have "20 * length es + length ?gap = 20 * ?cap"
    using fit by (simp add: es_def h_def)
  moreover have "length ?data = sum_list (map (unat \<circ> e_decompSize) es)"
    using size le by simp
  ultimately show ?thesis by blast
qed

text \<open>When an image is accepted: contiguous entries of legal size over matching payloads.\<close>

lemma image_accepted:
  assumes "length (h_magic h) = 4" "length es = unat (h_entryCount h)"
    and "20 * length es + length gap = 20 * unat (h_indexCapacity h)"
    and "length data = sum_list (map (unat \<circ> e_decompSize) es)"
    and "h_magic h = kMagic" "h_version h = kVersion" "\<not> identity_mismatch h ident"
    and "\<not> bad_entry_count h (Some ident)"
    and "distinct (map e_startOffset es)"
    and "\<And>i. i < length es \<Longrightarrow> 0 < e_decompSize (es ! i) \<and> e_decompSize (es ! i) \<le> kMaxPayloadSize \<and>
        unat (e_cacheOffset (es ! i)) = payload_start (data_start h) es i"
    and "\<And>i. i < length es \<Longrightarrow> mode = FullPayload \<Longrightarrow>
        xxh32 (take (unat (e_decompSize (es ! i))) (drop (payload_start 0 es i) data)) = e_checksum (es ! i)"
  shows "cache_accepted (cache_image h es gap data) (Some ident) mode False"
proof -
  let ?b = "cache_image h es gap data" and ?d = "data_start h"
  have ds: "?d = 44 + 20 * unat (h_indexCapacity h)"
    by (simp add: data_start_def sizeof_Header_def sizeof_Entry_def)
  have len: "length ?b = payload_start ?d es (length es)"
    using assms(1,3,4) by (simp add: length_cache_image payload_start_def ds)
  have hd: "load_header ?b = h" and es: "committed_entries ?b (unat (h_entryCount h)) = es"
    using assms(1,2) by (simp_all add: load_header_image committed_entries_image)
  have "entry_accepted ?b mode ?d es i" if i: "i < length es" for i
  proof -
    have p: "payload_start ?d es i = 44 + 20 * length es + length gap + payload_start 0 es i"
      using assms(3) by (simp add: payload_start_def ds)
    have "payload_start ?d es (Suc i) \<le> length ?b"
      unfolding len using i by (intro payload_start_mono) simp
    then have "payload_start ?d es i + unat (e_decompSize (es ! i)) \<le> length ?b"
      using i by (simp add: payload_start_Suc)
    then show ?thesis
      using assms(10,11) [OF i] by (auto simp: entry_accepted_def Let_def drop_cache_image [OF assms(1) p])
  qed
  moreover have "header_accepted ?b (Some ident)"
    using assms(5-8) len by (simp add: header_accepted_def hd Let_def payload_start_def data_start_def)
  ultimately show ?thesis
    using assms(2,9) len by (simp add: cache_accepted_def hd es Let_def)
qed

lemma layout_entries_Some:
  "layout_entries cursor ps = Some es \<Longrightarrow>
     map e_startOffset es = map pp_off ps \<and> map e_decompSize es = map pp_size ps \<and>
     map e_checksum es = map pp_checksum ps \<and>
     (\<forall>i < length es. unat (e_cacheOffset (es ! i)) = payload_start (unat cursor) es i) \<and>
     payload_start (unat cursor) es (length es) < 2 ^ 64"
proof (induction ps arbitrary: cursor es)
  case Nil
  then show ?case by (simp add: payload_start_def)
next
  case (Cons p ps)
  then obtain c' es' where c': "AddChecked cursor (u64_of_u32 (pp_size p)) = Some c'"
    and es': "layout_entries c' ps = Some es'"
    and es: "es = \<lparr>e_startOffset = pp_off p, e_decompSize = pp_size p, e_cacheOffset = cursor,
      e_checksum = pp_checksum p\<rparr> # es'"
    by (auto split: option.splits)
  have u: "unat c' = unat cursor + unat (pp_size p)"
    using c' by (simp add: AddChecked_Some_iff)
  have "payload_start (unat cursor) es (Suc i) = payload_start (unat c') es' i" for i
    by (simp add: payload_start_def es u)
  with Cons.IH [OF es'] show ?case
    by (auto simp: es less_Suc_eq_0_disj payload_start_def u)
qed

lemma layout_length: "layout_entries cursor ps = Some es \<Longrightarrow> length es = length ps"
  using layout_entries_Some by (metis length_map)

lemma payload_bytes_length:
  "\<forall>p \<in> set ps. prepared_ok p \<Longrightarrow> length (payload_bytes ps) = sum_list (map (unat \<circ> pp_size) ps)"
  by (induction ps) (simp_all add: payload_bytes_def prepared_ok_def)

lemma layout_sizes:
  "layout_entries cursor ps = Some es \<Longrightarrow>
     sum_list (map (unat \<circ> e_decompSize) es) = sum_list (map (unat \<circ> pp_size) ps)"
  using layout_entries_Some by (metis map_map)

text \<open>Payload \<open>i\<close> sits at its start among the payload bytes.\<close>

lemma payload_bytes_slice:
  assumes "\<forall>p \<in> set ps. prepared_ok p" "i < length ps" "map e_decompSize es = map pp_size ps"
  shows "take (unat (pp_size (ps ! i))) (drop (payload_start 0 es i) (payload_bytes ps)) = pp_data (ps ! i)"
proof -
  have "map e_decompSize (take i es) = map pp_size (take i ps)"
    using assms(3) by (simp flip: take_map)
  from arg_cong [OF this, of "map unat"]
  have "map (unat \<circ> e_decompSize) (take i es) = map (unat \<circ> pp_size) (take i ps)" by simp
  moreover have "\<forall>p \<in> set (take i ps). prepared_ok p"
    using assms(1) by (auto dest: in_set_takeD)
  ultimately have s: "payload_start 0 es i = length (payload_bytes (take i ps))"
    by (simp add: payload_start_def payload_bytes_length)
  have "payload_bytes (take i ps @ ps ! i # drop (Suc i) ps) =
      payload_bytes (take i ps) @ pp_data (ps ! i) @ payload_bytes (drop (Suc i) ps)"
    by (simp add: payload_bytes_def)
  then have "payload_bytes ps = payload_bytes (take i ps) @ pp_data (ps ! i) @ payload_bytes (drop (Suc i) ps)"
    by (simp only: id_take_nth_drop [OF assms(2), symmetric])
  moreover have "unat (pp_size (ps ! i)) = length (pp_data (ps ! i))"
    using assms(1,2) by (simp add: prepared_ok_def)
  ultimately show ?thesis by (simp add: s)
qed

section \<open>Crashes\<close>

definition crash_image :: "bytes list \<Rightarrow> bytes \<Rightarrow> bool" where
  "crash_image win c \<longleftrightarrow>
     (\<exists>w \<in> set win. length c = length w) \<and>
     (\<exists>w \<in> set win. take sizeof_Header c = take sizeof_Header w) \<and>
     (\<forall>p < length c. \<exists>w \<in> set win. c ! p = (if p < length w then w ! p else 0))"

text \<open>The payload an entry describes.\<close>

definition payload_of :: "bytes \<Rightarrow> Entry \<Rightarrow> bytes" where
  "payload_of c e = take (unat (e_decompSize e)) (drop (unat (e_cacheOffset e)) c)"

text \<open>A file that still carries what \<open>old\<close> commits: its header, its committed index slots and
  its committed payloads.\<close>

definition index_end :: "bytes \<Rightarrow> nat" where
  "index_end old = sizeof_Header + unat (h_entryCount (load_header old)) * sizeof_Entry"

definition carries :: "bytes \<Rightarrow> bytes \<Rightarrow> bool" where
  "carries old c \<longleftrightarrow> take (index_end old) c = take (index_end old) old \<and>
     committed_size old \<le> length c \<and>
     (\<forall>p. data_start (load_header old) \<le> p \<and> p < committed_size old \<longrightarrow> c ! p = old ! p)"

lemma index_end_le:
  assumes "cache_accepted old ident mode allow"
  shows "index_end old \<le> committed_size old" "committed_size old \<le> length old"
proof -
  note counts = header_accepted_counts [OF cache_acceptedD(1) [OF assms]]
  show "index_end old \<le> committed_size old"
    using counts(3) by (simp add: index_end_def committed_size_eq payload_start_def)
  show "committed_size old \<le> length old" by (rule committed_size_le [OF assms])
qed

lemma carries_self: "cache_accepted old ident mode allow \<Longrightarrow> carries old old"
  using index_end_le by (auto simp: carries_def)

lemma carries_validates:
  assumes "cache_accepted old ident StructuralOnly True" "carries old c"
  shows "Validate (Some c) (length c) ident StructuralOnly True =
    Validate (Some old) (length old) ident StructuralOnly True"
  using assms by (intro Validate_prefix_eq) (simp_all add: Validate_ok_iff carries_def index_end_def)

text \<open>A write that only touches spare index slots or lies behind the committed prefix.\<close>

lemma carries_write:
  assumes "cache_accepted old ident mode allow" "index_end old \<le> k" "carries old c"
    and "k + length x \<le> data_start (load_header old) \<or> committed_size old \<le> k"
  shows "carries old (write_span k x c)"
proof -
  have "index_end old \<le> length c"
    using index_end_le [OF assms(1)] assms(3) by (simp add: carries_def)
  moreover have "write_span k x c ! p = old ! p"
    if "data_start (load_header old) \<le> p" "p < committed_size old" for p
  proof -
    have "p < length c" "p < length (write_span k x c)" "\<not> (k \<le> p \<and> p < k + length x)"
      using that assms(3,4) length_write_span_ge [of c k x] by (auto simp: carries_def)
    then have "write_span k x c ! p = c ! p" by (auto simp: nth_write_span)
    with that assms(3) show ?thesis by (simp add: carries_def)
  qed
  ultimately show ?thesis
    using assms(2,3) length_write_span_ge [of c k x] by (auto simp: carries_def take_write_span)
qed

lemma carries_truncate:
  assumes "cache_accepted old ident mode allow" "carries old c"
  shows "carries old (set_length (committed_size old) c)"
  using index_end_le [OF assms(1)] assms(2)
  by (auto simp: carries_def take_set_length) (simp add: set_length_def nth_append)

lemma carries_crash:
  assumes "cache_accepted old ident mode allow" "\<forall>w \<in> set win. carries old w" "crash_image win c"
  shows "carries old c"
proof -
  have le: "index_end old \<le> committed_size old" by (rule index_end_le [OF assms(1)])
  obtain w where "w \<in> set win" "length c = length w"
    using assms(3) by (auto simp: crash_image_def)
  then have len: "committed_size old \<le> length c"
    using assms(2) by (auto simp: carries_def)
  have "c ! p = old ! p" if p: "p < index_end old" for p
  proof -
    obtain w where w: "w \<in> set win" "c ! p = (if p < length w then w ! p else 0)"
      using assms(3) p le len unfolding crash_image_def by (meson less_le_trans order_trans)
    then have cw: "carries old w" using assms(2) by simp
    then have "p < length w" using p le by (simp add: carries_def)
    moreover have "w ! p = old ! p"
      using cw p by (metis carries_def nth_take)
    ultimately show ?thesis using w by simp
  qed
  moreover have "index_end old \<le> length old" using le index_end_le(2) [OF assms(1)] by simp
  ultimately have "take (index_end old) c = take (index_end old) old"
    using le len by (intro nth_equalityI) simp_all
  moreover have "c ! p = old ! p" if p: "data_start (load_header old) \<le> p" "p < committed_size old" for p
  proof -
    obtain w where w: "w \<in> set win" "c ! p = (if p < length w then w ! p else 0)"
      using assms(3) p len unfolding crash_image_def by (meson less_le_trans)
    then show ?thesis using assms(2) p by (force simp: carries_def)
  qed
  ultimately show ?thesis using len by (simp add: carries_def)
qed

text \<open>A committed payload is read the same from any file that carries it.\<close>

lemma carries_payload:
  assumes "cache_accepted old ident mode allow" "carries old c" "e \<in> set (committed_of old)"
  shows "payload_of c e = payload_of old e"
proof -
  let ?n = "unat (h_entryCount (load_header old))" and ?d = "data_start (load_header old)"
  obtain i where i: "i < ?n" "e = entry_at old i"
    using assms(3) by (auto simp: committed_entries_def)
  have off: "unat (e_cacheOffset e) = payload_start ?d (committed_of old) i"
    using cache_acceptedD(2) [OF assms(1) i(1)] i by (simp add: entry_accepted_def Let_def)
  have "payload_start ?d (committed_of old) (Suc i) \<le> committed_size old"
    unfolding committed_size_eq using i(1) by (intro payload_start_mono) simp
  then have fin: "unat (e_cacheOffset e) + unat (e_decompSize e) \<le> committed_size old"
    using i off by (simp add: payload_start_Suc)
  have le: "?d \<le> unat (e_cacheOffset e)" by (simp add: off payload_start_def)
  have len: "committed_size old \<le> length c" "committed_size old \<le> length old"
    using assms(2) index_end_le(2) [OF assms(1)] by (simp_all add: carries_def)
  show ?thesis unfolding payload_of_def
  proof (rule nth_equalityI)
    fix k assume "k < length (take (unat (e_decompSize e)) (drop (unat (e_cacheOffset e)) c))"
    then have k: "k < unat (e_decompSize e)" by simp
    then show "take (unat (e_decompSize e)) (drop (unat (e_cacheOffset e)) c) ! k =
        take (unat (e_decompSize e)) (drop (unat (e_cacheOffset e)) old) ! k"
      using assms(2) fin le len by (simp add: carries_def)
  qed (use fin len in simp)
qed

section \<open>Appending\<close>

text \<open>Everything before the header is touched.\<close>

definition append_prologue :: "bool \<Rightarrow> Header \<Rightarrow> nat \<Rightarrow> PreparedPending list \<Rightarrow> disk \<Rightarrow> bool \<times> disk" where
  "append_prologue b oldHeader oldCommittedSize newEntries d =
     (let laid = layout_entries (of_nat oldCommittedSize) newEntries;
          es = (case laid of None \<Rightarrow> [] | Some es \<Rightarrow> es)
      in case append_payloads b oldCommittedSize newEntries (laid \<noteq> None) d of
           (False, d1) \<Rightarrow> (False, d1)
         | (True, d1) \<Rightarrow> append_index b oldHeader es d1)"

lemma append_phases_prologue:
  "append_phases b h n ps d =
     (case append_prologue b h n ps d of
        (False, d1) \<Rightarrow> (False, d1)
      | (True, d1) \<Rightarrow> append_header b h
          (case layout_entries (of_nat n) ps of None \<Rightarrow> [] | Some es \<Rightarrow> es) d1)"
  by (auto simp: append_phases_def append_prologue_def Let_def split: prod.splits bool.splits)

lemma append_payloads_inv:
  assumes "append_payloads b n ps laid d = (r, d')" "window_inv BaseFile P d"
    and "\<And>c. P c \<Longrightarrow> P (set_length n c)" "\<And>c k x. n \<le> k \<Longrightarrow> P c \<Longrightarrow> P (write_span k x c)"
    and "laid \<Longrightarrow> (\<forall>p \<in> set ps. prepared_ok p) \<and> unat (word_of_nat n :: u64) = n \<and>
      n + length (payload_bytes ps) < 2 ^ 64"
  shows "window_inv BaseFile P d'"
proof -
  obtain c1 d1 where c1: "Cancelled b d = (c1, d1)" by force
  have w1: "window_inv BaseFile P d1"
    using assms(2) Cancelled_frame [OF c1, of BaseFile] by (simp add: window_inv_def)
  obtain t d2 where t: "Truncate BaseFile n d1 = (t, d2)" by force
  have w2: "window_inv BaseFile P d2" by (rule Truncate_inv [OF t w1 assms(3)])
  show ?thesis
  proof (cases "c1 \<or> \<not> t \<or> \<not> laid")
    case True
    then show ?thesis
      using assms(1) c1 t w1 w2 by (auto simp: append_payloads_def split: bool.splits)
  next
    case False
    obtain wr d3 where wr: "write_payloads BaseFile b (of_nat n) ps d2 = (wr, d3)" by force
    have w3: "window_inv BaseFile P d3"
      using False assms(4,5) by (intro write_payloads_inv [OF wr w2]) auto
    obtain c2 d4 where c2: "Cancelled b d3 = (c2, d4)" by force
    have w4: "window_inv BaseFile P d4"
      using w3 Cancelled_frame [OF c2, of BaseFile] by (simp add: window_inv_def)
    show ?thesis
      using assms(1) False c1 t wr c2 w3 w4
      by (auto simp: append_payloads_def split: bool.splits intro: Flush_inv)
  qed
qed

lemma append_index_inv:
  assumes "append_index b h es d = (r, d')" "window_inv BaseFile P d"
    and "\<And>c k x. sizeof_Header + unat (h_entryCount h) * sizeof_Entry \<le> k \<Longrightarrow>
      k + length x \<le> sizeof_Header + (unat (h_entryCount h) + length es) * sizeof_Entry \<Longrightarrow>
      P c \<Longrightarrow> P (write_span k x c)"
  shows "window_inv BaseFile P d'"
proof (cases "es = []")
  case True
  then show ?thesis using assms by (simp add: append_index_def)
next
  case False
  obtain w d1 where w: "WriteAt BaseFile b (sizeof_Header + unat (h_entryCount h) * sizeof_Entry)
      (index_bytes es) d = (w, d1)" by force
  have "window_inv BaseFile P d1"
    by (rule WriteAt_inv [OF w assms(2)]) (rule assms(3), auto simp: sizeof_Entry_def)
  with assms(1) False w show ?thesis
    by (auto simp: append_index_def split: bool.splits intro: Flush_inv)
qed

text \<open>The new entries fit into the spare index slots, as the reconciliation ensures.\<close>

definition slots_left :: "bytes \<Rightarrow> nat" where
  "slots_left old = unat (h_indexCapacity (load_header old)) - unat (h_entryCount (load_header old))"

lemma append_prologue_carries:
  assumes "cache_accepted old ident mode allow" "length old < 2 ^ 64"
    and "(\<forall>p \<in> set ps. prepared_ok p) \<and> length ps \<le> slots_left old"
    and "window_inv BaseFile (carries old) d"
    and "append_prologue b (load_header old) (committed_size old) ps d = (r, d')"
  shows "window_inv BaseFile (carries old) d'"
proof -
  let ?L = "committed_size old" and ?laid = "layout_entries (of_nat (committed_size old)) ps"
  let ?es = "case ?laid of None \<Rightarrow> [] | Some es \<Rightarrow> es"
  have L: "unat (word_of_nat ?L :: u64) = ?L"
    using index_end_le(2) [OF assms(1)] assms(2) by (simp add: unat_of_nat take_bit_nat_eq_self)
  obtain p d1 where p: "append_payloads b ?L ps (?laid \<noteq> None) d = (p, d1)" by force
  have w1: "window_inv BaseFile (carries old) d1"
  proof (rule append_payloads_inv [OF p assms(4)])
    show "carries old (set_length ?L c)" if "carries old c" for c
      using assms(1) that by (rule carries_truncate)
    show "carries old (write_span k x c)" if "?L \<le> k" "carries old c" for c k x
      using that index_end_le(1) [OF assms(1)] by (intro carries_write [OF assms(1)]) auto
    show "(\<forall>p \<in> set ps. prepared_ok p) \<and> unat (word_of_nat ?L :: u64) = ?L \<and>
        ?L + length (payload_bytes ps) < 2 ^ 64" if "?laid \<noteq> None"
    proof -
      from that obtain es where es: "?laid = Some es" by auto
      from layout_entries_Some [OF this] have "payload_start ?L es (length es) < 2 ^ 64"
        by (simp add: L)
      then show ?thesis
        using assms(3) L layout_sizes [OF es] by (simp add: payload_start_def payload_bytes_length)
    qed
  qed
  show ?thesis
  proof (cases p)
    case False
    then show ?thesis using assms(5) p w1 by (simp add: append_prologue_def Let_def)
  next
    case True
    then have "append_index b (load_header old) ?es d1 = (r, d')"
      using assms(5) p by (simp add: append_prologue_def Let_def)
    from this w1 show ?thesis
    proof (rule append_index_inv)
      fix c k and x :: bytes
      assume k: "sizeof_Header + unat (h_entryCount (load_header old)) * sizeof_Entry \<le> k"
        "k + length x \<le> sizeof_Header + (unat (h_entryCount (load_header old)) + length ?es) * sizeof_Entry"
        and c: "carries old c"
      have "length ?es \<le> length ps"
        by (cases ?laid) (simp_all add: layout_length)
      then have fit: "unat (h_entryCount (load_header old)) + length ?es \<le>
          unat (h_indexCapacity (load_header old))"
        using assms(3) header_accepted_counts(2) [OF cache_acceptedD(1) [OF assms(1)]]
        unfolding slots_left_def by linarith
      then have "k + length x \<le> data_start (load_header old)"
        using k(2) header_accepted_counts(3) [OF cache_acceptedD(1) [OF assms(1)]]
        by (simp add: data_start_def sizeof_Entry_def sizeof_Header_def)
      then show "carries old (write_span k x c)"
        using k(1) c by (intro carries_write [OF assms(1)]) (simp_all add: index_end_def)
    qed
  qed
qed

lemma crash_carries:
  assumes "cache_accepted old ident StructuralOnly True" "length old < 2 ^ 64"
    and "(\<forall>p \<in> set ps. prepared_ok p) \<and> length ps \<le> slots_left old"
    and "dk_base d = Some (durable_file old)"
    and "append_prologue b (load_header old) (committed_size old) ps d = (r, d')"
    and "crash_image (window BaseFile d') c"
  shows "carries old c"
proof -
  have "the_file BaseFile d = durable_file old" using assms(4) by (simp add: the_file.simps)
  then have "window_inv BaseFile (carries old) d"
    using carries_self [OF assms(1)] by (simp add: window_inv_def durable_file_def)
  from append_prologue_carries [OF assms(1-3) this assms(5)]
  have "\<forall>w \<in> set (window BaseFile d'). carries old w" by (simp add: window_inv_def)
  then show ?thesis using assms(1,6) by (intro carries_crash)
qed

text \<open>A file that carries the committed prefix of another one shows the same entries.\<close>

lemma carries_committed:
  assumes "cache_accepted old ident mode allow" "carries old c"
  shows "load_header c = load_header old" "committed_of c = committed_of old"
proof -
  show hd: "load_header c = load_header old"
    using assms(2) by (intro load_header_frame [where n = "index_end old"])
      (auto simp: carries_def index_end_def sizeof_Header_def)
  show "committed_of c = committed_of old"
    unfolding hd using assms(2) by (intro committed_entries_frame) (auto simp: carries_def index_end_def)
qed

text \<open>
  C3: while an append runs up to the point where it writes the header, whichever calls fail,
  whenever it is cancelled and wherever the machine stops, the file on the disk still
  validates as before the append, with exactly the entries it had committed and their
  payloads intact.
\<close>

theorem append_crash_safe:
  assumes "vr_ok (Validate (Some old) (length old) ident StructuralOnly True)"
    and "length old < 2 ^ 64" "(\<forall>p \<in> set ps. prepared_ok p) \<and> length ps \<le> slots_left old"
    and "dk_base d = Some (durable_file old)"
    and "append_prologue b (load_header old) (committed_size old) ps d = (r, d')"
    and "crash_image (window BaseFile d') c"
  shows "Validate (Some c) (length c) ident StructuralOnly True =
      Validate (Some old) (length old) ident StructuralOnly True \<and>
    committed_of c = committed_of old \<and>
    (\<forall>e \<in> set (committed_of old). payload_of c e = payload_of old e)"
proof -
  have acc: "cache_accepted old ident StructuralOnly True"
    using assms(1) by (simp add: Validate_ok_iff)
  have cc: "carries old c" by (rule crash_carries [OF acc assms(2-6)])
  from carries_validates [OF acc cc] carries_committed(2) [OF acc cc] carries_payload [OF acc cc]
  show ?thesis by blast
qed

section \<open>A completed append\<close>

lemma write_span_middle:
  "length b = length x \<Longrightarrow> k = length a \<Longrightarrow> write_span k x (a @ b @ c) = a @ x @ c"
  by (cases "x = []") (simp_all add: write_span_def)

lemma write_span_end: "k = length a \<Longrightarrow> write_span k x a = a @ x"
  using write_span_middle [of "[]" "[]"] by (cases "x = []") (simp_all add: write_span_def)

lemma payload_start_append:
  "i \<le> length xs \<Longrightarrow> payload_start d (xs @ ys) i = payload_start d xs i"
  "payload_start d (xs @ ys) (length xs + j) = payload_start (payload_start d xs (length xs)) ys j"
  by (simp_all add: payload_start_def)

lemma payload_start_shift: "payload_start d es i = d + payload_start 0 es i"
  by (simp add: payload_start_def)

definition grown_header :: "Header \<Rightarrow> nat \<Rightarrow> Header" where
  "grown_header h k = h\<lparr>h_entryCount := h_entryCount h + of_nat k\<rparr>"

text \<open>What the three phases write, when they all succeed.\<close>

lemma append_payloads_content:
  assumes "append_payloads b n ps True d = (True, d')" "\<forall>p \<in> set ps. prepared_ok p"
    and "unat (word_of_nat n :: u64) = n" "n + length (payload_bytes ps) < 2 ^ 64"
    and "n \<le> length (content BaseFile d)"
  shows "content BaseFile d' = take n (content BaseFile d) @ payload_bytes ps"
proof -
  obtain c1 d1 where c1: "Cancelled b d = (c1, d1)" by force
  obtain t d2 where t: "Truncate BaseFile n d1 = (t, d2)" by force
  obtain wr d3 where wr: "write_payloads BaseFile b (of_nat n) ps d2 = (wr, d3)" by force
  obtain c2 d4 where c2: "Cancelled b d3 = (c2, d4)" by force
  have ok: "\<not> c1" "t" "wr" and last: "c2 \<and> d' = d4 \<or> \<not> c2 \<and> FlushFileBuffers BaseFile d4 = (True, d')"
    using assms(1) c1 t wr c2 by (auto simp: append_payloads_def split: bool.splits prod.splits)
  have "content BaseFile d' = content BaseFile d4"
    using last Flush_cases [of BaseFile d4 True d' BaseFile] by auto
  also have "\<dots> = content BaseFile d3" using Cancelled_frame [OF c2, of BaseFile] by simp
  also have "\<dots> = write_span n (payload_bytes ps) (content BaseFile d2)"
    using write_payloads_content [of BaseFile b "of_nat n" ps d2 d3] wr ok assms(2-4) by simp
  also have "content BaseFile d2 = set_length n (content BaseFile d)"
    using Truncate_content [of BaseFile n d1 d2] t ok Cancelled_frame [OF c1, of BaseFile] by simp
  finally show ?thesis
    using assms(5) by (simp add: set_length_def write_span_end)
qed

lemma append_payloads_unlaid: "append_payloads b n ps False d = (r, d') \<Longrightarrow> \<not> r"
  by (auto simp: append_payloads_def split: prod.splits bool.splits)

lemma append_index_content:
  "append_index b h es d = (True, d') \<Longrightarrow>
     content BaseFile d' =
       write_span (sizeof_Header + unat (h_entryCount h) * sizeof_Entry) (index_bytes es) (content BaseFile d) \<and>
     (es \<noteq> [] \<longrightarrow> window BaseFile d' = [content BaseFile d'])"
  by (auto simp: append_index_def index_bytes_def split: prod.splits bool.splits if_splits
      dest!: WriteAt_content dest: Flush_cases [where t = BaseFile and t' = BaseFile])

lemma append_header_content:
  "append_header b h es d = (True, d') \<Longrightarrow>
     content BaseFile d' =
       (if es = [] then content BaseFile d
        else write_span 0 (header_bytes (grown_header h (length es))) (content BaseFile d)) \<and>
     (es \<noteq> [] \<longrightarrow> window BaseFile d' = [content BaseFile d'])"
  by (auto simp: append_header_def grown_header_def Let_def split: prod.splits bool.splits if_splits
      dest!: WriteAt_content dest: Flush_cases [where t = BaseFile and t' = BaseFile])

lemma append_phases_content:
  assumes "cache_accepted old ident mode allow" "length old < 2 ^ 64"
    and "\<forall>p \<in> set ps. prepared_ok p"
    and "length ps \<le> unat (h_indexCapacity (load_header old)) - unat (h_entryCount (load_header old))"
    and "content BaseFile d = old"
    and "append_phases b (load_header old) (committed_size old) ps d = (True, d')"
  obtains es gap data where
    "layout_entries (of_nat (committed_size old)) ps = Some es"
    "unat (word_of_nat (committed_size old) :: u64) = committed_size old"
    "take (committed_size old) old = cache_image (load_header old) (committed_of old) gap data"
    "20 * length (committed_of old) + length gap = 20 * unat (h_indexCapacity (load_header old))"
    "length data = sum_list (map (unat \<circ> e_decompSize) (committed_of old))"
    "content BaseFile d' = cache_image (grown_header (load_header old) (length es)) (committed_of old @ es)
       (drop (20 * length es) gap) (data @ payload_bytes ps)"
    "es \<noteq> [] \<longrightarrow> window BaseFile d' = [content BaseFile d']"
proof -
  let ?h = "load_header old" and ?L = "committed_size old"
  let ?laid = "layout_entries (of_nat ?L) ps"
  have L: "unat (word_of_nat ?L :: u64) = ?L"
    using index_end_le(2) [OF assms(1)] assms(2) by (simp add: unat_of_nat take_bit_nat_eq_self)
  obtain gap data where img: "take ?L old = cache_image ?h (committed_of old) gap data"
    and gap: "20 * length (committed_of old) + length gap = 20 * unat (h_indexCapacity ?h)"
    and data: "length data = sum_list (map (unat \<circ> e_decompSize) (committed_of old))"
    and magic: "length (h_magic ?h) = 4"
    using accepted_is_image [OF assms(1)] by blast
  obtain d1 d2 where p1: "append_payloads b ?L ps (?laid \<noteq> None) d = (True, d1)"
    and p2: "append_index b ?h (case ?laid of None \<Rightarrow> [] | Some es \<Rightarrow> es) d1 = (True, d2)"
    and p3: "append_header b ?h (case ?laid of None \<Rightarrow> [] | Some es \<Rightarrow> es) d2 = (True, d')"
    using assms(6) by (auto simp: append_phases_def Let_def split: prod.splits bool.splits)
  have "?laid \<noteq> None"
    using p1 append_payloads_unlaid by fastforce
  then obtain es where es: "?laid = Some es" by auto
  from layout_entries_Some [OF this] layout_sizes [OF es]
  have fit: "?L + length (payload_bytes ps) < 2 ^ 64"
    using assms(3) L by (simp add: payload_start_def payload_bytes_length)
  have c1: "content BaseFile d1 = cache_image ?h (committed_of old) gap (data @ payload_bytes ps)"
    using append_payloads_content [OF _ assms(3) L fit] p1 es assms(5) index_end_le(2) [OF assms(1)] img
    by (simp add: cache_image_def)
  have gl: "20 * length es \<le> length gap"
    using gap assms(4) layout_length [OF es] by simp
  have c2: "content BaseFile d2 = cache_image ?h (committed_of old @ es) (drop (20 * length es) gap) (data @ payload_bytes ps)"
  proof -
    have a: "cache_image ?h (committed_of old) gap (data @ payload_bytes ps) =
        (header_bytes ?h @ index_bytes (committed_of old)) @ take (20 * length es) gap @
          (drop (20 * length es) gap @ data @ payload_bytes ps)"
      by (simp add: cache_image_def)
    have b: "content BaseFile d2 = write_span (44 + unat (h_entryCount ?h) * 20) (index_bytes es) (content BaseFile d1)"
      using append_index_content [OF p2] es by (simp add: sizeof_Header_def sizeof_Entry_def)
    have c: "write_span (44 + unat (h_entryCount ?h) * 20) (index_bytes es)
        ((header_bytes ?h @ index_bytes (committed_of old)) @ take (20 * length es) gap @
          (drop (20 * length es) gap @ data @ payload_bytes ps)) =
        (header_bytes ?h @ index_bytes (committed_of old)) @ index_bytes es @
          (drop (20 * length es) gap @ data @ payload_bytes ps)"
      using gl magic by (intro write_span_middle) simp_all
    show ?thesis unfolding b c1 a c by (simp add: cache_image_def)
  qed
  have c3: "content BaseFile d' = cache_image (grown_header ?h (length es)) (committed_of old @ es)
       (drop (20 * length es) gap) (data @ payload_bytes ps)"
  proof (cases "es = []")
    case True
    then show ?thesis using append_header_content [OF p3] es c2 by (simp add: grown_header_def)
  next
    case False
    have "write_span 0 (header_bytes (grown_header ?h (length es))) (header_bytes ?h @ r) =
        header_bytes (grown_header ?h (length es)) @ r" for r
      using write_span_middle [of "header_bytes ?h" "header_bytes (grown_header ?h (length es))" 0 "[]" r] magic
      by (simp add: grown_header_def)
    with append_header_content [OF p3] es c2 False show ?thesis by (simp add: cache_image_def)
  qed
  have "es \<noteq> [] \<longrightarrow> window BaseFile d' = [content BaseFile d']"
    using append_header_content [OF p3] es by simp
  with that es L img gap data c3 show thesis by blast
qed

text \<open>The image the phases leave is accepted.\<close>

lemma appended_image_accepted:
  assumes "cache_accepted old (Some ident) mode True"
    and "\<forall>p \<in> set ps. prepared_ok p \<and> pp_size p \<le> kMaxPayloadSize"
    and "distinct (map e_startOffset (committed_of old) @ map pp_off ps)"
    and "length ps \<le> unat (h_indexCapacity (load_header old)) - unat (h_entryCount (load_header old))"
    and "layout_entries (of_nat (committed_size old)) ps = Some es"
    and "unat (word_of_nat (committed_size old) :: u64) = committed_size old"
    and "take (committed_size old) old = cache_image (load_header old) (committed_of old) gap data"
    and "20 * length (committed_of old) + length gap = 20 * unat (h_indexCapacity (load_header old))"
    and "length data = sum_list (map (unat \<circ> e_decompSize) (committed_of old))"
  shows "cache_accepted (cache_image (grown_header (load_header old) (length es)) (committed_of old @ es)
    (drop (20 * length es) gap) (data @ payload_bytes ps)) (Some ident) mode False"
proof -
  let ?h = "load_header old" and ?es = "committed_of old" and ?L = "committed_size old"
  let ?h' = "grown_header ?h (length es)" and ?n = "unat (h_entryCount (load_header old))"
  note hdr = cache_acceptedD(1) [OF assms(1)] and acc = cache_acceptedD(2) [OF assms(1)]
  note lay = layout_entries_Some [OF assms(5)]
  have k: "length es = length ps" by (rule layout_length [OF assms(5)])
  have cap: "?n + length es \<le> unat (h_indexCapacity ?h)"
    using header_accepted_counts(2) [OF hdr] assms(4) k by simp
  have cnt: "unat (h_entryCount ?h') = ?n + length es"
  proof -
    have "unat (word_of_nat (length es) :: u32) = length es"
      using cap unat_u32_lt [of "h_indexCapacity ?h"] by (simp add: unat_of_nat take_bit_nat_eq_self del: unat_u32_lt)
    then have "unat (h_entryCount ?h) + unat (word_of_nat (length es) :: u32) \<le> unat (h_indexCapacity ?h)"
      using cap by simp
    from unat_add_le [OF this] \<open>unat (word_of_nat (length es) :: u32) = length es\<close> show ?thesis
      by (simp add: grown_header_def)
  qed
  have magic: "length (h_magic ?h) = 4"
    using hdr by (simp add: header_accepted_def Let_def kMagic_def)
  have ds: "data_start ?h' = data_start ?h" by (simp add: grown_header_def data_start_def)
  have L: "?L = payload_start (data_start ?h) ?es ?n" by (rule committed_size_eq)
  have sizes: "length (payload_bytes ps) = sum_list (map (unat \<circ> e_decompSize) es)"
    using assms(2) layout_sizes [OF assms(5)] by (simp add: payload_bytes_length)
  have split: "i < length (?es @ es) \<Longrightarrow> i < ?n \<or> (\<exists>j < length es. i = ?n + j)" for i
    by (metis add.commute length_append length_committed_entries less_diff_conv2 linorder_not_less ordered_cancel_comm_monoid_diff_class.add_diff_inverse)
  show ?thesis
  proof (rule image_accepted)
    show "length (h_magic ?h') = 4" using magic by (simp add: grown_header_def)
    show "length (?es @ es) = unat (h_entryCount ?h')" by (simp add: cnt)
    show "20 * length (?es @ es) + length (drop (20 * length es) gap) = 20 * unat (h_indexCapacity ?h')"
      using assms(8) cap by (simp add: grown_header_def)
    show "length (data @ payload_bytes ps) = sum_list (map (unat \<circ> e_decompSize) (?es @ es))"
      using assms(9) sizes by simp
    show "h_magic ?h' = kMagic" "h_version ?h' = kVersion" "\<not> identity_mismatch ?h' ident"
      using hdr by (simp_all add: header_accepted_def Let_def grown_header_def identity_mismatch_def)
    show "\<not> bad_entry_count ?h' (Some ident)"
    proof -
      have "\<not> bad_entry_count ?h (Some ident)" using hdr by (simp add: header_accepted_def Let_def)
      moreover have "h_indexCapacity ?h' = h_indexCapacity ?h" by (simp add: grown_header_def)
      moreover have "0 < ?n" by (rule header_accepted_counts(1) [OF hdr])
      ultimately show ?thesis
        using cnt cap by (auto simp: bad_entry_count_def word_less_nat_alt word_unat_eq_iff [of _ 0])
    qed
    show "distinct (map e_startOffset (?es @ es))"
      using assms(3) lay by simp
    show "0 < e_decompSize ((?es @ es) ! i) \<and> e_decompSize ((?es @ es) ! i) \<le> kMaxPayloadSize \<and>
        unat (e_cacheOffset ((?es @ es) ! i)) = payload_start (data_start ?h') (?es @ es) i"
      if "i < length (?es @ es)" for i
      using split [OF that]
    proof
      assume "i < ?n"
      with acc [of i] show ?thesis
        by (simp add: entry_accepted_def Let_def nth_append payload_start_append ds)
    next
      assume "\<exists>j < length es. i = ?n + j"
      then obtain j where j: "j < length es" "i = ?n + j" by blast
      have e: "e_decompSize (es ! j) = pp_size (ps ! j)"
        using lay j(1) k by (metis nth_map)
      have "prepared_ok (ps ! j) \<and> pp_size (ps ! j) \<le> kMaxPayloadSize"
        using assms(2) j(1) k by simp
      moreover from this have "0 < pp_size (ps ! j)"
        unfolding prepared_ok_def word_less_nat_alt by (metis length_greater_0_conv unat_0)
      moreover have "unat (e_cacheOffset (es ! j)) = payload_start ?L es j"
        using lay j(1) by (simp add: assms(6))
      ultimately show ?thesis
        using j payload_start_append(2) [of "data_start ?h" ?es es j]
        by (simp add: e nth_append ds L)
    qed
    show "xxh32 (take (unat (e_decompSize ((?es @ es) ! i)))
        (drop (payload_start 0 (?es @ es) i) (data @ payload_bytes ps))) = e_checksum ((?es @ es) ! i)"
      if "i < length (?es @ es)" "mode = FullPayload" for i
      using split [OF that(1)]
    proof
      assume i: "i < ?n"
      let ?p = "payload_start 0 ?es i" and ?s = "unat (e_decompSize (?es ! i))"
      have "payload_start 0 ?es (Suc i) \<le> payload_start 0 ?es ?n"
        using i by (intro payload_start_mono) simp
      then have le: "?p + ?s \<le> length data"
        using i assms(9) by (simp add: payload_start_Suc payload_start_def [of 0 ?es ?n])
      have pd: "payload_start (data_start ?h) ?es i = 44 + 20 * length ?es + length gap + ?p"
        using assms(8) by (subst payload_start_shift)
          (simp add: data_start_def sizeof_Header_def sizeof_Entry_def)
      have "drop (payload_start (data_start ?h) ?es i) (take ?L old) = drop ?p data"
        unfolding assms(7) by (rule drop_cache_image [OF magic pd])
      moreover have "payload_start (data_start ?h) ?es i + ?s \<le> ?L"
      proof -
        have "payload_start (data_start ?h) ?es (Suc i) \<le> ?L"
          unfolding L using i by (intro payload_start_mono) simp
        with i show ?thesis by (simp add: payload_start_Suc)
      qed
      then have "take ?s (drop (payload_start (data_start ?h) ?es i) (take ?L old)) =
          take ?s (drop (payload_start (data_start ?h) ?es i) old)"
        by (simp add: drop_take min_absorb1)
      ultimately have "take ?s (drop ?p data) = take ?s (drop (payload_start (data_start ?h) ?es i) old)"
        by simp
      with acc [OF i] i le that(2) show ?thesis
        by (simp add: entry_accepted_def Let_def nth_append payload_start_append)
    next
      assume "\<exists>j < length es. i = ?n + j"
      then obtain j where j: "j < length es" "i = ?n + j" by blast
      have ps: "payload_start 0 (?es @ es) i = length data + payload_start 0 es j"
        using payload_start_append(2) [of 0 ?es es j] assms(9) j(2) payload_start_shift [of "length data" es j]
        by (simp add: payload_start_def [of 0 ?es])
      have e: "e_decompSize (es ! j) = pp_size (ps ! j)" "e_checksum (es ! j) = pp_checksum (ps ! j)"
        using lay j(1) k by (metis nth_map)+
      have "take (unat (pp_size (ps ! j))) (drop (payload_start 0 es j) (payload_bytes ps)) = pp_data (ps ! j)"
        using assms(2) j(1) k lay by (intro payload_bytes_slice) auto
      moreover have "pp_checksum (ps ! j) = xxh32 (pp_data (ps ! j))"
        using assms(2) j(1) k by (simp add: prepared_ok_def)
      ultimately show ?thesis unfolding ps using j by (simp add: nth_append e)
    qed
  qed
qed

lemma image_payload:
  assumes "length (h_magic h) = 4" "unat (e_cacheOffset e) = 44 + 20 * length es + length gap + k"
  shows "payload_of (cache_image h es gap data) e = take (unat (e_decompSize e)) (drop k data)"
  using drop_cache_image [OF assms] by (simp add: payload_of_def)

text \<open>
  C26: an append whose three phases succeed leaves a file without a tail that validates in
  the mode the old file did, commits the old entries followed by one entry for each new
  payload, still yields every old payload and yields every new one; what is new is durable.
\<close>

theorem append_commits:
  assumes "vr_ok (Validate (Some old) (length old) (Some ident) mode True)" "length old < 2 ^ 64"
    and "\<forall>p \<in> set ps. prepared_ok p \<and> pp_size p \<le> kMaxPayloadSize"
    and "distinct (map e_startOffset (committed_of old) @ map pp_off ps)"
    and "length ps \<le> unat (h_indexCapacity (load_header old)) - unat (h_entryCount (load_header old))"
    and "content BaseFile d = old"
    and "append_phases b (load_header old) (committed_size old) ps d = (True, d')"
  shows "\<exists>new es. content BaseFile d' = new \<and>
    vr_ok (Validate (Some new) (length new) (Some ident) mode False) \<and>
    committed_of new = committed_of old @ es \<and> map e_startOffset es = map pp_off ps \<and>
    map (payload_of new) es = map pp_data ps \<and>
    (\<forall>e \<in> set (committed_of old). payload_of new e = payload_of old e) \<and>
    (ps \<noteq> [] \<longrightarrow> window BaseFile d' = [new])"
proof -
  let ?h = "load_header old" and ?L = "committed_size old" and ?ces = "committed_of old"
  have acc: "cache_accepted old (Some ident) mode True"
    using assms(1) by (simp add: Validate_ok_iff)
  have prep: "\<forall>p \<in> set ps. prepared_ok p" using assms(3) by simp
  obtain es gap data where lay: "layout_entries (of_nat ?L) ps = Some es"
    and L: "unat (word_of_nat ?L :: u64) = ?L"
    and img: "take ?L old = cache_image ?h ?ces gap data"
    and gap: "20 * length ?ces + length gap = 20 * unat (h_indexCapacity ?h)"
    and data: "length data = sum_list (map (unat \<circ> e_decompSize) ?ces)"
    and new: "content BaseFile d' = cache_image (grown_header ?h (length es)) (?ces @ es)
       (drop (20 * length es) gap) (data @ payload_bytes ps)" (is "_ = ?new")
    and win: "es \<noteq> [] \<longrightarrow> window BaseFile d' = [content BaseFile d']"
    by (rule append_phases_content [OF acc assms(2) prep assms(5-7)])
  have ok: "cache_accepted ?new (Some ident) mode False"
    by (rule appended_image_accepted [OF acc assms(3-5) lay L img gap data])
  have magic: "length (h_magic (grown_header ?h (length es))) = 4"
    using cache_acceptedD(1) [OF acc] by (simp add: header_accepted_def Let_def kMagic_def grown_header_def)
  have len: "length es = length ps" by (rule layout_length [OF lay])
  have hd: "load_header ?new = grown_header ?h (length es)" by (rule load_header_image [OF magic])
  have "header_accepted ?new (Some ident)" by (rule cache_acceptedD(1) [OF ok])
  have cap: "length ?ces + length es \<le> unat (h_indexCapacity ?h)"
    using gap assms(5) len by simp
  have cnt: "unat (h_entryCount (grown_header ?h (length es))) = length (?ces @ es)"
  proof -
    have k: "unat (word_of_nat (length es) :: u32) = length es"
      using cap unat_u32_lt [of "h_indexCapacity ?h"]
      by (simp add: unat_of_nat take_bit_nat_eq_self del: unat_u32_lt)
    then have "unat (h_entryCount ?h) + unat (word_of_nat (length es) :: u32) \<le> unat (h_indexCapacity ?h)"
      using cap by simp
    from unat_add_le [OF this] k show ?thesis by (simp add: grown_header_def)
  qed
  have es': "committed_of ?new = ?ces @ es"
    unfolding hd by (rule committed_entries_image [OF magic cnt])
  note lays = layout_entries_Some [OF lay]
  have base: "44 + 20 * length (?ces @ es) + length (drop (20 * length es) gap) = data_start ?h"
    using gap cap by (simp add: data_start_def sizeof_Header_def sizeof_Entry_def)
  have Lds: "?L = data_start ?h + length data"
    by (simp add: committed_size_eq payload_start_def data)
  have "payload_of ?new (es ! j) = pp_data (ps ! j)" if j: "j < length es" for j
  proof -
    have "unat (e_cacheOffset (es ! j)) = 44 + 20 * length (?ces @ es) + length (drop (20 * length es) gap) +
        (length data + payload_start 0 es j)"
      using lays j L payload_start_shift [of ?L es j] unfolding base by (simp add: Lds)
    from image_payload [OF magic this] have "payload_of ?new (es ! j) =
        take (unat (e_decompSize (es ! j))) (drop (payload_start 0 es j) (payload_bytes ps))" by simp
    moreover have "e_decompSize (es ! j) = pp_size (ps ! j)"
      using lays j len by (metis nth_map)
    ultimately show ?thesis
      using payload_bytes_slice [OF prep, of j es] lays j len by simp
  qed
  then have "map (payload_of ?new) es = map pp_data ps"
    using len by (intro nth_equalityI) simp_all
  moreover have "payload_of ?new e = payload_of old e" if "e \<in> set ?ces" for e
  proof -
    from that obtain i where i: "i < length ?ces" "e = ?ces ! i" by (metis in_set_conv_nth)
    then have ea: "entry_accepted old mode (data_start ?h) ?ces i"
      using cache_acceptedD(2) [OF acc] by simp
    have off: "unat (e_cacheOffset e) = data_start ?h + payload_start 0 ?ces i"
      using ea i payload_start_shift [of "data_start ?h"] by (simp add: entry_accepted_def Let_def)
    have "payload_start 0 ?ces (Suc i) \<le> payload_start 0 ?ces (length ?ces)"
      using i(1) by (intro payload_start_mono) simp
    then have fit: "payload_start 0 ?ces i + unat (e_decompSize e) \<le> length data"
      using i data by (simp add: payload_start_Suc payload_start_def [of 0 ?ces "unat (h_entryCount ?h)"])
    have "payload_of ?new e = take (unat (e_decompSize e)) (drop (payload_start 0 ?ces i) (data @ payload_bytes ps))"
      by (rule image_payload [OF magic]) (simp only: off base)
    also have "\<dots> = take (unat (e_decompSize e)) (drop (payload_start 0 ?ces i) data)"
      using fit by simp
    also have "drop (payload_start 0 ?ces i) data = drop (unat (e_cacheOffset e)) (take ?L old)"
      unfolding img by (rule drop_cache_image [symmetric])
        (use magic gap off in \<open>simp_all add: grown_header_def data_start_def sizeof_Header_def sizeof_Entry_def\<close>)
    also have "take (unat (e_decompSize e)) \<dots> = payload_of old e"
      using fit off Lds by (simp add: payload_of_def drop_take min_absorb1)
    finally show ?thesis .
  qed
  ultimately show ?thesis
    using ok es' lays win len new by (intro exI [of _ ?new] exI [of _ es]) (auto simp: Validate_ok_iff)
qed

section \<open>The rollback\<close>

lemma dk_sys_set_file [simp]: "dk_sys (set_file t f d) = dk_sys d"
  by (cases t) simp_all

lemma dk_sys_change_file [simp]: "dk_sys (change_file t g d) = dk_sys d"
  by (simp add: change_file_def Let_def)

lemma WriteAt_undisturbed:
  assumes "dk_sys d = []" "data \<noteq> []" "length data \<le> kWriteChunk" "off < 2 ^ 63"
  shows "WriteAt t False off data d = (True, change_file t (write_span off data) d)"
  using assms
  by (simp add: WriteAt_def Seek_def sys_call_def next_sys_def write_chunks.simps [of t False off data]
      write_chunks.simps [of t False _ "[]"] Cancelled_def Let_def)

lemma Truncate_undisturbed:
  "dk_sys d = [] \<Longrightarrow> n < 2 ^ 63 \<Longrightarrow> Truncate t n d = (True, change_file t (set_length n) d)"
  by (simp add: Truncate_def Seek_def sys_call_def next_sys_def)

lemma Flush_undisturbed:
  "dk_sys d = [] \<Longrightarrow> FlushFileBuffers t d = (True, set_file t (durable_file (content t d)) d)"
  by (simp add: FlushFileBuffers_def sys_call_def next_sys_def)

text \<open>
  When an append fails before its header was written and the three calls of the rollback
  succeed, the file is durably back to the committed prefix it had, and nothing else.
\<close>

theorem rollback_restores:
  assumes "vr_ok (Validate (Some old) (length old) ident StructuralOnly True)"
    and "length old < 2 ^ 63" "(\<forall>p \<in> set ps. prepared_ok p) \<and> length ps \<le> slots_left old"
    and "dk_base d = Some (durable_file old)"
    and "append_prologue b (load_header old) (committed_size old) ps d = (r, d')"
    and "dk_sys d' = []"
  shows "\<exists>c. dk_base (rollback (load_header old) (committed_size old) d') = Some (durable_file c) \<and>
    take (index_end old) c = take (index_end old) old \<and> length c = committed_size old \<and>
    Validate (Some c) (length c) ident StructuralOnly True =
      Validate (Some old) (length old) ident StructuralOnly True \<and>
    (\<forall>e \<in> set (committed_of old). payload_of c e = payload_of old e)"
proof -
  have acc: "cache_accepted old ident StructuralOnly True"
    using assms(1) by (simp add: Validate_ok_iff)
  let ?L = "committed_size old" and ?h = "load_header old"
  have "the_file BaseFile d = durable_file old" using assms(4) by (simp add: the_file.simps)
  then have "window_inv BaseFile (carries old) d"
    using carries_self [OF acc] by (simp add: window_inv_def durable_file_def)
  from window_invD [OF append_prologue_carries [OF acc _ assms(3) this assms(5)]] assms(2)
  have carr: "carries old (content BaseFile d')" by simp
  have m44: "sizeof_Header \<le> index_end old" by (simp add: index_end_def)
  have old44: "44 \<le> length old"
    using index_end_le [OF acc] m44 by (simp add: sizeof_Header_def)
  have hb: "header_bytes ?h = take 44 (content BaseFile d')"
  proof -
    have "take 44 (content BaseFile d') = take 44 old"
      using carr m44 unfolding carries_def sizeof_Header_def by (metis min.absorb1 take_take)
    then show ?thesis by (simp add: header_bytes_load [OF old44])
  qed
  let ?c = "set_length ?L (content BaseFile d')"
  have len44: "length (header_bytes ?h) = 44" using old44 by (simp add: header_bytes_load)
  then have "header_bytes ?h \<noteq> []" by auto
  have same: "write_span 0 (header_bytes ?h) (content BaseFile d') = content BaseFile d'"
    using len44 \<open>header_bytes ?h \<noteq> []\<close> by (simp add: write_span_def) (simp add: hb)
  have L: "?L < 2 ^ 63" using index_end_le(2) [OF acc] assms(2) by simp
  have "rollback ?h ?L d' = set_file BaseFile (durable_file ?c)
      (change_file BaseFile (set_length ?L) (change_file BaseFile (write_span 0 (header_bytes ?h)) d'))"
    using L len44 \<open>header_bytes ?h \<noteq> []\<close> assms(6)
    by (simp add: rollback_def WriteAt_undisturbed kWriteChunk_def Truncate_undisturbed Flush_undisturbed
        Let_def same)
  then have base: "dk_base (rollback ?h ?L d') = Some (durable_file ?c)" by simp
  have cc: "carries old ?c" using acc carr by (rule carries_truncate)
  then show ?thesis
    using base carries_validates [OF acc cc] carries_payload [OF acc cc]
    by (intro exI [of _ ?c]) (simp add: carries_def)
qed

section \<open>The header write\<close>

lemma crash_image_pair:
  assumes "crash_image [a, b] c" "length a = length b" "sizeof_Header \<le> length a"
    and "drop sizeof_Header a = drop sizeof_Header b"
  shows "c = a \<or> c = b"
proof -
  have len: "length c = length a" using assms(1,2) by (auto simp: crash_image_def)
  have same: "a ! p = b ! p" if "sizeof_Header \<le> p" "p < length a" for p
  proof -
    have "drop sizeof_Header a ! (p - sizeof_Header) = drop sizeof_Header b ! (p - sizeof_Header)"
      using assms(4) by simp
    then show ?thesis using assms(2,3) that by simp
  qed
  have tail: "c ! p = a ! p" if p: "sizeof_Header \<le> p" "p < length a" for p
  proof -
    obtain w where "w \<in> set [a, b]" "c ! p = (if p < length w then w ! p else 0)"
      using assms(1) p(2) len unfolding crash_image_def by metis
    then show ?thesis using same [OF p] p(2) assms(2) by auto
  qed
  have d: "drop sizeof_Header c = drop sizeof_Header a"
    using len tail by (intro nth_equalityI) simp_all
  from assms(1) have "take sizeof_Header c = take sizeof_Header a \<or> take sizeof_Header c = take sizeof_Header b"
    by (auto simp: crash_image_def)
  then show ?thesis
    using d assms(4) by (metis append_take_drop_id)
qed

text \<open>
  Once the payloads and index slots are on the disk, writing the header is the commit
  point: a crash during or after that write leaves either a file that validates exactly as
  before the append or the completely appended file.
\<close>

theorem append_header_atomic:
  assumes "vr_ok (Validate (Some old) (length old) ident StructuralOnly True)"
    and "length old < 2 ^ 64" "(\<forall>p \<in> set ps. prepared_ok p) \<and> length ps \<le> slots_left old"
    and "dk_base d = Some (durable_file old)"
    and "append_prologue b (load_header old) (committed_size old) ps d = (True, d1)"
    and "ps \<noteq> []" "length hb = sizeof_Header" "length hb \<le> kWriteChunk"
    and "WriteAt BaseFile b 0 hb d1 = (True, d2)"
    and "crash_image (window BaseFile d2) c"
  shows "c = content BaseFile d2 \<or>
    Validate (Some c) (length c) ident StructuralOnly True =
      Validate (Some old) (length old) ident StructuralOnly True \<and> committed_of c = committed_of old"
proof -
  have acc: "cache_accepted old ident StructuralOnly True"
    using assms(1) by (simp add: Validate_ok_iff)
  let ?S = "content BaseFile d1"
  have "the_file BaseFile d = durable_file old" using assms(4) by (simp add: the_file.simps)
  then have "window_inv BaseFile (carries old) d"
    using carries_self [OF acc] by (simp add: window_inv_def durable_file_def)
  from window_invD [OF append_prologue_carries [OF acc assms(2,3) this assms(5)]]
  have carr: "carries old ?S" .
  have "sizeof_Header \<le> index_end old" by (simp add: index_end_def)
  then have S44: "sizeof_Header \<le> length ?S"
    using index_end_le(1) [OF acc] carr by (simp add: carries_def)
  have win1: "window BaseFile d1 = [?S]"
  proof -
    obtain e d0 where e: "append_index b (load_header old) e d0 = (True, d1)"
      "e = (case layout_entries (of_nat (committed_size old)) ps of None \<Rightarrow> [] | Some es \<Rightarrow> es)"
      "append_payloads b (committed_size old) ps
         (layout_entries (of_nat (committed_size old)) ps \<noteq> None) d = (True, d0)"
      using assms(5) by (auto simp: append_prologue_def Let_def split: prod.splits bool.splits)
    then have "layout_entries (of_nat (committed_size old)) ps \<noteq> None"
      using append_payloads_unlaid by fastforce
    then have "e \<noteq> []" using e(2) layout_length assms(6) by fastforce
    with append_index_content [OF e(1)] show ?thesis by simp
  qed
  have hb: "hb \<noteq> []" using assms(7) by (auto simp: sizeof_Header_def)
  obtain sk dS where sk: "Seek 0 d1 = (sk, dS)" by force
  obtain cn dC where cn: "Cancelled b dS = (cn, dC)" by force
  obtain o1 dN where o1: "next_sys dC = (o1, dN)" by force
  have steps: "sk" "\<not> cn" "o1 = Succeeds" "d2 = change_file BaseFile (write_span 0 hb) dN"
    using assms(8,9) hb sk cn o1
    by (auto simp: WriteAt_def write_chunks.simps [of BaseFile b 0 hb] write_chunks.simps [of BaseFile b _ "[]"]
        Let_def split: bool.splits outcome.splits)
  have "the_file BaseFile dN = the_file BaseFile d1"
    using Seek_frame [OF sk, of BaseFile] Cancelled_frame [OF cn, of BaseFile]
      next_sys_frame [OF o1, of BaseFile] by simp
  then have win2: "window BaseFile d2 = [?S, write_span 0 hb ?S]" and S2: "content BaseFile d2 = write_span 0 hb ?S"
    using steps(4) win1 by simp_all
  have len: "length (write_span 0 hb ?S) = length ?S"
    using hb S44 assms(7) by (simp add: length_write_span)
  have "drop sizeof_Header ?S = drop sizeof_Header (write_span 0 hb ?S)"
    using hb assms(7) by (simp add: write_span_def)
  from crash_image_pair [OF assms(10) [unfolded win2] len [symmetric] S44 this]
  show ?thesis
  proof
    assume "c = write_span 0 hb ?S" then show ?thesis using S2 by simp
  next
    assume c: "c = ?S"
    show ?thesis
      using carries_validates [OF acc carr] carries_committed(2) [OF acc carr] unfolding c by simp
  qed
qed

section \<open>A fresh file\<close>

lemma index_of_snoc: "index_of base (Suc n) = emplace_entry base (index_of base n) n"
  by (simp add: index_of_def)

text \<open>Distinct start offsets all get their own slot.\<close>

lemma index_of_all:
  "distinct (map e_startOffset (committed_entries base n)) \<Longrightarrow>
     index_of base n = map (\<lambda>i. (e_startOffset (entry_at base i), cached_entry i (entry_at base i))) [0..<n]"
proof (induction n)
  case 0
  then show ?case by (simp add: index_of_def)
next
  case (Suc n)
  have ces: "committed_entries base (Suc n) = committed_entries base n @ [entry_at base n]"
    by (simp add: committed_entries_def)
  with Suc.prems have d: "distinct (map e_startOffset (committed_entries base n))"
    and "e_startOffset (entry_at base n) \<notin> set (map e_startOffset (committed_entries base n))"
    by simp_all
  then have "e_startOffset (entry_at base n) \<notin> fst ` set (index_of base n)"
    by (auto simp: Suc.IH [OF d] committed_entries_def image_image)
  then have "map_of (index_of base n) (e_startOffset (entry_at base n)) = None"
    by (simp add: map_of_eq_None_iff)
  then show ?case
    by (simp add: index_of_snoc emplace_entry_def Let_def Suc.IH [OF d])
qed

lemma index_of_keys:
  "distinct (map e_startOffset (committed_entries base n)) \<Longrightarrow>
     map fst (index_of base n) = map e_startOffset (committed_entries base n)"
  by (simp add: index_of_all committed_entries_def)

lemma index_of_distinct:
  assumes "distinct (map e_startOffset (committed_entries base n))"
  shows "map_of (index_of base n) off = Some ce \<longleftrightarrow>
      (\<exists>i < n. e_startOffset (entry_at base i) = off \<and> ce = cached_entry i (entry_at base i))"
proof -
  have "distinct (map fst (index_of base n))"
    unfolding index_of_keys [OF assms] by (rule assms)
  then show ?thesis by (auto simp: index_of_all [OF assms] dest: map_of_SomeD)
qed

text \<open>The bytes a view serves for a start offset.\<close>

definition serves :: "MappedView \<Rightarrow> (u32 \<times> CachedEntry) list \<Rightarrow> u32 \<Rightarrow> bytes option" where
  "serves v idx off = map_option (\<lambda>ce. take (unat (ce_size ce)) (drop (ce_data ce) (mv_base v))) (map_of idx off)"

definition fresh_image :: "ArchiveIdentity \<Rightarrow> Entry list \<Rightarrow> PreparedPending list \<Rightarrow> bytes" where
  "fresh_image ident es ps =
     cache_image (fresh_header ident (length es)) es
       (replicate (20 * (unat (ai_entryCount ident) - length es)) 0) (payload_bytes ps)"

lemma fresh_identity: "\<not> identity_mismatch (fresh_header ident n) ident"
  by (simp add: identity_mismatch_def fresh_header_def)

lemma fresh_image_accepted:
  assumes "\<forall>p \<in> set ps. prepared_ok p \<and> pp_size p \<le> kMaxPayloadSize" "ps \<noteq> []"
    and "distinct (map pp_off ps)" "length ps \<le> unat (ai_entryCount ident)"
    and "ai_entryCount ident \<le> kMaxIndexCapacity"
    and "layout_entries cursor ps = Some es" "unat cursor = 44 + 20 * unat (ai_entryCount ident)"
  shows "cache_accepted (fresh_image ident es ps) (Some ident) FullPayload False"
    and "committed_of (fresh_image ident es ps) = es"
proof -
  let ?h = "fresh_header ident (length es)" and ?gap = "replicate (20 * (unat (ai_entryCount ident) - length es)) (0 :: u8)"
  note lay = layout_entries_Some [OF assms(6)]
  have len: "length es = length ps" by (rule layout_length [OF assms(6)])
  have magic: "length (h_magic ?h) = 4" by (simp add: fresh_header_def kMagic_def)
  have cnt: "unat (h_entryCount ?h) = length es"
    using assms(4) len unat_u32_lt [of "ai_entryCount ident"]
    by (simp add: fresh_header_def unat_of_nat take_bit_nat_eq_self del: unat_u32_lt)
  have prep: "\<forall>p \<in> set ps. prepared_ok p" using assms(1) by simp
  have ds: "data_start ?h = unat cursor"
    by (simp add: data_start_def fresh_header_def sizeof_Header_def sizeof_Entry_def assms(7))
  show "cache_accepted (fresh_image ident es ps) (Some ident) FullPayload False"
    unfolding fresh_image_def
  proof (rule image_accepted)
    show "length (h_magic ?h) = 4" by (rule magic)
    show "length es = unat (h_entryCount ?h)" by (simp add: cnt)
    show "20 * length es + length ?gap = 20 * unat (h_indexCapacity ?h)"
      using assms(4) len by (simp add: fresh_header_def)
    show "length (payload_bytes ps) = sum_list (map (unat \<circ> e_decompSize) es)"
      using prep layout_sizes [OF assms(6)] by (simp add: payload_bytes_length)
    show "h_magic ?h = kMagic" "h_version ?h = kVersion" "\<not> identity_mismatch ?h ident"
      by (simp_all add: fresh_identity) (simp_all add: fresh_header_def)
    show "\<not> bad_entry_count ?h (Some ident)"
    proof -
      have "0 < length es" using assms(2) len by simp
      moreover from this have "0 < unat (ai_entryCount ident)" using assms(4) len by linarith
      moreover have "h_indexCapacity ?h = ai_entryCount ident" by (simp add: fresh_header_def)
      ultimately show ?thesis
        using cnt assms(4,5) len
        by (auto simp: bad_entry_count_def word_less_nat_alt word_le_nat_alt word_unat_eq_iff [of _ 0])
    qed
    show "distinct (map e_startOffset es)" using assms(3) lay by simp
    fix i assume i: "i < length es"
    have e: "e_decompSize (es ! i) = pp_size (ps ! i)" "e_checksum (es ! i) = pp_checksum (ps ! i)"
      using lay i len by (metis nth_map)+
    have p: "prepared_ok (ps ! i) \<and> pp_size (ps ! i) \<le> kMaxPayloadSize" using assms(1) i len by simp
    then have "0 < pp_size (ps ! i)"
      unfolding prepared_ok_def word_less_nat_alt by (metis length_greater_0_conv unat_0)
    with p lay i show "0 < e_decompSize (es ! i) \<and> e_decompSize (es ! i) \<le> kMaxPayloadSize \<and>
        unat (e_cacheOffset (es ! i)) = payload_start (data_start ?h) es i"
      by (simp add: e ds)
    have "take (unat (pp_size (ps ! i))) (drop (payload_start 0 es i) (payload_bytes ps)) = pp_data (ps ! i)"
      using prep i len lay by (intro payload_bytes_slice) auto
    then show "xxh32 (take (unat (e_decompSize (es ! i))) (drop (payload_start 0 es i) (payload_bytes ps))) =
        e_checksum (es ! i)"
      using p by (simp add: e prepared_ok_def)
  qed
  have hd: "load_header (fresh_image ident es ps) = ?h"
    unfolding fresh_image_def by (rule load_header_image [OF magic])
  show "committed_of (fresh_image ident es ps) = es"
    unfolding hd unfolding fresh_image_def by (rule committed_entries_image [OF magic cnt])
qed

lemma fresh_image_payload:
  assumes "\<forall>p \<in> set ps. prepared_ok p" "layout_entries cursor ps = Some es"
    and "length ps \<le> unat (ai_entryCount ident)"
    and "unat cursor = 44 + 20 * unat (ai_entryCount ident)" "i < length es"
  shows "payload_of (fresh_image ident es ps) (es ! i) = pp_data (ps ! i)"
proof -
  note lay = layout_entries_Some [OF assms(2)]
  have len: "length es = length ps" by (rule layout_length [OF assms(2)])
  have "unat (e_cacheOffset (es ! i)) = 44 + 20 * length es +
      length (replicate (20 * (unat (ai_entryCount ident) - length es)) (0 :: u8)) + payload_start 0 es i"
    using lay assms(3-5) len payload_start_shift [of "unat cursor" es i] by simp
  from image_payload [OF _ this, of "fresh_header ident (length es)"]
  have "payload_of (fresh_image ident es ps) (es ! i) =
      take (unat (e_decompSize (es ! i))) (drop (payload_start 0 es i) (payload_bytes ps))"
    by (simp add: fresh_image_def fresh_header_def kMagic_def)
  moreover have "e_decompSize (es ! i) = pp_size (ps ! i)"
    using lay assms(5) len by (metis nth_map)
  ultimately show ?thesis
    using payload_bytes_slice [OF assms(1), of i es] lay assms(5) len by simp
qed

text \<open>A temp file that was written without a failure holds the image.\<close>

lemma write_temp_base: "write_temp w ds es ps d = (r, d') \<Longrightarrow> dk_base d' = dk_base d"
proof -
  assume a: "write_temp w ds es ps d = (r, d')"
  let ?b = "wk_cancellable w"
  obtain r1 d1 where 1: "WriteAt TempFile ?b 0 (header_bytes (fresh_header (wk_identity w) (length es))) d = (r1, d1)" by force
  obtain r2 d2 where 2: "WriteAt TempFile ?b sizeof_Header (index_bytes es) d1 = (r2, d2)" by force
  obtain r3 d3 where 3: "write_payloads TempFile ?b ds ps d2 = (r3, d3)" by force
  obtain r4 d4 where 4: "Cancelled ?b d3 = (r4, d4)" by force
  obtain r5 d5 where 5: "FlushFileBuffers TempFile d4 = (r5, d5)" by force
  have "dk_base d1 = dk_base d" "dk_base d2 = dk_base d1" "dk_base d3 = dk_base d2"
    "dk_base d4 = dk_base d3" "dk_base d5 = dk_base d4"
    using WriteAt_other [OF 1, of BaseFile] WriteAt_other [OF 2, of BaseFile] write_payloads_other [OF 3, of BaseFile]
      Cancelled_frame [OF 4, of BaseFile] Flush_cases [OF 5, of BaseFile] by simp_all
  with a 1 2 3 4 5 show ?thesis
    by (auto simp: write_temp_def Let_def split: bool.splits)
qed

lemma write_temp_content:
  assumes "write_temp w ds es ps d = (True, d')" "\<forall>p \<in> set ps. prepared_ok p"
    and "dk_temp d = Some (durable_file [])" "ps \<noteq> []"
    and "layout_entries ds ps = Some es"
    and "unat ds = 44 + 20 * unat (ai_entryCount (wk_identity w))"
    and "length ps \<le> unat (ai_entryCount (wk_identity w))"
  shows "\<exists>f. dk_temp d' = Some f \<and> fl_content f = fresh_image (wk_identity w) es ps"
proof -
  let ?b = "wk_cancellable w" and ?h = "fresh_header (wk_identity w) (length es)"
  note lay = layout_entries_Some [OF assms(5)]
  have len: "length es = length ps" by (rule layout_length [OF assms(5)])
  have fit: "unat ds + length (payload_bytes ps) < 2 ^ 64"
    using lay assms(2) layout_sizes [OF assms(5)] by (simp add: payload_start_def payload_bytes_length)
  obtain d1 d2 d3 d4 where 1: "WriteAt TempFile ?b 0 (header_bytes ?h) d = (True, d1)"
    and 2: "WriteAt TempFile ?b sizeof_Header (index_bytes es) d1 = (True, d2)"
    and 3: "write_payloads TempFile ?b ds ps d2 = (True, d3)"
    and 4: "Cancelled ?b d3 = (True, d4) \<and> d' = d4 \<or>
      Cancelled ?b d3 = (False, d4) \<and> FlushFileBuffers TempFile d4 = (True, d')"
    using assms(1) by (auto simp: write_temp_def Let_def split: prod.splits bool.splits)
  have t0: "content TempFile d = []" using assms(3) by (simp add: the_file.simps durable_file_def)
  have "header_bytes ?h \<noteq> []" "length (header_bytes ?h) = 44"
    by (auto simp: fresh_header_def kMagic_def header_bytes_def)
  then have c2: "content TempFile d2 = header_bytes ?h @ index_bytes es"
    using WriteAt_content [OF 1] WriteAt_content [OF 2] by (simp add: t0 write_span_end sizeof_Header_def)
  have c3: "content TempFile d3 = write_span (unat ds) (payload_bytes ps) (header_bytes ?h @ index_bytes es)"
    using write_payloads_content [OF 3 assms(2) fit] c2 by simp
  have "payload_bytes ps \<noteq> []"
    using assms(2,4) by (cases ps) (auto simp: payload_bytes_def prepared_ok_def)
  then have c3: "content TempFile d3 = fresh_image (wk_identity w) es ps"
    using \<open>length (header_bytes ?h) = 44\<close> assms(6,7) len
    by (simp add: c3 write_span_def fresh_image_def cache_image_def diff_mult_distrib2)
  moreover have "content TempFile d' = content TempFile d3"
  proof -
    have "content TempFile d4 = content TempFile d3"
      using 4 by (auto dest!: Cancelled_frame [where t = TempFile])
    moreover have "content TempFile d' = content TempFile d4"
      using 4 by (auto dest!: Flush_cases [where t = TempFile and t' = TempFile])
    ultimately show ?thesis by simp
  qed
  moreover have "fresh_image (wk_identity w) es ps \<noteq> []"
    using \<open>header_bytes ?h \<noteq> []\<close> by (simp add: fresh_image_def cache_image_def)
  ultimately show ?thesis
    by (cases "dk_temp d'") (auto simp: the_file.simps durable_file_def)
qed

lemma MapCommittedFile_base: "MapCommittedFile ident known d = (r, d') \<Longrightarrow> dk_base d' = dk_base d"
proof -
  assume a: "MapCommittedFile ident known d = (r, d')"
  obtain x d1 where x: "sys_calls 2 d = (x, d1)" by force
  obtain y d2 where y: "sys_calls 3 d1 = (y, d2)" by force
  have "dk_base d1 = dk_base d" "dk_base d2 = dk_base d"
    using sys_calls_frame [OF x, of BaseFile] sys_calls_frame [OF y, of BaseFile] by simp_all
  with a x y show ?thesis
    by (auto simp: MapCommittedFile_def Let_def split: option.splits bool.splits if_splits)
qed

text \<open>Mapping an accepted file yields a view of it, indexed by start offset.\<close>

lemma MapCommittedFile_ok:
  assumes "MapCommittedFile ident known d = (r, d')" "ol_ok r"
  shows "\<exists>f v. dk_base d = Some f \<and> ol_view r = Some v \<and> mv_base v = fl_content f \<and>
    cache_accepted (fl_content f) (Some ident) StructuralOnly False \<and>
    mv_size v = length (fl_content f) \<and> mv_committedSize v = committed_size (fl_content f) \<and>
    mv_prefaultedThrough v = 0 \<and> \<not> mv_unusable v \<and>
    mv_verification v = map (\<lambda>e. if e_startOffset e \<in> set known then kVerifyValid else kVerifyUnknown)
      (committed_of (fl_content f)) \<and>
    ol_index r = index_of (fl_content f) (unat (h_entryCount (load_header (fl_content f)))) \<and>
    ol_fileSize r = length (fl_content f)"
proof -
  obtain f where f: "dk_base d = Some f"
    using assms by (auto simp: MapCommittedFile_def ol_failure_def split: option.splits)
  let ?c = "fl_content f"
  have ok: "vr_ok (Validate (Some ?c) (length ?c) (Some ident) StructuralOnly False)"
    using assms f by (auto simp: MapCommittedFile_def ol_failure_def Let_def split: prod.splits bool.splits if_splits)
  then have acc: "cache_accepted ?c (Some ident) StructuralOnly False" by (simp add: Validate_ok_iff)
  have v: "Validate (Some ?c) (length ?c) (Some ident) StructuralOnly False = accepted_result ?c"
    by (rule Validate_accepted [OF acc])
  have h: "vr_header (accepted_result ?c) = load_header ?c" "vr_validSize (accepted_result ?c) = committed_size ?c"
    by (simp_all add: accepted_result_def committed_size_def Let_def)
  show ?thesis
    using assms f acc
    by (auto simp: MapCommittedFile_def ol_failure_def Let_def v h committed_entries_def
        split: prod.splits bool.splits if_splits)
qed

lemma serves_committed:
  assumes "cache_accepted c ident mode allow"
    and "mv_base v = c" "e \<in> set (committed_of c)"
  shows "serves v (index_of c (unat (h_entryCount (load_header c)))) (e_startOffset e) = Some (payload_of c e)"
proof -
  obtain i where i: "i < unat (h_entryCount (load_header c))" "e = entry_at c i"
    using assms(3) by (auto simp: committed_entries_def)
  have "map_of (index_of c (unat (h_entryCount (load_header c)))) (e_startOffset e) = Some (cached_entry i e)"
    using i by (subst index_of_distinct [OF cache_acceptedD(3) [OF assms(1)]]) auto
  then show ?thesis by (simp add: serves_def cached_entry_def payload_of_def assms(2))
qed

text \<open>A fresh write leaves the base file alone or replaces it with a complete image.\<close>

lemma publish_temp_cases:
  assumes "publish_temp w ds es ps d = (r, d')" "\<forall>p \<in> set ps. prepared_ok p" "ps \<noteq> []"
    and "layout_entries ds ps = Some es"
    and "unat ds = 44 + 20 * unat (ai_entryCount (wk_identity w))"
    and "length ps \<le> unat (ai_entryCount (wk_identity w))"
  shows "dk_base d' = dk_base d \<and> \<not> ol_ok r \<or>
    (\<exists>f d3. dk_base d' = Some f \<and> fl_content f = fresh_image (wk_identity w) es ps \<and>
       dk_base d3 = Some f \<and> MapCommittedFile (wk_identity w) (map pp_off ps) d3 = (r, d'))"
proof -
  obtain a d1 where a: "sys_call d = (a, d1)" by force
  let ?d1 = "d1\<lparr>dk_temp := Some (durable_file [])\<rparr>"
  obtain t d2 where t: "write_temp w ds es ps ?d1 = (t, d2)" by force
  obtain m d3 where m: "move_temp d2 = (m, d3)" by force
  have rm: "dk_base (remove_temp x) = dk_base x" for x
  proof -
    obtain s y where s: "sys_call x = (s, y)" by force
    then show ?thesis using sys_call_frame [OF s, of BaseFile] by (cases s) (simp_all add: remove_temp_def)
  qed
  have b: "dk_base d1 = dk_base d" "dk_base d2 = dk_base d1"
    using sys_call_frame [OF a, of BaseFile] write_temp_base [OF t] by simp_all
  show ?thesis
  proof (cases "a \<and> t \<and> m")
    case False
    have "\<not> m \<Longrightarrow> dk_base d3 = dk_base d2"
    proof -
      obtain s y where s: "sys_call d2 = (s, y)" by force
      assume "\<not> m"
      with m s show ?thesis using sys_call_frame [OF s, of BaseFile] by (cases s) (auto simp: move_temp_def)
    qed
    with False assms(1) a t m b show ?thesis
      by (auto simp: publish_temp_def ol_failure_def rm split: bool.splits)
  next
    case True
    obtain f where f: "dk_temp d2 = Some f" "fl_content f = fresh_image (wk_identity w) es ps"
      using write_temp_content [of w ds es ps ?d1 d2] t True assms(2-6) by auto
    obtain s y where s: "sys_call d2 = (s, y)" by force
    have "dk_base d3 = Some f"
      using m True s f sys_call_frame [OF s, of BaseFile] by (cases s) (auto simp: move_temp_def)
    moreover have map: "MapCommittedFile (wk_identity w) (map pp_off ps) d3 = (r, d')"
      using assms(1) a t m True by (simp add: publish_temp_def)
    moreover have "dk_base d' = dk_base d3"
      by (rule MapCommittedFile_base [OF map])
    ultimately show ?thesis using f(2) by auto
  qed
qed

lemma unat_index_bytes: "unat (u64_of_u32 n * of_nat sizeof_Entry) = 20 * unat n"
proof -
  have "unat (u64_of_u32 n) * unat (of_nat sizeof_Entry :: u64) < 2 ^ LENGTH(64)"
    using unat_u32_lt [of n] by (simp add: sizeof_Entry_def del: unat_u32_lt)
  then have "unat (u64_of_u32 n * of_nat sizeof_Entry) = unat (u64_of_u32 n) * unat (of_nat sizeof_Entry :: u64)"
    by (rule unat_mult_lem [THEN iffD1])
  then show ?thesis by (simp add: sizeof_Entry_def)
qed

lemma WriteFreshFile_cases:
  assumes "WriteFreshFile w ps d = (r, d')" "\<forall>p \<in> set ps. prepared_ok p"
  shows "dk_base d' = dk_base d \<and> \<not> ol_ok r \<or>
    (\<exists>f d3 ds es. dk_base d' = Some f \<and> fl_content f = fresh_image (wk_identity w) es ps \<and>
       layout_entries ds ps = Some es \<and> unat ds = 44 + 20 * unat (ai_entryCount (wk_identity w)) \<and>
       ps \<noteq> [] \<and> distinct (map pp_off ps) \<and> length ps \<le> unat (ai_entryCount (wk_identity w)) \<and>
       dk_base d3 = Some f \<and> MapCommittedFile (wk_identity w) (map pp_off ps) d3 = (r, d'))"
proof -
  let ?n = "ai_entryCount (wk_identity w)"
  let ?ib = "u64_of_u32 ?n * of_nat sizeof_Entry"
  note ib = unat_index_bytes [of ?n]
  obtain c d1 where c: "Cancelled (wk_cancellable w) d = (c, d1)" by force
  obtain l d2 where l: "lock_destination d1 = (l, d2)" by force
  have b1: "dk_base d1 = dk_base d" using Cancelled_frame [OF c, of BaseFile] by simp
  have b2: "dk_base d2 = dk_base d1"
  proof -
    obtain x y where x: "sys_call d1 = (x, y)" by force
    obtain u v where u: "sys_call y = (u, v)" by force
    show ?thesis
      using l x u sys_call_frame [OF x, of BaseFile] sys_call_frame [OF u, of BaseFile]
      by (auto simp: lock_destination_def split: option.splits bool.splits)
  qed
  show ?thesis
  proof (cases "ps = [] \<or> length ps > unat ?n \<or> c \<or> \<not> l \<or> \<not> distinct (map pp_off ps)")
    case True
    with assms(1) c l b1 b2 show ?thesis
      by (auto simp: WriteFreshFile_def ol_failure_def Let_def split: bool.splits if_splits)
  next
    case False
    show ?thesis
    proof (cases "AddChecked (of_nat sizeof_Header) ?ib")
      case None
      with assms(1) c l b1 b2 False show ?thesis
        by (auto simp: WriteFreshFile_def ol_failure_def Let_def)
    next
      case (Some ds)
      then have ds: "unat ds = 44 + 20 * unat ?n"
        unfolding AddChecked_Some_iff ib by (simp add: sizeof_Header_def)
      show ?thesis
      proof (cases "layout_entries ds ps")
        case None
        with assms(1) c l b1 b2 False Some show ?thesis
          by (auto simp: WriteFreshFile_def ol_failure_def Let_def)
      next
        case lay: (Some es)
        have pub: "publish_temp w ds es ps d2 = (r, d')"
          using assms(1) c l False Some lay by (auto simp: WriteFreshFile_def Let_def)
        from publish_temp_cases [OF pub assms(2) _ lay ds] False lay ds b1 b2
        show ?thesis by (auto simp: not_less)
      qed
    qed
  qed
qed

text \<open>
  C8: rewriting a cache file is all or nothing.  Whatever fails and whenever it is cancelled,
  the file at the base path is either untouched or one that passes full payload validation
  for the archive; and when the rewrite reports success its view serves, for every payload
  handed to it, exactly those bytes under its start offset.
\<close>

theorem fresh_all_or_nothing:
  assumes "WriteFreshFile w ps d = (r, d')"
    and "\<forall>p \<in> set ps. prepared_ok p \<and> pp_size p \<le> kMaxPayloadSize"
    and "ai_entryCount (wk_identity w) \<le> kMaxIndexCapacity"
  shows "(dk_base d' = dk_base d \<or>
      (\<exists>f. dk_base d' = Some f \<and>
         vr_ok (Validate (Some (fl_content f)) (length (fl_content f)) (Some (wk_identity w)) FullPayload False))) \<and>
    (ol_ok r \<longrightarrow> (\<exists>v. ol_view r = Some v \<and>
       (\<forall>p \<in> set ps. serves v (ol_index r) (pp_off p) = Some (pp_data p))))"
proof -
  have prep: "\<forall>p \<in> set ps. prepared_ok p" using assms(2) by simp
  from WriteFreshFile_cases [OF assms(1) prep] show ?thesis
  proof (elim disjE conjE exE)
    assume "dk_base d' = dk_base d" "\<not> ol_ok r"
    then show ?thesis by simp
  next
    fix f d3 ds es
    assume f: "dk_base d' = Some f" "fl_content f = fresh_image (wk_identity w) es ps"
      and lay: "layout_entries ds ps = Some es" and ds: "unat ds = 44 + 20 * unat (ai_entryCount (wk_identity w))"
      and ne: "ps \<noteq> []" and dist: "distinct (map pp_off ps)"
      and fits: "length ps \<le> unat (ai_entryCount (wk_identity w))"
      and m: "dk_base d3 = Some f" "MapCommittedFile (wk_identity w) (map pp_off ps) d3 = (r, d')"
    note acc = fresh_image_accepted [OF assms(2) ne dist fits assms(3) lay ds]
    have "\<exists>v. ol_view r = Some v \<and> (\<forall>p \<in> set ps. serves v (ol_index r) (pp_off p) = Some (pp_data p))"
      if "ol_ok r"
    proof -
      from MapCommittedFile_ok [OF m(2) that] m(1) obtain v where v: "ol_view r = Some v"
        "mv_base v = fl_content f"
        "ol_index r = index_of (fl_content f) (unat (h_entryCount (load_header (fl_content f))))" by auto
      have "serves v (ol_index r) (pp_off p) = Some (pp_data p)" if p: "p \<in> set ps" for p
      proof -
        from p obtain i where i: "i < length ps" "p = ps ! i" by (metis in_set_conv_nth)
        have len: "length es = length ps" by (rule layout_length [OF lay])
        have off: "e_startOffset (es ! i) = pp_off p"
          using layout_entries_Some [OF lay] i len by (metis nth_map)
        have "es ! i \<in> set (committed_of (fl_content f))"
          using i len by (simp add: f(2) acc(2))
        from serves_committed [OF acc(1) [folded f(2)] v(2) this]
        show ?thesis
          using fresh_image_payload [OF prep lay fits ds, of i] i len by (simp add: v(3) off f(2))
      qed
      with v show ?thesis by blast
    qed
    with f acc(1) show ?thesis by (auto simp: Validate_ok_iff)
  qed
qed

end
