(* ===== verification/CommitProgress.thy ===== *)
theory CommitProgress
  imports CacheCommit
begin

text \<open>
  Progress of the cache-file writers: when no call fails any more and the work cannot be
  cancelled, a write, a payload phase and a whole append run to their end.  An exhausted
  script of outcomes stands for a file system that answers every further call.
\<close>

abbreviation undisturbed :: "disk \<Rightarrow> bool" where
  "undisturbed d \<equiv> dk_sys d = []"

lemma undisturbed_sys_call: "undisturbed d \<Longrightarrow> sys_call d = (True, d)"
  by (simp add: sys_call_def next_sys_def)

lemma undisturbed_sys_calls: "undisturbed d \<Longrightarrow> sys_calls n d = (True, d)"
  by (induction n) (simp_all add: undisturbed_sys_call)

lemma undisturbed_not_cancelled [simp]: "Cancelled False d = (False, d)"
  by (simp add: Cancelled_def)

lemma undisturbed_write_chunks:
  "undisturbed d \<Longrightarrow> \<exists>d'. write_chunks t False off data d = (True, d') \<and> undisturbed d'"
proof (induction "length data" arbitrary: off data d rule: less_induct)
  case less
  show ?case
  proof (cases "data = []")
    case True
    then show ?thesis using less.prems by (simp add: write_chunks.simps [of t False off "[]"])
  next
    case False
    let ?d = "change_file t (write_span off (take kWriteChunk data)) d"
    have "length (drop kWriteChunk data) < length data"
      using False by (simp add: kWriteChunk_def)
    then obtain d' where "write_chunks t False (off + length (take kWriteChunk data))
        (drop kWriteChunk data) ?d = (True, d')" "undisturbed d'"
      using less.hyps [of "drop kWriteChunk data" ?d] less.prems by auto
    then show ?thesis
      using False less.prems
      by (simp add: write_chunks.simps [of t False off data] next_sys_def Let_def)
  qed
qed

lemma undisturbed_WriteAt:
  "undisturbed d \<Longrightarrow> off < 2 ^ 63 \<Longrightarrow> \<exists>d'. WriteAt t False off data d = (True, d') \<and> undisturbed d'"
  using undisturbed_write_chunks [of d t off data]
  by (simp add: WriteAt_def Seek_def undisturbed_sys_call)

lemma undisturbed_Truncate:
  "undisturbed d \<Longrightarrow> n < 2 ^ 63 \<Longrightarrow> \<exists>d'. Truncate t n d = (True, d') \<and> undisturbed d'"
  by (simp add: Truncate_undisturbed)

lemma undisturbed_Flush:
  "undisturbed d \<Longrightarrow> \<exists>d'. FlushFileBuffers t d = (True, d') \<and> undisturbed d'"
  by (simp add: Flush_undisturbed)

lemma undisturbed_write_payloads:
  "undisturbed d \<Longrightarrow> \<forall>p \<in> set ps. prepared_ok p \<Longrightarrow>
   unat cursor + length (payload_bytes ps) < 2 ^ 63 \<Longrightarrow>
   \<exists>d'. write_payloads t False cursor ps d = (True, d') \<and> undisturbed d'"
proof (induction ps arbitrary: cursor d)
  case Nil
  then show ?case by simp
next
  case (Cons p ps)
  have "unat (pp_size p) = length (pp_data p)" and pb: "length (payload_bytes (p # ps)) = length (pp_data p) + length (payload_bytes ps)"
    using Cons.prems(2) by (simp_all add: prepared_ok_def payload_bytes_def)
  moreover obtain d1 where d1: "WriteAt t False (unat cursor) (pp_data p) d = (True, d1)" "undisturbed d1"
    using undisturbed_WriteAt [OF Cons.prems(1), of "unat cursor" t "pp_data p"] Cons.prems(3) by auto
  ultimately have "unat (cursor + u64_of_u32 (pp_size p)) = unat cursor + length (pp_data p)"
    using Cons.prems(3) by (simp add: unat_word_ariths)
  with Cons.IH [OF d1(2), of "cursor + u64_of_u32 (pp_size p)"] Cons.prems(2,3) pb d1
  show ?case by simp
qed

lemma undisturbed_write_flush:
  "undisturbed d \<Longrightarrow> off < 2 ^ 63 \<Longrightarrow>
   \<exists>d1 d2. WriteAt t False off data d = (True, d1) \<and> FlushFileBuffers t d1 = (True, d2) \<and> undisturbed d2"
  using undisturbed_WriteAt undisturbed_Flush by blast

lemma undisturbed_append_payloads:
  assumes "\<forall>p \<in> set ps. prepared_ok p" "n + length (payload_bytes ps) < 2 ^ 63" "undisturbed d"
  shows "\<exists>d'. append_payloads False n ps True d = (True, d') \<and> undisturbed d'"
proof -
  have n: "unat (of_nat n :: u64) = n"
    using assms(2) by (simp add: unat_of_nat take_bit_nat_eq_self)
  obtain d1 where d1: "Truncate BaseFile n d = (True, d1)" "undisturbed d1"
    using undisturbed_Truncate [OF assms(3), of n] assms(2) by auto
  obtain d2 where d2: "write_payloads BaseFile False (of_nat n) ps d1 = (True, d2)" "undisturbed d2"
    using undisturbed_write_payloads [OF d1(2) assms(1), of "of_nat n"] assms(2) n by auto
  obtain d3 where d3: "FlushFileBuffers BaseFile d2 = (True, d3)" "undisturbed d3"
    using undisturbed_Flush [OF d2(2)] by blast
  then show ?thesis by (simp add: append_payloads_def d1 d2)
qed

lemma undisturbed_append_index:
  assumes "undisturbed d"
  shows "\<exists>d'. append_index False h es d = (True, d') \<and> undisturbed d'"
proof -
  have "sizeof_Header + unat (h_entryCount h) * sizeof_Entry < 2 ^ 63"
    using unat_u32_lt [of "h_entryCount h"]
    by (simp add: sizeof_Header_def sizeof_Entry_def del: unat_u32_lt)
  then obtain d1 d2 where "WriteAt BaseFile False (sizeof_Header + unat (h_entryCount h) * sizeof_Entry)
      (index_bytes es) d = (True, d1)" "FlushFileBuffers BaseFile d1 = (True, d2)" "undisturbed d2"
    using undisturbed_write_flush [OF assms] by blast
  then show ?thesis using assms by (simp add: append_index_def)
qed

lemma undisturbed_append_header:
  assumes "undisturbed d"
  shows "\<exists>d'. append_header False h es d = (True, d') \<and> undisturbed d'"
proof -
  let ?h = "header_bytes (h\<lparr>h_entryCount := h_entryCount h + of_nat (length es)\<rparr>)"
  obtain d1 d2 where "WriteAt BaseFile False 0 ?h d = (True, d1)"
    "FlushFileBuffers BaseFile d1 = (True, d2)" "undisturbed d2"
    using undisturbed_write_flush [OF assms, of 0] by fastforce
  then show ?thesis using assms by (simp add: append_header_def Let_def)
qed

text \<open>An append that is not disturbed reaches its header and gets past it.\<close>

lemma undisturbed_append_prologue:
  assumes "layout_entries (of_nat n) ps = Some es" "\<forall>p \<in> set ps. prepared_ok p"
    and "n + length (payload_bytes ps) < 2 ^ 63" "undisturbed d"
  shows "\<exists>d'. append_prologue False h n ps d = (True, d') \<and> undisturbed d'"
proof -
  obtain d1 where d1: "append_payloads False n ps True d = (True, d1)" "undisturbed d1"
    using undisturbed_append_payloads [OF assms(2-4)] by blast
  with undisturbed_append_index [OF d1(2)] show ?thesis
    by (simp add: append_prologue_def assms(1))
qed

text \<open>
  An append does not get stuck: with an uncancelled load and calls that succeed, the three
  phases of an append that fits below the largest file offset run to their end.
\<close>

theorem append_phases_progress:
  assumes "layout_entries (of_nat n) ps = Some es" "\<forall>p \<in> set ps. prepared_ok p"
    and "n + length (payload_bytes ps) < 2 ^ 63"
    and "dk_sys d = []"
  shows "\<exists>d'. append_phases False h n ps d = (True, d') \<and> dk_sys d' = []"
proof -
  obtain d1 where d1: "append_prologue False h n ps d = (True, d1)" "undisturbed d1"
    using undisturbed_append_prologue [OF assms] by blast
  with undisturbed_append_header [OF d1(2)] show ?thesis
    by (simp add: append_phases_prologue assms(1))
qed

section \<open>A fresh file\<close>

lemma layout_entries_fits:
  "unat cursor + sum_list (map (unat \<circ> pp_size) ps) < 2 ^ 64 \<Longrightarrow> \<exists>es. layout_entries cursor ps = Some es"
proof (induction ps arbitrary: cursor)
  case Nil
  then show ?case by simp
next
  case (Cons p ps)
  then obtain c' where c': "AddChecked cursor (u64_of_u32 (pp_size p)) = Some c'"
    by (cases "AddChecked cursor (u64_of_u32 (pp_size p))") (auto simp: AddChecked_None_iff)
  then have "unat c' = unat cursor + unat (pp_size p)" by (simp add: AddChecked_Some_iff)
  with Cons.IH [of c'] Cons.prems c' show ?case by (auto simp: o_def)
qed

lemma undisturbed_write_temp:
  assumes "undisturbed d" "\<not> wk_cancellable w" "\<forall>p \<in> set ps. prepared_ok p"
    and "unat ds + length (payload_bytes ps) < 2 ^ 63"
  shows "\<exists>d'. write_temp w ds es ps d = (True, d') \<and> undisturbed d'"
proof -
  let ?hb = "header_bytes (fresh_header (wk_identity w) (length es))"
  obtain d1 where d1: "WriteAt TempFile False 0 ?hb d = (True, d1)" "undisturbed d1"
    using undisturbed_WriteAt [OF assms(1), of 0] by fastforce
  obtain d2 where d2: "WriteAt TempFile False sizeof_Header (index_bytes es) d1 = (True, d2)" "undisturbed d2"
    using undisturbed_WriteAt [OF d1(2), of sizeof_Header] by (fastforce simp: sizeof_Header_def)
  obtain d3 where d3: "write_payloads TempFile False ds ps d2 = (True, d3)" "undisturbed d3"
    using undisturbed_write_payloads [OF d2(2) assms(3,4)] by blast
  obtain d4 where "FlushFileBuffers TempFile d3 = (True, d4)" "undisturbed d4"
    using undisturbed_Flush [OF d3(2)] by blast
  with d1 d2 d3 assms(2) show ?thesis by (simp add: write_temp_def Let_def)
qed

lemma undisturbed_MapCommittedFile:
  assumes "undisturbed d" "dk_base d = Some f"
    and "cache_accepted (fl_content f) (Some ident) StructuralOnly False"
  shows "\<exists>r. MapCommittedFile ident known d = (r, d) \<and> ol_ok r"
proof -
  have "vr_ok (Validate (Some (fl_content f)) (length (fl_content f)) (Some ident) StructuralOnly False)"
    using assms(3) by (simp add: Validate_ok_iff)
  moreover have "sizeof_Header \<le> length (fl_content f)"
    using cache_acceptedD(1) [OF assms(3)] by (simp add: header_accepted_def sizeof_Header_def Let_def)
  ultimately show ?thesis
    using assms by (simp add: MapCommittedFile_def undisturbed_sys_calls Let_def)
qed

lemma undisturbed_lock_destination: "undisturbed d \<Longrightarrow> lock_destination d = (True, d)"
  by (simp add: lock_destination_def undisturbed_sys_call split: option.splits)

lemma undisturbed_publish_temp:
  assumes "undisturbed d" "\<not> wk_cancellable w" "ps \<noteq> []" "distinct (map pp_off ps)"
    and "\<forall>p \<in> set ps. prepared_ok p \<and> pp_size p \<le> kMaxPayloadSize"
    and "unat ds = 44 + 20 * unat (ai_entryCount (wk_identity w))"
    and "length ps \<le> unat (ai_entryCount (wk_identity w))"
    and "ai_entryCount (wk_identity w) \<le> kMaxIndexCapacity"
    and "layout_entries ds ps = Some es" "unat ds + length (payload_bytes ps) < 2 ^ 63"
  shows "\<exists>r d'. publish_temp w ds es ps d = (r, d') \<and> ol_ok r"
proof -
  let ?d = "d\<lparr>dk_temp := Some (durable_file [])\<rparr>"
  have prep: "\<forall>p \<in> set ps. prepared_ok p" using assms(5) by simp
  obtain d1 where d1: "write_temp w ds es ps ?d = (True, d1)" "undisturbed d1"
    using undisturbed_write_temp [of ?d w ps ds es] assms(1,2,10) prep by auto
  obtain f where f: "dk_temp d1 = Some f" "fl_content f = fresh_image (wk_identity w) es ps"
    using write_temp_content [OF d1(1) prep _ assms(3,9,6,7)] by auto
  let ?d2 = "d1\<lparr>dk_base := Some f, dk_temp := None\<rparr>"
  have mv: "move_temp d1 = (True, ?d2)"
    using d1(2) f(1) by (simp add: move_temp_def undisturbed_sys_call)
  have "cache_accepted (fl_content f) (Some (wk_identity w)) StructuralOnly False"
    using fresh_image_accepted(1) [OF assms(5,3,4,7,8,9,6)] unfolding f(2)
    by (auto simp: cache_accepted_def entry_accepted_def Let_def)
  from undisturbed_MapCommittedFile [OF _ _ this, of ?d2] d1(2)
  obtain r where "MapCommittedFile (wk_identity w) (map pp_off ps) ?d2 = (r, ?d2)" "ol_ok r" by auto
  then show ?thesis by (simp add: publish_temp_def undisturbed_sys_call assms(1) d1(1) mv)
qed

lemma fresh_succeeds:
  assumes "dk_sys d = []" "\<not> wk_cancellable w" "ps \<noteq> []" "distinct (map pp_off ps)"
    and "\<forall>p \<in> set ps. prepared_ok p \<and> pp_size p \<le> kMaxPayloadSize"
    and "length ps \<le> unat (ai_entryCount (wk_identity w))"
    and "ai_entryCount (wk_identity w) \<le> kMaxIndexCapacity"
    and "44 + 20 * unat (ai_entryCount (wk_identity w)) + length (payload_bytes ps) < 2 ^ 63"
  shows "\<exists>r d'. WriteFreshFile w ps d = (r, d') \<and> ol_ok r"
proof -
  let ?n = "ai_entryCount (wk_identity w)"
  let ?ib = "u64_of_u32 ?n * of_nat sizeof_Entry"
  have prep: "\<forall>p \<in> set ps. prepared_ok p" using assms(5) by simp
  have "unat (of_nat sizeof_Header :: u64) + unat ?ib < 2 ^ 64"
    using assms(8) by (simp add: unat_index_bytes sizeof_Header_def)
  then obtain ds where ds: "AddChecked (of_nat sizeof_Header) ?ib = Some ds"
    by (cases "AddChecked (of_nat sizeof_Header) ?ib") (auto simp: AddChecked_None_iff)
  then have ds': "unat ds = 44 + 20 * unat ?n"
    unfolding AddChecked_Some_iff unat_index_bytes by (simp add: sizeof_Header_def)
  have "unat ds + sum_list (map (unat \<circ> pp_size) ps) < 2 ^ 64"
    using assms(8) ds' payload_bytes_length [OF prep] by simp
  then obtain es where es: "layout_entries ds ps = Some es" using layout_entries_fits by blast
  from undisturbed_publish_temp [OF assms(1-5) ds' assms(6,7) es] assms(8) ds'
  show ?thesis
    using assms by (simp add: WriteFreshFile_def undisturbed_lock_destination Cancelled_def Let_def ds es)
qed

text \<open>
  Rewriting a cache file succeeds whenever it may: with an uncancelled load, calls that
  succeed and distinct legal payloads that fit the archive's index, a fresh file is
  published and mapped.
\<close>

theorem fresh_progress:
  assumes "dk_sys d = []" "\<not> wk_cancellable w" "ps \<noteq> []" "distinct (map pp_off ps)"
    and "\<forall>p \<in> set ps. prepared_ok p \<and> pp_size p \<le> kMaxPayloadSize"
    and "length ps \<le> unat (ai_entryCount (wk_identity w))"
    and "ai_entryCount (wk_identity w) \<le> kMaxIndexCapacity"
    and "44 + 20 * unat (ai_entryCount (wk_identity w)) + length (payload_bytes ps) < 2 ^ 63"
  shows "\<exists>r d'. WriteFreshFile w ps d = (r, d') \<and> ol_ok r"
  using assms by (rule fresh_succeeds)

end
