(* ===== verification/CacheLoad.thy ===== *)
theory CacheLoad
  imports CommitProgress
begin

text \<open>
  Opening a cache file at startup (\<open>DecompCache::LoadCacheFile\<close>): validation under the
  writers' lock, removal of the tail an interrupted append left, and the read-only mapping
  that is served.  The lemmas show that a load recovers exactly the committed entries of a
  crashed append.
\<close>

record LoadedFile =
  ld_view :: MappedView
  ld_index :: "(u32 \<times> CachedEntry) list"
  ld_fileSize :: nat
  ld_needsReplacement :: bool

text \<open>A writable handle with the lock, a read-only handle, or none.\<close>

definition open_cache :: "disk \<Rightarrow> bool option \<times> disk" where
  "open_cache d =
     (case sys_call d of
        (True, d1) \<Rightarrow>
          (case sys_call d1 of
             (True, d2) \<Rightarrow> (Some True, d2)
           | (False, d2) \<Rightarrow>
               (case sys_call d2 of (True, d3) \<Rightarrow> (Some False, d3) | (False, d3) \<Rightarrow> (None, d3)))
      | (False, d1) \<Rightarrow>
          (case sys_call d1 of (True, d2) \<Rightarrow> (Some False, d2) | (False, d2) \<Rightarrow> (None, d2)))"

text \<open>The committed prefix of a file with a tail; the flag says that the tail stays.  The
  temporary view is dropped first and a new one is created, which may fail.\<close>

definition trim_tail :: "bool \<Rightarrow> nat \<Rightarrow> disk \<Rightarrow> bool option \<times> disk" where
  "trim_tail writable validSize d =
     (if \<not> writable then (Some True, d)
      else
        (case Truncate BaseFile validSize d of
           (trimmed, d1) \<Rightarrow>
             let d2 = (if trimmed then snd (FlushFileBuffers BaseFile d1) else d1)
             in (case sys_calls 2 d2 of
                   (True, d3) \<Rightarrow> (Some (\<not> trimmed), d3)
                 | (False, d3) \<Rightarrow> (None, d3))))"

definition loaded_file :: "bytes \<Rightarrow> nat \<Rightarrow> nat \<Rightarrow> bool \<Rightarrow> LoadedFile" where
  "loaded_file base validSize n needsReplacement =
     \<lparr>ld_view = \<lparr>mv_base = base, mv_size = length base, mv_committedSize = validSize,
        mv_prefaultedThrough = 0, mv_unusable = False,
        mv_verification = replicate n kVerifyUnknown\<rparr>,
      ld_index = index_of base n, ld_fileSize = length base,
      ld_needsReplacement = needsReplacement\<rparr>"

definition LoadFile :: "ArchiveIdentity \<Rightarrow> disk \<Rightarrow> LoadedFile option \<times> disk" where
  "LoadFile identity d =
     (case dk_base d of
        None \<Rightarrow> (None, d)
      | Some f \<Rightarrow>
          (case open_cache d of
             (None, d1) \<Rightarrow> (None, d1)
           | (Some writable, d1) \<Rightarrow>
               let bytes = fl_content f; fileSize = length bytes in
               (case sys_call d1 of
                  (False, d2) \<Rightarrow> (None, d2)
                | (True, d2) \<Rightarrow>
                    if fileSize < sizeof_Header then (None, d2)
                    else (case sys_calls 3 d2 of
                       (False, d3) \<Rightarrow> (None, d3)
                     | (True, d3) \<Rightarrow>
                         let validation = Validate (Some bytes) fileSize (Some identity) StructuralOnly True;
                             n = unat (h_entryCount (vr_header validation))
                         in if \<not> vr_ok validation then (None, d3)
                            else if vr_validSize validation = fileSize
                            then (Some (loaded_file bytes fileSize n False), d3)
                            else (case trim_tail writable (vr_validSize validation) d3 of
                               (None, d4) \<Rightarrow> (None, d4)
                             | (Some needsReplacement, d4) \<Rightarrow>
                                 (Some (loaded_file (content BaseFile d4) (vr_validSize validation) n
                                    needsReplacement), d4))))))"

lemma Truncate_cases:
  assumes "Truncate t n d = (r, d')"
  shows "content t d' = (if r then set_length n (content t d) else content t d)"
proof -
  obtain s d1 where s: "Seek n d = (s, d1)" by force
  obtain u d2 where u: "sys_call d1 = (u, d2)" by force
  show ?thesis
    using assms s u Seek_frame [OF s, of t] sys_call_frame [OF u, of t]
    by (auto simp: Truncate_def split: bool.splits)
qed

lemma trim_tail_content:
  assumes "trim_tail writable n d = (Some keep, d')" "n \<le> length (content BaseFile d)"
  shows "content BaseFile d' = (if keep then content BaseFile d else take n (content BaseFile d))"
proof (cases writable)
  case False
  with assms show ?thesis by (simp add: trim_tail_def)
next
  case True
  obtain t d1 where t: "Truncate BaseFile n d = (t, d1)" by force
  obtain u d2 where u: "FlushFileBuffers BaseFile d1 = (u, d2)" by force
  define d3 where "d3 = (if t then d2 else d1)"
  obtain v d4 where v: "sys_calls 2 d3 = (v, d4)" by force
  have "content BaseFile d3 = content BaseFile d1"
    using Flush_cases [OF u] by (auto simp: d3_def)
  then have "content BaseFile d4 = content BaseFile d1"
    using sys_calls_frame [OF v, of BaseFile] by simp
  then show ?thesis
    using assms True t u v Truncate_cases [OF t]
    by (auto simp: trim_tail_def d3_def Let_def set_length_def split: bool.splits if_splits)
qed

lemma open_cache_frame: "open_cache d = (r, d') \<Longrightarrow> the_file t d' = the_file t d \<and> dk_base d' = dk_base d"
proof -
  assume o: "open_cache d = (r, d')"
  obtain a d1 where a: "sys_call d = (a, d1)" by force
  obtain b d2 where b: "sys_call d1 = (b, d2)" by force
  obtain c d3 where c: "sys_call d2 = (c, d3)" by force
  show ?thesis
    using o a b c sys_call_frame [OF a, of t] sys_call_frame [OF b, of t] sys_call_frame [OF c, of t]
    by (auto simp: open_cache_def split: bool.splits)
qed

text \<open>A file that carries the committed prefix of another one loads like it.\<close>

lemma take_committed_carries:
  assumes "cache_accepted old ident mode allow"
  shows "carries old (take (committed_size old) old)"
  using index_end_le [OF assms] by (simp add: carries_def min_def)

text \<open>What a loaded file is, relative to the content \<open>old\<close> that was validated.\<close>

definition loads_from :: "bytes \<Rightarrow> LoadedFile \<Rightarrow> bool" where
  "loads_from old l \<longleftrightarrow>
     (let c = mv_base (ld_view l) in
       c = (if ld_needsReplacement l then old else take (committed_size old) old) \<and>
       carries old c \<and>
       ld_index l = index_of c (unat (h_entryCount (load_header c))) \<and>
       mv_committedSize (ld_view l) = committed_size old \<and> mv_prefaultedThrough (ld_view l) = 0 \<and>
       mv_size (ld_view l) = length c \<and> ld_fileSize l = length c \<and> \<not> mv_unusable (ld_view l) \<and>
       mv_verification (ld_view l) = replicate (length (committed_of old)) kVerifyUnknown)"

lemma loads_fromD:
  assumes "loads_from old l"
  shows "carries old (mv_base (ld_view l))"
    and "ld_index l = index_of (mv_base (ld_view l)) (unat (h_entryCount (load_header (mv_base (ld_view l)))))"
    and "mv_verification (ld_view l) = replicate (length (committed_of old)) kVerifyUnknown"
  using assms unfolding loads_from_def Let_def by blast+

lemma LoadFile_ok:
  assumes "LoadFile ident d = (Some l, d')"
  shows "\<exists>f. dk_base d = Some f \<and> cache_accepted (fl_content f) (Some ident) StructuralOnly True \<and>
    loads_from (fl_content f) l"
proof -
  obtain f where f: "dk_base d = Some f"
    using assms by (auto simp: LoadFile_def split: option.splits)
  let ?c = "fl_content f"
  obtain w d1 where w: "open_cache d = (Some w, d1)"
    using assms f by (cases "open_cache d") (auto simp: LoadFile_def split: option.splits)
  obtain a d2 where a: "sys_call d1 = (a, d2)" by force
  obtain b d3 where b: "sys_calls 3 d2 = (b, d3)" by force
  have ok: "a" "\<not> length ?c < sizeof_Header" "b"
    "vr_ok (Validate (Some ?c) (length ?c) (Some ident) StructuralOnly True)"
    using assms f w a b by (auto simp: LoadFile_def Let_def split: bool.splits if_splits)
  then have acc: "cache_accepted ?c (Some ident) StructuralOnly True" by (simp add: Validate_ok_iff)
  have v: "Validate (Some ?c) (length ?c) (Some ident) StructuralOnly True = accepted_result ?c"
    by (rule Validate_accepted [OF acc])
  have h: "vr_header (accepted_result ?c) = load_header ?c" "vr_validSize (accepted_result ?c) = committed_size ?c"
    by (simp_all add: accepted_result_def committed_size_def Let_def)
  have cd3: "content BaseFile d3 = ?c"
    using f open_cache_frame [OF w, of BaseFile] sys_call_frame [OF a, of BaseFile]
      sys_calls_frame [OF b, of BaseFile] by (simp add: the_file.simps)
  have le: "committed_size ?c \<le> length ?c" by (rule index_end_le(2) [OF acc])
  have "\<exists>c keep. c = (if keep then ?c else take (committed_size ?c) ?c) \<and>
    l = loaded_file c (committed_size ?c) (unat (h_entryCount (load_header ?c))) keep"
  proof (cases "committed_size ?c = length ?c")
    case True
    with assms f w a b ok show ?thesis
      by (intro exI [of _ ?c] exI [of _ False]) (auto simp: LoadFile_def Let_def v h split: bool.splits)
  next
    case False
    obtain k d4 where k: "trim_tail w (committed_size ?c) d3 = (k, d4)" by force
    then obtain keep where keep: "k = Some keep"
      "l = loaded_file (content BaseFile d4) (committed_size ?c) (unat (h_entryCount (load_header ?c))) keep"
      using assms f w a b ok False by (auto simp: LoadFile_def Let_def v h split: bool.splits option.splits)
    then have "content BaseFile d4 = (if keep then ?c else take (committed_size ?c) ?c)"
      using trim_tail_content [of w "committed_size ?c" d3 keep d4] k cd3 le by simp
    with keep show ?thesis by blast
  qed
  then obtain c keep where c: "c = (if keep then ?c else take (committed_size ?c) ?c)"
    "l = loaded_file c (committed_size ?c) (unat (h_entryCount (load_header ?c))) keep" by blast
  have carr: "carries ?c c"
    using c(1) carries_self [OF acc] take_committed_carries [OF acc] by (cases keep) simp_all
  show ?thesis
    using f acc c(2) carr carries_committed [OF acc carr] c(1)
    by (intro exI [of _ f]) (simp add: loads_from_def loaded_file_def Let_def)
qed

lemma LoadFile_serves:
  assumes "LoadFile ident d = (Some l, d')" "dk_base d = Some f"
    and "cache_accepted old (Some ident) StructuralOnly True" "carries old (fl_content f)"
  shows "map fst (ld_index l) = map e_startOffset (committed_of old) \<and>
    mv_verification (ld_view l) = replicate (length (committed_of old)) kVerifyUnknown \<and>
    (\<forall>e \<in> set (committed_of old). serves (ld_view l) (ld_index l) (e_startOffset e) = Some (payload_of old e))"
proof -
  let ?f = "fl_content f" and ?c = "mv_base (ld_view l)"
  from LoadFile_ok [OF assms(1)] assms(2)
  have acc: "cache_accepted ?f (Some ident) StructuralOnly True" and l: "loads_from ?f l"
    by simp_all
  note carr = loads_fromD(1) [OF l] and ix = loads_fromD(2) [OF l] and ver = loads_fromD(3) [OF l]
  note f = carries_committed [OF assms(3,4)] and c = carries_committed [OF acc carr]
  have acc_c: "cache_accepted ?c (Some ident) StructuralOnly True"
    using carries_validates [OF acc carr] acc by (simp flip: Validate_ok_iff)
  have "serves (ld_view l) (ld_index l) (e_startOffset e) = Some (payload_of old e)"
    if e: "e \<in> set (committed_of old)" for e
  proof -
    have "e \<in> set (committed_of ?c)" using e unfolding c(2) f(2) .
    from serves_committed [OF acc_c refl this]
    have "serves (ld_view l) (ld_index l) (e_startOffset e) = Some (payload_of ?c e)" unfolding ix .
    also have "payload_of ?c e = payload_of ?f e"
      using e f(2) by (intro carries_payload [OF acc carr]) simp
    also have "payload_of ?f e = payload_of old e" by (rule carries_payload [OF assms(3,4) e])
    finally show ?thesis .
  qed
  moreover have "map fst (ld_index l) = map e_startOffset (committed_of old)"
    using index_of_keys [OF cache_acceptedD(3) [OF acc_c]] unfolding ix c(2) f(2) .
  ultimately show ?thesis using ver unfolding f(2) by blast
qed

lemma LoadFile_undisturbed:
  assumes "dk_sys d = []" "dk_base d = Some f" "length (fl_content f) < 2 ^ 63"
    and "cache_accepted (fl_content f) (Some ident) StructuralOnly True"
  shows "\<exists>l d'. LoadFile ident d = (Some l, d') \<and> \<not> ld_needsReplacement l"
proof -
  let ?c = "fl_content f"
  have o: "open_cache d = (Some True, d)"
    using assms(1) by (simp add: open_cache_def undisturbed_sys_call)
  have v: "Validate (Some ?c) (length ?c) (Some ident) StructuralOnly True = accepted_result ?c"
    by (rule Validate_accepted [OF assms(4)])
  have ok: "vr_ok (accepted_result ?c)" "vr_validSize (accepted_result ?c) = committed_size ?c"
    using assms(4) by (simp_all add: Validate_ok_iff flip: v) (simp add: v accepted_result_def committed_size_def Let_def)
  have len: "\<not> length ?c < sizeof_Header"
    using header_accepted_counts(5) [OF cache_acceptedD(1) [OF assms(4)]] by simp
  have cs: "committed_size ?c < 2 ^ 63"
    using index_end_le(2) [OF assms(4)] assms(3) by simp
  have "\<exists>d'. trim_tail True (committed_size ?c) d = (Some False, d')"
    using assms(1) cs
    by (simp add: trim_tail_def Truncate_undisturbed Flush_undisturbed Let_def undisturbed_sys_calls)
  then show ?thesis
    using assms(1,2) o len ok
    by (auto simp: LoadFile_def undisturbed_sys_call undisturbed_sys_calls Let_def v loaded_file_def
        split: if_splits)
qed


text \<open>
  Loading does not get stuck: when the calls succeed, every file that validates is opened
  writable, trimmed to its committed prefix and mapped, so no replacement is left to do.
\<close>

theorem load_progress:
  assumes "dk_sys d = []" "dk_base d = Some f" "length (fl_content f) < 2 ^ 63"
    and "vr_ok (Validate (Some (fl_content f)) (length (fl_content f)) (Some ident) StructuralOnly True)"
  shows "\<exists>l d'. LoadFile ident d = (Some l, d') \<and> \<not> ld_needsReplacement l"
  using assms by (intro LoadFile_undisturbed) (simp_all add: Validate_ok_iff)

end
