(* ===== verification/DecompDisk.thy ===== *)
theory DecompDisk
  imports DecompState BsaManager CacheLoad
begin

text \<open>
  The disk side of \<open>DecompCache\<close> (Skyrim/src/DecompCache.cpp): the cache directory, its
  accounting, the removal of files no archive uses, and eviction.  The worker and the load
  producers run concurrently, so the load flag may change at every point where the code reads
  it: the values it takes there are a script, as are the outcomes of the calls into the
  operating system; an exhausted script leaves the flag alone and lets calls succeed.
\<close>

section \<open>The directory and its environment\<close>

datatype dir_item = RegularFile cfile | OtherItem

record world =
  wd :: DecompCache
  wd_dir :: "(bytes \<times> dir_item) list"
  wd_loads :: "bool list"
  wd_sys :: "outcome list"
  wd_tempGeneration :: nat
  wd_priorityFile :: "bytes option"

text \<open>What the process environment answers during one operation.\<close>

record host =
  ho_cfg :: CacheSettings
  ho_archives :: "nat \<Rightarrow> MappedArchive"
  ho_lastWrite :: "bytes \<Rightarrow> u64"
  ho_now :: u64
  ho_qpc :: u64
  ho_pid :: nat
  ho_planThrows :: bool
  ho_requeueThrows :: "nat \<Rightarrow> bool"

definition on_cache :: "(DecompCache \<Rightarrow> DecompCache) \<Rightarrow> world \<Rightarrow> world" where
  "on_cache f w = w\<lparr>wd := f (wd w)\<rparr>"

definition load_active :: "world \<Rightarrow> bool \<times> world" where
  "load_active w =
     (case wd_loads w of
        [] \<Rightarrow> (dc_loadActive (wd w), w)
      | b # bs \<Rightarrow> (b, on_cache (\<lambda>s. s\<lparr>dc_loadActive := b\<rparr>) (w\<lparr>wd_loads := bs\<rparr>)))"

definition os_call :: "world \<Rightarrow> bool \<times> world" where
  "os_call w =
     (case wd_sys w of [] \<Rightarrow> (True, w) | r # rs \<Rightarrow> (r = Succeeds, w\<lparr>wd_sys := rs\<rparr>))"

text \<open>File names compare without case.\<close>

definition PathKey :: "bytes \<Rightarrow> bytes" where "PathKey a_path = LowerASCII a_path"

definition dir_find :: "bytes \<Rightarrow> world \<Rightarrow> dir_item option" where
  "dir_find p w = map_option snd (find (\<lambda>(name, item). PathKey name = PathKey p) (wd_dir w))"

definition dir_remove :: "bytes \<Rightarrow> world \<Rightarrow> world" where
  "dir_remove p w = w\<lparr>wd_dir := filter (\<lambda>(name, item). PathKey name \<noteq> PathKey p) (wd_dir w)\<rparr>"

definition dir_put :: "bytes \<Rightarrow> cfile \<Rightarrow> world \<Rightarrow> world" where
  "dir_put p f w =
     (if dir_find p w = None then w\<lparr>wd_dir := wd_dir w @ [(p, RegularFile f)]\<rparr>
      else w\<lparr>wd_dir := map (\<lambda>(name, item).
             (name, if PathKey name = PathKey p then RegularFile f else item)) (wd_dir w)\<rparr>)"

datatype delete_result = Deleted | NotFound | DeleteFailed

definition delete_file :: "bytes \<Rightarrow> world \<Rightarrow> delete_result \<times> world" where
  "delete_file p w =
     (case dir_find p w of
        None \<Rightarrow> (NotFound, w)
      | Some _ \<Rightarrow> (case os_call w of (True, w1) \<Rightarrow> (Deleted, dir_remove p w1)
                                | (False, w1) \<Rightarrow> (DeleteFailed, w1)))"

section \<open>Names\<close>

text \<open>\<open>.decomp\<close>, \<open>.gdcache\<close>, \<open>.decomp.tmp.\<close> and \<open>.tmp.\<close> in ASCII.\<close>

definition decomp_suffix :: bytes where "decomp_suffix = [0x2E, 0x64, 0x65, 0x63, 0x6F, 0x6D, 0x70]"
definition gdcache_suffix :: bytes where "gdcache_suffix = [0x2E, 0x67, 0x64, 0x63, 0x61, 0x63, 0x68, 0x65]"
definition tmp_infix :: bytes where "tmp_infix = [0x2E, 0x74, 0x6D, 0x70, 0x2E]"

definition ends_with :: "bytes \<Rightarrow> bytes \<Rightarrow> bool" where
  "ends_with s t \<longleftrightarrow> length t \<le> length s \<and> drop (length s - length t) s = t"

fun contains :: "bytes \<Rightarrow> bytes \<Rightarrow> bool" where
  "contains [] t \<longleftrightarrow> t = []"
| "contains (c # s) t \<longleftrightarrow> take (length t) (c # s) = t \<or> contains s t"

definition IsCacheFilePath :: "bytes \<Rightarrow> bool" where
  "IsCacheFilePath a_path =
     (let name = LowerASCII a_path
      in ends_with name decomp_suffix \<or> ends_with name gdcache_suffix \<or>
         contains name (decomp_suffix @ tmp_infix))"

text \<open>\<open>path::filename\<close>, after the last separator.\<close>

definition filename :: "bytes \<Rightarrow> bytes" where
  "filename path = rev (takeWhile (\<lambda>c. c \<noteq> 0x2F \<and> c \<noteq> 0x5C) (rev path))"

definition CachePathFor :: "MappedArchive \<Rightarrow> bytes" where
  "CachePathFor a_archive = filename (ma_path a_archive) @ decomp_suffix"

fun decimal :: "nat \<Rightarrow> bytes" where
  "decimal n = (if n < 10 then [0x30 + of_nat n] else decimal (n div 10) @ [0x30 + of_nat (n mod 10)])"

declare decimal.simps [simp del]

definition TempPathFor :: "nat \<Rightarrow> nat \<Rightarrow> bytes \<Rightarrow> bytes" where
  "TempPathFor pid generation a_base =
     a_base @ tmp_infix @ decimal pid @ [0x2E] @ decimal (generation + 1)"

section \<open>Accounting\<close>

definition active_keys :: "DecompCache \<Rightarrow> bytes set" where
  "active_keys s =
     set (map (\<lambda>(archive, cache). PathKey (ac_activePath cache))
       (filter (\<lambda>(archive, cache). ac_activePath cache \<noteq> []) (dc_caches s)))"

definition item_size :: "cfile \<Rightarrow> u64" where "item_size f = of_nat (length (fl_content f))"

datatype scan = ScanDone u64 "bytes list" | ScanError | ScanInterrupted

text \<open>The directory loop: the kind, the size and the step to the next item may fail.\<close>

fun scan_dir :: "bytes set \<Rightarrow> (bytes \<times> dir_item) list \<Rightarrow> u64 \<Rightarrow> bytes list \<Rightarrow> world \<Rightarrow> scan \<times> world" where
  "scan_dir active [] acc unowned w = (ScanDone acc unowned, w)"
| "scan_dir active ((name, item) # items) acc unowned w =
     (case load_active w of
        (True, w1) \<Rightarrow> (ScanInterrupted, w1)
      | (False, w1) \<Rightarrow>
          (case os_call w1 of
             (False, w2) \<Rightarrow> (ScanError, w2)
           | (True, w2) \<Rightarrow>
               (case (case item of
                        OtherItem \<Rightarrow> (Some (acc, unowned), w2)
                      | RegularFile f \<Rightarrow>
                          if \<not> IsCacheFilePath name then (Some (acc, unowned), w2)
                          else (case os_call w2 of
                                  (False, w3) \<Rightarrow> (None, w3)
                                | (True, w3) \<Rightarrow>
                                    (Some (AddSaturating acc (item_size f),
                                       if PathKey name \<in> active then unowned else unowned @ [name]), w3)))
                of (None, w4) \<Rightarrow> (ScanError, w4)
                 | (Some (t, u), w4) \<Rightarrow>
                     (case os_call w4 of
                        (False, w5) \<Rightarrow> (ScanError, w5)
                      | (True, w5) \<Rightarrow> scan_dir active items t u w5))))"

definition clear_unowned :: "DecompCache \<Rightarrow> DecompCache" where
  "clear_unowned s = s\<lparr>dc_unownedFiles := []\<rparr>"

text \<open>A complete scan becomes the authority for the total and releases the committed
  reservations, in one step under the accounting lock.\<close>

definition publish_total :: "u64 \<Rightarrow> bytes list \<Rightarrow> DecompCache \<Rightarrow> DecompCache" where
  "publish_total bytesTotal unowned s =
     (let transferred = dc_committedReservations s;
          s1 = s\<lparr>dc_unownedFiles := unowned, dc_totalCacheBytes := bytesTotal, dc_committedReservations := 0\<rparr>
      in if transferred > 0 then s1\<lparr>dc_pendingBytes := dc_pendingBytes s1 - transferred\<rparr> else s1)"

definition ReconcileDiskAccounting :: "world \<Rightarrow> world" where
  "ReconcileDiskAccounting w =
     (case load_active w of
        (True, w1) \<Rightarrow> w1
      | (False, w1) \<Rightarrow>
          let active = active_keys (wd w1) in
          (case load_active w1 of
             (True, w2) \<Rightarrow> on_cache clear_unowned w2
           | (False, w2) \<Rightarrow>
               (case os_call w2 of
                  (False, w3) \<Rightarrow> on_cache clear_unowned w3
                | (True, w3) \<Rightarrow>
                    (case scan_dir active (wd_dir w3) 0 [] w3 of
                       (ScanDone bytesTotal unowned, w4) \<Rightarrow>
                         (case load_active w4 of
                            (True, w5) \<Rightarrow> on_cache clear_unowned w5
                          | (False, w5) \<Rightarrow> on_cache (publish_total bytesTotal unowned) w5)
                     | (_, w4) \<Rightarrow> on_cache clear_unowned w4))))"

fun remove_files :: "bytes list \<Rightarrow> world \<Rightarrow> world" where
  "remove_files [] w = w"
| "remove_files (p # ps) w =
     (case load_active w of
        (True, w1) \<Rightarrow> w1
      | (False, w1) \<Rightarrow>
          if PathKey p \<in> active_keys (wd w1) then remove_files ps w1
          else remove_files ps (snd (delete_file p w1)))"

definition RemoveUnownedFiles :: "world \<Rightarrow> world" where
  "RemoveUnownedFiles w =
     (case load_active w of
        (True, w1) \<Rightarrow> w1
      | (False, w1) \<Rightarrow> remove_files (dc_unownedFiles (wd w1)) (on_cache clear_unowned w1))"

section \<open>Eviction\<close>

record Candidate =
  cd_archive :: nat
  cd_lastAccess :: u64
  cd_fileLastWrite :: u64
  cd_usedThisSession :: bool

definition candidate_of :: "host \<Rightarrow> bool \<Rightarrow> u64 \<Rightarrow> nat \<times> ArchiveCache \<Rightarrow> Candidate option" where
  "candidate_of h force sessionStart ac =
     (case ac of (archive, cache) \<Rightarrow>
        let rawLast = ac_lastAccessMs cache; effectiveLast = max rawLast sessionStart
        in if ac_view cache = None \<or> ac_activePath cache = [] \<or> ac_bufferedOffsets cache \<noteq> {} then None
           else if force \<or> ho_now h - effectiveLast \<ge> kColdMs then
             Some \<lparr>cd_archive = archive, cd_lastAccess = rawLast,
               cd_fileLastWrite = ho_lastWrite h (ac_activePath cache), cd_usedThisSession = (rawLast \<noteq> 0)\<rparr>
           else None)"

text \<open>Archives not used this session first, oldest file first; then the used ones, least
  recently used first.\<close>

definition sort_candidates :: "Candidate list \<Rightarrow> Candidate list" where
  "sort_candidates cs =
     sort_key cd_fileLastWrite (filter (\<lambda>c. \<not> cd_usedThisSession c) cs) @
     sort_key cd_lastAccess (filter cd_usedThisSession cs)"

text \<open>What remains of a cache whose file is gone.\<close>

definition drop_generation :: "ArchiveCache \<Rightarrow> ArchiveCache" where
  "drop_generation c = c\<lparr>ac_index := [], ac_view := None, ac_activePath := [], ac_onDiskBytes := 0,
     ac_diskInvalidated := False, ac_needsReplacement := False\<rparr>"

fun evict_loop :: "u64 \<Rightarrow> Candidate list \<Rightarrow> u64 \<Rightarrow> u64 \<Rightarrow> nat \<Rightarrow> world \<Rightarrow> nat \<times> u64 \<times> world" where
  "evict_loop targetBytes [] estimated freed evicted w = (evicted, freed, w)"
| "evict_loop targetBytes (cand # cs) estimated freed evicted w =
     (case load_active w of
        (True, w1) \<Rightarrow> (evicted, freed, w1)
      | (False, w1) \<Rightarrow>
          if estimated \<le> targetBytes then (evicted, freed, w1)
          else (case load_active w1 of
             (True, w2) \<Rightarrow> (evicted, freed, w2)
           | (False, w2) \<Rightarrow>
               (case map_of (dc_caches (wd w2)) (cd_archive cand) of
                  None \<Rightarrow> evict_loop targetBytes cs estimated freed evicted w2
                | Some cache \<Rightarrow>
                    if ac_view cache = None \<or> ac_bufferedOffsets cache \<noteq> {} \<or> ac_activePath cache = []
                    then evict_loop targetBytes cs estimated freed evicted w2
                    else (case delete_file (ac_activePath cache) w2 of
                       (Deleted, w3) \<Rightarrow>
                         let removedBytes = ac_onDiskBytes cache
                         in evict_loop targetBytes cs
                              (if removedBytes \<ge> estimated then 0 else estimated - removedBytes)
                              (AddSaturating freed removedBytes) (evicted + 1)
                              (on_cache (next_epoch \<circ> update_cache (cd_archive cand) drop_generation) w3)
                     | (_, w3) \<Rightarrow> evict_loop targetBytes cs estimated freed evicted w3))))"

definition restore_headroom :: "u64 \<Rightarrow> DecompCache \<Rightarrow> DecompCache" where
  "restore_headroom requested s = (if requested = 0 then s else raise_headroom requested s)"

definition publish_ready :: "DecompCache \<Rightarrow> DecompCache" where
  "publish_ready s = s\<lparr>dc_ready := anyUsable s\<rparr>"

text \<open>The part behind the two scans: candidates, the eviction batch and its aftermath.\<close>

definition evict_to_target :: "host \<Rightarrow> bool \<Rightarrow> u64 \<Rightarrow> u64 \<Rightarrow> world \<Rightarrow> world" where
  "evict_to_target h force requestedHeadroom targetBytes w =
     (let s = wd w;
          candidates = sort_candidates
            (List.map_filter (candidate_of h force (dc_sessionStartMs s)) (dc_caches s));
          (evicted, freed, w1) = evict_loop targetBytes candidates (dc_totalCacheBytes s) 0 0 w;
          w2 = (if evicted > 0
                then on_cache (RequestWarmup (ho_cfg h) (ho_qpc h)) (ReconcileDiskAccounting w1)
                else w1);
          remainingBytes = dc_totalCacheBytes (wd w2);
          w3 = (if remainingBytes \<le> targetBytes
                then on_cache (\<lambda>s. s\<lparr>dc_lastOverCapNotifyMs := 0\<rparr>) w2 else w2);
          w4 = (if remainingBytes > targetBytes \<and> requestedHeadroom > 0
                then on_cache (restore_headroom requestedHeadroom) w3 else w3)
      in on_cache publish_ready w4)"

definition EnforceSizeLimit :: "host \<Rightarrow> bool \<Rightarrow> world \<Rightarrow> world" where
  "EnforceSizeLimit h a_forceColdEviction w =
     (let maxBytes = cfg_uDecompCacheMaxBytes (ho_cfg h) in
      if maxBytes = 0 then w
      else case load_active w of
        (True, w1) \<Rightarrow> w1
      | (False, w1) \<Rightarrow>
          let requested = dc_requiredHeadroom (wd w1);
              w2 = on_cache (\<lambda>s. s\<lparr>dc_requiredHeadroom := 0\<rparr>) w1;
              targetBytes = EvictionTarget maxBytes requested;
              restore = on_cache (restore_headroom requested);
              settled = on_cache (\<lambda>s. s\<lparr>dc_lastOverCapNotifyMs := 0\<rparr>)
          in (case load_active (ReconcileDiskAccounting w2) of
                (True, w3) \<Rightarrow> restore w3
              | (False, w3) \<Rightarrow>
                  if dc_totalCacheBytes (wd w3) \<le> targetBytes then settled w3
                  else (case load_active (RemoveUnownedFiles w3) of
                     (True, w4) \<Rightarrow> restore w4
                   | (False, w4) \<Rightarrow>
                       (case load_active (ReconcileDiskAccounting w4) of
                          (True, w5) \<Rightarrow> restore w5
                        | (False, w5) \<Rightarrow>
                            if dc_totalCacheBytes (wd w5) \<le> targetBytes then settled w5
                            else evict_to_target h a_forceColdEviction requested targetBytes w5))))"

end
