(* ===== verification/SourceCache.thy ===== *)
theory SourceCache
  imports BsaManager SectionSelect DecompDisk
begin

text \<open>
  Skyrim/src/Hooks.cpp: the address-space probes, the table that remembers which archive a
  stream source belongs to, and the resolution of a source by the name of its backing
  stream.  The table is an open-addressing hash table of 4096 slots that is never shrunk,
  with a map for the sources that find it full.
\<close>

section \<open>Address-space probes\<close>

text \<open>What \<open>VirtualQuery\<close> reports of an address: a parameter, as are the words of memory.\<close>

record MemoryRegion =
  mr_committed :: bool
  mr_protect :: u32
  mr_base :: u64
  mr_size :: u64

definition PAGE_NOACCESS :: u32 where "PAGE_NOACCESS = 0x01"
definition PAGE_EXECUTE :: u32 where "PAGE_EXECUTE = 0x10"
definition PAGE_EXECUTE_READ :: u32 where "PAGE_EXECUTE_READ = 0x20"
definition PAGE_EXECUTE_READWRITE :: u32 where "PAGE_EXECUTE_READWRITE = 0x40"
definition PAGE_EXECUTE_WRITECOPY :: u32 where "PAGE_EXECUTE_WRITECOPY = 0x80"
definition PAGE_GUARD :: u32 where "PAGE_GUARD = 0x100"

definition IsReadableRange :: "(u64 \<Rightarrow> MemoryRegion option) \<Rightarrow> u64 \<Rightarrow> u64 \<Rightarrow> bool" where
  "IsReadableRange query address n =
     (if address = 0 \<or> n = 0 then False
      else
        let start = address; end = start + n in
        if start < 0x10000 \<or> end < start then False
        else case query address of
          None \<Rightarrow> False
        | Some mbi \<Rightarrow>
            if \<not> mr_committed mbi \<or> mr_protect mbi AND (PAGE_GUARD OR PAGE_NOACCESS) \<noteq> 0 then False
            else
              let regionStart = mr_base mbi; regionEnd = regionStart + mr_size mbi
              in regionEnd \<ge> regionStart \<and> start \<ge> regionStart \<and> end \<le> regionEnd)"

definition IsExecutableAddress :: "(u64 \<Rightarrow> MemoryRegion option) \<Rightarrow> u64 \<Rightarrow> bool" where
  "IsExecutableAddress query address =
     (if address = 0 then False
      else case query address of
        None \<Rightarrow> False
      | Some mbi \<Rightarrow>
          if \<not> mr_committed mbi \<or> mr_protect mbi AND (PAGE_GUARD OR PAGE_NOACCESS) \<noteq> 0 then False
          else mr_protect mbi AND 0xFF \<in>
            {PAGE_EXECUTE, PAGE_EXECUTE_READ, PAGE_EXECUTE_READWRITE, PAGE_EXECUTE_WRITECOPY})"

definition IsInRange :: "u64 \<Rightarrow> u64 \<Rightarrow> u64 \<Rightarrow> u64 \<Rightarrow> bool" where
  "IsInRange address n begin end =
     (let rangeEnd = address + n in address \<ge> begin \<and> rangeEnd \<ge> address \<and> rangeEnd \<le> end)"

text \<open>A readable range lies in the region that was queried, without wrapping.\<close>

lemma IsReadableRangeD:
  assumes "IsReadableRange query address n"
  shows "\<exists>mbi. query address = Some mbi \<and> mr_committed mbi \<and> 0x10000 \<le> unat address \<and> 0 < unat n \<and>
    unat (mr_base mbi) \<le> unat address \<and> unat address + unat n \<le> unat (mr_base mbi) + unat (mr_size mbi)"
proof -
  obtain mbi where m: "query address = Some mbi" "mr_committed mbi" "n \<noteq> 0" "0x10000 \<le> address"
    "address \<le> address + n" "mr_base mbi \<le> mr_base mbi + mr_size mbi" "mr_base mbi \<le> address"
    "address + n \<le> mr_base mbi + mr_size mbi"
    using assms by (auto simp: IsReadableRange_def Let_def not_less split: if_splits option.splits)
  have a: "unat (address + n) = unat address + unat n" using m(5) by (simp add: unat_plus_simple)
  have b: "unat (mr_base mbi + mr_size mbi) = unat (mr_base mbi) + unat (mr_size mbi)"
    using m(6) by (simp add: unat_plus_simple)
  show ?thesis
    using m a b by (auto simp: word_le_nat_alt unat_gt_0)
qed

section \<open>The table\<close>

definition kSourceHashSlots :: nat where "kSourceHashSlots = 4096"
definition kSourceNegativeValidationMs :: u64 where "kSourceNegativeValidationMs = 60 * 1000"
definition kSourceRetryMs :: u64 where "kSourceRetryMs = 5 * 1000"

text \<open>An archive pointer is null, the sentinel of a definitive miss, or an archive of the
  manager, named by its position.\<close>

datatype archive_ptr = NullArchive | NegativeSentinel | ArchiveAt nat

record SourceHashEntry =
  sh_key :: u64
  sh_generation :: u64
  sh_innerStream :: u64
  sh_archive :: archive_ptr
  sh_validUntilMs :: u64

record SourceCacheValue =
  sv_innerStream :: u64
  sv_archive :: archive_ptr
  sv_validUntilMs :: u64

definition empty_slot :: SourceHashEntry where
  "empty_slot = \<lparr>sh_key = 0, sh_generation = 0, sh_innerStream = 0, sh_archive = NullArchive,
     sh_validUntilMs = 0\<rparr>"

record SourceTable =
  st_hash :: "SourceHashEntry list"
  st_overflow :: "u64 \<rightharpoonup> SourceCacheValue"
  st_sourcesResolved :: u64
  st_sourceSemanticMisses :: u64
  st_sourceStructuralBackoffs :: u64

definition empty_table :: SourceTable where
  "empty_table = \<lparr>st_hash = replicate kSourceHashSlots empty_slot, st_overflow = Map.empty,
     st_sourcesResolved = 0, st_sourceSemanticMisses = 0, st_sourceStructuralBackoffs = 0\<rparr>"

definition SourceSlot :: "u64 \<Rightarrow> nat" where
  "SourceSlot source =
     (let key = source XOR drop_bit 17 source; key = key * 0x9E3779B185EBCA87
      in unat (drop_bit 4 key AND 0xFFF))"

text \<open>The probe loop both operations run, \<open>n\<close> probes from a slot on.\<close>

datatype probe_result = AtKey nat | AtEmpty nat | TableFull

fun probe :: "SourceHashEntry list \<Rightarrow> u64 \<Rightarrow> nat \<Rightarrow> nat \<Rightarrow> probe_result" where
  "probe hash key i 0 = TableFull"
| "probe hash key i (Suc n) =
     (let stored = sh_key (hash ! i) in
      if stored = key then AtKey i
      else if stored = 0 then AtEmpty i
      else probe hash key ((i + 1) mod kSourceHashSlots) n)"

text \<open>
  \<open>SourceLookup\<close>.  \<open>inner\<close> is what \<open>TryReadSourceInner\<close> reads, \<open>None\<close> when it fails.  The
  result is \<open>None\<close> when nothing definitive is known, otherwise the archive or null.  A slot is
  read while no insertion changes it, which is what its generation counter checks.  One
  caller that finds an expired miss pushes its deadline forward and probes again.
\<close>

definition SourceLookup :: "u64 option \<Rightarrow> u64 \<Rightarrow> u64 \<Rightarrow> SourceTable \<Rightarrow> nat option option \<times> SourceTable" where
  "SourceLookup inner now source t =
     (if source = 0 then (None, t)
      else case inner of None \<Rightarrow> (None, t)
      | Some currentInner \<Rightarrow>
          (case probe (st_hash t) source (SourceSlot source) kSourceHashSlots of
             AtKey i \<Rightarrow>
               let e = st_hash t ! i in
               if sh_innerStream e \<noteq> currentInner then (None, t)
               else (case sh_archive e of
                   NegativeSentinel \<Rightarrow>
                     if now \<ge> sh_validUntilMs e
                     then (None, t\<lparr>st_hash := (st_hash t)[i := e\<lparr>sh_validUntilMs := now + kSourceRetryMs\<rparr>]\<rparr>)
                     else (Some None, t)
                 | NullArchive \<Rightarrow> (Some None, t)
                 | ArchiveAt a \<Rightarrow> (Some (Some a), t))
           | _ \<Rightarrow>
               (case st_overflow t source of
                  None \<Rightarrow> (None, t)
                | Some v \<Rightarrow>
                    if sv_innerStream v \<noteq> currentInner then (None, t)
                    else (case sv_archive v of
                        NegativeSentinel \<Rightarrow> if now \<ge> sv_validUntilMs v then (None, t) else (Some None, t)
                      | NullArchive \<Rightarrow> (Some None, t)
                      | ArchiveAt a \<Rightarrow> (Some (Some a), t)))))"

definition SourceInsert :: "u64 \<Rightarrow> u64 \<Rightarrow> u64 \<Rightarrow> archive_ptr \<Rightarrow> u64 \<Rightarrow> SourceTable \<Rightarrow> SourceTable" where
  "SourceInsert now source innerStream archive validForMs t =
     (if source = 0 \<or> innerStream = 0 \<or> archive = NullArchive then t
      else
        let validUntil = (if validForMs > u64_max - now then u64_max else now + validForMs) in
        case probe (st_hash t) source (SourceSlot source) kSourceHashSlots of
          AtKey i \<Rightarrow>
            let e = st_hash t ! i in
            if sh_innerStream e = innerStream \<and> sh_archive e \<noteq> NullArchive \<and> sh_archive e \<noteq> NegativeSentinel
            then t
            else t\<lparr>st_hash := (st_hash t)[i := e\<lparr>sh_generation := sh_generation e + 1 + 1,
                   sh_innerStream := innerStream, sh_archive := archive, sh_validUntilMs := validUntil\<rparr>]\<rparr>
        | AtEmpty i \<Rightarrow>
            t\<lparr>st_hash := (st_hash t)[i := (st_hash t ! i)\<lparr>sh_archive := archive,
                 sh_innerStream := innerStream, sh_validUntilMs := validUntil, sh_key := source\<rparr>]\<rparr>
        | TableFull \<Rightarrow>
            (case st_overflow t source of
               Some existing \<Rightarrow>
                 if sv_innerStream existing = innerStream \<and> sv_archive existing \<noteq> NullArchive \<and>
                    sv_archive existing \<noteq> NegativeSentinel
                 then t
                 else t\<lparr>st_overflow := (st_overflow t)(source \<mapsto> \<lparr>sv_innerStream = innerStream,
                        sv_archive = archive, sv_validUntilMs = validUntil\<rparr>)\<rparr>
             | None \<Rightarrow>
                 t\<lparr>st_overflow := (st_overflow t)(source \<mapsto> \<lparr>sv_innerStream = innerStream,
                      sv_archive = archive, sv_validUntilMs = validUntil\<rparr>)\<rparr>))"

section \<open>Resolution\<close>

text \<open>What \<open>DoGetName\<close> of the backing stream answers.\<close>

datatype name_outcome = NameThrows | NameAbsent | NameIs bytes

record process_view =
  pv_query :: "u64 \<Rightarrow> MemoryRegion option"
  pv_word :: "u64 \<Rightarrow> u64"
  pv_faults :: "u64 \<Rightarrow> bool"
  pv_getName :: "u64 \<Rightarrow> u64 \<Rightarrow> name_outcome"
  pv_rdata :: AddressRange
  pv_lookupThrows :: bool
  pv_insertThrows :: bool
  pv_lookupTick :: u64
  pv_insertTick :: u64

definition TryReadSourceInner :: "process_view \<Rightarrow> u64 \<Rightarrow> u64 option" where
  "TryReadSourceInner pv source =
     (if source = 0 \<or> pv_faults pv (source + 0x28) then None
      else let inner = pv_word pv (source + 0x28) in if inner \<noteq> 0 then Some inner else None)"

text \<open>\<open>FindByName\<close> as the position of the archive it points to.\<close>

definition FindIndexByName :: "bytes \<Rightarrow> MemoryMapManager \<Rightarrow> nat option" where
  "FindIndexByName name m =
     (case mm_nameIndex m (LowerASCII name) of
        None \<Rightarrow> None
      | Some idx \<Rightarrow> if unat idx < length (mm_archives m) then Some (unat idx) else None)"

lemma FindByName_index: "FindByName name m = map_option (\<lambda>i. mm_archives m ! i) (FindIndexByName name m)"
  by (simp add: FindByName_def FindIndexByName_def split: option.split)

definition kRequiredVtableEntries :: u64 where "kRequiredVtableEntries = 0x0B"

text \<open>The name the probe gets from the backing stream, \<open>None\<close> if a check or the call fails.\<close>

definition probe_name :: "process_view \<Rightarrow> u64 \<Rightarrow> name_outcome" where
  "probe_name pv innerStream =
     (if \<not> IsReadableRange (pv_query pv) innerStream 8 then NameAbsent
      else
        let innerVtable = pv_word pv innerStream in
        if \<not> (IsInRange innerVtable (kRequiredVtableEntries * 8) (ar_begin (pv_rdata pv)) (ar_end (pv_rdata pv)) \<and>
              IsReadableRange (pv_query pv) innerVtable (kRequiredVtableEntries * 8)) then NameAbsent
        else
          let getNameAddress = pv_word pv (innerVtable + 0x0A * 8) in
          if \<not> IsExecutableAddress (pv_query pv) getNameAddress then NameAbsent
          else pv_getName pv getNameAddress innerStream)"

text \<open>The result of the probe and whether the name query completed.\<close>

definition resolve_by_name :: "process_view \<Rightarrow> MemoryMapManager \<Rightarrow> u64 \<Rightarrow> nat option \<times> bool" where
  "resolve_by_name pv m innerStream =
     (case probe_name pv innerStream of
        NameIs value \<Rightarrow> if value = [] then (None, False) else (FindIndexByName (filename value) m, True)
      | _ \<Rightarrow> (None, False))"

definition ResolveSource :: "process_view \<Rightarrow> MemoryMapManager \<Rightarrow> u64 \<Rightarrow> SourceTable \<Rightarrow>
    nat option \<times> SourceTable" where
  "ResolveSource pv m source t0 =
     (if pv_lookupThrows pv then (None, t0)
      else case SourceLookup (TryReadSourceInner pv source) (pv_lookupTick pv) source t0 of
        (Some cached, t) \<Rightarrow> (cached, t)
      | (None, t) \<Rightarrow>
          if \<not> IsReadableRange (pv_query pv) source 0x30 then (None, t)
          else
            let innerStream = pv_word pv (source + 0x28) in
            case resolve_by_name pv m innerStream of
              (Some a, _) \<Rightarrow>
                let t1 = t\<lparr>st_sourcesResolved := st_sourcesResolved t + 1\<rparr>
                in (Some a, if pv_insertThrows pv then t1
                            else SourceInsert (pv_insertTick pv) source innerStream (ArchiveAt a) u64_max t1)
            | (None, nameProbeCompleted) \<Rightarrow>
                (None,
                 if innerStream = 0 then t
                 else
                   let t1 = (if nameProbeCompleted
                         then t\<lparr>st_sourceSemanticMisses := st_sourceSemanticMisses t + 1\<rparr>
                         else t\<lparr>st_sourceStructuralBackoffs := st_sourceStructuralBackoffs t + 1\<rparr>)
                   in if pv_insertThrows pv then t1
                      else SourceInsert (pv_insertTick pv) source innerStream NegativeSentinel
                        (if nameProbeCompleted then kSourceNegativeValidationMs else kSourceRetryMs) t1))"

end
