(* ===== verification/CasLoop.thy ===== *)
theory CasLoop
  imports FFC_Prelude
begin

text \<open>
  Load / compare-exchange loops on one atomic cell, the shape shared by
  \<open>StreamCursor::detail::ClaimRangeImpl\<close>, \<open>AtomicByteBudget::TryReserve\<close> and
  \<open>AtomicByteBudget::Release\<close>: load the cell, compute from the observed value either a
  result or a new value, and retry from the freshly observed value when the exchange fails
  (which the weak form may also do spuriously).  Any number of threads run such loops;
  every interleaving of their loads and exchanges is a run of the step relation.  The
  history is a ghost variable recording the order in which operations took effect.
\<close>

datatype ('v, 'r) attempt = Return 'r | Exchange 'v 'r

datatype ('v, 'r) pc = Start | Trying 'v 'v 'r | Finished 'r

record ('v, 'r) cas_sys =
  cell :: 'v
  pcs :: "nat \<Rightarrow> ('v, 'r) pc"
  history :: "(nat \<times> 'r) list"

definition cas_init :: "'v \<Rightarrow> ('v, 'r) cas_sys" where
  "cas_init v = \<lparr>cell = v, pcs = (\<lambda>_. Start), history = []\<rparr>"

text \<open>
  What a thread does with a freshly observed value: the local computation does not touch
  the cell, so it is one step with the load.
\<close>

definition cas_load :: "(nat \<Rightarrow> 'v \<Rightarrow> ('v, 'r) attempt) \<Rightarrow> nat \<Rightarrow> ('v, 'r) cas_sys \<Rightarrow> ('v, 'r) cas_sys"
  where
  "cas_load body i s =
     (case body i (cell s) of
        Return r \<Rightarrow> s\<lparr>pcs := (pcs s)(i := Finished r), history := history s @ [(i, r)]\<rparr>
      | Exchange v r \<Rightarrow> s\<lparr>pcs := (pcs s)(i := Trying (cell s) v r)\<rparr>)"

inductive cas_step :: "(nat \<Rightarrow> 'v \<Rightarrow> ('v, 'r) attempt) \<Rightarrow> ('v, 'r) cas_sys \<Rightarrow> ('v, 'r) cas_sys \<Rightarrow> bool"
  for body where
  load: "pcs s i = Start \<Longrightarrow> cas_step body s (cas_load body i s)"
| exchanged: "pcs s i = Trying (cell s) v r \<Longrightarrow>
     cas_step body s (s\<lparr>cell := v, pcs := (pcs s)(i := Finished r), history := history s @ [(i, r)]\<rparr>)"
| retry: "pcs s i = Trying obs v r \<Longrightarrow> cas_step body s (cas_load body i s)"

inductive cas_reach :: "(nat \<Rightarrow> 'v \<Rightarrow> ('v, 'r) attempt) \<Rightarrow> 'v \<Rightarrow> ('v, 'r) cas_sys \<Rightarrow> bool"
  for body v0 where
  init: "cas_reach body v0 (cas_init v0)"
| step: "cas_reach body v0 s \<Longrightarrow> cas_step body s t \<Longrightarrow> cas_reach body v0 t"

inductive_cases cas_stepE: "cas_step body s t"

text \<open>The atomic specification: the operations take effect one after the other.\<close>

fun attempt_value :: "'v \<Rightarrow> ('v, 'r) attempt \<Rightarrow> 'v" where
  "attempt_value v (Return r) = v"
| "attempt_value v (Exchange v' r) = v'"

fun attempt_result :: "('v, 'r) attempt \<Rightarrow> 'r" where
  "attempt_result (Return r) = r"
| "attempt_result (Exchange v' r) = r"

fun seq_run :: "(nat \<Rightarrow> 'v \<Rightarrow> ('v, 'r) attempt) \<Rightarrow> 'v \<Rightarrow> nat list \<Rightarrow> 'v \<times> 'r list" where
  "seq_run body v [] = (v, [])"
| "seq_run body v (i # is) =
     (case seq_run body (attempt_value v (body i v)) is of
        (v', rs) \<Rightarrow> (v', attempt_result (body i v) # rs))"

lemma seq_run_append:
  "seq_run body v (is @ js) =
     (case seq_run body v is of (v', rs) \<Rightarrow>
        (case seq_run body v' js of (v'', rs') \<Rightarrow> (v'', rs @ rs')))"
  by (induction "is" arbitrary: v) (auto split: prod.splits)

lemma seq_run_snoc:
  "seq_run body v is = (v', rs) \<Longrightarrow>
     seq_run body v (is @ [i]) = (attempt_value v' (body i v'), rs @ [attempt_result (body i v')])"
  by (simp add: seq_run_append)

text \<open>
  The invariant: the history is a sequential run that produced the current value, a
  finished thread stands in the history with its result, exactly once, and a thread about
  to exchange holds what its body computes from the value it observed.
\<close>

definition cas_inv :: "(nat \<Rightarrow> 'v \<Rightarrow> ('v, 'r) attempt) \<Rightarrow> 'v \<Rightarrow> ('v, 'r) cas_sys \<Rightarrow> bool" where
  "cas_inv body v0 s \<longleftrightarrow>
     seq_run body v0 (map fst (history s)) = (cell s, map snd (history s)) \<and>
     distinct (map fst (history s)) \<and>
     (\<forall>i r. pcs s i = Finished r \<longleftrightarrow> (i, r) \<in> set (history s)) \<and>
     (\<forall>i obs v r. pcs s i = Trying obs v r \<longrightarrow> body i obs = Exchange v r)"

lemma cas_inv_init: "cas_inv body v0 (cas_init v0)"
  by (simp add: cas_inv_def cas_init_def)

lemma cas_inv_fresh:
  "cas_inv body v0 s \<Longrightarrow> \<forall>r. pcs s i \<noteq> Finished r \<Longrightarrow> i \<notin> fst ` set (history s)"
  by (auto simp: cas_inv_def)

lemma cas_load_inv:
  assumes "cas_inv body v0 s" "\<And>r. pcs s i \<noteq> Finished r"
  shows "cas_inv body v0 (cas_load body i s)"
proof -
  have fresh: "i \<notin> fst ` set (history s)"
    using cas_inv_fresh [OF assms(1)] assms(2) by simp
  show ?thesis
  proof (cases "body i (cell s)")
    case (Return r)
    with assms fresh show ?thesis
      by (auto simp: cas_inv_def cas_load_def seq_run_snoc)
  next
    case (Exchange v r)
    with assms show ?thesis
      by (auto simp: cas_inv_def cas_load_def)
  qed
qed

lemma cas_exchange_inv:
  assumes "cas_inv body v0 s" "pcs s i = Trying (cell s) v r"
  shows "cas_inv body v0
    (s\<lparr>cell := v, pcs := (pcs s)(i := Finished r), history := history s @ [(i, r)]\<rparr>)"
proof -
  have fresh: "i \<notin> fst ` set (history s)"
    using cas_inv_fresh [OF assms(1)] assms(2) by simp
  have "body i (cell s) = Exchange v r"
    using assms by (simp add: cas_inv_def)
  with assms fresh show ?thesis
    by (auto simp: cas_inv_def seq_run_snoc) force
qed

lemma cas_step_inv: "cas_step body s t \<Longrightarrow> cas_inv body v0 s \<Longrightarrow> cas_inv body v0 t"
  by (erule cas_stepE) (auto intro: cas_load_inv cas_exchange_inv)

lemma cas_reach_inv: "cas_reach body v0 s \<Longrightarrow> cas_inv body v0 s"
  by (induction rule: cas_reach.induct) (auto intro: cas_inv_init cas_step_inv)

text \<open>
  Every interleaving of such loops is linearizable.  In any reachable state the
  operations that took effect form a sequential run from the initial value that yields the
  current value and each thread's result.
\<close>

lemma cas_loops_linearizable:
  assumes "cas_reach body v0 s"
  shows "seq_run body v0 (map fst (history s)) = (cell s, map snd (history s)) \<and>
    (pcs s i = Finished r \<longleftrightarrow> (i, r) \<in> set (history s)) \<and> distinct (map fst (history s))"
  using cas_reach_inv [OF assms] by (simp add: cas_inv_def)

text \<open>Thread 0 increments, thread 1's first exchange fails and its retry returns.\<close>

lemma two_threads_reach:
  "cas_reach (\<lambda>i v. if v < (1 :: nat) then Exchange (Suc v) True else Return False) 0
     \<lparr>cell = 1, pcs = (\<lambda>_. Start)(0 := Finished True, 1 := Finished False),
      history = [(0, True), (1, False)]\<rparr>" (is "cas_reach ?b 0 ?t")
proof -
  let ?s0 = "cas_init (0 :: nat)"
  let ?s1 = "cas_load ?b 0 ?s0"
  let ?s2 = "cas_load ?b 1 ?s1"
  let ?s3 = "?s2\<lparr>cell := 1, pcs := (pcs ?s2)(0 := Finished True), history := history ?s2 @ [(0, True)]\<rparr>"
  have "cas_reach ?b 0 ?s1"
    by (rule cas_reach.step [OF cas_reach.init cas_step.load]) (simp add: cas_init_def)
  then have "cas_reach ?b 0 ?s2"
    by (rule cas_reach.step [OF _ cas_step.load]) (simp add: cas_init_def cas_load_def)
  then have "cas_reach ?b 0 ?s3"
    by (rule cas_reach.step [OF _ cas_step.exchanged]) (simp add: cas_init_def cas_load_def)
  then have "cas_reach ?b 0 (cas_load ?b 1 ?s3)"
    by (rule cas_reach.step [OF _ cas_step.retry [where obs = 0 and v = 1 and r = True]])
      (simp add: cas_init_def cas_load_def)
  moreover have "cas_load ?b 1 ?s3 = ?t"
    by (simp add: cas_init_def cas_load_def fun_eq_iff)
  ultimately show ?thesis by simp
qed

text \<open>A cell invariant kept by every sequential operation holds in every interleaving.\<close>

locale cas_client =
  fixes body :: "nat \<Rightarrow> 'v \<Rightarrow> ('v, 'r) attempt"
    and inv :: "'v \<Rightarrow> bool"
  assumes body_inv: "inv v \<Longrightarrow> body i v = Exchange v' r \<Longrightarrow> inv v'"
begin

lemma seq_run_inv: "inv v \<Longrightarrow> seq_run body v is = (v', rs) \<Longrightarrow> inv v'"
proof (induction "is" arbitrary: v rs)
  case (Cons i "is")
  have "inv (attempt_value v (body i v))"
    using Cons.prems(1) body_inv by (cases "body i v") auto
  with Cons show ?case by (auto split: prod.splits)
qed simp

lemma reach_inv: "inv v0 \<Longrightarrow> cas_reach body v0 s \<Longrightarrow> inv (cell s)"
  using seq_run_inv cas_reach_inv [unfolded cas_inv_def] by metis

text \<open>
  Progress: once a thread has observed the current value, its next exchange succeeds, so
  an operation that runs alone finishes in two steps.
\<close>

lemma solo_finishes:
  assumes "pcs s i = Start"
  shows "\<exists>t r. (cas_step body)\<^sup>*\<^sup>* s t \<and> pcs t i = Finished r"
proof (cases "body i (cell s)")
  case (Return r)
  have "cas_step body s (cas_load body i s)" using assms by (rule cas_step.load)
  moreover have "pcs (cas_load body i s) i = Finished r" using Return by (simp add: cas_load_def)
  ultimately show ?thesis by blast
next
  case (Exchange v r)
  let ?s = "cas_load body i s"
  have "cas_step body s ?s" using assms by (rule cas_step.load)
  moreover have "pcs ?s i = Trying (cell ?s) v r" using Exchange by (simp add: cas_load_def)
  then have "cas_step body ?s
      (?s\<lparr>cell := v, pcs := (pcs ?s)(i := Finished r), history := history ?s @ [(i, r)]\<rparr>)"
    by (rule cas_step.exchanged)
  ultimately show ?thesis
    by (intro exI [of _ "?s\<lparr>cell := v, pcs := (pcs ?s)(i := Finished r),
        history := history ?s @ [(i, r)]\<rparr>"] exI [of _ r]) auto
qed

end

end
