(* ===== verification/StreamCursor.thy ===== *)
theory StreamCursor
  imports CasLoop
begin

text \<open>
  Skyrim/src/StreamCursor.h: claiming byte ranges from a 32-bit absolute stream cursor that
  several readers share, and clamped seeks.  The compare-exchange loop of
  \<open>ClaimRangeImpl\<close> is an instance of the loops of CasLoop, so its claims are those of some
  sequential order.
\<close>

section \<open>Claims\<close>

datatype ClaimStatus = kClaimed | kEndOfStream | kInvalid

record RangeClaim =
  rc_status :: ClaimStatus
  rc_absoluteOffset :: u32
  rc_relativeOffset :: u32
  rc_size :: u32

definition invalid_claim :: RangeClaim where
  "invalid_claim = \<lparr>rc_status = kInvalid, rc_absoluteOffset = 0, rc_relativeOffset = 0, rc_size = 0\<rparr>"

definition IsValid :: "RangeClaim \<Rightarrow> bool" where
  "IsValid c \<longleftrightarrow> rc_status c \<noteq> kInvalid"

text \<open>
  One pass of the loop body on an observed cursor.  The range check on the entry itself
  precedes the first load in the code and returns without loading; it does not depend on
  the observed value, so it stands first here too.
\<close>

definition claim_attempt :: "u32 \<Rightarrow> u32 \<Rightarrow> u64 \<Rightarrow> u32 \<Rightarrow> (u32, RangeClaim) attempt" where
  "claim_attempt startOffset totalSize requested observed =
     (let end64 = u64_of_u32 startOffset + u64_of_u32 totalSize in
      if end64 > u64_of_u32 u32_max then Return invalid_claim
      else
        let endOffset = u32_of_u64 end64 in
        if observed < startOffset \<or> observed > endOffset then Return invalid_claim
        else
          let remaining = endOffset - observed;
              size = u32_of_u64 (min requested (u64_of_u32 remaining))
          in if size = 0
             then Return \<lparr>rc_status = (if observed = endOffset then kEndOfStream else kClaimed),
                          rc_absoluteOffset = observed, rc_relativeOffset = observed - startOffset,
                          rc_size = 0\<rparr>
             else Exchange (observed + size)
                    \<lparr>rc_status = kClaimed, rc_absoluteOffset = observed,
                     rc_relativeOffset = observed - startOffset, rc_size = size\<rparr>)"

text \<open>
  \<open>ClaimRange\<close> on a cursor no other thread touches (the callers that hold the stream's
  I/O mutex): one pass, its exchange succeeding at once.
\<close>

definition ClaimRange :: "u32 \<Rightarrow> u32 \<Rightarrow> u32 \<Rightarrow> u64 \<Rightarrow> RangeClaim \<times> u32" where
  "ClaimRange cursor startOffset totalSize requested =
     (let a = claim_attempt startOffset totalSize requested cursor
      in (attempt_result a, attempt_value cursor a))"

text \<open>The cursor field is inside the entry, which does not wrap the 32-bit range.\<close>

definition cursor_ok :: "u32 \<Rightarrow> u32 \<Rightarrow> u32 \<Rightarrow> bool" where
  "cursor_ok startOffset totalSize c \<longleftrightarrow>
     unat startOffset + unat totalSize < 2 ^ 32 \<and> unat startOffset \<le> unat c \<and>
     unat c \<le> unat startOffset + unat totalSize"

lemma end64_unat:
  "unat (u64_of_u32 a + u64_of_u32 b) = unat a + unat b"
proof -
  have "unat a + unat b < 18446744073709551616"
    using unat_u32_lt [of a] unat_u32_lt [of b] by linarith
  then show ?thesis by (subst unat_add_noovf) simp_all
qed

text \<open>What one pass does, in unbounded arithmetic.\<close>

lemma claim_attempt_invalid:
  "\<not> cursor_ok startOffset totalSize c \<Longrightarrow>
     claim_attempt startOffset totalSize requested c = Return invalid_claim"
  by (auto simp: claim_attempt_def cursor_ok_def Let_def word_less_nat_alt end64_unat not_less not_le)

lemma claim_attempt_valid:
  fixes requested :: u64
  assumes "cursor_ok startOffset totalSize c"
  defines "n \<equiv> min (unat requested) (unat startOffset + unat totalSize - unat c)"
  shows "n = 0 \<Longrightarrow> claim_attempt startOffset totalSize requested c =
      Return \<lparr>rc_status = (if unat c = unat startOffset + unat totalSize then kEndOfStream else kClaimed),
              rc_absoluteOffset = c, rc_relativeOffset = c - startOffset, rc_size = 0\<rparr>"
    and "0 < n \<Longrightarrow> claim_attempt startOffset totalSize requested c =
      Exchange (c + word_of_nat n)
        \<lparr>rc_status = kClaimed, rc_absoluteOffset = c, rc_relativeOffset = c - startOffset,
         rc_size = word_of_nat n\<rparr>"
    and "n < 2 ^ 32" "unat c + n < 2 ^ 32"
proof -
  let ?e64 = "u64_of_u32 startOffset + u64_of_u32 totalSize"
  have e: "unat (u32_of_u64 ?e64) = unat startOffset + unat totalSize"
    using assms(1) by (simp add: end64_unat cursor_ok_def)
  have rem: "unat (u32_of_u64 ?e64 - c) = unat startOffset + unat totalSize - unat c"
    using assms(1) e by (simp add: unat_sub_le word_le_nat_alt cursor_ok_def)
  have n: "n = unat (min requested (u64_of_u32 (u32_of_u64 ?e64 - c)))"
    by (simp add: n_def unat_min rem)
  show "n < 2 ^ 32" "unat c + n < 2 ^ 32"
    using assms(1) by (auto simp: n_def cursor_ok_def)
  then have "unat (u32_of_u64 (min requested (u64_of_u32 (u32_of_u64 ?e64 - c)))) = n"
    using n by simp
  then have size: "u32_of_u64 (min requested (u64_of_u32 (u32_of_u64 ?e64 - c))) = word_of_nat n"
    by (rule eq_word_of_nat)
  have z: "(word_of_nat n :: u32) = 0 \<longleftrightarrow> n = 0"
    using \<open>n < 2 ^ 32\<close> by (simp add: word_unat_eq_iff unat_of_nat take_bit_nat_eq_self)
  have c: "\<not> ?e64 > u64_of_u32 u32_max" "\<not> c < startOffset" "\<not> c > u32_of_u64 ?e64"
    using assms(1) by (auto simp: word_less_nat_alt end64_unat cursor_ok_def e)
  have eq: "c = u32_of_u64 ?e64 \<longleftrightarrow> unat c = unat startOffset + unat totalSize"
    by (simp add: word_unat_eq_iff e)
  show "n = 0 \<Longrightarrow> claim_attempt startOffset totalSize requested c =
      Return \<lparr>rc_status = (if unat c = unat startOffset + unat totalSize then kEndOfStream else kClaimed),
              rc_absoluteOffset = c, rc_relativeOffset = c - startOffset, rc_size = 0\<rparr>"
    and "0 < n \<Longrightarrow> claim_attempt startOffset totalSize requested c =
      Exchange (c + word_of_nat n)
        \<lparr>rc_status = kClaimed, rc_absoluteOffset = c, rc_relativeOffset = c - startOffset,
         rc_size = word_of_nat n\<rparr>"
    using c by (simp_all add: claim_attempt_def Let_def size z eq)
qed

lemma ClaimRange_cases:
  "case ClaimRange c startOffset totalSize requested of (cl, c') \<Rightarrow>
     (if cursor_ok startOffset totalSize c then
        IsValid cl \<and> rc_absoluteOffset cl = c \<and>
        unat (rc_relativeOffset cl) = unat c - unat startOffset \<and>
        unat (rc_size cl) = min (unat requested) (unat startOffset + unat totalSize - unat c) \<and>
        unat c' = unat c + unat (rc_size cl) \<and> cursor_ok startOffset totalSize c' \<and>
        (rc_status cl = kEndOfStream \<longleftrightarrow> unat c = unat startOffset + unat totalSize)
      else \<not> IsValid cl \<and> c' = c)"
proof (cases "cursor_ok startOffset totalSize c")
  case False
  then show ?thesis
    by (simp add: ClaimRange_def claim_attempt_invalid IsValid_def invalid_claim_def)
next
  case True
  note v = claim_attempt_valid [OF True, of requested]
  have rel: "unat (c - startOffset) = unat c - unat startOffset"
    using True by (simp add: cursor_ok_def unat_sub_le word_le_nat_alt)
  let ?n = "min (unat requested) (unat startOffset + unat totalSize - unat c)"
  show ?thesis
  proof (cases "?n = 0")
    case True
    with \<open>cursor_ok startOffset totalSize c\<close> v(1) rel show ?thesis
      by (auto simp: ClaimRange_def IsValid_def)
  next
    case False
    have s: "unat (word_of_nat ?n :: u32) = ?n"
      using v(3) by (simp add: unat_of_nat take_bit_nat_eq_self)
    moreover have "unat (c + word_of_nat ?n) = unat c + ?n"
      using v(4) s by (subst unat_add_noovf) simp_all
    moreover have "unat c + ?n \<le> unat startOffset + unat totalSize"
      using \<open>cursor_ok startOffset totalSize c\<close> by (auto simp: cursor_ok_def)
    ultimately show ?thesis
      using False \<open>cursor_ok startOffset totalSize c\<close> v(2) rel
      by (auto simp: ClaimRange_def IsValid_def cursor_ok_def)
  qed
qed

text \<open>
  A claim on a cursor inside its entry takes the smaller of the request and what is left,
  starts at the cursor and moves it past the claimed bytes; a cursor outside the entry, or an
  entry that wraps the 32-bit offsets, gives an invalid claim and leaves the cursor alone.
\<close>

theorem ClaimRange_spec:
  "case ClaimRange c startOffset totalSize requested of (cl, c') \<Rightarrow>
     (if cursor_ok startOffset totalSize c then
        IsValid cl \<and> rc_absoluteOffset cl = c \<and>
        unat (rc_relativeOffset cl) = unat c - unat startOffset \<and>
        unat (rc_size cl) = min (unat requested) (unat startOffset + unat totalSize - unat c) \<and>
        unat c' = unat c + unat (rc_size cl) \<and> cursor_ok startOffset totalSize c' \<and>
        (rc_status cl = kEndOfStream \<longleftrightarrow> unat c = unat startOffset + unat totalSize)
      else \<not> IsValid cl \<and> c' = c)"
  by (rule ClaimRange_cases)

section \<open>Concurrent claims\<close>

text \<open>Thread \<open>i\<close> asks for \<open>requests i\<close> bytes of the same entry.\<close>

definition claim_body :: "u32 \<Rightarrow> u32 \<Rightarrow> (nat \<Rightarrow> u64) \<Rightarrow> nat \<Rightarrow> u32 \<Rightarrow> (u32, RangeClaim) attempt" where
  "claim_body startOffset totalSize requests i = claim_attempt startOffset totalSize (requests i)"

lemma claim_body_ClaimRange:
  "attempt_result (claim_body so ts rq i c) = fst (ClaimRange c so ts (rq i))"
  "attempt_value c (claim_body so ts rq i c) = snd (ClaimRange c so ts (rq i))"
  by (simp_all add: claim_body_def ClaimRange_def Let_def)

interpretation claims: cas_client "claim_body so ts rq" "cursor_ok so ts"
proof
  fix v i v' r
  assume "cursor_ok so ts v" and ex: "claim_body so ts rq i v = Exchange v' r"
  with ClaimRange_cases [where c = v and startOffset = so and totalSize = ts and requested = "rq i"] show "cursor_ok so ts v'"
    by (simp add: ClaimRange_def claim_body_def)
qed

text \<open>The claims of a sequential run, and where each begins.\<close>

fun claims_tile :: "nat \<Rightarrow> RangeClaim list \<Rightarrow> nat \<Rightarrow> bool" where
  "claims_tile a [] b \<longleftrightarrow> a = b"
| "claims_tile a (c # cs) b \<longleftrightarrow>
     unat (rc_absoluteOffset c) = a \<and> claims_tile (a + unat (rc_size c)) cs b"

lemma seq_claims_tile:
  "cursor_ok so ts c \<Longrightarrow> seq_run (claim_body so ts rq) c is = (c', cs) \<Longrightarrow>
     claims_tile (unat c) cs (unat c')"
proof (induction "is" arbitrary: c cs)
  case (Cons i "is")
  let ?a = "ClaimRange c so ts (rq i)"
  from Cons.prems(2) obtain cs' where
    run: "seq_run (claim_body so ts rq) (snd ?a) is = (c', cs')" and cs: "cs = fst ?a # cs'"
    by (auto simp: claim_body_ClaimRange split: prod.splits)
  have spec: "rc_absoluteOffset (fst ?a) = c" "unat (snd ?a) = unat c + unat (rc_size (fst ?a))"
    "cursor_ok so ts (snd ?a)"
    using ClaimRange_cases [where c = c and startOffset = so and totalSize = ts and requested = "rq i"] Cons.prems(1) by (auto simp: split_beta)
  from Cons.IH [OF spec(3) run] show ?case by (simp add: cs spec(1) flip: spec(2))
qed simp

lemma claims_tile_le: "claims_tile a cs b \<Longrightarrow> a \<le> b"
  by (induction cs arbitrary: a) (auto dest: add_leD1)

lemma claims_tile_after:
  "claims_tile a cs b \<Longrightarrow> c \<in> set cs \<Longrightarrow>
     a \<le> unat (rc_absoluteOffset c) \<and> unat (rc_absoluteOffset c) + unat (rc_size c) \<le> b"
  by (induction cs arbitrary: a) (fastforce dest: claims_tile_le)+

lemma claims_tile_after_pair:
  "claims_tile a (map snd h) b \<Longrightarrow> (j, d) \<in> set h \<Longrightarrow> a \<le> unat (rc_absoluteOffset d)"
  using claims_tile_after [of a "map snd h" b d] by force

lemma claims_tile_disjoint:
  "claims_tile a (map snd h) b \<Longrightarrow> distinct (map fst h) \<Longrightarrow> (i, c) \<in> set h \<Longrightarrow> (j, d) \<in> set h \<Longrightarrow>
     i \<noteq> j \<Longrightarrow>
     unat (rc_absoluteOffset c) + unat (rc_size c) \<le> unat (rc_absoluteOffset d) \<or>
     unat (rc_absoluteOffset d) + unat (rc_size d) \<le> unat (rc_absoluteOffset c)"
proof (induction h arbitrary: a)
  case (Cons x h)
  then show ?case
    by (cases x) (auto dest: claims_tile_after_pair)
qed simp

text \<open>
  C21: however the loads and compare-exchanges of concurrent readers interleave, the claims
  that took effect tile the bytes from the initial to the current cursor in some order, the
  cursor stays inside the entry, and two readers never receive a common byte.
\<close>

theorem concurrent_claims_disjoint:
  assumes "cursor_ok so ts c0" "cas_reach (claim_body so ts rq) c0 s"
  shows "claims_tile (unat c0) (map snd (history s)) (unat (cell s)) \<and> cursor_ok so ts (cell s) \<and>
    (\<forall>i j c d. i \<noteq> j \<longrightarrow> pcs s i = Finished c \<longrightarrow> pcs s j = Finished d \<longrightarrow>
       unat (rc_absoluteOffset c) + unat (rc_size c) \<le> unat (rc_absoluteOffset d) \<or>
       unat (rc_absoluteOffset d) + unat (rc_size d) \<le> unat (rc_absoluteOffset c))"
proof -
  note lin = cas_loops_linearizable [OF assms(2)]
  have tile: "claims_tile (unat c0) (map snd (history s)) (unat (cell s))"
    using seq_claims_tile [OF assms(1)] lin by blast
  moreover have "cursor_ok so ts (cell s)"
    using assms by (rule claims.reach_inv)
  ultimately show ?thesis
    using claims_tile_disjoint [OF tile] lin by blast
qed

text \<open>Reader 0 claims four bytes at 100, then reader 1 claims the four bytes after them.\<close>

lemma concurrent_claims_disjoint_witness:
  "\<exists>s. cas_reach (claim_body 100 50 (\<lambda>_. 4)) 100 s \<and> unat (cell s) = 108 \<and>
     pcs s 0 \<noteq> Start \<and> pcs s 1 \<noteq> Start \<and>
     (\<forall>c d. pcs s 0 = Finished c \<longrightarrow> pcs s 1 = Finished d \<longrightarrow>
       unat (rc_absoluteOffset c) + unat (rc_size c) \<le> unat (rc_absoluteOffset d) \<or>
       unat (rc_absoluteOffset d) + unat (rc_size d) \<le> unat (rc_absoluteOffset c))"
proof -
  let ?b = "claim_body 100 50 (\<lambda>_. 4)"
  let ?r0 = "\<lparr>rc_status = kClaimed, rc_absoluteOffset = 100, rc_relativeOffset = 0, rc_size = 4\<rparr>"
  let ?r1 = "\<lparr>rc_status = kClaimed, rc_absoluteOffset = 104, rc_relativeOffset = 4, rc_size = 4\<rparr>"
  have ok: "cursor_ok 100 50 100" by (simp add: cursor_ok_def)
  have b0: "?b i 100 = Exchange 104 ?r0" and b1: "?b i 104 = Exchange 108 ?r1" for i
    by (simp_all add: claim_body_def claim_attempt_def u64_of_u32_max [unfolded u64_of_u32_def] u64_of_u32_def u32_of_u64_def)
  let ?s1 = "cas_load ?b 0 (cas_init 100)"
  let ?s2 = "?s1\<lparr>cell := 104, pcs := (pcs ?s1)(0 := Finished ?r0), history := history ?s1 @ [(0, ?r0)]\<rparr>"
  let ?s3 = "cas_load ?b 1 ?s2"
  let ?s4 = "?s3\<lparr>cell := 108, pcs := (pcs ?s3)(1 := Finished ?r1), history := history ?s3 @ [(1, ?r1)]\<rparr>"
  have "cas_reach ?b 100 ?s1"
    by (rule cas_reach.step [OF cas_reach.init cas_step.load]) (simp add: cas_init_def)
  then have "cas_reach ?b 100 ?s2"
    by (rule cas_reach.step [OF _ cas_step.exchanged]) (simp add: cas_init_def cas_load_def b0)
  then have "cas_reach ?b 100 ?s3"
    by (rule cas_reach.step [OF _ cas_step.load]) (simp add: cas_init_def cas_load_def b0)
  then have r: "cas_reach ?b 100 ?s4"
    by (rule cas_reach.step [OF _ cas_step.exchanged]) (simp add: cas_init_def cas_load_def b0 b1)
  have pcs: "cell ?s4 = 108" "pcs ?s4 0 = Finished ?r0" "pcs ?s4 1 = Finished ?r1"
    by (simp_all add: cas_init_def cas_load_def b0 b1)
  from concurrent_claims_disjoint [OF ok r] pcs show ?thesis
    using r by (intro exI [of _ ?s4]) auto
qed

section \<open>Clamped seeks\<close>

text \<open>
  The last constructor stands for a value of the enumeration's underlying type that no
  enumerator names, the \<open>default:\<close> of the switch.
\<close>

datatype SeekOrigin = kBegin | kCurrent | kEnd | kUnnamedOrigin

record SeekResult =
  sr_valid :: bool
  sr_absoluteOffset :: u32
  sr_relativeOffset :: u32

definition invalid_seek :: SeekResult where
  "invalid_seek = \<lparr>sr_valid = False, sr_absoluteOffset = 0, sr_relativeOffset = 0\<rparr>"

fun seek_base :: "SeekOrigin \<Rightarrow> u32 \<Rightarrow> u32 \<Rightarrow> u32 \<Rightarrow> u64 option" where
  "seek_base kBegin current startOffset totalSize = Some 0"
| "seek_base kCurrent current startOffset totalSize = Some (u64_of_u32 (current - startOffset))"
| "seek_base kEnd current startOffset totalSize = Some (u64_of_u32 totalSize)"
| "seek_base kUnnamedOrigin current startOffset totalSize = None"

text \<open>The signed displacement is a 64-bit word read by \<open>sint\<close>; negation and \<open>+ 1\<close> are the
  machine's.\<close>

definition seek_relative :: "u64 \<Rightarrow> u32 \<Rightarrow> u64 \<Rightarrow> u64" where
  "seek_relative base totalSize displacement =
     (let whole = u64_of_u32 totalSize in
      if 0 \<le> sint displacement then
        (if displacement > whole - min base whole then whole else base + displacement)
      else
        (let magnitude = - (displacement + 1) + 1 in
         if magnitude > base then 0 else base - magnitude))"

definition ClampSeek :: "u32 \<Rightarrow> u32 \<Rightarrow> u32 \<Rightarrow> u64 \<Rightarrow> SeekOrigin \<Rightarrow> SeekResult" where
  "ClampSeek currentAbsolute startOffset totalSize displacement origin =
     (let end64 = u64_of_u32 startOffset + u64_of_u32 totalSize in
      if end64 > u64_of_u32 u32_max \<or> currentAbsolute < startOffset \<or>
         u64_of_u32 currentAbsolute > end64
      then invalid_seek
      else case seek_base origin currentAbsolute startOffset totalSize of
        None \<Rightarrow> invalid_seek
      | Some base \<Rightarrow>
          let relative = min (seek_relative base totalSize displacement) (u64_of_u32 totalSize)
          in \<lparr>sr_valid = True,
              sr_absoluteOffset = u32_of_u64 (u64_of_u32 startOffset + relative),
              sr_relativeOffset = u32_of_u64 relative\<rparr>)"

text \<open>What a seek means: the base plus the signed displacement, clamped to the entry.\<close>

definition clamp_int :: "int \<Rightarrow> nat \<Rightarrow> nat" where
  "clamp_int x n = min (nat x) n"

fun base_of :: "SeekOrigin \<Rightarrow> nat \<Rightarrow> nat \<Rightarrow> nat" where
  "base_of kBegin relative whole = 0"
| "base_of kCurrent relative whole = relative"
| "base_of kEnd relative whole = whole"
| "base_of kUnnamedOrigin relative whole = 0"

lemma seek_base_of:
  assumes "cursor_ok startOffset totalSize c" "origin \<noteq> kUnnamedOrigin"
  shows "\<exists>b. seek_base origin c startOffset totalSize = Some b \<and>
    unat b = base_of origin (unat c - unat startOffset) (unat totalSize) \<and> unat b \<le> unat totalSize"
  using assms by (cases origin) (auto simp: cursor_ok_def unat_sub_le word_le_nat_alt)

lemma uint_u64_bounds: "0 \<le> uint d" "uint d < 18446744073709551616" for d :: u64
  using unsigned_less [where ?'a = int, of d] by simp_all

lemma sint_u64:
  fixes d :: u64
  shows "sint d = (if uint d < 9223372036854775808 then uint d else uint d - 18446744073709551616)"
proof -
  let ?u = "uint d"
  have s: "sint d = (?u + 9223372036854775808) mod 18446744073709551616 - 9223372036854775808"
    by (simp add: sint_uint signed_take_bit_eq_take_bit_shift take_bit_eq_mod)
  show ?thesis
  proof (cases "?u < 9223372036854775808")
    case True
    then have "(?u + 9223372036854775808) mod 18446744073709551616 = ?u + 9223372036854775808"
      using uint_u64_bounds [of d] by (intro mod_pos_pos_trivial) linarith+
    with True show ?thesis by (simp add: s)
  next
    case False
    have "(?u + 9223372036854775808) mod 18446744073709551616 =
        (?u + 9223372036854775808 - 18446744073709551616) mod 18446744073709551616"
      by (simp only: minus_mod_self2)
    also have "\<dots> = ?u + 9223372036854775808 - 18446744073709551616"
      using False uint_u64_bounds [of d] by (intro mod_pos_pos_trivial) linarith+
    finally show ?thesis using False by (simp add: s)
  qed
qed

lemma seek_magnitude:
  fixes d :: u64
  assumes "sint d < 0"
  shows "uint (- d) = - sint d"
proof -
  have big: "9223372036854775808 \<le> uint d"
    using assms uint_u64_bounds [of d] by (auto simp: sint_u64 split: if_splits)
  have "uint (- d) = (- uint d) mod 18446744073709551616"
    by (simp add: uint_word_ariths)
  also have "\<dots> = (18446744073709551616 - uint d) mod 18446744073709551616"
    by (simp only: minus_mod_self1)
  also have "\<dots> = 18446744073709551616 - uint d"
    using big uint_u64_bounds [of d] by (intro mod_pos_pos_trivial) linarith+
  finally show ?thesis using big by (simp add: sint_u64)
qed

lemma seek_relative_unat:
  assumes "unat b \<le> unat totalSize"
  shows "unat (min (seek_relative b totalSize d) (u64_of_u32 totalSize)) =
    clamp_int (int (unat b) + sint d) (unat totalSize)"
proof (cases "0 \<le> sint d")
  case True
  let ?t = "u64_of_u32 totalSize"
  have d: "int (unat d) = sint d"
    using True uint_u64_bounds [of d] by (simp add: sint_u64 split: if_splits)
  have m: "unat (?t - min b ?t) = unat totalSize - unat b"
    using assms by (simp add: unat_sub_le word_le_nat_alt unat_min)
  show ?thesis
  proof (cases "unat totalSize - unat b < unat d")
    case big: True
    then have "seek_relative b totalSize d = ?t"
      using True m by (simp add: seek_relative_def Let_def word_less_nat_alt)
    moreover have "nat (int (unat b) + sint d) = unat b + unat d" using d by linarith
    ultimately show ?thesis using big unfolding clamp_int_def by simp
  next
    case False
    then have r: "seek_relative b totalSize d = b + d"
      using True m by (simp add: seek_relative_def Let_def word_less_nat_alt)
    have "unat b + unat d \<le> unat totalSize" using False assms by simp
    moreover from this have "unat b + unat d < 2 ^ LENGTH(64)"
      using unat_u32_lt [of totalSize] by (simp del: unat_u32_lt)
    then have "unat (b + d) = unat b + unat d" by (rule unat_add_noovf)
    moreover have "nat (int (unat b) + sint d) = unat b + unat d" using d by linarith
    ultimately show ?thesis unfolding r clamp_int_def unat_min by simp
  qed
next
  case False
  let ?m = "- (d + 1) + 1"
  have m: "int (unat ?m) = - sint d" using False by (simp add: seek_magnitude)
  show ?thesis
  proof (cases "unat b < unat ?m")
    case True
    then have "seek_relative b totalSize d = 0"
      using False by (simp add: seek_relative_def Let_def word_less_nat_alt)
    moreover have "int (unat b) + sint d \<le> 0" using True m by linarith
    ultimately show ?thesis by (simp add: clamp_int_def)
  next
    case le: False
    then have r: "seek_relative b totalSize d = b - ?m"
      using False by (simp add: seek_relative_def Let_def word_less_nat_alt)
    have u: "unat (b - ?m) = unat b - unat ?m"
      using le unfolding word_le_nat_alt not_less by (intro unat_sub_le) (simp add: word_le_nat_alt)
    have "nat (int (unat b) + sint d) = unat b - unat ?m" using le m by linarith
    then show ?thesis unfolding r clamp_int_def unat_min u by simp
  qed
qed

lemma ClampSeek_cases:
  "ClampSeek c startOffset totalSize d origin =
     (if cursor_ok startOffset totalSize c \<and> origin \<noteq> kUnnamedOrigin then
        let r = clamp_int (int (base_of origin (unat c - unat startOffset) (unat totalSize)) + sint d)
                  (unat totalSize)
        in \<lparr>sr_valid = True, sr_absoluteOffset = startOffset + word_of_nat r,
            sr_relativeOffset = word_of_nat r\<rparr>
      else invalid_seek)"
proof -
  have guard: "(u64_of_u32 startOffset + u64_of_u32 totalSize > u64_of_u32 u32_max \<or> c < startOffset \<or>
      u64_of_u32 c > u64_of_u32 startOffset + u64_of_u32 totalSize) \<longleftrightarrow> \<not> cursor_ok startOffset totalSize c"
    by (auto simp: word_less_nat_alt end64_unat cursor_ok_def)
  show ?thesis
  proof (cases "cursor_ok startOffset totalSize c \<and> origin \<noteq> kUnnamedOrigin")
    case False
    with guard show ?thesis
      by (cases origin) (simp_all add: ClampSeek_def)
  next
    case True
    then obtain b where b: "seek_base origin c startOffset totalSize = Some b"
      "unat b = base_of origin (unat c - unat startOffset) (unat totalSize)" "unat b \<le> unat totalSize"
      using seek_base_of by blast
    let ?r = "min (seek_relative b totalSize d) (u64_of_u32 totalSize)"
    let ?n = "clamp_int (int (unat b) + sint d) (unat totalSize)"
    have r: "unat ?r = ?n" using b(3) by (rule seek_relative_unat)
    have n: "?n \<le> unat totalSize" by (simp add: clamp_int_def)
    have nb: "unat startOffset + ?n < 4294967296"
      using True n by (simp add: cursor_ok_def)
    have u: "u32_of_u64 ?r = word_of_nat ?n"
      using r nb by (intro eq_word_of_nat) simp
    have "unat (u64_of_u32 startOffset + ?r) = unat startOffset + ?n"
      using r nb by (subst unat_add_noovf) simp_all
    then have "u32_of_u64 (u64_of_u32 startOffset + ?r) = word_of_nat (unat startOffset + ?n)"
      using nb by (intro eq_word_of_nat) simp
    with True guard b u show ?thesis
      by (simp add: ClampSeek_def Let_def)
  qed
qed

text \<open>
  A seek from a cursor inside its entry lands at the base of its origin plus the signed
  displacement, clamped to the entry, for every 64-bit displacement including the most
  negative one; a cursor outside the entry or an unknown origin gives an invalid result.
\<close>

theorem ClampSeek_spec:
  "ClampSeek c startOffset totalSize d origin =
     (if cursor_ok startOffset totalSize c \<and> origin \<noteq> kUnnamedOrigin then
        let r = clamp_int (int (base_of origin (unat c - unat startOffset) (unat totalSize)) + sint d)
                  (unat totalSize)
        in \<lparr>sr_valid = True, sr_absoluteOffset = startOffset + word_of_nat r,
            sr_relativeOffset = word_of_nat r\<rparr>
      else invalid_seek)"
  by (rule ClampSeek_cases)

end
