(* ===== verification/ByteBudget.thy ===== *)
theory ByteBudget
  imports CasLoop
begin

text \<open>
  Skyrim/src/AtomicByteBudget.h: a byte budget that the hooks share to bound the payloads
  being captured.  Both operations are compare-exchange loops on \<open>used_\<close>; the loop bodies
  are the definitions below and their concurrent runs are those of CasLoop.
\<close>

record AtomicByteBudget =
  bb_limit :: u64
  bb_used :: u64

definition TryReserve_attempt :: "u64 \<Rightarrow> u64 \<Rightarrow> u64 \<Rightarrow> (u64, bool) attempt" where
  "TryReserve_attempt limit bytes current =
     (if current > limit \<or> bytes > limit - current then Return False
      else Exchange (current + bytes) True)"

definition Release_attempt :: "u64 \<Rightarrow> u64 \<Rightarrow> (u64, bool) attempt" where
  "Release_attempt bytes current =
     (if bytes > current then Return False else Exchange (current - bytes) True)"

text \<open>The operations on a budget that no other thread touches meanwhile.\<close>

definition TryReserve :: "u64 \<Rightarrow> AtomicByteBudget \<Rightarrow> bool \<times> AtomicByteBudget" where
  "TryReserve bytes b =
     (let a = TryReserve_attempt (bb_limit b) bytes (bb_used b)
      in (attempt_result a, b\<lparr>bb_used := attempt_value (bb_used b) a\<rparr>))"

definition Release :: "u64 \<Rightarrow> AtomicByteBudget \<Rightarrow> bool \<times> AtomicByteBudget" where
  "Release bytes b =
     (let a = Release_attempt bytes (bb_used b)
      in (attempt_result a, b\<lparr>bb_used := attempt_value (bb_used b) a\<rparr>))"

definition Used :: "AtomicByteBudget \<Rightarrow> u64" where "Used b = bb_used b"
definition Limit :: "AtomicByteBudget \<Rightarrow> u64" where "Limit b = bb_limit b"

lemma TryReserve_attempt_cases:
  "if unat current + unat bytes \<le> unat limit
   then TryReserve_attempt limit bytes current = Exchange (current + bytes) True \<and>
     unat (current + bytes) = unat current + unat bytes
   else TryReserve_attempt limit bytes current = Return False"
proof -
  have guard: "current > limit \<or> bytes > limit - current \<longleftrightarrow> \<not> unat current + unat bytes \<le> unat limit"
    by (cases "unat current \<le> unat limit") (auto simp: word_less_nat_alt unat_sub_le word_le_nat_alt)
  show ?thesis
    by (auto simp: TryReserve_attempt_def guard unat_add_le)
qed

lemma Release_attempt_cases:
  "if unat bytes \<le> unat current
   then Release_attempt bytes current = Exchange (current - bytes) True \<and>
     unat (current - bytes) = unat current - unat bytes
   else Release_attempt bytes current = Return False"
  by (auto simp: Release_attempt_def word_less_nat_alt unat_sub_le word_le_nat_alt)

lemma TryReserve_cases:
  "TryReserve bytes b =
     (if unat (bb_used b) + unat bytes \<le> unat (bb_limit b)
      then (True, b\<lparr>bb_used := bb_used b + bytes\<rparr>) else (False, b))"
  using TryReserve_attempt_cases [of "bb_used b" bytes "bb_limit b"]
  by (auto simp: TryReserve_def)

lemma Release_cases:
  "Release bytes b =
     (if unat bytes \<le> unat (bb_used b) then (True, b\<lparr>bb_used := bb_used b - bytes\<rparr>) else (False, b))"
  using Release_attempt_cases [of bytes "bb_used b"] by (auto simp: Release_def)

lemma Release_after_TryReserve:
  "TryReserve bytes b = (True, b') \<Longrightarrow> Release bytes b' = (True, b)"
  using TryReserve_attempt_cases [of "bb_used b" bytes "bb_limit b"]
  by (auto simp: TryReserve_cases Release_cases split: if_splits)

section \<open>Concurrent use\<close>

datatype budget_op = Reserve u64 | GiveBack u64

fun budget_body :: "u64 \<Rightarrow> (nat \<Rightarrow> budget_op) \<Rightarrow> nat \<Rightarrow> u64 \<Rightarrow> (u64, bool) attempt" where
  "budget_body limit ops i current =
     (case ops i of Reserve n \<Rightarrow> TryReserve_attempt limit n current
                  | GiveBack n \<Rightarrow> Release_attempt n current)"

text \<open>What an operation that took effect with result \<open>ok\<close> adds to the used bytes.\<close>

definition charge :: "(nat \<Rightarrow> budget_op) \<Rightarrow> nat \<times> bool \<Rightarrow> int" where
  "charge ops x =
     (if snd x then case ops (fst x) of Reserve n \<Rightarrow> int (unat n) | GiveBack n \<Rightarrow> - int (unat n)
      else 0)"

lemma budget_body_cases:
  "unat c \<le> unat limit \<Longrightarrow>
     unat (attempt_value c (budget_body limit ops i c)) \<le> unat limit \<and>
     int (unat (attempt_value c (budget_body limit ops i c))) =
       int (unat c) + charge ops (i, attempt_result (budget_body limit ops i c))"
proof (cases "ops i")
  case (Reserve n)
  moreover assume "unat c \<le> unat limit"
  ultimately show ?thesis
    using TryReserve_attempt_cases [of c n limit]
    by (cases "unat c + unat n \<le> unat limit") (simp_all add: charge_def del: of_nat_unat)
next
  case (GiveBack n)
  moreover assume "unat c \<le> unat limit"
  ultimately show ?thesis
    using Release_attempt_cases [of n c]
    by (cases "unat n \<le> unat c") (simp_all add: charge_def of_nat_diff del: of_nat_unat)
qed

interpretation budget: cas_client "budget_body limit ops" "\<lambda>c. unat c \<le> unat limit"
proof
  fix v i v' r
  assume "unat v \<le> unat limit" and "budget_body limit ops i v = Exchange v' r"
  with budget_body_cases [of v limit ops i] show "unat v' \<le> unat limit" by simp
qed

lemma seq_budget_balance:
  "unat c \<le> unat limit \<Longrightarrow> seq_run (budget_body limit ops) c is = (c', rs) \<Longrightarrow>
     int (unat c') = int (unat c) + sum_list (map (charge ops) (zip is rs))"
proof (induction "is" arbitrary: c rs)
  case (Cons i "is")
  let ?v = "attempt_value c (budget_body limit ops i c)"
  obtain rs' where run: "seq_run (budget_body limit ops) ?v is = (c', rs')"
    and rs: "rs = attempt_result (budget_body limit ops i c) # rs'"
    using Cons.prems(2) by (auto simp del: budget_body.simps split: prod.splits)
  from budget_body_cases [OF Cons.prems(1), of ops i] Cons.IH [OF _ run] show ?case
    by (simp add: rs del: budget_body.simps)
qed simp

text \<open>
  C22: however the reservations and releases of concurrent streams interleave, the used bytes
  never exceed the limit and equal the initial bytes plus every reservation that
  succeeded less every release that succeeded.
\<close>

theorem budget_conserved:
  assumes "unat u0 \<le> unat limit" "cas_reach (budget_body limit ops) u0 s"
  shows "unat (cell s) \<le> unat limit \<and>
    int (unat (cell s)) = int (unat u0) + sum_list (map (charge ops) (history s))"
proof
  show "unat (cell s) \<le> unat limit"
    using assms by (rule budget.reach_inv)
  have "seq_run (budget_body limit ops) u0 (map fst (history s)) = (cell s, map snd (history s))"
    using cas_loops_linearizable [OF assms(2)] by blast
  from seq_budget_balance [OF assms(1) this]
  show "int (unat (cell s)) = int (unat u0) + sum_list (map (charge ops) (history s))"
    by (simp add: zip_map_fst_snd)
qed

text \<open>A reservation of 60 bytes out of 100 takes effect while another of 60 has already
  observed the empty budget; the second one's exchange fails and its retry is refused.\<close>

lemma budget_conserved_witness:
  "\<exists>s. cas_reach (budget_body 100 (\<lambda>_. Reserve 60)) 0 s \<and> pcs s 0 = Finished True \<and>
     pcs s 1 = Finished False \<and>
     int (unat (cell s)) = int (unat (0 :: u64)) + sum_list (map (charge (\<lambda>_. Reserve 60)) (history s))"
proof -
  let ?b = "budget_body 100 (\<lambda>_. Reserve 60)"
  have b0: "?b i 0 = Exchange 60 True" and b1: "?b i 60 = Return False" for i
    by (simp_all add: TryReserve_attempt_def)
  let ?s1 = "cas_load ?b 0 (cas_init 0)"
  let ?s2 = "cas_load ?b 1 ?s1"
  let ?s3 = "?s2\<lparr>cell := 60, pcs := (pcs ?s2)(0 := Finished True), history := history ?s2 @ [(0, True)]\<rparr>"
  let ?s4 = "cas_load ?b 1 ?s3"
  note [simp del] = budget_body.simps
  have "cas_reach ?b 0 ?s1"
    by (rule cas_reach.step [OF cas_reach.init cas_step.load]) (simp add: cas_init_def)
  then have "cas_reach ?b 0 ?s2"
    by (rule cas_reach.step [OF _ cas_step.load]) (simp add: cas_init_def cas_load_def b0)
  then have "cas_reach ?b 0 ?s3"
    by (rule cas_reach.step [OF _ cas_step.exchanged]) (simp add: cas_init_def cas_load_def b0)
  then have r: "cas_reach ?b 0 ?s4"
    by (rule cas_reach.step [OF _ cas_step.retry [where obs = 0 and v = 60 and r = True]])
      (simp add: cas_init_def cas_load_def b0)
  have "pcs ?s4 0 = Finished True" "pcs ?s4 1 = Finished False"
    by (simp_all add: cas_init_def cas_load_def b0 b1)
  with r budget_conserved [OF _ r] show ?thesis
    by (intro exI [of _ ?s4]) simp
qed

end
