(* ===== verification/StreamState.thy ===== *)
theory StreamState
  imports SourceCache DecompState StreamCursor ByteBudget
begin

text \<open>
  Skyrim/src/Hooks.cpp: the side state of the game's compressed archive streams.  A native
  stream is an address; the registry, split into 32 shards, maps it to the side state that
  tracks its decompressed cursor, the cached payload it is served from and the payload it is
  being captured into.  Side states are shared pointers: positions in a list of all states
  ever made.  The game's own functions are parameters, collected in a record; one thread runs
  at a time, and each thread remembers the state it used last.
\<close>

section \<open>The game's functions\<close>

text \<open>\<open>RE::BSResource::ErrorCode\<close> and \<open>SeekMode\<close>, with the values the hooks tell apart.\<close>

datatype ErrorCode = kNone | kInvalidParam | kFileError | kOtherError nat

datatype SeekMode = SeekSet | SeekCur | SeekEnd | SeekUnnamed

text \<open>
  A read gets the caller's buffer, null or its contents, the requested size and the byte count
  passed by reference, and gives the new contents and count; a seek gets and gives the position
  the same way; a clone gives the new stream, 0 for null.  \<open>'n\<close> is the state of the engine.
\<close>

record 'n engine =
  en_source :: "'n \<Rightarrow> u64 \<Rightarrow> u64"
  en_startOffset :: "'n \<Rightarrow> u64 \<Rightarrow> u32"
  en_vtable :: "'n \<Rightarrow> u64 \<Rightarrow> u64"
  en_read :: "u64 \<Rightarrow> bytes option \<Rightarrow> u64 \<Rightarrow> u64 \<Rightarrow> 'n \<Rightarrow> (ErrorCode \<times> bytes option \<times> u64) \<times> 'n"
  en_seek :: "u64 \<Rightarrow> u64 \<Rightarrow> SeekMode \<Rightarrow> u64 \<Rightarrow> 'n \<Rightarrow> (ErrorCode \<times> u64) \<times> 'n"
  en_open :: "u64 \<Rightarrow> 'n \<Rightarrow> ErrorCode \<times> 'n"
  en_close :: "u64 \<Rightarrow> 'n \<Rightarrow> 'n"
  en_dtor :: "u64 \<Rightarrow> 'n \<Rightarrow> 'n"
  en_clone :: "u64 \<Rightarrow> 'n \<Rightarrow> u64 \<times> 'n"

section \<open>State\<close>

record StreamIdentity =
  si_source :: u64
  si_archive :: "nat option"
  si_startOffset :: u32
  si_totalSize :: u32

datatype CaptureStatus = kCaptureEmpty | kCaptureActive | kCaptureCompleted | kCaptureInvalid

text \<open>\<open>ss_cacheData\<close> is the offset of the payload in the view \<open>ss_cacheOwner\<close>.\<close>

record CompressedStreamState =
  ss_retired :: bool
  ss_identity :: StreamIdentity
  ss_logicalCursor :: u32
  ss_cursorKnown :: bool
  ss_cacheLookupAttempted :: bool
  ss_cacheData :: "nat option"
  ss_cacheSize :: u32
  ss_cacheOwner :: "nat option"
  ss_captureStatus :: CaptureStatus
  ss_nextCaptureOffset :: u32
  ss_captureBuffer :: bytes
  ss_accountedCaptureBytes :: u64

definition new_state :: "StreamIdentity \<Rightarrow> u32 \<Rightarrow> CompressedStreamState" where
  "new_state identity initialCursor =
     \<lparr>ss_retired = False, ss_identity = identity, ss_logicalCursor = initialCursor,
      ss_cursorKnown = True, ss_cacheLookupAttempted = False, ss_cacheData = None, ss_cacheSize = 0,
      ss_cacheOwner = None, ss_captureStatus = kCaptureEmpty, ss_nextCaptureOffset = 0,
      ss_captureBuffer = [], ss_accountedCaptureBytes = 0\<rparr>"

record ReadPath =
  rp_calls :: u64
  rp_requestedBytes :: u64
  rp_returnedBytes :: u64
  rp_failures :: u64
  rp_qpcTicks :: u64

record HookStats =
  ht_cachePath :: ReadPath
  ht_decompressorPath :: ReadPath
  ht_cacheAttachments :: u64
  ht_cacheSizeMismatches :: u64
  ht_cacheNotReady :: u64
  ht_cacheServeDisabled :: u64
  ht_loadPhaseCompressedCalls :: u64
  ht_loadPhaseCompressedRequestedBytes :: u64
  ht_loadPhaseGrandfatheredCacheCalls :: u64
  ht_unknownCompressedCursors :: u64
  ht_captureBudgetRejects :: u64
  ht_captureSeekInvalidations :: u64
  ht_capturesCompleted :: u64

record HookSettings =
  hs_bBaselineMode :: bool
  hs_bEnableDecompCache :: bool
  hs_bServeDecompCache :: bool
  hs_bEnableDuringSaveLoad :: bool
  hs_cache :: CacheSettings

text \<open>\<open>hk_memo\<close> is the thread-local memo of each thread; \<open>hk_pins\<close> are the states that
  suspended calls of other threads hold.\<close>

record 'n hooks =
  hk_native :: 'n
  hk_hooksActive :: bool
  hk_engineLoadActive :: bool
  hk_sources :: SourceTable
  hk_manager :: MemoryMapManager
  hk_cache :: DecompCache
  hk_heap :: "CompressedStreamState list"
  hk_shards :: "nat \<Rightarrow> u64 \<rightharpoonup> nat"
  hk_thread :: nat
  hk_memo :: "nat \<Rightarrow> u64 \<times> nat option"
  hk_pins :: "nat list"
  hk_budget :: AtomicByteBudget
  hk_stats :: HookStats

text \<open>What one call observes: settings, memory, clocks, faults and exceptions.  An exception
  strikes before the call that throws has changed anything.\<close>

record hook_env =
  he_cfg :: HookSettings
  he_pv :: process_view
  he_io :: "u64 \<Rightarrow> u64 \<Rightarrow> bool"
  he_lookup :: lookup_env
  he_record :: record_env
  he_ticks :: u64
  he_compVtable :: u64
  he_copyFaults :: bool
  he_inspectThrows :: bool
  he_stateThrows :: bool
  he_replaceThrows :: bool
  he_upgradeThrows :: bool
  he_lookupThrows :: bool
  he_reserveThrows :: bool
  he_appendThrows :: bool

definition kStreamShardCount :: nat where "kStreamShardCount = 32"
definition kMaxCaptureEntrySize :: u32 where "kMaxCaptureEntrySize = min kMaxPayloadSize (64 * 1024 * 1024)"
definition kMaxConcurrentCaptureBytes :: u64 where "kMaxConcurrentCaptureBytes = 256 * 1024 * 1024"

definition measures :: "hook_env \<Rightarrow> bool" where
  "measures env = cfg_bMeasureStats (hs_cache (he_cfg env))"

definition count_stat :: "bool \<Rightarrow> ((u64 \<Rightarrow> u64) \<Rightarrow> HookStats \<Rightarrow> HookStats) \<Rightarrow> u64 \<Rightarrow> 'n hooks \<Rightarrow> 'n hooks" where
  "count_stat b counter n s = (if b then s\<lparr>hk_stats := counter (\<lambda>x. x + n) (hk_stats s)\<rparr> else s)"

definition RecordPath :: "u64 \<Rightarrow> u64 \<Rightarrow> bool \<Rightarrow> u64 \<Rightarrow> ReadPath \<Rightarrow> ReadPath" where
  "RecordPath a_requested a_returned a_failed a_ticks p =
     p\<lparr>rp_calls := rp_calls p + 1, rp_requestedBytes := rp_requestedBytes p + a_requested,
       rp_returnedBytes := rp_returnedBytes p + a_returned,
       rp_failures := (if a_failed then rp_failures p + 1 else rp_failures p),
       rp_qpcTicks := rp_qpcTicks p + a_ticks\<rparr>"

definition record_path :: "bool \<Rightarrow> ((ReadPath \<Rightarrow> ReadPath) \<Rightarrow> HookStats \<Rightarrow> HookStats) \<Rightarrow> (ReadPath \<Rightarrow> ReadPath) \<Rightarrow>
    'n hooks \<Rightarrow> 'n hooks" where
  "record_path b path f s = (if b then s\<lparr>hk_stats := path f (hk_stats s)\<rparr> else s)"

definition update_state :: "nat \<Rightarrow> (CompressedStreamState \<Rightarrow> CompressedStreamState) \<Rightarrow> 'n hooks \<Rightarrow> 'n hooks" where
  "update_state i f s = (if i < length (hk_heap s) then s\<lparr>hk_heap := (hk_heap s)[i := f (hk_heap s ! i)]\<rparr> else s)"

definition make_state :: "CompressedStreamState \<Rightarrow> 'n hooks \<Rightarrow> nat \<times> 'n hooks" where
  "make_state st s = (length (hk_heap s), s\<lparr>hk_heap := hk_heap s @ [st]\<rparr>)"

definition on_native :: "('n \<Rightarrow> 'r \<times> 'n) \<Rightarrow> 'n hooks \<Rightarrow> 'r \<times> 'n hooks" where
  "on_native f s = (case f (hk_native s) of (r, n) \<Rightarrow> (r, s\<lparr>hk_native := n\<rparr>))"

definition LoadPhaseAccelerationSuppressed :: "hook_env \<Rightarrow> 'n hooks \<Rightarrow> bool" where
  "LoadPhaseAccelerationSuppressed env s \<longleftrightarrow>
     \<not> hs_bEnableDuringSaveLoad (he_cfg env) \<and> hk_engineLoadActive s"

definition SetEngineLoadActive :: "bool \<Rightarrow> 'n hooks \<Rightarrow> 'n hooks" where
  "SetEngineLoadActive a_active s = s\<lparr>hk_engineLoadActive := a_active\<rparr>"

section \<open>The capture budget\<close>

definition release_charge :: "u64 \<Rightarrow> 'n hooks \<Rightarrow> 'n hooks" where
  "release_charge n s = (if n > 0 then s\<lparr>hk_budget := snd (Release n (hk_budget s))\<rparr> else s)"

definition ClearCaptureBuffer :: "nat \<Rightarrow> 'n hooks \<Rightarrow> 'n hooks" where
  "ClearCaptureBuffer i s =
     update_state i (\<lambda>st. st\<lparr>ss_accountedCaptureBytes := 0, ss_captureBuffer := []\<rparr>)
       (release_charge (ss_accountedCaptureBytes (hk_heap s ! i)) s)"

text \<open>The last reference to a retired state goes: its destructor returns its charge.\<close>

definition drop_state :: "nat \<Rightarrow> 'n hooks \<Rightarrow> 'n hooks" where
  "drop_state i s =
     (if ss_retired (hk_heap s ! i) \<and> i \<notin> set (hk_pins s) then ClearCaptureBuffer i s else s)"

definition set_capture :: "CaptureStatus \<Rightarrow> nat \<Rightarrow> 'n hooks \<Rightarrow> 'n hooks" where
  "set_capture status i = update_state i (\<lambda>st. st\<lparr>ss_captureStatus := status\<rparr>)"

definition abandon_capture :: "nat \<Rightarrow> 'n hooks \<Rightarrow> 'n hooks" where
  "abandon_capture i s = ClearCaptureBuffer i (set_capture kCaptureInvalid i s)"

definition ResetCaptureAfterSeek :: "nat \<Rightarrow> u32 \<Rightarrow> 'n hooks \<Rightarrow> 'n hooks" where
  "ResetCaptureAfterSeek i logicalOffset s =
     update_state i (\<lambda>st. st\<lparr>ss_nextCaptureOffset := 0,
       ss_captureStatus := (if logicalOffset = 0 then kCaptureEmpty else kCaptureInvalid)\<rparr>)
       (ClearCaptureBuffer i s)"

definition BeginCapture :: "hook_env \<Rightarrow> nat \<Rightarrow> u32 \<Rightarrow> 'n hooks \<Rightarrow> bool \<times> 'n hooks" where
  "BeginCapture env i totalSize s0 =
     (let s = ClearCaptureBuffer i s0 in
      if totalSize = 0 then (False, set_capture kCaptureInvalid i s)
      else case TryReserve (u64_of_u32 totalSize) (hk_budget s) of
        (False, b) \<Rightarrow>
          (False, set_capture kCaptureInvalid i (count_stat True ht_captureBudgetRejects_update 1 (s\<lparr>hk_budget := b\<rparr>)))
      | (True, b) \<Rightarrow>
          let s1 = update_state i (\<lambda>st. st\<lparr>ss_accountedCaptureBytes := u64_of_u32 totalSize\<rparr>) (s\<lparr>hk_budget := b\<rparr>)
          in if he_reserveThrows env then (False, abandon_capture i s1)
             else (True, update_state i (\<lambda>st. st\<lparr>ss_nextCaptureOffset := 0, ss_captureStatus := kCaptureActive\<rparr>) s1))"

text \<open>The second component is the completed payload, empty while there is none, with the
  charge that passes to the caller.\<close>

definition AppendCapture :: "hook_env \<Rightarrow> nat \<Rightarrow> u32 \<Rightarrow> bytes option \<Rightarrow> u64 \<Rightarrow> bool \<Rightarrow> 'n hooks \<Rightarrow>
    bool \<times> (bytes \<times> u64) \<times> 'n hooks" where
  "AppendCapture env i totalSize buffer read beginCapture s =
     (let nextOffset = (\<lambda>s. ss_nextCaptureOffset (hk_heap s ! i));
          fail = (\<lambda>s. (False, ([], 0), abandon_capture i s))
      in case buffer of
        None \<Rightarrow> fail s
      | Some data \<Rightarrow>
          if read = 0 \<or> nextOffset s > totalSize \<or> read > u64_of_u32 (totalSize - nextOffset s) then fail s
          else
            (case (if beginCapture then BeginCapture env i totalSize s else (True, s)) of
               (False, s1) \<Rightarrow> (False, ([], 0), s1)
             | (True, s1) \<Rightarrow>
                 if ss_captureStatus (hk_heap s1 ! i) \<noteq> kCaptureActive \<or>
                    read > u64_of_u32 (totalSize - nextOffset s1) then fail s1
                 else if he_appendThrows env then fail s1
                 else
                   let s2 = update_state i (\<lambda>st. st\<lparr>ss_captureBuffer := ss_captureBuffer st @ take (unat read) data,
                              ss_nextCaptureOffset := ss_nextCaptureOffset st + u32_of_u64 read\<rparr>) s1;
                       st = hk_heap s2 ! i
                   in if ss_nextCaptureOffset st = totalSize \<and> length (ss_captureBuffer st) = unat totalSize
                      then (True, (ss_captureBuffer st, ss_accountedCaptureBytes st),
                            count_stat True ht_capturesCompleted_update 1
                              (update_state i (\<lambda>st. st\<lparr>ss_accountedCaptureBytes := 0, ss_captureBuffer := [],
                                 ss_captureStatus := kCaptureCompleted\<rparr>) s2))
                      else (True, ([], 0), s2)))"

section \<open>The registry\<close>

definition StreamShardIndex :: "u64 \<Rightarrow> nat" where
  "StreamShardIndex stream =
     (let value = stream XOR drop_bit 19 stream in unat (drop_bit 4 value AND 0x1F))"

definition registered :: "'n hooks \<Rightarrow> u64 \<Rightarrow> nat option" where
  "registered s stream = hk_shards s (StreamShardIndex stream) stream"

definition put_registered :: "u64 \<Rightarrow> nat option \<Rightarrow> 'n hooks \<Rightarrow> 'n hooks" where
  "put_registered stream v s =
     (let k = StreamShardIndex stream
      in s\<lparr>hk_shards := (hk_shards s)(k := (hk_shards s k)(stream := v))\<rparr>)"

definition remember :: "u64 \<Rightarrow> nat option \<Rightarrow> 'n hooks \<Rightarrow> 'n hooks" where
  "remember stream v s = s\<lparr>hk_memo := (hk_memo s)(hk_thread s := (stream, v))\<rparr>"

definition retire :: "nat \<Rightarrow> 'n hooks \<Rightarrow> 'n hooks" where
  "retire i = update_state i (\<lambda>st. st\<lparr>ss_retired := True\<rparr>)"

definition FindCompressedState :: "u64 \<Rightarrow> 'n hooks \<Rightarrow> nat option \<times> 'n hooks" where
  "FindCompressedState stream s =
     (let lookup =
        (case registered s stream of
           None \<Rightarrow> (None, s)
         | Some i \<Rightarrow> if ss_retired (hk_heap s ! i) then (None, s) else (Some i, remember stream (Some i) s))
      in case hk_memo s (hk_thread s) of
        (lastStream, Some i) \<Rightarrow>
          if stream = lastStream \<and> \<not> ss_retired (hk_heap s ! i) then (Some i, s) else lookup
      | (lastStream, None) \<Rightarrow> lookup)"

definition PublishCompressedStateIfAbsent :: "u64 \<Rightarrow> nat \<Rightarrow> 'n hooks \<Rightarrow> nat \<times> 'n hooks" where
  "PublishCompressedStateIfAbsent stream i s =
     (case registered s stream of
        Some j \<Rightarrow>
          if \<not> ss_retired (hk_heap s ! j) then (j, remember stream (Some j) s)
          else (i, remember stream (Some i) (drop_state j (put_registered stream (Some i) (retire j s))))
      | None \<Rightarrow> (i, remember stream (Some i) (put_registered stream (Some i) s)))"

definition TryReplaceCompressedState :: "u64 \<Rightarrow> nat \<Rightarrow> nat \<Rightarrow> 'n hooks \<Rightarrow> bool \<times> 'n hooks" where
  "TryReplaceCompressedState stream expected replacement s =
     (if registered s stream \<noteq> Some expected \<or> ss_retired (hk_heap s ! expected) then (False, s)
      else (True, remember stream (Some replacement)
              (put_registered stream (Some replacement) (retire expected s))))"

definition ReplaceCompressedState :: "u64 \<Rightarrow> nat \<Rightarrow> 'n hooks \<Rightarrow> 'n hooks" where
  "ReplaceCompressedState stream i s =
     (case registered s stream of
        Some j \<Rightarrow> remember stream (Some i) (drop_state j (put_registered stream (Some i) (retire j s)))
      | None \<Rightarrow> remember stream (Some i) (put_registered stream (Some i) s))"

definition RetireCompressedState :: "u64 \<Rightarrow> 'n hooks \<Rightarrow> 'n hooks" where
  "RetireCompressedState stream s =
     (if stream = 0 then s
      else
        let forget = (\<lambda>s. if stream = fst (hk_memo s (hk_thread s)) then remember 0 None s else s)
        in case registered s stream of
             Some i \<Rightarrow> drop_state i (forget (retire i (put_registered stream None s)))
           | None \<Rightarrow> forget s)"

section \<open>Identities and cursors\<close>

definition ResolveDeclaredDecompressedSize :: "hook_env \<Rightarrow> nat option \<Rightarrow> u32 \<Rightarrow> 'n hooks \<Rightarrow> u32 \<times> 'n hooks" where
  "ResolveDeclaredDecompressedSize env archive startOffset s =
     (case archive of
        None \<Rightarrow> (0, s)
      | Some a \<Rightarrow>
          (case GetDeclaredDecompressedSize (he_io env) (mm_archives (hk_manager s) ! a) startOffset of
             (declared, archive') \<Rightarrow>
               (case declared of None \<Rightarrow> 0 | Some n \<Rightarrow> n,
                s\<lparr>hk_manager := (hk_manager s)\<lparr>mm_archives := (mm_archives (hk_manager s))[a := archive']\<rparr>\<rparr>)))"

definition resolve_source :: "hook_env \<Rightarrow> u64 \<Rightarrow> 'n hooks \<Rightarrow> nat option \<times> 'n hooks" where
  "resolve_source env source s =
     (if source = 0 then (None, s)
      else case ResolveSource (he_pv env) (hk_manager s) source (hk_sources s) of
        (archive, t) \<Rightarrow> (archive, s\<lparr>hk_sources := t\<rparr>))"

definition InspectCompressedStream :: "'n engine \<Rightarrow> hook_env \<Rightarrow> u64 \<Rightarrow> 'n hooks \<Rightarrow> StreamIdentity \<times> 'n hooks" where
  "InspectCompressedStream en env stream s =
     (let source = en_source en (hk_native s) stream in
      case resolve_source env source s of
        (archive, s1) \<Rightarrow>
          let startOffset = en_startOffset en (hk_native s) stream in
          (case FindCompressedState stream s1 of
             (found, s2) \<Rightarrow>
               let known = (case found of
                     None \<Rightarrow> None
                   | Some i \<Rightarrow>
                       let identity = ss_identity (hk_heap s2 ! i) in
                       if si_source identity = source \<and> si_archive identity = archive \<and>
                          si_startOffset identity = startOffset \<and> si_totalSize identity > 0
                       then Some identity else None)
               in case known of
                    Some identity \<Rightarrow> (identity, s2)
                  | None \<Rightarrow>
                      (case ResolveDeclaredDecompressedSize env archive startOffset s2 of
                         (totalSize, s3) \<Rightarrow>
                           (\<lparr>si_source = source, si_archive = archive, si_startOffset = startOffset,
                             si_totalSize = totalSize\<rparr>, s3))))"

definition QueryCompressedLogicalCursor :: "'n engine \<Rightarrow> u64 \<Rightarrow> u32 \<Rightarrow> 'n hooks \<Rightarrow> u32 option \<times> 'n hooks" where
  "QueryCompressedLogicalCursor en stream totalSize s =
     (case on_native (en_seek en stream 0 SeekCur 0) s of
        ((error, position), s1) \<Rightarrow>
          (if error = kNone \<and> (totalSize = 0 \<or> position \<le> u64_of_u32 totalSize) \<and>
              position \<le> u64_of_u32 u32_max
           then Some (u32_of_u64 position) else None, s1))"

definition GetOrCreateCompressedState :: "'n engine \<Rightarrow> u64 \<Rightarrow> StreamIdentity \<Rightarrow> 'n hooks \<Rightarrow> nat \<times> 'n hooks" where
  "GetOrCreateCompressedState en stream identity s =
     (case FindCompressedState stream s of
        (Some i, s1) \<Rightarrow> (i, s1)
      | (None, s1) \<Rightarrow>
          (case QueryCompressedLogicalCursor en stream (si_totalSize identity) s1 of
             (None, s2) \<Rightarrow>
               (case make_state ((new_state identity 0)\<lparr>ss_cursorKnown := False\<rparr>)
                       (count_stat True ht_unknownCompressedCursors_update 1 s2) of
                  (i, s3) \<Rightarrow> PublishCompressedStateIfAbsent stream i s3)
           | (Some cursor, s2) \<Rightarrow>
               (case make_state (new_state identity cursor) s2 of
                  (i, s3) \<Rightarrow> PublishCompressedStateIfAbsent stream i s3)))"

end
