(* ===== verification/StreamHooks.thy ===== *)
theory StreamHooks
  imports StreamState
begin

text \<open>
  Skyrim/src/Hooks.cpp: the hooks of the compressed archive stream.  Reads, seeks and clones
  find the stream's side state and then work under its I/O mutex; a call that finds its state
  retired meanwhile starts over with the state that replaced it.  The part before the mutex
  and the part under it are separate operations, between which other threads may run.
\<close>

section \<open>Serving from the cache\<close>

definition TryAttachCachedEntry :: "hook_env \<Rightarrow> nat \<Rightarrow> 'n hooks \<Rightarrow> 'n hooks" where
  "TryAttachCachedEntry env i s =
     (let st = hk_heap s ! i; cfg = he_cfg env; identity = ss_identity st;
          attempted = update_state i (\<lambda>st. st\<lparr>ss_cacheLookupAttempted := True\<rparr>)
      in case si_archive identity of
        None \<Rightarrow> s
      | Some archive \<Rightarrow>
          if ss_cacheLookupAttempted st \<or> \<not> ss_cursorKnown st \<or> \<not> hs_bEnableDecompCache cfg \<or>
             si_totalSize identity = 0 then s
          else if LoadPhaseAccelerationSuppressed env s then s
          else if \<not> hs_bServeDecompCache cfg then
            count_stat (measures env) ht_cacheServeDisabled_update 1 (attempted s)
          else if \<not> dc_ready (hk_cache s) then count_stat (measures env) ht_cacheNotReady_update 1 s
          else if he_lookupThrows env then attempted s
          else
            (case Lookup (hs_cache cfg) (he_lookup env) archive (si_startOffset identity) (hk_cache s) of
               (entry, c) \<Rightarrow>
                 let s1 = (attempted s)\<lparr>hk_cache := c\<rparr> in
                 if \<not> result_bool entry then s1
                 else if lr_size entry \<noteq> si_totalSize identity then
                   let s2 = count_stat (measures env) ht_cacheSizeMismatches_update 1 s1
                   in s2\<lparr>hk_cache := ReportCacheValidationFailure (hs_cache cfg) (le_qpc (he_lookup env))
                        (lr_owner entry) (hk_cache s2)\<rparr>
                 else
                   abandon_capture i
                     (count_stat (measures env) ht_cacheAttachments_update 1
                       (update_state i (\<lambda>st. st\<lparr>ss_cacheData := lr_data entry, ss_cacheSize := lr_size entry,
                          ss_cacheOwner := lr_owner entry\<rparr>) s1))))"

text \<open>\<open>memcpy\<close> to the front of the caller's buffer.\<close>

definition copy_to :: "bytes option \<Rightarrow> bytes \<Rightarrow> bytes option" where
  "copy_to buffer payload = map_option (\<lambda>b. payload @ drop (length payload) b) buffer"

definition ServeCachedRead :: "hook_env \<Rightarrow> nat \<Rightarrow> bytes option \<Rightarrow> u64 \<Rightarrow> 'n hooks \<Rightarrow>
    (ErrorCode \<times> bytes option \<times> u64) \<times> 'n hooks" where
  "ServeCachedRead env i buffer toRead s =
     (let st = hk_heap s ! i in
      case ss_cacheData st of
        None \<Rightarrow> ((kInvalidParam, buffer, 0), s)
      | Some data \<Rightarrow>
          if ss_cacheSize st = 0 \<or> toRead > 0 \<and> buffer = None then ((kInvalidParam, buffer, 0), s)
          else if (case ss_cacheOwner st of None \<Rightarrow> False | Some v \<Rightarrow> mv_unusable (dc_views (hk_cache s) ! v))
          then ((kFileError, buffer, 0), s)
          else
            (case ClaimRange (ss_logicalCursor st) 0 (ss_cacheSize st) toRead of
               (claim, cursor) \<Rightarrow>
                 if \<not> IsValid claim then ((kInvalidParam, buffer, 0), s)
                 else
                   let s1 = update_state i (\<lambda>st. st\<lparr>ss_logicalCursor := cursor\<rparr>) s in
                   if rc_size claim > 0 \<and> he_copyFaults env then
                     let s2 = update_state i (\<lambda>st. st\<lparr>ss_logicalCursor := rc_absoluteOffset claim\<rparr>) s1;
                         s3 = s2\<lparr>hk_cache := ReportMappingIoFailure (hs_cache (he_cfg env))
                            (le_qpc (he_lookup env)) (ss_cacheOwner st) (hk_cache s2)\<rparr>
                     in ((kFileError, buffer, 0),
                         record_path (measures env) ht_cachePath_update (RecordPath toRead 0 True (he_ticks env)) s3)
                   else
                     let view = (case ss_cacheOwner st of None \<Rightarrow> [] | Some v \<Rightarrow> mv_base (dc_views (hk_cache s1) ! v));
                         payload = byte_slice (data + unat (rc_relativeOffset claim)) (unat (rc_size claim)) view
                     in ((kNone, if rc_size claim > 0 then copy_to buffer payload else buffer, u64_of_u32 (rc_size claim)),
                         record_path (measures env) ht_cachePath_update
                           (RecordPath toRead (u64_of_u32 (rc_size claim)) False (he_ticks env)) s1)))"

definition CallOriginalCompressedRead :: "'n engine \<Rightarrow> hook_env \<Rightarrow> u64 \<Rightarrow> bytes option \<Rightarrow> u64 \<Rightarrow> u64 \<Rightarrow>
    'n hooks \<Rightarrow> (ErrorCode \<times> bytes option \<times> u64) \<times> 'n hooks" where
  "CallOriginalCompressedRead en env stream buffer toRead read s =
     (case on_native (en_read en stream buffer toRead read) s of
        ((error, buffer', read'), s1) \<Rightarrow>
          ((error, buffer', read'),
           record_path (measures env) ht_decompressorPath_update
             (RecordPath toRead read' (error \<noteq> kNone) (he_ticks env)) s1))"

section \<open>Before the mutex and after it\<close>

definition accelerates :: "hook_env \<Rightarrow> 'n hooks \<Rightarrow> bool" where
  "accelerates env s \<longleftrightarrow> hk_hooksActive s \<and> \<not> hs_bBaselineMode (he_cfg env) \<and> hs_bEnableDecompCache (he_cfg env)"

text \<open>The state a call works on, pinned until the call returns; \<open>None\<close> on an exception.\<close>

definition enter_stream :: "'n engine \<Rightarrow> hook_env \<Rightarrow> u64 \<Rightarrow> 'n hooks \<Rightarrow> (StreamIdentity \<times> nat) option \<times> 'n hooks" where
  "enter_stream en env stream s =
     (if he_inspectThrows env then (None, s)
      else case InspectCompressedStream en env stream s of
        (identity, s1) \<Rightarrow>
          if he_stateThrows env then (None, s1)
          else (case GetOrCreateCompressedState en stream identity s1 of
            (i, s2) \<Rightarrow> (Some (identity, i), s2\<lparr>hk_pins := i # hk_pins s2\<rparr>)))"

definition leave_stream :: "nat \<Rightarrow> 'n hooks \<Rightarrow> 'n hooks" where
  "leave_stream i s = drop_state i (s\<lparr>hk_pins := remove1 i (hk_pins s)\<rparr>)"

text \<open>Whether another state has replaced a retired one.\<close>

definition find_replacement :: "u64 \<Rightarrow> nat \<Rightarrow> 'n hooks \<Rightarrow> bool \<times> 'n hooks" where
  "find_replacement stream i s =
     (case FindCompressedState stream s of
        (Some j, s1) \<Rightarrow> (j \<noteq> i, s1)
      | (None, s1) \<Rightarrow> (False, s1))"

section \<open>Reads\<close>

text \<open>A state whose identity is outdated is replaced, unless it already serves a payload.\<close>

definition upgrade_identity :: "'n engine \<Rightarrow> hook_env \<Rightarrow> u64 \<Rightarrow> StreamIdentity \<Rightarrow> nat \<Rightarrow> 'n hooks \<Rightarrow> bool \<times> 'n hooks" where
  "upgrade_identity en env stream identity i s =
     (if he_upgradeThrows env then find_replacement stream i s
      else
        let st = hk_heap s ! i;
            sameGeneration = (si_source (ss_identity st) = si_source identity \<and>
              si_startOffset (ss_identity st) = si_startOffset identity)
        in case (if sameGeneration \<and> ss_cursorKnown st then (Some (ss_logicalCursor st), s)
                 else QueryCompressedLogicalCursor en stream (si_totalSize identity) s) of
             (cursor, s1) \<Rightarrow>
               let fresh = (new_state identity (case cursor of None \<Rightarrow> 0 | Some c \<Rightarrow> c))
                      \<lparr>ss_cursorKnown := cursor \<noteq> None,
                       ss_captureStatus := (if cursor = Some 0 then kCaptureEmpty else kCaptureInvalid)\<rparr>
               in (case make_state fresh s1 of
                     (j, s2) \<Rightarrow>
                       (case TryReplaceCompressedState stream i j s2 of
                          (True, s3) \<Rightarrow> (True, s3)
                        | (False, s3) \<Rightarrow> find_replacement stream i s3)))"

text \<open>The original read of a stream whose cursor is unknown, which may reveal it.\<close>

definition read_unknown :: "'n engine \<Rightarrow> hook_env \<Rightarrow> u64 \<Rightarrow> bytes option \<Rightarrow> u64 \<Rightarrow> u64 \<Rightarrow> nat \<Rightarrow> 'n hooks \<Rightarrow>
    (ErrorCode \<times> bytes option \<times> u64) \<times> 'n hooks" where
  "read_unknown en env stream buffer toRead read i s =
     (case CallOriginalCompressedRead en env stream buffer toRead read s of
        (result, s1) \<Rightarrow>
          (case QueryCompressedLogicalCursor en stream (si_totalSize (ss_identity (hk_heap s1 ! i))) s1 of
             (recovered, s2) \<Rightarrow>
               let s3 = (case recovered of
                     None \<Rightarrow> s2
                   | Some c \<Rightarrow> update_state i (\<lambda>st. st\<lparr>ss_logicalCursor := c, ss_cursorKnown := True\<rparr>) s2)
               in (result, abandon_capture i s3)))"

definition capture_enabled :: "hook_env \<Rightarrow> bool \<Rightarrow> StreamIdentity \<Rightarrow> nat \<Rightarrow> 'n hooks \<Rightarrow> bool" where
  "capture_enabled env loadSuppressed identity i s =
     (let st = hk_heap s ! i; totalSize = si_totalSize identity; cap = cfg_uDecompCacheMaxBytes (hs_cache (he_cfg env));
          fitsConfiguredCache = (cap > 0 \<and> u64_of_u32 totalSize \<le> cap)
      in \<not> loadSuppressed \<and> si_archive identity \<noteq> None \<and> totalSize > 0 \<and> ss_cursorKnown st \<and>
         dc_building (hk_cache s) \<and> totalSize \<le> kMaxCaptureEntrySize \<and> fitsConfiguredCache \<and>
         ss_cacheData st = None \<and> ss_captureStatus st \<noteq> kCaptureCompleted \<and> ss_captureStatus st \<noteq> kCaptureInvalid)"

text \<open>Whether this read is appended to a capture and whether it begins one.\<close>

definition plan_capture :: "hook_env \<Rightarrow> bool \<Rightarrow> StreamIdentity \<Rightarrow> nat \<Rightarrow> 'n hooks \<Rightarrow> (bool \<times> bool) \<times> 'n hooks" where
  "plan_capture env loadSuppressed identity i s =
     (let st = hk_heap s ! i; cursorBefore = ss_logicalCursor st in
      if \<not> capture_enabled env loadSuppressed identity i s then ((False, False), s)
      else if ss_captureStatus st = kCaptureEmpty then
        (let append = (cursorBefore = 0)
         in ((append, append), if append then s else set_capture kCaptureInvalid i s))
      else if ss_captureStatus st = kCaptureActive then
        (let append = (cursorBefore = ss_nextCaptureOffset st)
         in ((append, False), if append then s else abandon_capture i s))
      else ((False, False), s))"

text \<open>The cursor after an original read.\<close>

definition track_progress :: "'n engine \<Rightarrow> u64 \<Rightarrow> StreamIdentity \<Rightarrow> u32 \<Rightarrow> u64 \<Rightarrow> bool \<Rightarrow> ErrorCode \<Rightarrow> u64 \<Rightarrow> nat \<Rightarrow>
    'n hooks \<Rightarrow> 'n hooks" where
  "track_progress en stream identity cursorBefore toRead hasBuffer error read i s =
     (let progress = ValidateNativeProgress (ss_cursorKnown (hk_heap s ! i)) cursorBefore (si_totalSize identity)
            toRead read (error = kNone) hasBuffer
      in if pr_valid progress
         then update_state i (\<lambda>st. st\<lparr>ss_logicalCursor := pr_cursorAfter progress, ss_cursorKnown := True\<rparr>) s
         else case QueryCompressedLogicalCursor en stream (si_totalSize identity) s of
           (Some queried, s1) \<Rightarrow> update_state i (\<lambda>st. st\<lparr>ss_logicalCursor := queried, ss_cursorKnown := True\<rparr>) s1
         | (None, s1) \<Rightarrow>
             abandon_capture i (update_state i (\<lambda>st. st\<lparr>ss_cursorKnown := False\<rparr>) s1))"

definition finish_capture :: "hook_env \<Rightarrow> StreamIdentity \<Rightarrow> bool \<Rightarrow> u64 \<Rightarrow> ErrorCode \<times> bytes option \<times> u64 \<Rightarrow> nat \<Rightarrow>
    'n hooks \<Rightarrow> (bytes \<times> u64) \<times> 'n hooks" where
  "finish_capture env identity beginCapture toRead result i s =
     (case result of
        (error, buffer, read) \<Rightarrow>
          let totalSize = si_totalSize identity;
              remaining = u64_of_u32 totalSize - u64_of_u32 (ss_nextCaptureOffset (hk_heap s ! i));
              validResult = (error = kNone \<and> read > 0 \<and> buffer \<noteq> None \<and> read \<le> toRead \<and> read \<le> remaining)
          in if \<not> validResult then
               (([], 0), if error = kNone \<and> read = 0 \<and> toRead = 0 then s else abandon_capture i s)
             else case AppendCapture env i totalSize buffer read beginCapture s of
               (_, completed, s1) \<Rightarrow> (completed, s1))"

text \<open>A completed payload goes to the cache; then its charge is returned.\<close>

definition record_completed :: "hook_env \<Rightarrow> StreamIdentity \<Rightarrow> bytes \<times> u64 \<Rightarrow> 'n hooks \<Rightarrow> 'n hooks" where
  "record_completed env identity completed s =
     release_charge (snd completed)
       (if fst completed = [] then s
        else s\<lparr>hk_cache := snd (RecordDecompressed (hs_cache (he_cfg env)) (he_record env)
               (\<lambda>a. mm_archives (hk_manager s) ! a) (si_archive identity) (si_startOffset identity)
               (fst completed) (hk_cache s))\<rparr>)"

definition read_native :: "'n engine \<Rightarrow> hook_env \<Rightarrow> u64 \<Rightarrow> bytes option \<Rightarrow> u64 \<Rightarrow> bool \<Rightarrow> StreamIdentity \<Rightarrow> nat \<Rightarrow>
    'n hooks \<Rightarrow> (ErrorCode \<times> bytes option \<times> u64) \<times> 'n hooks" where
  "read_native en env stream buffer toRead loadSuppressed identity i s =
     (let cursorBefore = ss_logicalCursor (hk_heap s ! i) in
      case plan_capture env loadSuppressed identity i s of
        ((appendThisRead, beginCapture), s1) \<Rightarrow>
          (case CallOriginalCompressedRead en env stream buffer toRead 0 s1 of
             ((error, buffer', read), s2) \<Rightarrow>
               let s3 = track_progress en stream identity cursorBefore toRead (buffer \<noteq> None) error read i s2
               in if appendThisRead then
                    (case finish_capture env identity beginCapture toRead (error, buffer', read) i s3 of
                       (completed, s4) \<Rightarrow> ((error, buffer', read), record_completed env identity completed s4))
                  else ((error, buffer', read), s3)))"

text \<open>The read under the mutex; \<open>None\<close> is a call that starts over.\<close>

definition read_locked :: "'n engine \<Rightarrow> hook_env \<Rightarrow> u64 \<Rightarrow> bytes option \<Rightarrow> u64 \<Rightarrow> u64 \<Rightarrow> StreamIdentity \<Rightarrow> nat \<Rightarrow>
    'n hooks \<Rightarrow> (ErrorCode \<times> bytes option \<times> u64) option \<times> 'n hooks" where
  "read_locked en env stream buffer toRead read identity i s =
     (let st = hk_heap s ! i; loadSuppressed = LoadPhaseAccelerationSuppressed env s;
          original = (\<lambda>s. case CallOriginalCompressedRead en env stream buffer toRead read s of (r, s') \<Rightarrow> (Some r, s'))
      in if ss_retired st then
           (case find_replacement stream i s of
              (True, s1) \<Rightarrow> (None, s1)
            | (False, s1) \<Rightarrow> original s1)
         else if ss_identity st \<noteq> identity \<and> ss_cacheData st = None then
           (case upgrade_identity en env stream identity i s of
              (True, s1) \<Rightarrow> (None, s1)
            | (False, s1) \<Rightarrow> original s1)
         else if \<not> ss_cursorKnown st then
           (case read_unknown en env stream buffer toRead read i s of (r, s1) \<Rightarrow> (Some r, s1))
         else
           let s1 = TryAttachCachedEntry env i s in
           if ss_cacheData (hk_heap s1 ! i) \<noteq> None then
             (case ServeCachedRead env i buffer toRead
                     (count_stat (loadSuppressed \<and> measures env) ht_loadPhaseGrandfatheredCacheCalls_update 1 s1) of
                (r, s2) \<Rightarrow> (Some r, s2))
           else (case read_native en env stream buffer toRead loadSuppressed identity i s1 of (r, s2) \<Rightarrow> (Some r, s2)))"

definition note_suppressed :: "hook_env \<Rightarrow> u64 \<Rightarrow> 'n hooks \<Rightarrow> 'n hooks" where
  "note_suppressed env toRead s =
     (let b = LoadPhaseAccelerationSuppressed env s \<and> measures env
      in count_stat b ht_loadPhaseCompressedRequestedBytes_update toRead
           (count_stat b ht_loadPhaseCompressedCalls_update 1 s))"

partial_function (option) HookedCompDoRead :: "'n engine \<Rightarrow> hook_env \<Rightarrow> u64 \<Rightarrow> bytes option \<Rightarrow> u64 \<Rightarrow> u64 \<Rightarrow> 'n hooks \<Rightarrow>
    ((ErrorCode \<times> bytes option \<times> u64) \<times> 'n hooks) option" where
  "HookedCompDoRead en env stream buffer toRead read s =
     (if \<not> accelerates env s then Some (CallOriginalCompressedRead en env stream buffer toRead read s)
      else case enter_stream en env stream (note_suppressed env toRead s) of
        (None, s1) \<Rightarrow> Some (CallOriginalCompressedRead en env stream buffer toRead read s1)
      | (Some (identity, i), s1) \<Rightarrow>
          (case read_locked en env stream buffer toRead read identity i s1 of
             (Some r, s2) \<Rightarrow> Some (r, leave_stream i s2)
           | (None, s2) \<Rightarrow>
               Option.bind (HookedCompDoRead en env stream buffer toRead read s2)
                 (\<lambda>(r, s3). Some (r, leave_stream i s3))))"

section \<open>Seeks\<close>

fun seek_origin :: "SeekMode \<Rightarrow> SeekOrigin option" where
  "seek_origin SeekSet = Some kBegin"
| "seek_origin SeekCur = Some kCurrent"
| "seek_origin SeekEnd = Some kEnd"
| "seek_origin SeekUnnamed = None"

definition seek_cached :: "nat \<Rightarrow> u64 \<Rightarrow> SeekMode \<Rightarrow> u64 \<Rightarrow> 'n hooks \<Rightarrow> (ErrorCode \<times> u64) \<times> 'n hooks" where
  "seek_cached i offset mode position s =
     (case seek_origin mode of
        None \<Rightarrow> ((kInvalidParam, position), s)
      | Some origin \<Rightarrow>
          let st = hk_heap s ! i; sought = ClampSeek (ss_logicalCursor st) 0 (ss_cacheSize st) offset origin in
          if \<not> sr_valid sought then ((kInvalidParam, position), s)
          else
            ((kNone, u64_of_u32 (sr_relativeOffset sought)),
             ResetCaptureAfterSeek i (sr_relativeOffset sought)
               (update_state i (\<lambda>st. st\<lparr>ss_logicalCursor := sr_relativeOffset sought, ss_cursorKnown := True\<rparr>) s)))"

definition seek_native :: "'n engine \<Rightarrow> u64 \<Rightarrow> u64 \<Rightarrow> SeekMode \<Rightarrow> u64 \<Rightarrow> nat \<Rightarrow> 'n hooks \<Rightarrow> (ErrorCode \<times> u64) \<times> 'n hooks" where
  "seek_native en stream offset mode position i s =
     (let previousPosition = ss_logicalCursor (hk_heap s ! i) in
      case on_native (en_seek en stream offset mode position) s of
        ((error, position'), s1) \<Rightarrow>
          let totalSize = si_totalSize (ss_identity (hk_heap s1 ! i)) in
          if error = kNone \<and> position' \<le> u64_of_u32 u32_max \<and>
             (totalSize = 0 \<or> position' \<le> u64_of_u32 totalSize) then
            let logicalPosition = u32_of_u64 position';
                s2 = update_state i (\<lambda>st. st\<lparr>ss_logicalCursor := logicalPosition, ss_cursorKnown := True\<rparr>) s1
            in ((error, position'),
                if SeekMoved previousPosition (u64_of_u32 logicalPosition) then
                  ResetCaptureAfterSeek i logicalPosition
                    (count_stat (ss_captureStatus (hk_heap s2 ! i) = kCaptureActive)
                      ht_captureSeekInvalidations_update 1 s2)
                else s2)
          else
            ((error, position'),
             abandon_capture i (update_state i (\<lambda>st. st\<lparr>ss_cursorKnown := False\<rparr>) s1)))"

definition seek_locked :: "'n engine \<Rightarrow> hook_env \<Rightarrow> u64 \<Rightarrow> u64 \<Rightarrow> SeekMode \<Rightarrow> u64 \<Rightarrow> nat \<Rightarrow> 'n hooks \<Rightarrow>
    (ErrorCode \<times> u64) option \<times> 'n hooks" where
  "seek_locked en env stream offset mode position i s =
     (if ss_retired (hk_heap s ! i) then
        (case find_replacement stream i s of
           (True, s1) \<Rightarrow> (None, s1)
         | (False, s1) \<Rightarrow>
             (case on_native (en_seek en stream offset mode position) s1 of (r, s2) \<Rightarrow> (Some r, s2)))
      else
        let s1 = TryAttachCachedEntry env i s; st = hk_heap s1 ! i in
        if ss_cacheData st \<noteq> None \<and> ss_cacheSize st > 0
        then (case seek_cached i offset mode position s1 of (r, s2) \<Rightarrow> (Some r, s2))
        else (case seek_native en stream offset mode position i s1 of (r, s2) \<Rightarrow> (Some r, s2)))"

partial_function (option) HookedCompDoSeek :: "'n engine \<Rightarrow> hook_env \<Rightarrow> u64 \<Rightarrow> u64 \<Rightarrow> SeekMode \<Rightarrow> u64 \<Rightarrow> 'n hooks \<Rightarrow>
    ((ErrorCode \<times> u64) \<times> 'n hooks) option" where
  "HookedCompDoSeek en env stream offset mode position s =
     (if \<not> accelerates env s then Some (on_native (en_seek en stream offset mode position) s)
      else case enter_stream en env stream s of
        (None, s1) \<Rightarrow> Some (on_native (en_seek en stream offset mode position) s1)
      | (Some (identity, i), s1) \<Rightarrow>
          (case seek_locked en env stream offset mode position i s1 of
             (Some r, s2) \<Rightarrow> Some (r, leave_stream i s2)
           | (None, s2) \<Rightarrow>
               Option.bind (HookedCompDoSeek en env stream offset mode position s2)
                 (\<lambda>(r, s3). Some (r, leave_stream i s3))))"

section \<open>The life of a stream\<close>

text \<open>Closing and destroying first retire the side state, wait for the mutex, and only then
  call the game.\<close>

definition HookedCompDtor :: "'n engine \<Rightarrow> u64 \<Rightarrow> 'n hooks \<Rightarrow> 'n hooks" where
  "HookedCompDtor en stream s =
     (let s1 = RetireCompressedState stream s in s1\<lparr>hk_native := en_dtor en stream (hk_native s1)\<rparr>)"

definition HookedCompDoClose :: "'n engine \<Rightarrow> u64 \<Rightarrow> 'n hooks \<Rightarrow> 'n hooks" where
  "HookedCompDoClose en stream s =
     (let s1 = RetireCompressedState stream s in s1\<lparr>hk_native := en_close en stream (hk_native s1)\<rparr>)"

text \<open>A successful open starts at decompressed byte zero.\<close>

definition HookedCompDoOpen :: "'n engine \<Rightarrow> hook_env \<Rightarrow> u64 \<Rightarrow> 'n hooks \<Rightarrow> ErrorCode \<times> 'n hooks" where
  "HookedCompDoOpen en env stream s =
     (case on_native (en_open en stream) (RetireCompressedState stream s) of
        (error, s1) \<Rightarrow>
          if error \<noteq> kNone \<or> \<not> accelerates env s1 then (error, s1)
          else if he_inspectThrows env then (error, RetireCompressedState stream s1)
          else (case InspectCompressedStream en env stream s1 of
            (identity, s2) \<Rightarrow>
              if he_stateThrows env then (error, RetireCompressedState stream s2)
              else (case make_state (new_state identity 0) s2 of
                (i, s3) \<Rightarrow> (error, snd (PublishCompressedStateIfAbsent stream i s3)))))"

text \<open>
  The state of a clone of a stream whose state is known: it inherits the payload the parent
  is served from when it reads the same entry.  The second component says whether the clone
  must not be handed out.
\<close>

definition inherit_payload :: "CompressedStreamState \<Rightarrow> CompressedStreamState \<Rightarrow> CompressedStreamState" where
  "inherit_payload parent st =
     st\<lparr>ss_cacheLookupAttempted := ss_cacheLookupAttempted parent, ss_cacheData := ss_cacheData parent,
        ss_cacheSize := ss_cacheSize parent, ss_cacheOwner := ss_cacheOwner parent\<rparr>"

definition clone_state :: "CompressedStreamState \<Rightarrow> StreamIdentity \<Rightarrow> bool \<Rightarrow> CompressedStreamState" where
  "clone_state parent cloneIdentity nativeCursorSynchronized =
     (let cloneCursor = ss_logicalCursor parent;
          fresh = (new_state cloneIdentity cloneCursor)
            \<lparr>ss_captureStatus := (if cloneCursor = 0 then kCaptureEmpty else kCaptureInvalid)\<rparr>;
          sameIdentity = (si_archive cloneIdentity = si_archive (ss_identity parent) \<and>
            si_startOffset cloneIdentity = si_startOffset (ss_identity parent) \<and>
            si_totalSize cloneIdentity = si_totalSize (ss_identity parent))
      in if sameIdentity then inherit_payload parent fresh
         else if \<not> nativeCursorSynchronized then
           fresh\<lparr>ss_cursorKnown := False, ss_captureStatus := kCaptureInvalid\<rparr>
         else fresh)"

text \<open>The parent's decompressor did not advance while its payload was served, so the native
  clone of such a parent is moved to the parent's cursor.\<close>

definition synchronize_clone :: "'n engine \<Rightarrow> u64 \<Rightarrow> CompressedStreamState \<Rightarrow> 'n hooks \<Rightarrow> bool \<times> 'n hooks" where
  "synchronize_clone en clone parent s =
     (if ss_cacheData parent = None then (True, s)
      else case on_native (en_seek en clone (u64_of_u32 (ss_logicalCursor parent)) SeekSet 0) s of
        ((seekError, nativePosition), s1) \<Rightarrow>
          (seekError = kNone \<and> nativePosition = u64_of_u32 (ss_logicalCursor parent), s1))"

definition prepare_clone :: "'n engine \<Rightarrow> hook_env \<Rightarrow> u64 \<Rightarrow> CompressedStreamState \<Rightarrow> 'n hooks \<Rightarrow>
    (CompressedStreamState option \<times> bool) \<times> 'n hooks" where
  "prepare_clone en env clone parent s =
     (case synchronize_clone en clone parent s of
        (nativeCursorSynchronized, s1) \<Rightarrow>
          (case (if he_inspectThrows env then (None, s1)
                 else case InspectCompressedStream en env clone s1 of
                   (cloneIdentity, s2) \<Rightarrow>
                     (if he_stateThrows env then None
                      else Some (clone_state parent cloneIdentity nativeCursorSynchronized), s2)) of
             (cloneState, s2) \<Rightarrow>
               let refused = (ss_cacheData parent \<noteq> None \<and> \<not> nativeCursorSynchronized \<and>
                 (case cloneState of None \<Rightarrow> True | Some st \<Rightarrow> ss_cacheData st = None))
               in ((if refused then None else cloneState, refused), s2)))"

text \<open>A recycled address never inherits the state of another stream.\<close>

definition publish_clone :: "hook_env \<Rightarrow> u64 \<Rightarrow> u64 \<Rightarrow> CompressedStreamState option \<Rightarrow> 'n hooks \<Rightarrow> 'n hooks" where
  "publish_clone env stream clone cloneState s =
     (if clone = 0 \<or> clone = stream then s
      else case cloneState of
        None \<Rightarrow> RetireCompressedState clone s
      | Some st \<Rightarrow>
          if he_replaceThrows env then RetireCompressedState clone s
          else (case make_state st s of (i, s1) \<Rightarrow> ReplaceCompressedState clone i s1))"

text \<open>\<open>None\<close> is a call that starts over; otherwise the clone, 0 when there is none.\<close>

definition clone_locked :: "'n engine \<Rightarrow> hook_env \<Rightarrow> u64 \<Rightarrow> nat \<Rightarrow> 'n hooks \<Rightarrow> u64 option \<times> 'n hooks" where
  "clone_locked en env stream i s =
     (if ss_retired (hk_heap s ! i) then
        (case find_replacement stream i s of
           (True, s1) \<Rightarrow> (None, s1)
         | (False, s1) \<Rightarrow>
             (case on_native (en_clone en stream) s1 of
                (clone, s2) \<Rightarrow> (Some clone, publish_clone env stream clone None s2)))
      else
        (case on_native (en_clone en stream) s of
           (clone, s1) \<Rightarrow>
             let parent = hk_heap s1 ! i in
             if ss_cursorKnown parent \<and> clone \<noteq> 0 \<and> clone \<noteq> stream \<and>
                en_vtable en (hk_native s1) clone = he_compVtable env then
               (case prepare_clone en env clone parent s1 of
                  ((cloneState, refused), s2) \<Rightarrow>
                    if refused then (Some 0, HookedCompDtor en clone s2)
                    else (Some clone, publish_clone env stream clone cloneState s2))
             else (Some clone, publish_clone env stream clone None s1)))"

partial_function (option) HookedCompDoClone :: "'n engine \<Rightarrow> hook_env \<Rightarrow> u64 \<Rightarrow> 'n hooks \<Rightarrow>
    (u64 \<times> 'n hooks) option" where
  "HookedCompDoClone en env stream s =
     (if \<not> hk_hooksActive s then Some (on_native (en_clone en stream) s)
      else case (if accelerates env s then enter_stream en env stream s else (None, s)) of
        (None, s1) \<Rightarrow>
          (case on_native (en_clone en stream) s1 of
             (clone, s2) \<Rightarrow> Some (clone, publish_clone env stream clone None s2))
      | (Some (identity, i), s1) \<Rightarrow>
          (case clone_locked en env stream i s1 of
             (Some r, s2) \<Rightarrow> Some (r, leave_stream i s2)
           | (None, s2) \<Rightarrow>
               Option.bind (HookedCompDoClone en env stream s2) (\<lambda>(r, s3). Some (r, leave_stream i s3))))"

end
