(* ===== verification/DecompFlush.thy ===== *)
theory DecompFlush
  imports DecompDisk
begin

text \<open>
  \<open>DecompCache::FlushToDisk\<close>, \<open>LoadCacheFile\<close> and \<open>Initialize\<close>.  A flush retires the invalid
  generations, moves the pending payloads of every archive into work items, writes each
  item's file without the lookup lock, and installs or requeues the item under the lock
  again.  Each of these phases is a definition, so that lookups and recordings of other
  threads can be placed between them.
\<close>

section \<open>Retiring invalid generations\<close>

fun retire_loop :: "nat list \<Rightarrow> nat \<Rightarrow> world \<Rightarrow> nat \<times> world" where
  "retire_loop [] invalidRemoved w = (invalidRemoved, w)"
| "retire_loop (a # as) invalidRemoved w =
     (case load_active w of
        (True, w1) \<Rightarrow> (invalidRemoved, w1)
      | (False, w1) \<Rightarrow>
          (case map_of (dc_caches (wd w1)) a of
             None \<Rightarrow> retire_loop as invalidRemoved w1
           | Some cache \<Rightarrow>
               if \<not> ac_diskInvalidated cache \<or> ac_pending cache \<noteq> [] \<or> ac_bufferedOffsets cache \<noteq> {}
               then retire_loop as invalidRemoved w1
               else
                 (case (if ac_activePath cache = [] then (Deleted, w1)
                        else delete_file (ac_activePath cache) w1) of
                    (DeleteFailed, w2) \<Rightarrow> retire_loop as invalidRemoved w2
                  | (_, w2) \<Rightarrow>
                      retire_loop as (invalidRemoved + 1)
                        (on_cache (next_epoch \<circ> update_cache a drop_generation) w2))))"

definition retire_invalid :: "host \<Rightarrow> world \<Rightarrow> world" where
  "retire_invalid h w =
     (case retire_loop (map fst (dc_caches (wd w))) 0 w of
        (invalidRemoved, w1) \<Rightarrow>
          if invalidRemoved > 0
          then on_cache (RequestWarmup (ho_cfg h) (ho_qpc h) \<circ> publish_ready) w1 else w1)"

section \<open>Planning\<close>

definition verified_offsets :: "DecompCache \<Rightarrow> ArchiveCache \<Rightarrow> u32 list" where
  "verified_offsets s c =
     (case ac_view c of
        None \<Rightarrow> []
      | Some v \<Rightarrow> map fst (filter (\<lambda>(off, entry).
          mv_verification (dc_views s ! v) ! ce_slot entry = kVerifyValid) (ac_index c)))"

definition pending_work :: "PendingEntry \<Rightarrow> OLPending" where
  "pending_work p = \<lparr>op_off = pe_startOffset p, op_accountedBytes = pe_accountedBytes p, op_data = pe_data p\<rparr>"

definition work_pending :: "OLPending \<Rightarrow> PendingEntry" where
  "work_pending p = \<lparr>pe_startOffset = op_off p, pe_accountedBytes = op_accountedBytes p, pe_data = op_data p\<rparr>"

definition archive_identity :: "host \<Rightarrow> nat \<Rightarrow> ArchiveCache \<Rightarrow> ArchiveIdentity" where
  "archive_identity h a c =
     \<lparr>ai_fileSize = ma_fileSize (ho_archives h a),
      ai_lastWrite = ho_lastWrite h (ma_path (ho_archives h a)),
      ai_fingerprint = ac_bsaFingerprint c,
      ai_entryCount = b_fileCount (ma_header (ho_archives h a))\<rparr>"

definition plan_item :: "host \<Rightarrow> DecompCache \<Rightarrow> nat \<times> ArchiveCache \<Rightarrow> OLWork" where
  "plan_item h s ac =
     (case ac of (a, c) \<Rightarrow>
        let basePath = CachePathFor (ho_archives h a);
            resetFile = (ac_diskInvalidated c \<or> ac_needsReplacement c \<or> ac_view c = None \<or>
                         ac_activePath c \<noteq> basePath)
        in \<lparr>wk_archive = a, wk_basePath = basePath, wk_identity = archive_identity h a c,
            wk_cancellable = True, wk_resetFile = resetFile,
            wk_sourceView = (if resetFile then None else ac_view c),
            wk_verifiedOffsets = (if resetFile then [] else verified_offsets s c),
            wk_pending = map pending_work (ac_pending c)\<rparr>)"

text \<open>The two passes under the exclusive lock: the items, then the moves.\<close>

definition plan_flush :: "host \<Rightarrow> DecompCache \<Rightarrow> OLWork list \<times> DecompCache" where
  "plan_flush h s =
     (map (plan_item h s) (filter (\<lambda>(a, c). ac_pending c \<noteq> []) (dc_caches s)),
      s\<lparr>dc_caches := map (\<lambda>(a, c). (a, c\<lparr>ac_pending := []\<rparr>)) (dc_caches s)\<rparr>)"

section \<open>Writing one item\<close>

definition regular_file :: "bytes \<Rightarrow> world \<Rightarrow> cfile option" where
  "regular_file p w =
     (case dir_find p w of Some (RegularFile f) \<Rightarrow> Some f | _ \<Rightarrow> None)"

definition disk_of :: "bytes \<Rightarrow> world \<Rightarrow> disk" where
  "disk_of p w =
     \<lparr>dk_base = regular_file p w, dk_temp = None, dk_cancel = wd_loads w, dk_sys = wd_sys w\<rparr>"

text \<open>The files and the rest of the scripts go back; the load flag keeps its last value read.\<close>

definition put_disk :: "host \<Rightarrow> bytes \<Rightarrow> disk \<Rightarrow> world \<Rightarrow> world" where
  "put_disk h p d w =
     (let consumed = length (wd_loads w) - length (dk_cancel d);
          w1 = (if consumed = 0 then w
                else on_cache (\<lambda>s. s\<lparr>dc_loadActive := wd_loads w ! (consumed - 1)\<rparr>) w);
          w2 = w1\<lparr>wd_loads := dk_cancel d, wd_sys := dk_sys d\<rparr>;
          w3 = (case dk_base d of Some f \<Rightarrow> dir_put p f w2 | None \<Rightarrow> w2)
      in case dk_temp d of
           None \<Rightarrow> w3
         | Some f \<Rightarrow> (dir_put (TempPathFor (ho_pid h) (wd_tempGeneration w3) p) f w3)
                      \<lparr>wd_tempGeneration := wd_tempGeneration w3 + 1\<rparr>)"

text \<open>One file write, unless a load has begun.\<close>

definition write_item :: "host \<Rightarrow> OLWork \<Rightarrow> world \<Rightarrow> OLResult \<times> world" where
  "write_item h item w =
     (case load_active w of
        (True, w1) \<Rightarrow> (ol_failure, w1)
      | (False, w1) \<Rightarrow>
          (case AppendFile item (disk_of (wk_basePath item) w1) of
             (result, d) \<Rightarrow> (result, put_disk h (wk_basePath item) d w1)))"

section \<open>Installing or requeueing\<close>

definition accounted_sum :: "OLPending list \<Rightarrow> u64" where
  "accounted_sum ps = foldl (\<lambda>acc p. acc + op_accountedBytes p) 0 ps"

text \<open>An append prepared against a view that was replaced or invalidated is not installed.\<close>

definition stale_result :: "OLWork \<Rightarrow> ArchiveCache \<Rightarrow> bool" where
  "stale_result item cache \<longleftrightarrow>
     \<not> wk_resetFile item \<and> (ac_view cache \<noteq> wk_sourceView item \<or> ac_diskInvalidated cache)"

definition install_result :: "OLWork \<Rightarrow> OLResult \<Rightarrow> MappedView \<Rightarrow> DecompCache \<Rightarrow> DecompCache" where
  "install_result item result view s =
     (let (v, s1) = add_view view s;
          committed = accounted_sum (wk_pending item);
          s2 = next_epoch (update_cache (wk_archive item) (\<lambda>c. c\<lparr>ac_view := Some v,
                 ac_index := ol_index result, ac_activePath := wk_basePath item,
                 ac_onDiskBytes := of_nat (ol_fileSize result), ac_diskInvalidated := False,
                 ac_needsReplacement := False,
                 ac_bufferedOffsets := ac_bufferedOffsets c - op_off ` set (wk_pending item)\<rparr>) s1)
      in s2\<lparr>dc_committedReservations := dc_committedReservations s2 + committed, dc_ready := True\<rparr>)"

definition requeue :: "OLWork \<Rightarrow> DecompCache \<Rightarrow> DecompCache" where
  "requeue item =
     update_cache (wk_archive item)
       (\<lambda>c. c\<lparr>ac_pending := ac_pending c @ map work_pending (wk_pending item)\<rparr>)"

text \<open>
  The rollback that cannot even requeue: the offsets are released for recapture, and the fixed
  reservation of an absent file moves to a payload that was queued meanwhile.
\<close>

definition surplus_sum :: "OLPending list \<Rightarrow> u64" where
  "surplus_sum ps = foldl (\<lambda>acc p.
     if op_accountedBytes p > of_nat (length (op_data p))
     then acc + (op_accountedBytes p - of_nat (length (op_data p))) else acc) 0 ps"

definition release_item :: "OLWork \<Rightarrow> DecompCache \<Rightarrow> DecompCache" where
  "release_item item s =
     (case map_of (dc_caches s) (wk_archive item) of
        None \<Rightarrow> s
      | Some cache \<Rightarrow>
          let released = accounted_sum (wk_pending item);
              fixedOverhead = surplus_sum (wk_pending item);
              unmark = (\<lambda>c. c\<lparr>ac_bufferedOffsets := ac_bufferedOffsets c - op_off ` set (wk_pending item)\<rparr>);
              transfer =
                (if fixedOverhead > 0 \<and> (ac_view cache = None \<or> ac_diskInvalidated cache) \<and>
                    ac_pending cache \<noteq> []
                 then AddChecked (pe_accountedBytes (hd (ac_pending cache))) fixedOverhead else None)
          in case transfer of
               None \<Rightarrow> (update_cache (wk_archive item) unmark s)
                         \<lparr>dc_pendingBytes := dc_pendingBytes s - released\<rparr>
             | Some transferred \<Rightarrow>
                 (update_cache (wk_archive item) (\<lambda>c. (unmark c)\<lparr>ac_pending :=
                    (hd (ac_pending c))\<lparr>pe_accountedBytes := transferred\<rparr> # tl (ac_pending c)\<rparr>) s)
                   \<lparr>dc_pendingBytes := dc_pendingBytes s - (released - fixedOverhead)\<rparr>)"

definition install_item :: "host \<Rightarrow> OLWork \<Rightarrow> OLResult \<Rightarrow> DecompCache \<Rightarrow> bool \<times> DecompCache" where
  "install_item h item result s =
     (case map_of (dc_caches s) (wk_archive item) of
        None \<Rightarrow> (False, s)
      | Some cache \<Rightarrow>
          let accepted = (if ol_ok result \<and> stale_result item cache then None
                          else if ol_ok result then ol_view result else None)
          in case accepted of
               Some view \<Rightarrow> (True, install_result item result view s)
             | None \<Rightarrow>
                 (False, if ho_requeueThrows h (wk_archive item) then release_item item s
                         else requeue item s))"

fun flush_items :: "host \<Rightarrow> OLWork list \<Rightarrow> nat \<Rightarrow> world \<Rightarrow> nat \<times> world" where
  "flush_items h [] filesWritten w = (filesWritten, w)"
| "flush_items h (item # items) filesWritten w =
     (case write_item h item w of
        (result, w1) \<Rightarrow>
          (case install_item h item result (wd w1) of
             (written, s) \<Rightarrow>
               flush_items h items (if written then filesWritten + 1 else filesWritten)
                 (w1\<lparr>wd := s\<rparr>)))"

section \<open>The warm order on the disk\<close>

text \<open>
  \<open>SaveWarmPriority\<close> writes the names of the archives served in this session, latest first,
  one line each; \<open>LoadWarmPriority\<close> reads them back, at most 4096, and ranks the first line
  highest.  The lines are the UTF-8 names.
\<close>

definition served_order :: "DecompCache \<Rightarrow> bytes list" where
  "served_order s =
     map fst (rev (sort_key snd (rev (map (\<lambda>(a, c). (ac_activePath c, ac_lastAccessMs c))
       (filter (\<lambda>(a, c). ac_lastAccessMs c \<noteq> 0 \<and> ac_activePath c \<noteq> []) (dc_caches s))))))"

definition warm_priority_lines :: "bytes list \<Rightarrow> bytes" where
  "warm_priority_lines names = concat (map (\<lambda>n. n @ [0x0A]) names)"

text \<open>\<open>SaveWarmPriority\<close>: nothing is written when nothing was served or the file cannot be
  opened for writing.\<close>

definition SaveWarmPriority :: "world \<Rightarrow> world" where
  "SaveWarmPriority w =
     (let served = served_order (wd w)
      in if served = [] then w
         else (case os_call w of
                 (False, w1) \<Rightarrow> w1
               | (True, w1) \<Rightarrow>
                   w1\<lparr>wd_priorityFile := Some (warm_priority_lines (filter (\<lambda>n. n \<noteq> []) served))\<rparr>))"

fun getlines :: "bytes \<Rightarrow> bytes \<Rightarrow> bytes list" where
  "getlines [] line = (if line = [] then [] else [line])"
| "getlines (c # cs) line = (if c = 0x0A then line # getlines cs [] else getlines cs (line @ [c]))"

definition strip_line :: "bytes \<Rightarrow> bytes" where
  "strip_line line = rev (dropWhile (\<lambda>c. c = 0x0D \<or> c = 0x0A) (rev line))"

definition priority_names :: "bytes \<Rightarrow> bytes list" where
  "priority_names file = take 4096 (filter (\<lambda>n. n \<noteq> []) (map strip_line (getlines file [])))"

text \<open>\<open>try_emplace\<close> keeps the first, higher rank of a repeated name.\<close>

fun emplace_ranks :: "bytes list \<Rightarrow> (bytes \<rightharpoonup> u64) \<Rightarrow> (bytes \<rightharpoonup> u64)" where
  "emplace_ranks [] m = m"
| "emplace_ranks (n # ns) m =
     emplace_ranks ns (if m n = None then m(n \<mapsto> of_nat (length (n # ns))) else m)"

definition LoadWarmPriority :: "bytes option \<Rightarrow> DecompCache \<Rightarrow> DecompCache" where
  "LoadWarmPriority file s =
     (case file of
        None \<Rightarrow> s
      | Some text \<Rightarrow>
          s\<lparr>dc_warmPriorityRank := emplace_ranks (priority_names text) (dc_warmPriorityRank s)\<rparr>)"

section \<open>A flush\<close>

definition over_cap :: "CacheSettings \<Rightarrow> DecompCache \<Rightarrow> bool" where
  "over_cap cfg s \<longleftrightarrow> cfg_uDecompCacheMaxBytes cfg > 0 \<and> dc_totalCacheBytes s \<ge> cfg_uDecompCacheMaxBytes cfg"

text \<open>The first eviction, before the pending payloads are taken.\<close>

definition make_room :: "host \<Rightarrow> world \<Rightarrow> world" where
  "make_room h w =
     (if cfg_uDecompCacheMaxBytes (ho_cfg h) = 0 then w
      else case load_active w of
        (True, w1) \<Rightarrow> w1
      | (False, w1) \<Rightarrow>
          if dc_requiredHeadroom (wd w1) > 0 \<or> over_cap (ho_cfg h) (wd w1)
          then EnforceSizeLimit h True w1 else w1)"

definition finish_flush :: "host \<Rightarrow> nat \<Rightarrow> world \<Rightarrow> world" where
  "finish_flush h filesWritten w =
     (let w2 = (case load_active w of
                  (True, w1) \<Rightarrow> w1
                | (False, w1) \<Rightarrow>
                    (case load_active (ReconcileDiskAccounting w1) of
                       (True, w2) \<Rightarrow> w2
                     | (False, w2) \<Rightarrow>
                         if cfg_uDecompCacheMaxBytes (ho_cfg h) > 0 then EnforceSizeLimit h True w2 else w2))
      in SaveWarmPriority
           (if filesWritten > 0 then on_cache (RequestWarmup (ho_cfg h) (ho_qpc h)) w2 else w2))"

definition FlushToDisk :: "host \<Rightarrow> world \<Rightarrow> world" where
  "FlushToDisk h w =
     (case load_active w of
        (True, w1) \<Rightarrow> w1
      | (False, w1) \<Rightarrow>
          let startupOnly = (cfg_iDecompCacheMode (ho_cfg h) = 0) in
          if \<not> startupOnly \<and> \<not> dc_building (wd w1) then w1
          else
            let w2 = (if startupOnly then on_cache (\<lambda>s. s\<lparr>dc_building := False\<rparr>) w1 else w1);
                w3 = retire_invalid h (make_room h w2)
            in if ho_planThrows h then w3
               else
                 let (items, s) = plan_flush h (wd w3);
                     (filesWritten, w4) = flush_items h items 0 (w3\<lparr>wd := s\<rparr>)
                 in finish_flush h filesWritten w4)"

section \<open>Startup\<close>

definition install_loaded :: "nat \<Rightarrow> bytes \<Rightarrow> LoadedFile \<Rightarrow> DecompCache \<Rightarrow> DecompCache" where
  "install_loaded a path l s =
     (let (v, s1) = add_view (ld_view l) s
      in next_epoch (update_cache a (\<lambda>c. c\<lparr>ac_index := ld_index l, ac_view := Some v,
           ac_activePath := path, ac_onDiskBytes := of_nat (ld_fileSize l), ac_diskInvalidated := False,
           ac_needsReplacement := ld_needsReplacement l\<rparr>) s1))"

definition LoadCacheFile :: "host \<Rightarrow> nat \<Rightarrow> world \<Rightarrow> bool \<times> world" where
  "LoadCacheFile h a w =
     (case map_of (dc_caches (wd w)) a of
        None \<Rightarrow> (False, w)
      | Some cache \<Rightarrow>
          let path = CachePathFor (ho_archives h a)
          in if regular_file path w = None then (False, w)
             else (case LoadFile (archive_identity h a cache) (disk_of path w) of
                (None, d) \<Rightarrow> (False, put_disk h path d w)
              | (Some l, d) \<Rightarrow> (True, on_cache (install_loaded a path l) (put_disk h path d w))))"

text \<open>The loop over the archives: a cache for every open archive with entries.\<close>

fun load_archives :: "host \<Rightarrow> nat list \<Rightarrow> nat \<Rightarrow> world \<Rightarrow> nat \<times> world" where
  "load_archives h [] loaded w = (loaded, w)"
| "load_archives h (a # as) loaded w =
     (let archive = ho_archives h a in
      if \<not> IsOpen archive \<or> b_fileCount (ma_header archive) = 0 then load_archives h as loaded w
      else
        let fingerprint = ma_fingerprint archive;
            w1 = on_cache (\<lambda>s. s\<lparr>dc_caches := dc_caches s @
                   [(a, empty_cache\<lparr>ac_bsaFingerprint := fingerprint\<rparr>)]\<rparr>) w
        in if fingerprint = 0 then load_archives h as loaded w1
           else (case LoadCacheFile h a w1 of
              (True, w2) \<Rightarrow> load_archives h as (loaded + 1) w2
            | (False, w2) \<Rightarrow> load_archives h as loaded w2))"

definition reset_cache :: "CacheSettings \<Rightarrow> u64 \<Rightarrow> DecompCache \<Rightarrow> DecompCache" where
  "reset_cache cfg now s = s\<lparr>dc_ready := False, dc_building := False, dc_flushRequested := False,
     dc_warmRequested := False, dc_prefaultEnabled := cfg_bPrefaultDecompCache cfg,
     dc_warmComplete := \<not> cfg_bPrefaultDecompCache cfg, dc_pendingBytes := 0,
     dc_committedReservations := 0, dc_totalCacheBytes := 0, dc_requiredHeadroom := 0,
     dc_lastOverCapNotifyMs := 0, dc_diag := zero_diagnostics, dc_lastWarmRequestQpc := 0,
     dc_cacheEpoch := 0, dc_warmedBytes := 0, dc_caches := [], dc_sessionStartMs := now\<rparr>"

definition InitializeCache :: "host \<Rightarrow> nat list \<Rightarrow> world \<Rightarrow> world" where
  "InitializeCache h a_archives w =
     (let w1 = on_cache (reset_cache (ho_cfg h) (ho_now h)) w in
      case os_call w1 of
        (False, w2) \<Rightarrow> w2
      | (True, w2) \<Rightarrow>
          let (loaded, w3) = load_archives h a_archives 0 w2;
              w4 = on_cache (LoadWarmPriority (wd_priorityFile w3) \<circ>
                     (\<lambda>s. s\<lparr>dc_ready := loaded > 0, dc_building := True\<rparr>)) w3;
              w5 = ReconcileDiskAccounting (RemoveUnownedFiles (ReconcileDiskAccounting w4))
          in on_cache publish_ready (EnforceSizeLimit h True w5))"

end
