(* ===== verification/DecompAccounting.thy ===== *)
theory DecompAccounting
  imports DecompFlush
begin

text \<open>
  The books of the pending queue.  Recorders, lookups, the flush phases and the disk scans
  are the steps of one system whose state is the cache and the work items that a flush has
  taken out of it.  The invariant says that the charge \<open>m_pendingBytes\<close> is exactly the
  accounted bytes of the queued and in-flight payloads plus the committed reservations, that
  it stays below 256 MiB, that the markers are exactly the offsets of those payloads, each
  once, and that an absent file's header and index are charged exactly once.
\<close>

section \<open>Queued and in-flight payloads\<close>

definition entries :: "OLWork list \<Rightarrow> nat \<Rightarrow> ArchiveCache \<Rightarrow> PendingEntry list" where
  "entries work a c =
     ac_pending c @ concat (map (\<lambda>i. map work_pending (wk_pending i)) (filter (\<lambda>i. wk_archive i = a) work))"

definition accounted :: "PendingEntry list \<Rightarrow> nat" where
  "accounted es = sum_list (map (\<lambda>p. unat (pe_accountedBytes p)) es)"

definition payload_sum :: "PendingEntry list \<Rightarrow> nat" where
  "payload_sum es = sum_list (map (\<lambda>p. length (pe_data p)) es)"

definition footprint :: "(nat \<Rightarrow> MappedArchive) \<Rightarrow> nat \<Rightarrow> nat" where
  "footprint A a = sizeof_Header + unat (b_fileCount (ma_header (A a))) * sizeof_Entry"

definition entry_ok :: "PendingEntry \<Rightarrow> bool" where
  "entry_ok p \<longleftrightarrow> pe_data p \<noteq> [] \<and> length (pe_data p) \<le> unat kMaxPayloadSize \<and>
     length (pe_data p) \<le> unat (pe_accountedBytes p)"

definition cache_ok :: "(nat \<Rightarrow> MappedArchive) \<Rightarrow> OLWork list \<Rightarrow> nat \<Rightarrow> ArchiveCache \<Rightarrow> bool" where
  "cache_ok A work a c \<longleftrightarrow>
     distinct (map pe_startOffset (entries work a c)) \<and>
     pe_startOffset ` set (entries work a c) = ac_bufferedOffsets c \<and>
     (\<forall>p \<in> set (entries work a c). entry_ok p) \<and>
     (ac_view c = None \<and> entries work a c \<noteq> [] \<longrightarrow>
        accounted (entries work a c) = footprint A a + payload_sum (entries work a c))"

definition charged :: "OLWork list \<Rightarrow> DecompCache \<Rightarrow> nat" where
  "charged work s = (\<Sum>(a, c)\<leftarrow>dc_caches s. accounted (entries work a c))"

definition books :: "(nat \<Rightarrow> MappedArchive) \<Rightarrow> OLWork list \<Rightarrow> DecompCache \<Rightarrow> bool" where
  "books A work s \<longleftrightarrow>
     distinct (map fst (dc_caches s)) \<and> distinct (map wk_archive work) \<and>
     wk_archive ` set work \<subseteq> fst ` set (dc_caches s) \<and>
     (\<forall>(a, c) \<in> set (dc_caches s). cache_ok A work a c) \<and>
     unat (dc_pendingBytes s) = charged work s + unat (dc_committedReservations s) \<and>
     dc_pendingBytes s \<le> kMaxPendingMemoryBytes"

lemma entries_Nil [simp]: "entries [] a c = ac_pending c"
  by (simp add: entries_def)

lemma entries_Cons:
  "entries (i # work) a c =
     (if wk_archive i = a
      then ac_pending c @ map work_pending (wk_pending i) @ drop (length (ac_pending c)) (entries work a c)
      else entries work a c)"
  by (simp add: entries_def)

lemma entries_other: "wk_archive i \<noteq> a \<Longrightarrow> entries (i # work) a c = entries work a c"
  by (simp add: entries_Cons)

lemma entries_fresh:
  "a \<notin> wk_archive ` set work \<Longrightarrow> entries work a c = ac_pending c"
  by (auto simp: entries_def filter_empty_conv)

lemma accounted_simps [simp]:
  "accounted [] = 0" "accounted (p # es) = unat (pe_accountedBytes p) + accounted es"
  "accounted (es @ fs) = accounted es + accounted fs"
  by (simp_all add: accounted_def)

lemma payload_sum_simps [simp]:
  "payload_sum [] = 0" "payload_sum (p # es) = length (pe_data p) + payload_sum es"
  "payload_sum (es @ fs) = payload_sum es + payload_sum fs"
  by (simp_all add: payload_sum_def)

lemma payload_le_accounted: "\<forall>p \<in> set es. entry_ok p \<Longrightarrow> payload_sum es \<le> accounted es"
  by (induction es) (auto simp: entry_ok_def)

text \<open>Only the entries of a cache and whether it has a view matter.\<close>

lemma cache_ok_cong:
  assumes "cache_ok A work a c" "ac_pending c' = ac_pending c"
    and "ac_bufferedOffsets c' = ac_bufferedOffsets c" "ac_view c' = None \<Longrightarrow> ac_view c = None"
  shows "cache_ok A work a c'"
  using assms by (auto simp: cache_ok_def entries_def)

section \<open>Updating one cache\<close>

lemma update_cache_frame [simp]:
  "dc_pendingBytes (update_cache a f s) = dc_pendingBytes s"
  "dc_committedReservations (update_cache a f s) = dc_committedReservations s"
  "dc_totalCacheBytes (update_cache a f s) = dc_totalCacheBytes s"
  "dc_views (update_cache a f s) = dc_views s"
  by (simp_all add: update_cache_def)

lemma keys_update_cache [simp]: "map fst (dc_caches (update_cache a f s)) = map fst (dc_caches s)"
  by (simp add: update_cache_def comp_def case_prod_beta)

lemma key_set_update_cache [simp]: "fst ` set (dc_caches (update_cache a f s)) = fst ` set (dc_caches s)"
  by (metis keys_update_cache set_map)

lemma map_of_update_cache:
  "map_of (dc_caches (update_cache a f s)) k =
     (if k = a then map_option f (map_of (dc_caches s) k) else map_of (dc_caches s) k)"
proof -
  have "map_of (map (\<lambda>(k, c). (k, if k = a then f c else c)) cs) k =
      (if k = a then map_option f (map_of cs k) else map_of cs k)" for cs
    by (induction cs) auto
  then show ?thesis by (simp add: update_cache_def)
qed

lemma caches_update_cache:
  "(k, c') \<in> set (dc_caches (update_cache a f s)) \<longleftrightarrow>
     (\<exists>c. (k, c) \<in> set (dc_caches s) \<and> c' = (if k = a then f c else c))"
  by (force simp: update_cache_def)

lemma sum_update:
  assumes "distinct (map fst cs)" "map_of cs a = Some c" "\<And>k x. k \<noteq> a \<Longrightarrow> F' k x = F k x"
  shows "(\<Sum>(k, x)\<leftarrow>map (\<lambda>(k, x). (k, if k = a then f x else x)) cs. F' k x) + (F a c :: nat) =
    (\<Sum>(k, x)\<leftarrow>cs. F k x) + F' a (f c)"
  using assms(1,2)
proof (induction cs)
  case (Cons p cs)
  obtain k x where p: "p = (k, x)" by force
  show ?case
  proof (cases "k = a")
    case True
    have "map (\<lambda>(k, x). (k, if k = a then f x else x)) cs = cs"
      using Cons.prems(1) p True by (intro map_idI) (auto simp: rev_image_eqI)
    moreover have "(\<Sum>(k, x)\<leftarrow>cs. F' k x) = (\<Sum>(k, x)\<leftarrow>cs. F k x)"
    proof (intro arg_cong [of _ _ sum_list] map_cong refl)
      fix q assume "q \<in> set cs"
      then have "fst q \<noteq> a" using Cons.prems(1) p True by auto
      then show "(case q of (k, x) \<Rightarrow> F' k x) = (case q of (k, x) \<Rightarrow> F k x)"
        using assms(3) by (cases q) simp
    qed
    ultimately show ?thesis using Cons.prems(2) p True by simp
  next
    case False
    then show ?thesis using Cons p assms(3) by simp
  qed
qed simp

lemma charged_update:
  assumes "distinct (map fst (dc_caches s))" "map_of (dc_caches s) a = Some c"
    and "\<And>k x. k \<noteq> a \<Longrightarrow> entries work' k x = entries work k x"
  shows "charged work' (update_cache a f s) + accounted (entries work a c) =
    charged work s + accounted (entries work' a (f c))"
  unfolding charged_def update_cache_def
  using sum_update [OF assms(1,2), of "\<lambda>k x. accounted (entries work' k x)" "\<lambda>k x. accounted (entries work k x)" f]
    assms(3) by simp

text \<open>A change of one cache and its in-flight work, with the new charge.\<close>

lemma books_update:
  assumes "books A work s" "map_of (dc_caches s) a = Some c"
    and "\<And>k x. k \<noteq> a \<Longrightarrow> entries work' k x = entries work k x"
    and "distinct (map wk_archive work')" "wk_archive ` set work' \<subseteq> fst ` set (dc_caches s)"
    and "cache_ok A work' a (f c)"
    and "dc_caches s' = dc_caches (update_cache a f s)"
    and "unat (dc_pendingBytes s') + accounted (entries work a c) + unat (dc_committedReservations s) =
      unat (dc_pendingBytes s) + accounted (entries work' a (f c)) + unat (dc_committedReservations s')"
    and "dc_pendingBytes s' \<le> kMaxPendingMemoryBytes"
  shows "books A work' s'"
proof -
  have keys: "distinct (map fst (dc_caches s))" using assms(1) by (simp add: books_def)
  have "charged work' s' + accounted (entries work a c) = charged work s + accounted (entries work' a (f c))"
    using charged_update [OF keys assms(2,3), of f] assms(7) by (simp add: charged_def)
  then have "unat (dc_pendingBytes s') = charged work' s' + unat (dc_committedReservations s')"
    using assms(1,8) by (simp add: books_def)
  moreover have "cache_ok A work' k x" if kx: "(k, x) \<in> set (dc_caches s')" for k x
  proof -
    obtain y where y: "(k, y) \<in> set (dc_caches s)" "x = (if k = a then f y else y)"
      using kx unfolding assms(7) caches_update_cache by blast
    show ?thesis
    proof (cases "k = a")
      case True
      then have "y = c" using y(1) assms(2) keys by (simp add: map_of_is_SomeI)
      then show ?thesis using y(2) True assms(6) by simp
    next
      case False
      have "cache_ok A work k y" using assms(1) y(1) by (auto simp: books_def)
      then show ?thesis using False y(2) assms(3) by (simp add: cache_ok_def)
    qed
  qed
  moreover have "map fst (dc_caches s') = map fst (dc_caches s)" unfolding assms(7) by simp
  moreover from this have "fst ` set (dc_caches s') = fst ` set (dc_caches s)" by (metis set_map)
  ultimately show ?thesis
    using assms(4,5,9) keys by (auto simp: books_def)
qed

text \<open>Changes that leave every cache's entries alone.\<close>

lemma books_frame:
  assumes "books A work s" "dc_pendingBytes s' = dc_pendingBytes s"
    and "dc_committedReservations s' = dc_committedReservations s" "dc_caches s' = dc_caches s"
  shows "books A work s'"
  using assms by (simp add: books_def charged_def)

lemma books_same_entries:
  assumes "books A work s" "\<And>c. ac_pending (f c) = ac_pending c"
    and "\<And>c. ac_bufferedOffsets (f c) = ac_bufferedOffsets c"
    and "\<And>c. map_of (dc_caches s) a = Some c \<Longrightarrow> ac_view (f c) = None \<Longrightarrow>
      ac_view c = None \<or> ac_bufferedOffsets c = {}"
  shows "books A work (update_cache a f s)"
proof (cases "map_of (dc_caches s) a")
  case None
  then have "map (\<lambda>(k, c). (k, if k = a then f c else c)) (dc_caches s) = dc_caches s"
    by (intro map_idI) (force simp: map_of_eq_None_iff)
  then have "update_cache a f s = s" by (simp add: update_cache_def)
  then show ?thesis using assms(1) by simp
next
  case (Some c)
  then have ok: "cache_ok A work a c"
    using assms(1) by (auto simp: books_def dest: map_of_SomeD)
  have e: "entries work a (f c) = entries work a c" using assms(2) by (simp add: entries_def)
  have "cache_ok A work a (f c)"
    using ok assms(3,4) Some e by (auto simp: cache_ok_def)
  with Some assms(1) e show ?thesis
    by (intro books_update [OF assms(1) Some, where f = f]) (simp_all add: books_def)
qed

section \<open>Lookups and reports\<close>

lemma count_if_frame [simp]:
  "dc_caches (count_if b k n s) = dc_caches s" "dc_pendingBytes (count_if b k n s) = dc_pendingBytes s"
  "dc_committedReservations (count_if b k n s) = dc_committedReservations s"
  "dc_totalCacheBytes (count_if b k n s) = dc_totalCacheBytes s"
  "dc_views (count_if b k n s) = dc_views s" "dc_building (count_if b k n s) = dc_building s"
  by (simp_all add: count_if_def)

lemma RequestFlush_frame [simp]:
  "dc_caches (RequestFlush s) = dc_caches s" "dc_pendingBytes (RequestFlush s) = dc_pendingBytes s"
  "dc_committedReservations (RequestFlush s) = dc_committedReservations s"
  "dc_totalCacheBytes (RequestFlush s) = dc_totalCacheBytes s" "dc_views (RequestFlush s) = dc_views s"
  by (simp_all add: RequestFlush_def Let_def)

lemma RequestWarmup_frame [simp]:
  "dc_caches (RequestWarmup cfg q s) = dc_caches s" "dc_pendingBytes (RequestWarmup cfg q s) = dc_pendingBytes s"
  "dc_committedReservations (RequestWarmup cfg q s) = dc_committedReservations s"
  "dc_totalCacheBytes (RequestWarmup cfg q s) = dc_totalCacheBytes s"
  "dc_views (RequestWarmup cfg q s) = dc_views s"
  by (simp_all add: RequestWarmup_def Let_def)

lemma next_epoch_frame [simp]:
  "dc_caches (next_epoch s) = dc_caches s" "dc_pendingBytes (next_epoch s) = dc_pendingBytes s"
  "dc_committedReservations (next_epoch s) = dc_committedReservations s"
  "dc_totalCacheBytes (next_epoch s) = dc_totalCacheBytes s" "dc_views (next_epoch s) = dc_views s"
  by (simp_all add: next_epoch_def)

lemma update_view_frame [simp]:
  "dc_caches (update_view v f s) = dc_caches s" "dc_pendingBytes (update_view v f s) = dc_pendingBytes s"
  "dc_committedReservations (update_view v f s) = dc_committedReservations s"
  "dc_totalCacheBytes (update_view v f s) = dc_totalCacheBytes s"
  by (simp_all add: update_view_def)

lemma verify_in_view_frame:
  "verify_in_view cfg env v e s = (r, s') \<Longrightarrow>
     dc_caches s' = dc_caches s \<and> dc_pendingBytes s' = dc_pendingBytes s \<and>
     dc_committedReservations s' = dc_committedReservations s \<and> dc_totalCacheBytes s' = dc_totalCacheBytes s"
  by (auto simp: verify_in_view_def Let_def split: prod.splits)

lemma books_invalidate: "books A work s \<Longrightarrow> books A work (snd (invalidate_cache a s))"
  by (auto simp: invalidate_cache_def intro!: books_same_entries split: option.splits)

lemmas books_frames = books_frame [OF _ RequestFlush_frame(2,3,1)] books_frame [OF _ RequestWarmup_frame(2,3,1)]
  books_frame [OF _ next_epoch_frame(2,3,1)] books_frame [OF _ count_if_frame(2,3,1)]
  books_frame [OF _ update_view_frame(2,3,1)]

lemma books_makeResult:
  assumes "books A work s" "makeResult cfg env a v e s = (r, s')"
  shows "books A work s'"
proof -
  obtain ver s1 where ver: "verify_in_view cfg env v e s = (ver, s1)" by force
  have b1: "books A work s1"
    using verify_in_view_frame [OF ver] by (intro books_frame [OF assms(1)]) simp_all
  obtain n s4 where inv: "invalidate_cache a (update_view v (\<lambda>w. w\<lparr>mv_unusable := True\<rparr>)
      (count_if (cfg_bMeasureStats cfg) dg_checksumFailures_update 1 s1)) = (n, s4)" by force
  have "books A work s4"
    using books_invalidate [OF books_frames(5) [OF books_frames(4) [OF b1]]] inv by (metis snd_conv)
  with assms(2) ver inv b1 show ?thesis
    by (auto simp: makeResult_def Let_def intro: books_frames split: if_splits)
qed

lemma books_Lookup:
  assumes "books A work s" "Lookup cfg env a off s = (r, s')"
  shows "books A work s'"
proof -
  have t: "books A work (update_cache a (\<lambda>c. c\<lparr>ac_lastAccessMs := n\<rparr>) x)" if "books A work x" for n x
    using that by (intro books_same_entries) simp_all
  show ?thesis
    using assms
    by (auto simp: Lookup_def Let_def intro: books_frames t elim!: books_makeResult [rotated]
        split: option.splits if_splits)
qed

lemma books_ReportMappingIoFailure:
  assumes "books A work s"
  shows "books A work (ReportMappingIoFailure cfg q owner s)"
proof (cases owner)
  case None
  then show ?thesis using assms by (simp add: ReportMappingIoFailure_def)
next
  case (Some v)
  let ?s1 = "update_view v (\<lambda>w. w\<lparr>mv_unusable := True\<rparr>) s"
  define res where "res = (case find (\<lambda>(archive, cache). ac_view cache = Some v) (dc_caches ?s1) of
      None \<Rightarrow> (False, ?s1) | Some (archive, cache) \<Rightarrow> invalidate_cache archive ?s1)"
  have "books A work (snd res)"
    using books_frames(5) [OF assms] books_invalidate by (auto simp: res_def split: option.splits)
  moreover obtain n s2 where "res = (n, s2)" by force
  ultimately show ?thesis
    using Some unfolding res_def
    by (simp add: ReportMappingIoFailure_def Let_def books_frames)
qed

section \<open>Recording\<close>

lemma fixed_overhead_Some:
  assumes "fixed_overhead (A a) c = Some fixed"
  shows "unat fixed = (if (ac_view c = None \<or> ac_diskInvalidated c) \<and> ac_bufferedOffsets c = {}
    then footprint A a else 0)"
proof (cases "(ac_view c = None \<or> ac_diskInvalidated c) \<and> ac_bufferedOffsets c = {}")
  case True
  then have "AddChecked (of_nat sizeof_Header)
      (u64_of_u32 (b_fileCount (ma_header (A a))) * of_nat sizeof_Entry) = Some fixed"
    using assms by (simp add: fixed_overhead_def)
  then show ?thesis
    using True unfolding AddChecked_Some_iff unat_index_bytes
    by (simp add: footprint_def sizeof_Header_def sizeof_Entry_def)
next
  case False
  then show ?thesis using assms unfolding fixed_overhead_def by (auto split: if_splits)
qed

text \<open>What an admission guarantees.\<close>

lemma admit_True:
  assumes "admit cfg now n s = (True, s')"
  shows "s' = s\<lparr>dc_pendingBytes := dc_pendingBytes s + n\<rparr>"
    and "unat (dc_pendingBytes s + n) = unat (dc_pendingBytes s) + unat n"
    and "unat (dc_pendingBytes s) + unat n \<le> unat kMaxPendingMemoryBytes"
    and "unat (dc_totalCacheBytes s) + unat (dc_pendingBytes s) + unat n \<le> unat (cfg_uDecompCacheMaxBytes cfg)"
proof -
  let ?b = "dc_pendingBytes s" and ?d = "dc_totalCacheBytes s" and ?cap = "cfg_uDecompCacheMaxBytes cfg"
  have c: "?b \<le> kMaxPendingMemoryBytes" "n \<le> kMaxPendingMemoryBytes - ?b" "?d < ?cap"
    "?b \<le> ?cap - ?d" "n \<le> ?cap - ?d - ?b" and s: "s' = s\<lparr>dc_pendingBytes := ?b + n\<rparr>"
    using assms by (auto simp: admit_def Let_def not_less split: if_splits)
  show "s' = s\<lparr>dc_pendingBytes := ?b + n\<rparr>" by (rule s)
  show mem: "unat ?b + unat n \<le> unat kMaxPendingMemoryBytes"
    using c(1,2) by (simp add: word_le_nat_alt unat_sub_le)
  then show "unat (?b + n) = unat ?b + unat n" by (rule unat_add_le)
  have "unat (?cap - ?d) = unat ?cap - unat ?d" using c(3) by (intro unat_sub_le) simp
  moreover have "unat (?cap - ?d - ?b) = unat (?cap - ?d) - unat ?b" using c(4) by (rule unat_sub_le)
  moreover have "unat ?d < unat ?cap" "unat ?b \<le> unat (?cap - ?d)" "unat n \<le> unat (?cap - ?d - ?b)"
    using c by (simp_all add: word_le_nat_alt word_less_nat_alt)
  ultimately show "unat ?d + unat ?b + unat n \<le> unat ?cap" by linarith
qed

lemma reject_over_cap_frame:
  "dc_caches (reject_over_cap cfg now n s) = dc_caches s"
  "dc_pendingBytes (reject_over_cap cfg now n s) = dc_pendingBytes s"
  "dc_committedReservations (reject_over_cap cfg now n s) = dc_committedReservations s"
  by (simp_all add: reject_over_cap_def raise_headroom_def Let_def)

lemma admit_False:
  "admit cfg now n s = (False, s') \<Longrightarrow> dc_caches s' = dc_caches s \<and>
     dc_pendingBytes s' = dc_pendingBytes s \<and> dc_committedReservations s' = dc_committedReservations s"
  by (auto simp: admit_def Let_def reject_over_cap_frame split: if_splits)

text \<open>One more payload at the end of the queue of its archive.\<close>

lemma cache_ok_enqueue:
  assumes "cache_ok A work a c" "off \<notin> ac_bufferedOffsets c" "pe_startOffset p = off" "entry_ok p"
    and "unat (pe_accountedBytes p) = length (pe_data p) +
      (if (ac_view c = None \<or> ac_diskInvalidated c) \<and> ac_bufferedOffsets c = {} then footprint A a else 0)"
    and "ac_pending c' = ac_pending c @ [p]" "ac_bufferedOffsets c' = insert off (ac_bufferedOffsets c)"
    and "ac_view c' = ac_view c"
  shows "cache_ok A work a c' \<and>
    accounted (entries work a c') = accounted (entries work a c) + unat (pe_accountedBytes p)"
proof -
  obtain r where e: "entries work a c = ac_pending c @ r" "entries work a c' = ac_pending c @ p # r"
    using assms(6) by (simp add: entries_def)
  have empty: "ac_pending c @ r = [] \<longleftrightarrow> ac_bufferedOffsets c = {}"
    using assms(1) e(1) by (auto simp: cache_ok_def)
  have acc: "accounted (entries work a c') = accounted (entries work a c) + unat (pe_accountedBytes p)"
    by (simp add: e)
  have "off \<notin> pe_startOffset ` set (ac_pending c @ r)"
    using assms(1,2) e(1) by (simp add: cache_ok_def)
  then have "distinct (map pe_startOffset (entries work a c'))"
    "pe_startOffset ` set (entries work a c') = ac_bufferedOffsets c'"
    "\<forall>q \<in> set (entries work a c'). entry_ok q"
    using assms(1,3,4,7) unfolding cache_ok_def e by auto
  moreover have "accounted (entries work a c') = footprint A a + payload_sum (entries work a c')"
    if v: "ac_view c = None"
  proof (cases "ac_bufferedOffsets c = {}")
    case True
    with empty have "ac_pending c = []" "r = []" by auto
    then show ?thesis using assms(5) v True by (simp add: e)
  next
    case False
    then have "accounted (entries work a c) = footprint A a + payload_sum (entries work a c)"
      using assms(1) v empty e(1) by (simp add: cache_ok_def)
    then show ?thesis using assms(5) False by (simp add: e)
  qed
  ultimately show ?thesis using acc assms(8) by (simp add: cache_ok_def)
qed

lemma books_enqueue:
  assumes "books A work s" "map_of (dc_caches s) a = Some c" "off \<notin> ac_bufferedOffsets c"
    and "payload \<noteq> []" "length payload \<le> unat kMaxPayloadSize"
    and "fixed_overhead (A a) c = Some fixed"
    and "AddChecked (of_nat (length payload)) fixed = Some n"
    and "admit cfg now n s = (True, s1)" "enqueue env a off n payload s1 = (thrown, s')"
  shows "books A work s'"
proof -
  note adm = admit_True [OF assms(8)]
  let ?p = "\<lparr>pe_startOffset = off, pe_accountedBytes = n, pe_data = payload\<rparr>"
  let ?f = "\<lambda>c. c\<lparr>ac_bufferedOffsets := insert off (ac_bufferedOffsets c),
      ac_pending := ac_pending c @ [?p], ac_lastAccessMs := re_now env\<rparr>"
  have n: "unat n = length payload + unat fixed"
    using assms(5,7) by (simp add: AddChecked_Some_iff kMaxPayloadSize_def unat_of_nat take_bit_nat_eq_self)
  show ?thesis
  proof (cases "re_alloc env = AllocOk")
    case False
    then have "s' = s1\<lparr>dc_pendingBytes := dc_pendingBytes s1 - n\<rparr>"
      using assms(9) by (cases "re_alloc env") (simp_all add: enqueue_def Let_def)
    then show ?thesis unfolding adm(1) by (intro books_frame [OF assms(1)]) simp_all
  next
    case True
    have ok: "cache_ok A work a c"
      using assms(1,2) by (auto simp: books_def dest: map_of_SomeD)
    have new: "cache_ok A work a (?f c) \<and>
        accounted (entries work a (?f c)) = accounted (entries work a c) + unat n"
      using cache_ok_enqueue [OF ok assms(3), of ?p "?f c"] assms(4,5) n fixed_overhead_Some [of A a, OF assms(6)]
      by (simp add: entry_ok_def)
    have keep: "distinct (map wk_archive work)" "wk_archive ` set work \<subseteq> fst ` set (dc_caches s)"
      using assms(1) by (simp_all add: books_def)
    have "books A work (update_cache a ?f s1)"
    proof (rule books_update [OF assms(1,2) _ keep])
      show "unat (dc_pendingBytes (update_cache a ?f s1)) + accounted (entries work a c) +
          unat (dc_committedReservations s) =
        unat (dc_pendingBytes s) + accounted (entries work a (?f c)) +
          unat (dc_committedReservations (update_cache a ?f s1))"
        using new adm(2) unfolding adm(1) by simp
      show "dc_pendingBytes (update_cache a ?f s1) \<le> kMaxPendingMemoryBytes"
        using adm(2,3) unfolding adm(1) by (simp add: word_le_nat_alt)
      show "dc_caches (update_cache a ?f s1) = dc_caches (update_cache a ?f s)"
        unfolding adm(1) by (simp add: update_cache_def)
    qed (use new in simp_all)
    then show ?thesis
      using assms(9) True by (auto simp: enqueue_def Let_def intro: books_frames split: if_splits)
  qed
qed

text \<open>The outcomes of a recording.\<close>

lemma Record_cases:
  assumes "RecordDecompressed cfg env A arch off payload s = (thrown, s')"
  obtains (Refused) "\<not> thrown" "s' = s"
  | (Duplicate) "\<not> thrown" "s' = count_if True dg_duplicates_update 1 s"
  | (TooLarge) "\<not> thrown" "s' = count_if True dg_diskCapRejects_update 1 s"
  | (Rejected) n where "\<not> thrown" "admit cfg (re_now env) n s = (False, s')"
  | (Queued) a c fixed n s1 where "arch = Some a" "map_of (dc_caches s) a = Some c"
      "off \<notin> ac_bufferedOffsets c" "payload \<noteq> []" "length payload \<le> unat kMaxPayloadSize"
      "fixed_overhead (A a) c = Some fixed" "AddChecked (of_nat (length payload)) fixed = Some n"
      "admit cfg (re_now env) n s = (True, s1)" "enqueue env a off n payload s1 = (thrown, s')"
proof (cases "arch = None \<or> \<not> dc_building s \<or> payload = [] \<or> length payload > unat kMaxPayloadSize \<or>
    map_of (dc_caches s) (the arch) = None")
  case True
  then show ?thesis using assms Refused by (auto simp: RecordDecompressed_def split: option.splits)
next
  case False
  then obtain a c where a: "arch = Some a" and ok: "dc_building s" "payload \<noteq> []"
      "length payload \<le> unat kMaxPayloadSize" and c: "map_of (dc_caches s) a = Some c"
    by auto
  define known where "known = (case map_of (ac_index c) off of None \<Rightarrow> False
      | Some existing \<Rightarrow> (case ac_view c of None \<Rightarrow> False
          | Some v \<Rightarrow> mv_verification (dc_views s ! v) ! ce_slot existing \<noteq> kVerifyInvalid))"
  note r = assms [unfolded RecordDecompressed_def Let_def, simplified a ok c option.case, folded known_def]
  show ?thesis
  proof (cases "\<not> ac_diskInvalidated c \<and> known \<or> off \<in> ac_bufferedOffsets c")
    case True
    then show ?thesis using r ok Duplicate by auto
  next
    case off: False
    show ?thesis
    proof (cases "fixed_overhead (A a) c")
      case None
      then show ?thesis using r ok off TooLarge by auto
    next
      case fixed: (Some fixed)
      show ?thesis
      proof (cases "AddChecked (of_nat (length payload)) fixed :: u64 option")
        case None
        then show ?thesis using r ok off fixed TooLarge by auto
      next
        case n: (Some n)
        obtain b s1 where adm: "admit cfg (re_now env) n s = (b, s1)" by force
        show ?thesis
        proof (cases b)
          case True
          then show ?thesis using r ok off fixed n adm a c by (intro Queued) auto
        next
          case False
          then show ?thesis using r ok off fixed n adm by (intro Rejected [of n]) auto
        qed
      qed
    qed
  qed
qed

lemma books_RecordDecompressed:
  assumes "books A work s" "RecordDecompressed cfg env A arch off payload s = (thrown, s')"
  shows "books A work s'"
  using assms(2)
proof (cases rule: Record_cases)
  case Rejected
  from admit_False [OF this(2)] show ?thesis by (intro books_frame [OF assms(1)]) simp_all
next
  case Queued
  then show ?thesis by (intro books_enqueue [OF assms(1)])
qed (use assms(1) in \<open>auto intro: books_frames\<close>)

section \<open>The phases of a flush\<close>

lemma work_pending_inverse [simp]: "work_pending (pending_work p) = p"
  by (simp add: work_pending_def pending_work_def)

lemma work_pending_sel [simp]:
  "pe_startOffset (work_pending p) = op_off p" "pe_accountedBytes (work_pending p) = op_accountedBytes p"
  "pe_data (work_pending p) = op_data p"
  by (simp_all add: work_pending_def)

lemma plan_item_sel [simp]:
  "wk_archive (plan_item h s (a, c)) = a"
  "wk_pending (plan_item h s (a, c)) = map pending_work (ac_pending c)"
  by (simp_all add: plan_item_def Let_def)

lemma entries_planned:
  assumes "distinct (map fst cs)" "(a, c) \<in> set cs"
  shows "entries (map (plan_item h s) (filter (\<lambda>(a, c). ac_pending c \<noteq> []) cs)) a (c\<lparr>ac_pending := []\<rparr>) =
    ac_pending c"
proof -
  let ?g = "\<lambda>i. map work_pending (wk_pending i)" and ?P = "\<lambda>(a, c). ac_pending c \<noteq> []"
  have "concat (map ?g (filter (\<lambda>i. wk_archive i = a) (map (plan_item h s) (filter ?P cs)))) = ac_pending c"
    using assms
  proof (induction cs)
    case (Cons p cs)
    obtain k x where p: "p = (k, x)" by force
    have map_id: "map (work_pending \<circ> pending_work) xs = xs" for xs
      by (induction xs) simp_all
    show ?case
    proof (cases "k = a")
      case True
      then have x: "x = c" and "a \<notin> fst ` set cs"
        using Cons.prems p by (auto simp: rev_image_eqI)
      then have "filter (\<lambda>i. wk_archive i = a) (map (plan_item h s) (filter ?P cs)) = []"
        by (auto simp: filter_empty_conv rev_image_eqI)
      then show ?thesis using p True x by (simp add: map_id)
    next
      case False
      then show ?thesis using Cons p by simp
    qed
  qed simp
  then show ?thesis by (simp add: entries_def)
qed

lemma books_plan:
  assumes "books A [] s" "plan_flush h s = (items, s')"
  shows "books A items s'"
proof -
  let ?cs = "dc_caches s"
  have keys: "distinct (map fst ?cs)" using assms(1) by (simp add: books_def)
  have items: "items = map (plan_item h s) (filter (\<lambda>(a, c). ac_pending c \<noteq> []) ?cs)"
    and s': "s' = s\<lparr>dc_caches := map (\<lambda>(a, c). (a, c\<lparr>ac_pending := []\<rparr>)) ?cs\<rparr>"
    using assms(2) by (simp_all add: plan_flush_def)
  have e: "entries items a (c\<lparr>ac_pending := []\<rparr>) = entries [] a c" if "(a, c) \<in> set ?cs" for a c
    using entries_planned [OF keys that, of h s] unfolding items by simp
  have "charged items s' = charged [] s"
    unfolding charged_def s'
    using e by (auto intro!: arg_cong [of _ _ sum_list] simp: case_prod_beta)
  moreover have "cache_ok A items a x" if ax: "(a, x) \<in> set (dc_caches s')" for a x
  proof -
    obtain c where c: "(a, c) \<in> set ?cs" "x = c\<lparr>ac_pending := []\<rparr>" using ax unfolding s' by auto
    then have "cache_ok A [] a c" using assms(1) by (auto simp: books_def)
    then show ?thesis using e [OF c(1)] c(2) by (simp add: cache_ok_def)
  qed
  moreover have "map wk_archive items = map fst (filter (\<lambda>(a, c). ac_pending c \<noteq> []) ?cs)"
    unfolding items by (simp add: comp_def case_prod_beta plan_item_def Let_def)
  then have "distinct (map wk_archive items)" "wk_archive ` set items \<subseteq> fst ` set ?cs"
    using keys distinct_map_filter by (metis, metis filter_is_subset image_mono list.set_map)
  moreover have "fst ` set (dc_caches s') = fst ` set ?cs" "map fst (dc_caches s') = map fst ?cs"
    by (auto simp: s' image_image case_prod_beta comp_def)
  moreover have "dc_pendingBytes s' = dc_pendingBytes s"
    "dc_committedReservations s' = dc_committedReservations s"
    by (simp_all add: s')
  ultimately show ?thesis
    using assms(1) unfolding books_def by auto
qed

lemma accounted_sum_unat:
  assumes "accounted (map work_pending ps) < 2 ^ 64"
  shows "unat (accounted_sum ps) = accounted (map work_pending ps)"
proof -
  have "unat (foldl (\<lambda>acc p. acc + op_accountedBytes p) acc ps) = unat acc + accounted (map work_pending ps)"
    if "unat acc + accounted (map work_pending ps) < 2 ^ 64" for acc :: u64
    using that
  proof (induction ps arbitrary: acc)
    case (Cons p ps)
    have "unat (acc + op_accountedBytes p) = unat acc + unat (op_accountedBytes p)"
      using Cons.prems by (intro unat_add_noovf) simp
    with Cons show ?case by simp
  qed simp
  from this [of 0] assms show ?thesis by (simp add: accounted_sum_def)
qed

lemma surplus_sum_unat:
  assumes "accounted (map work_pending ps) < 2 ^ 64" "\<forall>p \<in> set (map work_pending ps). entry_ok p"
  shows "unat (surplus_sum ps) + payload_sum (map work_pending ps) = accounted (map work_pending ps)"
proof -
  let ?step = "\<lambda>acc p. if op_accountedBytes p > of_nat (length (op_data p))
     then acc + (op_accountedBytes p - of_nat (length (op_data p))) else (acc :: u64)"
  have "unat (foldl ?step acc ps) + payload_sum (map work_pending ps) = unat acc + accounted (map work_pending ps)"
    if "unat acc + accounted (map work_pending ps) < 2 ^ 64" "\<forall>p \<in> set (map work_pending ps). entry_ok p"
    for acc :: u64
    using that
  proof (induction ps arbitrary: acc)
    case (Cons p ps)
    let ?l = "of_nat (length (op_data p)) :: u64"
    have ok: "length (op_data p) \<le> unat (op_accountedBytes p)" "length (op_data p) \<le> unat kMaxPayloadSize"
      using Cons.prems(2) by (simp_all add: entry_ok_def)
    then have l: "unat ?l = length (op_data p)"
      by (simp add: kMaxPayloadSize_def unat_of_nat take_bit_nat_eq_self)
    have step: "unat (?step acc p) + length (op_data p) = unat acc + unat (op_accountedBytes p)"
    proof (cases "op_accountedBytes p > ?l")
      case True
      have "unat (op_accountedBytes p - ?l) = unat (op_accountedBytes p) - length (op_data p)"
        using True l by (simp add: unat_sub_le)
      moreover from this have "unat (acc + (op_accountedBytes p - ?l)) = unat acc + unat (op_accountedBytes p - ?l)"
        using Cons.prems(1) by (intro unat_add_noovf) simp
      ultimately show ?thesis using True ok(1) by simp
    next
      case False
      then show ?thesis using l ok(1) by (simp add: word_less_nat_alt)
    qed
    define acc' where "acc' = ?step acc p"
    have "unat acc' + accounted (map work_pending ps) < 2 ^ 64"
      using Cons.prems(1) step unfolding acc'_def [symmetric] by simp
    from Cons.IH [OF this] Cons.prems(2) step show ?case unfolding acc'_def [symmetric]
      by (simp only: foldl_Cons acc'_def [symmetric]) simp
  qed simp
  from this [of 0] assms show ?thesis by (simp add: surplus_sum_def)
qed

text \<open>What the books say about the head of the work list.\<close>

lemma books_item:
  assumes "books A (item # work) s" "map_of (dc_caches s) (wk_archive item) = Some c"
  shows "\<And>c'. entries work (wk_archive item) c' = ac_pending c'"
    and "entries (item # work) (wk_archive item) c = ac_pending c @ map work_pending (wk_pending item)"
    and "cache_ok A (item # work) (wk_archive item) c"
    and "\<And>k x. k \<noteq> wk_archive item \<Longrightarrow> entries work k x = entries (item # work) k x"
    and "distinct (map wk_archive work)" "wk_archive ` set work \<subseteq> fst ` set (dc_caches s)"
    and "accounted (map work_pending (wk_pending item)) + accounted (ac_pending c) +
      unat (dc_committedReservations s) \<le> unat (dc_pendingBytes s)"
    and "unat (dc_pendingBytes s) \<le> unat kMaxPendingMemoryBytes"
proof -
  let ?a = "wk_archive item"
  have "?a \<notin> wk_archive ` set work" using assms(1) by (simp add: books_def)
  then show e: "\<And>c'. entries work ?a c' = ac_pending c'" by (rule entries_fresh)
  then show en: "entries (item # work) ?a c = ac_pending c @ map work_pending (wk_pending item)"
    by (simp add: entries_Cons)
  show "cache_ok A (item # work) ?a c"
    using assms by (auto simp: books_def dest: map_of_SomeD)
  show "\<And>k x. k \<noteq> ?a \<Longrightarrow> entries work k x = entries (item # work) k x"
    by (simp add: entries_other)
  show "distinct (map wk_archive work)" "wk_archive ` set work \<subseteq> fst ` set (dc_caches s)"
    using assms(1) by (simp_all add: books_def)
  have "accounted (entries (item # work) ?a c) \<le> charged (item # work) s"
    unfolding charged_def using map_of_SomeD [OF assms(2)]
    by (intro member_le_sum_list) (auto simp: rev_image_eqI image_iff intro: bexI [of _ "(wk_archive item, c)"])
  then show "accounted (map work_pending (wk_pending item)) + accounted (ac_pending c) +
      unat (dc_committedReservations s) \<le> unat (dc_pendingBytes s)"
    using assms(1) en by (simp add: books_def)
  show "unat (dc_pendingBytes s) \<le> unat kMaxPendingMemoryBytes"
    using assms(1) by (simp add: books_def word_le_nat_alt)
qed

text \<open>The offsets of an item leave the markers.\<close>

lemma cache_ok_unmark:
  assumes "cache_ok A (item # work) a c"
    and "entries (item # work) a c = ac_pending c @ map work_pending (wk_pending item)"
    and "entries work a c' = es" "map pe_startOffset es = map pe_startOffset (ac_pending c)"
    and "\<forall>p \<in> set es. entry_ok p"
    and "ac_bufferedOffsets c' = ac_bufferedOffsets c - op_off ` set (wk_pending item)"
    and "ac_view c' = None \<and> es \<noteq> [] \<Longrightarrow> accounted es = footprint A a + payload_sum es"
  shows "cache_ok A work a c'"
proof -
  have d: "distinct (map pe_startOffset (ac_pending c) @ map op_off (wk_pending item))"
    and b: "ac_bufferedOffsets c = pe_startOffset ` set (ac_pending c) \<union> op_off ` set (wk_pending item)"
    using assms(1,2) by (auto simp: cache_ok_def comp_def image_Un image_image)
  have "pe_startOffset ` set es = pe_startOffset ` set (ac_pending c)"
    using assms(4) by (metis set_map)
  also have "\<dots> = ac_bufferedOffsets c'"
    using d b assms(6) by auto
  finally show ?thesis
    using d assms(3,4,5,7) by (simp add: cache_ok_def)
qed

lemma kMaxPending_lt: "unat kMaxPendingMemoryBytes < 2 ^ 64"
  by (simp add: kMaxPendingMemoryBytes_def kBytesPerMB_def)

lemma books_install_result:
  assumes "books A (item # work) s" "map_of (dc_caches s) (wk_archive item) = Some c"
  shows "books A work (install_result item result view s)"
proof -
  note it = books_item [OF assms]
  let ?a = "wk_archive item" and ?n = "accounted (map work_pending (wk_pending item))"
  let ?f = "\<lambda>c. c\<lparr>ac_view := Some (length (dc_views s)), ac_index := ol_index result,
      ac_activePath := wk_basePath item, ac_onDiskBytes := of_nat (ol_fileSize result),
      ac_diskInvalidated := False, ac_needsReplacement := False,
      ac_bufferedOffsets := ac_bufferedOffsets c - op_off ` set (wk_pending item)\<rparr>"
  have lt: "?n + unat (dc_committedReservations s) < 2 ^ 64" using it(7,8) kMaxPending_lt by linarith
  then have n: "unat (accounted_sum (wk_pending item)) = ?n" by (intro accounted_sum_unat) simp
  have res: "unat (dc_committedReservations s + accounted_sum (wk_pending item)) =
      unat (dc_committedReservations s) + ?n"
    using lt n by (subst unat_add_noovf) simp_all
  let ?s' = "install_result item result view s"
  have sel: "dc_caches ?s' = dc_caches (update_cache ?a ?f s)" "dc_pendingBytes ?s' = dc_pendingBytes s"
    "dc_committedReservations ?s' = dc_committedReservations s + accounted_sum (wk_pending item)"
    by (simp_all add: install_result_def add_view_def Let_def update_cache_def next_epoch_def)
  have ok: "cache_ok A work ?a (?f c)"
    by (rule cache_ok_unmark [OF it(3,2)], rule it(1)) (use it(2,3) in \<open>auto simp: cache_ok_def\<close>)
  show ?thesis
    by (rule books_update [OF assms(1,2) it(4-6), where f = ?f], assumption, rule ok, rule sel(1))
      (use it(1,2,8) res in \<open>simp_all add: sel word_le_nat_alt\<close>)
qed

lemma books_requeue:
  assumes "books A (item # work) s" "map_of (dc_caches s) (wk_archive item) = Some c"
  shows "books A work (requeue item s)"
proof -
  note it = books_item [OF assms]
  let ?f = "\<lambda>c. c\<lparr>ac_pending := ac_pending c @ map work_pending (wk_pending item)\<rparr>"
  have e: "entries work (wk_archive item) (?f c) = entries (item # work) (wk_archive item) c"
    unfolding it(1,2) by simp
  have ok: "cache_ok A work (wk_archive item) (?f c)"
    using it(3) e by (simp add: cache_ok_def)
  show ?thesis unfolding requeue_def
    by (rule books_update [OF assms(1,2) it(4-6), where f = ?f], assumption, rule ok, rule refl)
      (use e it(8) in \<open>simp_all add: word_le_nat_alt\<close>)
qed

lemma books_release:
  assumes "books A (item # work) s" "map_of (dc_caches s) (wk_archive item) = Some c"
  shows "books A work (release_item item s)"
proof -
  note it = books_item [OF assms]
  let ?a = "wk_archive item" and ?ps = "map work_pending (wk_pending item)"
  let ?n = "accounted ?ps" and ?b = "dc_pendingBytes s"
  have lt: "?n < 2 ^ 64" using it(7,8) kMaxPending_lt by linarith
  then have n: "unat (accounted_sum (wk_pending item)) = ?n" by (rule accounted_sum_unat)
  have eok: "\<forall>p \<in> set ?ps. entry_ok p" "\<forall>p \<in> set (ac_pending c). entry_ok p"
    using it(2,3) by (auto simp: cache_ok_def)
  have x: "unat (surplus_sum (wk_pending item)) + payload_sum ?ps = ?n"
    by (rule surplus_sum_unat [OF lt eok(1)])
  define x' where "x' = surplus_sum (wk_pending item)"
  let ?unmark = "\<lambda>c. c\<lparr>ac_bufferedOffsets := ac_bufferedOffsets c - op_off ` set (wk_pending item)\<rparr>"
  define transfer where "transfer =
    (if x' > 0 \<and> (ac_view c = None \<or> ac_diskInvalidated c) \<and> ac_pending c \<noteq> []
     then AddChecked (pe_accountedBytes (hd (ac_pending c))) x' else None)"
  have total: "accounted (ac_pending c @ ?ps) = footprint A ?a + payload_sum (ac_pending c @ ?ps)"
    if "ac_view c = None" "ac_pending c @ ?ps \<noteq> []"
    using it(2,3) that by (simp add: cache_ok_def)
  show ?thesis
  proof (cases transfer)
    case None
    have s': "release_item item s =
        (update_cache ?a ?unmark s)\<lparr>dc_pendingBytes := ?b - accounted_sum (wk_pending item)\<rparr>"
      using None assms(2) unfolding transfer_def x'_def
      by (auto simp: release_item_def Let_def split: option.splits)
    have pb: "unat (?b - accounted_sum (wk_pending item)) = unat ?b - ?n"
      using it(7) n by (subst unat_sub_le) (simp_all add: word_le_nat_alt)
    have nofit: "x' = 0" if v: "ac_view c = None" "ac_pending c \<noteq> []"
    proof (rule ccontr)
      assume "x' \<noteq> 0"
      then have "2 ^ 64 \<le> unat (pe_accountedBytes (hd (ac_pending c))) + unat x'"
        using None v by (simp add: transfer_def AddChecked_None_iff word_neq_0_conv split: if_splits)
      moreover have "unat (pe_accountedBytes (hd (ac_pending c))) \<le> accounted (ac_pending c)"
        using v(2) by (cases "ac_pending c") simp_all
      ultimately show False using x it(7,8) kMaxPending_lt unfolding x'_def by linarith
    qed
    have ok: "cache_ok A work ?a (?unmark c)"
    proof (rule cache_ok_unmark [OF it(3,2)], rule it(1))
      assume v: "ac_view (?unmark c) = None \<and> ac_pending (?unmark c) \<noteq> []"
      then show "accounted (ac_pending (?unmark c)) =
          footprint A ?a + payload_sum (ac_pending (?unmark c))"
        using total nofit x unfolding x'_def by simp
    qed (use eok in simp_all)
    show ?thesis unfolding s'
      by (rule books_update [OF assms(1,2) it(4-6), where f = ?unmark], assumption, rule ok)
        (use it(1,2,7,8) pb in \<open>simp_all add: update_cache_def word_le_nat_alt\<close>)
  next
    case (Some t)
    then have p: "x' > 0" "ac_pending c \<noteq> []" "ac_view c = None \<or> ac_diskInvalidated c"
      and t: "unat t = unat (pe_accountedBytes (hd (ac_pending c))) + unat x'"
      unfolding transfer_def by (auto simp: AddChecked_Some_iff split: if_splits)
    obtain q qs where q: "ac_pending c = q # qs" using p(2) by (cases "ac_pending c") auto
    let ?f = "\<lambda>c. (?unmark c)\<lparr>ac_pending := (hd (ac_pending c))\<lparr>pe_accountedBytes := t\<rparr> # tl (ac_pending c)\<rparr>"
    have s': "release_item item s =
        (update_cache ?a ?f s)\<lparr>dc_pendingBytes := ?b - (accounted_sum (wk_pending item) - x')\<rparr>"
      using Some assms(2) unfolding transfer_def x'_def
      by (auto simp: release_item_def Let_def split: option.splits)
    have le: "x' \<le> accounted_sum (wk_pending item)" using x n unfolding x'_def word_le_nat_alt by simp
    have pb: "unat (?b - (accounted_sum (wk_pending item) - x')) = unat ?b - (?n - unat x')"
      using it(7) n le by (subst unat_sub_le) (simp_all add: word_le_nat_alt unat_sub_le)
    have es: "ac_pending (?f c) = q\<lparr>pe_accountedBytes := t\<rparr> # qs" using q by simp
    have ok: "cache_ok A work ?a (?f c)"
    proof (rule cache_ok_unmark [OF it(3,2)], rule it(1))
      show "\<forall>p \<in> set (ac_pending (?f c)). entry_ok p"
        using eok(2) t unfolding es q by (auto simp: entry_ok_def)
      assume "ac_view (?f c) = None \<and> ac_pending (?f c) \<noteq> []"
      then show "accounted (ac_pending (?f c)) = footprint A ?a + payload_sum (ac_pending (?f c))"
        using total x t unfolding x'_def [symmetric] es q by simp
    qed (simp_all add: q)
    have "unat x' \<le> ?n" using x unfolding x'_def by simp
    then show ?thesis unfolding s'
      by (intro books_update [OF assms(1,2) it(4-6), where f = ?f] ok)
        (use it(1,2,7,8) pb t q in \<open>simp_all add: update_cache_def word_le_nat_alt\<close>)
  qed
qed

lemma books_install_item:
  assumes "books A (item # work) s" "install_item h item result s = (b, s')"
  shows "books A work s'"
proof -
  have "wk_archive item \<in> fst ` set (dc_caches s)" using assms(1) by (simp add: books_def)
  then obtain c where "map_of (dc_caches s) (wk_archive item) = Some c"
    by (cases "map_of (dc_caches s) (wk_archive item)") (auto simp: map_of_eq_None_iff)
  then show ?thesis
    using assms books_install_result books_requeue books_release
    by (auto simp: install_item_def Let_def split: option.splits if_splits)
qed

end
