(* ===== verification/DecompSystem.thy ===== *)
theory DecompSystem
  imports DecompAccounting
begin

text \<open>
  The disk operations, a flush and startup against the cache they share with the hooks.  What
  they rely on is stated once, as the contract of an invariant of the cache and the work
  items a flush has in flight: the contract lists the few ways in which these operations
  change the cache, and its lemmas carry an invariant with that contract through each of
  them, on every script of load flags and failing calls.
\<close>

section \<open>What a written result promises\<close>

definition view_covers :: "MappedView \<Rightarrow> (u32 \<times> CachedEntry) list \<Rightarrow> bool" where
  "view_covers v ix \<longleftrightarrow>
     mv_committedSize v \<le> length (mv_base v) \<and>
     (\<forall>(off, e) \<in> set ix. ce_slot e < length (mv_verification v) \<and> ce_size e \<noteq> 0 \<and>
        ce_data e + unat (ce_size e) \<le> mv_committedSize v)"

definition result_covers :: "OLResult \<Rightarrow> bool" where
  "result_covers r \<longleftrightarrow> (\<forall>v. ol_view r = Some v \<longrightarrow> view_covers v (ol_index r))"

lemma accepted_covers:
  assumes "cache_accepted c ident mode allow" "mv_base v = c" "mv_committedSize v = committed_size c"
    and "length (mv_verification v) = unat (h_entryCount (load_header c))"
  shows "view_covers v (index_of c (unat (h_entryCount (load_header c))))"
proof -
  let ?n = "unat (h_entryCount (load_header c))" and ?d = "data_start (load_header c)"
  have "ce_slot e < ?n \<and> ce_size e \<noteq> 0 \<and> ce_data e + unat (ce_size e) \<le> committed_size c"
    if m: "(off, e) \<in> set (index_of c ?n)" for off e
  proof -
    obtain i where i: "i < ?n" "e = cached_entry i (entry_at c i)"
      using m by (auto simp: index_of_all [OF cache_acceptedD(3) [OF assms(1)]])
    have "payload_start ?d (committed_of c) (Suc i) \<le> payload_start ?d (committed_of c) ?n"
      using i(1) by (intro payload_start_mono) simp
    then show ?thesis
      using cache_acceptedD(2) [OF assms(1) i(1)] i
      by (auto simp: cached_entry_def committed_size_eq entry_accepted_def Let_def payload_start_Suc)
  qed
  then show ?thesis
    using assms committed_size_le [OF assms(1)] by (auto simp: view_covers_def)
qed

lemma Map_covers: "MapCommittedFile ident known d = (r, d') \<Longrightarrow> result_covers r"
proof (cases "ol_ok r")
  case False
  moreover assume "MapCommittedFile ident known d = (r, d')"
  ultimately have "r = ol_failure"
    by (auto simp: MapCommittedFile_def Let_def split: option.splits prod.splits bool.splits if_splits)
  then show ?thesis by (simp add: result_covers_def ol_failure_def)
next
  case True
  assume "MapCommittedFile ident known d = (r, d')"
  from MapCommittedFile_ok [OF this True] show ?thesis
    by (auto simp: result_covers_def intro!: accepted_covers)
qed

lemma failure_covers [simp]: "result_covers ol_failure"
  by (simp add: result_covers_def ol_failure_def)

lemma Fresh_covers: "WriteFreshFile w ps d = (r, d') \<Longrightarrow> result_covers r"
  by (auto simp: WriteFreshFile_def publish_temp_def Let_def dest: Map_covers
      split: if_splits prod.splits bool.splits option.splits)

lemma Append_covers: "AppendFile w d = (r, d') \<Longrightarrow> result_covers r"
  by (auto simp: AppendFile_def Let_def dest: Map_covers Fresh_covers
      split: if_splits prod.splits bool.splits option.splits)

lemma write_item_covers: "write_item h item w = (r, w') \<Longrightarrow> result_covers r"
  by (auto simp: write_item_def dest: Append_covers split: prod.splits bool.splits)

lemma delete_file_caches: "delete_file p w = (r, w') \<Longrightarrow> dc_caches (wd w') = dc_caches (wd w)"
  by (auto simp: delete_file_def dir_remove_def os_call_def
      split: option.splits prod.splits bool.splits list.splits)

section \<open>The contract\<close>

lemma started_frame [simp]:
  "dc_backgroundStarted (count_if b k n s) = dc_backgroundStarted s"
  "dc_backgroundStarted (RequestFlush s) = dc_backgroundStarted s"
  "dc_backgroundStarted (RequestWarmup cfg q s) = dc_backgroundStarted s"
  "dc_backgroundStarted (update_view v g s) = dc_backgroundStarted s"
  "dc_backgroundStarted (update_cache a h s) = dc_backgroundStarted s"
  "dc_backgroundStarted (next_epoch s) = dc_backgroundStarted s"
  by (simp_all add: count_if_def RequestWarmup_def RequestFlush_def Let_def update_view_def update_cache_def
      next_epoch_def)

locale disk_contract =
  fixes P :: "OLWork list \<Rightarrow> DecompCache \<Rightarrow> bool"
  assumes frame: "P work s \<Longrightarrow> dc_caches s' = dc_caches s \<Longrightarrow> dc_views s' = dc_views s \<Longrightarrow>
      dc_pendingBytes s' = dc_pendingBytes s \<Longrightarrow>
      dc_committedReservations s' = dc_committedReservations s \<Longrightarrow>
      dc_backgroundStarted s' = dc_backgroundStarted s \<Longrightarrow> P work s'"
    and publish: "P work s \<Longrightarrow> P work (publish_total t unowned s)"
    and drop: "P work s \<Longrightarrow> map_of (dc_caches s) a = Some c \<Longrightarrow> ac_bufferedOffsets c = {} \<Longrightarrow>
      P work (update_cache a drop_generation s)"
begin

lemma on_frame:
  assumes "P work (wd w)" "\<And>s. dc_caches (f s) = dc_caches s" "\<And>s. dc_views (f s) = dc_views s"
    and "\<And>s. dc_pendingBytes (f s) = dc_pendingBytes s"
    and "\<And>s. dc_committedReservations (f s) = dc_committedReservations s"
    and "\<And>s. dc_backgroundStarted (f s) = dc_backgroundStarted s"
  shows "P work (wd (on_cache f w))"
  using assms by (auto simp: on_cache_def intro: frame)

lemma load_active_ok: "load_active w = (b, w') \<Longrightarrow> P work (wd w) \<Longrightarrow> P work (wd w')"
  by (auto simp: load_active_def split: list.splits intro!: on_frame)

lemma os_call_ok: "os_call w = (b, w') \<Longrightarrow> P work (wd w) \<Longrightarrow> P work (wd w')"
  by (auto simp: os_call_def split: list.splits)

lemma delete_file_ok: "delete_file p w = (r, w') \<Longrightarrow> P work (wd w) \<Longrightarrow> P work (wd w')"
  by (auto simp: delete_file_def dir_remove_def split: option.splits prod.splits bool.splits dest: os_call_ok)

lemma scan_dir_ok:
  "scan_dir active items acc unowned w = (r, w') \<Longrightarrow> P work (wd w) \<Longrightarrow> P work (wd w')"
proof (induction active items acc unowned w arbitrary: r w' rule: scan_dir.induct)
  case (2 active name item items acc unowned w)
  obtain b1 w1 where 1: "load_active w = (b1, w1)" by force
  obtain b2 w2 where 2: "os_call w1 = (b2, w2)" by force
  obtain b3 w3 where 3: "os_call w2 = (b3, w3)" by force
  define mid where "mid = (case item of
      OtherItem \<Rightarrow> (Some (acc, unowned), w2)
    | RegularFile f \<Rightarrow>
        if \<not> IsCacheFilePath name then (Some (acc, unowned), w2)
        else (case os_call w2 of
                (False, w3) \<Rightarrow> (None, w3)
              | (True, w3) \<Rightarrow>
                  (Some (AddSaturating acc (item_size f),
                     if PathKey name \<in> active then unowned else unowned @ [name]), w3)))"
  obtain x w4 where 4: "mid = (x, w4)" by force
  obtain b5 w5 where 5: "os_call w4 = (b5, w5)" by force
  have p2: "P work (wd w2)" using 1 2 "2.prems"(2) by (blast intro: load_active_ok os_call_ok)
  then have "P work (wd w3)" using 3 by (blast intro: os_call_ok)
  with p2 4 3 have p4: "P work (wd w4)"
    by (auto simp: mid_def split: dir_item.splits if_splits bool.splits)
  then have p5: "P work (wd w5)" using 5 by (blast intro: os_call_ok)
  have p1: "P work (wd w1)" using 1 "2.prems"(2) by (blast intro: load_active_ok)
  show ?case
  proof (cases "\<not> b1 \<and> b2 \<and> b5 \<and> x \<noteq> None")
    case True
    then obtain t u where x: "x = Some (t, u)" by auto
    have "scan_dir active items t u w5 = (r, w')"
      using "2.prems"(1) 1 2 4 5 True x unfolding mid_def by simp
    then show ?thesis
      using "2.IH" [OF 1 [symmetric] _ 2 [symmetric]] p5 4 5 True x unfolding mid_def by auto
  next
    case False
    have "w' \<in> {w1, w2, w4, w5}"
      using "2.prems"(1) 1 2 4 5 False unfolding mid_def
      by (auto split: if_splits bool.splits option.splits)
    then show ?thesis using p1 p2 p4 p5 by blast
  qed
qed simp

lemma request_frames:
  "P work (wd w) \<Longrightarrow> P work (wd (on_cache (RequestWarmup cfg q) w))"
  "P work (wd w) \<Longrightarrow> P work (wd (on_cache clear_unowned w))"
  "P work (wd w) \<Longrightarrow> P work (wd (on_cache publish_ready w))"
  "P work (wd w) \<Longrightarrow> P work (wd (on_cache (restore_headroom n) w))"
  "P work (wd w) \<Longrightarrow> P work (wd (on_cache (\<lambda>s. s\<lparr>dc_lastOverCapNotifyMs := m\<rparr>) w))"
  "P work (wd w) \<Longrightarrow> P work (wd (on_cache (\<lambda>s. s\<lparr>dc_requiredHeadroom := m\<rparr>) w))"
  "P work (wd w) \<Longrightarrow> P work (wd (on_cache (\<lambda>s. s\<lparr>dc_building := b\<rparr>) w))"
  "P work (wd w) \<Longrightarrow> P work (wd (on_cache (RequestWarmup cfg q \<circ> publish_ready) w))"
  by (rule on_frame; simp add: clear_unowned_def publish_ready_def restore_headroom_def raise_headroom_def)+

lemma Reconcile_ok:
  assumes "P work (wd w)"
  shows "P work (wd (ReconcileDiskAccounting w))"
proof -
  obtain b1 w1 where 1: "load_active w = (b1, w1)" by force
  obtain b2 w2 where 2: "load_active w1 = (b2, w2)" by force
  obtain b3 w3 where 3: "os_call w2 = (b3, w3)" by force
  obtain r w4 where 4: "scan_dir (active_keys (wd w1)) (wd_dir w3) 0 [] w3 = (r, w4)" by force
  obtain b5 w5 where 5: "load_active w4 = (b5, w5)" by force
  have p: "P work (wd w1)" "P work (wd w2)" "P work (wd w3)" "P work (wd w4)" "P work (wd w5)"
    using assms 1 2 3 4 5 by (blast intro: load_active_ok os_call_ok scan_dir_ok)+
  show ?thesis
    using p request_frames(2) publish
    by (auto simp: ReconcileDiskAccounting_def 1 2 3 4 5 on_cache_def split: bool.splits scan.splits)
qed

lemma remove_files_ok: "P work (wd w) \<Longrightarrow> P work (wd (remove_files ps w))"
proof (induction ps arbitrary: w)
  case (Cons p ps)
  obtain b w1 where 1: "load_active w = (b, w1)" by force
  obtain r w2 where 2: "delete_file p w1 = (r, w2)" by force
  have "P work (wd w1)" "P work (wd w2)"
    using Cons.prems 1 2 by (blast intro: load_active_ok delete_file_ok)+
  with Cons.IH show ?case by (simp add: 1 2 split: bool.splits)
qed simp

lemma RemoveUnowned_ok:
  assumes "P work (wd w)"
  shows "P work (wd (RemoveUnownedFiles w))"
proof -
  obtain b w1 where 1: "load_active w = (b, w1)" by force
  then have "P work (wd w1)" using assms by (blast intro: load_active_ok)
  then show ?thesis using request_frames(2) remove_files_ok
    by (auto simp: RemoveUnownedFiles_def 1 split: bool.splits)
qed

lemma on_drop:
  assumes "P work (wd w)" "map_of (dc_caches (wd w)) a = Some c" "ac_bufferedOffsets c = {}"
  shows "P work (wd (on_cache (next_epoch \<circ> update_cache a drop_generation) w))"
proof -
  have "P work (update_cache a drop_generation (wd w))" using assms by (rule drop)
  then show ?thesis by (auto simp: on_cache_def next_epoch_def intro: frame)
qed

lemma evict_loop_ok:
  "evict_loop target cs estimated freed evicted w = (n, fr, w') \<Longrightarrow> P work (wd w) \<Longrightarrow> P work (wd w')"
proof (induction cs arbitrary: estimated freed evicted w)
  case (Cons cand cs)
  let ?a = "cd_archive cand"
  obtain b1 w1 where 1: "load_active w = (b1, w1)" by force
  obtain b2 w2 where 2: "load_active w1 = (b2, w2)" by force
  have p: "P work (wd w1)" "P work (wd w2)"
    using Cons.prems(2) 1 2 by (blast intro: load_active_ok)+
  consider "w' = w1" | "w' = w2"
    | e f where "evict_loop target cs e f evicted w2 = (n, fr, w')"
    | (attempt) c where "map_of (dc_caches (wd w2)) ?a = Some c" "ac_bufferedOffsets c = {}" "\<not> b1" "\<not> b2"
        "\<not> estimated \<le> target" "ac_view c \<noteq> None" "ac_activePath c \<noteq> []"
    using Cons.prems(1) by (auto simp: 1 2 split: bool.splits if_splits option.splits)
  then show ?case
  proof cases
    case attempt
    obtain r w3 where 3: "delete_file (ac_activePath c) w2 = (r, w3)" by force
    have p3: "P work (wd w3)" using p 3 by (blast intro: delete_file_ok)
    then have "P work (wd (on_cache (next_epoch \<circ> update_cache ?a drop_generation) w3))"
      using attempt(1,2) delete_file_caches [OF 3] by (intro on_drop) simp_all
    with p3 show ?thesis
      using Cons.prems(1) attempt Cons.IH
      by (cases r) (auto simp: 1 2 3 Let_def)
  qed (use p Cons.IH in auto)
qed simp

lemma Enforce_ok:
  assumes "P work (wd w)"
  shows "P work (wd (EnforceSizeLimit h force w))"
proof (cases "cfg_uDecompCacheMaxBytes (ho_cfg h) = 0")
  case True
  then show ?thesis using assms by (simp add: EnforceSizeLimit_def)
next
  case False
  have evict: "P work (wd (evict_to_target h force r t w))" if w: "P work (wd w)" for r t w
  proof -
    let ?cs = "sort_candidates (List.map_filter (candidate_of h force (dc_sessionStartMs (wd w))) (dc_caches (wd w)))"
    obtain n fr w1 where e: "evict_loop t ?cs (dc_totalCacheBytes (wd w)) 0 0 w = (n, fr, w1)"
      by (metis prod_cases3)
    from evict_loop_ok [OF e w] show ?thesis
      by (auto simp: evict_to_target_def Let_def e intro!: request_frames Reconcile_ok)
  qed
  obtain b1 w1 where 1: "load_active w = (b1, w1)" by force
  define w2 where "w2 = on_cache (\<lambda>s. s\<lparr>dc_requiredHeadroom := 0\<rparr>) w1"
  obtain b3 w3 where 3: "load_active (ReconcileDiskAccounting w2) = (b3, w3)" by force
  obtain b4 w4 where 4: "load_active (RemoveUnownedFiles w3) = (b4, w4)" by force
  obtain b5 w5 where 5: "load_active (ReconcileDiskAccounting w4) = (b5, w5)" by force
  have p1: "P work (wd w1)" using assms 1 by (blast intro: load_active_ok)
  then have p3: "P work (wd w3)"
    using 3 unfolding w2_def by (blast intro: load_active_ok Reconcile_ok request_frames)
  then have p4: "P work (wd w4)" using 4 by (blast intro: load_active_ok RemoveUnowned_ok)
  then have p5: "P work (wd w5)" using 5 by (blast intro: load_active_ok Reconcile_ok)
  show ?thesis
    using p1 p3 p4 p5 False unfolding EnforceSizeLimit_def Let_def 1
    by (auto simp: 3 4 5 request_frames evict simp flip: w2_def split: bool.splits)
qed

lemma retire_loop_ok:
  "retire_loop as n w = (m, w') \<Longrightarrow> P work (wd w) \<Longrightarrow> P work (wd w')"
proof (induction as arbitrary: n w)
  case (Cons a as)
  obtain b1 w1 where 1: "load_active w = (b1, w1)" by force
  have p1: "P work (wd w1)" using Cons.prems(2) 1 by (blast intro: load_active_ok)
  consider "w' = w1" | "retire_loop as n w1 = (m, w')"
    | (attempt) c where "map_of (dc_caches (wd w1)) a = Some c" "ac_bufferedOffsets c = {}" "\<not> b1"
        "ac_diskInvalidated c" "ac_pending c = []"
    using Cons.prems(1) by (auto simp: 1 split: bool.splits if_splits option.splits)
  then show ?case
  proof cases
    case attempt
    obtain r w2 where 2: "(if ac_activePath c = [] then (Deleted, w1)
        else delete_file (ac_activePath c) w1) = (r, w2)" by force
    have p2: "P work (wd w2)" and same: "dc_caches (wd w2) = dc_caches (wd w1)"
      using p1 2 by (auto split: if_splits dest: delete_file_ok delete_file_caches)
    then have "P work (wd (on_cache (next_epoch \<circ> update_cache a drop_generation) w2))"
      using attempt(1,2) by (intro on_drop) simp_all
    with p2 show ?thesis
      using Cons.prems(1) attempt Cons.IH
      by (cases r) (auto simp: 1 2)
  qed (use p1 Cons.IH in auto)
qed simp

lemma retire_invalid_ok:
  assumes "P work (wd w)"
  shows "P work (wd (retire_invalid h w))"
proof -
  obtain m w1 where 1: "retire_loop (map fst (dc_caches (wd w))) 0 w = (m, w1)" by force
  from retire_loop_ok [OF 1 assms] show ?thesis
    by (simp add: retire_invalid_def 1 request_frames)
qed

lemma make_room_ok:
  assumes "P work (wd w)"
  shows "P work (wd (make_room h w))"
proof -
  obtain b w1 where 1: "load_active w = (b, w1)" by force
  then have "P work (wd w1)" using assms by (blast intro: load_active_ok)
  then show ?thesis using assms by (simp add: make_room_def 1 Enforce_ok split: bool.splits)
qed

lemma put_disk_ok:
  assumes "P work (wd w)"
  shows "P work (wd (put_disk h p d w))"
proof -
  have put: "wd (dir_put q f x) = wd x" for q f x by (simp add: dir_put_def)
  have "P work (wd (on_cache (\<lambda>s. s\<lparr>dc_loadActive := b\<rparr>) w))" for b
    using assms by (intro on_frame) simp_all
  then show ?thesis
    using assms by (auto simp: put_disk_def Let_def put split: option.splits)
qed

lemma write_item_ok:
  assumes "write_item h item w = (r, w')" "P work (wd w)"
  shows "P work (wd w')"
proof -
  obtain b w1 where 1: "load_active w = (b, w1)" by force
  then have "P work (wd w1)" using assms(2) by (blast intro: load_active_ok)
  then show ?thesis
    using assms(1) by (auto simp: write_item_def 1 put_disk_ok split: bool.splits prod.splits)
qed

lemma SaveWarmPriority_ok:
  assumes "P work (wd w)"
  shows "P work (wd (SaveWarmPriority w))"
proof -
  obtain b w1 where 1: "os_call w = (b, w1)" by force
  then have "P work (wd w1)" using assms by (blast intro: os_call_ok)
  then show ?thesis using assms by (simp add: SaveWarmPriority_def Let_def 1 split: bool.splits)
qed

lemma finish_flush_ok:
  assumes "P work (wd w)"
  shows "P work (wd (finish_flush h n w))"
proof -
  obtain b1 w1 where 1: "load_active w = (b1, w1)" by force
  obtain b2 w2 where 2: "load_active (ReconcileDiskAccounting w1) = (b2, w2)" by force
  have p1: "P work (wd w1)" using assms 1 by (blast intro: load_active_ok)
  then have p2: "P work (wd w2)" using 2 by (blast intro: load_active_ok Reconcile_ok)
  show ?thesis
    unfolding finish_flush_def Let_def
    by (rule SaveWarmPriority_ok) (simp add: 1 2 p1 p2 request_frames Enforce_ok split: bool.splits)
qed

end

locale cache_contract = disk_contract +
  assumes plan: "P [] s \<Longrightarrow> plan_flush h s = (items, s') \<Longrightarrow> P items s'"
    and install: "P (item # work) s \<Longrightarrow> result_covers r \<Longrightarrow> install_item h item r s = (b, s') \<Longrightarrow> P work s'"
begin

lemma flush_items_ok:
  "flush_items h items n w = (m, w') \<Longrightarrow> P items (wd w) \<Longrightarrow> P [] (wd w')"
proof (induction items arbitrary: n w)
  case (Cons item items)
  obtain r w1 where 1: "write_item h item w = (r, w1)" by force
  obtain b s where 2: "install_item h item r (wd w1) = (b, s)" by force
  have "P (item # items) (wd w1)" using write_item_ok [OF 1 Cons.prems(2)] .
  from install [OF this write_item_covers [OF 1] 2] have "P items s" .
  then show ?case using Cons.prems(1) Cons.IH [of _ "w1\<lparr>wd := s\<rparr>"] by (simp add: 1 2)
qed simp

lemma FlushToDisk_ok:
  assumes "P [] (wd w)"
  shows "P [] (wd (FlushToDisk h w))"
proof -
  obtain b w1 where 1: "load_active w = (b, w1)" by force
  then have p1: "P [] (wd w1)" using assms by (blast intro: load_active_ok)
  define w3 where "w3 = retire_invalid h (make_room h
      (if cfg_iDecompCacheMode (ho_cfg h) = 0 then on_cache (\<lambda>s. s\<lparr>dc_building := False\<rparr>) w1 else w1))"
  have p3: "P [] (wd w3)"
    unfolding w3_def using p1 by (simp add: retire_invalid_ok make_room_ok request_frames)
  obtain items s where 4: "plan_flush h (wd w3) = (items, s)" by force
  obtain n w4 where 5: "flush_items h items 0 (w3\<lparr>wd := s\<rparr>) = (n, w4)" by force
  have "P items s" using p3 4 by (rule plan)
  then have "P [] (wd w4)" using flush_items_ok [OF 5] by simp
  then show ?thesis
    using p1 p3 unfolding FlushToDisk_def Let_def 1 prod.case w3_def [symmetric] 4 5
    by (simp add: finish_flush_ok split: bool.split)
qed

end

section \<open>Startup\<close>

definition cache_keys :: "world \<Rightarrow> nat list" where
  "cache_keys w = map fst (dc_caches (wd w))"

lemma cache_keys_put_disk [simp]: "cache_keys (put_disk h p d w) = cache_keys w"
proof -
  have put: "wd (dir_put q f x) = wd x" for q f x by (simp add: dir_put_def)
  show ?thesis by (simp add: cache_keys_def put_disk_def Let_def put on_cache_def split: option.splits)
qed

lemma cache_keys_install_loaded [simp]:
  "cache_keys (on_cache (install_loaded a path l) w) = cache_keys w"
  by (simp add: cache_keys_def on_cache_def install_loaded_def add_view_def)

lemma cache_keys_LoadCacheFile: "LoadCacheFile h a w = (b, w') \<Longrightarrow> cache_keys w' = cache_keys w"
  by (auto simp: LoadCacheFile_def Let_def split: option.splits if_splits prod.splits)

definition loaded_covers :: "LoadedFile \<Rightarrow> bool" where
  "loaded_covers l \<longleftrightarrow> view_covers (ld_view l) (ld_index l)"

lemma Load_covers:
  assumes "LoadFile ident d = (Some l, d')"
  shows "loaded_covers l"
proof -
  from LoadFile_ok [OF assms] obtain f :: cfile where
    acc: "cache_accepted (fl_content f) (Some ident) StructuralOnly True"
    and l: "loads_from (fl_content f) l"
    by blast
  let ?c = "mv_base (ld_view l)"
  note carr = loads_fromD(1) [OF l]
  have acc_c: "cache_accepted ?c (Some ident) StructuralOnly True"
    using carries_validates [OF acc carr] acc by (simp flip: Validate_ok_iff)
  have "committed_of ?c = committed_of (fl_content f)" "committed_size ?c = committed_size (fl_content f)"
    using carries_committed [OF acc carr] by (simp_all add: committed_size_eq)
  moreover have "mv_committedSize (ld_view l) = committed_size (fl_content f)"
    using l by (simp add: loads_from_def Let_def)
  ultimately show ?thesis
    using accepted_covers [OF acc_c refl] loads_fromD(2,3) [OF l] length_committed_entries
    by (metis loaded_covers_def length_replicate)
qed

locale startup_contract = cache_contract +
  assumes reset: "P [] (reset_cache cfg now s)"
    and add: "P [] s \<Longrightarrow> a \<notin> set (map fst (dc_caches s)) \<Longrightarrow>
      P [] (s\<lparr>dc_caches := dc_caches s @ [(a, empty_cache\<lparr>ac_bsaFingerprint := f\<rparr>)]\<rparr>)"
    and load: "P [] s \<Longrightarrow> loaded_covers l \<Longrightarrow> P [] (install_loaded a path l s)"
begin

lemma LoadCacheFile_ok:
  assumes "LoadCacheFile h a w = (b, w')" "P [] (wd w)"
  shows "P [] (wd w')"
proof -
  have "P [] (wd (on_cache (install_loaded a path l) (put_disk h path d w)))" if "loaded_covers l" for path l d
    using load [OF put_disk_ok [OF assms(2)] that] by (simp add: on_cache_def)
  then show ?thesis
    using assms put_disk_ok [OF assms(2)] Load_covers
    by (auto simp: LoadCacheFile_def Let_def split: option.splits if_splits prod.splits)
qed

lemma load_archives_ok:
  "load_archives h as n w = (m, w') \<Longrightarrow> P [] (wd w) \<Longrightarrow> distinct (cache_keys w @ as) \<Longrightarrow> P [] (wd w')"
proof (induction as arbitrary: n w)
  case (Cons a as)
  let ?f = "ma_fingerprint (ho_archives h a)"
  define w1 where "w1 = on_cache (\<lambda>s. s\<lparr>dc_caches := dc_caches s @
      [(a, empty_cache\<lparr>ac_bsaFingerprint := ?f\<rparr>)]\<rparr>) w"
  obtain b w2 where 2: "LoadCacheFile h a w1 = (b, w2)" by force
  have p1: "P [] (wd w1)"
    using add [OF Cons.prems(2), of a] Cons.prems(3) by (simp add: w1_def on_cache_def cache_keys_def)
  have p2: "P [] (wd w2)" by (rule LoadCacheFile_ok [OF 2 p1])
  have keys: "cache_keys w1 = cache_keys w @ [a]" "cache_keys w2 = cache_keys w1"
    using cache_keys_LoadCacheFile [OF 2] by (simp_all add: w1_def on_cache_def cache_keys_def)
  have d: "distinct (cache_keys w @ as)" "distinct (cache_keys w1 @ as)" "distinct (cache_keys w2 @ as)"
    using Cons.prems(3) unfolding keys by auto
  consider n' where "load_archives h as n' w = (m, w')" | n' where "load_archives h as n' w1 = (m, w')"
    | n' where "load_archives h as n' w2 = (m, w')"
    using Cons.prems(1) 2 by (auto simp: Let_def w1_def split: if_splits bool.splits)
  then show ?case
    by cases (use Cons.IH Cons.prems(2) p1 p2 d in blast)+
qed simp

lemma InitializeCache_ok:
  assumes "distinct a_archives"
  shows "P [] (wd (InitializeCache h a_archives w))"
proof -
  define w1 where "w1 = on_cache (reset_cache (ho_cfg h) (ho_now h)) w"
  obtain b w2 where 2: "os_call w1 = (b, w2)" by force
  obtain n w3 where 3: "load_archives h a_archives 0 w2 = (n, w3)" by force
  have p1: "P [] (wd w1)" by (simp add: w1_def on_cache_def reset)
  then have p2: "P [] (wd w2)" using 2 by (blast intro: os_call_ok)
  have "cache_keys w2 = []"
    using 2 by (auto simp: w1_def os_call_def cache_keys_def on_cache_def reset_cache_def split: list.splits)
  with assms have "P [] (wd w3)" using load_archives_ok [OF 3 p2] by simp
  then have "P [] (wd (on_cache (LoadWarmPriority (wd_priorityFile w3) \<circ>
      (\<lambda>s. s\<lparr>dc_ready := n > 0, dc_building := True\<rparr>)) w3))"
    by (rule on_frame) (simp_all add: LoadWarmPriority_def split: option.splits)
  then show ?thesis
    using p2 unfolding InitializeCache_def Let_def w1_def [symmetric] 2 3 prod.case
    by (simp add: request_frames Enforce_ok Reconcile_ok RemoveUnowned_ok split: bool.split)
qed

end

section \<open>The hooks\<close>

locale shared_contract = startup_contract P for P :: "OLWork list \<Rightarrow> DecompCache \<Rightarrow> bool" +
  fixes A :: "nat \<Rightarrow> MappedArchive"
  assumes lookup: "P work s \<Longrightarrow> Lookup cfg env a off s = (r, s') \<Longrightarrow> P work s'"
    and report: "P work s \<Longrightarrow> P work (ReportMappingIoFailure cfg q owner s)"
    and recording: "P work s \<Longrightarrow> RecordDecompressed cfg renv A arch off payload s = (thrown, s') \<Longrightarrow> P work s'"

begin

lemma requests:
  "P work s \<Longrightarrow> P work (RequestFlush s)" "P work s \<Longrightarrow> P work (RequestWarmup cfg q s)"
  "P work s \<Longrightarrow> P work (SetLoadActive cfg q b s)"
  by (erule frame; simp add: SetLoadActive_def Let_def)+

end

text \<open>
  The steps of the system: a state is the work in flight, the result that was written for its
  first item and is not installed yet, and the world.  The phases of a flush may be separated
  by any steps of the hooks, by load screens, and by changes of the directory and of the
  scripts that this program does not make.
\<close>

type_synonym cache_sys = "OLWork list \<times> OLResult option \<times> world"

inductive cache_step :: "(nat \<Rightarrow> MappedArchive) \<Rightarrow> cache_sys \<Rightarrow> cache_sys \<Rightarrow> bool"
  for A :: "nat \<Rightarrow> MappedArchive" where
  Lookups: "Lookup cfg env a off (wd w) = (r, s) \<Longrightarrow>
     cache_step A (work, res, w) (work, res, w\<lparr>wd := s\<rparr>)"
| Reports: "cache_step A (work, res, w) (work, res, w\<lparr>wd := ReportMappingIoFailure cfg q owner (wd w)\<rparr>)"
| Records: "RecordDecompressed cfg env A arch off payload (wd w) = (thrown, s) \<Longrightarrow>
     cache_step A (work, res, w) (work, res, w\<lparr>wd := s\<rparr>)"
| Requests: "s \<in> {RequestFlush (wd w), RequestWarmup cfg q (wd w), SetLoadActive cfg q b (wd w)} \<Longrightarrow>
     cache_step A (work, res, w) (work, res, w\<lparr>wd := s\<rparr>)"
| Others: "wd w' = wd w \<Longrightarrow> cache_step A (work, res, w) (work, res, w')"
| Retires: "w' \<in> {make_room h w, retire_invalid h w} \<Longrightarrow> cache_step A ([], None, w) ([], None, w')"
| Plans: "plan_flush h (wd w) = (items, s) \<Longrightarrow>
     cache_step A ([], None, w) (items, None, w\<lparr>wd := s\<rparr>)"
| Writes: "write_item h item w = (r, w') \<Longrightarrow>
     cache_step A (item # work, None, w) (item # work, Some r, w')"
| Installs: "install_item h item r (wd w) = (b, s) \<Longrightarrow>
     cache_step A (item # work, Some r, w) (work, None, w\<lparr>wd := s\<rparr>)"
| Finishes: "cache_step A ([], None, w) ([], None, finish_flush h n w)"

inductive cache_reach :: "(nat \<Rightarrow> MappedArchive) \<Rightarrow> cache_sys \<Rightarrow> bool"
  for A :: "nat \<Rightarrow> MappedArchive" where
  Start: "distinct a_archives \<Longrightarrow> cache_reach A ([], None, InitializeCache h a_archives w)"
| Step: "cache_reach A x \<Longrightarrow> cache_step A x y \<Longrightarrow> cache_reach A y"

inductive_cases cache_stepE: "cache_step A (work, res, w) y"

context shared_contract
begin

lemma step_ok:
  assumes "cache_step A x y" "P (fst x) (wd (snd (snd x)))" "\<forall>r \<in> set_option (fst (snd x)). result_covers r"
  shows "P (fst y) (wd (snd (snd y))) \<and> (\<forall>r \<in> set_option (fst (snd y)). result_covers r)"
  using assms(1)
proof cases
  case (Lookups cfg env a off w r s work res)
  then show ?thesis using assms(2,3) lookup [OF _ Lookups(3)] by simp
next
  case (Reports work res w cfg q owner)
  then show ?thesis using assms(2,3) report by simp
next
  case (Records cfg env arch off payload w thrown s work res)
  then show ?thesis using assms(2,3) recording [OF _ Records(3)] by simp
next
  case (Requests s w cfg q b work res)
  then show ?thesis using assms(2,3) requests by auto
next
  case (Others w' w work res)
  then show ?thesis using assms(2,3) by simp
next
  case (Retires w' h w)
  then show ?thesis using assms(2) make_room_ok retire_invalid_ok by auto
next
  case (Plans h w items s)
  then show ?thesis using assms(2) plan [OF _ Plans(3)] by simp
next
  case (Writes h item w r w' work)
  then show ?thesis using assms(2) write_item_ok [OF Writes(3)] write_item_covers [OF Writes(3)] by simp
next
  case (Installs h item r w b s work)
  then show ?thesis using assms(2,3) install [OF _ _ Installs(3)] by simp
next
  case (Finishes w h n)
  then show ?thesis using assms(2) finish_flush_ok by simp
qed

lemma reach_ok:
  "cache_reach A x \<Longrightarrow>
     P (fst x) (wd (snd (snd x))) \<and> (\<forall>r \<in> set_option (fst (snd x)). result_covers r)"
proof (induction rule: cache_reach.induct)
  case (Start archives h w)
  then show ?case by (simp add: InitializeCache_ok)
next
  case (Step x y)
  then show ?case by (intro step_ok [of x y]) auto
qed

end

section \<open>The ledger\<close>

interpretation ledger: shared_contract "books A" A for A :: "nat \<Rightarrow> MappedArchive"
proof
  fix work s s' t unowned
  assume b: "books A work s"
  show "books A work s'" if "dc_caches s' = dc_caches s" "dc_pendingBytes s' = dc_pendingBytes s"
    "dc_committedReservations s' = dc_committedReservations s"
    using b that by (intro books_frame [OF b]) simp_all
  show "books A work (publish_total t unowned s)"
  proof -
    have "unat (dc_pendingBytes s - dc_committedReservations s) =
        unat (dc_pendingBytes s) - unat (dc_committedReservations s)"
      using b by (intro unat_sub_le) (simp add: books_def word_le_nat_alt)
    moreover have "charged work (publish_total t unowned s) = charged work s"
      by (simp add: charged_def publish_total_def Let_def)
    ultimately show ?thesis
      using b by (simp add: books_def publish_total_def Let_def word_le_nat_alt word_less_nat_alt)
  qed
  show "books A work (update_cache a drop_generation s)"
    if "map_of (dc_caches s) a = Some c" "ac_bufferedOffsets c = {}" for a c
    using that by (intro books_same_entries [OF b]) (auto simp: drop_generation_def)
next
  fix s a f assume b: "books A [] s" and n: "a \<notin> set (map fst (dc_caches s))"
  let ?c = "empty_cache\<lparr>ac_bsaFingerprint := f\<rparr>"
  have "ac_pending ?c = []" "ac_bufferedOffsets ?c = {}" by (simp_all add: empty_cache_def)
  then have "cache_ok A [] a ?c" by (simp add: cache_ok_def)
  with b n show "books A [] (s\<lparr>dc_caches := dc_caches s @ [(a, ?c)]\<rparr>)"
    by (auto simp: books_def charged_def \<open>ac_pending ?c = []\<close>)
next
  fix s l a path assume b: "books A [] s" and "loaded_covers l"
  have v: "books A [] (snd (add_view (ld_view l) s))"
    by (rule books_frame [OF b]) (simp_all add: add_view_def)
  show "books A [] (install_loaded a path l s)"
    unfolding install_loaded_def add_view_def prod.case Let_def
    using v by (intro books_frames(3) books_same_entries) (simp_all add: add_view_def)
next
  fix cfg now s show "books A [] (reset_cache cfg now s)"
    by (simp add: books_def reset_cache_def charged_def)
qed (blast intro: books_plan books_install_item books_Lookup books_ReportMappingIoFailure
  books_RecordDecompressed)+

section \<open>The ranges\<close>

text \<open>Every indexed entry of every cache lies in the committed prefix of its view.\<close>

definition views_ok :: "DecompCache \<Rightarrow> bool" where
  "views_ok s \<longleftrightarrow>
     (\<forall>(a, c) \<in> set (dc_caches s). \<forall>v. ac_view c = Some v \<longrightarrow>
        v < length (dc_views s) \<and> view_covers (dc_views s ! v) (ac_index c))"

definition same_shape :: "MappedView \<Rightarrow> MappedView \<Rightarrow> bool" where
  "same_shape v w \<longleftrightarrow> mv_base w = mv_base v \<and> mv_committedSize w = mv_committedSize v \<and>
     length (mv_verification w) = length (mv_verification v)"

lemma view_covers_shape: "same_shape v w \<Longrightarrow> view_covers v ix \<Longrightarrow> view_covers w ix"
  by (simp add: same_shape_def view_covers_def)

lemma views_ok_step:
  assumes "views_ok s"
    and "\<And>i. i < length (dc_views s) \<Longrightarrow> i < length (dc_views s') \<and> same_shape (dc_views s ! i) (dc_views s' ! i)"
    and "\<And>a c'. (a, c') \<in> set (dc_caches s') \<Longrightarrow> ac_view c' = None \<or>
      (\<exists>c. (a, c) \<in> set (dc_caches s) \<and> ac_view c' = ac_view c \<and> ac_index c' = ac_index c)"
  shows "views_ok s'"
proof -
  have "v < length (dc_views s') \<and> view_covers (dc_views s' ! v) (ac_index c')"
    if c': "(a, c') \<in> set (dc_caches s')" "ac_view c' = Some v" for a c' v
  proof -
    obtain c where "(a, c) \<in> set (dc_caches s)" "ac_view c = Some v" "ac_index c' = ac_index c"
      using assms(3) [OF c'(1)] c'(2) by auto
    with assms(1) have "v < length (dc_views s)" "view_covers (dc_views s ! v) (ac_index c')"
      by (auto simp: views_ok_def)
    then show ?thesis using assms(2) [of v] view_covers_shape by blast
  qed
  then show ?thesis by (auto simp: views_ok_def)
qed

lemma same_shape_refl [simp]: "same_shape v v"
  by (simp add: same_shape_def)

lemma views_ok_frame:
  "views_ok s \<Longrightarrow> dc_views s' = dc_views s \<Longrightarrow> dc_caches s' = dc_caches s \<Longrightarrow> views_ok s'"
  by (simp add: views_ok_def)

lemma views_ok_update:
  assumes "views_ok s" "\<And>c. ac_view (f c) = None \<or> ac_view (f c) = ac_view c \<and> ac_index (f c) = ac_index c"
  shows "views_ok (update_cache a f s)"
proof (rule views_ok_step [OF assms(1)])
  fix b c' assume "(b, c') \<in> set (dc_caches (update_cache a f s))"
  then obtain c where "(b, c) \<in> set (dc_caches s)" "c' = (if b = a then f c else c)"
    unfolding caches_update_cache by blast
  then show "ac_view c' = None \<or>
      (\<exists>c. (b, c) \<in> set (dc_caches s) \<and> ac_view c' = ac_view c \<and> ac_index c' = ac_index c)"
    using assms(2) [of c] by (cases "b = a") auto
qed simp

lemma views_ok_view:
  assumes "views_ok s" "\<And>w. same_shape w (f w)"
  shows "views_ok (update_view v f s)"
proof (rule views_ok_step [OF assms(1)])
  fix b c' assume "(b, c') \<in> set (dc_caches (update_view v f s))"
  then have "(b, c') \<in> set (dc_caches s)" by simp
  then show "ac_view c' = None \<or>
      (\<exists>c. (b, c) \<in> set (dc_caches s) \<and> ac_view c' = ac_view c \<and> ac_index c' = ac_index c)" by blast
qed (use assms(2) in \<open>auto simp: update_view_def nth_list_update\<close>)

lemma views_ok_add_view: "views_ok s \<Longrightarrow> views_ok (s\<lparr>dc_views := dc_views s @ [v]\<rparr>)"
  by (rule views_ok_step) (auto simp: nth_append)

text \<open>A new view for one cache.\<close>

lemma views_ok_attach:
  assumes "views_ok s" "view_covers view ix"
    and "\<And>c. ac_view (f c) = Some (length (dc_views s)) \<and> ac_index (f c) = ix"
  shows "views_ok (update_cache a f (s\<lparr>dc_views := dc_views s @ [view]\<rparr>))"
proof -
  let ?s = "s\<lparr>dc_views := dc_views s @ [view]\<rparr>"
  have "v < length (dc_views ?s) \<and> view_covers (dc_views ?s ! v) (ac_index c')"
    if c': "(b, c') \<in> set (dc_caches (update_cache a f ?s))" "ac_view c' = Some v" for b c' v
  proof -
    obtain c where c: "(b, c) \<in> set (dc_caches s)" "c' = (if b = a then f c else c)"
      using c'(1) unfolding caches_update_cache by auto
    show ?thesis
    proof (cases "b = a")
      case True
      then have "v = length (dc_views s)" "ac_index c' = ix"
        using c c'(2) assms(3) [of c] by auto
      then show ?thesis using assms(2) by simp
    next
      case False
      then show ?thesis using views_ok_add_view [OF assms(1), of view] c c'(2)
        by (auto simp: views_ok_def)
    qed
  qed
  moreover have "dc_views (update_cache a f ?s) = dc_views ?s" by simp
  ultimately show ?thesis unfolding views_ok_def by auto
qed

lemmas views_ok_frames = views_ok_frame [OF _ RequestFlush_frame(5,1)]
  views_ok_frame [OF _ RequestWarmup_frame(5,1)] views_ok_frame [OF _ next_epoch_frame(5,1)]
  views_ok_frame [OF _ count_if_frame(5,1)]

lemma views_ok_invalidate: "views_ok s \<Longrightarrow> views_ok (snd (invalidate_cache a s))"
  by (auto simp: invalidate_cache_def intro: views_ok_update split: option.splits)

lemma views_ok_unusable: "views_ok s \<Longrightarrow> views_ok (update_view v (\<lambda>w. w\<lparr>mv_unusable := True\<rparr>) s)"
  by (rule views_ok_view) (simp_all add: same_shape_def)

lemma views_ok_verify:
  assumes "views_ok s" "verify_in_view cfg env v e s = (r, s')"
  shows "views_ok s'"
  using assms
  by (auto simp: verify_in_view_def Let_def same_shape_def split: prod.splits
      intro!: views_ok_frames views_ok_view)

lemma views_ok_makeResult:
  assumes "views_ok s" "makeResult cfg env a v e s = (r, s')"
  shows "views_ok s'"
proof -
  obtain ver s1 where ver: "verify_in_view cfg env v e s = (ver, s1)" by force
  have b1: "views_ok s1" by (rule views_ok_verify [OF assms(1) ver])
  obtain n s4 where inv: "invalidate_cache a (update_view v (\<lambda>w. w\<lparr>mv_unusable := True\<rparr>)
      (count_if (cfg_bMeasureStats cfg) dg_checksumFailures_update 1 s1)) = (n, s4)" by force
  have "views_ok s4"
    using views_ok_invalidate [OF views_ok_unusable [OF views_ok_frames(4) [OF b1]]] inv
    by (metis snd_conv)
  with assms(2) ver inv b1 show ?thesis
    by (auto simp: makeResult_def Let_def intro: views_ok_frames split: if_splits)
qed

lemma views_ok_Lookup:
  assumes "views_ok s" "Lookup cfg env a off s = (r, s')"
  shows "views_ok s'"
proof -
  have t: "views_ok (update_cache a (\<lambda>c. c\<lparr>ac_lastAccessMs := n\<rparr>) x)" if "views_ok x" for n x
    using that by (intro views_ok_update) simp_all
  show ?thesis
    using assms
    by (auto simp: Lookup_def Let_def intro: views_ok_frames t elim!: views_ok_makeResult [rotated]
        split: option.splits if_splits)
qed

lemma views_ok_ReportMappingIoFailure:
  assumes "views_ok s"
  shows "views_ok (ReportMappingIoFailure cfg q owner s)"
proof (cases owner)
  case None
  then show ?thesis using assms by (simp add: ReportMappingIoFailure_def)
next
  case (Some v)
  let ?s1 = "update_view v (\<lambda>w. w\<lparr>mv_unusable := True\<rparr>) s"
  define res where "res = (case find (\<lambda>(archive, cache). ac_view cache = Some v) (dc_caches ?s1) of
      None \<Rightarrow> (False, ?s1) | Some (archive, cache) \<Rightarrow> invalidate_cache archive ?s1)"
  have "views_ok (snd res)"
    using views_ok_unusable [OF assms] views_ok_invalidate by (auto simp: res_def split: option.splits)
  moreover obtain n s2 where "res = (n, s2)" by force
  ultimately show ?thesis
    using Some unfolding res_def
    by (simp add: ReportMappingIoFailure_def Let_def views_ok_frames)
qed

lemma views_ok_admit: "admit cfg now n s = (b, s') \<Longrightarrow> views_ok s \<Longrightarrow> views_ok s'"
  by (auto simp: admit_def reject_over_cap_def raise_headroom_def Let_def
      intro!: views_ok_frames intro: views_ok_frame split: if_splits)

lemma views_ok_enqueue: "enqueue env a off n p s = (t, s') \<Longrightarrow> views_ok s \<Longrightarrow> views_ok s'"
  by (auto simp: enqueue_def Let_def split: alloc_outcome.splits if_splits
      intro!: views_ok_frames views_ok_update intro: views_ok_frame)

lemma views_ok_Record:
  assumes "views_ok s" "RecordDecompressed cfg env A arch off payload s = (thrown, s')"
  shows "views_ok s'"
  using assms
  by (auto simp: RecordDecompressed_def Let_def intro: views_ok_frames
      dest: views_ok_admit views_ok_enqueue split: option.splits if_splits prod.splits bool.splits)

lemma views_ok_install:
  assumes "views_ok s" "result_covers r" "install_item h item r s = (b, s')"
  shows "views_ok s'"
proof -
  have "views_ok (install_result item r view s)" if "ol_view r = Some view" for view
    unfolding install_result_def add_view_def prod.case Let_def
    by (rule views_ok_frame [OF views_ok_frames(3) [OF views_ok_attach [OF assms(1), of view "ol_index r"]]])
      (use that assms(2) in \<open>auto simp: result_covers_def\<close>)
  moreover have "views_ok (requeue item s)"
    unfolding requeue_def using assms(1) by (intro views_ok_update) simp_all
  moreover have "views_ok ((update_cache a f s)\<lparr>dc_pendingBytes := n\<rparr>)"
    if "\<And>c. ac_view (f c) = ac_view c \<and> ac_index (f c) = ac_index c" for a f n
    by (rule views_ok_frame [OF views_ok_update [OF assms(1)]]) (use that in auto)
  then have "views_ok (release_item item s)"
    using assms(1) unfolding release_item_def Let_def by (auto split: option.splits)
  ultimately show ?thesis
    using assms by (auto simp: install_item_def Let_def split: option.splits if_splits)
qed

interpretation ranges: shared_contract "\<lambda>work. views_ok" A for A :: "nat \<Rightarrow> MappedArchive"
proof
  fix s s' t unowned
  assume b: "views_ok s"
  show "views_ok s'" if "dc_caches s' = dc_caches s" "dc_views s' = dc_views s"
    using that by (intro views_ok_frame [OF b]) simp_all
  show "views_ok (publish_total t unowned s)"
    by (rule views_ok_frame [OF b]) (simp_all add: publish_total_def Let_def)
  show "views_ok (update_cache a drop_generation s)" for a
    using b by (intro views_ok_update) (simp_all add: drop_generation_def)
  show "views_ok s'" if "plan_flush h s = (items, s')" for h items
    using that b by (fastforce simp: plan_flush_def views_ok_def)
  show "views_ok (s\<lparr>dc_caches := dc_caches s @ [(a, empty_cache\<lparr>ac_bsaFingerprint := f\<rparr>)]\<rparr>)" for a f
    using b by (auto simp: views_ok_def empty_cache_def)
  show "views_ok (install_loaded a path l s)" if "loaded_covers l" for l a path
    unfolding install_loaded_def add_view_def prod.case Let_def
    by (rule views_ok_frames(3) [OF views_ok_attach [OF b, of "ld_view l" "ld_index l"]])
      (use that in \<open>auto simp: loaded_covers_def\<close>)
next
  show "views_ok (reset_cache cfg now s)" for cfg now s by (simp add: views_ok_def reset_cache_def)
qed (blast intro: views_ok_install views_ok_Lookup views_ok_ReportMappingIoFailure views_ok_Record)+

section \<open>What the system keeps\<close>

text \<open>
  C7: in every reachable state, in the middle of a flush or not, the pending charge is exactly
  the accounted bytes of the queued and in-flight payloads plus the reservations whose file
  is already committed; it never exceeds 256 MiB; the markers of a cache are the offsets of
  its queued and in-flight payloads, no offset twice; and the header and index of an absent
  file are charged once, on top of the payload bytes.
\<close>

theorem pending_ledger:
  assumes "cache_reach A (work, res, w)"
  shows "unat (dc_pendingBytes (wd w)) = charged work (wd w) + unat (dc_committedReservations (wd w)) \<and>
    dc_pendingBytes (wd w) \<le> kMaxPendingMemoryBytes \<and>
    (\<forall>(a, c) \<in> set (dc_caches (wd w)).
       distinct (map pe_startOffset (entries work a c)) \<and>
       pe_startOffset ` set (entries work a c) = ac_bufferedOffsets c \<and>
       (ac_view c = None \<and> entries work a c \<noteq> [] \<longrightarrow>
          accounted (entries work a c) = footprint A a + payload_sum (entries work a c)))"
proof -
  have "books A work (wd w)" using ledger.reach_ok [OF assms] by simp
  then show ?thesis unfolding books_def cache_ok_def case_prod_beta by blast
qed

lemma verify_in_view_valid:
  assumes "verify_in_view cfg env v e s = (ver, s')" "vf_valid ver" "v < length (dc_views s)"
    and "ce_slot e < length (mv_verification (dc_views s ! v))"
  shows "mv_verification (dc_views s' ! v) ! ce_slot e = kVerifyValid \<and>
    (mv_verification (dc_views s ! v) ! ce_slot e = kVerifyUnknown \<longrightarrow>
       xxh32 (take (unat (ce_size e)) (drop (ce_data e) (mv_base (dc_views s ! v)))) = ce_checksum e)"
proof -
  let ?old = "mv_verification (dc_views s ! v) ! ce_slot e"
  obtain st where st: "VerifyEntry (le_readable env) (if cfg_bMeasureStats cfg then le_ticks env else 0)
      (le_owner_valid env) (mv_base (dc_views s ! v)) e ?old = (ver, st)"
    using assms(1) by (auto simp: verify_in_view_def Let_def split: prod.splits)
  have "dc_views s' ! v = (dc_views s ! v)\<lparr>mv_verification :=
      (mv_verification (dc_views s ! v))[ce_slot e := st]\<rparr>"
    using assms(1,3) st by (auto simp: verify_in_view_def Let_def update_view_def)
  moreover have "st = kVerifyValid"
    using st assms(2) by (auto simp: VerifyEntry_def verification_result_def Let_def
        split: if_splits VerifyState.splits)
  moreover have "xxh32 (take (unat (ce_size e)) (drop (ce_data e) (mv_base (dc_views s ! v)))) = ce_checksum e"
    if "?old = kVerifyUnknown"
    using st assms(2) that by (auto simp: VerifyEntry_def verification_result_def Let_def entry_verdict_def
        TryChecksumMapped_def Checksum_def entry_payload_def split: if_splits)
  ultimately show ?thesis using assms(4) by simp
qed

lemma Lookup_hit:
  assumes "Lookup cfg env a off s = (r, s')" "result_bool r"
  obtains c v e ver s1 s2 where "map_of (dc_caches s) a = Some c" "ac_view c = Some v"
    "\<not> mv_unusable (dc_views s ! v)" "\<not> ac_diskInvalidated c" "map_of (ac_index c) off = Some e"
    "cfg_bPrefaultDecompCache cfg \<longrightarrow> IsRangeWarm (of_nat (ce_data e)) (u64_of_u32 (ce_size e))
       (of_nat (mv_committedSize (dc_views s ! v))) (of_nat (mv_prefaultedThrough (dc_views s ! v)))"
    "verify_in_view cfg env v e s1 = (ver, s2)" "vf_valid ver" "dc_views s1 = dc_views s"
    "dc_views s' = dc_views s2" "r = \<lparr>lr_data = Some (ce_data e), lr_size = ce_size e, lr_owner = Some v\<rparr>"
proof -
  define s0 where "s0 = count_if (cfg_bMeasureStats cfg) dg_lookupAttempts_update 1 s"
  have no: "\<not> result_bool no_result" by (simp add: result_bool_def no_result_def)
  have s0: "dc_caches s0 = dc_caches s" "dc_views s0 = dc_views s" by (simp_all add: s0_def)
  obtain c where c: "map_of (dc_caches s) a = Some c"
    using assms no by (auto simp: Lookup_def Let_def s0 simp flip: s0_def split: option.splits)
  obtain v where v: "ac_view c = Some v"
    using assms no c by (auto simp: Lookup_def Let_def s0 simp flip: s0_def split: option.splits)
  have ok: "\<not> mv_unusable (dc_views s ! v)" "\<not> ac_diskInvalidated c"
    using assms no c v by (auto simp: Lookup_def Let_def s0 simp flip: s0_def split: if_splits)
  obtain e where e: "map_of (ac_index c) off = Some e"
    using assms no c v ok by (auto simp: Lookup_def Let_def s0 simp flip: s0_def split: option.splits)
  let ?s1 = "update_cache a (\<lambda>c. c\<lparr>ac_lastAccessMs := le_now env\<rparr>) s0"
  have warm: "cfg_bPrefaultDecompCache cfg \<longrightarrow> IsRangeWarm (of_nat (ce_data e)) (u64_of_u32 (ce_size e))
       (of_nat (mv_committedSize (dc_views s ! v))) (of_nat (mv_prefaultedThrough (dc_views s ! v)))"
    and mk: "makeResult cfg env a v e ?s1 = (r, s')"
    using assms no c v ok e by (auto simp: Lookup_def Let_def s0 simp flip: s0_def split: if_splits)
  obtain ver s2 where ver: "verify_in_view cfg env v e ?s1 = (ver, s2)" by force
  have valid: "vf_valid ver"
    using mk ver assms(2) no by (auto simp: makeResult_def Let_def split: if_splits prod.splits)
  then have "r = \<lparr>lr_data = Some (ce_data e), lr_size = ce_size e, lr_owner = Some v\<rparr>"
    "dc_views s' = dc_views s2"
    using mk ver by (auto simp: makeResult_def Let_def)
  with c v ok e warm ver valid show ?thesis
    by (intro that [of c v e ?s1 ver s2]) (simp_all add: s0)
qed


end
