(* ===== verification/StreamCache.thy ===== *)
theory StreamCache
  imports DecompSystem
begin

text \<open>
  What the stream hooks rely on in the cache: lookups, failure reports and recordings leave
  the mapped payloads where they are, so a stream may keep reading a payload it was attached
  to, and what is looked up is what was recorded.
\<close>

section \<open>Gentle steps\<close>

text \<open>Steps that keep every cache's view, index and queue, and what each view maps.\<close>

definition kept :: "DecompCache \<Rightarrow> (nat \<times> nat option \<times> (u32 \<times> CachedEntry) list \<times> PendingEntry list) list" where
  "kept s = map (\<lambda>(a, c). (a, ac_view c, ac_index c, ac_pending c)) (dc_caches s)"

definition gentle :: "DecompCache \<Rightarrow> DecompCache \<Rightarrow> bool" where
  "gentle s s' \<longleftrightarrow> kept s' = kept s \<and> length (dc_views s') = length (dc_views s) \<and>
     dc_building s' = dc_building s \<and>
     (\<forall>i < length (dc_views s). same_shape (dc_views s ! i) (dc_views s' ! i))"

lemma gentle_refl [simp]: "gentle s s"
  by (simp add: gentle_def)

lemma gentle_trans: "gentle s t \<Longrightarrow> gentle t u \<Longrightarrow> gentle s u"
  by (auto simp: gentle_def same_shape_def)

lemma gentle_frame:
  "dc_caches s' = dc_caches s \<Longrightarrow> dc_views s' = dc_views s \<Longrightarrow> dc_building s' = dc_building s \<Longrightarrow> gentle s s'"
  by (simp add: gentle_def kept_def)

lemma gentle_requests:
  "gentle s (RequestFlush s)" "gentle s (RequestWarmup cfg q s)" "gentle s (next_epoch s)" "gentle s (count_if b k n s)"
  by (rule gentle_frame; simp add: RequestFlush_def RequestWarmup_def next_epoch_def count_if_def Let_def)+

lemma gentle_then:
  "gentle s t \<Longrightarrow> gentle s (RequestFlush t)" "gentle s t \<Longrightarrow> gentle s (RequestWarmup cfg q t)"
  "gentle s t \<Longrightarrow> gentle s (next_epoch t)" "gentle s t \<Longrightarrow> gentle s (count_if b k n t)"
  using gentle_trans gentle_requests by metis+

lemma gentle_update_cache:
  assumes "\<And>c. ac_view (f c) = ac_view c \<and> ac_index (f c) = ac_index c \<and> ac_pending (f c) = ac_pending c"
  shows "gentle s (update_cache a f s)"
  using assms by (auto simp: gentle_def kept_def update_cache_def)

lemma gentle_update_view: "(\<And>w. same_shape w (f w)) \<Longrightarrow> gentle s (update_view v f s)"
  by (auto simp: gentle_def kept_def update_view_def nth_list_update)

lemma gentle_invalidate: "gentle s (snd (invalidate_cache a s))"
  by (auto simp: invalidate_cache_def intro!: gentle_update_cache split: option.splits)

lemma gentle_verify: "verify_in_view cfg env v e s = (r, s') \<Longrightarrow> gentle s s'"
  by (auto simp: verify_in_view_def Let_def same_shape_def split: prod.splits
      intro!: gentle_then gentle_update_view)

lemma gentle_makeResult:
  assumes "makeResult cfg env a v e s = (r, s')"
  shows "gentle s s'"
proof -
  obtain ver s1 where ver: "verify_in_view cfg env v e s = (ver, s1)" by force
  note g1 = gentle_verify [OF ver]
  let ?s3 = "update_view v (\<lambda>w. w\<lparr>mv_unusable := True\<rparr>) (count_if (cfg_bMeasureStats cfg) dg_checksumFailures_update 1 s1)"
  obtain n s4 where inv: "invalidate_cache a ?s3 = (n, s4)" by force
  have "gentle s1 ?s3"
    by (rule gentle_trans [OF gentle_requests(4) gentle_update_view]) (simp add: same_shape_def)
  then have "gentle s s4"
    using gentle_invalidate [of ?s3 a] inv g1 by (metis gentle_trans snd_conv)
  then show ?thesis
    using assms ver inv g1 by (auto simp: makeResult_def Let_def intro!: gentle_then split: if_splits)
qed

lemma gentle_Lookup:
  assumes "Lookup cfg env a off s = (r, s')"
  shows "gentle s s'"
proof -
  have t: "gentle s (update_cache a (\<lambda>c. c\<lparr>ac_lastAccessMs := n\<rparr>) (count_if b k m s))" for n b k m
    by (rule gentle_trans [OF gentle_requests(4) gentle_update_cache]) simp
  show ?thesis
    using assms
    by (auto simp: Lookup_def Let_def intro!: gentle_then intro: gentle_trans [OF t] dest!: gentle_makeResult
        split: option.splits if_splits)
qed

lemma gentle_ReportMappingIoFailure: "gentle s (ReportMappingIoFailure cfg q owner s)"
proof (cases owner)
  case None
  then show ?thesis by (simp add: ReportMappingIoFailure_def)
next
  case (Some v)
  let ?s1 = "update_view v (\<lambda>w. w\<lparr>mv_unusable := True\<rparr>) s"
  have g: "gentle s ?s1" by (rule gentle_update_view) (simp add: same_shape_def)
  have i: "gentle s (snd (invalidate_cache a ?s1))" for a
    using gentle_trans [OF g gentle_invalidate] .
  show ?thesis
    using Some g i
    by (auto simp: ReportMappingIoFailure_def Let_def intro!: gentle_then split: option.split prod.split)
      (metis snd_conv)+
qed

lemma gentle_ReportCacheValidationFailure: "gentle s (ReportCacheValidationFailure cfg q owner s)"
  by (simp add: ReportCacheValidationFailure_def gentle_ReportMappingIoFailure)

section \<open>Truthful payloads\<close>

definition archive_truthful :: "(nat \<Rightarrow> u32 \<Rightarrow> bytes) \<Rightarrow> MappedView list \<Rightarrow> nat \<Rightarrow> ArchiveCache \<Rightarrow> bool" where
  "archive_truthful plain views a c \<longleftrightarrow>
     (\<forall>v. ac_view c = Some v \<longrightarrow> (\<forall>(off, e) \<in> set (ac_index c).
        byte_slice (ce_data e) (unat (ce_size e)) (mv_base (views ! v)) = plain a off)) \<and>
     (\<forall>p \<in> set (ac_pending c). pe_data p = plain a (pe_startOffset p))"

definition cache_truthful :: "(nat \<Rightarrow> u32 \<Rightarrow> bytes) \<Rightarrow> DecompCache \<Rightarrow> bool" where
  "cache_truthful plain s \<longleftrightarrow> views_ok s \<and>
     (\<forall>(a, c) \<in> set (dc_caches s). archive_truthful plain (dc_views s) a c)"

lemma cache_truthfulI:
  "views_ok s \<Longrightarrow> (\<And>a c. (a, c) \<in> set (dc_caches s) \<Longrightarrow> archive_truthful plain (dc_views s) a c) \<Longrightarrow>
     cache_truthful plain s"
  by (auto simp: cache_truthful_def)

lemma cache_truthfulD:
  "cache_truthful plain s \<Longrightarrow> (a, c) \<in> set (dc_caches s) \<Longrightarrow> archive_truthful plain (dc_views s) a c"
  "cache_truthful plain s \<Longrightarrow> views_ok s"
  by (auto simp: cache_truthful_def)

lemma truthful_gentle:
  assumes "cache_truthful plain s" "gentle s s'"
  shows "cache_truthful plain s'"
proof -
  have old: "\<exists>c. (a, c) \<in> set (dc_caches s) \<and> ac_view c = ac_view c' \<and> ac_index c = ac_index c' \<and>
      ac_pending c = ac_pending c'" if "(a, c') \<in> set (dc_caches s')" for a c'
  proof -
    have "(a, ac_view c', ac_index c', ac_pending c') \<in> set (kept s')" using that by (force simp: kept_def)
    then have "(a, ac_view c', ac_index c', ac_pending c') \<in> set (kept s)" using assms(2) by (simp add: gentle_def)
    then show ?thesis by (auto simp: kept_def)
  qed
  have shape: "i < length (dc_views s') \<and> same_shape (dc_views s ! i) (dc_views s' ! i)"
    if "i < length (dc_views s)" for i
    using assms(2) that by (simp add: gentle_def)
  have "views_ok s'"
  proof (rule views_ok_step [of s])
    show "views_ok s" using assms(1) by (simp add: cache_truthful_def)
    fix a c' assume "(a, c') \<in> set (dc_caches s')"
    from old [OF this] show "ac_view c' = None \<or>
        (\<exists>c. (a, c) \<in> set (dc_caches s) \<and> ac_view c' = ac_view c \<and> ac_index c' = ac_index c)" by metis
  qed (rule shape)
  moreover have "archive_truthful plain (dc_views s') a c'" if c': "(a, c') \<in> set (dc_caches s')" for a c'
  proof -
    obtain c where c: "(a, c) \<in> set (dc_caches s)" "ac_view c = ac_view c'" "ac_index c = ac_index c'"
      "ac_pending c = ac_pending c'"
      using old [OF c'] by blast
    have "mv_base (dc_views s' ! v) = mv_base (dc_views s ! v)" if "ac_view c' = Some v" for v
      using cache_truthfulD(2) [OF assms(1)] c(1,2) that shape [of v] by (auto simp: views_ok_def same_shape_def)
    then show ?thesis
      using cache_truthfulD(1) [OF assms(1) c(1)] c by (auto simp: archive_truthful_def)
  qed
  ultimately show ?thesis by (rule cache_truthfulI)
qed

text \<open>What a hit on a truthful cache gives: the whole payload, inside one view.\<close>

lemma truthful_hit:
  assumes "cache_truthful plain s" "Lookup cfg env a off s = (r, s')" "result_bool r"
  shows "\<exists>v d. r = \<lparr>lr_data = Some d, lr_size = lr_size r, lr_owner = Some v\<rparr> \<and> v < length (dc_views s') \<and>
    lr_size r \<noteq> 0 \<and> unat (lr_size r) = length (plain a off) \<and>
    d + unat (lr_size r) \<le> length (mv_base (dc_views s' ! v)) \<and>
    byte_slice d (unat (lr_size r)) (mv_base (dc_views s' ! v)) = plain a off"
proof -
  obtain c v e ver s1 s2 where h: "map_of (dc_caches s) a = Some c" "ac_view c = Some v"
    "map_of (ac_index c) off = Some e" "r = \<lparr>lr_data = Some (ce_data e), lr_size = ce_size e, lr_owner = Some v\<rparr>"
    using Lookup_hit [OF assms(2,3)] by metis
  have g: "gentle s s'" by (rule gentle_Lookup [OF assms(2)])
  have c: "(a, c) \<in> set (dc_caches s)" using h(1) by (rule map_of_SomeD)
  then have v: "v < length (dc_views s)" "view_covers (dc_views s ! v) (ac_index c)"
    using assms(1) h(2) by (auto simp: cache_truthful_def views_ok_def)
  have e: "(off, e) \<in> set (ac_index c)" using h(3) by (rule map_of_SomeD)
  then have r: "ce_size e \<noteq> 0" "ce_data e + unat (ce_size e) \<le> length (mv_base (dc_views s ! v))"
    using v(2) by (auto simp: view_covers_def)
  have b: "byte_slice (ce_data e) (unat (ce_size e)) (mv_base (dc_views s ! v)) = plain a off"
    using cache_truthfulD(1) [OF assms(1) c] h(2) e by (auto simp: archive_truthful_def)
  have "mv_base (dc_views s' ! v) = mv_base (dc_views s ! v)" "v < length (dc_views s')"
    using g v(1) by (auto simp: gentle_def same_shape_def)
  moreover have "length (plain a off) = unat (ce_size e)"
    using r(2) by (simp flip: b add: byte_slice_def)
  ultimately show ?thesis using h(4) r b by simp
qed

section \<open>Recording\<close>

lemma gentle_admit: "admit cfg now n s = (b, s') \<Longrightarrow> gentle s s'"
  by (auto simp: admit_def reject_over_cap_def raise_headroom_def Let_def intro!: gentle_then gentle_frame
      simp: count_if_def RequestFlush_def split: if_splits)

text \<open>A recording changes a truthful cache into one when its payload is the entry's.\<close>

lemma truthful_RecordDecompressed:
  assumes "cache_truthful plain s" "RecordDecompressed cfg renv A (Some a) off payload s = (thrown, s')"
    and "payload = plain a off"
  shows "cache_truthful plain s'" "length (dc_views s') = length (dc_views s)"
    "\<forall>i < length (dc_views s). same_shape (dc_views s ! i) (dc_views s' ! i)"
proof -
  have g: "gentle s (count_if b k n s)" for b k n by (rule gentle_then) simp
  have "gentle s s' \<or> (\<exists>n s1. gentle s s1 \<and> enqueue renv a off n payload s1 = (thrown, s'))"
    using assms(2) g gentle_admit
    by (auto simp: RecordDecompressed_def Let_def split: option.splits if_splits prod.splits bool.splits)
  then consider "gentle s s'" | n s1 where "gentle s s1" "enqueue renv a off n payload s1 = (thrown, s')"
    by blast
  then have "cache_truthful plain s' \<and> length (dc_views s') = length (dc_views s) \<and>
    (\<forall>i < length (dc_views s). same_shape (dc_views s ! i) (dc_views s' ! i))"
  proof cases
    case 1
    then show ?thesis using truthful_gentle [OF assms(1) 1] by (simp add: gentle_def)
  next
    case (2 n s1)
    have t1: "cache_truthful plain s1" by (rule truthful_gentle [OF assms(1) 2(1)])
    let ?f = "\<lambda>c. c\<lparr>ac_bufferedOffsets := insert off (ac_bufferedOffsets c),
                    ac_pending := ac_pending c @
                      [\<lparr>pe_startOffset = off, pe_accountedBytes = n, pe_data = payload\<rparr>],
                    ac_lastAccessMs := re_now renv\<rparr>"
    have "gentle s1 s' \<or> gentle (update_cache a ?f s1) s'"
      using 2(2) by (auto simp: enqueue_def Let_def intro!: gentle_then gentle_frame split: alloc_outcome.splits if_splits)
    then consider "gentle s1 s'" | "gentle (update_cache a ?f s1) s'" by blast
    then show ?thesis
    proof cases
      case 1
      then have "gentle s s'" using 2(1) gentle_trans by blast
      then show ?thesis using truthful_gentle [OF assms(1)] by (simp add: gentle_def)
    next
      case g: 2
      have "views_ok (update_cache a ?f s1)"
        using t1 by (intro views_ok_update) (simp_all add: cache_truthful_def)
      moreover have v1: "dc_views (update_cache a ?f s1) = dc_views s1" by (simp add: update_cache_def)
      moreover have "archive_truthful plain (dc_views s1) b c'"
        if c': "(b, c') \<in> set (dc_caches (update_cache a ?f s1))" for b c'
      proof -
        obtain c where c: "(b, c) \<in> set (dc_caches s1)" "c' = (if b = a then ?f c else c)"
          using c' unfolding caches_update_cache by blast
        then show ?thesis
          using cache_truthfulD(1) [OF t1 c(1)] assms(3) by (cases "b = a") (auto simp: archive_truthful_def)
      qed
      ultimately have "cache_truthful plain (update_cache a ?f s1)"
        by (intro cache_truthfulI) simp_all
      moreover have "dc_views (update_cache a ?f s1) = dc_views s1" by (simp add: update_cache_def)
      ultimately show ?thesis
        using truthful_gentle [OF _ g] 2(1) g by (auto simp: gentle_def same_shape_def)
    qed
  qed
  then show "cache_truthful plain s'" "length (dc_views s') = length (dc_views s)"
    "\<forall>i < length (dc_views s). same_shape (dc_views s ! i) (dc_views s' ! i)" by blast+
qed

end
