(* ===== verification/SourceCacheProofs.thy ===== *)
theory SourceCacheProofs
  imports SourceCache
begin

text \<open>
  The source table is a map from sources to what was learned about them: insertion is an
  update of the map that keeps positive results, and a lookup reads it.
\<close>

section \<open>Probing\<close>

lemma slots_pos [simp]: "0 < kSourceHashSlots"
  by (simp add: kSourceHashSlots_def)

lemma SourceSlot_less [simp]: "SourceSlot k < kSourceHashSlots"
proof -
  have "unat (x AND 0xFFF :: u64) \<le> unat (0xFFF :: u64)" for x
    using word_and_le1 [of x "0xFFF"] by (simp only: word_le_nat_alt)
  then show ?thesis
    by (simp add: SourceSlot_def Let_def kSourceHashSlots_def less_Suc_eq_le le_eq_less_or_eq
        order_le_less_trans [of _ 4095])
qed

text \<open>The \<open>j\<close>-th slot after \<open>i\<close>.\<close>

abbreviation nth_slot :: "nat \<Rightarrow> nat \<Rightarrow> nat" where
  "nth_slot i j \<equiv> (i + j) mod kSourceHashSlots"

lemma probe_AtKey:
  "i < kSourceHashSlots \<Longrightarrow> probe h k i n = AtKey r \<longleftrightarrow>
     (\<exists>j < n. r = nth_slot i j \<and> sh_key (h ! r) = k \<and> (\<forall>j' < j. sh_key (h ! nth_slot i j') \<notin> {k, 0}))"
proof (induction n arbitrary: i)
  case (Suc n)
  let ?i = "(i + 1) mod kSourceHashSlots"
  have step: "nth_slot ?i j = nth_slot i (Suc j)" for j by (simp add: mod_simps)
  have IH: "probe h k ?i n = AtKey r \<longleftrightarrow> (\<exists>j < n. r = nth_slot i (Suc j) \<and> sh_key (h ! r) = k \<and>
      (\<forall>j' < j. sh_key (h ! nth_slot i (Suc j')) \<notin> {k, 0}))"
    using Suc.IH [of ?i] unfolding step by simp
  show ?case
  proof (cases "sh_key (h ! i) \<in> {k, 0}")
    case True
    have "(\<forall>j' < j. sh_key (h ! nth_slot i j') \<notin> {k, 0}) \<longleftrightarrow> j = 0" for j
      using True Suc.prems by (cases j) (auto intro: exI [of _ 0])
    then show ?thesis using True Suc.prems by (auto simp: Let_def)
  next
    case False
    then have "(\<exists>j < Suc n. r = nth_slot i j \<and> sh_key (h ! r) = k \<and> (\<forall>j' < j. sh_key (h ! nth_slot i j') \<notin> {k, 0})) \<longleftrightarrow>
        (\<exists>j < n. r = nth_slot i (Suc j) \<and> sh_key (h ! r) = k \<and> (\<forall>j' < j. sh_key (h ! nth_slot i (Suc j')) \<notin> {k, 0}))"
      using Suc.prems unfolding Ex_less_Suc2 All_less_Suc2 by auto
    then show ?thesis using IH False by (simp add: Let_def)
  qed
qed simp

lemma probe_AtEmpty:
  "k \<noteq> 0 \<Longrightarrow> i < kSourceHashSlots \<Longrightarrow> probe h k i n = AtEmpty r \<longleftrightarrow>
     (\<exists>j < n. r = nth_slot i j \<and> sh_key (h ! r) = 0 \<and> (\<forall>j' < j. sh_key (h ! nth_slot i j') \<notin> {k, 0}))"
proof (induction n arbitrary: i)
  case (Suc n)
  let ?i = "(i + 1) mod kSourceHashSlots"
  have step: "nth_slot ?i j = nth_slot i (Suc j)" for j by (simp add: mod_simps)
  have IH: "probe h k ?i n = AtEmpty r \<longleftrightarrow> (\<exists>j < n. r = nth_slot i (Suc j) \<and> sh_key (h ! r) = 0 \<and>
      (\<forall>j' < j. sh_key (h ! nth_slot i (Suc j')) \<notin> {k, 0}))"
    using Suc.IH [of ?i] Suc.prems unfolding step by simp
  show ?case
  proof (cases "sh_key (h ! i) \<in> {k, 0}")
    case True
    have "(\<forall>j' < j. sh_key (h ! nth_slot i j') \<notin> {k, 0}) \<longleftrightarrow> j = 0" for j
      using True Suc.prems by (cases j) (auto intro: exI [of _ 0])
    then show ?thesis using True Suc.prems by (auto simp: Let_def)
  next
    case False
    then have "(\<exists>j < Suc n. r = nth_slot i j \<and> sh_key (h ! r) = 0 \<and> (\<forall>j' < j. sh_key (h ! nth_slot i j') \<notin> {k, 0})) \<longleftrightarrow>
        (\<exists>j < n. r = nth_slot i (Suc j) \<and> sh_key (h ! r) = 0 \<and> (\<forall>j' < j. sh_key (h ! nth_slot i (Suc j')) \<notin> {k, 0}))"
      using Suc.prems unfolding Ex_less_Suc2 All_less_Suc2 by auto
    then show ?thesis using IH False by (simp add: Let_def)
  qed
qed simp

lemma probe_full:
  assumes "probe h k i kSourceHashSlots = TableFull" "i < kSourceHashSlots" "r < kSourceHashSlots"
  shows "sh_key (h ! r) \<notin> {k, 0}"
proof -
  have all: "probe h k i n = TableFull \<Longrightarrow> i < kSourceHashSlots \<Longrightarrow> j < n \<Longrightarrow> sh_key (h ! nth_slot i j) \<notin> {k, 0}"
    for i j n
  proof (induction n arbitrary: i j)
    case (Suc n)
    have step: "nth_slot ((i + 1) mod kSourceHashSlots) j = nth_slot i (Suc j)" for j by (simp add: mod_simps)
    show ?case
    proof (cases j)
      case 0
      then show ?thesis using Suc.prems by (auto simp: Let_def split: if_splits)
    next
      case (Suc j')
      then show ?thesis
        using Suc.IH [of "(i + 1) mod kSourceHashSlots" j'] Suc.prems unfolding step
        by (auto simp: Let_def split: if_splits)
    qed
  qed simp
  let ?j = "(r + kSourceHashSlots - i) mod kSourceHashSlots"
  have "nth_slot i ?j = r"
    using assms(2,3) by (simp add: mod_simps)
  with all [OF assms(1,2), of ?j] show ?thesis by simp
qed

lemma probe_cong: "map sh_key h = map sh_key h' \<Longrightarrow> length h = kSourceHashSlots \<Longrightarrow> i < kSourceHashSlots \<Longrightarrow>
    probe h k i n = probe h' k i n"
proof (induction n arbitrary: i)
  case (Suc n)
  have "length h' = kSourceHashSlots" using Suc.prems by (metis length_map)
  then have "sh_key (h ! i) = sh_key (h' ! i)" using Suc.prems by (metis nth_map)
  then show ?case using Suc by (simp add: Let_def)
qed simp

section \<open>The table as a map\<close>

type_synonym learned = "u64 \<times> archive_ptr \<times> u64"

definition home_probe :: "SourceTable \<Rightarrow> u64 \<Rightarrow> probe_result" where
  "home_probe t k = probe (st_hash t) k (SourceSlot k) kSourceHashSlots"

definition source_map :: "SourceTable \<Rightarrow> u64 \<rightharpoonup> learned" where
  "source_map t k =
     (if k = 0 then None else case home_probe t k of
        AtKey i \<Rightarrow> Some (sh_innerStream (st_hash t ! i), sh_archive (st_hash t ! i), sh_validUntilMs (st_hash t ! i))
      | _ \<Rightarrow> map_option (\<lambda>v. (sv_innerStream v, sv_archive v, sv_validUntilMs v)) (st_overflow t k))"

text \<open>Every key is found where it is stored, nothing null is stored, and the overflow map is
  used only once the table is full.\<close>

definition table_ok :: "SourceTable \<Rightarrow> bool" where
  "table_ok t \<longleftrightarrow> length (st_hash t) = kSourceHashSlots \<and>
     (\<forall>i < kSourceHashSlots. sh_key (st_hash t ! i) \<noteq> 0 \<longrightarrow>
        home_probe t (sh_key (st_hash t ! i)) = AtKey i \<and> sh_archive (st_hash t ! i) \<noteq> NullArchive) \<and>
     (\<forall>k v. st_overflow t k = Some v \<longrightarrow>
        sv_archive v \<noteq> NullArchive \<and> (\<forall>i < kSourceHashSlots. sh_key (st_hash t ! i) \<noteq> 0))"

lemma table_ok_empty: "table_ok empty_table"
  by (auto simp: table_ok_def empty_table_def empty_slot_def)

lemma source_map_empty: "source_map empty_table = Map.empty"
proof
  fix k
  have "home_probe empty_table k = AtEmpty (SourceSlot k)" if "k \<noteq> 0"
    using that unfolding home_probe_def
    by (subst probe_AtEmpty) (auto simp: empty_table_def empty_slot_def intro!: exI [of _ 0])
  then show "source_map empty_table k = None" by (simp add: source_map_def empty_table_def)
qed

text \<open>Writing values into a slot leaves all probes alone.\<close>

lemma table_ok_write:
  assumes "table_ok t" "i < kSourceHashSlots" "sh_key e = sh_key (st_hash t ! i)" "sh_archive e \<noteq> NullArchive"
  shows "table_ok (t\<lparr>st_hash := (st_hash t)[i := e]\<rparr>)"
    and "home_probe (t\<lparr>st_hash := (st_hash t)[i := e]\<rparr>) k = home_probe t k"
proof -
  have len: "length (st_hash t) = kSourceHashSlots" using assms(1) by (simp add: table_ok_def)
  have keys: "map sh_key ((st_hash t)[i := e]) = map sh_key (st_hash t)"
    using assms(2,3) len by (simp add: map_update list_update_same_conv)
  show p: "home_probe (t\<lparr>st_hash := (st_hash t)[i := e]\<rparr>) k = home_probe t k" for k
    using probe_cong [OF keys] len by (simp add: home_probe_def)
  have k: "sh_key ((st_hash t)[i := e] ! j) = sh_key (st_hash t ! j)" for j
    using assms(2,3) len by (cases "i = j") simp_all
  have "sh_archive ((st_hash t)[i := e] ! j) \<noteq> NullArchive"
    if "j < kSourceHashSlots" "sh_key (st_hash t ! j) \<noteq> 0" for j
    using that assms len by (cases "i = j") (auto simp: table_ok_def)
  then show "table_ok (t\<lparr>st_hash := (st_hash t)[i := e]\<rparr>)"
    using assms(1) unfolding table_ok_def p by (simp add: k)
qed

lemma source_map_write:
  assumes "table_ok t" "home_probe t k = AtKey i" "k \<noteq> 0" "sh_key e = k" "sh_archive e \<noteq> NullArchive"
  shows "source_map (t\<lparr>st_hash := (st_hash t)[i := e]\<rparr>) =
    (source_map t)(k \<mapsto> (sh_innerStream e, sh_archive e, sh_validUntilMs e))"
proof -
  have i: "i < kSourceHashSlots" "sh_key (st_hash t ! i) = k"
    using assms(2) by (auto simp: home_probe_def probe_AtKey)
  have other: "j \<noteq> i" if "home_probe t k' = AtKey j" "k' \<noteq> k" for k' j
    using that i by (auto simp: home_probe_def probe_AtKey)
  have len: "length (st_hash t) = kSourceHashSlots" using assms(1) by (simp add: table_ok_def)
  note p = table_ok_write(2) [OF assms(1) i(1), of e]
  show ?thesis
  proof
    fix k'
    show "source_map (t\<lparr>st_hash := (st_hash t)[i := e]\<rparr>) k' =
      ((source_map t)(k \<mapsto> (sh_innerStream e, sh_archive e, sh_validUntilMs e))) k'"
    proof (cases "k' = k")
      case True
      then show ?thesis using assms(2-5) p i len by (simp add: source_map_def)
    next
      case False
      then show ?thesis using other [of k'] p assms(4,5) i(2)
        by (auto simp: source_map_def split: probe_result.split)
    qed
  qed
qed

text \<open>A new key goes into the first free slot of its chain.\<close>

lemma table_add:
  assumes "table_ok t" "home_probe t k = AtEmpty i" "k \<noteq> 0" "sh_key e = k" "sh_archive e \<noteq> NullArchive"
  shows "table_ok (t\<lparr>st_hash := (st_hash t)[i := e]\<rparr>)"
    and "source_map (t\<lparr>st_hash := (st_hash t)[i := e]\<rparr>) =
      (source_map t)(k \<mapsto> (sh_innerStream e, sh_archive e, sh_validUntilMs e))"
proof -
  let ?h = "st_hash t" and ?h' = "(st_hash t)[i := e]" and ?t = "t\<lparr>st_hash := (st_hash t)[i := e]\<rparr>"
  have len: "length ?h = kSourceHashSlots" using assms(1) by (simp add: table_ok_def)
  obtain n where n: "n < kSourceHashSlots" "i = nth_slot (SourceSlot k) n" "sh_key (?h ! i) = 0"
    "\<forall>j < n. sh_key (?h ! nth_slot (SourceSlot k) j) \<notin> {k, 0}"
    using assms(2,3) by (auto simp: home_probe_def probe_AtEmpty)
  have i: "i < kSourceHashSlots" using n(2) by simp
  have at: "?h' ! j = (if j = i then e else ?h ! j)" for j
    using i len by (simp add: nth_list_update)
  have new: "home_probe ?t k = AtKey i"
  proof -
    have "nth_slot (SourceSlot k) j \<noteq> i" if "j < n" for j using n(3) n(4) [rule_format, OF that] by auto
    then have "\<forall>j < n. sh_key (?h' ! nth_slot (SourceSlot k) j) \<notin> {k, 0}" using n(4) by (simp add: at)
    then show ?thesis
      unfolding home_probe_def using n(1,2) assms(4) at [of i]
      by (subst probe_AtKey) (auto intro!: exI [of _ n])
  qed
  have old: "home_probe ?t k' = AtKey j" if pk: "home_probe t k' = AtKey j" "k' \<noteq> k" "k' \<noteq> 0" for k' j
  proof -
    obtain m where m: "m < kSourceHashSlots" "j = nth_slot (SourceSlot k') m" "sh_key (?h ! j) = k'"
      "\<forall>j' < m. sh_key (?h ! nth_slot (SourceSlot k') j') \<notin> {k', 0}"
      using pk(1) by (auto simp: home_probe_def probe_AtKey)
    have "nth_slot (SourceSlot k') j' \<noteq> i" if "j' < m" for j' using m(4) n(3) that by force
    moreover have "j \<noteq> i" using m(3) n(3) pk(3) by auto
    ultimately show ?thesis using m by (auto simp: home_probe_def probe_AtKey at intro!: exI [of _ m])
  qed
  have absent: "home_probe ?t k' \<noteq> AtKey j" if "\<forall>j. home_probe t k' \<noteq> AtKey j" "k' \<noteq> k" "k' \<noteq> 0" for k' j
  proof
    assume "home_probe ?t k' = AtKey j"
    then have j: "j < kSourceHashSlots" "sh_key (?h' ! j) = k'" by (auto simp: home_probe_def probe_AtKey)
    then have "sh_key (?h ! j) = k'" using that(2) assms(4) by (simp add: at split: if_splits)
    then have "home_probe t k' = AtKey j" using assms(1) j(1) that(3) by (auto simp: table_ok_def)
    with that(1) show False by blast
  qed
  have probes: "home_probe ?t (sh_key (?h' ! j)) = AtKey j \<and> sh_archive (?h' ! j) \<noteq> NullArchive"
    if j: "j < kSourceHashSlots" "sh_key (?h' ! j) \<noteq> 0" for j
  proof (cases "j = i")
    case True
    then show ?thesis using new assms(4,5) by (simp add: at)
  next
    case False
    then have h: "?h' ! j = ?h ! j" by (simp add: at)
    then have hp: "home_probe t (sh_key (?h ! j)) = AtKey j" "sh_archive (?h ! j) \<noteq> NullArchive"
      using j assms(1) by (auto simp: table_ok_def)
    have "sh_key (?h ! j) \<noteq> k" using hp(1) assms(2) by auto
    then show ?thesis using old [OF hp(1)] hp(2) j(2) h by simp
  qed
  have none: "st_overflow t = Map.empty"
  proof (rule ccontr)
    assume "st_overflow t \<noteq> Map.empty"
    then obtain k' v where "st_overflow t k' = Some v" by (auto simp: fun_eq_iff)
    then show False using assms(1) n(3) i by (auto simp: table_ok_def)
  qed
  show "table_ok ?t" unfolding table_ok_def using probes len none by simp
  show "source_map ?t = (source_map t)(k \<mapsto> (sh_innerStream e, sh_archive e, sh_validUntilMs e))"
  proof
    fix k'
    consider "k' = k" | "k' = 0" | "k' \<noteq> k" "k' \<noteq> 0" by blast
    then show "source_map ?t k' = ((source_map t)(k \<mapsto> (sh_innerStream e, sh_archive e, sh_validUntilMs e))) k'"
    proof cases
      case 1
      then show ?thesis using new assms(3) by (simp add: source_map_def at)
    next
      case 2
      then show ?thesis using assms(3) by (simp add: source_map_def)
    next
      case 3
      show ?thesis
      proof (cases "\<exists>j. home_probe t k' = AtKey j")
        case True
        then obtain j where j: "home_probe t k' = AtKey j" by blast
        have "j \<noteq> i" using j n(3) 3 by (auto simp: home_probe_def probe_AtKey)
        then show ?thesis using old [OF j 3] j 3 by (simp add: source_map_def at)
      next
        case False
        then have a: "\<forall>j. home_probe t k' \<noteq> AtKey j" "\<forall>j. home_probe ?t k' \<noteq> AtKey j"
          using absent 3 by blast+
        have "source_map u k' = map_option (\<lambda>v. (sv_innerStream v, sv_archive v, sv_validUntilMs v)) (st_overflow u k')"
          if "\<forall>j. home_probe u k' \<noteq> AtKey j" for u
          using that 3 by (auto simp: source_map_def split: probe_result.split)
        then show ?thesis using a 3 by simp
      qed
    qed
  qed
qed

text \<open>A full table sends new keys to the overflow map.\<close>

lemma table_overflow:
  assumes "table_ok t" "home_probe t k = TableFull" "k \<noteq> 0" "sv_archive v \<noteq> NullArchive"
  shows "table_ok (t\<lparr>st_overflow := (st_overflow t)(k \<mapsto> v)\<rparr>)"
    and "source_map (t\<lparr>st_overflow := (st_overflow t)(k \<mapsto> v)\<rparr>) =
      (source_map t)(k \<mapsto> (sv_innerStream v, sv_archive v, sv_validUntilMs v))"
proof -
  let ?t = "t\<lparr>st_overflow := (st_overflow t)(k \<mapsto> v)\<rparr>"
  have p: "home_probe ?t k' = home_probe t k'" for k' by (simp add: home_probe_def)
  have "sh_key (st_hash t ! i) \<noteq> 0" if "i < kSourceHashSlots" for i
    using probe_full [of "st_hash t" k] assms(2) that by (simp add: home_probe_def)
  then show "table_ok ?t" using assms(1,4) unfolding table_ok_def p by auto
  show "source_map ?t = (source_map t)(k \<mapsto> (sv_innerStream v, sv_archive v, sv_validUntilMs v))"
    using assms(2,3) by (auto simp: source_map_def p fun_eq_iff split: probe_result.split)
qed

section \<open>Insertion and lookup\<close>

text \<open>What insertion does to the map: a positive result for the same backing stream stays.\<close>

definition learn :: "u64 \<Rightarrow> learned \<Rightarrow> (u64 \<rightharpoonup> learned) \<Rightarrow> (u64 \<rightharpoonup> learned)" where
  "learn k v m =
     (case m k of
        Some (inner, ArchiveAt a, until) \<Rightarrow> if inner = fst v then m else m(k \<mapsto> v)
      | _ \<Rightarrow> m(k \<mapsto> v))"

definition deadline :: "u64 \<Rightarrow> u64 \<Rightarrow> u64" where
  "deadline now validForMs = (if validForMs > u64_max - now then u64_max else now + validForMs)"

lemma SourceInsert_learns:
  assumes "table_ok t" "source \<noteq> 0" "inner \<noteq> 0" "archive \<noteq> NullArchive"
  shows "table_ok (SourceInsert now source inner archive validFor t) \<and>
    source_map (SourceInsert now source inner archive validFor t) =
      learn source (inner, archive, deadline now validFor) (source_map t)"
proof (cases "home_probe t source")
  case (AtKey i)
  then have i: "i < kSourceHashSlots" "sh_key (st_hash t ! i) = source"
    by (auto simp: home_probe_def probe_AtKey)
  let ?e = "st_hash t ! i"
  let ?new = "?e\<lparr>sh_generation := sh_generation ?e + 1 + 1, sh_innerStream := inner,
    sh_archive := archive, sh_validUntilMs := deadline now validFor\<rparr>"
  have m: "source_map t source = Some (sh_innerStream ?e, sh_archive ?e, sh_validUntilMs ?e)"
    using AtKey assms(2) by (simp add: source_map_def)
  have ins: "SourceInsert now source inner archive validFor t =
      (if sh_innerStream ?e = inner \<and> sh_archive ?e \<noteq> NullArchive \<and> sh_archive ?e \<noteq> NegativeSentinel then t
       else t\<lparr>st_hash := (st_hash t)[i := ?new]\<rparr>)"
    using AtKey assms(2-4) by (simp add: SourceInsert_def home_probe_def deadline_def Let_def)
  have "sh_archive ?e \<noteq> NullArchive" using assms(1,2) i by (auto simp: table_ok_def)
  moreover have "table_ok (t\<lparr>st_hash := (st_hash t)[i := ?new]\<rparr>)"
    using table_ok_write(1) [OF assms(1) i(1), of ?new] assms(4) by simp
  moreover have "source_map (t\<lparr>st_hash := (st_hash t)[i := ?new]\<rparr>) =
      (source_map t)(source \<mapsto> (inner, archive, deadline now validFor))"
    using source_map_write [OF assms(1) AtKey assms(2), of ?new] assms(4) i(2) by simp
  ultimately show ?thesis
    using assms(1) m by (cases "sh_archive ?e") (auto simp: ins learn_def)
next
  case (AtEmpty i)
  let ?e = "(st_hash t ! i)\<lparr>sh_archive := archive, sh_innerStream := inner,
    sh_validUntilMs := deadline now validFor, sh_key := source\<rparr>"
  have ins: "SourceInsert now source inner archive validFor t = t\<lparr>st_hash := (st_hash t)[i := ?e]\<rparr>"
    using AtEmpty assms(2-4) by (simp add: SourceInsert_def home_probe_def deadline_def Let_def)
  have "i < kSourceHashSlots" "sh_key (st_hash t ! i) = 0"
    using AtEmpty assms(2) by (auto simp: home_probe_def probe_AtEmpty)
  then have "st_overflow t source = None"
    using assms(1) by (cases "st_overflow t source") (auto simp: table_ok_def)
  then have "source_map t source = None" using AtEmpty by (simp add: source_map_def)
  then show ?thesis
    using table_add [OF assms(1) AtEmpty assms(2), of ?e] assms(4) by (simp add: ins learn_def)
next
  case TableFull
  let ?v = "\<lparr>sv_innerStream = inner, sv_archive = archive, sv_validUntilMs = deadline now validFor\<rparr>"
  have m: "source_map t source =
      map_option (\<lambda>v. (sv_innerStream v, sv_archive v, sv_validUntilMs v)) (st_overflow t source)"
    using TableFull assms(2) by (simp add: source_map_def)
  note add = table_overflow [OF assms(1) TableFull assms(2), of ?v]
  show ?thesis
  proof (cases "st_overflow t source")
    case None
    then have "SourceInsert now source inner archive validFor t =
        t\<lparr>st_overflow := (st_overflow t)(source \<mapsto> ?v)\<rparr>"
      using TableFull assms(2-4) by (simp add: SourceInsert_def home_probe_def deadline_def Let_def)
    then show ?thesis using add assms(4) m None by (simp add: learn_def)
  next
    case (Some v)
    then have ins: "SourceInsert now source inner archive validFor t =
        (if sv_innerStream v = inner \<and> sv_archive v \<noteq> NullArchive \<and> sv_archive v \<noteq> NegativeSentinel then t
         else t\<lparr>st_overflow := (st_overflow t)(source \<mapsto> ?v)\<rparr>)"
      using TableFull assms(2-4) by (simp add: SourceInsert_def home_probe_def deadline_def Let_def)
    have "sv_archive v \<noteq> NullArchive" using Some assms(1) by (auto simp: table_ok_def)
    then show ?thesis
      using add assms(1,4) m Some by (cases "sv_archive v") (auto simp: ins learn_def)
  qed
qed

text \<open>What a lookup answers, over the map.\<close>

fun recall :: "u64 option \<Rightarrow> u64 \<Rightarrow> learned option \<Rightarrow> nat option option" where
  "recall (Some currentInner) now (Some (inner, archive, until)) =
     (if inner \<noteq> currentInner then None
      else case archive of
        NegativeSentinel \<Rightarrow> if now \<ge> until then None else Some None
      | NullArchive \<Rightarrow> Some None
      | ArchiveAt a \<Rightarrow> Some (Some a))"
| "recall _ now _ = None"

lemma SourceLookup_recalls:
  assumes "table_ok t" "SourceLookup inner now source t = (r, t')"
  shows "table_ok t'" "r = recall inner now (source_map t source)"
    "source_map t' = source_map t \<or>
      (\<exists>until. r = None \<and> source_map t source = Some (the inner, NegativeSentinel, until) \<and>
        source_map t' = (source_map t)(source \<mapsto> (the inner, NegativeSentinel, now + kSourceRetryMs)))"
proof -
  have "table_ok t' \<and> r = recall inner now (source_map t source) \<and> (source_map t' = source_map t \<or>
      (\<exists>until. r = None \<and> source_map t source = Some (the inner, NegativeSentinel, until) \<and>
        source_map t' = (source_map t)(source \<mapsto> (the inner, NegativeSentinel, now + kSourceRetryMs))))"
  proof (cases "source = 0 \<or> inner = None")
    case True
    then show ?thesis
      using assms by (cases inner) (auto simp: SourceLookup_def source_map_def)
  next
    case False
    then obtain ci where ci: "inner = Some ci" and k: "source \<noteq> 0" by blast
    show ?thesis
    proof (cases "home_probe t source")
      case (AtKey i)
      then have i: "i < kSourceHashSlots" "sh_key (st_hash t ! i) = source"
        by (auto simp: home_probe_def probe_AtKey)
      let ?e = "st_hash t ! i"
      let ?new = "?e\<lparr>sh_validUntilMs := now + kSourceRetryMs\<rparr>"
      have m: "source_map t source = Some (sh_innerStream ?e, sh_archive ?e, sh_validUntilMs ?e)"
        using AtKey k by (simp add: source_map_def)
      have lk: "(r, t') = (if sh_innerStream ?e \<noteq> ci then (None, t)
               else (case sh_archive ?e of
                   NegativeSentinel \<Rightarrow>
                     if now \<ge> sh_validUntilMs ?e then (None, t\<lparr>st_hash := (st_hash t)[i := ?new]\<rparr>)
                     else (Some None, t)
                 | NullArchive \<Rightarrow> (Some None, t)
                 | ArchiveAt a \<Rightarrow> (Some (Some a), t)))"
        using assms(2) AtKey k ci by (simp add: SourceLookup_def home_probe_def Let_def)
      have neg: "table_ok (t\<lparr>st_hash := (st_hash t)[i := ?new]\<rparr>)"
        "source_map (t\<lparr>st_hash := (st_hash t)[i := ?new]\<rparr>) =
           (source_map t)(source \<mapsto> (sh_innerStream ?e, sh_archive ?e, now + kSourceRetryMs))"
        if "sh_archive ?e \<noteq> NullArchive"
        using table_ok_write(1) [OF assms(1) i(1), of ?new] source_map_write [OF assms(1) AtKey k, of ?new] that i(2)
        by simp_all
      show ?thesis
        using lk assms(1) ci m neg by (cases "sh_archive ?e") (auto split: if_splits)
    next
      case (AtEmpty i)
      then show ?thesis
        using assms k ci
        by (cases "st_overflow t source"; cases "sv_archive (the (st_overflow t source))")
          (auto simp: SourceLookup_def source_map_def home_probe_def split: if_splits)
    next
      case TableFull
      then show ?thesis
        using assms k ci
        by (cases "st_overflow t source"; cases "sv_archive (the (st_overflow t source))")
          (auto simp: SourceLookup_def source_map_def home_probe_def split: if_splits)
    qed
  qed
  then show "table_ok t'" "r = recall inner now (source_map t source)"
    "source_map t' = source_map t \<or>
      (\<exists>until. r = None \<and> source_map t source = Some (the inner, NegativeSentinel, until) \<and>
        source_map t' = (source_map t)(source \<mapsto> (the inner, NegativeSentinel, now + kSourceRetryMs)))"
    by blast+
qed

text \<open>
  A lookup that finds an expired miss pushes its deadline, but only in the table: what is in the
  overflow map keeps its deadline.  Which sources are in the table is part of the reference: the
  first 4096 that were inserted.
\<close>

definition used_slots :: "SourceTable \<Rightarrow> nat set" where
  "used_slots t = {i. i < kSourceHashSlots \<and> sh_key (st_hash t ! i) \<noteq> 0}"

definition residents :: "SourceTable \<Rightarrow> u64 set" where
  "residents t = (\<lambda>i. sh_key (st_hash t ! i)) ` used_slots t"

lemma residents_probe:
  assumes "table_ok t" "k \<noteq> 0"
  shows "k \<in> residents t \<longleftrightarrow> (\<exists>i. home_probe t k = AtKey i)"
proof
  assume "k \<in> residents t"
  then show "\<exists>i. home_probe t k = AtKey i"
    using assms(1) by (auto simp: residents_def used_slots_def table_ok_def)
next
  assume "\<exists>i. home_probe t k = AtKey i"
  then obtain i where i: "home_probe t k = AtKey i" by blast
  then have "i < kSourceHashSlots" "sh_key (st_hash t ! i) = k"
    by (auto simp: home_probe_def probe_AtKey)
  then show "k \<in> residents t" using assms(2) by (auto simp: residents_def used_slots_def)
qed

lemma card_residents: "table_ok t \<Longrightarrow> card (residents t) = card (used_slots t)"
  unfolding residents_def
proof (rule card_image, rule inj_onI)
  fix x y
  assume ok: "table_ok t" and x: "x \<in> used_slots t" and y: "y \<in> used_slots t"
    and eq: "sh_key (st_hash t ! x) = sh_key (st_hash t ! y)"
  have probe: "home_probe t (sh_key (st_hash t ! i)) = AtKey i" if "i \<in> used_slots t" for i
    using that ok by (simp add: table_ok_def used_slots_def)
  from probe [OF x] have "home_probe t (sh_key (st_hash t ! y)) = AtKey x" unfolding eq .
  then have "AtKey x = AtKey y" unfolding probe [OF y] by (rule sym)
  then show "x = y" by simp
qed

lemma used_slots_all: "card {i :: nat. i < kSourceHashSlots} = kSourceHashSlots"
  by simp

lemma residents_room:
  assumes "table_ok t" "home_probe t k = AtEmpty i" "k \<noteq> 0"
  shows "card (residents t) < kSourceHashSlots"
proof -
  have "i < kSourceHashSlots" "sh_key (st_hash t ! i) = 0"
    using assms(2,3) by (auto simp: home_probe_def probe_AtEmpty)
  then have "used_slots t \<subset> {i. i < kSourceHashSlots}" by (auto simp: used_slots_def)
  from psubset_card_mono [OF _ this] show ?thesis by (simp add: card_residents [OF assms(1)])
qed

lemma residents_full:
  assumes "table_ok t" "home_probe t k = TableFull"
  shows "card (residents t) = kSourceHashSlots"
proof -
  have "used_slots t = {i. i < kSourceHashSlots}"
    using probe_full [of "st_hash t" k "SourceSlot k"] assms(2) by (auto simp: used_slots_def home_probe_def)
  then show ?thesis by (simp add: card_residents [OF assms(1)])
qed

lemma residents_cong: "map sh_key (st_hash t') = map sh_key (st_hash t) \<Longrightarrow> length (st_hash t) = kSourceHashSlots \<Longrightarrow>
    residents t' = residents t"
proof -
  assume keys: "map sh_key (st_hash t') = map sh_key (st_hash t)" and len: "length (st_hash t) = kSourceHashSlots"
  have "length (st_hash t') = kSourceHashSlots" using keys len by (metis length_map)
  then have k: "sh_key (st_hash t' ! i) = sh_key (st_hash t ! i)" if "i < kSourceHashSlots" for i
    using that keys len by (metis nth_map)
  then have "used_slots t' = used_slots t" by (auto simp: used_slots_def)
  then show "residents t' = residents t"
    unfolding residents_def using k by (intro image_cong) (auto simp: used_slots_def)
qed

text \<open>The reference of the table.\<close>

record source_reference =
  sr_map :: "u64 \<rightharpoonup> learned"
  sr_resident :: "u64 set"

definition pushed :: "u64 option \<Rightarrow> u64 \<Rightarrow> u64 \<Rightarrow> (u64 \<rightharpoonup> learned) \<Rightarrow> (u64 \<rightharpoonup> learned)" where
  "pushed inner now source m =
     (case m source of
        Some (i, NegativeSentinel, until) \<Rightarrow>
          if inner = Some i \<and> now \<ge> until then m(source \<mapsto> (i, NegativeSentinel, now + kSourceRetryMs)) else m
      | _ \<Rightarrow> m)"

datatype source_op =
  InsertOp u64 u64 u64 archive_ptr u64
| LookupOp "u64 option" u64 u64

fun reference_step :: "source_op \<Rightarrow> source_reference \<Rightarrow> nat option option list \<times> source_reference" where
  "reference_step (InsertOp now source inner archive validFor) r =
     ([], if source = 0 \<or> inner = 0 \<or> archive = NullArchive then r
          else r\<lparr>sr_map := learn source (inner, archive, deadline now validFor) (sr_map r),
                 sr_resident := (if sr_map r source = None \<and> card (sr_resident r) < kSourceHashSlots
                   then insert source (sr_resident r) else sr_resident r)\<rparr>)"
| "reference_step (LookupOp inner now source) r =
     ([recall inner now (sr_map r source)],
      if source \<in> sr_resident r then r\<lparr>sr_map := pushed inner now source (sr_map r)\<rparr> else r)"

fun table_step :: "source_op \<Rightarrow> SourceTable \<Rightarrow> nat option option list \<times> SourceTable" where
  "table_step (InsertOp now source inner archive validFor) t = ([], SourceInsert now source inner archive validFor t)"
| "table_step (LookupOp inner now source) t = (case SourceLookup inner now source t of (r, t') \<Rightarrow> ([r], t'))"

fun run_ops :: "(source_op \<Rightarrow> 's \<Rightarrow> nat option option list \<times> 's) \<Rightarrow> source_op list \<Rightarrow> 's \<Rightarrow> nat option option list \<times> 's" where
  "run_ops step [] s = ([], s)"
| "run_ops step (op # ops) s =
     (case step op s of (as, s1) \<Rightarrow> case run_ops step ops s1 of (bs, s2) \<Rightarrow> (as @ bs, s2))"

definition empty_reference :: source_reference where
  "empty_reference = \<lparr>sr_map = Map.empty, sr_resident = {}\<rparr>"

definition reference_of :: "SourceTable \<Rightarrow> source_reference" where
  "reference_of t = \<lparr>sr_map = source_map t, sr_resident = residents t\<rparr>"

lemma residents_zero: "0 \<notin> residents t"
  by (auto simp: residents_def used_slots_def)

lemma table_ok_length: "table_ok t \<Longrightarrow> length (st_hash t) = kSourceHashSlots"
  by (simp add: table_ok_def)

lemma reference_of_empty: "reference_of empty_table = empty_reference"
  by (simp add: reference_of_def empty_reference_def source_map_empty residents_def used_slots_def)
    (simp add: empty_table_def empty_slot_def)

text \<open>A new source becomes resident exactly while there is room.\<close>

lemma SourceInsert_residents:
  assumes "table_ok t" "source \<noteq> 0" "inner \<noteq> 0" "archive \<noteq> NullArchive"
  shows "residents (SourceInsert now source inner archive validFor t) =
    (if source_map t source = None \<and> card (residents t) < kSourceHashSlots
     then insert source (residents t) else residents t)"
proof (cases "home_probe t source")
  case (AtKey i)
  then have i: "i < kSourceHashSlots" by (auto simp: home_probe_def probe_AtKey)
  have m: "source_map t source \<noteq> None" using AtKey assms(2) by (simp add: source_map_def)
  have "map sh_key (st_hash (SourceInsert now source inner archive validFor t)) = map sh_key (st_hash t)"
    using AtKey assms(2-4) i table_ok_length [OF assms(1)]
    by (auto simp: SourceInsert_def home_probe_def Let_def map_update list_update_same_conv)
  note keep = residents_cong [OF this table_ok_length [OF assms(1)]]
  show ?thesis unfolding keep using m by (simp only: if_False simp_thms)
next
  case (AtEmpty i)
  let ?e = "(st_hash t ! i)\<lparr>sh_archive := archive, sh_innerStream := inner,
    sh_validUntilMs := deadline now validFor, sh_key := source\<rparr>"
  have i: "i < kSourceHashSlots" "sh_key (st_hash t ! i) = 0"
    using AtEmpty assms(2) by (auto simp: home_probe_def probe_AtEmpty)
  have ins: "SourceInsert now source inner archive validFor t = t\<lparr>st_hash := (st_hash t)[i := ?e]\<rparr>"
    using AtEmpty assms(2-4) by (simp add: SourceInsert_def home_probe_def deadline_def Let_def)
  have "st_overflow t source = None"
    using assms(1) i by (cases "st_overflow t source") (auto simp: table_ok_def)
  then have none: "source_map t source = None" using AtEmpty by (simp add: source_map_def)
  have used: "used_slots (t\<lparr>st_hash := (st_hash t)[i := ?e]\<rparr>) = insert i (used_slots t)"
    using i assms(2) table_ok_length [OF assms(1)] by (auto simp: used_slots_def nth_list_update)
  have rest: "(\<lambda>j. sh_key ((st_hash t)[i := ?e] ! j)) ` used_slots t = residents t"
    unfolding residents_def using i table_ok_length [OF assms(1)]
    by (intro image_cong) (auto simp: used_slots_def nth_list_update)
  have "residents (t\<lparr>st_hash := (st_hash t)[i := ?e]\<rparr>) = insert source (residents t)"
    unfolding residents_def used using rest i table_ok_length [OF assms(1)] by (simp add: residents_def)
  then show ?thesis using none residents_room [OF assms(1) AtEmpty assms(2)] by (simp add: ins)
next
  case TableFull
  then have "st_hash (SourceInsert now source inner archive validFor t) = st_hash t"
    using assms(2-4) by (simp add: SourceInsert_def home_probe_def Let_def split: option.split)
  then have keep: "residents (SourceInsert now source inner archive validFor t) = residents t"
    by (simp add: residents_def used_slots_def)
  show ?thesis unfolding keep residents_full [OF assms(1) TableFull] by simp
qed

lemma SourceLookup_pushed:
  assumes "table_ok t" "SourceLookup inner now source t = (r, t')"
  shows "residents t' = residents t"
    and "source_map t' = (if source \<in> residents t then pushed inner now source (source_map t) else source_map t)"
proof -
  have "residents t' = residents t \<and>
    source_map t' = (if source \<in> residents t then pushed inner now source (source_map t) else source_map t)"
  proof (cases "source = 0 \<or> inner = None")
    case True
    then have "t' = t" using assms(2) by (cases "source = 0") (simp_all add: SourceLookup_def)
    moreover have "pushed None now source m = m" for m :: "u64 \<rightharpoonup> learned"
      by (simp add: pushed_def split: option.split prod.split archive_ptr.split)
    ultimately show ?thesis using True residents_zero by auto
  next
    case False
    then obtain ci where ci: "inner = Some ci" and k: "source \<noteq> 0" by blast
    show ?thesis
    proof (cases "home_probe t source")
      case (AtKey i)
      then have i: "i < kSourceHashSlots" "sh_key (st_hash t ! i) = source"
        by (auto simp: home_probe_def probe_AtKey)
      let ?e = "st_hash t ! i"
      let ?new = "?e\<lparr>sh_validUntilMs := now + kSourceRetryMs\<rparr>"
      have res: "source \<in> residents t" using AtKey residents_probe [OF assms(1) k] by blast
      have m: "source_map t source = Some (sh_innerStream ?e, sh_archive ?e, sh_validUntilMs ?e)"
        using AtKey k by (simp add: source_map_def)
      have lk: "t' = (if sh_innerStream ?e = ci \<and> sh_archive ?e = NegativeSentinel \<and> now \<ge> sh_validUntilMs ?e
          then t\<lparr>st_hash := (st_hash t)[i := ?new]\<rparr> else t)"
        using assms(2) AtKey k ci
        by (cases "sh_archive ?e") (auto simp: SourceLookup_def home_probe_def Let_def split: if_splits)
      have "map sh_key ((st_hash t)[i := ?new]) = map sh_key (st_hash t)"
        using i table_ok_length [OF assms(1)] by (simp add: map_update list_update_same_conv)
      then have keep: "residents (t\<lparr>st_hash := (st_hash t)[i := ?new]\<rparr>) = residents t"
        using residents_cong [of "t\<lparr>st_hash := (st_hash t)[i := ?new]\<rparr>" t] table_ok_length [OF assms(1)] by simp
      have "sh_archive ?e \<noteq> NullArchive \<Longrightarrow> source_map (t\<lparr>st_hash := (st_hash t)[i := ?new]\<rparr>) =
          (source_map t)(source \<mapsto> (sh_innerStream ?e, sh_archive ?e, now + kSourceRetryMs))"
        using source_map_write [OF assms(1) AtKey k, of ?new] i(2) by simp
      then show ?thesis
        using lk res m ci keep by (cases "sh_archive ?e") (auto simp: pushed_def)
    next
      case (AtEmpty i)
      then have "source \<notin> residents t" using residents_probe [OF assms(1) k] by simp
      moreover have "t' = t"
        using AtEmpty assms(2) k ci
        by (auto simp: SourceLookup_def home_probe_def split: option.splits archive_ptr.splits if_splits)
      ultimately show ?thesis by simp
    next
      case TableFull
      then have "source \<notin> residents t" using residents_probe [OF assms(1) k] by simp
      moreover have "t' = t"
        using TableFull assms(2) k ci
        by (auto simp: SourceLookup_def home_probe_def split: option.splits archive_ptr.splits if_splits)
      ultimately show ?thesis by simp
    qed
  qed
  then show "residents t' = residents t"
    and "source_map t' = (if source \<in> residents t then pushed inner now source (source_map t) else source_map t)"
    by blast+
qed

lemma table_step_refines:
  assumes "table_ok t"
  shows "table_ok (snd (table_step op t)) \<and>
    (fst (table_step op t), reference_of (snd (table_step op t))) = reference_step op (reference_of t)"
proof (cases op)
  case (InsertOp now source inner archive validFor)
  show ?thesis
  proof (cases "source = 0 \<or> inner = 0 \<or> archive = NullArchive")
    case True
    then show ?thesis using InsertOp assms by (auto simp: SourceInsert_def)
  next
    case False
    then show ?thesis
      using InsertOp SourceInsert_learns [OF assms, of source inner archive now validFor]
        SourceInsert_residents [OF assms, of source inner archive now validFor]
      by (simp add: reference_of_def)
  qed
next
  case (LookupOp inner now source)
  obtain r t' where l: "SourceLookup inner now source t = (r, t')" by force
  show ?thesis
    using LookupOp l SourceLookup_recalls(1,2) [OF assms l] SourceLookup_pushed [OF assms l]
    by (simp add: reference_of_def)
qed

lemma run_refines:
  "table_ok t \<Longrightarrow> (fst (run_ops table_step ops t), reference_of (snd (run_ops table_step ops t))) =
     run_ops reference_step ops (reference_of t)"
proof (induction ops arbitrary: t)
  case (Cons op ops)
  obtain as t1 where one: "table_step op t = (as, t1)" by force
  obtain bs t2 where two: "run_ops table_step ops t1 = (bs, t2)" by force
  note step = table_step_refines [OF Cons.prems, of op, unfolded one]
  have "reference_step op (reference_of t) = (as, reference_of t1)" using step by simp
  moreover have "run_ops reference_step ops (reference_of t1) = (bs, reference_of t2)"
    using Cons.IH [of t1] step two by simp
  ultimately show ?case by (simp add: one two)
qed simp

text \<open>
  C18: the open-addressing table with its overflow map is a map: over any history of insertions and
  lookups, however their keys collide and even when they fill the table, every lookup answers what
  the map of the latest results answers.  A positive result is never replaced by a miss of the same
  backing stream, an expired miss is unknown to the first lookup that sees it, and is a miss again
  for five seconds after that lookup if the source is one of the first 4096 that were inserted.
\<close>

theorem source_table_refines_map:
  "fst (run_ops table_step ops empty_table) = fst (run_ops reference_step ops empty_reference)"
  using run_refines [OF table_ok_empty, of ops] by (metis reference_of_empty fst_conv)

section \<open>Resolution\<close>

text \<open>Every positive result of the table is the archive that the backing stream belongs to.\<close>

definition owners_ok :: "(u64 \<Rightarrow> nat option) \<Rightarrow> SourceTable \<Rightarrow> bool" where
  "owners_ok owner t \<longleftrightarrow> table_ok t \<and>
     (\<forall>source inner a until. source_map t source = Some (inner, ArchiveAt a, until) \<longrightarrow> owner inner = Some a)"

lemma owners_ok_empty: "owners_ok owner empty_table"
  by (simp add: owners_ok_def table_ok_empty source_map_empty)

lemma table_frame:
  assumes "st_hash t' = st_hash t" "st_overflow t' = st_overflow t"
  shows "source_map t' = source_map t" "table_ok t' = table_ok t"
proof -
  have h: "home_probe t' = home_probe t" by (rule ext) (simp add: home_probe_def assms)
  show "source_map t' = source_map t" by (rule ext) (simp add: source_map_def assms h split: probe_result.split)
  show "table_ok t' = table_ok t" by (simp add: table_ok_def assms h)
qed

lemma owners_ok_counters [simp]:
  "owners_ok owner (t\<lparr>st_sourcesResolved := n\<rparr>) = owners_ok owner t"
  "owners_ok owner (t\<lparr>st_sourceSemanticMisses := n\<rparr>) = owners_ok owner t"
  "owners_ok owner (t\<lparr>st_sourceStructuralBackoffs := n\<rparr>) = owners_ok owner t"
  using table_frame [of "t\<lparr>st_sourcesResolved := n\<rparr>" t] table_frame [of "t\<lparr>st_sourceSemanticMisses := n\<rparr>" t]
    table_frame [of "t\<lparr>st_sourceStructuralBackoffs := n\<rparr>" t]
  by (simp_all add: owners_ok_def)

lemma owners_ok_insert:
  assumes "owners_ok owner t" "\<And>a. archive = ArchiveAt a \<Longrightarrow> owner inner = Some a"
  shows "owners_ok owner (SourceInsert now source inner archive validFor t)"
proof (cases "source = 0 \<or> inner = 0 \<or> archive = NullArchive")
  case True
  then show ?thesis using assms(1) by (auto simp: SourceInsert_def)
next
  case False
  then show ?thesis
    using assms SourceInsert_learns [of t source inner archive now validFor]
    by (auto simp: owners_ok_def learn_def split: option.splits prod.splits archive_ptr.splits if_splits)
qed

lemma owners_ok_lookup:
  assumes "owners_ok owner t" "SourceLookup inner now source t = (r, t')"
  shows "owners_ok owner t'" "r = Some (Some a) \<Longrightarrow> \<exists>i. inner = Some i \<and> owner i = Some a"
proof -
  have ok: "table_ok t" using assms(1) by (simp add: owners_ok_def)
  note l = SourceLookup_recalls [OF ok assms(2)]
  show "owners_ok owner t'" using assms(1) l(1,3) by (auto simp: owners_ok_def split: if_splits) blast+
  show "\<exists>i. inner = Some i \<and> owner i = Some a" if "r = Some (Some a)"
    using l(2) that assms(1)
    by (cases "(inner, now, source_map t source)" rule: recall.cases)
      (auto simp: owners_ok_def split: if_splits archive_ptr.splits)
qed

lemma ResolveSource_owner:
  assumes "owners_ok owner t" "ResolveSource pv m source t = (r, t')"
    and "\<And>inner a b. resolve_by_name pv m inner = (Some a, b) \<Longrightarrow> owner inner = Some a"
  shows "owners_ok owner t'" "r = Some a \<Longrightarrow> owner (pv_word pv (source + 0x28)) = Some a"
proof -
  obtain c t1 where l: "SourceLookup (TryReadSourceInner pv source) (pv_lookupTick pv) source t = (c, t1)" by force
  note lk = owners_ok_lookup [OF assms(1) l]
  let ?inner = "pv_word pv (source + 0x28)"
  obtain q nameDone where rn: "resolve_by_name pv m ?inner = (q, nameDone)" by force
  have "owners_ok owner t' \<and> (\<forall>a. r = Some a \<longrightarrow> owner ?inner = Some a)"
  proof (cases "pv_lookupThrows pv")
    case True
    then show ?thesis using assms(1,2) by (simp add: ResolveSource_def)
  next
    case nothrow: False
    show ?thesis
    proof (cases c)
      case (Some cached)
      then have "r = cached" "t' = t1" using assms(2) l nothrow by (simp_all add: ResolveSource_def)
      moreover have "owner ?inner = Some a" if "cached = Some a" for a
        using lk(2) [of a] Some that by (auto simp: TryReadSourceInner_def Let_def split: if_splits)
      ultimately show ?thesis using lk(1) by simp
    next
      case None
      show ?thesis
      proof (cases "IsReadableRange (pv_query pv) source 0x30")
        case False
        then show ?thesis using assms(2) l nothrow None lk(1) by (simp add: ResolveSource_def)
      next
        case True
        show ?thesis
        proof (cases q)
          case None': None
          then show ?thesis
            using assms(2) l nothrow None True lk(1) rn
            by (auto simp: ResolveSource_def Let_def intro!: owners_ok_insert split: if_splits)
        next
          case (Some a)
          then have "owner ?inner = Some a" using assms(3) rn by blast
          then show ?thesis
            using assms(2) l nothrow None True lk(1) rn Some
            by (auto simp: ResolveSource_def Let_def intro!: owners_ok_insert split: if_splits)
        qed
      qed
    qed
  qed
  then show "owners_ok owner t'" "r = Some a \<Longrightarrow> owner ?inner = Some a" by auto
qed

end
