(* ===== verification/StreamFrames.thy ===== *)
theory StreamFrames
  imports StreamHooks StreamCache SourceCacheProofs Policies
begin

text \<open>
  What a compressed stream promises its reader, and what the game and the archives promise the
  hooks.  A stream has contents and a position; reads and seeks on it have one meaning,
  \<open>ref_read\<close> and \<open>ref_seek\<close>.  The game's own functions implement it on the native streams
  (\<open>engine_ok\<close>), and a stream that resolves to an archive holds the payload of its entry.
\<close>

declare split_paired_All [simp del] split_paired_Ex [simp del]

section \<open>The meaning of a stream\<close>

definition ref_read :: "bytes option \<Rightarrow> u64 \<Rightarrow> bytes \<times> nat \<Rightarrow> (ErrorCode \<times> bytes option \<times> u64) \<times> (bytes \<times> nat)" where
  "ref_read buffer toRead v =
     (let payload = take (unat toRead) (drop (snd v) (fst v))
      in ((kNone, copy_to buffer payload, word_of_nat (length payload)), (fst v, snd v + length payload)))"

definition ref_seek :: "u64 \<Rightarrow> SeekMode \<Rightarrow> u64 \<Rightarrow> bytes \<times> nat \<Rightarrow> (ErrorCode \<times> u64) \<times> (bytes \<times> nat)" where
  "ref_seek offset mode position v =
     (case seek_origin mode of
        None \<Rightarrow> ((kInvalidParam, position), v)
      | Some origin \<Rightarrow>
          let r = clamp_int (int (base_of origin (snd v) (length (fst v))) + sint offset) (length (fst v))
          in ((kNone, word_of_nat r), (fst v, r)))"

definition stream_wf :: "bytes \<times> nat \<Rightarrow> bool" where
  "stream_wf v \<longleftrightarrow> length (fst v) < 2 ^ 32 \<and> snd v \<le> length (fst v)"

lemma stream_wf_read: "stream_wf v \<Longrightarrow> stream_wf (snd (ref_read buffer toRead v))"
  by (auto simp: stream_wf_def ref_read_def Let_def)

lemma clamp_int_le [simp]: "clamp_int k n \<le> n"
  by (simp add: clamp_int_def)

lemma stream_wf_seek: "stream_wf v \<Longrightarrow> stream_wf (snd (ref_seek offset mode position v))"
  by (auto simp: stream_wf_def ref_seek_def Let_def split: option.split)

lemma ref_contents [simp]:
  "fst (snd (ref_read buffer toRead v)) = fst v" "fst (snd (ref_seek offset mode position v)) = fst v"
  by (auto simp: ref_read_def ref_seek_def Let_def split: option.split)

lemma ref_seek_query: "stream_wf v \<Longrightarrow> ref_seek 0 SeekCur 0 v = ((kNone, word_of_nat (snd v)), v)"
  by (auto simp: ref_seek_def Let_def stream_wf_def clamp_int_def)

section \<open>The game's functions\<close>

definition same_fields :: "'n engine \<Rightarrow> 'n \<Rightarrow> 'n \<Rightarrow> bool" where
  "same_fields en n n' \<longleftrightarrow> en_source en n' = en_source en n \<and> en_startOffset en n' = en_startOffset en n \<and>
     en_vtable en n' = en_vtable en n"

definition others_kept :: "'n engine \<Rightarrow> ('n \<Rightarrow> u64 \<rightharpoonup> bytes \<times> nat) \<Rightarrow> u64 \<Rightarrow> 'n \<Rightarrow> 'n \<Rightarrow> bool" where
  "others_kept en cont x n n' \<longleftrightarrow>
     (\<forall>y. y \<noteq> x \<longrightarrow> cont n' y = cont n y \<and> en_source en n' y = en_source en n y \<and>
        en_startOffset en n' y = en_startOffset en n y \<and> en_vtable en n' y = en_vtable en n y)"

text \<open>A clone is a new object at an address where no stream lives, with the source, the entry
  and the position of its parent; a clone that failed is null or the stream itself.\<close>

definition reads_ok :: "'n engine \<Rightarrow> ('n \<Rightarrow> u64 \<rightharpoonup> bytes \<times> nat) \<Rightarrow> bool" where
  "reads_ok en cont \<longleftrightarrow>
     (\<forall>n x v buffer toRead read. cont n x = Some v \<longrightarrow> toRead = 0 \<or> buffer \<noteq> None \<longrightarrow>
        (\<exists>n'. en_read en x buffer toRead read n = (fst (ref_read buffer toRead v), n') \<and>
           cont n' = (cont n)(x \<mapsto> snd (ref_read buffer toRead v)) \<and> same_fields en n n'))"

definition seeks_ok :: "'n engine \<Rightarrow> ('n \<Rightarrow> u64 \<rightharpoonup> bytes \<times> nat) \<Rightarrow> bool" where
  "seeks_ok en cont \<longleftrightarrow>
     (\<forall>n x v offset mode position. cont n x = Some v \<longrightarrow>
        (\<exists>n'. en_seek en x offset mode position n = (fst (ref_seek offset mode position v), n') \<and>
           cont n' = (cont n)(x \<mapsto> snd (ref_seek offset mode position v)) \<and> same_fields en n n'))"

definition lives_ok :: "'n engine \<Rightarrow> ('n \<Rightarrow> u64 \<rightharpoonup> bytes \<times> nat) \<Rightarrow> bool" where
  "lives_ok en cont \<longleftrightarrow>
     (\<forall>n x. others_kept en cont x n (snd (en_open en x n)) \<and>
        (fst (en_open en x n) = kNone \<longrightarrow> (\<exists>bs. cont (snd (en_open en x n)) x = Some (bs, 0)))) \<and>
     (\<forall>n x. others_kept en cont x n (en_close en x n) \<and> others_kept en cont x n (en_dtor en x n)) \<and>
     (\<forall>n x c n'. en_clone en x n = (c, n') \<longrightarrow>
        (if c = 0 \<or> c = x then cont n' = cont n \<and> same_fields en n n'
         else others_kept en cont c n n' \<and> cont n c = None \<and> cont n' c = cont n x \<and>
           en_source en n' c = en_source en n x \<and> en_startOffset en n' c = en_startOffset en n x))"

definition engine_ok :: "'n engine \<Rightarrow> ('n \<Rightarrow> u64 \<rightharpoonup> bytes \<times> nat) \<Rightarrow> bool" where
  "engine_ok en cont \<longleftrightarrow> (\<forall>n x v. cont n x = Some v \<longrightarrow> stream_wf v) \<and>
     reads_ok en cont \<and> seeks_ok en cont \<and> lives_ok en cont"

lemma engine_wf: "engine_ok en cont \<Longrightarrow> cont n x = Some v \<Longrightarrow> stream_wf v"
  by (simp add: engine_ok_def)

lemma engine_read:
  assumes "engine_ok en cont" "cont n x = Some v" "toRead = 0 \<or> buffer \<noteq> None"
  shows "\<exists>n'. en_read en x buffer toRead read n = (fst (ref_read buffer toRead v), n') \<and>
    cont n' = (cont n)(x \<mapsto> snd (ref_read buffer toRead v)) \<and> same_fields en n n'"
proof -
  have "reads_ok en cont" using assms(1) by (simp add: engine_ok_def)
  then show ?thesis using assms(2,3) unfolding reads_ok_def by metis
qed

lemma engine_seek:
  assumes "engine_ok en cont" "cont n x = Some v"
  shows "\<exists>n'. en_seek en x offset mode position n = (fst (ref_seek offset mode position v), n') \<and>
    cont n' = (cont n)(x \<mapsto> snd (ref_seek offset mode position v)) \<and> same_fields en n n'"
proof -
  have "seeks_ok en cont" using assms(1) by (simp add: engine_ok_def)
  then show ?thesis using assms(2) unfolding seeks_ok_def by metis
qed

section \<open>Archives and sources\<close>

definition archives_ok :: "(nat \<Rightarrow> u32 \<Rightarrow> bytes) \<Rightarrow> (u64 \<Rightarrow> nat option) \<Rightarrow> MemoryMapManager \<Rightarrow> bool" where
  "archives_ok plain owner m \<longleftrightarrow>
     (\<forall>inner a. owner inner = Some a \<longrightarrow> a < length (mm_archives m) \<and>
        (\<exists>f. describes (mm_archives m ! a) f \<and> ma_valid (mm_archives m ! a) \<and>
           (\<forall>off k. declared_of (bf_content f) off = Some k \<longrightarrow> unat k = length (plain a off))))"

text \<open>What a call observes: names resolve to the archives that own them, and a stream of an
  archive holds the payload of its entry.\<close>

definition linked :: "'n engine \<Rightarrow> ('n \<Rightarrow> u64 \<rightharpoonup> bytes \<times> nat) \<Rightarrow> (nat \<Rightarrow> u32 \<Rightarrow> bytes) \<Rightarrow> (u64 \<Rightarrow> nat option) \<Rightarrow>
    hook_env \<Rightarrow> 'n hooks \<Rightarrow> bool" where
  "linked en cont plain owner env s \<longleftrightarrow>
     (\<forall>inner a b. resolve_by_name (he_pv env) (hk_manager s) inner = (Some a, b) \<longrightarrow> owner inner = Some a) \<and>
     (\<forall>x v a. cont (hk_native s) x = Some v \<longrightarrow>
        owner (pv_word (he_pv env) (en_source en (hk_native s) x + 0x28)) = Some a \<longrightarrow>
        fst v = plain a (en_startOffset en (hk_native s) x))"

section \<open>The side state of a stream\<close>

definition identity_ok :: "(nat \<Rightarrow> u32 \<Rightarrow> bytes) \<Rightarrow> bytes \<Rightarrow> StreamIdentity \<Rightarrow> bool" where
  "identity_ok plain bs identity \<longleftrightarrow>
     (\<forall>a. si_archive identity = Some a \<longrightarrow> bs = plain a (si_startOffset identity)) \<and>
     (si_totalSize identity \<noteq> 0 \<longrightarrow> si_archive identity \<noteq> None \<and> unat (si_totalSize identity) = length bs)"

definition payload_at :: "MappedView list \<Rightarrow> nat option \<Rightarrow> nat \<Rightarrow> bytes \<Rightarrow> bool" where
  "payload_at views holder d bs \<longleftrightarrow>
     (\<exists>v. holder = Some v \<and> v < length views \<and> d + length bs \<le> length (mv_base (views ! v)) \<and>
        byte_slice d (length bs) (mv_base (views ! v)) = bs)"

definition state_ok :: "(nat \<Rightarrow> u32 \<Rightarrow> bytes) \<Rightarrow> MappedView list \<Rightarrow> bytes \<times> nat \<Rightarrow> CompressedStreamState \<Rightarrow> bool" where
  "state_ok plain views v st \<longleftrightarrow>
     identity_ok plain (fst v) (ss_identity st) \<and>
     (\<forall>d. ss_cacheData st = Some d \<longrightarrow>
        ss_cursorKnown st \<and> ss_cacheLookupAttempted st \<and> ss_captureStatus st \<noteq> kCaptureActive \<and>
        ss_cacheSize st \<noteq> 0 \<and> unat (ss_cacheSize st) = length (fst v) \<and>
        payload_at views (ss_cacheOwner st) d (fst v) \<and> unat (ss_logicalCursor st) \<le> length (fst v)) \<and>
     (ss_cacheData st = None \<longrightarrow> ss_cursorKnown st \<longrightarrow> unat (ss_logicalCursor st) = snd v) \<and>
     (ss_captureStatus st = kCaptureActive \<longrightarrow>
        si_totalSize (ss_identity st) \<noteq> 0 \<and> unat (ss_nextCaptureOffset st) \<le> length (fst v) \<and>
        ss_captureBuffer st = take (unat (ss_nextCaptureOffset st)) (fst v))"

text \<open>The position a reader sees: the side cursor once a payload is served, the native one before.\<close>

definition position_in :: "CompressedStreamState option \<Rightarrow> nat \<Rightarrow> nat" where
  "position_in st p =
     (case st of None \<Rightarrow> p | Some st \<Rightarrow> if ss_cacheData st = None then p else unat (ss_logicalCursor st))"

definition stream_view :: "('n \<Rightarrow> u64 \<rightharpoonup> bytes \<times> nat) \<Rightarrow> 'n hooks \<Rightarrow> u64 \<rightharpoonup> bytes \<times> nat" where
  "stream_view cont s x =
     map_option (\<lambda>v. (fst v, position_in (map_option ((!) (hk_heap s)) (registered s x)) (snd v)))
       (cont (hk_native s) x)"

section \<open>The registry\<close>

definition registry_ok :: "'n hooks \<Rightarrow> bool" where
  "registry_ok s \<longleftrightarrow>
     (\<forall>x i. registered s x = Some i \<longrightarrow> i < length (hk_heap s) \<and> \<not> ss_retired (hk_heap s ! i)) \<and>
     (\<forall>x y i. registered s x = Some i \<longrightarrow> registered s y = Some i \<longrightarrow> x = y) \<and>
     (\<forall>t x i. hk_memo s t = (x, Some i) \<longrightarrow> i < length (hk_heap s) \<and>
        (\<not> ss_retired (hk_heap s ! i) \<longrightarrow> registered s x = Some i))"

definition hooks_ok :: "'n engine \<Rightarrow> ('n \<Rightarrow> u64 \<rightharpoonup> bytes \<times> nat) \<Rightarrow> (nat \<Rightarrow> u32 \<Rightarrow> bytes) \<Rightarrow> (u64 \<Rightarrow> nat option) \<Rightarrow>
    'n hooks \<Rightarrow> bool" where
  "hooks_ok en cont plain owner s \<longleftrightarrow>
     registry_ok s \<and> cache_truthful plain (hk_cache s) \<and> owners_ok owner (hk_sources s) \<and>
     archives_ok plain owner (hk_manager s) \<and>
     (\<forall>x i. registered s x = Some i \<longrightarrow>
        (\<exists>v. cont (hk_native s) x = Some v \<and> state_ok plain (dc_views (hk_cache s)) v (hk_heap s ! i)))"

lemma payload_at_shape:
  assumes "payload_at views holder d bs" "length views \<le> length views'"
    "\<And>i. i < length views \<Longrightarrow> same_shape (views ! i) (views' ! i)"
  shows "payload_at views' holder d bs"
proof -
  obtain v where v: "holder = Some v" "v < length views" "d + length bs \<le> length (mv_base (views ! v))"
    "byte_slice d (length bs) (mv_base (views ! v)) = bs"
    using assms(1) by (auto simp: payload_at_def)
  then have "mv_base (views' ! v) = mv_base (views ! v)" using assms(3) by (simp add: same_shape_def)
  then show ?thesis using v assms(2) by (auto simp: payload_at_def)
qed

lemma state_ok_shape:
  assumes "state_ok plain views v st" "length views \<le> length views'"
    "\<And>i. i < length views \<Longrightarrow> same_shape (views ! i) (views' ! i)"
  shows "state_ok plain views' v st"
  using assms payload_at_shape [OF _ assms(2,3)] by (simp add: state_ok_def)

end
