(* ===== verification/ArchiveHooks.thy ===== *)
theory ArchiveHooks
  imports StreamFrames
begin

text \<open>
  Skyrim/src/Hooks.cpp: the hook of the plain archive stream, which copies uncompressed entries
  out of the mapped archive, the counters of the read paths, and the installation of all hooks
  into the virtual tables of the game.
\<close>

section \<open>Reads of uncompressed streams\<close>

text \<open>A plain stream keeps its cursor in the object, as an absolute offset into the archive.\<close>

record 'n archive_engine =
  ae_source :: "'n \<Rightarrow> u64 \<Rightarrow> u64"
  ae_startOffset :: "'n \<Rightarrow> u64 \<Rightarrow> u32"
  ae_totalSize :: "'n \<Rightarrow> u64 \<Rightarrow> u32"
  ae_currentOffset :: "'n \<Rightarrow> u64 \<Rightarrow> u32"
  ae_setCurrentOffset :: "u64 \<Rightarrow> u32 \<Rightarrow> 'n \<Rightarrow> 'n"
  ae_read :: "u64 \<Rightarrow> bytes option \<Rightarrow> u64 \<Rightarrow> u64 \<Rightarrow> 'n \<Rightarrow> (ErrorCode \<times> bytes option \<times> u64) \<times> 'n"

record IoStats =
  io_directMmap :: ReadPath
  io_directStock :: ReadPath
  io_compressedSourceMmap :: ReadPath
  io_compressedSourceStock :: ReadPath
  io_loadPhaseUncompressedCalls :: u64
  io_loadPhaseUncompressedRequestedBytes :: u64

text \<open>\<open>ph_depth\<close> counts the decompressor calls the thread is in: their reads are reads of
  compressed sources.\<close>

record 'n plain_hooks =
  ph_native :: 'n
  ph_hooksActive :: bool
  ph_engineLoadActive :: bool
  ph_sources :: SourceTable
  ph_manager :: MemoryMapManager
  ph_depth :: u32
  ph_stats :: IoStats

record plain_env =
  pe_bBaselineMode :: bool
  pe_bEnableMmap :: bool
  pe_bEnableDuringSaveLoad :: bool
  pe_bMeasureStats :: bool
  pe_pv :: process_view
  pe_ticks :: u64

definition RecordMappedPayload :: "u64 \<Rightarrow> u64 \<Rightarrow> u64 \<Rightarrow> 'n plain_hooks \<Rightarrow> 'n plain_hooks" where
  "RecordMappedPayload a_requested a_returned a_ticks s =
     (let f = RecordPath a_requested a_returned False a_ticks
      in s\<lparr>ph_stats := (if ph_depth s > 0 then io_compressedSourceMmap_update f (ph_stats s)
                        else io_directMmap_update f (ph_stats s))\<rparr>)"

definition RecordFallbackPayload :: "u64 \<Rightarrow> u64 \<Rightarrow> bool \<Rightarrow> u64 \<Rightarrow> 'n plain_hooks \<Rightarrow> 'n plain_hooks" where
  "RecordFallbackPayload a_requested a_returned a_failed a_ticks s =
     (let f = RecordPath a_requested a_returned a_failed a_ticks
      in s\<lparr>ph_stats := (if ph_depth s > 0 then io_compressedSourceStock_update f (ph_stats s)
                        else io_directStock_update f (ph_stats s))\<rparr>)"

definition CallOriginalArchiveRead :: "'n archive_engine \<Rightarrow> plain_env \<Rightarrow> u64 \<Rightarrow> bytes option \<Rightarrow> u64 \<Rightarrow> u64 \<Rightarrow>
    'n plain_hooks \<Rightarrow> (ErrorCode \<times> bytes option \<times> u64) \<times> 'n plain_hooks" where
  "CallOriginalArchiveRead en env stream buffer toRead read s =
     (case ae_read en stream buffer toRead read (ph_native s) of
        ((error, buffer', read'), n) \<Rightarrow>
          let s1 = s\<lparr>ph_native := n\<rparr>
          in ((error, buffer', read'),
              if pe_bMeasureStats env then RecordFallbackPayload toRead read' (error \<noteq> kNone) (pe_ticks env) s1 else s1))"

definition note_load_phase :: "plain_env \<Rightarrow> bool \<Rightarrow> u64 \<Rightarrow> 'n plain_hooks \<Rightarrow> 'n plain_hooks" where
  "note_load_phase env loadSuppressed toRead s =
     (if loadSuppressed \<and> pe_bMeasureStats env then
        s\<lparr>ph_stats := (ph_stats s)
          \<lparr>io_loadPhaseUncompressedCalls := io_loadPhaseUncompressedCalls (ph_stats s) + 1,
           io_loadPhaseUncompressedRequestedBytes := io_loadPhaseUncompressedRequestedBytes (ph_stats s) + toRead\<rparr>\<rparr>
      else s)"

text \<open>The copy out of the mapping, once the entry has been validated.\<close>

definition serve_mapped :: "'n archive_engine \<Rightarrow> plain_env \<Rightarrow> u64 \<Rightarrow> bytes option \<Rightarrow> u64 \<Rightarrow> u64 \<Rightarrow> bytes \<Rightarrow>
    'n plain_hooks \<Rightarrow> (ErrorCode \<times> bytes option \<times> u64) \<times> 'n plain_hooks" where
  "serve_mapped en env stream buffer toRead read view s =
     (let startOffset = ae_startOffset en (ph_native s) stream; totalSize = ae_totalSize en (ph_native s) stream in
      case ClaimRange (ae_currentOffset en (ph_native s) stream) startOffset totalSize toRead of
        (claim, cursor) \<Rightarrow>
          if \<not> IsValid claim then CallOriginalArchiveRead en env stream buffer toRead read s
          else
            let s1 = s\<lparr>ph_native := ae_setCurrentOffset en stream cursor (ph_native s)\<rparr>;
                payload = byte_slice (unat startOffset + unat (rc_relativeOffset claim)) (unat (rc_size claim)) view;
                read' = u64_of_u32 (rc_size claim)
            in ((kNone, if rc_size claim > 0 then copy_to buffer payload else buffer, read'),
                if pe_bMeasureStats env then RecordMappedPayload toRead read' (pe_ticks env) s1 else s1))"

definition HookedDoRead :: "'n archive_engine \<Rightarrow> plain_env \<Rightarrow> u64 \<Rightarrow> bytes option \<Rightarrow> u64 \<Rightarrow> u64 \<Rightarrow>
    'n plain_hooks \<Rightarrow> (ErrorCode \<times> bytes option \<times> u64) \<times> 'n plain_hooks" where
  "HookedDoRead en env stream buffer toRead read s =
     (let loadSuppressed = (\<not> pe_bEnableDuringSaveLoad env \<and> ph_engineLoadActive s);
          original = CallOriginalArchiveRead en env stream buffer toRead read;
          s0 = note_load_phase env loadSuppressed toRead s
      in if \<not> ph_hooksActive s0 \<or> pe_bBaselineMode env \<or> \<not> pe_bEnableMmap env \<or> loadSuppressed \<or>
            toRead > 0 \<and> buffer = None then original s0
         else
           let source = ae_source en (ph_native s0) stream in
           case (if source = 0 then (None, ph_sources s0)
                 else ResolveSource (pe_pv env) (ph_manager s0) source (ph_sources s0)) of
             (archive, t) \<Rightarrow>
               let s1 = s0\<lparr>ph_sources := t\<rparr> in
               case archive of
                 None \<Rightarrow> original s1
               | Some a \<Rightarrow>
                   (case ma_base (mm_archives (ph_manager s1) ! a) of
                      None \<Rightarrow> original s1
                    | Some view \<Rightarrow>
                        let startOffset = ae_startOffset en (ph_native s1) stream;
                            totalSize = ae_totalSize en (ph_native s1) stream
                        in if totalSize > 0 \<and>
                              At (mm_archives (ph_manager s1) ! a) (u64_of_u32 startOffset) (u64_of_u32 totalSize) = None
                           then original s1
                           else serve_mapped en env stream buffer toRead read view s1))"

section \<open>Counters\<close>

definition SubtractPath :: "ReadPath \<Rightarrow> ReadPath \<Rightarrow> ReadPath" where
  "SubtractPath a_end a_begin =
     \<lparr>rp_calls = rp_calls a_end - rp_calls a_begin,
      rp_requestedBytes = rp_requestedBytes a_end - rp_requestedBytes a_begin,
      rp_returnedBytes = rp_returnedBytes a_end - rp_returnedBytes a_begin,
      rp_failures = rp_failures a_end - rp_failures a_begin,
      rp_qpcTicks = rp_qpcTicks a_end - rp_qpcTicks a_begin\<rparr>"

datatype mode_label = INACTIVE | BASELINE | CacheAndStockIo | StockIo | MmapAndCache | MMAP

definition EffectiveModeLabel :: "bool \<Rightarrow> plain_env \<Rightarrow> bool \<Rightarrow> mode_label" where
  "EffectiveModeLabel hooksActive env bEnableDecompCache =
     (if \<not> hooksActive then INACTIVE
      else if pe_bBaselineMode env then BASELINE
      else if \<not> pe_bEnableMmap env then (if bEnableDecompCache then CacheAndStockIo else StockIo)
      else if bEnableDecompCache then MmapAndCache else MMAP)"

section \<open>Installation\<close>

text \<open>The runtime the game reports.\<close>

record runtime =
  rt_vr :: bool
  rt_major :: "16 word"
  rt_minor :: "16 word"
  rt_patch :: "16 word"
  rt_build :: "16 word"

definition is_version :: "runtime \<Rightarrow> 16 word \<Rightarrow> 16 word \<Rightarrow> 16 word \<Rightarrow> bool" where
  "is_version r major minor patch \<longleftrightarrow> rt_major r = major \<and> rt_minor r = minor \<and> rt_patch r = patch \<and> rt_build r = 0"

definition IsVerifiedRuntime :: "runtime \<Rightarrow> bool" where
  "IsVerifiedRuntime r \<longleftrightarrow>
     (if rt_vr r then is_version r 1 4 15
      else is_version r 1 5 97 \<or> is_version r 1 6 1170 \<or> is_version r 1 6 1179)"

text \<open>The offsets of the stream fields the plug-in selected when it was loaded.\<close>

record field_offsets =
  fo_Source :: nat
  fo_StartOffset :: nat
  fo_CurrentOffset :: nat
  fo_Name :: nat

definition Field_Init :: "bool \<Rightarrow> field_offsets" where
  "Field_Init ae =
     (if ae then \<lparr>fo_Source = 0x18, fo_StartOffset = 0x20, fo_CurrentOffset = 0x24, fo_Name = 0x28\<rparr>
      else \<lparr>fo_Source = 0x10, fo_StartOffset = 0x18, fo_CurrentOffset = 0x1C, fo_Name = 0x20\<rparr>)"

definition fields_valid :: "runtime \<Rightarrow> field_offsets \<Rightarrow> bool" where
  "fields_valid r f =
     (if \<not> rt_vr r \<and> rt_minor r = 6 then
        fo_Source f = 0x18 \<and> fo_StartOffset f = 0x20 \<and> fo_CurrentOffset f = 0x24 \<and> fo_Name f = 0x28
      else fo_Source f = 0x10 \<and> fo_StartOffset f = 0x18 \<and> fo_CurrentOffset f = 0x1C \<and> fo_Name f = 0x20)"

definition kVtableEntries :: nat where "kVtableEntries = 13"

definition ValidateVtableSlots :: "(u64 \<Rightarrow> MemoryRegion option) \<Rightarrow> (u64 \<Rightarrow> u64) \<Rightarrow> u64 \<times> u64 \<Rightarrow> u64 \<Rightarrow> nat list \<Rightarrow> bool" where
  "ValidateVtableSlots query word rdata vtable slots =
     (let n = word_of_nat (kVtableEntries * 8) in
      IsInRange vtable n (fst rdata) (snd rdata) \<and> IsReadableRange query vtable n \<and>
      list_all (\<lambda>k. k < kVtableEntries \<and> IsExecutableAddress query (word (vtable + word_of_nat (8 * k)))) slots)"

datatype hook = HookDoRead | HookCompDtor | HookCompDoOpen | HookCompDoClose | HookCompDoClone | HookCompDoSeek
  | HookCompDoRead

text \<open>The process the hooks are installed in: the words of its memory, what the saved
  originals are, and the two flags.\<close>

record process =
  pr_word :: "u64 \<Rightarrow> u64"
  pr_originals :: "hook \<rightharpoonup> u64"
  pr_installStarted :: bool
  pr_hooksActive :: bool

record install_env =
  ie_runtime :: runtime
  ie_image :: pe_image
  ie_fields :: field_offsets
  ie_vtables :: "(u64 \<times> u64) option"
  ie_query :: "u64 \<Rightarrow> MemoryRegion option"
  ie_hook :: "hook \<Rightarrow> u64"

text \<open>The slots in the order in which they are written; the plain read is in another table.\<close>

definition patch_slots :: "u64 \<times> u64 \<Rightarrow> (hook \<times> u64) list" where
  "patch_slots vtables =
     [(HookDoRead, fst vtables + 6 * 8), (HookCompDtor, snd vtables + 0 * 8), (HookCompDoOpen, snd vtables + 1 * 8),
      (HookCompDoClose, snd vtables + 2 * 8), (HookCompDoClone, snd vtables + 5 * 8),
      (HookCompDoSeek, snd vtables + 8 * 8), (HookCompDoRead, snd vtables + 6 * 8)]"

definition safe_write :: "u64 \<Rightarrow> u64 \<Rightarrow> process \<Rightarrow> process" where
  "safe_write address v p = p\<lparr>pr_word := (pr_word p)(address := v)\<rparr>"

definition save_originals :: "u64 \<times> u64 \<Rightarrow> process \<Rightarrow> process" where
  "save_originals vtables p = p\<lparr>pr_originals := map_of (map (\<lambda>(h, a). (h, pr_word p a)) (patch_slots vtables))\<rparr>"

definition write_hooks :: "(hook \<Rightarrow> u64) \<Rightarrow> (hook \<times> u64) list \<Rightarrow> process \<Rightarrow> process" where
  "write_hooks hooks slots p = fold (\<lambda>(h, a). safe_write a (hooks h)) slots p"

definition install_checks :: "install_env \<Rightarrow> process \<Rightarrow> (u64 \<times> u64) option" where
  "install_checks env p =
     (if \<not> IsVerifiedRuntime (ie_runtime env) then None
      else case InitModuleRanges (ie_image env) of
        (False, _) \<Rightarrow> None
      | (True, None) \<Rightarrow> None
      | (True, Some rdata) \<Rightarrow>
          if \<not> fields_valid (ie_runtime env) (ie_fields env) then None
          else case ie_vtables env of
            None \<Rightarrow> None
          | Some vtables \<Rightarrow>
              if ValidateVtableSlots (ie_query env) (pr_word p) rdata (fst vtables) [6] \<and>
                 ValidateVtableSlots (ie_query env) (pr_word p) rdata (snd vtables) [0, 1, 2, 5, 6, 8]
              then Some vtables else None)"

definition Install :: "install_env \<Rightarrow> process \<Rightarrow> process" where
  "Install env p =
     (if pr_installStarted p then p
      else
        let p1 = p\<lparr>pr_installStarted := True\<rparr> in
        case install_checks env p1 of
          None \<Rightarrow> p1
        | Some vtables \<Rightarrow>
            (write_hooks (ie_hook env) (patch_slots vtables) (save_originals vtables p1))\<lparr>pr_hooksActive := True\<rparr>)"

section \<open>A read is a read of the entry\<close>

text \<open>What the game promises of its plain streams: a stream shows the entry in its archive, its
  cursor is absolute, and the original read advances it.\<close>

definition plain_engine_ok :: "'n archive_engine \<Rightarrow> ('n \<Rightarrow> u64 \<rightharpoonup> bytes \<times> nat) \<Rightarrow> bool" where
  "plain_engine_ok en cont \<longleftrightarrow>
     (\<forall>n x v. cont n x = Some v \<longrightarrow>
        length (fst v) = unat (ae_totalSize en n x) \<and> unat (ae_currentOffset en n x) = unat (ae_startOffset en n x) + snd v \<and>
        cursor_ok (ae_startOffset en n x) (ae_totalSize en n x) (ae_currentOffset en n x)) \<and>
     (\<forall>n x v buffer toRead read. cont n x = Some v \<longrightarrow> toRead = 0 \<or> buffer \<noteq> None \<longrightarrow>
        fst (ae_read en x buffer toRead read n) = fst (ref_read buffer toRead v) \<and>
        cont (snd (ae_read en x buffer toRead read n)) = (cont n)(x \<mapsto> snd (ref_read buffer toRead v))) \<and>
     (\<forall>n x v c. cont n x = Some v \<longrightarrow> cursor_ok (ae_startOffset en n x) (ae_totalSize en n x) c \<longrightarrow>
        cont (ae_setCurrentOffset en x c n) = (cont n)(x \<mapsto> (fst v, unat c - unat (ae_startOffset en n x))))"

text \<open>A stream whose source resolves to a mapped archive shows bytes of that mapping.\<close>

definition plain_linked :: "'n archive_engine \<Rightarrow> ('n \<Rightarrow> u64 \<rightharpoonup> bytes \<times> nat) \<Rightarrow> plain_env \<Rightarrow> 'n plain_hooks \<Rightarrow> bool" where
  "plain_linked en cont env s \<longleftrightarrow>
     (\<forall>x v a t view. cont (ph_native s) x = Some v \<longrightarrow>
        ResolveSource (pe_pv env) (ph_manager s) (ae_source en (ph_native s) x) (ph_sources s) = (Some a, t) \<longrightarrow>
        ma_base (mm_archives (ph_manager s) ! a) = Some view \<longrightarrow>
        fst v = byte_slice (unat (ae_startOffset en (ph_native s) x)) (unat (ae_totalSize en (ph_native s) x)) view)"

lemma plain_engineD:
  assumes "plain_engine_ok en cont" "cont n x = Some v"
  shows "length (fst v) = unat (ae_totalSize en n x)" "unat (ae_currentOffset en n x) = unat (ae_startOffset en n x) + snd v"
    "cursor_ok (ae_startOffset en n x) (ae_totalSize en n x) (ae_currentOffset en n x)"
    "toRead = 0 \<or> buffer \<noteq> None \<Longrightarrow> fst (ae_read en x buffer toRead read n) = fst (ref_read buffer toRead v)"
    "toRead = 0 \<or> buffer \<noteq> None \<Longrightarrow>
       cont (snd (ae_read en x buffer toRead read n)) = (cont n)(x \<mapsto> snd (ref_read buffer toRead v))"
    "cursor_ok (ae_startOffset en n x) (ae_totalSize en n x) c \<Longrightarrow>
       cont (ae_setCurrentOffset en x c n) = (cont n)(x \<mapsto> (fst v, unat c - unat (ae_startOffset en n x)))"
  using assms(1) [unfolded plain_engine_ok_def, THEN conjunct1, rule_format, OF assms(2)]
    assms(1) [unfolded plain_engine_ok_def, THEN conjunct2, THEN conjunct1, rule_format, OF assms(2)]
    assms(1) [unfolded plain_engine_ok_def, THEN conjunct2, THEN conjunct2, rule_format, OF assms(2)]
  by simp_all

lemma plain_original:
  assumes "plain_engine_ok en cont" "cont (ph_native s) x = Some v" "toRead = 0 \<or> buffer \<noteq> None"
    and "CallOriginalArchiveRead en env x buffer toRead read s = (r, s')"
  shows "r = fst (ref_read buffer toRead v) \<and> cont (ph_native s') = (cont (ph_native s))(x \<mapsto> snd (ref_read buffer toRead v))"
proof -
  have "fst (ae_read en x buffer toRead read (ph_native s)) = fst (ref_read buffer toRead v)"
    "cont (snd (ae_read en x buffer toRead read (ph_native s))) = (cont (ph_native s))(x \<mapsto> snd (ref_read buffer toRead v))"
    by (rule plain_engineD [OF assms(1,2)]; use assms(3) in simp)+
  then show ?thesis using assms(4)
    by (auto simp: CallOriginalArchiveRead_def RecordFallbackPayload_def Let_def split: prod.splits)
qed

lemma slice_of_slice: "a + n \<le> m \<Longrightarrow> byte_slice (d + a) n view = take n (drop a (byte_slice d m view))"
  by (simp add: byte_slice_def drop_take min_def add.commute)

lemma plain_served:
  assumes en: "plain_engine_ok en cont" and v: "cont (ph_native s) x = Some v" and buf: "toRead = 0 \<or> buffer \<noteq> None"
    and view: "fst v = byte_slice (unat (ae_startOffset en (ph_native s) x)) (unat (ae_totalSize en (ph_native s) x)) view"
    and sm: "serve_mapped en env x buffer toRead read view s = (r, s')"
  shows "r = fst (ref_read buffer toRead v) \<and> cont (ph_native s') = (cont (ph_native s))(x \<mapsto> snd (ref_read buffer toRead v))"
proof -
  let ?st = "ae_startOffset en (ph_native s) x" and ?tot = "ae_totalSize en (ph_native s) x"
    and ?c = "ae_currentOffset en (ph_native s) x"
  have e: "length (fst v) = unat ?tot" "unat ?c = unat ?st + snd v" "cursor_ok ?st ?tot ?c"
    by (rule plain_engineD [OF en v])+
  obtain cl c' where cl: "ClaimRange ?c ?st ?tot toRead = (cl, c')" by fastforce
  have c: "IsValid cl" "unat (rc_relativeOffset cl) = snd v" "unat (rc_size cl) = min (unat toRead) (unat ?tot - snd v)"
    "unat c' = unat ?c + unat (rc_size cl)" "cursor_ok ?st ?tot c'"
    using ClaimRange_cases [where c = ?c and startOffset = ?st and totalSize = ?tot and requested = toRead] e(2,3)
    by (simp_all add: cl)
  let ?p = "take (unat toRead) (drop (snd v) (fst v))"
  have le: "snd v \<le> unat ?tot" using e(2,3) by (simp add: cursor_ok_def)
  have "byte_slice (unat ?st + unat (rc_relativeOffset cl)) (unat (rc_size cl)) view =
      take (unat (rc_size cl)) (drop (snd v) (fst v))"
    unfolding view using slice_of_slice [of "snd v" "unat (rc_size cl)" "unat ?tot"] c(2,3) le by simp
  also have "\<dots> = ?p" using c(3) e(1) by (simp add: min_def)
  finally have payload: "byte_slice (unat ?st + unat (rc_relativeOffset cl)) (unat (rc_size cl)) view = ?p" .
  have len: "length ?p = unat (rc_size cl)" using c(3) e(1) by (simp add: min.commute)
  have "u64_of_u32 (rc_size cl) = word_of_nat (length ?p)"
    unfolding len by (rule eq_word_of_nat) simp
  moreover have "rc_size cl = 0 \<Longrightarrow> ?p = []" using len by (metis length_0_conv unat_0)
  then have "(if rc_size cl > 0 then copy_to buffer ?p else buffer) = copy_to buffer ?p"
    by (cases "rc_size cl = 0"; cases buffer) (auto simp: copy_to_def word_neq_0_conv)
  ultimately have "r = fst (ref_read buffer toRead v)"
    using sm c(1) payload by (auto simp: serve_mapped_def cl Let_def ref_read_def)
  moreover have "ph_native s' = ae_setCurrentOffset en x c' (ph_native s)"
    using sm c(1) by (auto simp: serve_mapped_def cl Let_def RecordMappedPayload_def)
  moreover have "cont (ae_setCurrentOffset en x c' (ph_native s)) = (cont (ph_native s))(x \<mapsto> (fst v, unat c' - unat ?st))"
    by (rule plain_engineD(6) [OF en v c(5)])
  moreover have "(fst v, unat c' - unat ?st) = snd (ref_read buffer toRead v)"
    using c(4) e(2) len by (simp add: ref_read_def Let_def)
  ultimately show ?thesis by simp
qed

text \<open>
  C5: a hooked read of an uncompressed stream gives the bytes of its entry at its position and
  moves the position behind them, whether they are copied out of the mapped archive or read by
  the game.
\<close>

theorem mapped_read_transparent:
  assumes en: "plain_engine_ok en cont" and lk: "plain_linked en cont env s" and v: "cont (ph_native s) x = Some v"
    and buf: "toRead = 0 \<or> buffer \<noteq> None" and rd: "HookedDoRead en env x buffer toRead read s = (r, s')"
  shows "r = fst (ref_read buffer toRead v) \<and>
    cont (ph_native s') = (cont (ph_native s))(x \<mapsto> snd (ref_read buffer toRead v))"
proof -
  let ?same = "\<lambda>t. ph_native t = ph_native s"
  have orig: "r = fst (ref_read buffer toRead v) \<and> cont (ph_native s') = (cont (ph_native s))(x \<mapsto> snd (ref_read buffer toRead v))"
    if "CallOriginalArchiveRead en env x buffer toRead read t = (r, s')" "?same t" for t
    using plain_original [OF en _ buf that(1)] v that(2) by simp
  define s0 where "s0 = note_load_phase env (\<not> pe_bEnableDuringSaveLoad env \<and> ph_engineLoadActive s) toRead s"
  have s0: "ph_native s0 = ph_native s" "ph_sources s0 = ph_sources s" "ph_manager s0 = ph_manager s"
    by (simp_all add: s0_def note_load_phase_def)
  let ?src = "ae_source en (ph_native s) x"
  obtain archive t where ar: "(if ?src = 0 then (None, ph_sources s)
      else ResolveSource (pe_pv env) (ph_manager s) ?src (ph_sources s)) = (archive, t)" by fastforce
  consider (original) u where "CallOriginalArchiveRead en env x buffer toRead read u = (r, s')" "?same u"
    | (served) a view where "archive = Some a" "ma_base (mm_archives (ph_manager s) ! a) = Some view"
        "serve_mapped en env x buffer toRead read view (s0\<lparr>ph_sources := t\<rparr>) = (r, s')"
    using rd ar s0 unfolding HookedDoRead_def Let_def
    by (simp flip: s0_def split: if_splits option.splits)
  then show ?thesis
  proof cases
    case original
    then show ?thesis by (rule orig)
  next
    case served
    have "ResolveSource (pe_pv env) (ph_manager s) ?src (ph_sources s) = (Some a, t)"
      using ar served(1) by (auto split: if_splits)
    then have "fst v = byte_slice (unat (ae_startOffset en (ph_native s) x)) (unat (ae_totalSize en (ph_native s) x)) view"
      using lk v served(2) unfolding plain_linked_def by blast
    then show ?thesis using plain_served [OF en _ buf _ served(3)] v s0(1) by simp
  qed
qed

section \<open>All hooks or none\<close>

lemma write_hooks_frame:
  "pr_originals (write_hooks hooks slots p) = pr_originals p" "pr_installStarted (write_hooks hooks slots p) = pr_installStarted p"
  "pr_hooksActive (write_hooks hooks slots p) = pr_hooksActive p"
  by (induction slots arbitrary: p) (auto simp: write_hooks_def safe_write_def)

lemma write_hooks_other: "a \<notin> snd ` set slots \<Longrightarrow> pr_word (write_hooks hooks slots p) a = pr_word p a"
  by (induction slots arbitrary: p) (auto simp: write_hooks_def safe_write_def)

lemma write_hooks_slot:
  "distinct (map snd slots) \<Longrightarrow> (h, a) \<in> set slots \<Longrightarrow> pr_word (write_hooks hooks slots p) a = hooks h"
proof (induction slots arbitrary: p)
  case (Cons x slots)
  obtain h' a' where x: "x = (h', a')" by fastforce
  show ?case
  proof (cases "(h, a) = (h', a')")
    case True
    then have "a \<notin> snd ` set slots" using Cons.prems(1) x by simp
    then show ?thesis using write_hooks_other [of a slots hooks "safe_write a' (hooks h') p"] True x
      by (simp add: write_hooks_def safe_write_def)
  next
    case False
    then have "(h, a) \<in> set slots" "distinct (map snd slots)" using Cons.prems x by auto
    from Cons.IH [OF this(2,1)] show ?thesis by (simp add: write_hooks_def x)
  qed
qed simp

lemma patch_hooks_distinct: "distinct (map fst (patch_slots vtables))"
  by (simp add: patch_slots_def)

lemma saved_original: "(h, a) \<in> set (patch_slots vtables) \<Longrightarrow> pr_originals (save_originals vtables p) h = Some (pr_word p a)"
  unfolding save_originals_def
proof (simp, rule map_of_is_SomeI)
  have "map fst (map (\<lambda>(h, a). (h, pr_word p a)) xs) = map fst xs" for xs :: "(hook \<times> u64) list"
    by (induction xs) auto
  then show "distinct (map fst (map (\<lambda>(h, a). (h, pr_word p a)) (patch_slots vtables)))"
    by (simp only: patch_hooks_distinct)
  assume "(h, a) \<in> set (patch_slots vtables)"
  then show "(h, pr_word p a) \<in> set (map (\<lambda>(h, a). (h, pr_word p a)) (patch_slots vtables))" by force
qed

lemma validated_slots:
  assumes "install_checks env p = Some vtables" "(h, a) \<in> set (patch_slots vtables)"
  shows "IsExecutableAddress (ie_query env) (pr_word p a)"
proof -
  have e: "IsExecutableAddress (ie_query env) (pr_word p (fst vtables + 6 * 8))"
    "\<forall>k \<in> {0, 1, 2, 5, 6, 8}. IsExecutableAddress (ie_query env) (pr_word p (snd vtables + word_of_nat (8 * k)))"
    using assms(1) by (auto simp: install_checks_def ValidateVtableSlots_def Let_def split: if_splits prod.splits bool.splits option.splits)
  then show ?thesis using assms(2) by (auto simp: patch_slots_def)
qed


end
