(* ===== verification/StreamLocal.thy ===== *)
theory StreamLocal
  imports StreamFrames
begin

text \<open>
  The steps of a call that holds the I/O mutex of a state that is not retired: they change that
  state, the native stream, the cache and the counters, and nothing that other streams see.
\<close>

section \<open>What the small operations change\<close>

lemma count_stat_sel [simp]:
  "hk_native (count_stat b k n s) = hk_native s" "hk_hooksActive (count_stat b k n s) = hk_hooksActive s"
  "hk_engineLoadActive (count_stat b k n s) = hk_engineLoadActive s"
  "hk_sources (count_stat b k n s) = hk_sources s" "hk_manager (count_stat b k n s) = hk_manager s"
  "hk_cache (count_stat b k n s) = hk_cache s" "hk_heap (count_stat b k n s) = hk_heap s"
  "hk_shards (count_stat b k n s) = hk_shards s" "hk_thread (count_stat b k n s) = hk_thread s"
  "hk_memo (count_stat b k n s) = hk_memo s" "hk_pins (count_stat b k n s) = hk_pins s"
  "hk_budget (count_stat b k n s) = hk_budget s"
  by (simp_all add: count_stat_def)

lemma record_path_sel [simp]:
  "hk_native (record_path b k f s) = hk_native s" "hk_hooksActive (record_path b k f s) = hk_hooksActive s"
  "hk_engineLoadActive (record_path b k f s) = hk_engineLoadActive s"
  "hk_sources (record_path b k f s) = hk_sources s" "hk_manager (record_path b k f s) = hk_manager s"
  "hk_cache (record_path b k f s) = hk_cache s" "hk_heap (record_path b k f s) = hk_heap s"
  "hk_shards (record_path b k f s) = hk_shards s" "hk_thread (record_path b k f s) = hk_thread s"
  "hk_memo (record_path b k f s) = hk_memo s" "hk_pins (record_path b k f s) = hk_pins s"
  "hk_budget (record_path b k f s) = hk_budget s"
  by (simp_all add: record_path_def)

lemma update_state_sel [simp]:
  "hk_native (update_state i f s) = hk_native s" "hk_hooksActive (update_state i f s) = hk_hooksActive s"
  "hk_engineLoadActive (update_state i f s) = hk_engineLoadActive s"
  "hk_sources (update_state i f s) = hk_sources s" "hk_manager (update_state i f s) = hk_manager s"
  "hk_cache (update_state i f s) = hk_cache s" "hk_shards (update_state i f s) = hk_shards s"
  "hk_thread (update_state i f s) = hk_thread s" "hk_memo (update_state i f s) = hk_memo s"
  "hk_pins (update_state i f s) = hk_pins s" "hk_budget (update_state i f s) = hk_budget s"
  "hk_heap (update_state i f s) = (hk_heap s)[i := f (hk_heap s ! i)]"
  by (simp_all add: update_state_def list_update_beyond not_less)

lemma release_charge_sel [simp]:
  "hk_native (release_charge n s) = hk_native s" "hk_hooksActive (release_charge n s) = hk_hooksActive s"
  "hk_engineLoadActive (release_charge n s) = hk_engineLoadActive s"
  "hk_sources (release_charge n s) = hk_sources s" "hk_manager (release_charge n s) = hk_manager s"
  "hk_cache (release_charge n s) = hk_cache s" "hk_shards (release_charge n s) = hk_shards s"
  "hk_thread (release_charge n s) = hk_thread s" "hk_memo (release_charge n s) = hk_memo s"
  "hk_pins (release_charge n s) = hk_pins s" "hk_heap (release_charge n s) = hk_heap s"
  by (simp_all add: release_charge_def)

lemma ClearCaptureBuffer_sel [simp]:
  "hk_native (ClearCaptureBuffer i s) = hk_native s" "hk_hooksActive (ClearCaptureBuffer i s) = hk_hooksActive s"
  "hk_engineLoadActive (ClearCaptureBuffer i s) = hk_engineLoadActive s"
  "hk_sources (ClearCaptureBuffer i s) = hk_sources s" "hk_manager (ClearCaptureBuffer i s) = hk_manager s"
  "hk_cache (ClearCaptureBuffer i s) = hk_cache s" "hk_shards (ClearCaptureBuffer i s) = hk_shards s"
  "hk_thread (ClearCaptureBuffer i s) = hk_thread s" "hk_memo (ClearCaptureBuffer i s) = hk_memo s"
  "hk_pins (ClearCaptureBuffer i s) = hk_pins s"
  "hk_heap (ClearCaptureBuffer i s) =
     (hk_heap s)[i := (hk_heap s ! i)\<lparr>ss_accountedCaptureBytes := 0, ss_captureBuffer := []\<rparr>]"
  by (simp_all add: ClearCaptureBuffer_def)

section \<open>Working on one stream\<close>

definition views_kept :: "DecompCache \<Rightarrow> DecompCache \<Rightarrow> bool" where
  "views_kept c c' \<longleftrightarrow> length (dc_views c) \<le> length (dc_views c') \<and>
     (\<forall>i < length (dc_views c). same_shape (dc_views c ! i) (dc_views c' ! i))"

lemma views_kept_refl [simp]: "views_kept c c"
  by (simp add: views_kept_def same_shape_def)

lemma views_kept_trans: "views_kept a b \<Longrightarrow> views_kept b c \<Longrightarrow> views_kept a c"
  by (auto simp: views_kept_def same_shape_def)

lemma gentle_views: "gentle c c' \<Longrightarrow> views_kept c c'"
  by (simp add: gentle_def views_kept_def)

lemma state_ok_views: "state_ok plain (dc_views c) v st \<Longrightarrow> views_kept c c' \<Longrightarrow> state_ok plain (dc_views c') v st"
  by (rule state_ok_shape) (auto simp: views_kept_def)

text \<open>Stream \<open>x\<close> is worked on through its state \<open>i\<close>.\<close>

definition works :: "'n engine \<Rightarrow> ('n \<Rightarrow> u64 \<rightharpoonup> bytes \<times> nat) \<Rightarrow> (nat \<Rightarrow> u32 \<Rightarrow> bytes) \<Rightarrow> u64 \<Rightarrow> nat \<Rightarrow>
    'n hooks \<Rightarrow> 'n hooks \<Rightarrow> bool" where
  "works en cont plain x i s s' \<longleftrightarrow>
     hk_hooksActive s' = hk_hooksActive s \<and> hk_engineLoadActive s' = hk_engineLoadActive s \<and>
     hk_sources s' = hk_sources s \<and> hk_manager s' = hk_manager s \<and> hk_shards s' = hk_shards s \<and>
     hk_thread s' = hk_thread s \<and> hk_memo s' = hk_memo s \<and> hk_pins s' = hk_pins s \<and>
     length (hk_heap s') = length (hk_heap s) \<and> (\<forall>j. j \<noteq> i \<longrightarrow> hk_heap s' ! j = hk_heap s ! j) \<and>
     ss_retired (hk_heap s' ! i) = ss_retired (hk_heap s ! i) \<and>
     ss_identity (hk_heap s' ! i) = ss_identity (hk_heap s ! i) \<and>
     (\<forall>y. y \<noteq> x \<longrightarrow> cont (hk_native s') y = cont (hk_native s) y) \<and>
     map_option fst (cont (hk_native s') x) = map_option fst (cont (hk_native s) x) \<and>
     same_fields en (hk_native s) (hk_native s') \<and>
     (cache_truthful plain (hk_cache s) \<longrightarrow> cache_truthful plain (hk_cache s')) \<and>
     views_kept (hk_cache s) (hk_cache s')"

lemma works_refl [simp]: "works en cont plain x i s s"
  by (simp add: works_def same_fields_def)

lemma works_trans: "works en cont plain x i s t \<Longrightarrow> works en cont plain x i t u \<Longrightarrow> works en cont plain x i s u"
  by (auto simp: works_def same_fields_def intro: views_kept_trans)

lemma works_count: "works en cont plain x i s (count_stat b k n s)"
  "works en cont plain x i s (record_path b p f s)" "works en cont plain x i s (release_charge n s)"
  by (simp_all add: works_def same_fields_def)

lemma works_update:
  "(\<And>st. ss_retired (f st) = ss_retired st \<and> ss_identity (f st) = ss_identity st) \<Longrightarrow>
     works en cont plain x i s (update_state i f s)"
  by (cases "i < length (hk_heap s)") (simp_all add: works_def same_fields_def list_update_beyond not_less)

lemma works_clear: "works en cont plain x i s (ClearCaptureBuffer i s)"
  unfolding ClearCaptureBuffer_def
  by (rule works_trans [OF works_count(3) works_update]) simp

lemma works_then:
  "works en cont plain x i s t \<Longrightarrow> works en cont plain x i s (count_stat b k n t)"
  "works en cont plain x i s t \<Longrightarrow> works en cont plain x i s (record_path b p g t)"
  "works en cont plain x i s t \<Longrightarrow> works en cont plain x i s (release_charge n t)"
  "works en cont plain x i s t \<Longrightarrow> works en cont plain x i s (ClearCaptureBuffer i t)"
  "works en cont plain x i s t \<Longrightarrow>
     (\<And>st. ss_retired (f st) = ss_retired st \<and> ss_identity (f st) = ss_identity st) \<Longrightarrow>
     works en cont plain x i s (update_state i f t)"
  by (blast intro: works_trans works_count works_clear works_update)+

lemma works_capture:
  "works en cont plain x i s (set_capture status i s)" "works en cont plain x i s (abandon_capture i s)"
  "works en cont plain x i s (ResetCaptureAfterSeek i off s)"
  by (auto simp: set_capture_def abandon_capture_def ResetCaptureAfterSeek_def intro!: works_then)

lemma works_cache: "gentle (hk_cache s) c \<Longrightarrow> works en cont plain x i s (s\<lparr>hk_cache := c\<rparr>)"
  by (auto simp: works_def same_fields_def intro: truthful_gentle gentle_views)

lemma works_budget: "works en cont plain x i s (s\<lparr>hk_budget := b\<rparr>)"
  by (simp add: works_def same_fields_def)

lemma hooks_ok_state:
  "hooks_ok en cont plain owner s \<Longrightarrow> registered s x = Some i \<Longrightarrow>
     \<exists>v. cont (hk_native s) x = Some v \<and> state_ok plain (dc_views (hk_cache s)) v (hk_heap s ! i)"
  "hooks_ok en cont plain owner s \<Longrightarrow> registered s x = Some i \<Longrightarrow>
     i < length (hk_heap s) \<and> \<not> ss_retired (hk_heap s ! i)"
  unfolding hooks_ok_def registry_ok_def by blast+

text \<open>What it leaves to show: the worked state fits the worked stream.\<close>

lemma works_hooks_ok:
  assumes "hooks_ok en cont plain owner s" "works en cont plain x i s s'" "registered s x = Some i"
    and "cont (hk_native s') x = Some v" "state_ok plain (dc_views (hk_cache s')) v (hk_heap s' ! i)"
  shows "hooks_ok en cont plain owner s'"
    and "\<And>y. y \<noteq> x \<Longrightarrow> stream_view cont s' y = stream_view cont s y"
proof -
  have reg: "registered s' = registered s" using assms(2) by (auto simp: registered_def works_def)
  have ret: "ss_retired (hk_heap s' ! j) = ss_retired (hk_heap s ! j)" for j
    using assms(2) by (cases "j = i") (simp_all add: works_def)
  have len: "length (hk_heap s') = length (hk_heap s)" and memo: "hk_memo s' = hk_memo s"
    using assms(2) by (simp_all add: works_def)
  have ok: "registry_ok s" using assms(1) by (simp add: hooks_ok_def)
  have far: "j \<noteq> i \<Longrightarrow> hk_heap s' ! j = hk_heap s ! j" for j using assms(2) by (simp add: works_def)
  have "registered s y = Some i \<Longrightarrow> y = x" for y
    using ok assms(3) unfolding registry_ok_def by blast
  then have other: "y \<noteq> x \<Longrightarrow> registered s y = Some j \<Longrightarrow> hk_heap s' ! j = hk_heap s ! j" for y j
    using far by metis
  have "registry_ok s'" using ok unfolding registry_ok_def reg ret len memo .
  moreover have "\<exists>v. cont (hk_native s') y = Some v \<and> state_ok plain (dc_views (hk_cache s')) v (hk_heap s' ! j)"
    if r: "registered s' y = Some j" for y j
  proof (cases "y = x")
    case True
    then show ?thesis using r assms(3,4,5) by (simp add: reg)
  next
    case False
    then obtain v where "cont (hk_native s) y = Some v" "state_ok plain (dc_views (hk_cache s)) v (hk_heap s ! j)"
      using hooks_ok_state(1) [OF assms(1)] r unfolding reg by blast
    then show ?thesis
      using False other r assms(2) state_ok_views by (auto simp: works_def reg)
  qed
  ultimately show "hooks_ok en cont plain owner s'" using assms(1,2) by (simp add: hooks_ok_def works_def)
  show "stream_view cont s' y = stream_view cont s y" if "y \<noteq> x" for y
    using that other assms(2) by (cases "registered s y") (auto simp: stream_view_def reg works_def)
qed

end
