(* ===== verification/StreamServe.thy ===== *)
theory StreamServe
  imports StreamLocal
begin

text \<open>
  A stream is attached to a cached payload only at the position it already has, and reads served
  from the payload are the reads of its contents; so are the cursor queries of the native stream.
\<close>

definition fits :: "'n engine \<Rightarrow> ('n \<Rightarrow> u64 \<rightharpoonup> bytes \<times> nat) \<Rightarrow> (nat \<Rightarrow> u32 \<Rightarrow> bytes) \<Rightarrow> u64 \<Rightarrow> nat \<Rightarrow>
    'n hooks \<Rightarrow> bool" where
  "fits en cont plain x i s \<longleftrightarrow> i < length (hk_heap s) \<and> cache_truthful plain (hk_cache s) \<and>
     (\<exists>v. cont (hk_native s) x = Some v \<and> state_ok plain (dc_views (hk_cache s)) v (hk_heap s ! i))"

text \<open>The stream as its state \<open>i\<close> shows it.\<close>

definition view_by :: "('n \<Rightarrow> u64 \<rightharpoonup> bytes \<times> nat) \<Rightarrow> 'n hooks \<Rightarrow> u64 \<Rightarrow> nat \<Rightarrow> bytes \<times> nat" where
  "view_by cont s x i =
     (fst (the (cont (hk_native s) x)), position_in (Some (hk_heap s ! i)) (snd (the (cont (hk_native s) x))))"

lemma view_registered:
  "registered s x = Some i \<Longrightarrow> cont (hk_native s) x = Some v \<Longrightarrow> stream_view cont s x = Some (view_by cont s x i)"
  by (simp add: stream_view_def view_by_def)

lemma hooks_ok_fits: "hooks_ok en cont plain owner s \<Longrightarrow> registered s x = Some i \<Longrightarrow> fits en cont plain x i s"
  using hooks_ok_state [of en cont plain owner s x i] by (simp add: fits_def hooks_ok_def)

lemma fits_hooks_ok:
  assumes "hooks_ok en cont plain owner s" "works en cont plain x i s s'" "registered s x = Some i"
    and "fits en cont plain x i s'"
  shows "hooks_ok en cont plain owner s'" "stream_view cont s' x = Some (view_by cont s' x i)"
    "y \<noteq> x \<Longrightarrow> stream_view cont s' y = stream_view cont s y"
proof -
  obtain v where v: "cont (hk_native s') x = Some v" "state_ok plain (dc_views (hk_cache s')) v (hk_heap s' ! i)"
    using assms(4) unfolding fits_def by blast
  show "hooks_ok en cont plain owner s'" by (rule works_hooks_ok(1) [OF assms(1-3) v])
  show "y \<noteq> x \<Longrightarrow> stream_view cont s' y = stream_view cont s y" by (rule works_hooks_ok(2) [OF assms(1-3) v])
  have "registered s' x = Some i" using assms(2,3) by (simp add: works_def registered_def)
  then show "stream_view cont s' x = Some (view_by cont s' x i)" using v(1) by (rule view_registered)
qed

lemma fitsI:
  "i < length (hk_heap s) \<Longrightarrow> cache_truthful plain (hk_cache s) \<Longrightarrow> cont (hk_native s) x = Some v \<Longrightarrow>
     state_ok plain (dc_views (hk_cache s)) v (hk_heap s ! i) \<Longrightarrow> fits en cont plain x i s"
  unfolding fits_def by blast

section \<open>Attaching\<close>

lemma fits_frame:
  assumes "fits en cont plain x i s" "hk_native s' = hk_native s" "gentle (hk_cache s) (hk_cache s')"
    and "hk_heap s' = (hk_heap s)[i := st]"
    and "\<And>v. cont (hk_native s) x = Some v \<Longrightarrow> state_ok plain (dc_views (hk_cache s')) v (hk_heap s ! i) \<Longrightarrow>
      state_ok plain (dc_views (hk_cache s')) v st"
  shows "fits en cont plain x i s'"
proof -
  obtain v where v: "cont (hk_native s) x = Some v" "state_ok plain (dc_views (hk_cache s)) v (hk_heap s ! i)"
    and i: "i < length (hk_heap s)" and c: "cache_truthful plain (hk_cache s)"
    using assms(1) unfolding fits_def by blast
  have "state_ok plain (dc_views (hk_cache s')) v (hk_heap s ! i)"
    using state_ok_views [OF v(2) gentle_views [OF assms(3)]] .
  from assms(5) [OF v(1) this] show ?thesis
    using v(1) i truthful_gentle [OF c assms(3)] by (intro fitsI [where v = v]) (simp_all add: assms(2,4))
qed

lemma state_ok_attempted: "state_ok plain views v st \<Longrightarrow> state_ok plain views v (st\<lparr>ss_cacheLookupAttempted := True\<rparr>)"
  by (auto simp: state_ok_def)

lemma state_ok_attach:
  assumes "state_ok plain views v st" "stream_wf v" "ss_cursorKnown st" "ss_cacheData st = None"
    and "unat n = length (fst v)" "n \<noteq> 0" "payload_at views holder d (fst v)"
  shows "state_ok plain views v
      (st\<lparr>ss_cacheLookupAttempted := True, ss_cacheData := Some d, ss_cacheSize := n, ss_cacheOwner := holder,
          ss_captureStatus := kCaptureInvalid, ss_accountedCaptureBytes := 0, ss_captureBuffer := []\<rparr>)"
  using assms by (auto simp: state_ok_def stream_wf_def)

lemma TryAttach_cases:
  fixes env
  assumes "fits en cont plain x i s" "engine_ok en cont"
  defines "s' \<equiv> TryAttachCachedEntry env i s"
  shows "works en cont plain x i s s'" "fits en cont plain x i s'" "hk_native s' = hk_native s"
    "view_by cont s' x i = view_by cont s x i"
    "ss_cacheData (hk_heap s' ! i) = None \<Longrightarrow>
      ss_cacheData (hk_heap s ! i) = None \<and> ss_cursorKnown (hk_heap s' ! i) = ss_cursorKnown (hk_heap s ! i)"
proof -
  let ?st = "hk_heap s ! i" and ?att = "update_state i (\<lambda>st. st\<lparr>ss_cacheLookupAttempted := True\<rparr>) s"
  obtain v where v: "cont (hk_native s) x = Some v" "state_ok plain (dc_views (hk_cache s)) v ?st"
    and i: "i < length (hk_heap s)" and c: "cache_truthful plain (hk_cache s)"
    using assms(1) unfolding fits_def by blast
  have wf: "stream_wf v" using assms(2) v(1) by (rule engine_wf)
  let ?goal = "\<lambda>s'. works en cont plain x i s s' \<and> fits en cont plain x i s' \<and> hk_native s' = hk_native s \<and>
      view_by cont s' x i = view_by cont s x i \<and> (ss_cacheData (hk_heap s' ! i) = None \<longrightarrow>
      ss_cacheData (hk_heap s ! i) = None \<and> ss_cursorKnown (hk_heap s' ! i) = ss_cursorKnown (hk_heap s ! i))"
  have frame: "?goal t" if "works en cont plain x i s t" "hk_native t = hk_native s"
    "gentle (hk_cache s) (hk_cache t)"
    "hk_heap t = (hk_heap s)[i := ?st] \<or> hk_heap t = (hk_heap s)[i := ?st\<lparr>ss_cacheLookupAttempted := True\<rparr>]" for t
    using that(4)
  proof
    assume "hk_heap t = (hk_heap s)[i := ?st]"
    then show ?thesis
      using that fits_frame [OF assms(1) that(2,3), of ?st] i by (simp add: view_by_def)
  next
    assume "hk_heap t = (hk_heap s)[i := ?st\<lparr>ss_cacheLookupAttempted := True\<rparr>]"
    then show ?thesis
      using that fits_frame [OF assms(1) that(2,3), of "?st\<lparr>ss_cacheLookupAttempted := True\<rparr>"] i state_ok_attempted
      by (simp add: view_by_def position_in_def)
  qed
  have att: "works en cont plain x i s ?att" by (rule works_update) simp
  have quiet: "?goal s" "?goal (?att)" "?goal (count_stat b k n s)" "?goal (count_stat b k n ?att)" for b k n
    by (rule frame; simp add: works_count works_then(1) att)+
  have "?goal (TryAttachCachedEntry env i s)"
  proof (cases "si_archive (ss_identity ?st) = None \<or> ss_cacheLookupAttempted ?st \<or> \<not> ss_cursorKnown ?st \<or>
      \<not> hs_bEnableDecompCache (he_cfg env) \<or> si_totalSize (ss_identity ?st) = 0 \<or>
      LoadPhaseAccelerationSuppressed env s \<or> \<not> hs_bServeDecompCache (he_cfg env) \<or>
      \<not> dc_ready (hk_cache s) \<or> he_lookupThrows env")
    case True
    then have "TryAttachCachedEntry env i s \<in>
        {s, ?att, count_stat (measures env) ht_cacheServeDisabled_update 1 ?att,
         count_stat (measures env) ht_cacheNotReady_update 1 s}"
      by (auto simp: TryAttachCachedEntry_def Let_def split: option.split)
    then show ?thesis using quiet by auto
  next
    case False
    then obtain a where a: "si_archive (ss_identity ?st) = Some a" by auto
    note busy = False
    obtain r k where lk: "Lookup (hs_cache (he_cfg env)) (he_lookup env) a (si_startOffset (ss_identity ?st)) (hk_cache s) = (r, k)"
      by fastforce
    have g: "gentle (hk_cache s) k" by (rule gentle_Lookup [OF lk])
    let ?s1 = "?att\<lparr>hk_cache := k\<rparr>"
    let ?bad = "\<lambda>s2. s2\<lparr>hk_cache := ReportCacheValidationFailure (hs_cache (he_cfg env)) (le_qpc (he_lookup env))
        (lr_owner r) (hk_cache s2)\<rparr>"
    let ?fill = "\<lambda>st. st\<lparr>ss_cacheData := lr_data r, ss_cacheSize := lr_size r, ss_cacheOwner := lr_owner r\<rparr>"
    have res: "TryAttachCachedEntry env i s =
        (if \<not> result_bool r then ?s1
         else if lr_size r \<noteq> si_totalSize (ss_identity ?st)
         then ?bad (count_stat (measures env) ht_cacheSizeMismatches_update 1 ?s1)
         else abandon_capture i (count_stat (measures env) ht_cacheAttachments_update 1 (update_state i ?fill ?s1)))"
      using False a lk by (simp add: TryAttachCachedEntry_def Let_def)
    have w1: "works en cont plain x i s ?s1" by (rule works_trans [OF att works_cache]) (simp add: g)
    have w2: "works en cont plain x i s (?bad (count_stat b k n ?s1))" for b k n
      by (rule works_trans [OF works_then(1) [OF w1] works_cache]) (rule gentle_ReportCacheValidationFailure)
    have g2: "gentle (hk_cache s) (hk_cache (?bad (count_stat b k n ?s1)))" for b k n
      using gentle_trans [OF g gentle_ReportCacheValidationFailure] by simp
    have miss: "?goal ?s1" "?goal (?bad (count_stat b k n ?s1))" for b k n
      by (rule frame [OF w1]; simp add: g) (rule frame [OF w2 _ g2]; simp)
    show ?thesis
    proof (cases "result_bool r \<and> lr_size r = si_totalSize (ss_identity ?st)")
      case False
      then show ?thesis unfolding res using miss by presburger
    next
      case True
      let ?n = "lr_size r"
      from truthful_hit [OF c lk] True obtain w d where
        r: "r = \<lparr>lr_data = Some d, lr_size = ?n, lr_owner = Some w\<rparr>" and w: "w < length (dc_views k)" and
        n: "?n \<noteq> 0" "unat ?n = length (plain a (si_startOffset (ss_identity ?st)))" and
        d: "d + unat ?n \<le> length (mv_base (dc_views k ! w))"
          "byte_slice d (unat ?n) (mv_base (dc_views k ! w)) = plain a (si_startOffset (ss_identity ?st))"
        by blast
      have bs: "fst v = plain a (si_startOffset (ss_identity ?st))"
        using v(2) a by (simp add: state_ok_def identity_ok_def)
      have p: "payload_at (dc_views k) (Some w) d (fst v)"
        using w d n(2) by (simp add: payload_at_def bs)
      have none: "ss_cacheData ?st = None" using v(2) busy by (auto simp: state_ok_def)
      have known: "ss_cursorKnown ?st" using busy by blast
      have ok: "state_ok plain (dc_views k) v ?st" by (rule state_ok_views [OF v(2) gentle_views [OF g]])
      let ?new = "?st\<lparr>ss_cacheLookupAttempted := True, ss_cacheData := Some d, ss_cacheSize := ?n, ss_cacheOwner := Some w,
          ss_captureStatus := kCaptureInvalid, ss_accountedCaptureBytes := 0, ss_captureBuffer := []\<rparr>"
      let ?t = "abandon_capture i (count_stat (measures env) ht_cacheAttachments_update 1 (update_state i ?fill ?s1))"
      have t: "TryAttachCachedEntry env i s = ?t" unfolding res using True by simp
      have heap: "hk_heap ?t = (hk_heap s)[i := ?new]" "hk_cache ?t = k" "hk_native ?t = hk_native s"
        using i by (simp_all add: abandon_capture_def set_capture_def r [THEN arg_cong [where f = lr_data]]
            r [THEN arg_cong [where f = lr_owner]])
      have "works en cont plain x i s ?t"
        by (rule works_trans [OF works_then(1) [OF works_then(5) [OF w1]] works_capture(2)]) simp
      moreover have "state_ok plain (dc_views k) v ?new"
        using state_ok_attach [OF ok wf known none _ n(1) p] n(2) by (simp add: bs)
      then have "fits en cont plain x i ?t"
        using v(1) i truthful_gentle [OF c g] by (intro fitsI [where v = v]) (simp_all add: heap)
      moreover have "view_by cont ?t x i = view_by cont s x i"
        using v i none known by (simp add: view_by_def heap position_in_def state_ok_def)
      moreover have "ss_cacheData (hk_heap ?t ! i) \<noteq> None" using i by (simp add: heap(1))
      ultimately show ?thesis unfolding t using heap(3) by blast
    qed
  qed
  then show "works en cont plain x i s s'" "fits en cont plain x i s'" "hk_native s' = hk_native s"
    "view_by cont s' x i = view_by cont s x i"
    "ss_cacheData (hk_heap s' ! i) = None \<Longrightarrow>
      ss_cacheData (hk_heap s ! i) = None \<and> ss_cursorKnown (hk_heap s' ! i) = ss_cursorKnown (hk_heap s ! i)"
    unfolding s'_def by blast+
qed

section \<open>Serving\<close>

lemma byte_slice_part:
  assumes "byte_slice d n base = bs" "c + k \<le> n"
  shows "byte_slice (d + c) k base = take k (drop c bs)"
  using assms by (auto simp: byte_slice_def drop_take add.commute min_def)

lemma view_by_cached:
  "cont (hk_native s) x = Some v \<Longrightarrow> ss_cacheData (hk_heap s ! i) \<noteq> None \<Longrightarrow>
     view_by cont s x i = (fst v, unat (ss_logicalCursor (hk_heap s ! i)))"
  "cont (hk_native s) x = Some v \<Longrightarrow> ss_cacheData (hk_heap s ! i) = None \<Longrightarrow> view_by cont s x i = v"
  by (auto simp: view_by_def position_in_def)

lemma state_ok_cursor:
  "state_ok plain views v st \<Longrightarrow> ss_cacheData st \<noteq> None \<Longrightarrow> unat c \<le> length (fst v) \<Longrightarrow>
     state_ok plain views v (st\<lparr>ss_logicalCursor := c\<rparr>)"
  by (auto simp: state_ok_def)

lemma ServeCachedRead_cases:
  assumes "fits en cont plain x i s" "engine_ok en cont" "ss_cacheData (hk_heap s ! i) \<noteq> None"
    and "toRead = 0 \<or> buffer \<noteq> None" "ServeCachedRead env i buffer toRead s = (r, s')"
  shows "works en cont plain x i s s'" "fits en cont plain x i s'" "hk_native s' = hk_native s"
    "r = (kFileError, buffer, 0) \<and> view_by cont s' x i = view_by cont s x i \<or>
     (r, view_by cont s' x i) = ref_read buffer toRead (view_by cont s x i)"
proof -
  let ?st = "hk_heap s ! i"
  obtain v where v: "cont (hk_native s) x = Some v" "state_ok plain (dc_views (hk_cache s)) v ?st"
    and i: "i < length (hk_heap s)" and c: "cache_truthful plain (hk_cache s)"
    using assms(1) unfolding fits_def by blast
  obtain d where d: "ss_cacheData ?st = Some d" using assms(3) by auto
  have wf: "stream_wf v" using assms(2) v(1) by (rule engine_wf)
  have st: "ss_cacheSize ?st \<noteq> 0" "unat (ss_cacheSize ?st) = length (fst v)"
    "payload_at (dc_views (hk_cache s)) (ss_cacheOwner ?st) d (fst v)"
    "unat (ss_logicalCursor ?st) \<le> length (fst v)"
    using v(2) d by (simp_all add: state_ok_def)
  obtain w where w: "ss_cacheOwner ?st = Some w" "w < length (dc_views (hk_cache s))"
    "byte_slice d (length (fst v)) (mv_base (dc_views (hk_cache s) ! w)) = fst v"
    using st(3) by (auto simp: payload_at_def)
  obtain cl c' where claim: "ClaimRange (ss_logicalCursor ?st) 0 (ss_cacheSize ?st) toRead = (cl, c')" by fastforce
  have ok: "cursor_ok 0 (ss_cacheSize ?st) (ss_logicalCursor ?st)"
    using st(2,4) wf by (simp add: cursor_ok_def stream_wf_def)
  let ?c = "unat (ss_logicalCursor ?st)" and ?k = "min (unat toRead) (length (fst v) - unat (ss_logicalCursor ?st))"
  have cl: "IsValid cl" "rc_absoluteOffset cl = ss_logicalCursor ?st" "unat (rc_relativeOffset cl) = ?c"
    "unat (rc_size cl) = ?k" "unat c' = ?c + ?k"
    using ClaimRange_cases [where c = "ss_logicalCursor ?st" and startOffset = 0 and totalSize = "ss_cacheSize ?st"
        and requested = toRead] ok claim st(2) by (auto simp: cursor_ok_def)
  let ?s1 = "update_state i (\<lambda>st. st\<lparr>ss_logicalCursor := c'\<rparr>) s"
  let ?goal = "\<lambda>r s'. works en cont plain x i s s' \<and> fits en cont plain x i s' \<and> hk_native s' = hk_native s \<and>
     (r = (kFileError, buffer, 0) \<and> view_by cont s' x i = view_by cont s x i \<or>
      (r, view_by cont s' x i) = ref_read buffer toRead (view_by cont s x i))"
  have w1: "works en cont plain x i s ?s1" by (rule works_update) simp
  have view: "view_by cont s x i = (fst v, ?c)" using v(1) assms(3) by (rule view_by_cached)
  have "?goal r s'"
  proof (cases "mv_unusable (dc_views (hk_cache s) ! w)")
    case True
    then show ?thesis
      using assms(1,4,5) d st(1) w(1) by (auto simp: ServeCachedRead_def)
  next
    case False
    note usable = False
    let ?rep = "\<lambda>s. s\<lparr>hk_cache := ReportMappingIoFailure (hs_cache (he_cfg env)) (le_qpc (he_lookup env)) (ss_cacheOwner ?st) (hk_cache s)\<rparr>"
    let ?undone = "?rep (update_state i (\<lambda>st. st\<lparr>ss_logicalCursor := rc_absoluteOffset cl\<rparr>) ?s1)"
    let ?payload = "byte_slice (d + unat (rc_relativeOffset cl)) (unat (rc_size cl)) (mv_base (dc_views (hk_cache s) ! w))"
    have "?c + ?k \<le> length (fst v)" using st(4) by simp
    from byte_slice_part [OF w(3) this] have "?payload = take ?k (drop ?c (fst v))" by (simp only: cl(3,4))
    also have "\<dots> = take (unat toRead) (drop ?c (fst v))" by (simp add: min_def)
    finally have payload: "?payload = take (unat toRead) (drop ?c (fst v))" .
    show ?thesis
    proof (cases "rc_size cl > 0 \<and> he_copyFaults env")
      case True
      let ?t = "record_path (measures env) ht_cachePath_update (RecordPath toRead 0 True (he_ticks env)) ?undone"
      have e: "r = (kFileError, buffer, 0)" "s' = ?t"
        using assms(4,5) d st(1) w(1) usable claim cl(1) True by (auto simp: ServeCachedRead_def Let_def)
      have heap: "hk_heap ?t = (hk_heap s)[i := ?st]" using i by (simp add: cl(2))
      have "works en cont plain x i s ?t"
        by (rule works_then(2) [OF works_trans [OF works_then(5) [OF w1] works_cache]])
          (simp_all add: gentle_ReportMappingIoFailure)
      moreover have "fits en cont plain x i ?t"
        by (rule fits_frame [OF assms(1) _ _ heap]) (simp_all add: gentle_ReportMappingIoFailure)
      ultimately show ?thesis using i by (simp add: e view_by_def cl(2))
    next
      case False
      let ?t = "record_path (measures env) ht_cachePath_update
          (RecordPath toRead (u64_of_u32 (rc_size cl)) False (he_ticks env)) ?s1"
      have e: "r = (kNone, copy_to buffer ?payload, u64_of_u32 (rc_size cl))" "s' = ?t"
        using assms(4,5) d st(1) w(1,2) usable claim cl(1) False
        by (auto simp: ServeCachedRead_def Let_def copy_to_def byte_slice_def word_gt_0 map_option.identity)
      have heap: "hk_heap ?t = (hk_heap s)[i := ?st\<lparr>ss_logicalCursor := c'\<rparr>]" by simp
      have "unat c' \<le> length (fst v)" using st(4) by (simp add: cl(5))
      then have f: "fits en cont plain x i ?t"
        using v(1) assms(3) by (intro fits_frame [OF assms(1) _ _ heap]) (auto intro: state_ok_cursor)
      have "view_by cont ?t x i = (fst v, unat c')"
        using v(1) i assms(3) by (auto simp: view_by_def position_in_def)
      moreover have len: "length ?payload = ?k" unfolding payload by (simp add: min.commute)
      have "u64_of_u32 (rc_size cl) = word_of_nat (length ?payload)"
        by (rule eq_word_of_nat, subst unat_u64_of_u32) (rule trans [OF cl(4) len [symmetric]])
      ultimately have "(r, view_by cont s' x i) = ref_read buffer toRead (view_by cont s x i)"
        unfolding e view ref_read_def Let_def fst_conv snd_conv by (simp only: payload [symmetric] cl(5) len)
      then show ?thesis using works_then(2) [OF w1] f by (simp add: e)
    qed
  qed
  then show "works en cont plain x i s s'" "fits en cont plain x i s'" "hk_native s' = hk_native s"
    "r = (kFileError, buffer, 0) \<and> view_by cont s' x i = view_by cont s x i \<or>
     (r, view_by cont s' x i) = ref_read buffer toRead (view_by cont s x i)" by blast+
qed

end
