(* ===== verification/StreamNative.thy ===== *)
theory StreamNative
  imports StreamServe
begin

text \<open>
  Reads of the native stream, the cursor tracked beside them, and the capture of what they
  return: a capture holds a prefix of the contents, so a completed one is the whole payload.
\<close>

section \<open>Calls of the game\<close>

lemma works_native:
  "cont (hk_native s) x = Some v \<Longrightarrow> cont n = (cont (hk_native s))(x \<mapsto> v') \<Longrightarrow> fst v' = fst v \<Longrightarrow>
     same_fields en (hk_native s) n \<Longrightarrow> works en cont plain x i s (s\<lparr>hk_native := n\<rparr>)"
  by (simp add: works_def)

lemma on_native_read:
  assumes "engine_ok en cont" "cont (hk_native s) x = Some v" "toRead = 0 \<or> buffer \<noteq> None"
    and "CallOriginalCompressedRead en env x buffer toRead read s = (r, s')"
  shows "r = fst (ref_read buffer toRead v)" "works en cont plain x i s s'" "hk_heap s' = hk_heap s"
    "hk_cache s' = hk_cache s" "cont (hk_native s') = (cont (hk_native s))(x \<mapsto> snd (ref_read buffer toRead v))"
    "hk_shards s' = hk_shards s"
proof -
  obtain n where n: "en_read en x buffer toRead read (hk_native s) = (fst (ref_read buffer toRead v), n)"
    "cont n = (cont (hk_native s))(x \<mapsto> snd (ref_read buffer toRead v))" "same_fields en (hk_native s) n"
    using engine_read [OF assms(1-3)] by blast
  let ?f = "\<lambda>r. RecordPath toRead (snd (snd r)) (fst r \<noteq> kNone) (he_ticks env)"
  have e: "r = fst (ref_read buffer toRead v)"
    "s' = record_path (measures env) ht_decompressorPath_update (?f r) (s\<lparr>hk_native := n\<rparr>)"
    using assms(4) n(1) by (auto simp: CallOriginalCompressedRead_def on_native_def split_beta)
  have "works en cont plain x i s (s\<lparr>hk_native := n\<rparr>)"
    by (rule works_native [OF assms(2) n(2) _ n(3)]) simp
  then show "r = fst (ref_read buffer toRead v)" "works en cont plain x i s s'" "hk_heap s' = hk_heap s"
    "hk_cache s' = hk_cache s" "cont (hk_native s') = (cont (hk_native s))(x \<mapsto> snd (ref_read buffer toRead v))"
    "hk_shards s' = hk_shards s"
    using e n(2) by (simp_all add: works_then)
qed

lemma on_native_seek:
  assumes "engine_ok en cont" "cont (hk_native s) x = Some v"
    and "on_native (en_seek en x offset mode position) s = (r, s')"
  shows "r = fst (ref_seek offset mode position v)" "works en cont plain x i s s'" "hk_heap s' = hk_heap s"
    "hk_cache s' = hk_cache s" "cont (hk_native s') = (cont (hk_native s))(x \<mapsto> snd (ref_seek offset mode position v))"
    "s' = s\<lparr>hk_native := hk_native s'\<rparr>" "same_fields en (hk_native s) (hk_native s')"
proof -
  obtain n where n: "en_seek en x offset mode position (hk_native s) = (fst (ref_seek offset mode position v), n)"
    "cont n = (cont (hk_native s))(x \<mapsto> snd (ref_seek offset mode position v))" "same_fields en (hk_native s) n"
    using engine_seek [OF assms(1,2)] by blast
  have e: "r = fst (ref_seek offset mode position v)" "s' = s\<lparr>hk_native := n\<rparr>"
    using assms(3) n(1) by (auto simp: on_native_def)
  show "works en cont plain x i s s'"
    unfolding e(2) by (rule works_native [OF assms(2) n(2) _ n(3)]) simp
  show "r = fst (ref_seek offset mode position v)" "hk_heap s' = hk_heap s"
    "hk_cache s' = hk_cache s" "cont (hk_native s') = (cont (hk_native s))(x \<mapsto> snd (ref_seek offset mode position v))"
    "s' = s\<lparr>hk_native := hk_native s'\<rparr>" "same_fields en (hk_native s) (hk_native s')"
    using e n(2,3) by simp_all
qed

text \<open>A cursor query finds the native position and does not move it.\<close>

lemma Query_cases:
  assumes "engine_ok en cont" "cont (hk_native s) x = Some v" "totalSize \<noteq> 0 \<longrightarrow> unat totalSize = length (fst v)"
    and "QueryCompressedLogicalCursor en x totalSize s = (r, s')"
  shows "\<exists>c. r = Some c \<and> unat c = snd v" "works en cont plain x i s s'" "hk_heap s' = hk_heap s"
    "hk_cache s' = hk_cache s" "cont (hk_native s') = cont (hk_native s)" "s' = s\<lparr>hk_native := hk_native s'\<rparr>"
    "same_fields en (hk_native s) (hk_native s')"
proof -
  have wf: "stream_wf v" by (rule engine_wf [OF assms(1,2)])
  obtain q t where q: "on_native (en_seek en x 0 SeekCur 0) s = (q, t)" by fastforce
  note sk = on_native_seek [OF assms(1,2) q]
  have qv: "q = (kNone, word_of_nat (snd v))" using sk(1) by (simp add: ref_seek_query [OF wf])
  have p: "snd v < 4294967296" "snd v \<le> length (fst v)" using wf by (auto simp: stream_wf_def)
  then have u: "unat (word_of_nat (snd v) :: u64) = snd v" by (simp add: unat_of_nat take_bit_nat_eq_self)
  have guard: "(totalSize = 0 \<or> word_of_nat (snd v) \<le> u64_of_u32 totalSize) \<and> word_of_nat (snd v) \<le> u64_of_u32 u32_max"
    using p assms(3) by (auto simp: word_le_nat_alt u)
  have e: "r = Some (u32_of_u64 (word_of_nat (snd v)))" "s' = t"
    using assms(4) q guard by (auto simp: QueryCompressedLogicalCursor_def qv)
  show "\<exists>c. r = Some c \<and> unat c = snd v" using p u by (simp add: e)
  show "works en cont plain x i s s'" "hk_heap s' = hk_heap s" "hk_cache s' = hk_cache s"
    "s' = s\<lparr>hk_native := hk_native s'\<rparr>" "same_fields en (hk_native s) (hk_native s')"
    unfolding e(2) by (rule sk)+
  show "cont (hk_native s') = cont (hk_native s)"
    using sk(5) assms(2) by (simp add: e ref_seek_query [OF wf] fun_upd_idem)
qed

section \<open>Captures\<close>

lemma state_ok_recapture:
  assumes "state_ok plain views v st" "ss_identity st' = ss_identity st" "ss_cacheData st' = ss_cacheData st"
    "ss_cacheSize st' = ss_cacheSize st" "ss_cacheOwner st' = ss_cacheOwner st"
    "ss_logicalCursor st' = ss_logicalCursor st" "ss_cursorKnown st' = ss_cursorKnown st"
    "ss_cacheLookupAttempted st' = ss_cacheLookupAttempted st"
    and "ss_captureStatus st' = kCaptureActive \<Longrightarrow> ss_cacheData st = None \<and>
      si_totalSize (ss_identity st) \<noteq> 0 \<and> unat (ss_nextCaptureOffset st') \<le> length (fst v) \<and>
      ss_captureBuffer st' = take (unat (ss_nextCaptureOffset st')) (fst v)"
  shows "state_ok plain views v st'"
  using assms by (auto simp: state_ok_def)

text \<open>A capture step changes the capture fields of the state, the budget and the counters.\<close>

definition same_but_capture :: "CompressedStreamState \<Rightarrow> CompressedStreamState \<Rightarrow> bool" where
  "same_but_capture st st' \<longleftrightarrow>
     ss_identity st' = ss_identity st \<and> ss_cacheData st' = ss_cacheData st \<and> ss_retired st' = ss_retired st \<and>
     ss_cacheSize st' = ss_cacheSize st \<and> ss_cacheOwner st' = ss_cacheOwner st \<and>
     ss_logicalCursor st' = ss_logicalCursor st \<and> ss_cursorKnown st' = ss_cursorKnown st \<and>
     ss_cacheLookupAttempted st' = ss_cacheLookupAttempted st"

definition captures :: "nat \<Rightarrow> 'n hooks \<Rightarrow> 'n hooks \<Rightarrow> bool" where
  "captures i s s' \<longleftrightarrow> hk_native s' = hk_native s \<and> hk_cache s' = hk_cache s \<and>
     length (hk_heap s') = length (hk_heap s) \<and> (\<forall>j. j \<noteq> i \<longrightarrow> hk_heap s' ! j = hk_heap s ! j) \<and>
     same_but_capture (hk_heap s ! i) (hk_heap s' ! i) \<and>
     hk_hooksActive s' = hk_hooksActive s \<and> hk_engineLoadActive s' = hk_engineLoadActive s \<and>
     hk_sources s' = hk_sources s \<and> hk_manager s' = hk_manager s \<and> hk_shards s' = hk_shards s \<and>
     hk_thread s' = hk_thread s \<and> hk_memo s' = hk_memo s \<and> hk_pins s' = hk_pins s"

lemma captures_refl [simp]: "captures i s s"
  by (simp add: captures_def same_but_capture_def)

lemma captures_trans: "captures i s t \<Longrightarrow> captures i t u \<Longrightarrow> captures i s u"
  by (simp add: captures_def same_but_capture_def)

lemma captures_works: "captures i s s' \<Longrightarrow> works en cont plain x i s s'"
  by (simp add: captures_def same_but_capture_def works_def same_fields_def)

lemma captures_view: "captures i s s' \<Longrightarrow> view_by cont s' x i = view_by cont s x i"
  by (simp add: captures_def same_but_capture_def view_by_def position_in_def)

lemma captures_update:
  "(\<And>st. same_but_capture st (f st)) \<Longrightarrow> captures i s (update_state i f s)"
  by (cases "i < length (hk_heap s)") (simp_all add: captures_def same_but_capture_def list_update_beyond not_less)

lemma captures_count: "captures i s (count_stat b k n s)" "captures i s (s\<lparr>hk_budget := bb\<rparr>)"
  "captures i s (release_charge n s)"
  by (simp_all add: captures_def same_but_capture_def)

lemma captures_then:
  "captures i s t \<Longrightarrow> captures i s (count_stat b k n t)" "captures i s t \<Longrightarrow> captures i s (t\<lparr>hk_budget := bb\<rparr>)"
  "captures i s t \<Longrightarrow> captures i s (release_charge n t)"
  "captures i s t \<Longrightarrow> (\<And>st. same_but_capture st (f st)) \<Longrightarrow> captures i s (update_state i f t)"
  by (blast intro: captures_trans captures_count captures_update)+

lemma captures_clear: "captures i s t \<Longrightarrow> captures i s (ClearCaptureBuffer i t)"
  "captures i s t \<Longrightarrow> captures i s (set_capture status i t)"
  by (auto simp: ClearCaptureBuffer_def set_capture_def same_but_capture_def intro!: captures_then)

lemma captures_abandon: "captures i s t \<Longrightarrow> captures i s (abandon_capture i t)"
  "captures i s t \<Longrightarrow> captures i s (ResetCaptureAfterSeek i off t)"
  by (auto simp: abandon_capture_def ResetCaptureAfterSeek_def same_but_capture_def
      intro!: captures_clear captures_then)

lemma captures_fits:
  assumes "fits en cont plain x i s" "captures i s s'"
    and "\<And>v. cont (hk_native s) x = Some v \<Longrightarrow> state_ok plain (dc_views (hk_cache s)) v (hk_heap s ! i) \<Longrightarrow>
      ss_captureStatus (hk_heap s' ! i) = kCaptureActive \<Longrightarrow> ss_cacheData (hk_heap s ! i) = None \<and>
      si_totalSize (ss_identity (hk_heap s ! i)) \<noteq> 0 \<and> unat (ss_nextCaptureOffset (hk_heap s' ! i)) \<le> length (fst v) \<and>
      ss_captureBuffer (hk_heap s' ! i) = take (unat (ss_nextCaptureOffset (hk_heap s' ! i))) (fst v)"
  shows "fits en cont plain x i s'"
proof -
  obtain v where v: "cont (hk_native s) x = Some v" "state_ok plain (dc_views (hk_cache s)) v (hk_heap s ! i)"
    and i: "i < length (hk_heap s)" and c: "cache_truthful plain (hk_cache s)"
    using assms(1) unfolding fits_def by blast
  have c': "hk_native s' = hk_native s" "hk_cache s' = hk_cache s" "length (hk_heap s') = length (hk_heap s)"
    "same_but_capture (hk_heap s ! i) (hk_heap s' ! i)"
    using assms(2) by (simp_all add: captures_def)
  have "state_ok plain (dc_views (hk_cache s)) v (hk_heap s' ! i)"
    using v(2) assms(3) [OF v] c'(4) by (intro state_ok_recapture [OF v(2)]) (simp_all add: same_but_capture_def)
  then show ?thesis using v(1) c i c'(1-3) by (intro fitsI [where v = v]) simp_all
qed

text \<open>Without an active capture nothing is left to show.\<close>

lemma captures_fits_idle:
  "fits en cont plain x i s \<Longrightarrow> captures i s s' \<Longrightarrow> ss_captureStatus (hk_heap s' ! i) \<noteq> kCaptureActive \<Longrightarrow>
     fits en cont plain x i s'"
  by (rule captures_fits) simp_all

lemma fits_idle:
  assumes "fits en cont plain x i s"
  shows "fits en cont plain x i (abandon_capture i s)"
    "status \<noteq> kCaptureActive \<Longrightarrow> fits en cont plain x i (set_capture status i s)"
    "fits en cont plain x i (ResetCaptureAfterSeek i off s)"
proof -
  have i: "i < length (hk_heap s)" using assms by (simp add: fits_def)
  have "ss_captureStatus (hk_heap (abandon_capture i s) ! i) \<noteq> kCaptureActive"
    "ss_captureStatus (hk_heap (ResetCaptureAfterSeek i off s) ! i) \<noteq> kCaptureActive"
    "ss_captureStatus (hk_heap (set_capture status i s) ! i) = status"
    using i by (simp_all add: abandon_capture_def set_capture_def ResetCaptureAfterSeek_def)
  then show "fits en cont plain x i (abandon_capture i s)"
    "status \<noteq> kCaptureActive \<Longrightarrow> fits en cont plain x i (set_capture status i s)"
    "fits en cont plain x i (ResetCaptureAfterSeek i off s)"
    by (auto intro!: captures_fits_idle [OF assms] captures_abandon captures_clear)
qed

end
