(* ===== verification/StreamCapture.thy ===== *)
theory StreamCapture
  imports StreamNative
begin

text \<open>
  The native read under the mutex: the capture is planned, the game reads, the cursor follows,
  and the bytes read are appended; a completed capture is recorded as the entry's payload.
\<close>

lemma BeginCapture_cases:
  assumes "i < length (hk_heap s)" "BeginCapture env i totalSize s = (b, s')"
  shows "captures i s s'" "\<not> b \<Longrightarrow> ss_captureStatus (hk_heap s' ! i) = kCaptureInvalid"
    "b \<Longrightarrow> ss_captureStatus (hk_heap s' ! i) = kCaptureActive \<and> ss_nextCaptureOffset (hk_heap s' ! i) = 0 \<and>
       ss_captureBuffer (hk_heap s' ! i) = []"
proof -
  have "captures i s (snd (BeginCapture env i totalSize s))"
    by (auto simp: BeginCapture_def Let_def same_but_capture_def split: prod.split bool.split
        intro!: captures_then captures_clear captures_abandon)
  then show "captures i s s'" using assms(2) by simp
  have "if b then ss_captureStatus (hk_heap s' ! i) = kCaptureActive \<and> ss_nextCaptureOffset (hk_heap s' ! i) = 0 \<and>
       ss_captureBuffer (hk_heap s' ! i) = [] else ss_captureStatus (hk_heap s' ! i) = kCaptureInvalid"
    using assms
    by (auto simp: BeginCapture_def Let_def set_capture_def abandon_capture_def split: prod.splits bool.splits if_splits)
  then show "\<not> b \<Longrightarrow> ss_captureStatus (hk_heap s' ! i) = kCaptureInvalid"
    "b \<Longrightarrow> ss_captureStatus (hk_heap s' ! i) = kCaptureActive \<and> ss_nextCaptureOffset (hk_heap s' ! i) = 0 \<and>
       ss_captureBuffer (hk_heap s' ! i) = []" by simp_all
qed

text \<open>What is appended to a capture once it has begun.\<close>

definition append_active :: "hook_env \<Rightarrow> nat \<Rightarrow> u32 \<Rightarrow> bytes \<Rightarrow> u64 \<Rightarrow> 'n hooks \<Rightarrow> bool \<times> (bytes \<times> u64) \<times> 'n hooks" where
  "append_active env i totalSize data read s1 =
     (if ss_captureStatus (hk_heap s1 ! i) \<noteq> kCaptureActive \<or>
         read > u64_of_u32 (totalSize - ss_nextCaptureOffset (hk_heap s1 ! i)) \<or> he_appendThrows env
      then (False, ([], 0), abandon_capture i s1)
      else
        let s2 = update_state i (\<lambda>st. st\<lparr>ss_captureBuffer := ss_captureBuffer st @ take (unat read) data,
                   ss_nextCaptureOffset := ss_nextCaptureOffset st + u32_of_u64 read\<rparr>) s1;
            st = hk_heap s2 ! i
        in if ss_nextCaptureOffset st = totalSize \<and> length (ss_captureBuffer st) = unat totalSize
           then (True, (ss_captureBuffer st, ss_accountedCaptureBytes st),
                 count_stat True ht_capturesCompleted_update 1
                   (update_state i (\<lambda>st. st\<lparr>ss_accountedCaptureBytes := 0, ss_captureBuffer := [],
                      ss_captureStatus := kCaptureCompleted\<rparr>) s2))
           else (True, ([], 0), s2))"

lemma AppendCapture_unfold:
  "AppendCapture env i totalSize (Some data) read begins s =
     (if read = 0 \<or> ss_nextCaptureOffset (hk_heap s ! i) > totalSize \<or>
         read > u64_of_u32 (totalSize - ss_nextCaptureOffset (hk_heap s ! i))
      then (False, ([], 0), abandon_capture i s)
      else if begins then
        (case BeginCapture env i totalSize s of
           (False, s1) \<Rightarrow> (False, ([], 0), s1)
         | (True, s1) \<Rightarrow> append_active env i totalSize data read s1)
      else append_active env i totalSize data read s)"
  by (simp add: AppendCapture_def append_active_def Let_def split: prod.split bool.split)

lemma append_active_cases:
  assumes "i < length (hk_heap s)" "append_active env i totalSize data read s = (ok, completed, s')"
    and "unat totalSize = length bs" "ss_captureBuffer (hk_heap s ! i) = take p bs"
    and "p = unat (ss_nextCaptureOffset (hk_heap s ! i))" "p + unat read \<le> length bs"
    and "take (unat read) data = take (unat read) (drop p bs)"
  shows "captures i s s'" "fst completed = [] \<or> fst completed = bs"
    "ss_captureStatus (hk_heap s' ! i) = kCaptureActive \<Longrightarrow>
       unat (ss_nextCaptureOffset (hk_heap s' ! i)) \<le> length bs \<and>
       ss_captureBuffer (hk_heap s' ! i) = take (unat (ss_nextCaptureOffset (hk_heap s' ! i))) bs"
proof -
  let ?st = "hk_heap s ! i" and ?b = "take (p + unat read) bs"
  have "length bs < 2 ^ 32" by (simp flip: assms(3))
  then have next': "unat (ss_nextCaptureOffset ?st + u32_of_u64 read) = p + unat read"
    using assms(5,6) by (subst unat_add_noovf) simp_all
  have buf: "take p bs @ take (unat read) data = ?b"
    using assms(7) by (simp add: take_add)
  let ?s2 = "update_state i (\<lambda>st. st\<lparr>ss_captureBuffer := ss_captureBuffer st @ take (unat read) data,
      ss_nextCaptureOffset := ss_nextCaptureOffset st + u32_of_u64 read\<rparr>) s"
  have st2: "hk_heap ?s2 ! i = ?st\<lparr>ss_captureBuffer := ?b, ss_nextCaptureOffset := ss_nextCaptureOffset ?st + u32_of_u64 read\<rparr>"
    using assms(1,4) buf by simp
  let ?done = "count_stat True ht_capturesCompleted_update 1
      (update_state i (\<lambda>st. st\<lparr>ss_accountedCaptureBytes := 0, ss_captureBuffer := [], ss_captureStatus := kCaptureCompleted\<rparr>) ?s2)"
  have c2: "captures i s ?s2" "captures i s ?done"
    by (auto intro!: captures_then simp: same_but_capture_def)
  have full: "?b = bs" if "ss_nextCaptureOffset ?st + u32_of_u64 read = totalSize"
    using next' assms(3) that by simp
  consider "completed = ([], 0)" "s' = abandon_capture i s"
    | "fst completed = bs" "s' = ?done"
    | "completed = ([], 0)" "s' = ?s2"
    using assms(2) full unfolding append_active_def Let_def st2 by (auto split: if_splits)
  then have "captures i s s' \<and> (fst completed = [] \<or> fst completed = bs) \<and>
    (ss_captureStatus (hk_heap s' ! i) = kCaptureActive \<longrightarrow>
       unat (ss_nextCaptureOffset (hk_heap s' ! i)) \<le> length bs \<and>
       ss_captureBuffer (hk_heap s' ! i) = take (unat (ss_nextCaptureOffset (hk_heap s' ! i))) bs)"
  proof cases
    case 1
    then show ?thesis
      using assms(1) captures_abandon(1) [OF captures_refl] by (simp add: abandon_capture_def set_capture_def)
  next
    case 2
    then show ?thesis using assms(1) c2(2) by simp
  next
    case 3
    then show ?thesis using assms(6) c2(1) next' unfolding 3(2) st2 by simp
  qed
  then show "captures i s s'" "fst completed = [] \<or> fst completed = bs"
    "ss_captureStatus (hk_heap s' ! i) = kCaptureActive \<Longrightarrow>
       unat (ss_nextCaptureOffset (hk_heap s' ! i)) \<le> length bs \<and>
       ss_captureBuffer (hk_heap s' ! i) = take (unat (ss_nextCaptureOffset (hk_heap s' ! i))) bs" by blast+
qed

lemma AppendCapture_cases:
  assumes "fits en cont plain x i s" "AppendCapture env i totalSize (Some data) read begins s = (ok, completed, s')"
    and "ss_cacheData (hk_heap s ! i) = None" "totalSize = si_totalSize (ss_identity (hk_heap s ! i))"
    and "cont (hk_native s) x = Some v" "totalSize \<noteq> 0"
    and "\<not> begins \<longrightarrow> ss_captureStatus (hk_heap s ! i) = kCaptureActive"
    and "p = (if begins then 0 else unat (ss_nextCaptureOffset (hk_heap s ! i)))"
    and "take (unat read) data = take (unat read) (drop p (fst v))" "p + unat read \<le> length (fst v)"
  shows "fits en cont plain x i s'" "captures i s s'" "fst completed = [] \<or> fst completed = fst v"
proof -
  have i: "i < length (hk_heap s)" and ok: "state_ok plain (dc_views (hk_cache s)) v (hk_heap s ! i)"
    using assms(1,5) by (auto simp: fits_def)
  have len: "unat totalSize = length (fst v)"
    using ok assms(4,6) by (simp add: state_ok_def identity_ok_def)
  have fit: "fits en cont plain x i s'" if "captures i s s'"
    "ss_captureStatus (hk_heap s' ! i) = kCaptureActive \<Longrightarrow>
       unat (ss_nextCaptureOffset (hk_heap s' ! i)) \<le> length (fst v) \<and>
       ss_captureBuffer (hk_heap s' ! i) = take (unat (ss_nextCaptureOffset (hk_heap s' ! i))) (fst v)" for s'
    by (rule captures_fits [OF assms(1) that(1)]) (use that(2) assms(3,4,5,6) in auto)
  have "fits en cont plain x i s' \<and> captures i s s' \<and> (fst completed = [] \<or> fst completed = fst v)"
  proof (cases "read = 0 \<or> ss_nextCaptureOffset (hk_heap s ! i) > totalSize \<or>
         read > u64_of_u32 (totalSize - ss_nextCaptureOffset (hk_heap s ! i))")
    case True
    then have "completed = ([], 0)" "s' = abandon_capture i s"
      using assms(2) by (auto simp: AppendCapture_unfold)
    then show ?thesis using fits_idle(1) [OF assms(1)] captures_abandon(1) [OF captures_refl] by simp
  next
    case go: False
    show ?thesis
    proof (cases begins)
      case False
      then have act: "append_active env i totalSize data read s = (ok, completed, s')"
        using assms(2) go by (simp add: AppendCapture_unfold)
      have "ss_captureBuffer (hk_heap s ! i) = take p (fst v)" "p = unat (ss_nextCaptureOffset (hk_heap s ! i))"
        using ok assms(7,8) False by (auto simp: state_ok_def)
      note ac = append_active_cases [OF i act len this assms(10,9)]
      show ?thesis using fit [OF ac(1,3)] ac(1,2) by blast
    next
      case True
      obtain b s1 where b: "BeginCapture env i totalSize s = (b, s1)" by fastforce
      note bg = BeginCapture_cases [OF i b]
      have i1: "i < length (hk_heap s1)" using i bg(1) by (simp add: captures_def)
      show ?thesis
      proof (cases b)
        case False
        then have "completed = ([], 0)" "s' = s1"
          using assms(2) go True b by (auto simp: AppendCapture_unfold)
        then show ?thesis using fit [OF bg(1)] bg(1,2) False by simp
      next
        case active: True
        then have act: "append_active env i totalSize data read s1 = (ok, completed, s')"
          using assms(2) go True b by (simp add: AppendCapture_unfold)
        have "ss_captureBuffer (hk_heap s1 ! i) = take p (fst v)" "p = unat (ss_nextCaptureOffset (hk_heap s1 ! i))"
          using bg(3) [OF active] assms(8) True by simp_all
        note ac = append_active_cases [OF i1 act len this assms(10,9)]
        have c: "captures i s s'" by (rule captures_trans [OF bg(1) ac(1)])
        show ?thesis using fit [OF c ac(3)] c ac(2) by blast
      qed
    qed
  qed
  then show "fits en cont plain x i s'" "captures i s s'" "fst completed = [] \<or> fst completed = fst v" by blast+
qed

section \<open>The native read\<close>

lemma plan_capture_cases:
  assumes "fits en cont plain x i s" "plan_capture env ls identity i s = ((ap, bg), s')"
  shows "captures i s s'" "fits en cont plain x i s'"
    "ap \<Longrightarrow> s' = s \<and> si_archive identity \<noteq> None \<and> si_totalSize identity \<noteq> 0 \<and>
       (if bg then ss_logicalCursor (hk_heap s ! i) = 0
        else ss_captureStatus (hk_heap s ! i) = kCaptureActive \<and>
          ss_logicalCursor (hk_heap s ! i) = ss_nextCaptureOffset (hk_heap s ! i))"
proof -
  consider "ap" "s' = s" "capture_enabled env ls identity i s"
      "bg \<longrightarrow> ss_logicalCursor (hk_heap s ! i) = 0"
      "\<not> bg \<longrightarrow> ss_captureStatus (hk_heap s ! i) = kCaptureActive \<and>
          ss_logicalCursor (hk_heap s ! i) = ss_nextCaptureOffset (hk_heap s ! i)"
    | "\<not> ap" "s' = s" | "\<not> ap" "s' = set_capture kCaptureInvalid i s" | "\<not> ap" "s' = abandon_capture i s"
    using assms(2) by (auto simp: plan_capture_def Let_def split: if_splits)
  then have "captures i s s' \<and> fits en cont plain x i s' \<and> (ap \<longrightarrow>
      s' = s \<and> si_archive identity \<noteq> None \<and> si_totalSize identity \<noteq> 0 \<and>
       (if bg then ss_logicalCursor (hk_heap s ! i) = 0
        else ss_captureStatus (hk_heap s ! i) = kCaptureActive \<and>
          ss_logicalCursor (hk_heap s ! i) = ss_nextCaptureOffset (hk_heap s ! i)))"
  proof cases
    case 1
    then show ?thesis using assms(1) by (simp add: capture_enabled_def Let_def word_gt_0)
  qed (use assms(1) fits_idle [OF assms(1)] captures_clear(2) [OF captures_refl] captures_abandon(1) [OF captures_refl]
      in simp_all)
  then show "captures i s s'" "fits en cont plain x i s'"
    "ap \<Longrightarrow> s' = s \<and> si_archive identity \<noteq> None \<and> si_totalSize identity \<noteq> 0 \<and>
       (if bg then ss_logicalCursor (hk_heap s ! i) = 0
        else ss_captureStatus (hk_heap s ! i) = kCaptureActive \<and>
          ss_logicalCursor (hk_heap s ! i) = ss_nextCaptureOffset (hk_heap s ! i))" by blast+
qed

lemma state_ok_moved:
  "state_ok plain views v st \<Longrightarrow> ss_cacheData st = None \<Longrightarrow> fst v' = fst v \<Longrightarrow> unat c = snd v' \<Longrightarrow>
     state_ok plain views v' (st\<lparr>ss_logicalCursor := c, ss_cursorKnown := True\<rparr>)"
  by (auto simp: state_ok_def)

text \<open>The cursor is set to the native position, whether computed or queried.\<close>

lemma track_progress_cases:
  assumes "engine_ok en cont" "cont (hk_native s) x = Some v'"
    and "si_totalSize identity \<noteq> 0 \<longrightarrow> unat (si_totalSize identity) = length (fst v')"
    and "pr_valid (ValidateNativeProgress (ss_cursorKnown (hk_heap s ! i)) before (si_totalSize identity) toRead read
           (error = kNone) hasBuffer) \<Longrightarrow> unat before + unat read = snd v'"
  shows "\<exists>c t. unat c = snd v' \<and>
      track_progress en x identity before toRead hasBuffer error read i s =
        update_state i (\<lambda>st. st\<lparr>ss_logicalCursor := c, ss_cursorKnown := True\<rparr>) t \<and>
      works en cont plain x i s t \<and> hk_heap t = hk_heap s \<and> hk_cache t = hk_cache s \<and>
      cont (hk_native t) = cont (hk_native s)"
proof -
  let ?p = "ValidateNativeProgress (ss_cursorKnown (hk_heap s ! i)) before (si_totalSize identity) toRead read
           (error = kNone) hasBuffer"
  show ?thesis
  proof (cases "pr_valid ?p")
    case True
    have "unat (pr_cursorAfter ?p) = unat before + (if pr_valid ?p then unat read else 0)"
      using ValidateNativeProgress_cases [of "ss_cursorKnown (hk_heap s ! i)" before "si_totalSize identity"
          toRead read "error = kNone" hasBuffer] unfolding Let_def by blast
    then have "unat (pr_cursorAfter ?p) = snd v'"
      using assms(4) [OF True] unfolding if_P [OF True] by (rule trans)
    then show ?thesis
      by (intro exI [where x = "pr_cursorAfter ?p"] exI [where x = s]) (simp add: track_progress_def Let_def True)
  next
    case False
    obtain q t where q: "QueryCompressedLogicalCursor en x (si_totalSize identity) s = (q, t)" by fastforce
    note qc = Query_cases [OF assms(1-3) q]
    then obtain c where c: "q = Some c" "unat c = snd v'" by blast
    then show ?thesis using qc(2-5)
      by (intro exI [where x = c] exI [where x = t]) (simp add: track_progress_def Let_def False q)
  qed
qed

lemma record_completed_cases:
  assumes "fits en cont plain x i s" "identity_ok plain bs identity" "si_archive identity \<noteq> None"
    and "fst completed = [] \<or> fst completed = bs"
  shows "works en cont plain x i s (record_completed env identity completed s)"
    "fits en cont plain x i (record_completed env identity completed s)"
    "view_by cont (record_completed env identity completed s) x i = view_by cont s x i"
proof -
  let ?s' = "record_completed env identity completed s"
  have sel: "hk_heap ?s' = hk_heap s" "hk_native ?s' = hk_native s"
    by (simp_all add: record_completed_def)
  obtain v where v: "cont (hk_native s) x = Some v" "state_ok plain (dc_views (hk_cache s)) v (hk_heap s ! i)"
    and i: "i < length (hk_heap s)" and c: "cache_truthful plain (hk_cache s)"
    using assms(1) unfolding fits_def by blast
  have k: "(cache_truthful plain (hk_cache s) \<longrightarrow> cache_truthful plain (hk_cache ?s')) \<and>
    views_kept (hk_cache s) (hk_cache ?s')"
  proof (cases "fst completed = []")
    case True
    then show ?thesis by (simp add: record_completed_def)
  next
    case False
    obtain a where a: "si_archive identity = Some a" using assms(3) by blast
    have p: "fst completed = plain a (si_startOffset identity)"
      using assms(2,4) False a by (simp add: identity_ok_def)
    obtain thrown k where rec: "RecordDecompressed (hs_cache (he_cfg env)) (he_record env)
        (\<lambda>a. mm_archives (hk_manager s) ! a) (Some a) (si_startOffset identity) (fst completed) (hk_cache s) = (thrown, k)"
      by fastforce
    note tr = truthful_RecordDecompressed [OF c rec p]
    have "hk_cache ?s' = k" using False a rec by (simp add: record_completed_def)
    then show ?thesis using tr by (simp add: views_kept_def)
  qed
  have "record_completed env identity completed s = s\<lparr>hk_cache := hk_cache ?s', hk_budget := hk_budget ?s'\<rparr>"
    by (simp add: record_completed_def release_charge_def)
  moreover have "works en cont plain x i s (s\<lparr>hk_cache := hk_cache ?s', hk_budget := hk_budget ?s'\<rparr>)"
    using k by (simp add: works_def same_fields_def)
  ultimately show "works en cont plain x i s ?s'" by metis
  show "fits en cont plain x i ?s'"
    using v i c k state_ok_views [OF v(2)] by (intro fitsI [where v = v]) (simp_all add: sel)
  show "view_by cont ?s' x i = view_by cont s x i" by (simp add: view_by_def sel)
qed

end
