(* ===== verification/StreamPhases.thy ===== *)
theory StreamPhases
  imports StreamCapture
begin

text \<open>
  The parts of a read and of a seek that run under the I/O mutex of a registered state: each
  has the meaning of the stream, and leaves its state in order.
\<close>

text \<open>The outcome of a read: a file error that changes nothing, or the bytes at the position.\<close>

definition read_outcome :: "bytes option \<Rightarrow> u64 \<Rightarrow> bytes \<times> nat \<Rightarrow> ErrorCode \<times> bytes option \<times> u64 \<Rightarrow>
    bytes \<times> nat \<Rightarrow> bool" where
  "read_outcome buffer toRead v r v' \<longleftrightarrow>
     r = (kFileError, buffer, 0) \<and> v' = v \<or> (r, v') = ref_read buffer toRead v"

section \<open>The native read\<close>

lemma finish_capture_cases:
  assumes "fits en cont plain x i s" "finish_capture env identity bg toRead (kNone, copy_to buffer payload, n) i s = (completed, s')"
    and "cont (hk_native s) x = Some v" "ss_cacheData (hk_heap s ! i) = None" "identity = ss_identity (hk_heap s ! i)"
    and "si_totalSize identity \<noteq> 0" "\<not> bg \<longrightarrow> ss_captureStatus (hk_heap s ! i) = kCaptureActive"
    and "p = (if bg then 0 else unat (ss_nextCaptureOffset (hk_heap s ! i)))"
    and "unat n = length payload" "payload = take (length payload) (drop p (fst v))" "p + length payload \<le> length (fst v)"
  shows "captures i s s'" "fits en cont plain x i s'" "fst completed = [] \<or> fst completed = fst v"
proof -
  have drop: "captures i s s \<and> captures i s (abandon_capture i s) \<and> fits en cont plain x i s \<and>
      fits en cont plain x i (abandon_capture i s)"
    using assms(1) fits_idle(1) [OF assms(1)] captures_abandon(1) [OF captures_refl] by simp
  have "captures i s s' \<and> fits en cont plain x i s' \<and> (fst completed = [] \<or> fst completed = fst v)"
  proof (cases "completed = ([], 0) \<and> (s' = s \<or> s' = abandon_capture i s)")
    case True
    then show ?thesis using drop by auto
  next
    case False
    then obtain data ok where app: "copy_to buffer payload = Some data"
      "AppendCapture env i (si_totalSize identity) (Some data) n bg s = (ok, completed, s')"
      using assms(2) by (auto simp: finish_capture_def Let_def split: if_splits prod.splits)
    have "take (unat n) data = payload" using app(1) assms(9) by (auto simp: copy_to_def)
    also have "\<dots> = take (unat n) (drop p (fst v))" using assms(9,10) by simp
    finally have "take (unat n) data = take (unat n) (drop p (fst v))" .
    note ac = AppendCapture_cases [OF assms(1) app(2) assms(4) _ assms(3,6,7,8) this]
    then show ?thesis using assms(5,9,11) by simp
  qed
  then show "captures i s s'" "fits en cont plain x i s'" "fst completed = [] \<or> fst completed = fst v" by blast+
qed

text \<open>Reading and tracking together move the state with the stream.\<close>

lemma read_and_track:
  fixes buffer
  assumes "fits en cont plain x i s" "engine_ok en cont" "ss_cacheData (hk_heap s ! i) = None"
    and "unat before = snd (view_by cont s x i)" "identity = ss_identity (hk_heap s ! i)"
    and "toRead = 0 \<or> buffer \<noteq> None" "CallOriginalCompressedRead en env x buffer toRead 0 s = ((error, buffer', read), t)"
  defines "s' \<equiv> track_progress en x identity before toRead (buffer \<noteq> None) error read i t"
  shows "works en cont plain x i s s'" "fits en cont plain x i s'" "ss_cacheData (hk_heap s' ! i) = None"
    "same_but_capture ((hk_heap s ! i)\<lparr>ss_logicalCursor := 0, ss_cursorKnown := True\<rparr>)
       ((hk_heap s' ! i)\<lparr>ss_logicalCursor := 0\<rparr>)"
    "ss_captureStatus (hk_heap s' ! i) = ss_captureStatus (hk_heap s ! i)"
    "ss_nextCaptureOffset (hk_heap s' ! i) = ss_nextCaptureOffset (hk_heap s ! i)"
    "((error, buffer', read), view_by cont s' x i) = ref_read buffer toRead (view_by cont s x i)"
proof -
  let ?st = "hk_heap s ! i"
  obtain v where v: "cont (hk_native s) x = Some v" "state_ok plain (dc_views (hk_cache s)) v ?st"
    and i: "i < length (hk_heap s)" and c: "cache_truthful plain (hk_cache s)"
    using assms(1) unfolding fits_def by blast
  have wf: "stream_wf v" using assms(2) v(1) by (rule engine_wf)
  have view: "view_by cont s x i = v" by (rule view_by_cached(2) [of cont, OF v(1) assms(3)])
  note rd = on_native_read [OF assms(2) v(1) assms(6,7)]
  define payload where "payload = take (unat toRead) (drop (snd v) (fst v))"
  define v' where "v' = snd (ref_read buffer toRead v)"
  have v': "v' = (fst v, snd v + length payload)" by (simp add: v'_def ref_read_def payload_def Let_def)
  have "length payload \<le> length (fst v)" by (simp add: payload_def)
  then have "length payload < 18446744073709551616" using wf by (simp add: stream_wf_def)
  then have len: "unat (word_of_nat (length payload) :: u64) = length payload"
    by (simp add: unat_of_nat take_bit_nat_eq_self)
  have r: "error = kNone" "read = word_of_nat (length payload)"
    using rd(1) by (simp_all add: ref_read_def payload_def Let_def)
  have n: "cont (hk_native t) x = Some v'" using rd(5) by (simp add: v'_def)
  have "identity_ok plain (fst v) identity" using v(2) assms(5) by (simp add: state_ok_def)
  then have "\<exists>c u. unat c = snd v' \<and> s' = update_state i (\<lambda>st. st\<lparr>ss_logicalCursor := c, ss_cursorKnown := True\<rparr>) u \<and>
      works en cont plain x i t u \<and> hk_heap u = hk_heap t \<and> hk_cache u = hk_cache t \<and>
      cont (hk_native u) = cont (hk_native t)"
    using assms(4) unfolding s'_def
    by (intro track_progress_cases [OF assms(2) n]) (auto simp: identity_ok_def v' r len view)
  then obtain c u where u: "unat c = snd v'"
    "s' = update_state i (\<lambda>st. st\<lparr>ss_logicalCursor := c, ss_cursorKnown := True\<rparr>) u"
    "works en cont plain x i t u" "hk_heap u = hk_heap s" "hk_cache u = hk_cache s" "cont (hk_native u) x = Some v'"
    using rd(3,4) n by auto
  show "works en cont plain x i s s'" unfolding u(2)
    by (rule works_then(5) [OF works_trans [OF rd(2) u(3)]]) simp
  have st: "hk_heap s' ! i = ?st\<lparr>ss_logicalCursor := c, ss_cursorKnown := True\<rparr>"
    using i by (simp add: u(2,4))
  have "state_ok plain (dc_views (hk_cache s)) v' (hk_heap s' ! i)"
    unfolding st by (rule state_ok_moved [OF v(2) assms(3) _ u(1)]) (simp add: v')
  then show "fits en cont plain x i s'" using i c u by (intro fitsI [where v = v']) simp_all
  show cd: "ss_cacheData (hk_heap s' ! i) = None" using assms(3) by (simp add: st)
  show "same_but_capture (?st\<lparr>ss_logicalCursor := 0, ss_cursorKnown := True\<rparr>)
      ((hk_heap s' ! i)\<lparr>ss_logicalCursor := 0\<rparr>)"
    by (simp add: st same_but_capture_def)
  show "ss_captureStatus (hk_heap s' ! i) = ss_captureStatus ?st"
    "ss_nextCaptureOffset (hk_heap s' ! i) = ss_nextCaptureOffset ?st" by (simp_all add: st)
  have "cont (hk_native s') x = Some v'" using u(2,6) by simp
  then have "view_by cont s' x i = v'" using cd by (rule view_by_cached(2))
  then show "((error, buffer', read), view_by cont s' x i) = ref_read buffer toRead (view_by cont s x i)"
    using rd(1) by (simp add: v'_def view)
qed

lemma read_native_cases:
  assumes "fits en cont plain x i s" "engine_ok en cont" "ss_cacheData (hk_heap s ! i) = None"
    and "ss_cursorKnown (hk_heap s ! i)" "identity = ss_identity (hk_heap s ! i)"
    and "toRead = 0 \<or> buffer \<noteq> None" "read_native en env x buffer toRead ls identity i s = (r, s')"
  shows "works en cont plain x i s s'" "fits en cont plain x i s'"
    "(r, view_by cont s' x i) = ref_read buffer toRead (view_by cont s x i)"
proof -
  let ?st = "hk_heap s ! i" and ?v = "view_by cont s x i"
  obtain v where v: "cont (hk_native s) x = Some v" "state_ok plain (dc_views (hk_cache s)) v ?st"
    using assms(1) unfolding fits_def by blast
  have view: "?v = v" by (rule view_by_cached(2) [of cont, OF v(1) assms(3)])
  have wf: "stream_wf v" using assms(2) v(1) by (rule engine_wf)
  have cur: "unat (ss_logicalCursor ?st) = snd ?v" using v(2) assms(3,4) by (simp add: state_ok_def view)
  have idok: "identity_ok plain (fst v) identity" using v(2) assms(5) by (simp add: state_ok_def)
  obtain ap bg s1 where plan: "plan_capture env ls identity i s = ((ap, bg), s1)" by (metis prod.exhaust)
  note pl = plan_capture_cases [OF assms(1) plan]
  have same1: "same_but_capture ?st (hk_heap s1 ! i)" and view1: "view_by cont s1 x i = ?v"
    and n1: "hk_native s1 = hk_native s"
    using pl(1) captures_view [OF pl(1)] by (simp_all add: captures_def)
  obtain e b n s2 where orig: "CallOriginalCompressedRead en env x buffer toRead 0 s1 = ((e, b, n), s2)"
    by (metis prod.exhaust)
  let ?t = "track_progress en x identity (ss_logicalCursor ?st) toRead (buffer \<noteq> None) e n i s2"
  have cd1: "ss_cacheData (hk_heap s1 ! i) = None" and id1: "identity = ss_identity (hk_heap s1 ! i)"
    using same1 assms(3,5) by (simp_all add: same_but_capture_def)
  have "unat (ss_logicalCursor ?st) = snd (view_by cont s1 x i)" using cur by (simp add: view1)
  note rt0 = read_and_track [OF pl(2) assms(2) cd1 this id1 assms(6) orig, unfolded view1]
  define T where "T = ?t"
  note rt = rt0 [folded T_def]
  have w3: "works en cont plain x i s T" by (rule works_trans [OF captures_works [OF pl(1)] rt(1)])
  have "r = (e, b, n) \<and> works en cont plain x i s s' \<and> fits en cont plain x i s' \<and> view_by cont s' x i = view_by cont T x i"
  proof (cases ap)
    case False
    then have "r = (e, b, n)" "s' = T"
      using assms(7) plan orig by (auto simp: read_native_def Let_def T_def)
    then show ?thesis using w3 rt(2) by simp
  next
    case True
    note ap = pl(3) [OF True]
    define payload where "payload = take (unat toRead) (drop (snd v) (fst v))"
    have out: "e = kNone" "b = copy_to buffer payload" "n = word_of_nat (length payload)"
      "view_by cont T x i = (fst v, snd v + length payload)"
      using rt(7) unfolding view ref_read_def Let_def payload_def [symmetric] prod.inject by blast+
    have "length payload \<le> length (fst v)" by (simp add: payload_def)
    then have "length payload < 18446744073709551616" using wf by (simp add: stream_wf_def)
    then have len: "unat n = length payload"
      by (simp add: out(3) unat_of_nat take_bit_nat_eq_self)
    obtain completed s4 where fin: "finish_capture env identity bg toRead (e, b, n) i T = (completed, s4)"
      by fastforce
    have fin': "finish_capture env identity bg toRead (kNone, copy_to buffer payload, n) i T = (completed, s4)"
      using fin unfolding out(1,2) .
    have e: "r = (e, b, n)" "s' = record_completed env identity completed s4"
      using assms(7) plan orig True fin by (auto simp: read_native_def Let_def T_def)
    obtain w where w: "cont (hk_native T) x = Some w" using rt(2) unfolding fits_def by blast
    have wv: "fst w = fst v" using out(4) view_by_cached(2) [of cont, OF w rt(3)] by (metis fst_conv)
    have id3: "identity = ss_identity (hk_heap T ! i)"
      using rt(4) id1 by (simp add: same_but_capture_def)
    let ?p = "if bg then 0 else unat (ss_nextCaptureOffset (hk_heap T ! i))"
    have p: "?p = snd v" using ap cur rt(6) by (auto simp: view)
    have "\<not> bg \<longrightarrow> ss_captureStatus (hk_heap T ! i) = kCaptureActive" using ap rt(5) by auto
    moreover have "payload = take (length payload) (drop (snd v) (fst v))" by (simp add: payload_def min_def)
    moreover have "snd v + length payload \<le> length (fst v)" using wf by (auto simp: payload_def stream_wf_def)
    ultimately have fc: "captures i T s4 \<and> fits en cont plain x i s4 \<and> (fst completed = [] \<or> fst completed = fst v)"
      using finish_capture_cases [OF rt(2) fin' w rt(3) id3 _ _ p [symmetric] len] ap wv by simp
    have i4: "works en cont plain x i s s4" "view_by cont s4 x i = view_by cont T x i"
      using works_trans [OF w3 captures_works] captures_view fc by metis+
    have "fits en cont plain x i s4" "fst completed = [] \<or> fst completed = fst v" using fc by blast+
    note rc = record_completed_cases [OF this(1) idok _ this(2)]
    show ?thesis using rc ap e i4 works_trans [OF i4(1) rc(1)] by simp
  qed
  then show "works en cont plain x i s s'" "fits en cont plain x i s'"
    "(r, view_by cont s' x i) = ref_read buffer toRead ?v" using rt(7) by simp_all
qed

end
