(* ===== verification/StreamRegistry.thy ===== *)
theory StreamRegistry
  imports StreamPhases
begin

text \<open>
  The registry of side states: the memo of a thread never answers differently from the table,
  and publishing, replacing and retiring a state keep every other stream as it was.
\<close>

section \<open>What calls keep\<close>

text \<open>A state a suspended call holds is still its stream's, unless it is retired.\<close>

definition belongs :: "'n hooks \<Rightarrow> u64 \<Rightarrow> nat \<Rightarrow> bool" where
  "belongs s x i \<longleftrightarrow> i < length (hk_heap s) \<and> (\<not> ss_retired (hk_heap s ! i) \<longrightarrow> registered s x = Some i)"

definition keeps :: "'n engine \<Rightarrow> ('n \<Rightarrow> u64 \<rightharpoonup> bytes \<times> nat) \<Rightarrow> (nat \<Rightarrow> u32 \<Rightarrow> bytes) \<Rightarrow> (u64 \<Rightarrow> nat option) \<Rightarrow>
    'n hooks \<Rightarrow> 'n hooks \<Rightarrow> bool" where
  "keeps en cont plain owner s s' \<longleftrightarrow> hooks_ok en cont plain owner s' \<and>
     (\<forall>y i. belongs s y i \<longrightarrow> belongs s' y i) \<and>
     (\<forall>env. linked en cont plain owner env s \<longrightarrow> linked en cont plain owner env s') \<and>
     hk_hooksActive s' = hk_hooksActive s \<and> hk_engineLoadActive s' = hk_engineLoadActive s \<and>
     same_fields en (hk_native s) (hk_native s')"

lemma keeps_refl: "hooks_ok en cont plain owner s \<Longrightarrow> keeps en cont plain owner s s"
  by (simp add: keeps_def same_fields_def)

lemma keeps_trans:
  "keeps en cont plain owner s t \<Longrightarrow> keeps en cont plain owner t u \<Longrightarrow> keeps en cont plain owner s u"
  by (simp add: keeps_def same_fields_def)

lemma keepsD:
  "keeps en cont plain owner s s' \<Longrightarrow> hooks_ok en cont plain owner s'"
  "keeps en cont plain owner s s' \<Longrightarrow> belongs s y i \<Longrightarrow> belongs s' y i"
  "keeps en cont plain owner s s' \<Longrightarrow> linked en cont plain owner env s \<Longrightarrow> linked en cont plain owner env s'"
  by (simp_all add: keeps_def)

lemma linked_same:
  assumes "linked en cont plain owner env s" "same_fields en (hk_native s) (hk_native s')"
    and "\<And>y. map_option fst (cont (hk_native s') y) = map_option fst (cont (hk_native s) y)"
    and "mm_nameIndex (hk_manager s') = mm_nameIndex (hk_manager s)"
    and "length (mm_archives (hk_manager s')) = length (mm_archives (hk_manager s))"
  shows "linked en cont plain owner env s'"
proof -
  have "resolve_by_name (he_pv env) (hk_manager s') inner = resolve_by_name (he_pv env) (hk_manager s) inner" for inner
    using assms(4,5) by (simp add: resolve_by_name_def FindIndexByName_def split: name_outcome.split option.split)
  moreover have "\<exists>w. cont (hk_native s) y = Some w \<and> fst w = fst v" if "cont (hk_native s') y = Some v" for y v
    using assms(3) [of y] that by (cases "cont (hk_native s) y") simp_all
  ultimately show ?thesis
    using assms(1,2) unfolding linked_def same_fields_def by metis
qed

lemma works_keeps:
  assumes "hooks_ok en cont plain owner s" "works en cont plain x i s s'" "registered s x = Some i"
    and "fits en cont plain x i s'"
  shows "keeps en cont plain owner s s'" "stream_view cont s' x = Some (view_by cont s' x i)"
    "y \<noteq> x \<Longrightarrow> stream_view cont s' y = stream_view cont s y"
proof -
  note fh = fits_hooks_ok [OF assms]
  have reg: "registered s' = registered s" using assms(2) by (auto simp: registered_def works_def)
  have ret: "ss_retired (hk_heap s' ! j) = ss_retired (hk_heap s ! j)" for j
    using assms(2) by (cases "j = i") (simp_all add: works_def)
  have "map_option fst (cont (hk_native s') y) = map_option fst (cont (hk_native s) y)" for y
    using assms(2) by (cases "y = x") (simp_all add: works_def)
  then have "linked en cont plain owner env s \<Longrightarrow> linked en cont plain owner env s'" for env
    using assms(2) by (intro linked_same [of en cont plain owner env s s']) (simp_all add: works_def)
  then show "keeps en cont plain owner s s'"
    using fh(1) assms(2) by (simp add: keeps_def belongs_def reg ret works_def)
  show "stream_view cont s' x = Some (view_by cont s' x i)"
    "y \<noteq> x \<Longrightarrow> stream_view cont s' y = stream_view cont s y"
    by (rule fh)+
qed

section \<open>The memo\<close>

lemma registered_sel [simp]:
  "registered (remember x v s) y = registered s y"
  "registered (put_registered x v s) y = (if y = x then v else registered s y)"
  "registered (update_state i f s) y = registered s y" "registered (count_stat b k n s) y = registered s y"
  "registered (ClearCaptureBuffer i s) y = registered s y"
  by (simp_all add: registered_def remember_def put_registered_def Let_def)

lemma remember_sel [simp]:
  "hk_native (remember x v s) = hk_native s" "hk_cache (remember x v s) = hk_cache s"
  "hk_heap (remember x v s) = hk_heap s" "hk_sources (remember x v s) = hk_sources s"
  "hk_manager (remember x v s) = hk_manager s" "hk_pins (remember x v s) = hk_pins s"
  "hk_hooksActive (remember x v s) = hk_hooksActive s" "hk_engineLoadActive (remember x v s) = hk_engineLoadActive s"
  "hk_thread (remember x v s) = hk_thread s"
  "hk_memo (remember x v s) = (hk_memo s)(hk_thread s := (x, v))"
  "hk_budget (remember x v s) = hk_budget s"
  by (simp_all add: remember_def)

lemma put_registered_sel [simp]:
  "hk_native (put_registered x v s) = hk_native s" "hk_cache (put_registered x v s) = hk_cache s"
  "hk_heap (put_registered x v s) = hk_heap s" "hk_sources (put_registered x v s) = hk_sources s"
  "hk_manager (put_registered x v s) = hk_manager s" "hk_pins (put_registered x v s) = hk_pins s"
  "hk_hooksActive (put_registered x v s) = hk_hooksActive s" "hk_engineLoadActive (put_registered x v s) = hk_engineLoadActive s"
  "hk_thread (put_registered x v s) = hk_thread s" "hk_memo (put_registered x v s) = hk_memo s"
  "hk_budget (put_registered x v s) = hk_budget s"
  by (simp_all add: put_registered_def Let_def)

lemma Find_registered:
  assumes "registry_ok s"
  shows "\<exists>s'. FindCompressedState x s = (registered s x, s') \<and>
    (s' = s \<or> (\<exists>i. registered s x = Some i \<and> s' = remember x (Some i) s))"
proof -
  have live: "registered s x = Some i \<Longrightarrow> \<not> ss_retired (hk_heap s ! i)" for i
    using assms unfolding registry_ok_def by blast
  have memo: "hk_memo s (hk_thread s) = (x, Some i) \<Longrightarrow> \<not> ss_retired (hk_heap s ! i) \<Longrightarrow> registered s x = Some i" for i
    using assms unfolding registry_ok_def by blast
  show ?thesis
    using live memo by (fastforce simp: FindCompressedState_def Let_def split: prod.split option.split)
qed

text \<open>Steps that only touch the memo, retired states, pins and counters.\<close>

definition idles :: "'n hooks \<Rightarrow> 'n hooks \<Rightarrow> bool" where
  "idles s s' \<longleftrightarrow> hk_native s' = hk_native s \<and> hk_cache s' = hk_cache s \<and> registered s' = registered s \<and>
     hk_hooksActive s' = hk_hooksActive s \<and> hk_engineLoadActive s' = hk_engineLoadActive s \<and>
     length (hk_heap s) \<le> length (hk_heap s') \<and>
     (\<forall>i < length (hk_heap s). ss_retired (hk_heap s' ! i) = ss_retired (hk_heap s ! i) \<and>
        (\<not> ss_retired (hk_heap s ! i) \<longrightarrow> hk_heap s' ! i = hk_heap s ! i)) \<and>
     (\<forall>t. hk_memo s' t = hk_memo s t \<or> (\<exists>i. snd (hk_memo s' t) = Some i \<and> registered s (fst (hk_memo s' t)) = Some i))"

lemma idles_refl [simp]: "idles s s"
  by (simp add: idles_def)

lemma idles_trans:
  assumes "idles s t" "idles t u"
  shows "idles s u"
proof -
  have "ss_retired (hk_heap u ! i) = ss_retired (hk_heap s ! i) \<and>
      (\<not> ss_retired (hk_heap s ! i) \<longrightarrow> hk_heap u ! i = hk_heap s ! i)" if "i < length (hk_heap s)" for i
  proof -
    have "i < length (hk_heap t)" using that assms(1) by (simp add: idles_def)
    then show ?thesis using assms that by (simp add: idles_def)
  qed
  moreover have "hk_memo u c = hk_memo s c \<or>
      (\<exists>i. snd (hk_memo u c) = Some i \<and> registered s (fst (hk_memo u c)) = Some i)" for c
  proof -
    have "registered t = registered s" using assms(1) by (simp add: idles_def)
    moreover have "hk_memo u c = hk_memo t c \<or>
        (\<exists>i. snd (hk_memo u c) = Some i \<and> registered t (fst (hk_memo u c)) = Some i)"
      using assms(2) by (simp add: idles_def)
    moreover have "hk_memo t c = hk_memo s c \<or>
        (\<exists>i. snd (hk_memo t c) = Some i \<and> registered s (fst (hk_memo t c)) = Some i)"
      using assms(1) by (simp add: idles_def)
    ultimately show ?thesis by auto
  qed
  ultimately show ?thesis using assms by (simp add: idles_def)
qed

lemma idles_view:
  assumes "hooks_ok en cont plain owner s" "idles s s'"
  shows "stream_view cont s' = stream_view cont s"
proof
  fix y
  have "registered s y = Some i \<Longrightarrow> hk_heap s' ! i = hk_heap s ! i" for i
    using hooks_ok_state(2) [OF assms(1)] assms(2) by (simp add: idles_def)
  then show "stream_view cont s' y = stream_view cont s y"
    using assms(2) by (cases "registered s y") (simp_all add: stream_view_def idles_def)
qed

lemma idles_keeps:
  assumes ok: "hooks_ok en cont plain owner s" and id: "idles s s'"
    and "owners_ok owner (hk_sources s) \<longrightarrow> owners_ok owner (hk_sources s')"
    and "archives_ok plain owner (hk_manager s) \<longrightarrow> archives_ok plain owner (hk_manager s')"
    and "mm_nameIndex (hk_manager s') = mm_nameIndex (hk_manager s)"
    and "length (mm_archives (hk_manager s')) = length (mm_archives (hk_manager s))"
  shows "keeps en cont plain owner s s'"
proof -
  have reg: "registered s' = registered s" using id by (simp add: idles_def)
  have same: "registered s y = Some i \<Longrightarrow> hk_heap s' ! i = hk_heap s ! i \<and> i < length (hk_heap s')" for y i
    using hooks_ok_state(2) [OF ok] id unfolding idles_def by (meson order_less_le_trans)
  have rok: "registry_ok s" using ok by (simp add: hooks_ok_def)
  have "registry_ok s'" unfolding registry_ok_def reg
  proof (intro conjI allI impI)
    fix x i assume "registered s x = Some i"
    then show "i < length (hk_heap s')" "\<not> ss_retired (hk_heap s' ! i)"
      using same hooks_ok_state(2) [OF ok] by simp_all
  next
    fix x y i assume "registered s x = Some i" "registered s y = Some i"
    then show "x = y" using rok unfolding registry_ok_def by blast
  next
    fix t x i assume m: "hk_memo s' t = (x, Some i)"
    have "registered s x = Some i \<or> i < length (hk_heap s) \<and> (\<not> ss_retired (hk_heap s ! i) \<longrightarrow> registered s x = Some i)"
      using id m rok unfolding idles_def registry_ok_def by (metis fst_conv option.inject snd_conv)
    then show "i < length (hk_heap s')" "\<not> ss_retired (hk_heap s' ! i) \<Longrightarrow> registered s x = Some i"
      using same id by (auto simp: idles_def)
  qed
  moreover have "\<exists>v. cont (hk_native s') x = Some v \<and> state_ok plain (dc_views (hk_cache s')) v (hk_heap s' ! i)"
    if "registered s x = Some i" for x i
    using hooks_ok_state(1) [OF ok that] same [OF that] id by (simp add: idles_def)
  ultimately have "hooks_ok en cont plain owner s'"
    using ok id assms(3,4) by (simp add: hooks_ok_def idles_def)
  moreover have "belongs s y i \<Longrightarrow> belongs s' y i" for y i
    using id by (auto simp: belongs_def idles_def)
  moreover have "linked en cont plain owner env s \<Longrightarrow> linked en cont plain owner env s'" for env
    using id assms(5,6) by (intro linked_same [of en cont plain owner env s s']) (simp_all add: idles_def same_fields_def)
  ultimately show ?thesis using id by (simp add: keeps_def idles_def same_fields_def)
qed

lemma idles_keeps_simple:
  "hooks_ok en cont plain owner s \<Longrightarrow> idles s s' \<Longrightarrow> hk_sources s' = hk_sources s \<Longrightarrow> hk_manager s' = hk_manager s \<Longrightarrow>
     keeps en cont plain owner s s'"
  by (rule idles_keeps) simp_all

lemma idles_remember: "registered s x = Some i \<Longrightarrow> idles s (remember x (Some i) s)"
  by (auto simp: idles_def)

lemma Find_idles:
  assumes "registry_ok s" "FindCompressedState x s = (found, s')"
  shows "found = registered s x" "idles s s'" "hk_sources s' = hk_sources s" "hk_manager s' = hk_manager s"
    "hk_heap s' = hk_heap s" "hk_pins s' = hk_pins s"
  using Find_registered [OF assms(1), of x] assms(2) by (auto simp: idles_remember)

lemma Find_keeps:
  assumes "hooks_ok en cont plain owner s" "FindCompressedState x s = (found, s')"
  shows "found = registered s x" "keeps en cont plain owner s s'" "stream_view cont s' = stream_view cont s"
    "hk_heap s' = hk_heap s" "hk_native s' = hk_native s" "registered s' = registered s"
proof -
  have "registry_ok s" using assms(1) by (simp add: hooks_ok_def)
  note f = Find_idles [OF this assms(2)]
  show "found = registered s x" "hk_heap s' = hk_heap s" "hk_native s' = hk_native s" "registered s' = registered s"
    using f by (simp_all add: idles_def)
  show "keeps en cont plain owner s s'" by (rule idles_keeps_simple [OF assms(1) f(2-4)])
  show "stream_view cont s' = stream_view cont s" by (rule idles_view [OF assms(1) f(2)])
qed

lemma find_replacement_keeps:
  assumes "hooks_ok en cont plain owner s" "find_replacement x i s = (b, s')"
  shows "b \<longleftrightarrow> (\<exists>j. registered s x = Some j \<and> j \<noteq> i)" "keeps en cont plain owner s s'"
    "stream_view cont s' = stream_view cont s" "hk_native s' = hk_native s" "registered s' = registered s"
proof -
  obtain found t where f: "FindCompressedState x s = (found, t)" by fastforce
  note fk = Find_keeps [OF assms(1) f]
  have e: "s' = t" "b \<longleftrightarrow> (\<exists>j. found = Some j \<and> j \<noteq> i)"
    using assms(2) f by (auto simp: find_replacement_def split: option.splits)
  show "b \<longleftrightarrow> (\<exists>j. registered s x = Some j \<and> j \<noteq> i)" "keeps en cont plain owner s s'"
    "stream_view cont s' = stream_view cont s" "hk_native s' = hk_native s" "registered s' = registered s"
    using fk by (simp_all add: e)
qed

end
