(* ===== verification/StreamSwap.thy ===== *)
theory StreamSwap
  imports StreamRegistry
begin

text \<open>
  Exchanging the state of a stream, and what a call does before it takes the I/O mutex: it
  inspects the stream and finds or creates its state.
\<close>

section \<open>Exchanging a state\<close>

definition swapped :: "u64 \<Rightarrow> nat option \<Rightarrow> 'n hooks \<Rightarrow> 'n hooks \<Rightarrow> bool" where
  "swapped x v s s' \<longleftrightarrow> registered s' = (registered s)(x := v) \<and> length (hk_heap s') = length (hk_heap s) \<and>
     (\<forall>k. registered s x \<noteq> Some k \<longrightarrow> hk_heap s' ! k = hk_heap s ! k) \<and>
     (\<forall>k. registered s x = Some k \<longrightarrow> ss_retired (hk_heap s' ! k)) \<and>
     (\<forall>t. hk_memo s' t = hk_memo s t \<or> hk_memo s' t = (x, v) \<or> snd (hk_memo s' t) = None) \<and>
     hk_native s' = hk_native s \<and> hk_cache s' = hk_cache s \<and> hk_sources s' = hk_sources s \<and>
     hk_manager s' = hk_manager s \<and> hk_hooksActive s' = hk_hooksActive s \<and>
     hk_engineLoadActive s' = hk_engineLoadActive s"

text \<open>The new state is no other stream's, is not retired, and fits the stream.\<close>

definition fresh_for :: "('n \<Rightarrow> u64 \<rightharpoonup> bytes \<times> nat) \<Rightarrow> (nat \<Rightarrow> u32 \<Rightarrow> bytes) \<Rightarrow> u64 \<Rightarrow> nat \<Rightarrow> 'n hooks \<Rightarrow> bool" where
  "fresh_for cont plain x j s \<longleftrightarrow> j < length (hk_heap s) \<and> \<not> ss_retired (hk_heap s ! j) \<and>
     (\<forall>y. registered s y \<noteq> Some j) \<and>
     (\<exists>v. cont (hk_native s) x = Some v \<and> state_ok plain (dc_views (hk_cache s)) v (hk_heap s ! j))"

lemma swapped_registry:
  assumes ok: "registry_ok s" and sw: "swapped x v s s'"
    and new: "\<And>j. v = Some j \<Longrightarrow> j < length (hk_heap s) \<and> \<not> ss_retired (hk_heap s ! j) \<and> (\<forall>y. registered s y \<noteq> Some j)"
  shows "registry_ok s'"
proof -
  have reg: "registered s' y = (if y = x then v else registered s y)" for y using sw by (simp add: swapped_def)
  have keep: "registered s x \<noteq> Some k \<Longrightarrow> hk_heap s' ! k = hk_heap s ! k" for k using sw by (simp add: swapped_def)
  have len: "length (hk_heap s') = length (hk_heap s)" using sw by (simp add: swapped_def)
  have live: "registered s y = Some k \<Longrightarrow> k < length (hk_heap s) \<and> \<not> ss_retired (hk_heap s ! k)" for y k
    using ok unfolding registry_ok_def by blast
  have inj: "registered s y = Some k \<Longrightarrow> registered s z = Some k \<Longrightarrow> y = z" for y z k
    using ok unfolding registry_ok_def by blast
  show ?thesis unfolding registry_ok_def
  proof (intro conjI allI impI)
    fix y k assume r: "registered s' y = Some k"
    have "k < length (hk_heap s) \<and> \<not> ss_retired (hk_heap s ! k) \<and> registered s x \<noteq> Some k"
      using r new live inj [of y k x] by (cases "y = x") (auto simp: reg)
    then show "k < length (hk_heap s')" "\<not> ss_retired (hk_heap s' ! k)" using keep [of k] by (simp_all add: len)
  next
    fix y z k assume "registered s' y = Some k" "registered s' z = Some k"
    then show "y = z" using new inj by (auto simp: reg split: if_splits)
  next
    fix t y k assume m: "hk_memo s' t = (y, Some k)"
    then consider "hk_memo s t = (y, Some k)" | "y = x" "v = Some k"
      using sw unfolding swapped_def by (metis fst_conv option.distinct(1) snd_conv)
    then have "k < length (hk_heap s) \<and> (\<not> ss_retired (hk_heap s' ! k) \<longrightarrow> registered s' y = Some k)"
    proof cases
      case 1
      then have m: "k < length (hk_heap s) \<and> (\<not> ss_retired (hk_heap s ! k) \<longrightarrow> registered s y = Some k)"
        using ok unfolding registry_ok_def by blast
      moreover have "registered s' y = Some k" if l: "\<not> ss_retired (hk_heap s' ! k)"
      proof -
        have "registered s x \<noteq> Some k" using sw l by (auto simp: swapped_def)
        then show ?thesis using m l keep by (auto simp: reg)
      qed
      ultimately show ?thesis by blast
    qed (use new in \<open>simp add: reg\<close>)
    then show "k < length (hk_heap s')" "\<not> ss_retired (hk_heap s' ! k) \<Longrightarrow> registered s' y = Some k"
      by (simp_all add: len)
  qed
qed

lemma swapped_keeps:
  assumes ok: "hooks_ok en cont plain owner s" and sw: "swapped x v s s'"
    and new: "\<And>j. v = Some j \<Longrightarrow> fresh_for cont plain x j s"
  shows "keeps en cont plain owner s s'" "\<And>y. y \<noteq> x \<Longrightarrow> stream_view cont s' y = stream_view cont s y"
    "stream_view cont s' x = map_option (\<lambda>w. (fst w, position_in (map_option ((!) (hk_heap s)) v) (snd w))) (cont (hk_native s) x)"
proof -
  have rok: "registry_ok s" using ok by (simp add: hooks_ok_def)
  have reg: "registered s' y = (if y = x then v else registered s y)" for y using sw by (simp add: swapped_def)
  have keep: "registered s x \<noteq> Some k \<Longrightarrow> hk_heap s' ! k = hk_heap s ! k" for k using sw by (simp add: swapped_def)
  have inj: "registered s y = Some k \<Longrightarrow> registered s z = Some k \<Longrightarrow> y = z" for y z k
    using rok unfolding registry_ok_def by blast
  have other: "y \<noteq> x \<Longrightarrow> registered s y = Some k \<Longrightarrow> hk_heap s' ! k = hk_heap s ! k" for y k
    using keep [of k] inj [of y k x] by auto
  have newh: "v = Some j \<Longrightarrow> hk_heap s' ! j = hk_heap s ! j" for j
    using keep [of j] new unfolding fresh_for_def by blast
  have "registry_ok s'"
    by (rule swapped_registry [OF rok sw]) (use new in \<open>simp add: fresh_for_def\<close>)
  moreover have "\<exists>w. cont (hk_native s') y = Some w \<and> state_ok plain (dc_views (hk_cache s')) w (hk_heap s' ! k)"
    if "registered s' y = Some k" for y k
  proof (cases "y = x")
    case True
    then have "v = Some k" using that by (simp add: reg)
    then show ?thesis using new [of k] newh [of k] True sw unfolding fresh_for_def swapped_def by metis
  next
    case False
    then have r: "registered s y = Some k" using that by (simp add: reg)
    from hooks_ok_state(1) [OF ok r] other [OF False r] sw show ?thesis by (simp add: swapped_def)
  qed
  ultimately have "hooks_ok en cont plain owner s'" using ok sw by (simp add: hooks_ok_def swapped_def)
  moreover have "belongs s' y k" if b: "belongs s y k" for y k
  proof (cases "ss_retired (hk_heap s' ! k)")
    case False
    then have "registered s x \<noteq> Some k" using sw by (auto simp: swapped_def)
    then show ?thesis using b keep [of k] False sw by (auto simp: belongs_def reg swapped_def)
  qed (use b sw in \<open>simp add: belongs_def swapped_def\<close>)
  moreover have "linked en cont plain owner env s \<Longrightarrow> linked en cont plain owner env s'" for env
    using sw by (intro linked_same [of en cont plain owner env s s']) (simp_all add: swapped_def same_fields_def)
  ultimately show "keeps en cont plain owner s s'" using sw by (simp add: keeps_def swapped_def same_fields_def)
  show "stream_view cont s' y = stream_view cont s y" if "y \<noteq> x" for y
    using that other sw by (cases "registered s y") (simp_all add: stream_view_def reg swapped_def)
  show "stream_view cont s' x = map_option (\<lambda>w. (fst w, position_in (map_option ((!) (hk_heap s)) v) (snd w))) (cont (hk_native s) x)"
    using newh sw by (cases v) (simp_all add: stream_view_def reg swapped_def)
qed

text \<open>The registry operations exchange states.\<close>

lemma retire_sel [simp]:
  "hk_native (retire i s) = hk_native s" "hk_cache (retire i s) = hk_cache s" "hk_sources (retire i s) = hk_sources s"
  "hk_manager (retire i s) = hk_manager s" "hk_memo (retire i s) = hk_memo s" "hk_thread (retire i s) = hk_thread s"
  "hk_hooksActive (retire i s) = hk_hooksActive s" "hk_engineLoadActive (retire i s) = hk_engineLoadActive s"
  "registered (retire i s) y = registered s y" "hk_pins (retire i s) = hk_pins s"
  "hk_heap (retire i s) = (hk_heap s)[i := (hk_heap s ! i)\<lparr>ss_retired := True\<rparr>]"
  by (simp_all add: retire_def)

lemma drop_state_sel [simp]:
  "hk_native (drop_state i s) = hk_native s" "hk_cache (drop_state i s) = hk_cache s" "hk_sources (drop_state i s) = hk_sources s"
  "hk_manager (drop_state i s) = hk_manager s" "hk_memo (drop_state i s) = hk_memo s" "hk_thread (drop_state i s) = hk_thread s"
  "hk_hooksActive (drop_state i s) = hk_hooksActive s" "hk_engineLoadActive (drop_state i s) = hk_engineLoadActive s"
  "registered (drop_state i s) y = registered s y" "hk_pins (drop_state i s) = hk_pins s"
  "length (hk_heap (drop_state i s)) = length (hk_heap s)"
  "j \<noteq> i \<Longrightarrow> hk_heap (drop_state i s) ! j = hk_heap s ! j"
  "ss_retired (hk_heap (drop_state i s) ! j) = ss_retired (hk_heap s ! j)"
  by (cases "i < length (hk_heap s)"; simp add: drop_state_def nth_list_update list_update_beyond not_less)+

lemma swapped_empty:
  "registered s x = None \<Longrightarrow> swapped x v s (remember x v (put_registered x v s))"
  by (auto simp: swapped_def)

lemma swapped_replace:
  assumes "registry_ok s" "registered s x = Some o'"
  shows "swapped x v s (remember x v (drop_state o' (put_registered x v (retire o' s))))"
    "swapped x v s (remember x v (put_registered x v (retire o' s)))"
    "swapped x None s (drop_state o' (retire o' (put_registered x None s)))"
    "swapped x None s (drop_state o' (remember 0 None (retire o' (put_registered x None s))))"
proof -
  have "o' < length (hk_heap s)" using assms unfolding registry_ok_def by blast
  then show "swapped x v s (remember x v (drop_state o' (put_registered x v (retire o' s))))"
    "swapped x v s (remember x v (put_registered x v (retire o' s)))"
    "swapped x None s (drop_state o' (retire o' (put_registered x None s)))"
    "swapped x None s (drop_state o' (remember 0 None (retire o' (put_registered x None s))))"
    using assms(2) by (auto simp: swapped_def)
qed

lemma Publish_swapped:
  assumes "registry_ok s" "PublishCompressedStateIfAbsent x j s = (i, s')" "registered s x = None"
  shows "i = j" "swapped x (Some j) s s'"
  using assms(2,3) swapped_empty [OF assms(3)] by (auto simp: PublishCompressedStateIfAbsent_def)

lemma TryReplace_swapped:
  assumes "registry_ok s" "TryReplaceCompressedState x i j s = (b, s')"
  shows "b \<longleftrightarrow> registered s x = Some i" "b \<Longrightarrow> swapped x (Some j) s s'" "\<not> b \<Longrightarrow> s' = s"
proof -
  have "registered s x = Some i \<Longrightarrow> \<not> ss_retired (hk_heap s ! i)" using assms(1) unfolding registry_ok_def by blast
  then show "b \<longleftrightarrow> registered s x = Some i" "b \<Longrightarrow> swapped x (Some j) s s'" "\<not> b \<Longrightarrow> s' = s"
    using assms(2) swapped_replace(2) [OF assms(1), of x i "Some j"]
    by (auto simp: TryReplaceCompressedState_def split: if_splits)
qed

lemma Replace_swapped:
  assumes "registry_ok s"
  shows "swapped x (Some j) s (ReplaceCompressedState x j s)"
  using swapped_empty swapped_replace(1) [OF assms] by (auto simp: ReplaceCompressedState_def split: option.split)

lemma Retire_swapped:
  assumes "registry_ok s" "x \<noteq> 0"
  shows "swapped x None s (RetireCompressedState x s)"
proof (cases "registered s x")
  case None
  then show ?thesis using assms(2) by (auto simp: RetireCompressedState_def Let_def swapped_def)
next
  case (Some i)
  then show ?thesis
    using assms(2) swapped_replace(3,4) [OF assms(1) Some] by (auto simp: RetireCompressedState_def Let_def)
qed

end
