(* ===== verification/StreamEnter.thy ===== *)
theory StreamEnter
  imports StreamSwap
begin

text \<open>
  What a call does before it takes the I/O mutex and after it has released it: the stream is
  inspected, its state found, made or replaced, and a state nobody needs any more dropped.
\<close>

section \<open>Inspection\<close>

lemma resolve_source_cases:
  assumes "hooks_ok en cont plain owner s" "linked en cont plain owner env s"
    and "resolve_source env source s = (archive, s')"
  shows "idles s s'" "keeps en cont plain owner s s'" "hk_heap s' = hk_heap s" "hk_manager s' = hk_manager s"
    "archive = Some a \<Longrightarrow> owner (pv_word (he_pv env) (source + 0x28)) = Some a"
proof -
  have names: "resolve_by_name (he_pv env) (hk_manager s) inner = (Some a, b) \<Longrightarrow> owner inner = Some a" for inner a b
    using assms(2) unfolding linked_def by blast
  have own: "owners_ok owner (hk_sources s)" using assms(1) by (simp add: hooks_ok_def)
  obtain r t where rs: "ResolveSource (he_pv env) (hk_manager s) source (hk_sources s) = (r, t)" by fastforce
  note ro = ResolveSource_owner [OF own rs names]
  have cases: "s' = s \<and> archive = None \<or> s' = s\<lparr>hk_sources := t\<rparr> \<and> archive = r"
    using assms(3) rs by (auto simp: resolve_source_def split: if_splits)
  have "idles s (s\<lparr>hk_sources := t\<rparr>)" by (auto simp: idles_def registered_def)
  then show id: "idles s s'" using cases by auto
  show "hk_heap s' = hk_heap s" "hk_manager s' = hk_manager s" using cases by auto
  then show "keeps en cont plain owner s s'"
    using cases ro(1) by (intro idles_keeps [OF assms(1) id]) auto
  show "archive = Some a \<Longrightarrow> owner (pv_word (he_pv env) (source + 0x28)) = Some a"
    using cases ro(2) by auto
qed

lemma declared_cases:
  assumes "hooks_ok en cont plain owner s" "\<forall>a. archive = Some a \<longrightarrow> (\<exists>inner. owner inner = Some a)"
    and "ResolveDeclaredDecompressedSize env archive off s = (k, s')"
  shows "idles s s'" "keeps en cont plain owner s s'" "hk_heap s' = hk_heap s"
    "k \<noteq> 0 \<Longrightarrow> \<exists>a. archive = Some a \<and> unat k = length (plain a off)"
proof -
  have "idles s s' \<and> keeps en cont plain owner s s' \<and> hk_heap s' = hk_heap s \<and>
    (k \<noteq> 0 \<longrightarrow> (\<exists>a. archive = Some a \<and> unat k = length (plain a off)))"
  proof (cases archive)
    case None
    then show ?thesis using assms(1,3) by (simp add: ResolveDeclaredDecompressedSize_def keeps_refl)
  next
    case (Some b)
    have aok: "archives_ok plain owner (hk_manager s)" using assms(1) by (simp add: hooks_ok_def)
    let ?m = "mm_archives (hk_manager s)"
    obtain inner where inner: "owner inner = Some b" using assms(2) Some by blast
    then obtain f where f: "b < length ?m" "describes (?m ! b) f" "ma_valid (?m ! b)"
      "\<And>off k. declared_of (bf_content f) off = Some k \<Longrightarrow> unat k = length (plain b off)"
      using aok unfolding archives_ok_def by blast
    obtain d m' where g: "GetDeclaredDecompressedSize (he_io env) (?m ! b) off = (d, m')" by fastforce
    note st = GetDeclared_step [OF f(2,3) g]
    have e: "k = (case d of None \<Rightarrow> 0 | Some n \<Rightarrow> n)"
      "s' = s\<lparr>hk_manager := (hk_manager s)\<lparr>mm_archives := ?m[b := m']\<rparr>\<rparr>"
      using assms(3) Some g by (auto simp: ResolveDeclaredDecompressedSize_def)
    have id: "idles s s'" by (auto simp: e(2) idles_def registered_def)
    have "archives_ok plain owner (hk_manager s')"
      unfolding archives_ok_def
    proof (intro allI impI)
      fix inner' c assume "owner inner' = Some c"
      then have c: "c < length ?m \<and> (\<exists>f. describes (?m ! c) f \<and> ma_valid (?m ! c) \<and>
          (\<forall>off k. declared_of (bf_content f) off = Some k \<longrightarrow> unat k = length (plain c off)))"
        using aok unfolding archives_ok_def by blast
      show "c < length (mm_archives (hk_manager s')) \<and> (\<exists>f. describes (mm_archives (hk_manager s') ! c) f \<and>
          ma_valid (mm_archives (hk_manager s') ! c) \<and>
          (\<forall>off k. declared_of (bf_content f) off = Some k \<longrightarrow> unat k = length (plain c off)))"
      proof (cases "c = b")
        case True
        have "describes m' f" "ma_valid m'" using st by blast+
        then show ?thesis using True f(1,4) by (auto simp: e(2) intro!: exI [where x = f])
      qed (use c in \<open>simp add: e(2)\<close>)
    qed
    then have "keeps en cont plain owner s s'"
      by (intro idles_keeps [OF assms(1) id]) (simp_all add: e(2))
    moreover have "k \<noteq> 0 \<longrightarrow> unat k = length (plain b off)"
      using st f(4) by (auto simp: e(1) split: option.split)
    ultimately show ?thesis using id Some by (simp add: e(2))
  qed
  then show "idles s s'" "keeps en cont plain owner s s'" "hk_heap s' = hk_heap s"
    "k \<noteq> 0 \<Longrightarrow> \<exists>a. archive = Some a \<and> unat k = length (plain a off)" by blast+
qed

lemma Inspect_cases:
  assumes ok: "hooks_ok en cont plain owner s" and lk: "linked en cont plain owner env s"
    and "cont (hk_native s) x = Some v" "InspectCompressedStream en env x s = (identity, s')"
  shows "idles s s'" "keeps en cont plain owner s s'" "hk_heap s' = hk_heap s" "identity_ok plain (fst v) identity"
proof -
  let ?src = "en_source en (hk_native s) x"
  obtain a s1 where r: "resolve_source env ?src s = (a, s1)" by fastforce
  note rs = resolve_source_cases [OF ok lk r]
  have ok1: "hooks_ok en cont plain owner s1" by (rule keepsD(1) [OF rs(2)])
  obtain found s2 where f: "FindCompressedState x s1 = (found, s2)" by fastforce
  have "registry_ok s1" using ok1 by (simp add: hooks_ok_def)
  note fi = Find_idles [OF this f] and fk = Find_keeps [OF ok1 f]
  have ok2: "hooks_ok en cont plain owner s2" by (rule keepsD(1) [OF fk(2)])
  obtain k s3 where d: "ResolveDeclaredDecompressedSize env a (en_startOffset en (hk_native s) x) s2 = (k, s3)"
    by fastforce
  have own: "a = Some b \<Longrightarrow> owner (pv_word (he_pv env) (?src + 0x28)) = Some b" for b by (rule rs(5))
  then have "\<forall>b. a = Some b \<longrightarrow> (\<exists>inner. owner inner = Some b)" by blast
  note de = declared_cases [OF ok2 this d]
  have bs: "a = Some b \<Longrightarrow> fst v = plain b (en_startOffset en (hk_native s) x)" for b
    using lk assms(3) own unfolding linked_def by blast
  have heap: "hk_heap s1 = hk_heap s" "hk_heap s2 = hk_heap s" "hk_heap s3 = hk_heap s" "registered s1 = registered s"
    using rs(1,3) fi(5) de(3) by (simp_all add: idles_def)
  have id2: "idles s s2" "keeps en cont plain owner s s2"
    by (rule idles_trans [OF rs(1) fi(2)]) (rule keeps_trans [OF rs(2) fk(2)])
  have id3: "idles s s3" "keeps en cont plain owner s s3"
    by (rule idles_trans [OF id2(1) de(1)]) (rule keeps_trans [OF id2(2) de(2)])
  have new: "identity_ok plain (fst v) \<lparr>si_source = ?src, si_archive = a, si_startOffset = en_startOffset en (hk_native s) x,
      si_totalSize = k\<rparr>"
    using bs de(4) by (auto simp: identity_ok_def)
  have old: "identity_ok plain (fst v) (ss_identity (hk_heap s ! i))" if "found = Some i" for i
    using hooks_ok_state(1) [OF ok, of x i] that fi(1) assms(3) by (auto simp: heap state_ok_def)
  consider i where "found = Some i" "identity = ss_identity (hk_heap s2 ! i)" "s' = s2"
    | "identity = \<lparr>si_source = ?src, si_archive = a, si_startOffset = en_startOffset en (hk_native s) x,
      si_totalSize = k\<rparr>" "s' = s3"
  proof (cases found)
    case None
    then have "(identity, s') = (\<lparr>si_source = ?src, si_archive = a, si_startOffset = en_startOffset en (hk_native s) x,
      si_totalSize = k\<rparr>, s3)"
      using assms(4) by (simp add: InspectCompressedStream_def Let_def r f d)
    then show ?thesis using that(2) by blast
  next
    case (Some i)
    have "(identity, s') = (ss_identity (hk_heap s2 ! i), s2) \<or>
      (identity, s') = (\<lparr>si_source = ?src, si_archive = a, si_startOffset = en_startOffset en (hk_native s) x,
      si_totalSize = k\<rparr>, s3)"
      using assms(4) by (auto simp: InspectCompressedStream_def Let_def r f d Some split: if_splits)
    then show ?thesis using that Some by blast
  qed
  then have "idles s s' \<and> keeps en cont plain owner s s' \<and> hk_heap s' = hk_heap s \<and> identity_ok plain (fst v) identity"
  proof cases
    case 1
    then show ?thesis using id2 old heap by simp
  next
    case 2
    then show ?thesis using id3 new heap by simp
  qed
  then show "idles s s'" "keeps en cont plain owner s s'" "hk_heap s' = hk_heap s" "identity_ok plain (fst v) identity"
    by blast+
qed

section \<open>Making states\<close>

lemma registry_ok_frame:
  "registered s' = registered s \<Longrightarrow> hk_heap s' = hk_heap s \<Longrightarrow> hk_memo s' = hk_memo s \<Longrightarrow>
     registry_ok s' = registry_ok s"
  by (simp only: registry_ok_def)

lemma registered_native [simp]: "registered (s\<lparr>hk_native := n\<rparr>) = registered s"
  by (auto simp: registered_def)

text \<open>A native call that moves no registered stream.\<close>

lemma native_keeps:
  assumes "hooks_ok en cont plain owner s" "same_fields en (hk_native s) n"
    and "cont n = (cont (hk_native s))(x \<mapsto> v')" "cont (hk_native s) x = Some v" "fst v' = fst v"
    and "v' = v \<or> registered s x = None"
  shows "keeps en cont plain owner s (s\<lparr>hk_native := n\<rparr>)"
    "y \<noteq> x \<Longrightarrow> stream_view cont (s\<lparr>hk_native := n\<rparr>) y = stream_view cont s y"
    "registered s x = None \<Longrightarrow> stream_view cont (s\<lparr>hk_native := n\<rparr>) x = Some v'"
    "v' = v \<Longrightarrow> stream_view cont (s\<lparr>hk_native := n\<rparr>) = stream_view cont s"
proof -
  let ?t = "s\<lparr>hk_native := n\<rparr>"
  have reg: "registered ?t = registered s" by simp
  have same: "registered s y = Some i \<Longrightarrow> cont n y = cont (hk_native s) y" for y i
    using assms(3,4,6) by auto
  have "registry_ok ?t = registry_ok s" by (rule registry_ok_frame) simp_all
  then have "hooks_ok en cont plain owner ?t"
    using assms(1) same unfolding hooks_ok_def reg by simp
  moreover have "linked en cont plain owner env s \<Longrightarrow> linked en cont plain owner env ?t" for env
    using assms(2-5) by (intro linked_same [of en cont plain owner env s ?t]) (auto simp: fun_upd_apply)
  ultimately show "keeps en cont plain owner s ?t" using assms(2) by (simp add: keeps_def belongs_def reg)
  show "y \<noteq> x \<Longrightarrow> stream_view cont ?t y = stream_view cont s y"
    "registered s x = None \<Longrightarrow> stream_view cont ?t x = Some v'"
    using assms(3) by (simp_all add: stream_view_def reg position_in_def)
  show "v' = v \<Longrightarrow> stream_view cont ?t = stream_view cont s"
    using assms(3,4) by (auto simp: stream_view_def reg fun_eq_iff)
qed

lemma Query_keeps:
  assumes "hooks_ok en cont plain owner s" "engine_ok en cont" "cont (hk_native s) x = Some v"
    and "k \<noteq> 0 \<longrightarrow> unat k = length (fst v)" "QueryCompressedLogicalCursor en x k s = (r, s')"
  shows "\<exists>c. r = Some c \<and> unat c = snd v" "keeps en cont plain owner s s'" "stream_view cont s' = stream_view cont s"
    "hk_heap s' = hk_heap s" "hk_cache s' = hk_cache s" "cont (hk_native s') = cont (hk_native s)" "registered s' = registered s"
proof -
  note q = Query_cases [OF assms(2-5)]
  show "\<exists>c. r = Some c \<and> unat c = snd v" "hk_heap s' = hk_heap s" "hk_cache s' = hk_cache s"
    "cont (hk_native s') = cont (hk_native s)"
    by (rule q)+
  have u: "cont (hk_native s') = (cont (hk_native s))(x \<mapsto> v)" using q(5) assms(3) by (simp add: fun_upd_idem)
  note nk = native_keeps [OF assms(1) q(7) u assms(3) refl disjI1 [OF refl]]
  show "keeps en cont plain owner s s'" "stream_view cont s' = stream_view cont s"
    using nk(1,4) q(6) by simp_all
  show "registered s' = registered s" using arg_cong [OF q(6), of registered] by simp
qed

lemma make_state_cases:
  assumes "hooks_ok en cont plain owner s" "make_state st s = (j, s')"
    and "\<not> ss_retired st" "cont (hk_native s) x = Some v" "state_ok plain (dc_views (hk_cache s)) v st"
  shows "keeps en cont plain owner s s'" "stream_view cont s' = stream_view cont s" "fresh_for cont plain x j s'"
    "registered s' = registered s" "hk_heap s' = hk_heap s @ [st]" "hk_native s' = hk_native s" "hk_heap s' ! j = st"
proof -
  have e: "j = length (hk_heap s)" "s' = s\<lparr>hk_heap := hk_heap s @ [st]\<rparr>" using assms(2) by (auto simp: make_state_def)
  have id: "idles s s'" by (auto simp: e(2) idles_def registered_def nth_append)
  show "keeps en cont plain owner s s'" by (rule idles_keeps_simple [OF assms(1) id]) (simp_all add: e(2))
  show "stream_view cont s' = stream_view cont s" by (rule idles_view [OF assms(1) id])
  show reg: "registered s' = registered s" using id by (simp add: idles_def)
  show "hk_heap s' = hk_heap s @ [st]" "hk_native s' = hk_native s" "hk_heap s' ! j = st" by (simp_all add: e)
  have "registered s y \<noteq> Some j" for y using hooks_ok_state(2) [OF assms(1), of y j] by (auto simp: e(1))
  then show "fresh_for cont plain x j s'"
    using assms(3,4,5) by (simp add: fresh_for_def reg) (simp add: e)
qed

lemma new_state_ok:
  "identity_ok plain (fst v) identity \<Longrightarrow> unat c = snd v \<Longrightarrow> status \<noteq> kCaptureActive \<Longrightarrow>
     state_ok plain views v ((new_state identity c)\<lparr>ss_captureStatus := status\<rparr>)"
  by (simp add: state_ok_def new_state_def)

text \<open>A state published for a stream shows what its native stream shows.\<close>

lemma publish_fresh:
  assumes "hooks_ok en cont plain owner s" "swapped x (Some j) s s'" "fresh_for cont plain x j s"
    and "ss_cacheData (hk_heap s ! j) = None"
    and "\<And>v. cont (hk_native s) x = Some v \<Longrightarrow> stream_view cont s x = Some v"
  shows "keeps en cont plain owner s s'" "stream_view cont s' = stream_view cont s" "registered s' x = Some j"
    "belongs s' x j"
proof -
  have new: "Some j = Some k \<Longrightarrow> fresh_for cont plain x k s" for k using assms(3) by simp
  note sk = swapped_keeps [OF assms(1,2) new]
  show "keeps en cont plain owner s s'" by (rule sk(1))
  obtain v where v: "cont (hk_native s) x = Some v" using assms(3) unfolding fresh_for_def by blast
  have "stream_view cont s' x = stream_view cont s x"
    using sk(3) v assms(4) assms(5) [OF v] by (simp add: position_in_def)
  then show "stream_view cont s' = stream_view cont s" using sk(2) by (metis ext)
  show "registered s' x = Some j" using assms(2) by (simp add: swapped_def)
  then show "belongs s' x j" using assms(2,3) by (simp add: belongs_def swapped_def fresh_for_def)
qed

lemma GetOrCreate_cases:
  assumes ok: "hooks_ok en cont plain owner s" and en: "engine_ok en cont" and v: "cont (hk_native s) x = Some v"
    and idok: "identity_ok plain (fst v) identity" and "GetOrCreateCompressedState en x identity s = (i, s')"
  shows "keeps en cont plain owner s s'" "stream_view cont s' = stream_view cont s" "registered s' x = Some i"
    "belongs s' x i" "cont (hk_native s') = cont (hk_native s)"
    "registered s x = Some j0 \<Longrightarrow> i = j0 \<and> hk_heap s' = hk_heap s"
proof -
  obtain found s1 where f: "FindCompressedState x s = (found, s1)" by fastforce
  note fk = Find_keeps [OF ok f]
  have ok1: "hooks_ok en cont plain owner s1" by (rule keepsD(1) [OF fk(2)])
  have "keeps en cont plain owner s s' \<and> stream_view cont s' = stream_view cont s \<and> registered s' x = Some i \<and>
    belongs s' x i \<and> cont (hk_native s') = cont (hk_native s) \<and>
    (\<forall>j0. registered s x = Some j0 \<longrightarrow> i = j0 \<and> hk_heap s' = hk_heap s)"
  proof (cases found)
    case (Some j)
    then have "i = j" "s' = s1" using assms(5) f by (simp_all add: GetOrCreateCompressedState_def)
    then show ?thesis
      using fk Some hooks_ok_state(2) [OF ok1, of x j] by (auto simp: belongs_def)
  next
    case None
    have none: "registered s x = None" using fk(1) None by simp
    have v1: "cont (hk_native s1) x = Some v" using v fk(5) by simp
    have k: "si_totalSize identity \<noteq> 0 \<longrightarrow> unat (si_totalSize identity) = length (fst v)"
      using idok by (simp add: identity_ok_def)
    obtain q s2 where q: "QueryCompressedLogicalCursor en x (si_totalSize identity) s1 = (q, s2)" by fastforce
    note qk = Query_keeps [OF ok1 en v1 k q]
    have ok2: "hooks_ok en cont plain owner s2" by (rule keepsD(1) [OF qk(2)])
    obtain c where c: "q = Some c" "unat c = snd v" using qk(1) by blast
    let ?st = "new_state identity c"
    obtain j s3 where m: "make_state ?st s2 = (j, s3)" by fastforce
    have v2: "cont (hk_native s2) x = Some v" using v1 qk(6) by simp
    have st: "state_ok plain (dc_views (hk_cache s2)) v ?st"
      using new_state_ok [OF idok c(2), of kCaptureEmpty] by (simp add: new_state_def)
    have "\<not> ss_retired ?st" by (simp add: new_state_def)
    note mk = make_state_cases [OF ok2 m this v2 st]
    have ok3: "hooks_ok en cont plain owner s3" by (rule keepsD(1) [OF mk(1)])
    have reg: "registered s3 x = None" using none fk(6) qk(7) mk(4) by simp
    have "registry_ok s3" using ok3 by (simp add: hooks_ok_def)
    moreover obtain p: "PublishCompressedStateIfAbsent x j s3 = (i, s')"
      using assms(5) f None q c(1) m by (simp add: GetOrCreateCompressedState_def)
    ultimately have pb: "i = j" "swapped x (Some j) s3 s'" using Publish_swapped reg by blast+
    have view3: "stream_view cont s3 x = Some v"
      using v2 mk(6) reg by (simp add: stream_view_def position_in_def)
    have "ss_cacheData (hk_heap s3 ! j) = None" by (simp add: mk(7) new_state_def)
    moreover have "cont (hk_native s3) x = Some w \<Longrightarrow> stream_view cont s3 x = Some w" for w
      using v2 mk(6) view3 by simp
    ultimately have pf: "keeps en cont plain owner s3 s'" "stream_view cont s' = stream_view cont s3"
      "registered s' x = Some j" "belongs s' x j"
      using publish_fresh [OF ok3 pb(2) mk(3)] by blast+
    have "hk_native s' = hk_native s3" using pb(2) by (simp add: swapped_def)
    then show ?thesis
      using keeps_trans [OF fk(2) keeps_trans [OF qk(2) keeps_trans [OF mk(1) pf(1)]]] pf pb(1) mk(2,6) qk(3,6) fk(3,5) none
      by simp
  qed
  then show "keeps en cont plain owner s s'" "stream_view cont s' = stream_view cont s" "registered s' x = Some i"
    "belongs s' x i" "cont (hk_native s') = cont (hk_native s)"
    "registered s x = Some j0 \<Longrightarrow> i = j0 \<and> hk_heap s' = hk_heap s" by blast+
qed

section \<open>What is learned of sources and archives\<close>

text \<open>Nothing between two inspections of a call touches what sources and archives were learned.\<close>

lemma sources_Find:
  "hk_sources (snd (FindCompressedState x s)) = hk_sources s" "hk_manager (snd (FindCompressedState x s)) = hk_manager s"
  by (auto simp: FindCompressedState_def Let_def split: prod.split option.split)

lemma sources_Query:
  "hk_sources (snd (QueryCompressedLogicalCursor en x k s)) = hk_sources s"
  "hk_manager (snd (QueryCompressedLogicalCursor en x k s)) = hk_manager s"
  by (simp_all add: QueryCompressedLogicalCursor_def on_native_def split_beta)

lemma sources_Publish:
  "hk_sources (snd (PublishCompressedStateIfAbsent x i s)) = hk_sources s"
  "hk_manager (snd (PublishCompressedStateIfAbsent x i s)) = hk_manager s"
  by (auto simp: PublishCompressedStateIfAbsent_def split: option.split)

lemma sources_make:
  "hk_sources (snd (make_state st s)) = hk_sources s" "hk_manager (snd (make_state st s)) = hk_manager s"
  by (simp_all add: make_state_def)

lemma sources_TryReplace:
  "hk_sources (snd (TryReplaceCompressedState x i j s)) = hk_sources s"
  "hk_manager (snd (TryReplaceCompressedState x i j s)) = hk_manager s"
  by (simp_all add: TryReplaceCompressedState_def)

lemma sources_GetOrCreate:
  "hk_sources (snd (GetOrCreateCompressedState en x identity s)) = hk_sources s"
  "hk_manager (snd (GetOrCreateCompressedState en x identity s)) = hk_manager s"
  by (simp_all add: GetOrCreateCompressedState_def split_beta sources_Find sources_Query sources_Publish sources_make
      split: option.split)

end
