(* ===== verification/StreamReads.thy ===== *)
theory StreamReads
  imports StreamEnter
begin

text \<open>
  Whole calls: every read and every seek of a stream has the meaning of the stream, whatever
  state its side state is in, and calls that meet a retired state end.
\<close>

section \<open>Entering and leaving\<close>

text \<open>No exception strikes before the mutex is taken.\<close>

definition calm :: "hook_env \<Rightarrow> bool" where
  "calm env \<longleftrightarrow> \<not> he_inspectThrows env \<and> \<not> he_stateThrows env \<and> \<not> he_upgradeThrows env"

lemma idles_pins: "idles s (s\<lparr>hk_pins := p\<rparr>)"
  by (auto simp: idles_def registered_def)

lemma idles_drop: "idles s (drop_state i s)"
proof -
  have "hk_heap (drop_state i s) ! j = hk_heap s ! j" if "\<not> ss_retired (hk_heap s ! j)" for j
    using that by (cases "j = i") (auto simp: drop_state_def)
  then show ?thesis by (auto simp: idles_def fun_eq_iff)
qed

lemma leave_idles:
  "idles s (leave_stream i s)" "hk_sources (leave_stream i s) = hk_sources s" "hk_manager (leave_stream i s) = hk_manager s"
  using idles_trans [OF idles_pins idles_drop] by (simp_all add: leave_stream_def)

lemma leave_keeps:
  assumes "hooks_ok en cont plain owner s"
  shows "keeps en cont plain owner s (leave_stream i s)" "stream_view cont (leave_stream i s) = stream_view cont s"
  by (rule idles_keeps_simple [OF assms leave_idles] idles_view [OF assms leave_idles(1)])+

lemma enter_cases:
  assumes ok: "hooks_ok en cont plain owner s" and en: "engine_ok en cont" and v: "cont (hk_native s) x = Some v"
    and lk: "linked en cont plain owner env s" and "calm env"
  shows "\<exists>identity i s'. enter_stream en env x s = (Some (identity, i), s') \<and> keeps en cont plain owner s s' \<and>
    stream_view cont s' = stream_view cont s \<and> belongs s' x i \<and> registered s' x = Some i \<and>
    identity_ok plain (fst v) identity \<and> cont (hk_native s') = cont (hk_native s) \<and>
    (\<exists>s1. InspectCompressedStream en env x s = (identity, s1) \<and> hk_sources s' = hk_sources s1 \<and> hk_manager s' = hk_manager s1) \<and>
    (\<forall>j. registered s x = Some j \<longrightarrow> i = j \<and> hk_heap s' = hk_heap s)"
proof -
  obtain identity s1 where ins: "InspectCompressedStream en env x s = (identity, s1)" by fastforce
  note ic = Inspect_cases [OF ok lk v ins]
  have ok1: "hooks_ok en cont plain owner s1" by (rule keepsD(1) [OF ic(2)])
  have view1: "stream_view cont s1 = stream_view cont s" by (rule idles_view [OF ok ic(1)])
  have v1: "cont (hk_native s1) x = Some v" using v ic(1) by (simp add: idles_def)
  obtain i s2 where goc: "GetOrCreateCompressedState en x identity s1 = (i, s2)" by fastforce
  note gc = GetOrCreate_cases [OF ok1 en v1 ic(4) goc]
  let ?t = "s2\<lparr>hk_pins := i # hk_pins s2\<rparr>"
  have ok2: "hooks_ok en cont plain owner s2" by (rule keepsD(1) [OF gc(1)])
  have id: "idles s2 ?t" by (rule idles_pins)
  have k: "keeps en cont plain owner s2 ?t" by (rule idles_keeps_simple [OF ok2 id]) simp_all
  have "enter_stream en env x s = (Some (identity, i), ?t)"
    using assms(5) ins goc by (simp add: enter_stream_def calm_def)
  moreover have "keeps en cont plain owner s ?t" by (rule keeps_trans [OF ic(2) keeps_trans [OF gc(1) k]])
  moreover have "stream_view cont ?t = stream_view cont s"
    using idles_view [OF ok2 id] gc(2) view1 by simp
  moreover have "belongs ?t x i" by (rule keepsD(2) [OF k gc(4)])
  moreover have "registered ?t x = Some i" using gc(3) id by (simp add: idles_def)
  moreover have "cont (hk_native ?t) = cont (hk_native s)" using gc(5) ic(1) by (simp add: idles_def)
  moreover have "hk_sources ?t = hk_sources s1" "hk_manager ?t = hk_manager s1"
    using sources_GetOrCreate [of en x identity s1] goc by simp_all
  moreover have "registered s x = Some j \<Longrightarrow> i = j \<and> hk_heap ?t = hk_heap s" for j
    using gc(6) [of j] ic(1,3) by (simp add: idles_def)
  ultimately show ?thesis using ic(4) ins by blast
qed

section \<open>Reads under the mutex\<close>

lemma upgrade_cases:
  assumes ok: "hooks_ok en cont plain owner s" and en: "engine_ok en cont" and reg: "registered s x = Some i"
    and v: "cont (hk_native s) x = Some v" and idok: "identity_ok plain (fst v) identity"
    and none: "ss_cacheData (hk_heap s ! i) = None" and "calm env" "upgrade_identity en env x identity i s = (b, s')"
  shows "b" "keeps en cont plain owner s s'" "stream_view cont s' = stream_view cont s"
    "hk_sources s' = hk_sources s" "hk_manager s' = hk_manager s"
    "\<exists>j. registered s' x = Some j \<and> ss_identity (hk_heap s' ! j) = identity"
proof -
  let ?st = "hk_heap s ! i"
  have st: "state_ok plain (dc_views (hk_cache s)) v ?st"
    using hooks_ok_state(1) [OF ok reg] v by auto
  have k: "si_totalSize identity \<noteq> 0 \<longrightarrow> unat (si_totalSize identity) = length (fst v)"
    using idok by (simp add: identity_ok_def)
  let ?gen = "si_source (ss_identity ?st) = si_source identity \<and> si_startOffset (ss_identity ?st) = si_startOffset identity"
  obtain cursor s1 where q: "(if ?gen \<and> ss_cursorKnown ?st then (Some (ss_logicalCursor ?st), s)
      else QueryCompressedLogicalCursor en x (si_totalSize identity) s) = (cursor, s1)" by fastforce
  have "(\<exists>c. cursor = Some c \<and> unat c = snd v) \<and> keeps en cont plain owner s s1 \<and> stream_view cont s1 = stream_view cont s \<and>
      registered s1 = registered s \<and> cont (hk_native s1) = cont (hk_native s) \<and>
      hk_sources s1 = hk_sources s \<and> hk_manager s1 = hk_manager s"
  proof (cases "?gen \<and> ss_cursorKnown ?st")
    case True
    then show ?thesis using q st none keeps_refl [OF ok] by (auto simp: state_ok_def)
  next
    case False
    then have "QueryCompressedLogicalCursor en x (si_totalSize identity) s = (cursor, s1)" using q by presburger
    with Query_keeps [OF ok en v k this] sources_Query [of en x "si_totalSize identity" s] show ?thesis by simp
  qed
  then obtain c where c: "cursor = Some c" "unat c = snd v" and s1: "keeps en cont plain owner s s1"
    "stream_view cont s1 = stream_view cont s" "registered s1 = registered s" "cont (hk_native s1) = cont (hk_native s)"
    and src: "hk_sources s1 = hk_sources s" "hk_manager s1 = hk_manager s"
    by blast
  let ?fresh = "(new_state identity c)\<lparr>ss_captureStatus := (if c = 0 then kCaptureEmpty else kCaptureInvalid)\<rparr>"
  obtain j s2 where m: "make_state ?fresh s1 = (j, s2)" by fastforce
  have ok1: "hooks_ok en cont plain owner s1" by (rule keepsD(1) [OF s1(1)])
  have v1: "cont (hk_native s1) x = Some v" using v s1(4) by simp
  have "state_ok plain (dc_views (hk_cache s1)) v ?fresh" by (rule new_state_ok [OF idok c(2)]) simp
  note mk = make_state_cases [OF ok1 m _ v1 this]
  have live: "\<not> ss_retired ?fresh" by (simp add: new_state_def)
  have ok2: "hooks_ok en cont plain owner s2" by (rule keepsD(1) [OF mk(1) [OF live]])
  have rok: "registry_ok s2" using ok2 by (simp add: hooks_ok_def)
  have reg2: "registered s2 x = Some i" using reg s1(3) mk(4) [OF live] by simp
  obtain b3 s3 where tr: "TryReplaceCompressedState x i j s2 = (b3, s3)" by fastforce
  note ts = TryReplace_swapped [OF rok tr]
  have b3: b3 using ts(1) reg2 by simp
  have "b \<and> s' = s3"
    using assms(7,8) q c(1) m tr b3
    by (simp add: upgrade_identity_def calm_def Let_def new_state_def cong: if_cong)
  moreover have "stream_view cont s2 x = Some v"
  proof -
    have "stream_view cont s x = Some v" using reg v none by (simp add: stream_view_def position_in_def)
    then show ?thesis using s1(2) mk(2) [OF live] by simp
  qed
  then have "cont (hk_native s2) x = Some w \<Longrightarrow> stream_view cont s2 x = Some w" for w
    using v1 mk(6) [OF live] by simp
  moreover have "ss_cacheData (hk_heap s2 ! j) = None" using mk(7) [OF live] by (simp add: new_state_def)
  ultimately have pf: "keeps en cont plain owner s2 s3" "stream_view cont s3 = stream_view cont s2" "b" "s' = s3"
    using publish_fresh [OF ok2 ts(2) [OF b3] mk(3) [OF live]] by blast+
  show "b" by (rule pf(3))
  show "keeps en cont plain owner s s'"
    unfolding pf(4) by (rule keeps_trans [OF s1(1) keeps_trans [OF mk(1) [OF live] pf(1)]])
  show "stream_view cont s' = stream_view cont s" using pf(2,4) mk(2) [OF live] s1(2) by simp
  show "hk_sources s' = hk_sources s" "hk_manager s' = hk_manager s"
    using src sources_make [of ?fresh s1] sources_TryReplace [of x i j s2] m tr by (simp_all add: pf(4))
  have sw: "swapped x (Some j) s2 s3" by (rule ts(2) [OF b3])
  have "registered s2 x \<noteq> Some j" using mk(3) [OF live] unfolding fresh_for_def by blast
  then have "hk_heap s3 ! j = ?fresh" using sw mk(7) [OF live] by (simp add: swapped_def)
  then show "\<exists>j. registered s' x = Some j \<and> ss_identity (hk_heap s' ! j) = identity"
    using sw by (simp add: pf(4) swapped_def new_state_def)
qed

lemma idles_count: "idles s (count_stat b k n s)" "idles s (record_path b p f s)"
  by (auto simp: idles_def fun_eq_iff registered_def)

text \<open>A stream without a side state shows its native position.\<close>

lemma original_cases:
  assumes ok: "hooks_ok en cont plain owner s" and en: "engine_ok en cont" and v: "cont (hk_native s) x = Some v"
    and none: "registered s x = None" and buf: "toRead = 0 \<or> buffer \<noteq> None"
    and "CallOriginalCompressedRead en env x buffer toRead read s = (r, s')"
  shows "keeps en cont plain owner s s'" "y \<noteq> x \<Longrightarrow> stream_view cont s' y = stream_view cont s y"
    "\<exists>w w'. stream_view cont s x = Some w \<and> stream_view cont s' x = Some w' \<and> read_outcome buffer toRead w r w'"
proof -
  obtain n where n: "en_read en x buffer toRead read (hk_native s) = (fst (ref_read buffer toRead v), n)"
    "cont n = (cont (hk_native s))(x \<mapsto> snd (ref_read buffer toRead v))" "same_fields en (hk_native s) n"
    using engine_read [OF en v buf] by blast
  let ?t = "s\<lparr>hk_native := n\<rparr>"
  have nk: "keeps en cont plain owner s ?t" "\<And>y. y \<noteq> x \<Longrightarrow> stream_view cont ?t y = stream_view cont s y"
    "stream_view cont ?t x = Some (snd (ref_read buffer toRead v))"
    using native_keeps [OF ok n(3,2) v ref_contents(1) disjI2 [OF none]] none by blast+
  obtain b p f where e: "r = fst (ref_read buffer toRead v)" "s' = record_path b p f ?t"
    using assms(6) n(1) by (auto simp: CallOriginalCompressedRead_def on_native_def split_beta)
  have id: "idles ?t s'" unfolding e(2) by (rule idles_count)
  have okt: "hooks_ok en cont plain owner ?t" by (rule keepsD(1) [OF nk(1)])
  have view: "stream_view cont s' = stream_view cont ?t" by (rule idles_view [OF okt id])
  have "keeps en cont plain owner ?t s'" by (rule idles_keeps_simple [OF okt id]) (simp_all add: e(2))
  then show "keeps en cont plain owner s s'" by (rule keeps_trans [OF nk(1)])
  show "y \<noteq> x \<Longrightarrow> stream_view cont s' y = stream_view cont s y" using view nk(2) by simp
  have "stream_view cont s x = Some v" using v none by (simp add: stream_view_def position_in_def)
  then show "\<exists>w w'. stream_view cont s x = Some w \<and> stream_view cont s' x = Some w' \<and> read_outcome buffer toRead w r w'"
    using nk(3) view e(1) by (auto simp: read_outcome_def)
qed

text \<open>A call under the mutex either starts over and has changed nothing, or has had its meaning.\<close>

definition call_step :: "('n \<Rightarrow> u64 \<rightharpoonup> bytes \<times> nat) \<Rightarrow> u64 \<Rightarrow> (bytes \<times> nat \<Rightarrow> 'r \<Rightarrow> bytes \<times> nat \<Rightarrow> bool) \<Rightarrow>
    'n hooks \<Rightarrow> 'r option \<Rightarrow> 'n hooks \<Rightarrow> bool" where
  "call_step cont x outcome s res s' \<longleftrightarrow>
     (\<forall>y. y \<noteq> x \<longrightarrow> stream_view cont s' y = stream_view cont s y) \<and>
     (case res of None \<Rightarrow> stream_view cont s' x = stream_view cont s x
      | Some r \<Rightarrow> (\<exists>w w'. stream_view cont s x = Some w \<and> stream_view cont s' x = Some w' \<and> outcome w r w'))"

lemma read_unknown_cases:
  assumes "fits en cont plain x i s" "engine_ok en cont" "ss_cacheData (hk_heap s ! i) = None"
    and "toRead = 0 \<or> buffer \<noteq> None" "read_unknown en env x buffer toRead read i s = (r, s')"
  shows "works en cont plain x i s s'" "fits en cont plain x i s'"
    "(r, view_by cont s' x i) = ref_read buffer toRead (view_by cont s x i)"
proof -
  let ?st = "hk_heap s ! i"
  obtain v where v: "cont (hk_native s) x = Some v" "state_ok plain (dc_views (hk_cache s)) v ?st"
    and i: "i < length (hk_heap s)" and c: "cache_truthful plain (hk_cache s)"
    using assms(1) unfolding fits_def by blast
  obtain r1 s1 where orig: "CallOriginalCompressedRead en env x buffer toRead read s = (r1, s1)" by fastforce
  note rd = on_native_read [OF assms(2) v(1) assms(4) orig]
  let ?v' = "snd (ref_read buffer toRead v)"
  have v1: "cont (hk_native s1) x = Some ?v'" using rd(5) by simp
  have "identity_ok plain (fst v) (ss_identity ?st)" using v(2) by (simp add: state_ok_def)
  then have k: "si_totalSize (ss_identity (hk_heap s1 ! i)) \<noteq> 0 \<longrightarrow>
      unat (si_totalSize (ss_identity (hk_heap s1 ! i))) = length (fst ?v')"
    using rd(3) by (simp add: identity_ok_def)
  obtain q s2 where q: "QueryCompressedLogicalCursor en x (si_totalSize (ss_identity (hk_heap s1 ! i))) s1 = (q, s2)"
    by fastforce
  note qc = Query_cases [OF assms(2) v1 k q]
  obtain p where p: "q = Some p" "unat p = snd ?v'" using qc(1) by blast
  let ?t = "update_state i (\<lambda>st. st\<lparr>ss_logicalCursor := p, ss_cursorKnown := True\<rparr>) s2"
  have e: "r = r1" "s' = abandon_capture i ?t"
    using assms(5) orig q p(1) by (simp_all add: read_unknown_def)
  have w: "works en cont plain x i s ?t"
    by (rule works_then(5) [OF works_trans [OF rd(2) qc(2)]]) simp
  have heap: "hk_heap ?t = (hk_heap s)[i := ?st\<lparr>ss_logicalCursor := p, ss_cursorKnown := True\<rparr>]"
    using rd(3) qc(3) by simp
  have vt: "cont (hk_native ?t) x = Some ?v'" using qc(5) v1 by simp
  have "state_ok plain (dc_views (hk_cache s)) ?v' (?st\<lparr>ss_logicalCursor := p, ss_cursorKnown := True\<rparr>)"
    by (rule state_ok_moved [OF v(2) assms(3) _ p(2)]) simp
  then have f: "fits en cont plain x i ?t"
    using i c vt rd(3,4) qc(3,4) by (intro fitsI [where v = ?v']) simp_all
  show "works en cont plain x i s s'" unfolding e(2)
    by (rule works_trans [OF w captures_works [OF captures_abandon(1) [OF captures_refl]]])
  show "fits en cont plain x i s'" unfolding e(2) by (rule fits_idle(1) [OF f])
  have "view_by cont s' x i = view_by cont ?t x i"
    unfolding e(2) by (rule captures_view [OF captures_abandon(1) [OF captures_refl]])
  also have "\<dots> = ?v'" using vt assms(3) i rd(3) qc(3) by (intro view_by_cached(2)) simp_all
  finally show "(r, view_by cont s' x i) = ref_read buffer toRead (view_by cont s x i)"
    using rd(1) view_by_cached(2) [of cont, OF v(1) assms(3)] by (simp add: e(1))
qed

text \<open>A registered state, from the moment the mutex is held.\<close>

lemma read_registered:
  assumes "fits en cont plain x i s" "engine_ok en cont" "toRead = 0 \<or> buffer \<noteq> None"
    and "\<not> ss_retired (hk_heap s ! i)" "ss_identity (hk_heap s ! i) = identity \<or> ss_cacheData (hk_heap s ! i) \<noteq> None"
    and "read_locked en env x buffer toRead read identity i s = (res, s')"
  shows "\<exists>r. res = Some r \<and> works en cont plain x i s s' \<and> fits en cont plain x i s' \<and>
    read_outcome buffer toRead (view_by cont s x i) r (view_by cont s' x i)"
proof (cases "ss_cursorKnown (hk_heap s ! i)")
  case False
  have "ss_cacheData (hk_heap s ! i) = None" using assms(1) False by (auto simp: fits_def state_ok_def)
  obtain r t where un: "read_unknown en env x buffer toRead read i s = (r, t)" by fastforce
  note ru = read_unknown_cases [OF assms(1,2) \<open>ss_cacheData (hk_heap s ! i) = None\<close> assms(3) un]
  have "res = Some r" "s' = t" using assms(4,5,6) False un \<open>ss_cacheData (hk_heap s ! i) = None\<close>
    by (auto simp: read_locked_def Let_def)
  then show ?thesis using ru by (simp add: read_outcome_def)
next
  case True
  define s1 where "s1 = TryAttachCachedEntry env i s"
  note at = TryAttach_cases [OF assms(1,2), of env, folded s1_def]
  define s2 where "s2 = count_stat (LoadPhaseAccelerationSuppressed env s \<and> measures env)
      ht_loadPhaseGrandfatheredCacheCalls_update 1 s1"
  have locked: "(res, s') = (if ss_cacheData (hk_heap s1 ! i) \<noteq> None
      then (case ServeCachedRead env i buffer toRead s2 of (r, s3) \<Rightarrow> (Some r, s3))
      else (case read_native en env x buffer toRead (LoadPhaseAccelerationSuppressed env s) identity i s1 of
              (r, s3) \<Rightarrow> (Some r, s3)))"
    using assms(4,5,6) True by (auto simp: read_locked_def Let_def s1_def s2_def)
  show ?thesis
  proof (cases "ss_cacheData (hk_heap s1 ! i) = None")
    case False
    have "captures i s1 s2" unfolding s2_def by (rule captures_count)
    have f2: "fits en cont plain x i s2" using at(2) by (simp add: fits_def s2_def)
    have "ss_cacheData (hk_heap s2 ! i) \<noteq> None" using False by (simp add: s2_def)
    obtain r t where sv: "ServeCachedRead env i buffer toRead s2 = (r, t)" by fastforce
    note sc = ServeCachedRead_cases [OF f2 assms(2) \<open>ss_cacheData (hk_heap s2 ! i) \<noteq> None\<close> assms(3) sv]
    have "view_by cont s2 x i = view_by cont s x i"
      using captures_view [OF \<open>captures i s1 s2\<close>] at(4) by metis
    moreover have "works en cont plain x i s t"
      by (rule works_trans [OF at(1) works_trans [OF captures_works [OF \<open>captures i s1 s2\<close>] sc(1)]])
    moreover have "res = Some r" "s' = t" using locked False sv by simp_all
    ultimately show ?thesis using sc(2,4) by (simp add: read_outcome_def)
  next
    case none: True
    obtain r t where rn: "read_native en env x buffer toRead (LoadPhaseAccelerationSuppressed env s) identity i s1 = (r, t)"
      by fastforce
    have w: "ss_identity (hk_heap s1 ! i) = ss_identity (hk_heap s ! i)" using at(1) by (simp add: works_def)
    have old: "ss_cacheData (hk_heap s ! i) = None" and kn: "ss_cursorKnown (hk_heap s1 ! i)"
      using at(5) none True by simp_all
    have "identity = ss_identity (hk_heap s1 ! i)" using assms(5) old w by simp
    note nc = read_native_cases [OF at(2) assms(2) none kn this assms(3) rn]
    have "res = Some r" "s' = t" using locked none rn by simp_all
    then show ?thesis using nc works_trans [OF at(1) nc(1)] at(4) by (simp add: read_outcome_def)
  qed
qed

lemma read_locked_cases:
  assumes ok: "hooks_ok en cont plain owner s" and en: "engine_ok en cont" and v: "cont (hk_native s) x = Some v"
    and idok: "identity_ok plain (fst v) identity" and "calm env" and bel: "belongs s x i"
    and buf: "toRead = 0 \<or> buffer \<noteq> None"
    and "read_locked en env x buffer toRead read identity i s = (res, s')"
  shows "keeps en cont plain owner s s'" "call_step cont x (read_outcome buffer toRead) s res s'"
    "registered s x = Some i \<Longrightarrow> ss_identity (hk_heap s ! i) = identity \<or> ss_cacheData (hk_heap s ! i) \<noteq> None \<Longrightarrow> res \<noteq> None"
    "registered s x = None \<Longrightarrow> res \<noteq> None"
proof -
  have "keeps en cont plain owner s s' \<and> call_step cont x (read_outcome buffer toRead) s res s' \<and>
    (registered s x = Some i \<longrightarrow> ss_identity (hk_heap s ! i) = identity \<or> ss_cacheData (hk_heap s ! i) \<noteq> None \<longrightarrow> res \<noteq> None) \<and>
    (registered s x = None \<longrightarrow> res \<noteq> None)"
  proof (cases "ss_retired (hk_heap s ! i)")
    case True
    have ni: "registered s x \<noteq> Some i" using hooks_ok_state(2) [OF ok, of x i] True by blast
    obtain b s1 where fr: "find_replacement x i s = (b, s1)" by fastforce
    note fk = find_replacement_keeps [OF ok fr]
    show ?thesis
    proof (cases b)
      case True
      then have "res = None" "s' = s1" using assms(8) fr \<open>ss_retired _\<close> by (simp_all add: read_locked_def Let_def)
      then show ?thesis using fk True ni by (auto simp: call_step_def)
    next
      case False
      have none: "registered s1 x = None" using fk(1,5) False ni by (cases "registered s x") auto
      obtain r t where orig: "CallOriginalCompressedRead en env x buffer toRead read s1 = (r, t)" by fastforce
      have v1: "cont (hk_native s1) x = Some v" using v fk(4) by simp
      note oc = original_cases [OF keepsD(1) [OF fk(2)] en v1 none buf orig]
      have "res = Some r" "s' = t" using assms(8) fr False orig \<open>ss_retired _\<close> by (simp_all add: read_locked_def Let_def)
      then show ?thesis using keeps_trans [OF fk(2) oc(1)] oc(2,3) fk(3) by (simp add: call_step_def)
    qed
  next
    case False
    then have reg: "registered s x = Some i" using bel by (simp add: belongs_def)
    show ?thesis
    proof (cases "ss_identity (hk_heap s ! i) = identity \<or> ss_cacheData (hk_heap s ! i) \<noteq> None")
      case True
      note f = hooks_ok_fits [OF ok reg]
      obtain r where r: "res = Some r" "works en cont plain x i s s'" "fits en cont plain x i s'"
        "read_outcome buffer toRead (view_by cont s x i) r (view_by cont s' x i)"
        using read_registered [OF f en buf False True assms(8)] by blast
      note wk = works_keeps [OF ok r(2) reg r(3)]
      show ?thesis
        using wk r(1,4) view_registered [of s x i cont, OF reg v] reg by (simp add: call_step_def)
    next
      case up: False
      obtain b t where ug: "upgrade_identity en env x identity i s = (b, t)" by fastforce
      have "ss_cacheData (hk_heap s ! i) = None" using up by simp
      note uc = upgrade_cases [OF ok en reg v idok this assms(5) ug]
      have "res = None" "s' = t" using assms(8) ug uc(1) up False by (simp_all add: read_locked_def Let_def)
      then show ?thesis using uc(2,3) up reg by (simp add: call_step_def)
    qed
  qed
  then show "keeps en cont plain owner s s'" "call_step cont x (read_outcome buffer toRead) s res s'"
    "registered s x = Some i \<Longrightarrow> ss_identity (hk_heap s ! i) = identity \<or> ss_cacheData (hk_heap s ! i) \<noteq> None \<Longrightarrow> res \<noteq> None"
    "registered s x = None \<Longrightarrow> res \<noteq> None" by blast+
qed

end
