(* ===== verification/ResolveAgain.thy ===== *)
theory ResolveAgain
  imports SourceCacheProofs
begin

text \<open>
  Resolving a source twice with the same view of the process gives the same archive: a hit
  stays a hit, and what a probe found is either recalled or found again.
\<close>

definition resolved_of :: "process_view \<Rightarrow> MemoryMapManager \<Rightarrow> u64 \<Rightarrow> learned option \<Rightarrow> nat option" where
  "resolved_of pv m source l =
     (if pv_lookupThrows pv then None
      else case recall (TryReadSourceInner pv source) (pv_lookupTick pv) l of
        Some cached \<Rightarrow> cached
      | None \<Rightarrow> if \<not> IsReadableRange (pv_query pv) source 0x30 then None
                else fst (resolve_by_name pv m (pv_word pv (source + 0x28))))"

lemma table_counters [simp]:
  "table_ok (t\<lparr>st_sourcesResolved := n\<rparr>) = table_ok t" "source_map (t\<lparr>st_sourcesResolved := n\<rparr>) = source_map t"
  "table_ok (t\<lparr>st_sourceSemanticMisses := n\<rparr>) = table_ok t" "source_map (t\<lparr>st_sourceSemanticMisses := n\<rparr>) = source_map t"
  "table_ok (t\<lparr>st_sourceStructuralBackoffs := n\<rparr>) = table_ok t" "source_map (t\<lparr>st_sourceStructuralBackoffs := n\<rparr>) = source_map t"
  using table_frame [of "t\<lparr>st_sourcesResolved := n\<rparr>" t] table_frame [of "t\<lparr>st_sourceSemanticMisses := n\<rparr>" t]
    table_frame [of "t\<lparr>st_sourceStructuralBackoffs := n\<rparr>" t] by simp_all

text \<open>What an insertion leaves to recall, when nothing was recalled before it.\<close>

lemma recall_learn:
  assumes "recall (Some i) now l = None" "l' = l \<or> (\<exists>until. l' = Some (i, NegativeSentinel, until))"
  shows "recall (Some i) now (learn k (i, ArchiveAt a, u) (m(k := l')) k) = Some (Some a)"
    "recall (Some i) now (learn k (i, NegativeSentinel, u) (m(k := l')) k) \<in> {None, Some None}"
  using assms by (cases l; auto simp: learn_def split: archive_ptr.splits if_splits)+

lemma recall_no_archive:
  "recall x now l = None \<Longrightarrow> l' = l \<or> (\<exists>until. l' = Some (the x, NegativeSentinel, until)) \<Longrightarrow>
     recall x now l' \<in> {None, Some None}"
  by (cases x) (auto split: if_splits)

lemma ResolveSource_result:
  assumes "table_ok t" "ResolveSource pv m source t = (r, t')" "source \<noteq> 0" "\<not> pv_insertThrows pv"
  shows "r = resolved_of pv m source (source_map t source)" "table_ok t'"
    "resolved_of pv m source (source_map t' source) = r"
proof -
  let ?inner = "pv_word pv (source + 0x28)" and ?read = "TryReadSourceInner pv source"
  obtain q u where q: "SourceLookup ?read (pv_lookupTick pv) source t = (q, u)" by fastforce
  note l = SourceLookup_recalls [OF assms(1) q]
  have tr: "?read = None \<or> ?read = Some ?inner \<and> ?inner \<noteq> 0"
    by (auto simp: TryReadSourceInner_def Let_def)
  have u: "source_map u = (source_map t)(source := source_map u source)"
    using l(3) by auto
  have "r = resolved_of pv m source (source_map t source) \<and> table_ok t' \<and>
    resolved_of pv m source (source_map t' source) = r"
  proof (cases "pv_lookupThrows pv")
    case True
    then show ?thesis using assms(1,2) by (auto simp: ResolveSource_def resolved_of_def)
  next
    case False
    note quiet = False
    show ?thesis
    proof (cases q)
      case (Some c)
      then have "r = c" "t' = u" "source_map u = source_map t" using assms(2) q quiet l(3) by (auto simp: ResolveSource_def)
      then show ?thesis using l(1,2) Some quiet by (simp add: resolved_of_def flip: l(2))
    next
      case None
      have miss: "recall ?read (pv_lookupTick pv) (source_map t source) = None" using l(2) None by simp
      have lu: "source_map u source = source_map t source \<or>
          (\<exists>until. source_map u source = Some (the ?read, NegativeSentinel, until))" using l(3) by auto
      have ru: "recall ?read (pv_lookupTick pv) (source_map u source) \<in> {None, Some None}"
        by (rule recall_no_archive [OF miss lu])
      show ?thesis
      proof (cases "IsReadableRange (pv_query pv) source 0x30")
        case False
        then have "r = None" "t' = u" using assms(2) q quiet None by (auto simp: ResolveSource_def)
        then show ?thesis using l(1) quiet miss ru False by (auto simp: resolved_of_def)
      next
        case True
        obtain p b where p: "resolve_by_name pv m ?inner = (p, b)" by fastforce
        have r: "r = p" using assms(2) q quiet None True p by (cases p) (auto simp: ResolveSource_def Let_def)
        have first: "r = resolved_of pv m source (source_map t source)"
          by (simp add: resolved_of_def quiet miss True p r)
        let ?arch = "case p of Some a \<Rightarrow> ArchiveAt a | None \<Rightarrow> NegativeSentinel"
        have t': "?inner = 0 \<and> table_ok t' \<and> source_map t' = source_map u \<or> ?inner \<noteq> 0 \<and> table_ok t' \<and>
            (\<exists>until. source_map t' = learn source (?inner, ?arch, until) (source_map u))"
        proof (cases "?inner = 0")
          case z: True
          then show ?thesis
            using assms(2) q quiet None True p l(1)
            by (cases p) (auto simp: ResolveSource_def Let_def SourceInsert_def)
        next
          case nz: False
          note ins = SourceInsert_learns [THEN conjunct1] SourceInsert_learns [THEN conjunct2]
          show ?thesis
            using assms(2-4) q quiet \<open>q = None\<close> nz True p l(1)
            by (cases p; cases b) (auto simp: ResolveSource_def Let_def ins)
        qed
        have "resolved_of pv m source (source_map t' source) = r"
        proof (cases "?read = None")
          case True
          then show ?thesis using \<open>IsReadableRange _ _ _\<close> quiet p r by (simp add: resolved_of_def)
        next
          case False
          then have some: "?read = Some ?inner" "?inner \<noteq> 0" using tr by auto
          then obtain until where m': "source_map t' = learn source (?inner, ?arch, until) ((source_map t)(source := source_map u source))"
            using t' u by metis
          have lu': "source_map u source = source_map t source \<or>
            (\<exists>until. source_map u source = Some (?inner, NegativeSentinel, until))" using lu some(1) by simp
          note rl = recall_learn [OF miss [unfolded some(1)] lu', where k = source and u = until and m = "source_map t", folded m']
          show ?thesis
            using rl(1) rl(2) quiet p r some(1) \<open>IsReadableRange _ _ _\<close> m' by (cases p) (auto simp: resolved_of_def)
        qed
        then show ?thesis using first t' by blast
      qed
    qed
  qed
  then show "r = resolved_of pv m source (source_map t source)" "table_ok t'"
    "resolved_of pv m source (source_map t' source) = r" by blast+
qed

lemma ResolveSource_again:
  assumes "table_ok t" "ResolveSource pv m source t = (r, t')" "source \<noteq> 0" "\<not> pv_insertThrows pv"
    and "ResolveSource pv m source t' = (r', t'')"
  shows "r' = r"
  using ResolveSource_result [OF assms(1-4)] ResolveSource_result(1) [OF _ assms(5,3,4)] by simp

end
