(* ===== verification/StreamRounds.thy ===== *)
theory StreamRounds
  imports StreamReads ResolveAgain
begin

text \<open>
  A read that replaces an outdated state starts over and finds the new state up to date, so it
  returns in the second round; a seek returns in the first.
\<close>

section \<open>Inspecting again\<close>

lemma declared_again:
  assumes aok: "archives_ok plain owner (hk_manager s)" and "\<forall>a. archive = Some a \<longrightarrow> (\<exists>inner. owner inner = Some a)"
    and "ResolveDeclaredDecompressedSize env archive off s = (k, s')" "hk_manager t = hk_manager s'"
  shows "fst (ResolveDeclaredDecompressedSize env archive off t) = k"
proof (cases archive)
  case None
  then show ?thesis using assms(3) by (simp add: ResolveDeclaredDecompressedSize_def)
next
  case (Some b)
  let ?m = "mm_archives (hk_manager s)"
  obtain inner where "owner inner = Some b" using assms(2) Some by blast
  then obtain f where f: "b < length ?m" "describes (?m ! b) f" "ma_valid (?m ! b)"
    using aok unfolding archives_ok_def by blast
  obtain d m' where g: "GetDeclaredDecompressedSize (he_io env) (?m ! b) off = (d, m')" by fastforce
  have again: "fst (GetDeclaredDecompressedSize (he_io env) m' off) = d"
    using GetDeclared_step [OF f(2,3) g] by (auto simp: memo_answer_def GetDeclaredDecompressedSize_def)
  have e: "k = (case d of None \<Rightarrow> 0 | Some n \<Rightarrow> n)"
    "hk_manager t = (hk_manager s)\<lparr>mm_archives := ?m[b := m']\<rparr>"
    using assms(3,4) Some g by (auto simp: ResolveDeclaredDecompressedSize_def)
  show ?thesis using again f(1) Some by (simp add: ResolveDeclaredDecompressedSize_def e split_beta)
qed

text \<open>Inspecting again gives the identity that the state made meanwhile has.\<close>

lemma resolve_again:
  assumes "hooks_ok en cont plain owner s" "\<not> pv_insertThrows (he_pv env)" "resolve_source env source s = (a, s1)"
    and "hk_sources t = hk_sources s1" "mm_nameIndex (hk_manager t) = mm_nameIndex (hk_manager s)"
    and "length (mm_archives (hk_manager t)) = length (mm_archives (hk_manager s))"
  shows "fst (resolve_source env source t) = a"
proof (cases "source = 0")
  case True
  then show ?thesis using assms(3) by (simp add: resolve_source_def)
next
  case False
  have names: "resolve_by_name (he_pv env) (hk_manager t) = resolve_by_name (he_pv env) (hk_manager s)"
    using assms(5,6) by (simp add: resolve_by_name_def FindIndexByName_def fun_eq_iff split: name_outcome.split option.split)
  have same: "ResolveSource (he_pv env) (hk_manager t) source w = ResolveSource (he_pv env) (hk_manager s) source w" for w
    unfolding ResolveSource_def names by (rule refl)
  have tok: "table_ok (hk_sources s)" using assms(1) by (simp add: hooks_ok_def owners_ok_def)
  obtain r u where rs: "ResolveSource (he_pv env) (hk_manager s) source (hk_sources s) = (r, u)" by fastforce
  obtain r' u' where rs': "ResolveSource (he_pv env) (hk_manager s) source u = (r', u')" by fastforce
  have "r' = r" by (rule ResolveSource_again [OF tok rs False assms(2) rs'])
  then show ?thesis using assms(3,4) False rs rs' by (auto simp: resolve_source_def same)
qed

lemma Inspect_parts:
  assumes "InspectCompressedStream en env x s = (identity, s')" "resolve_source env (en_source en (hk_native s) x) s = (a, s1)"
    and "registry_ok s1"
  shows "(\<exists>i. registered s1 x = Some i \<and> identity = ss_identity (hk_heap s1 ! i) \<and> si_totalSize identity \<noteq> 0 \<and>
      si_source identity = en_source en (hk_native s) x \<and> si_archive identity = a \<and>
      si_startOffset identity = en_startOffset en (hk_native s) x \<and> hk_sources s' = hk_sources s1 \<and> hk_manager s' = hk_manager s1) \<or>
    (\<exists>s2 k. hk_sources s2 = hk_sources s1 \<and> hk_manager s2 = hk_manager s1 \<and>
      (\<forall>i. registered s1 x = Some i \<longrightarrow>
        \<not> (si_source (ss_identity (hk_heap s1 ! i)) = en_source en (hk_native s) x \<and> si_archive (ss_identity (hk_heap s1 ! i)) = a \<and>
           si_startOffset (ss_identity (hk_heap s1 ! i)) = en_startOffset en (hk_native s) x \<and>
           si_totalSize (ss_identity (hk_heap s1 ! i)) > 0)) \<and>
      ResolveDeclaredDecompressedSize env a (en_startOffset en (hk_native s) x) s2 = (k, s') \<and>
      identity = \<lparr>si_source = en_source en (hk_native s) x, si_archive = a,
        si_startOffset = en_startOffset en (hk_native s) x, si_totalSize = k\<rparr>)"
proof -
  let ?src = "en_source en (hk_native s) x" and ?off = "en_startOffset en (hk_native s) x"
  obtain found s2 where f: "FindCompressedState x s1 = (found, s2)" by fastforce
  note fi = Find_idles [OF assms(3) f]
  obtain k s3 where d: "ResolveDeclaredDecompressedSize env a ?off s2 = (k, s3)" by fastforce
  show ?thesis
  proof (cases "\<exists>i. found = Some i \<and> si_source (ss_identity (hk_heap s2 ! i)) = ?src \<and>
      si_archive (ss_identity (hk_heap s2 ! i)) = a \<and> si_startOffset (ss_identity (hk_heap s2 ! i)) = ?off \<and>
      si_totalSize (ss_identity (hk_heap s2 ! i)) > 0")
    case True
    then obtain i where i: "found = Some i" "si_source (ss_identity (hk_heap s2 ! i)) = ?src"
      "si_archive (ss_identity (hk_heap s2 ! i)) = a" "si_startOffset (ss_identity (hk_heap s2 ! i)) = ?off"
      "si_totalSize (ss_identity (hk_heap s2 ! i)) > 0" by blast
    then have "(identity, s') = (ss_identity (hk_heap s2 ! i), s2)"
      using assms(1) by (auto simp: InspectCompressedStream_def Let_def assms(2) f)
    then show ?thesis using i fi(1,3-5) by (intro disjI1 exI [where x = i]) auto
  next
    case False
    then have "(identity, s') = (\<lparr>si_source = ?src, si_archive = a, si_startOffset = ?off, si_totalSize = k\<rparr>, s3)"
      using assms(1) by (cases found) (auto simp: InspectCompressedStream_def Let_def assms(2) f d)
    then show ?thesis
      using False d fi(1,3-5) by (intro disjI2 exI [where x = s2] exI [where x = k]) auto
  qed
qed

lemma resolve_frame:
  assumes "resolve_source env source s = (a, s')"
  shows "hk_heap s' = hk_heap s" "registered s' = registered s" "hk_memo s' = hk_memo s" "hk_manager s' = hk_manager s"
    "hk_native s' = hk_native s"
  using assms by (auto simp: resolve_source_def registered_def split: if_splits prod.splits)

lemma declared_frame:
  assumes "ResolveDeclaredDecompressedSize env archive off s = (k, s')"
  shows "hk_sources s' = hk_sources s" "mm_nameIndex (hk_manager s') = mm_nameIndex (hk_manager s)"
    "length (mm_archives (hk_manager s')) = length (mm_archives (hk_manager s))"
  using assms by (auto simp: ResolveDeclaredDecompressedSize_def split: option.splits prod.splits)

lemma Inspect_again:
  assumes ok: "hooks_ok en cont plain owner s" and lk: "linked en cont plain owner env s"
    and quiet: "\<not> pv_insertThrows (he_pv env)"
    and ins: "InspectCompressedStream en env x s = (identity, s')"
    and t: "hooks_ok en cont plain owner t" "hk_sources t = hk_sources s'" "hk_manager t = hk_manager s'"
      "same_fields en (hk_native s) (hk_native t)"
      "registered t x = Some j" "ss_identity (hk_heap t ! j) = identity"
  shows "fst (InspectCompressedStream en env x t) = identity"
proof -
  let ?src = "en_source en (hk_native s) x" and ?off = "en_startOffset en (hk_native s) x"
  obtain a s1 where rs: "resolve_source env ?src s = (a, s1)" by fastforce
  note rc = resolve_source_cases [OF ok lk rs] and rf = resolve_frame [OF rs]
  have rok1: "registry_ok s1" using keepsD(1) [OF rc(2)] by (simp add: hooks_ok_def)
  have aok: "archives_ok plain owner (hk_manager s1)" using keepsD(1) [OF rc(2)] by (simp add: hooks_ok_def)
  have own: "\<forall>b. a = Some b \<longrightarrow> (\<exists>inner. owner inner = Some b)" using rc(5) by blast
  note first = Inspect_parts [OF ins rs rok1]
  have names: "hk_sources s' = hk_sources s1 \<and> mm_nameIndex (hk_manager s') = mm_nameIndex (hk_manager s) \<and>
      length (mm_archives (hk_manager s')) = length (mm_archives (hk_manager s)) \<and>
      si_source identity = ?src \<and> si_archive identity = a \<and> si_startOffset identity = ?off"
    using first
  proof (elim disjE exE conjE)
    fix s2 k assume d: "ResolveDeclaredDecompressedSize env a ?off s2 = (k, s')"
      and "hk_sources s2 = hk_sources s1" "hk_manager s2 = hk_manager s1"
      "identity = \<lparr>si_source = ?src, si_archive = a, si_startOffset = ?off, si_totalSize = k\<rparr>"
    then show ?thesis using declared_frame [OF d] rf(4) by simp
  qed (simp add: rf(4))
  have fields: "en_source en (hk_native t) x = ?src" "en_startOffset en (hk_native t) x = ?off"
    using t(4) by (simp_all add: same_fields_def)
  obtain a2 t1 where rs2: "resolve_source env ?src t = (a2, t1)" by fastforce
  have "fst (resolve_source env ?src t) = a"
    using names t(2,3) by (intro resolve_again [OF ok quiet rs]) simp_all
  then have a2: "a2 = a" using rs2 by simp
  note rf2 = resolve_frame [OF rs2]
  have "registry_ok t1" using registry_ok_frame [OF rf2(2,1,3)] t(1) by (simp add: hooks_ok_def)
  obtain identity2 t2 where ins2: "InspectCompressedStream en env x t = (identity2, t2)" by fastforce
  note second = Inspect_parts [OF ins2 rs2 [folded fields(1)] \<open>registry_ok t1\<close>, unfolded fields a2 rf2(1,2) t(5)]
  have "identity2 = identity"
  proof (cases "si_totalSize identity = 0")
    case False
    then have "si_totalSize identity > 0" by (simp add: word_gt_0)
    from second show ?thesis
    proof (elim disjE exE conjE)
      fix i assume "Some j = Some i" "identity2 = ss_identity (hk_heap t ! i)"
      then show ?thesis using t(6) by simp
    next
      fix u k assume "\<forall>i. Some j = Some i \<longrightarrow>
          \<not> (si_source (ss_identity (hk_heap t ! i)) = ?src \<and> si_archive (ss_identity (hk_heap t ! i)) = a \<and>
             si_startOffset (ss_identity (hk_heap t ! i)) = ?off \<and> si_totalSize (ss_identity (hk_heap t ! i)) > 0)"
      then show ?thesis using t(6) names \<open>si_totalSize identity > 0\<close> by simp
    qed
  next
    case True
    then obtain s2 k where s2: "hk_manager s2 = hk_manager s1"
      "ResolveDeclaredDecompressedSize env a ?off s2 = (k, s')"
      "identity = \<lparr>si_source = ?src, si_archive = a, si_startOffset = ?off, si_totalSize = k\<rparr>"
      using first by blast
    have "\<exists>u k2. hk_manager u = hk_manager t1 \<and> ResolveDeclaredDecompressedSize env a ?off u = (k2, t2) \<and>
      identity2 = \<lparr>si_source = ?src, si_archive = a, si_startOffset = ?off, si_totalSize = k2\<rparr>"
      using second
    proof (elim disjE exE conjE)
      fix i assume "Some j = Some i" "identity2 = ss_identity (hk_heap t ! i)" "si_totalSize identity2 \<noteq> 0"
      then show ?thesis using t(6) True by simp
    qed blast
    then obtain u k2 where u: "hk_manager u = hk_manager t1" "ResolveDeclaredDecompressedSize env a ?off u = (k2, t2)"
      "identity2 = \<lparr>si_source = ?src, si_archive = a, si_startOffset = ?off, si_totalSize = k2\<rparr>" by blast
    have "fst (ResolveDeclaredDecompressedSize env a ?off u) = k"
      using aok s2(1,2) own u(1) rf2(4) t(3) by (intro declared_again) simp_all
    then show ?thesis using u s2(3) by simp
  qed
  then show ?thesis using ins2 by simp
qed

section \<open>The hooked read\<close>

text \<open>One round: under the mutex and out again, or back to the start.\<close>

lemma leave_step:
  assumes "hooks_ok en cont plain owner s'" "call_step cont x P s res s'"
  shows "call_step cont x P s res (leave_stream i s')"
  using assms(2) unfolding call_step_def leave_keeps(2) [OF assms(1)] .

definition stable :: "'n engine \<Rightarrow> hook_env \<Rightarrow> u64 \<Rightarrow> 'n hooks \<Rightarrow> bool" where
  "stable en env x s \<longleftrightarrow>
     (\<exists>j. registered s x = Some j \<and> fst (InspectCompressedStream en env x s) = ss_identity (hk_heap s ! j))"

lemma call_step_from:
  "stream_view cont s1 = stream_view cont s \<Longrightarrow> call_step cont x P s1 res s2 \<Longrightarrow> call_step cont x P s res s2"
  by (cases res) (simp_all add: call_step_def)

lemma note_suppressed_keeps:
  "idles s (note_suppressed env n s)" "hk_sources (note_suppressed env n s) = hk_sources s"
  "hk_manager (note_suppressed env n s) = hk_manager s" "hk_heap (note_suppressed env n s) = hk_heap s"
  "hk_native (note_suppressed env n s) = hk_native s" "registered (note_suppressed env n s) = registered s"
  "accelerates env (note_suppressed env n s) = accelerates env s"
  using idles_trans [OF idles_count(1) idles_count(1)]
  by (simp_all add: note_suppressed_def Let_def accelerates_def fun_eq_iff)

lemma read_round:
  assumes ok: "hooks_ok en cont plain owner s" and en: "engine_ok en cont" and lk: "linked en cont plain owner env s"
    and calm: "calm env" and quiet: "\<not> pv_insertThrows (he_pv env)" and v: "cont (hk_native s) x = Some v"
    and buf: "toRead = 0 \<or> buffer \<noteq> None"
  shows "\<exists>identity i s1 res s2. enter_stream en env x s = (Some (identity, i), s1) \<and>
    read_locked en env x buffer toRead read identity i s1 = (res, s2) \<and>
    keeps en cont plain owner s s2 \<and> call_step cont x (read_outcome buffer toRead) s res s2 \<and>
    (stable en env x s \<longrightarrow> res \<noteq> None) \<and>
    (res = None \<longrightarrow> (\<forall>n. stable en env x (note_suppressed env n s2)) \<and> (\<exists>w. cont (hk_native s2) x = Some w))"
proof -
  obtain identity i s1 where e: "enter_stream en env x s = (Some (identity, i), s1)" "keeps en cont plain owner s s1"
    "stream_view cont s1 = stream_view cont s" "belongs s1 x i" "registered s1 x = Some i"
    "identity_ok plain (fst v) identity" "cont (hk_native s1) = cont (hk_native s)"
    and found: "\<forall>j. registered s x = Some j \<longrightarrow> i = j \<and> hk_heap s1 = hk_heap s"
    and ins: "\<exists>s0. InspectCompressedStream en env x s = (identity, s0) \<and> hk_sources s1 = hk_sources s0 \<and> hk_manager s1 = hk_manager s0"
    using enter_cases [OF ok en v lk calm] by blast
  obtain s0 where s0: "InspectCompressedStream en env x s = (identity, s0)" "hk_sources s1 = hk_sources s0"
    "hk_manager s1 = hk_manager s0" using ins by blast
  have ok1: "hooks_ok en cont plain owner s1" by (rule keepsD(1) [OF e(2)])
  have v1: "cont (hk_native s1) x = Some v" using v e(7) by simp
  obtain res s2 where rl: "read_locked en env x buffer toRead read identity i s1 = (res, s2)" by fastforce
  note rc = read_locked_cases [OF ok1 en v1 e(6) calm e(4) buf rl]
  have k: "keeps en cont plain owner s s2" by (rule keeps_trans [OF e(2) rc(1)])
  have "stable en env x s \<longrightarrow> res \<noteq> None"
    using rc(3) e(5) found s0(1) by (auto simp: stable_def)
  moreover have "(\<forall>n. stable en env x (note_suppressed env n s2)) \<and> (\<exists>w. cont (hk_native s2) x = Some w)"
    if none: "res = None"
  proof -
    have old: "ss_identity (hk_heap s1 ! i) \<noteq> identity" "ss_cacheData (hk_heap s1 ! i) = None"
      using rc(3) [OF e(5)] none by blast+
    have live: "\<not> ss_retired (hk_heap s1 ! i)" using hooks_ok_state(2) [OF ok1 e(5)] by simp
    obtain b t where ug: "upgrade_identity en env x identity i s1 = (b, t)" by fastforce
    note uc = upgrade_cases [OF ok1 en e(5) v1 e(6) old(2) calm ug]
    have s2: "s2 = t" using rl ug uc(1) old live by (simp add: read_locked_def Let_def)
    then obtain j where j: "registered s2 x = Some j" "ss_identity (hk_heap s2 ! j) = identity" using uc(6) by blast
    have ok2: "hooks_ok en cont plain owner s2" by (rule keepsD(1) [OF k])
    have "stable en env x (note_suppressed env n s2)" for n
    proof -
      let ?t = "note_suppressed env n s2"
      note nk = note_suppressed_keeps [where env = env and n = n and s = s2]
      have "hooks_ok en cont plain owner ?t"
        by (rule keepsD(1) [OF idles_keeps_simple [OF ok2 nk(1-3)]])
      then have "fst (InspectCompressedStream en env x ?t) = identity"
        by (rule Inspect_again [OF ok lk quiet s0(1), where j = j])
          (use uc(4,5) s2 s0(2,3) k nk j in \<open>simp_all add: keeps_def\<close>)
      then show ?thesis using j nk by (auto simp: stable_def)
    qed
    then show ?thesis using hooks_ok_state(1) [OF ok2 j(1)] by blast
  qed
  ultimately show ?thesis using e(1) rl k call_step_from [OF e(3) rc(2)] by blast
qed

text \<open>The state in which every call works: nothing the hooks rely on is broken.\<close>

definition healthy :: "'n engine \<Rightarrow> ('n \<Rightarrow> u64 \<rightharpoonup> bytes \<times> nat) \<Rightarrow> (nat \<Rightarrow> u32 \<Rightarrow> bytes) \<Rightarrow> (u64 \<Rightarrow> nat option) \<Rightarrow>
    hook_env \<Rightarrow> 'n hooks \<Rightarrow> bool" where
  "healthy en cont plain owner env s \<longleftrightarrow> hooks_ok en cont plain owner s \<and> engine_ok en cont \<and>
     linked en cont plain owner env s \<and> calm env \<and> \<not> pv_insertThrows (he_pv env) \<and> accelerates env s"

lemma healthy_keeps:
  "healthy en cont plain owner env s \<Longrightarrow> keeps en cont plain owner s s' \<Longrightarrow> healthy en cont plain owner env s'"
  by (simp add: healthy_def keeps_def accelerates_def)

text \<open>An accelerated call has its bytes after one round, or after two.\<close>

lemma read_once:
  assumes h: "healthy en cont plain owner env s" and v: "cont (hk_native s) x = Some v" and buf: "toRead = 0 \<or> buffer \<noteq> None"
  shows "(\<exists>r s'. HookedCompDoRead en env x buffer toRead read s = Some (r, s') \<and>
      keeps en cont plain owner s s' \<and> call_step cont x (read_outcome buffer toRead) s (Some r) s') \<or>
    (\<exists>i s2. HookedCompDoRead en env x buffer toRead read s =
        Option.bind (HookedCompDoRead en env x buffer toRead read s2) (\<lambda>(r, s3). Some (r, leave_stream i s3)) \<and>
      keeps en cont plain owner s s2 \<and> call_step cont x (read_outcome buffer toRead) s None s2 \<and>
      (\<forall>n. stable en env x (note_suppressed env n s2)) \<and> (\<exists>w. cont (hk_native s2) x = Some w) \<and>
      \<not> stable en env x (note_suppressed env toRead s))"
proof -
  let ?s = "note_suppressed env toRead s"
  have ok: "hooks_ok en cont plain owner s" using h by (simp add: healthy_def)
  note nk = note_suppressed_keeps [where env = env and n = toRead and s = s]
  have k0: "keeps en cont plain owner s ?s" by (rule idles_keeps_simple [OF ok nk(1-3)])
  have view0: "stream_view cont ?s = stream_view cont s" by (rule idles_view [OF ok nk(1)])
  have h0: "healthy en cont plain owner env ?s" by (rule healthy_keeps [OF h k0])
  have v0: "cont (hk_native ?s) x = Some v" using v nk(5) by simp
  have acc: "accelerates env s" using h by (simp add: healthy_def)
  obtain identity i s1 res s2 where rr: "enter_stream en env x ?s = (Some (identity, i), s1)"
    "read_locked en env x buffer toRead read identity i s1 = (res, s2)"
    "keeps en cont plain owner ?s s2" "call_step cont x (read_outcome buffer toRead) ?s res s2"
    "stable en env x ?s \<longrightarrow> res \<noteq> None"
    "res = None \<longrightarrow> (\<forall>n. stable en env x (note_suppressed env n s2)) \<and> (\<exists>w. cont (hk_native s2) x = Some w)"
    using read_round [where cont = cont, OF _ _ _ _ _ v0 buf] h0 unfolding healthy_def by blast
  have k2: "keeps en cont plain owner s s2" by (rule keeps_trans [OF k0 rr(3)])
  have st2: "call_step cont x (read_outcome buffer toRead) s res s2" by (rule call_step_from [OF view0 rr(4)])
  show ?thesis
  proof (cases res)
    case (Some r)
    have "HookedCompDoRead en env x buffer toRead read s = Some (r, leave_stream i s2)"
      using acc rr(1,2) Some by (subst HookedCompDoRead.simps) simp
    moreover have "keeps en cont plain owner s (leave_stream i s2)"
      by (rule keeps_trans [OF k2 leave_keeps(1) [OF keepsD(1) [OF k2]]])
    moreover have "call_step cont x (read_outcome buffer toRead) s (Some r) (leave_stream i s2)"
      using leave_step [OF keepsD(1) [OF k2] st2] Some by simp
    ultimately show ?thesis by blast
  next
    case None
    have "HookedCompDoRead en env x buffer toRead read s =
        Option.bind (HookedCompDoRead en env x buffer toRead read s2) (\<lambda>(r, s3). Some (r, leave_stream i s3))"
      using acc rr(1,2) None by (subst HookedCompDoRead.simps) simp
    then show ?thesis using None rr(5,6) k2 st2 by blast
  qed
qed

lemma read_returns:
  assumes h: "healthy en cont plain owner env s" and v: "cont (hk_native s) x = Some v" and buf: "toRead = 0 \<or> buffer \<noteq> None"
  shows "\<exists>r s'. HookedCompDoRead en env x buffer toRead read s = Some (r, s') \<and>
    keeps en cont plain owner s s' \<and> call_step cont x (read_outcome buffer toRead) s (Some r) s'"
  using read_once [OF h v buf, where read = read]
proof
  assume "\<exists>i s2. HookedCompDoRead en env x buffer toRead read s =
        Option.bind (HookedCompDoRead en env x buffer toRead read s2) (\<lambda>(r, s3). Some (r, leave_stream i s3)) \<and>
      keeps en cont plain owner s s2 \<and> call_step cont x (read_outcome buffer toRead) s None s2 \<and>
      (\<forall>n. stable en env x (note_suppressed env n s2)) \<and> (\<exists>w. cont (hk_native s2) x = Some w) \<and>
      \<not> stable en env x (note_suppressed env toRead s)"
  then obtain i s2 w where two: "HookedCompDoRead en env x buffer toRead read s =
        Option.bind (HookedCompDoRead en env x buffer toRead read s2) (\<lambda>(r, s3). Some (r, leave_stream i s3))"
    "keeps en cont plain owner s s2" "call_step cont x (read_outcome buffer toRead) s None s2"
    "stable en env x (note_suppressed env toRead s2)" "cont (hk_native s2) x = Some w" by blast
  have "healthy en cont plain owner env s2" by (rule healthy_keeps [OF h two(2)])
  from read_once [OF this two(5) buf, where read = read] two(4)
  obtain r s3 where r: "HookedCompDoRead en env x buffer toRead read s2 = Some (r, s3)"
    "keeps en cont plain owner s2 s3" "call_step cont x (read_outcome buffer toRead) s2 (Some r) s3" by blast
  have ok3: "hooks_ok en cont plain owner s3" by (rule keepsD(1) [OF r(2)])
  have "call_step cont x (read_outcome buffer toRead) s2 (Some r) (leave_stream i s3)" by (rule leave_step [OF ok3 r(3)])
  then have "call_step cont x (read_outcome buffer toRead) s (Some r) (leave_stream i s3)"
    using two(3) by (auto simp: call_step_def)
  moreover have "keeps en cont plain owner s (leave_stream i s3)"
    by (rule keeps_trans [OF two(2) keeps_trans [OF r(2) leave_keeps(1) [OF ok3]]])
  ultimately show ?thesis using two(1) r(1) by auto
qed

end
