(* ===== verification/StreamSeeks.thy ===== *)
theory StreamSeeks
  imports StreamRounds
begin

text \<open>The seek under the mutex, and the whole seek.\<close>

lemma seek_cached_cases:
  assumes "fits en cont plain x i s" "engine_ok en cont" "ss_cacheData (hk_heap s ! i) \<noteq> None"
    and "seek_cached i offset mode position s = (r, s')"
  shows "works en cont plain x i s s'" "fits en cont plain x i s'"
    "(r, view_by cont s' x i) = ref_seek offset mode position (view_by cont s x i)"
proof -
  let ?st = "hk_heap s ! i"
  obtain v where v: "cont (hk_native s) x = Some v" "state_ok plain (dc_views (hk_cache s)) v ?st"
    and i: "i < length (hk_heap s)" and c: "cache_truthful plain (hk_cache s)"
    using assms(1) unfolding fits_def by blast
  have wf: "stream_wf v" using assms(2) v(1) by (rule engine_wf)
  have st: "unat (ss_cacheSize ?st) = length (fst v)" "unat (ss_logicalCursor ?st) \<le> length (fst v)" "ss_cursorKnown ?st"
    using v(2) assms(3) by (auto simp: state_ok_def)
  have view: "view_by cont s x i = (fst v, unat (ss_logicalCursor ?st))" using v(1) assms(3) by (rule view_by_cached(1))
  have "works en cont plain x i s s' \<and> fits en cont plain x i s' \<and>
    (r, view_by cont s' x i) = ref_seek offset mode position (view_by cont s x i)"
  proof (cases "seek_origin mode")
    case None
    then show ?thesis using assms(1,4) by (auto simp: seek_cached_def ref_seek_def view)
  next
    case (Some origin)
    have named: "origin \<noteq> kUnnamedOrigin" using Some by (cases mode) auto
    have ok: "cursor_ok 0 (ss_cacheSize ?st) (ss_logicalCursor ?st)"
      using st wf by (simp add: cursor_ok_def stream_wf_def)
    let ?n = "clamp_int (int (base_of origin (unat (ss_logicalCursor ?st)) (length (fst v))) + sint offset) (length (fst v))"
    let ?c = "word_of_nat ?n :: u32"
    have sought: "ClampSeek (ss_logicalCursor ?st) 0 (ss_cacheSize ?st) offset origin =
        \<lparr>sr_valid = True, sr_absoluteOffset = ?c, sr_relativeOffset = ?c\<rparr>"
      using ClampSeek_cases [of "ss_logicalCursor ?st" 0 "ss_cacheSize ?st" offset origin] ok named st(1)
      by (simp add: Let_def)
    have "length (fst v) < 4294967296" using wf by (simp add: stream_wf_def)
    then have lt: "?n \<le> length (fst v)" "?n < 4294967296"
      using order_le_less_trans [OF clamp_int_le] by simp_all
    then have u: "unat ?c = ?n" by (simp add: unat_of_nat take_bit_nat_eq_self)
    let ?t = "update_state i (\<lambda>st. st\<lparr>ss_logicalCursor := ?c, ss_cursorKnown := True\<rparr>) s"
    have e: "r = (kNone, u64_of_u32 ?c)" "s' = ResetCaptureAfterSeek i ?c ?t"
      using assms(4) Some by (auto simp: seek_cached_def sought Let_def)
    have w: "works en cont plain x i s ?t" by (rule works_update) simp
    have st': "hk_heap ?t ! i = ?st\<lparr>ss_logicalCursor := ?c, ss_cursorKnown := True\<rparr>" using i by simp
    have "state_ok plain (dc_views (hk_cache s)) v (?st\<lparr>ss_logicalCursor := ?c, ss_cursorKnown := True\<rparr>)"
      using v(2) assms(3) u lt(1) by (auto simp: state_ok_def)
    then have f: "fits en cont plain x i ?t"
      using v(1) i c by (intro fitsI [where v = v]) simp_all
    have vt: "view_by cont ?t x i = (fst v, ?n)"
      using v(1) i assms(3) u by (auto simp: view_by_def position_in_def)
    have rc: "captures i ?t s'" unfolding e(2) by (rule captures_abandon(2) [OF captures_refl])
    have "(u64_of_u32 ?c) = word_of_nat ?n" using lt(2) u by (intro eq_word_of_nat) simp
    then have "(r, view_by cont s' x i) = ref_seek offset mode position (view_by cont s x i)"
      using captures_view [OF rc, of cont x] vt by (simp add: ref_seek_def view Some Let_def e(1))
    moreover have "fits en cont plain x i s'" unfolding e(2) by (rule fits_idle(3) [OF f])
    ultimately show ?thesis using works_trans [OF w captures_works [OF rc]] by blast
  qed
  then show "works en cont plain x i s s'" "fits en cont plain x i s'"
    "(r, view_by cont s' x i) = ref_seek offset mode position (view_by cont s x i)" by blast+
qed

lemma ref_seek_cases:
  assumes "ref_seek offset mode position v = ((error, p), v')" "stream_wf v"
  shows "if error = kNone then unat p = snd v' else v' = v"
proof (cases "seek_origin mode")
  case (Some origin)
  let ?n = "clamp_int (int (base_of origin (snd v) (length (fst v))) + sint offset) (length (fst v))"
  have "length (fst v) < 18446744073709551616" using assms(2) by (simp add: stream_wf_def)
  then have "?n < 18446744073709551616" using order_le_less_trans [OF clamp_int_le] by simp
  then show ?thesis using assms(1) Some by (auto simp: ref_seek_def Let_def unat_of_nat take_bit_nat_eq_self)
qed (use assms in \<open>auto simp: ref_seek_def\<close>)

lemma state_ok_unknown:
  "state_ok plain views v st \<Longrightarrow> ss_cacheData st = None \<Longrightarrow> fst v' = fst v \<Longrightarrow>
     state_ok plain views v' (st\<lparr>ss_cursorKnown := False\<rparr>)"
  by (auto simp: state_ok_def)

lemma fits_count: "fits en cont plain x i (count_stat b k n s) = fits en cont plain x i s"
  by (simp add: fits_def)

lemma seek_native_cases:
  assumes "fits en cont plain x i s" "engine_ok en cont" "ss_cacheData (hk_heap s ! i) = None"
    and "seek_native en x offset mode position i s = (r, s')"
  shows "works en cont plain x i s s'" "fits en cont plain x i s'"
    "(r, view_by cont s' x i) = ref_seek offset mode position (view_by cont s x i)"
proof -
  let ?st = "hk_heap s ! i"
  obtain v where v: "cont (hk_native s) x = Some v" "state_ok plain (dc_views (hk_cache s)) v ?st"
    and i: "i < length (hk_heap s)" and c: "cache_truthful plain (hk_cache s)"
    using assms(1) unfolding fits_def by blast
  have wf: "stream_wf v" using assms(2) v(1) by (rule engine_wf)
  have view: "view_by cont s x i = v" using v(1) assms(3) by (rule view_by_cached(2))
  obtain error p s1 where sk: "on_native (en_seek en x offset mode position) s = ((error, p), s1)" by (metis prod.exhaust)
  note ns = on_native_seek [OF assms(2) v(1) sk]
  define v' where "v' = snd (ref_seek offset mode position v)"
  have ref: "ref_seek offset mode position v = ((error, p), v')" using ns(1) by (simp add: v'_def prod_eq_iff)
  have wf': "stream_wf v'" "fst v' = fst v" using stream_wf_seek [OF wf] by (simp_all add: v'_def)
  have v1: "cont (hk_native s1) x = Some v'" using ns(5) by (simp add: v'_def)
  have rc: "if error = kNone then unat p = snd v' else v' = v" by (rule ref_seek_cases [OF ref wf])
  have fin: "works en cont plain x i s s' \<and> fits en cont plain x i s' \<and> view_by cont s' x i = v'"
    if st: "state_ok plain (dc_views (hk_cache s)) v' (f ?st)" "ss_cacheData (f ?st) = None"
      "\<And>st. ss_retired (f st) = ss_retired st \<and> ss_identity (f st) = ss_identity st"
      and cap: "captures i (update_state i f s1) s'"
        "fits en cont plain x i (update_state i f s1) \<Longrightarrow> fits en cont plain x i s'" for f
  proof -
    let ?t = "update_state i f s1"
    have "works en cont plain x i s ?t" by (rule works_then(5) [OF ns(2)]) (rule st(3))
    moreover have "fits en cont plain x i ?t"
      using st(1) i c v1 ns(3,4) by (intro fitsI [where v = v']) simp_all
    moreover have "view_by cont ?t x i = v'"
      using v1 st(2) i ns(3) by (intro view_by_cached(2)) simp_all
    ultimately show ?thesis
      using cap(2) works_trans [OF _ captures_works [OF cap(1)]] captures_view [OF cap(1), of cont x] by metis
  qed
  have "r = (error, p) \<and> works en cont plain x i s s' \<and> fits en cont plain x i s' \<and> view_by cont s' x i = v'"
  proof (cases "error = kNone \<and> p \<le> u64_of_u32 u32_max \<and>
      (si_totalSize (ss_identity ?st) = 0 \<or> p \<le> u64_of_u32 (si_totalSize (ss_identity ?st)))")
    case True
    let ?f = "\<lambda>st. st\<lparr>ss_logicalCursor := u32_of_u64 p, ss_cursorKnown := True\<rparr>"
    let ?t = "update_state i ?f s1"
    have up: "unat (u32_of_u64 p) = snd v'" using rc True wf' by (simp add: stream_wf_def)
    have e: "r = (error, p)" "s' = ?t \<or> (\<exists>b. s' = ResetCaptureAfterSeek i (u32_of_u64 p)
        (count_stat b ht_captureSeekInvalidations_update 1 ?t))"
      using assms(4) sk True ns(3) by (auto simp: seek_native_def Let_def split: if_splits)
    have ok: "state_ok plain (dc_views (hk_cache s)) v' (?f ?st)"
      by (rule state_ok_moved [OF v(2) assms(3) wf'(2) up])
    have cap: "captures i ?t s'"
      using e(2) captures_abandon(2) [OF captures_then(1) [OF captures_refl]] by auto
    have "fits en cont plain x i s'" if "fits en cont plain x i ?t"
    proof -
      have "fits en cont plain x i (count_stat b ht_captureSeekInvalidations_update 1 ?t)" for b
        using that unfolding fits_count .
      then show ?thesis using e(2) that fits_idle(3) by metis
    qed
    then show ?thesis using fin [OF ok _ _ cap] assms(3) e(1) by simp
  next
    case False
    have "error \<noteq> kNone"
    proof
      assume none: "error = kNone"
      then have "unat p = snd v'" using rc by simp
      moreover have "si_totalSize (ss_identity ?st) \<noteq> 0 \<longrightarrow> unat (si_totalSize (ss_identity ?st)) = length (fst v)"
        using v(2) by (simp add: state_ok_def identity_ok_def)
      ultimately show False using False none wf' by (auto simp: word_le_nat_alt stream_wf_def)
    qed
    let ?f = "\<lambda>st. st\<lparr>ss_cursorKnown := False\<rparr>"
    have e: "r = (error, p)" "s' = abandon_capture i (update_state i ?f s1)"
      using assms(4) sk \<open>error \<noteq> kNone\<close> ns(3) by (auto simp: seek_native_def Let_def)
    have ok: "state_ok plain (dc_views (hk_cache s)) v' (?f ?st)"
      by (rule state_ok_unknown [OF v(2) assms(3) wf'(2)])
    have cap: "captures i (update_state i ?f s1) s'" "fits en cont plain x i (update_state i ?f s1) \<Longrightarrow> fits en cont plain x i s'"
      unfolding e(2) by (rule captures_abandon(1) [OF captures_refl]) (rule fits_idle(1))
    show ?thesis using fin [OF ok _ _ cap] assms(3) e(1) by simp
  qed
  then show "works en cont plain x i s s'" "fits en cont plain x i s'"
    "(r, view_by cont s' x i) = ref_seek offset mode position (view_by cont s x i)"
    using ref by (simp_all add: view)
qed

definition seek_outcome :: "u64 \<Rightarrow> SeekMode \<Rightarrow> u64 \<Rightarrow> bytes \<times> nat \<Rightarrow> ErrorCode \<times> u64 \<Rightarrow> bytes \<times> nat \<Rightarrow> bool" where
  "seek_outcome offset mode position v r v' \<longleftrightarrow> (r, v') = ref_seek offset mode position v"

lemma seek_unregistered:
  assumes ok: "hooks_ok en cont plain owner s" and en: "engine_ok en cont" and v: "cont (hk_native s) x = Some v"
    and none: "registered s x = None" and sk: "on_native (en_seek en x offset mode position) s = (r, s')"
  shows "keeps en cont plain owner s s'" "call_step cont x (seek_outcome offset mode position) s (Some r) s'"
proof -
  note ns = on_native_seek [OF en v sk]
  note nk = native_keeps [OF ok ns(7,5) v ref_contents(2) disjI2 [OF none], folded ns(6)]
  show "keeps en cont plain owner s s'" by (rule nk(1))
  have "stream_view cont s x = Some v" using v none by (simp add: stream_view_def position_in_def)
  then show "call_step cont x (seek_outcome offset mode position) s (Some r) s'"
    using nk(2,3) none ns(1) by (simp add: call_step_def seek_outcome_def)
qed

lemma seek_locked_cases:
  assumes ok: "hooks_ok en cont plain owner s" and en: "engine_ok en cont" and v: "cont (hk_native s) x = Some v"
    and bel: "belongs s x i" and sl: "seek_locked en env x offset mode position i s = (res, s')"
  shows "keeps en cont plain owner s s'" "call_step cont x (seek_outcome offset mode position) s res s'"
    "registered s x = Some i \<Longrightarrow> res \<noteq> None"
proof -
  have "keeps en cont plain owner s s' \<and> call_step cont x (seek_outcome offset mode position) s res s' \<and>
    (registered s x = Some i \<longrightarrow> res \<noteq> None)"
  proof (cases "ss_retired (hk_heap s ! i)")
    case True
    have ni: "registered s x \<noteq> Some i" using hooks_ok_state(2) [OF ok, of x i] True by blast
    obtain b s1 where fr: "find_replacement x i s = (b, s1)" by fastforce
    note fk = find_replacement_keeps [OF ok fr]
    show ?thesis
    proof (cases b)
      case True
      then have "res = None" "s' = s1" using sl fr \<open>ss_retired _\<close> by (simp_all add: seek_locked_def Let_def)
      then show ?thesis using fk True ni by (auto simp: call_step_def)
    next
      case False
      have none: "registered s1 x = None" using fk(1,5) False ni by (cases "registered s x") auto
      obtain r t where nat: "on_native (en_seek en x offset mode position) s1 = (r, t)" by fastforce
      have v1: "cont (hk_native s1) x = Some v" using v fk(4) by simp
      note su = seek_unregistered [OF keepsD(1) [OF fk(2)] en v1 none nat]
      have "res = Some r" "s' = t" using sl fr False nat \<open>ss_retired _\<close> by (simp_all add: seek_locked_def Let_def)
      then show ?thesis using keeps_trans [OF fk(2) su(1)] call_step_from [OF fk(3) su(2)] ni by simp
    qed
  next
    case False
    then have reg: "registered s x = Some i" using bel by (simp add: belongs_def)
    note f = hooks_ok_fits [OF ok reg]
    define s1 where "s1 = TryAttachCachedEntry env i s"
    note at = TryAttach_cases [OF f en, of env, folded s1_def]
    have full: "ss_cacheData (hk_heap s1 ! i) \<noteq> None \<Longrightarrow> ss_cacheSize (hk_heap s1 ! i) > 0"
      using at(2) by (auto simp: fits_def state_ok_def word_gt_0)
    obtain r t where rt: "(if ss_cacheData (hk_heap s1 ! i) \<noteq> None then seek_cached i offset mode position s1
        else seek_native en x offset mode position i s1) = (r, t)" by fastforce
    have e: "res = Some r" "s' = t"
      using sl False rt full by (auto simp: seek_locked_def Let_def s1_def split: if_splits)
    have sc: "works en cont plain x i s1 t \<and> fits en cont plain x i t \<and>
        (r, view_by cont t x i) = ref_seek offset mode position (view_by cont s1 x i)"
    proof (cases "ss_cacheData (hk_heap s1 ! i) = None")
      case True
      then show ?thesis using seek_native_cases [OF at(2) en True] rt by simp
    next
      case cached: False
      then show ?thesis using seek_cached_cases [OF at(2) en cached] rt by simp
    qed
    have w: "works en cont plain x i s t" using works_trans [OF at(1)] sc by blast
    note wk = works_keeps [OF ok w reg]
    have "stream_view cont s x = Some (view_by cont s x i)" using reg v by (rule view_registered)
    then show ?thesis using wk sc at(4) e by (simp add: call_step_def seek_outcome_def)
  qed
  then show "keeps en cont plain owner s s'" "call_step cont x (seek_outcome offset mode position) s res s'"
    "registered s x = Some i \<Longrightarrow> res \<noteq> None" by blast+
qed

text \<open>A seek always returns in its first round.\<close>

lemma seek_returns:
  assumes h: "healthy en cont plain owner env s" and v: "cont (hk_native s) x = Some v"
  shows "\<exists>r s'. HookedCompDoSeek en env x offset mode position s = Some (r, s') \<and>
    keeps en cont plain owner s s' \<and> call_step cont x (seek_outcome offset mode position) s (Some r) s'"
proof -
  have ok: "hooks_ok en cont plain owner s" and en: "engine_ok en cont" and lk: "linked en cont plain owner env s"
    and calm: "calm env" and acc: "accelerates env s" using h by (simp_all add: healthy_def)
  obtain identity i s1 where e: "enter_stream en env x s = (Some (identity, i), s1)" "keeps en cont plain owner s s1"
    "stream_view cont s1 = stream_view cont s" "belongs s1 x i" "registered s1 x = Some i"
    "cont (hk_native s1) = cont (hk_native s)"
    using enter_cases [OF ok en v lk calm] by blast
  have ok1: "hooks_ok en cont plain owner s1" by (rule keepsD(1) [OF e(2)])
  have v1: "cont (hk_native s1) x = Some v" using v e(6) by simp
  obtain res s2 where sl: "seek_locked en env x offset mode position i s1 = (res, s2)" by fastforce
  note sc = seek_locked_cases [OF ok1 en v1 e(4) sl]
  obtain r where r: "res = Some r" using sc(3) [OF e(5)] by blast
  have k: "keeps en cont plain owner s s2" by (rule keeps_trans [OF e(2) sc(1)])
  have ok2: "hooks_ok en cont plain owner s2" by (rule keepsD(1) [OF k])
  have "HookedCompDoSeek en env x offset mode position s = Some (r, leave_stream i s2)"
    using acc e(1) sl r by (subst HookedCompDoSeek.simps) simp
  moreover have "keeps en cont plain owner s (leave_stream i s2)"
    by (rule keeps_trans [OF k leave_keeps(1) [OF ok2]])
  moreover have "call_step cont x (seek_outcome offset mode position) s (Some r) (leave_stream i s2)"
    using leave_step [OF ok2 call_step_from [OF e(3) sc(2)]] r by simp
  ultimately show ?thesis by blast
qed

end
