(* ===== verification/StreamLife.thy ===== *)
theory StreamLife
  imports StreamSeeks
begin

text \<open>
  The life of a stream: opening, closing and destroying retire its state, and a clone starts
  where its parent is, with the payload the parent is served from or with a native stream moved
  to the parent's position.
\<close>

section \<open>Clones\<close>

text \<open>What a call keeps that may make or end streams.\<close>

definition keeps_calls :: "'n engine \<Rightarrow> ('n \<Rightarrow> u64 \<rightharpoonup> bytes \<times> nat) \<Rightarrow> (nat \<Rightarrow> u32 \<Rightarrow> bytes) \<Rightarrow> (u64 \<Rightarrow> nat option) \<Rightarrow>
    'n hooks \<Rightarrow> 'n hooks \<Rightarrow> bool" where
  "keeps_calls en cont plain owner s s' \<longleftrightarrow> hooks_ok en cont plain owner s' \<and>
     (\<forall>y i. belongs s y i \<longrightarrow> belongs s' y i) \<and>
     hk_hooksActive s' = hk_hooksActive s \<and> hk_engineLoadActive s' = hk_engineLoadActive s"

lemma keeps_calls: "keeps en cont plain owner s s' \<Longrightarrow> keeps_calls en cont plain owner s s'"
  by (simp add: keeps_def keeps_calls_def)

lemma keeps_calls_trans:
  "keeps_calls en cont plain owner s t \<Longrightarrow> keeps_calls en cont plain owner t u \<Longrightarrow> keeps_calls en cont plain owner s u"
  by (simp add: keeps_calls_def)

text \<open>The game makes a new stream or changes one that has no side state.\<close>

lemma native_other:
  assumes ok: "hooks_ok en cont plain owner s" and "others_kept en cont x (hk_native s) n" "registered s x = None"
  shows "keeps_calls en cont plain owner s (s\<lparr>hk_native := n\<rparr>)"
    "y \<noteq> x \<Longrightarrow> stream_view cont (s\<lparr>hk_native := n\<rparr>) y = stream_view cont s y"
    "stream_view cont (s\<lparr>hk_native := n\<rparr>) x = cont n x"
proof -
  let ?t = "s\<lparr>hk_native := n\<rparr>"
  have "registry_ok ?t = registry_ok s" by (rule registry_ok_frame) simp_all
  moreover have "registered s y = Some i \<Longrightarrow> cont n y = cont (hk_native s) y" for y i
    using assms(2,3) by (cases "y = x") (auto simp: others_kept_def)
  ultimately have "hooks_ok en cont plain owner ?t"
    using ok unfolding hooks_ok_def by simp
  then show "keeps_calls en cont plain owner s ?t" by (simp add: keeps_calls_def belongs_def)
  show "y \<noteq> x \<Longrightarrow> stream_view cont ?t y = stream_view cont s y"
    using assms(2) by (simp add: stream_view_def others_kept_def)
  show "stream_view cont ?t x = cont n x"
    using assms(3) by (cases "cont n x") (simp_all add: stream_view_def position_in_def)
qed

lemma linked_clone:
  assumes "linked en cont plain owner env s" "others_kept en cont c (hk_native s) n" "cont n c = cont (hk_native s) x"
    and "en_source en n c = en_source en (hk_native s) x" "en_startOffset en n c = en_startOffset en (hk_native s) x"
  shows "linked en cont plain owner env (s\<lparr>hk_native := n\<rparr>)"
  unfolding linked_def
proof (intro conjI allI impI)
  fix inner a b
  assume "resolve_by_name (he_pv env) (hk_manager (s\<lparr>hk_native := n\<rparr>)) inner = (Some a, b)"
  then show "owner inner = Some a" using assms(1) unfolding linked_def by simp
next
  fix y v a
  let ?z = "if y = c then x else y"
  assume "cont (hk_native (s\<lparr>hk_native := n\<rparr>)) y = Some v"
    "owner (pv_word (he_pv env) (en_source en (hk_native (s\<lparr>hk_native := n\<rparr>)) y + 0x28)) = Some a"
  then have "cont (hk_native s) ?z = Some v"
    "owner (pv_word (he_pv env) (en_source en (hk_native s) ?z + 0x28)) = Some a"
    using assms(2-4) by (auto simp: others_kept_def)
  then have "fst v = plain a (en_startOffset en (hk_native s) ?z)" using assms(1) unfolding linked_def by blast
  then show "fst v = plain a (en_startOffset en (hk_native (s\<lparr>hk_native := n\<rparr>)) y)"
    using assms(2,5) by (auto simp: others_kept_def)
qed

lemma retire_keeps:
  assumes ok: "hooks_ok en cont plain owner s" and "x \<noteq> 0"
  shows "keeps en cont plain owner s (RetireCompressedState x s)"
    "y \<noteq> x \<Longrightarrow> stream_view cont (RetireCompressedState x s) y = stream_view cont s y"
    "stream_view cont (RetireCompressedState x s) x = cont (hk_native s) x"
    "registered (RetireCompressedState x s) x = None" "hk_native (RetireCompressedState x s) = hk_native s"
proof -
  have rok: "registry_ok s" using ok by (simp add: hooks_ok_def)
  have sw: "swapped x None s (RetireCompressedState x s)" by (rule Retire_swapped [OF rok assms(2)])
  have none: "(None :: nat option) = Some j \<Longrightarrow> fresh_for cont plain x j s" for j by simp
  note sk = swapped_keeps [OF ok sw none]
  show "keeps en cont plain owner s (RetireCompressedState x s)"
    "y \<noteq> x \<Longrightarrow> stream_view cont (RetireCompressedState x s) y = stream_view cont s y"
    using sk(1) sk(2) [of y] by simp_all
  show "stream_view cont (RetireCompressedState x s) x = cont (hk_native s) x"
    using sk(3) by (cases "cont (hk_native s) x") (simp_all add: position_in_def)
  show "registered (RetireCompressedState x s) x = None" "hk_native (RetireCompressedState x s) = hk_native s"
    using sw by (simp_all add: swapped_def)
qed

text \<open>Publishing what a clone has: its state shows \<open>w\<close>, or without one the native stream does.\<close>

lemma publish_clone_cases:
  assumes ok: "hooks_ok en cont plain owner s" and c: "c \<noteq> 0" "c \<noteq> x" "registered s c = None"
    and v: "cont (hk_native s) c = Some v"
    and st: "\<forall>st. cloneState = Some st \<longrightarrow> \<not> ss_retired st \<and> state_ok plain (dc_views (hk_cache s)) v st \<and>
      position_in (Some st) (snd v) = snd v"
  shows "keeps en cont plain owner s (publish_clone env x c cloneState s)"
    "y \<noteq> c \<Longrightarrow> stream_view cont (publish_clone env x c cloneState s) y = stream_view cont s y"
    "stream_view cont (publish_clone env x c cloneState s) c = Some v"
proof -
  let ?t = "publish_clone env x c cloneState s"
  have "keeps en cont plain owner s ?t \<and> (\<forall>y. y \<noteq> c \<longrightarrow> stream_view cont ?t y = stream_view cont s y) \<and>
    stream_view cont ?t c = Some v"
  proof (cases "cloneState = None \<or> he_replaceThrows env")
    case True
    then have "?t = RetireCompressedState c s" using c by (auto simp: publish_clone_def split: option.split)
    then show ?thesis using retire_keeps [OF ok c(1)] v by simp
  next
    case False
    then obtain st0 where s0: "cloneState = Some st0" by auto
    have st0: "\<not> ss_retired st0 \<and> state_ok plain (dc_views (hk_cache s)) v st0 \<and> position_in (Some st0) (snd v) = snd v"
      using st s0 by blast
    obtain j s1 where m: "make_state st0 s = (j, s1)" by fastforce
    note mk = make_state_cases [OF ok m _ v]
    have live: "\<not> ss_retired st0" and so: "state_ok plain (dc_views (hk_cache s)) v st0" using st0 by simp_all
    note mk = mk [OF live so]
    have ok1: "hooks_ok en cont plain owner s1" by (rule keepsD(1) [OF mk(1)])
    have "registry_ok s1" using ok1 by (simp add: hooks_ok_def)
    then have sw: "swapped c (Some j) s1 (ReplaceCompressedState c j s1)" by (rule Replace_swapped)
    have new: "Some j = Some k \<Longrightarrow> fresh_for cont plain c k s1" for k using mk(3) by simp
    note sk = swapped_keeps [OF ok1 sw new]
    have t: "?t = ReplaceCompressedState c j s1" using False c s0 m by (simp add: publish_clone_def)
    have "stream_view cont (ReplaceCompressedState c j s1) c = Some v"
      using sk(3) v mk(6,7) st0 by simp
    then show ?thesis unfolding t using keeps_trans [OF mk(1) sk(1)] sk(2) mk(2) by simp
  qed
  then show "keeps en cont plain owner s ?t" "y \<noteq> c \<Longrightarrow> stream_view cont ?t y = stream_view cont s y"
    "stream_view cont ?t c = Some v" by blast+
qed

text \<open>The side state of a clone whose native stream is where its parent is.\<close>

lemma ref_seek_set:
  assumes "stream_wf v" "unat c \<le> length (fst v)"
  shows "ref_seek (u64_of_u32 c) SeekSet 0 v = ((kNone, u64_of_u32 c), (fst v, unat c))"
proof -
  have u: "uint (u64_of_u32 c) = int (unat c)" by (metis uint_nat unat_u64_of_u32)
  have "unat c < 4294967296" by simp
  then have "int (unat c) < 9223372036854775808" by linarith
  then have "sint (u64_of_u32 c) = int (unat c)" unfolding sint_u64 u by (rule if_P)
  then have r: "clamp_int (int (base_of kBegin (snd v) (length (fst v))) + sint (u64_of_u32 c)) (length (fst v)) = unat c"
    using assms(2) by (simp add: clamp_int_def)
  have "(word_of_nat (unat c) :: u64) = u64_of_u32 c" by (rule eq_word_of_nat [symmetric]) simp
  then show ?thesis using r by (simp add: ref_seek_def Let_def)
qed

lemma state_ok_inherit:
  assumes "state_ok plain views v parent" "ss_cacheData parent \<noteq> None \<or> unat (ss_logicalCursor parent) = snd w"
    and "fst w = fst v" "identity_ok plain (fst v) identity" "ss_cursorKnown parent" "status \<noteq> kCaptureActive"
  shows "state_ok plain views w (inherit_payload parent ((new_state identity (ss_logicalCursor parent))\<lparr>ss_captureStatus := status\<rparr>))"
  using assms by (auto simp: state_ok_def inherit_payload_def new_state_def)

lemma prepare_clone_cases:
  assumes ok: "hooks_ok en cont plain owner s" and en: "engine_ok en cont" and lk: "linked en cont plain owner env s"
    and calm: "calm env" and none: "registered s c = None" and v: "cont (hk_native s) c = Some v"
    and par: "state_ok plain (dc_views (hk_cache s)) v parent" "ss_cursorKnown parent"
    and "prepare_clone en env c parent s = ((cloneState, refused), s')"
  defines "w \<equiv> (fst v, unat (ss_logicalCursor parent))"
  shows "\<not> refused" "keeps en cont plain owner s s'" "\<And>y. y \<noteq> c \<Longrightarrow> stream_view cont s' y = stream_view cont s y"
    "registered s' c = None" "cont (hk_native s') c = Some w" "hk_heap s' = hk_heap s"
    "\<exists>st. cloneState = Some st \<and> \<not> ss_retired st \<and> state_ok plain (dc_views (hk_cache s')) w st \<and>
       position_in (Some st) (snd w) = snd w"
proof -
  have wf: "stream_wf v" by (rule engine_wf [OF en v])
  have le: "unat (ss_logicalCursor parent) \<le> length (fst v)" "ss_cacheData parent = None \<Longrightarrow> v = w"
    using par wf by (cases "ss_cacheData parent"; auto simp: state_ok_def stream_wf_def w_def prod_eq_iff)+
  obtain synced s1 where sync: "synchronize_clone en c parent s = (synced, s1)" by fastforce
  have s1: "synced \<and> keeps en cont plain owner s s1 \<and> (\<forall>y. y \<noteq> c \<longrightarrow> stream_view cont s1 y = stream_view cont s y) \<and>
      registered s1 = registered s \<and> cont (hk_native s1) c = Some w \<and> hk_cache s1 = hk_cache s \<and> hk_heap s1 = hk_heap s"
  proof (cases "ss_cacheData parent")
    case None
    then have "synced" "s1 = s" using sync by (simp_all add: synchronize_clone_def)
    then show ?thesis using None le v keeps_refl [OF ok] by simp
  next
    case (Some d)
    obtain q t where sk: "on_native (en_seek en c (u64_of_u32 (ss_logicalCursor parent)) SeekSet 0) s = (q, t)" by fastforce
    note ns = on_native_seek [OF en v sk, unfolded ref_seek_set [OF wf le(1)] fst_conv snd_conv]
    have eq: "fst w = fst v" "cont (hk_native t) = (cont (hk_native s))(c \<mapsto> w)" using ns(5) by (simp_all add: w_def)
    note nk = native_keeps [OF ok ns(7) eq(2) v eq(1) disjI2 [OF none], folded ns(6)]
    have e: "synced" "s1 = t" using sync Some sk ns(1) by (auto simp: synchronize_clone_def)
    have "registered t = registered s" using arg_cong [OF ns(6), of registered] by simp
    then show ?thesis using e nk(1,2) eq(2) ns(3,4) by simp
  qed
  have ok1: "hooks_ok en cont plain owner s1" using s1 keepsD(1) by blast
  have lk1: "linked en cont plain owner env s1" using keepsD(3) [OF _ lk] s1 by blast
  have v1: "cont (hk_native s1) c = Some w" using s1 by blast
  obtain identity s2 where ins: "InspectCompressedStream en env c s1 = (identity, s2)" by fastforce
  note ic = Inspect_cases [OF ok1 lk1 v1 ins]
  have e: "cloneState = Some (clone_state parent identity True)" "s' = s2" "\<not> refused"
    using assms(9) sync s1 calm ins by (auto simp: prepare_clone_def calm_def)
  show "\<not> refused" by (rule e(3))
  have k: "keeps en cont plain owner s s1" using s1 by blast
  show "keeps en cont plain owner s s'" unfolding e(2) by (rule keeps_trans [OF k ic(2)])
  show "stream_view cont s' y = stream_view cont s y" if "y \<noteq> c" for y
    using that idles_view [OF ok1 ic(1)] s1 by (simp add: e(2))
  show "registered s' c = None" "cont (hk_native s') c = Some w" "hk_heap s' = hk_heap s"
    using ic(1,3) s1 none by (simp_all add: e(2) idles_def)
  let ?c = "ss_logicalCursor parent" and ?status = "if ss_logicalCursor parent = 0 then kCaptureEmpty else kCaptureInvalid"
  let ?fresh = "(new_state identity ?c)\<lparr>ss_captureStatus := ?status\<rparr>"
  have idok: "identity_ok plain (fst v) identity" using ic(4) by (simp add: w_def)
  have views: "dc_views (hk_cache s') = dc_views (hk_cache s)" using ic(1) s1 by (simp add: e(2) idles_def)
  have "state_ok plain (dc_views (hk_cache s)) w ?fresh"
    by (rule new_state_ok) (use idok in \<open>simp_all add: w_def\<close>)
  moreover have "state_ok plain (dc_views (hk_cache s)) w (inherit_payload parent ?fresh)"
    by (rule state_ok_inherit [OF par(1) _ _ idok par(2)]) (simp_all add: w_def)
  moreover have "clone_state parent identity True \<in> {?fresh, inherit_payload parent ?fresh}"
    by (simp add: clone_state_def Let_def)
  ultimately show "\<exists>st. cloneState = Some st \<and> \<not> ss_retired st \<and> state_ok plain (dc_views (hk_cache s')) w st \<and>
       position_in (Some st) (snd w) = snd w"
    using e(1) unfolding views by (auto simp: inherit_payload_def new_state_def position_in_def w_def)
qed

text \<open>Clones the game makes of compressed streams are compressed streams.\<close>

definition clones_compressed :: "'n engine \<Rightarrow> hook_env \<Rightarrow> bool" where
  "clones_compressed en env \<longleftrightarrow>
     (\<forall>n x c n'. en_clone en x n = (c, n') \<longrightarrow> c \<noteq> 0 \<longrightarrow> c \<noteq> x \<longrightarrow> en_vtable en n' c = he_compVtable env)"

text \<open>A clone shows what its parent shows.\<close>

definition clone_step :: "('n \<Rightarrow> u64 \<rightharpoonup> bytes \<times> nat) \<Rightarrow> u64 \<Rightarrow> 'n hooks \<Rightarrow> u64 option \<Rightarrow> 'n hooks \<Rightarrow> bool" where
  "clone_step cont x s res s' \<longleftrightarrow>
     (case res of None \<Rightarrow> stream_view cont s' = stream_view cont s
      | Some c \<Rightarrow> if c = 0 \<or> c = x then stream_view cont s' = stream_view cont s
                  else stream_view cont s c = None \<and>
                    stream_view cont s' = (stream_view cont s)(c := stream_view cont s x))"

lemma engine_clone:
  assumes "engine_ok en cont" "en_clone en x n = (c, n')"
  shows "c = 0 \<or> c = x \<Longrightarrow> cont n' = cont n \<and> same_fields en n n'"
    "c \<noteq> 0 \<Longrightarrow> c \<noteq> x \<Longrightarrow> others_kept en cont c n n' \<and> cont n c = None \<and> cont n' c = cont n x \<and>
       en_source en n' c = en_source en n x \<and> en_startOffset en n' c = en_startOffset en n x"
proof -
  have "lives_ok en cont" using assms(1) by (simp add: engine_ok_def)
  then have "if c = 0 \<or> c = x then cont n' = cont n \<and> same_fields en n n'
      else others_kept en cont c n n' \<and> cont n c = None \<and> cont n' c = cont n x \<and>
        en_source en n' c = en_source en n x \<and> en_startOffset en n' c = en_startOffset en n x"
    using assms(2) unfolding lives_ok_def by blast
  then show "c = 0 \<or> c = x \<Longrightarrow> cont n' = cont n \<and> same_fields en n n'"
    "c \<noteq> 0 \<Longrightarrow> c \<noteq> x \<Longrightarrow> others_kept en cont c n n' \<and> cont n c = None \<and> cont n' c = cont n x \<and>
       en_source en n' c = en_source en n x \<and> en_startOffset en n' c = en_startOffset en n x" by auto
qed

lemma unborn_unregistered:
  "hooks_ok en cont plain owner s \<Longrightarrow> cont (hk_native s) c = None \<Longrightarrow> registered s c = None \<and> stream_view cont s c = None"
  using hooks_ok_state(1) [of en cont plain owner s c] by (cases "registered s c") (auto simp: stream_view_def)

lemma clone_step_new:
  assumes "c \<noteq> 0" "c \<noteq> x" "stream_view cont s c = None"
    and "\<And>y. y \<noteq> c \<Longrightarrow> stream_view cont s' y = stream_view cont s y" "stream_view cont s' c = stream_view cont s x"
  shows "clone_step cont x s (Some c) s'"
  using assms by (auto simp: clone_step_def fun_eq_iff)

lemma clone_native:
  assumes ok: "hooks_ok en cont plain owner s" and en: "engine_ok en cont" and v: "cont (hk_native s) x = Some v"
    and cl: "on_native (en_clone en x) s = (c, s1)" and lk: "linked en cont plain owner env s"
  shows "c = 0 \<or> c = x \<Longrightarrow> keeps_calls en cont plain owner s s1 \<and> stream_view cont s1 = stream_view cont s"
    "c \<noteq> 0 \<Longrightarrow> c \<noteq> x \<Longrightarrow> keeps_calls en cont plain owner s s1 \<and> linked en cont plain owner env s1 \<and>
       (\<forall>y. y \<noteq> c \<longrightarrow> stream_view cont s1 y = stream_view cont s y) \<and> stream_view cont s c = None \<and>
       registered s1 c = None \<and> cont (hk_native s1) c = Some v"
    "hk_heap s1 = hk_heap s" "hk_cache s1 = hk_cache s" "registered s1 = registered s"
    "clones_compressed en env \<Longrightarrow> c \<noteq> 0 \<Longrightarrow> c \<noteq> x \<Longrightarrow> en_vtable en (hk_native s1) c = he_compVtable env"
proof -
  obtain n where n: "en_clone en x (hk_native s) = (c, n)" "s1 = s\<lparr>hk_native := n\<rparr>"
    using cl by (auto simp: on_native_def split: prod.splits)
  note ec = engine_clone [OF en n(1)]
  show "hk_heap s1 = hk_heap s" "hk_cache s1 = hk_cache s" "registered s1 = registered s" by (simp_all add: n(2))
  show "clones_compressed en env \<Longrightarrow> c \<noteq> 0 \<Longrightarrow> c \<noteq> x \<Longrightarrow> en_vtable en (hk_native s1) c = he_compVtable env"
    using n by (auto simp: clones_compressed_def)
  show "keeps_calls en cont plain owner s s1 \<and> stream_view cont s1 = stream_view cont s" if "c = 0 \<or> c = x"
  proof -
    have u: "cont n = (cont (hk_native s))(x \<mapsto> v)" using ec(1) [OF that] v by (simp add: fun_upd_idem)
    have f: "same_fields en (hk_native s) n" using ec(1) [OF that] by simp
    note nk = native_keeps [OF ok f u v refl disjI1 [OF refl]]
    show ?thesis unfolding n(2) using keeps_calls [OF nk(1)] nk(4) by simp
  qed
  show "keeps_calls en cont plain owner s s1 \<and> linked en cont plain owner env s1 \<and>
       (\<forall>y. y \<noteq> c \<longrightarrow> stream_view cont s1 y = stream_view cont s y) \<and> stream_view cont s c = None \<and>
       registered s1 c = None \<and> cont (hk_native s1) c = Some v" if "c \<noteq> 0" "c \<noteq> x"
  proof -
    note e2 = ec(2) [OF that]
    have un: "registered s c = None \<and> stream_view cont s c = None"
      using unborn_unregistered [OF ok] e2 by blast
    have o: "others_kept en cont c (hk_native s) n" using e2 by blast
    have r: "registered s c = None" using un by blast
    note no = native_other [OF ok o r]
    have "linked en cont plain owner env s1" unfolding n(2)
      by (rule linked_clone [OF lk o, of x]) (use e2 in blast)+
    then show ?thesis using no(1,2) un e2 v by (simp add: n(2))
  qed
qed

lemma clone_locked_cases:
  assumes ok: "hooks_ok en cont plain owner s" and en: "engine_ok en cont" and v: "cont (hk_native s) x = Some v"
    and lk: "linked en cont plain owner env s" and calm: "calm env" and cc: "clones_compressed en env"
    and bel: "belongs s x i" and cl: "clone_locked en env x i s = (res, s')"
  shows "keeps_calls en cont plain owner s s'" "clone_step cont x s res s'" "registered s x = Some i \<Longrightarrow> res \<noteq> None"
proof -
  have plainclone: "keeps_calls en cont plain owner s1 s2 \<and> clone_step cont x s1 (Some c) s2"
    if ok1: "hooks_ok en cont plain owner s1" and lk1: "linked en cont plain owner env s1"
      and v1: "cont (hk_native s1) x = Some v" and view: "stream_view cont s1 x = Some v"
      and oc: "on_native (en_clone en x) s1 = (c, t)" and e: "s2 = publish_clone env x c None t" for s1 c t s2
  proof -
    note cn = clone_native [OF ok1 en v1 oc lk1]
    show ?thesis
    proof (cases "c = 0 \<or> c = x")
      case True
      then have "s2 = t" using e by (auto simp: publish_clone_def)
      then show ?thesis using cn(1) [OF True] True by (auto simp: clone_step_def)
    next
      case False
      then have f: "c \<noteq> 0" "c \<noteq> x" by simp_all
      note c2 = cn(2) [OF f]
      have okt: "hooks_ok en cont plain owner t" using c2 by (simp add: keeps_calls_def)
      have rt: "registered t c = None" and vt: "cont (hk_native t) c = Some v" using c2 by blast+
      have none: "\<forall>st. None = Some st \<longrightarrow> \<not> ss_retired st \<and> state_ok plain (dc_views (hk_cache t)) v st \<and>
          position_in (Some st) (snd v) = snd v" by simp
      note pc = publish_clone_cases [where env = env, OF okt f rt vt none, folded e]
      have kc: "keeps_calls en cont plain owner s1 t" using c2 by blast
      have "keeps_calls en cont plain owner s1 s2" by (rule keeps_calls_trans [OF kc keeps_calls [OF pc(1)]])
      moreover have "clone_step cont x s1 (Some c) s2"
        by (rule clone_step_new [OF f]) (use c2 pc(2,3) view in simp_all)
      ultimately show ?thesis by blast
    qed
  qed
  have "keeps_calls en cont plain owner s s' \<and> clone_step cont x s res s' \<and> (registered s x = Some i \<longrightarrow> res \<noteq> None)"
  proof (cases "ss_retired (hk_heap s ! i)")
    case True
    have ni: "registered s x \<noteq> Some i" using hooks_ok_state(2) [OF ok, of x i] True by blast
    obtain b s1 where fr: "find_replacement x i s = (b, s1)" by fastforce
    note fk = find_replacement_keeps [OF ok fr]
    show ?thesis
    proof (cases b)
      case True
      then have "res = None" "s' = s1" using cl fr \<open>ss_retired _\<close> by (simp_all add: clone_locked_def)
      then show ?thesis using keeps_calls [OF fk(2)] fk(3) ni by (simp add: clone_step_def)
    next
      case False
      have none: "registered s1 x = None" using fk(1,5) False ni by (cases "registered s x") auto
      have v1: "cont (hk_native s1) x = Some v" using v fk(4) by simp
      have view: "stream_view cont s1 x = Some v" using v1 none by (simp add: stream_view_def position_in_def)
      obtain c t where oc: "on_native (en_clone en x) s1 = (c, t)" by fastforce
      have e: "res = Some c" "s' = publish_clone env x c None t"
        using cl fr False oc \<open>ss_retired _\<close> by (simp_all add: clone_locked_def)
      note pl = plainclone [OF keepsD(1) [OF fk(2)] keepsD(3) [OF fk(2) lk] v1 view oc e(2)]
      have "clone_step cont x s (Some c) s'" using pl fk(3) by (auto simp: clone_step_def split: if_splits)
      moreover have "keeps_calls en cont plain owner s s'"
        by (rule keeps_calls_trans [OF keeps_calls [OF fk(2)]]) (use pl in blast)
      ultimately show ?thesis using e(1) ni by simp
    qed
  next
    case False
    then have reg: "registered s x = Some i" using bel by (simp add: belongs_def)
    have st: "state_ok plain (dc_views (hk_cache s)) v (hk_heap s ! i)"
      using hooks_ok_state(1) [OF ok reg] v by auto
    obtain c s1 where oc: "on_native (en_clone en x) s = (c, s1)" by fastforce
    note cn = clone_native [OF ok en v oc lk]
    let ?par = "hk_heap s ! i"
    show ?thesis
    proof (cases "ss_cursorKnown ?par \<and> c \<noteq> 0 \<and> c \<noteq> x")
      case False
      then have e: "res = Some c" "s' = publish_clone env x c None s1"
        using cl oc \<open>\<not> ss_retired _\<close> cn(3) by (auto simp: clone_locked_def Let_def)
      show ?thesis
      proof (cases "c = 0 \<or> c = x")
        case True
        then have "s' = s1" using e(2) by (auto simp: publish_clone_def)
        then show ?thesis using cn(1) [OF True] True e(1) by (auto simp: clone_step_def)
      next
        case new: False
        then have "ss_cacheData ?par = None" using False st by (auto simp: state_ok_def)
        then have "stream_view cont s x = Some v" using reg v by (simp add: stream_view_def position_in_def)
        from plainclone [OF ok lk v this oc e(2)] show ?thesis using e(1) by simp
      qed
    next
      case True
      then have f: "c \<noteq> 0" "c \<noteq> x" and known: "ss_cursorKnown ?par" by simp_all
      note c2 = cn(2) [OF f]
      have ok1: "hooks_ok en cont plain owner s1" using c2 by (simp add: keeps_calls_def)
      obtain cs refused s2 where pr: "prepare_clone en env c (hk_heap s1 ! i) s1 = ((cs, refused), s2)" by (metis prod.exhaust)
      have lk1: "linked en cont plain owner env s1" and rc: "registered s1 c = None" and vc: "cont (hk_native s1) c = Some v"
        using c2 by blast+
      have par1: "state_ok plain (dc_views (hk_cache s1)) v (hk_heap s1 ! i)" "ss_cursorKnown (hk_heap s1 ! i)"
        using st known by (simp_all add: cn(3,4))
      note pc = prepare_clone_cases [OF ok1 en lk1 calm rc vc par1 pr, unfolded cn(3)]
      have e: "res = Some c" "s' = publish_clone env x c cs s2"
        using cl oc \<open>\<not> ss_retired _\<close> cn(3) cn(6) [OF cc f] True pr pc(1) by (auto simp: clone_locked_def Let_def)
      have ok2: "hooks_ok en cont plain owner s2" by (rule keepsD(1) [OF pc(2)])
      let ?w = "(fst v, unat (ss_logicalCursor ?par))"
      have sts: "\<forall>st. cs = Some st \<longrightarrow> \<not> ss_retired st \<and> state_ok plain (dc_views (hk_cache s2)) ?w st \<and>
          position_in (Some st) (snd ?w) = snd ?w" using pc(7) by auto
      note pb = publish_clone_cases [where env = env, OF ok2 f pc(4,5) sts, folded e(2)]
      have view: "stream_view cont s x = Some ?w"
        using reg v st known by (auto simp: stream_view_def position_in_def state_ok_def prod_eq_iff)
      have kc: "keeps_calls en cont plain owner s s1" using c2 by blast
      have "keeps_calls en cont plain owner s s'"
        by (rule keeps_calls_trans [OF kc keeps_calls [OF keeps_trans [OF pc(2) pb(1)]]])
      moreover have "clone_step cont x s (Some c) s'"
        by (rule clone_step_new [OF f]) (use c2 pc(3) pb(2,3) view in simp_all)
      ultimately show ?thesis using e(1) by simp
    qed
  qed
  then show "keeps_calls en cont plain owner s s'" "clone_step cont x s res s'" "registered s x = Some i \<Longrightarrow> res \<noteq> None"
    by blast+
qed

section \<open>Opening, closing and destroying\<close>

lemma ended_cases:
  assumes ok: "hooks_ok en cont plain owner s" and "x \<noteq> 0" and "others_kept en cont x (hk_native s) n"
  defines "s' \<equiv> (RetireCompressedState x s)\<lparr>hk_native := n\<rparr>"
  shows "keeps_calls en cont plain owner s s'" "y \<noteq> x \<Longrightarrow> stream_view cont s' y = stream_view cont s y"
    "registered s' x = None" "stream_view cont s' x = cont n x"
proof -
  note rk = retire_keeps [OF ok assms(2)]
  have ok1: "hooks_ok en cont plain owner (RetireCompressedState x s)" by (rule keepsD(1) [OF rk(1)])
  have o: "others_kept en cont x (hk_native (RetireCompressedState x s)) n" using assms(3) rk(5) by simp
  note no = native_other [OF ok1 o rk(4), folded s'_def]
  show "keeps_calls en cont plain owner s s'" by (rule keeps_calls_trans [OF keeps_calls [OF rk(1)] no(1)])
  show "y \<noteq> x \<Longrightarrow> stream_view cont s' y = stream_view cont s y" using no(2) rk(2) by simp
  show "registered s' x = None" using rk(4) by (simp add: s'_def)
  show "stream_view cont s' x = cont n x" by (rule no(3))
qed

lemma engine_ends:
  assumes "engine_ok en cont"
  shows "others_kept en cont x n (en_close en x n)" "others_kept en cont x n (en_dtor en x n)"
    "others_kept en cont x n (snd (en_open en x n))"
    "fst (en_open en x n) = kNone \<Longrightarrow> \<exists>bs. cont (snd (en_open en x n)) x = Some (bs, 0)"
proof -
  have "lives_ok en cont" using assms by (simp add: engine_ok_def)
  then show "others_kept en cont x n (en_close en x n)" "others_kept en cont x n (en_dtor en x n)"
    "others_kept en cont x n (snd (en_open en x n))"
    "fst (en_open en x n) = kNone \<Longrightarrow> \<exists>bs. cont (snd (en_open en x n)) x = Some (bs, 0)"
    unfolding lives_ok_def by blast+
qed

lemma close_cases:
  assumes "hooks_ok en cont plain owner s" "engine_ok en cont" "x \<noteq> 0" "s' = HookedCompDoClose en x s \<or> s' = HookedCompDtor en x s"
  shows "keeps_calls en cont plain owner s s'" "y \<noteq> x \<Longrightarrow> stream_view cont s' y = stream_view cont s y"
    "registered s' x = None"
proof -
  note rk = retire_keeps [OF assms(1,3)]
  obtain n where n: "s' = (RetireCompressedState x s)\<lparr>hk_native := n\<rparr>" "others_kept en cont x (hk_native s) n"
    using assms(4) engine_ends(1,2) [OF assms(2)] rk(5) by (auto simp: HookedCompDoClose_def HookedCompDtor_def Let_def)
  note en = ended_cases [OF assms(1,3) n(2), folded n(1)]
  show "keeps_calls en cont plain owner s s'" "y \<noteq> x \<Longrightarrow> stream_view cont s' y = stream_view cont s y"
    "registered s' x = None" by (rule en; assumption?)+
qed

lemma open_cases:
  assumes ok: "hooks_ok en cont plain owner s" and en: "engine_ok en cont" and x: "x \<noteq> 0" and calm: "calm env"
    and lk: "linked en cont plain owner env (s\<lparr>hk_native := snd (en_open en x (hk_native s))\<rparr>)"
    and op: "HookedCompDoOpen en env x s = (e, s')"
  shows "keeps_calls en cont plain owner s s'" "y \<noteq> x \<Longrightarrow> stream_view cont s' y = stream_view cont s y"
    "e = kNone \<Longrightarrow> \<exists>bs. stream_view cont s' x = Some (bs, 0)" "e = fst (en_open en x (hk_native s))"
proof -
  let ?n = "snd (en_open en x (hk_native s))"
  define s1 where "s1 = (RetireCompressedState x s)\<lparr>hk_native := ?n\<rparr>"
  have rk: "hk_native (RetireCompressedState x s) = hk_native s" by (rule retire_keeps(5) [OF ok x])
  note ec = ended_cases [OF ok x engine_ends(3) [OF en], folded s1_def]
  have nat: "on_native (en_open en x) (RetireCompressedState x s) = (fst (en_open en x (hk_native s)), s1)"
    by (simp add: on_native_def rk s1_def split_beta)
  have "keeps_calls en cont plain owner s s' \<and> (\<forall>y. y \<noteq> x \<longrightarrow> stream_view cont s' y = stream_view cont s y) \<and>
    (e = kNone \<longrightarrow> (\<exists>bs. stream_view cont s' x = Some (bs, 0))) \<and> e = fst (en_open en x (hk_native s))"
  proof (cases "fst (en_open en x (hk_native s)) = kNone \<and> accelerates env s1")
    case False
    then have "e = fst (en_open en x (hk_native s))" "s' = s1"
      using op by (auto simp: HookedCompDoOpen_def nat)
    then show ?thesis using ec engine_ends(4) [OF en] by auto
  next
    case True
    then obtain bs where bs: "cont ?n x = Some (bs, 0)" using engine_ends(4) [OF en] by blast
    have ok1: "hooks_ok en cont plain owner s1" using ec(1) by (simp add: keeps_calls_def)
    have "mm_nameIndex (hk_manager s1) = mm_nameIndex (hk_manager s) \<and> mm_archives (hk_manager s1) = mm_archives (hk_manager s)"
      using Retire_swapped [OF _ x, of s] ok by (simp add: s1_def swapped_def hooks_ok_def)
    then have lk1: "linked en cont plain owner env s1"
      by (intro linked_same [OF lk]) (simp_all add: s1_def same_fields_def)
    have v1: "cont (hk_native s1) x = Some (bs, 0)" using bs by (simp add: s1_def)
    obtain identity s2 where ins: "InspectCompressedStream en env x s1 = (identity, s2)" by fastforce
    note ic = Inspect_cases [OF ok1 lk1 v1 ins]
    have ok2: "hooks_ok en cont plain owner s2" by (rule keepsD(1) [OF ic(2)])
    have s2: "registered s2 x = None" "cont (hk_native s2) x = Some (bs, 0)" "stream_view cont s2 = stream_view cont s1"
      using ic(1) ec(3) v1 idles_view [OF ok1 ic(1)] by (simp_all add: idles_def)
    obtain j s3 where m: "make_state (new_state identity 0) s2 = (j, s3)" by fastforce
    have st: "state_ok plain (dc_views (hk_cache s2)) (bs, 0) (new_state identity 0)"
      using new_state_ok [of plain "(bs, 0)" identity 0 kCaptureEmpty] ic(4) by (simp add: new_state_def)
    have "\<not> ss_retired (new_state identity 0)" by (simp add: new_state_def)
    note mk = make_state_cases [OF ok2 m this s2(2) st]
    have ok3: "hooks_ok en cont plain owner s3" by (rule keepsD(1) [OF mk(1)])
    obtain i t where p: "PublishCompressedStateIfAbsent x j s3 = (i, t)" by fastforce
    have rok3: "registry_ok s3" using ok3 by (simp add: hooks_ok_def)
    have r3: "registered s3 x = None" using mk(4) s2(1) by simp
    note pb = Publish_swapped [OF rok3 p r3]
    have e: "e = kNone" "s' = t"
      using op True calm ins m p by (auto simp: HookedCompDoOpen_def nat calm_def)
    have v3: "stream_view cont s3 x = Some (bs, 0)" using s2(2) mk(6) r3 by (simp add: stream_view_def position_in_def)
    have "ss_cacheData (hk_heap s3 ! j) = None" by (simp add: mk(7) new_state_def)
    moreover have "cont (hk_native s3) x = Some w \<Longrightarrow> stream_view cont s3 x = Some w" for w using v3 s2(2) mk(6) by simp
    ultimately have pf: "keeps en cont plain owner s3 t" "stream_view cont t = stream_view cont s3"
      using publish_fresh [OF ok3 pb(2) mk(3)] by blast+
    have "keeps_calls en cont plain owner s t"
      by (rule keeps_calls_trans [OF ec(1) keeps_calls [OF keeps_trans [OF ic(2) keeps_trans [OF mk(1) pf(1)]]]])
    then show ?thesis using e pf(2) v3 mk(2) s2(3) ec(2) True by simp
  qed
  then show "keeps_calls en cont plain owner s s'" "y \<noteq> x \<Longrightarrow> stream_view cont s' y = stream_view cont s y"
    "e = kNone \<Longrightarrow> \<exists>bs. stream_view cont s' x = Some (bs, 0)" "e = fst (en_open en x (hk_native s))" by blast+
qed

section \<open>The hooked clone\<close>

lemma leave_calls:
  "hooks_ok en cont plain owner s' \<Longrightarrow> clone_step cont x s res s' \<Longrightarrow> clone_step cont x s res (leave_stream i s')"
  unfolding clone_step_def by (simp only: leave_keeps(2))

lemma clone_returns:
  assumes h: "healthy en cont plain owner env s" and v: "cont (hk_native s) x = Some v" and cc: "clones_compressed en env"
  shows "\<exists>c s'. HookedCompDoClone en env x s = Some (c, s') \<and>
    keeps_calls en cont plain owner s s' \<and> clone_step cont x s (Some c) s'"
proof -
  have ok: "hooks_ok en cont plain owner s" and en: "engine_ok en cont" and lk: "linked en cont plain owner env s"
    and calm: "calm env" and acc: "accelerates env s" using h by (simp_all add: healthy_def)
  obtain identity i s1 where e: "enter_stream en env x s = (Some (identity, i), s1)" "keeps en cont plain owner s s1"
    "stream_view cont s1 = stream_view cont s" "belongs s1 x i" "registered s1 x = Some i"
    "cont (hk_native s1) = cont (hk_native s)"
    using enter_cases [OF ok en v lk calm] by blast
  have ok1: "hooks_ok en cont plain owner s1" by (rule keepsD(1) [OF e(2)])
  have lk1: "linked en cont plain owner env s1" by (rule keepsD(3) [OF e(2) lk])
  have v1: "cont (hk_native s1) x = Some v" using v e(6) by simp
  obtain res s2 where cl: "clone_locked en env x i s1 = (res, s2)" by fastforce
  note lc = clone_locked_cases [OF ok1 en v1 lk1 calm cc e(4) cl]
  obtain c where c: "res = Some c" using lc(3) [OF e(5)] by blast
  have ok2: "hooks_ok en cont plain owner s2" using lc(1) by (simp add: keeps_calls_def)
  have "hk_hooksActive s" using acc by (simp add: accelerates_def)
  then have "HookedCompDoClone en env x s = Some (c, leave_stream i s2)"
    using acc e(1) cl c by (subst HookedCompDoClone.simps) simp
  moreover have "keeps_calls en cont plain owner s (leave_stream i s2)"
    by (rule keeps_calls_trans [OF keeps_calls [OF e(2)] keeps_calls_trans [OF lc(1) keeps_calls [OF leave_keeps(1) [OF ok2]]]])
  moreover have "clone_step cont x s (Some c) s2" using lc(2) e(3) c by (auto simp: clone_step_def split: if_splits)
  then have "clone_step cont x s (Some c) (leave_stream i s2)" by (rule leave_calls [OF ok2])
  ultimately show ?thesis by blast
qed

end
