(* ===== verification/StreamThreads.thy ===== *)
theory StreamThreads
  imports StreamLife
begin

text \<open>
  Many threads calling the hooks of many streams.  A call enters before it takes the I/O mutex
  of a state and works under it later; in between other threads read, seek, clone, open and
  close, replace the state, and the cache evolves.  The calls take effect one after another.
\<close>

section \<open>The system\<close>

datatype call =
    ReadCall u64 "bytes option" u64 u64
  | SeekCall u64 u64 SeekMode u64
  | CloneCall u64

datatype call_result =
    ReadResult "ErrorCode \<times> bytes option \<times> u64"
  | SeekResult "ErrorCode \<times> u64"
  | CloneResult u64

fun call_stream :: "call \<Rightarrow> u64" where
  "call_stream (ReadCall x buffer toRead read) = x"
| "call_stream (SeekCall x offset mode position) = x"
| "call_stream (CloneCall x) = x"

text \<open>A read that asks for bytes brings a buffer.\<close>

fun call_ok :: "call \<Rightarrow> bool" where
  "call_ok (ReadCall x buffer toRead read) \<longleftrightarrow> toRead = 0 \<or> buffer \<noteq> None"
| "call_ok _ \<longleftrightarrow> True"

fun noted :: "hook_env \<Rightarrow> call \<Rightarrow> 'n hooks \<Rightarrow> 'n hooks" where
  "noted env (ReadCall x buffer toRead read) s = note_suppressed env toRead s"
| "noted env _ s = s"

fun locked_part :: "'n engine \<Rightarrow> hook_env \<Rightarrow> call \<Rightarrow> StreamIdentity \<Rightarrow> nat \<Rightarrow> 'n hooks \<Rightarrow>
    call_result option \<times> 'n hooks" where
  "locked_part en env (ReadCall x buffer toRead read) identity i s =
     (case read_locked en env x buffer toRead read identity i s of (r, s') \<Rightarrow> (map_option ReadResult r, s'))"
| "locked_part en env (SeekCall x offset mode position) identity i s =
     (case seek_locked en env x offset mode position i s of (r, s') \<Rightarrow> (map_option SeekResult r, s'))"
| "locked_part en env (CloneCall x) identity i s =
     (case clone_locked en env x i s of (r, s') \<Rightarrow> (map_option CloneResult r, s'))"

text \<open>A call that starts over still holds the states it found before.\<close>

datatype phase = Entering | Holding StreamIdentity nat

datatype event = Did call call_result | Opened u64 ErrorCode | Ended u64

type_synonym 'n system = "'n hooks \<times> (nat \<rightharpoonup> call \<times> phase \<times> nat list) \<times> event list"

definition as_thread :: "nat \<Rightarrow> 'n hooks \<Rightarrow> 'n hooks" where
  "as_thread t s = s\<lparr>hk_thread := t\<rparr>"

definition unused :: "(nat \<rightharpoonup> call \<times> phase \<times> nat list) \<Rightarrow> u64 \<Rightarrow> bool" where
  "unused calls x \<longleftrightarrow> (\<forall>t call ph held. calls t = Some (call, ph, held) \<longrightarrow> call_stream call \<noteq> x)"

inductive stream_step :: "'n engine \<Rightarrow> ('n \<Rightarrow> u64 \<rightharpoonup> bytes \<times> nat) \<Rightarrow> (nat \<Rightarrow> u32 \<Rightarrow> bytes) \<Rightarrow> (u64 \<Rightarrow> nat option) \<Rightarrow>
    'n system \<Rightarrow> 'n system \<Rightarrow> bool" for en cont plain owner where
  begin_call: "calls t = None \<Longrightarrow> call_ok call \<Longrightarrow> stream_view cont s (call_stream call) \<noteq> None \<Longrightarrow>
    stream_step en cont plain owner (s, calls, log) (s, calls(t \<mapsto> (call, Entering, [])), log)"
| enter_call: "calls t = Some (call, Entering, held) \<Longrightarrow> healthy en cont plain owner env s \<Longrightarrow>
    enter_stream en env (call_stream call) (noted env call (as_thread t s)) = (Some (identity, i), s') \<Longrightarrow>
    stream_step en cont plain owner (s, calls, log) (s', calls(t \<mapsto> (call, Holding identity i, held)), log)"
| retry_call: "calls t = Some (call, Holding identity i, held) \<Longrightarrow> healthy en cont plain owner env s \<Longrightarrow>
    clones_compressed en env \<Longrightarrow> locked_part en env call identity i (as_thread t s) = (None, s') \<Longrightarrow>
    stream_step en cont plain owner (s, calls, log) (s', calls(t \<mapsto> (call, Entering, i # held)), log)"
| finish_call: "calls t = Some (call, Holding identity i, held) \<Longrightarrow> healthy en cont plain owner env s \<Longrightarrow>
    clones_compressed en env \<Longrightarrow> locked_part en env call identity i (as_thread t s) = (Some r, s') \<Longrightarrow>
    stream_step en cont plain owner (s, calls, log)
      (fold leave_stream (i # held) s', calls(t := None), log @ [Did call r])"
| open_stream: "x \<noteq> 0 \<Longrightarrow> unused calls x \<Longrightarrow> calm env \<Longrightarrow>
    linked en cont plain owner env (s\<lparr>hk_native := snd (en_open en x (hk_native s))\<rparr>) \<Longrightarrow>
    HookedCompDoOpen en env x (as_thread t s) = (e, s') \<Longrightarrow>
    stream_step en cont plain owner (s, calls, log) (s', calls, log @ [Opened x e])"
| close_stream: "x \<noteq> 0 \<Longrightarrow> unused calls x \<Longrightarrow>
    stream_step en cont plain owner (s, calls, log) (HookedCompDoClose en x (as_thread t s), calls, log @ [Ended x])"
| destroy_stream: "x \<noteq> 0 \<Longrightarrow> unused calls x \<Longrightarrow>
    stream_step en cont plain owner (s, calls, log) (HookedCompDtor en x (as_thread t s), calls, log @ [Ended x])"
| cache_evolves: "cache_truthful plain c \<Longrightarrow> views_kept (hk_cache s) c \<Longrightarrow>
    stream_step en cont plain owner (s, calls, log) (s\<lparr>hk_cache := c\<rparr>, calls, log)"
| load_phase: "stream_step en cont plain owner (s, calls, log) (SetEngineLoadActive b s, calls, log)"

inductive_cases stream_stepE: "stream_step en cont plain owner u u'"

section \<open>What it refines\<close>

text \<open>Streams without hooks: contents and positions, changed by one call at a time.\<close>

inductive spec_step :: "(u64 \<rightharpoonup> bytes \<times> nat) \<Rightarrow> event \<Rightarrow> (u64 \<rightharpoonup> bytes \<times> nat) \<Rightarrow> bool" where
  spec_read: "m x = Some v \<Longrightarrow> read_outcome buffer toRead v r v' \<Longrightarrow>
    spec_step m (Did (ReadCall x buffer toRead read) (ReadResult r)) (m(x \<mapsto> v'))"
| spec_seek: "m x = Some v \<Longrightarrow> (r, v') = ref_seek offset mode position v \<Longrightarrow>
    spec_step m (Did (SeekCall x offset mode position) (SeekResult r)) (m(x \<mapsto> v'))"
| spec_no_clone: "c = 0 \<or> c = x \<Longrightarrow> spec_step m (Did (CloneCall x) (CloneResult c)) m"
| spec_clone: "c \<noteq> 0 \<Longrightarrow> c \<noteq> x \<Longrightarrow> m c = None \<Longrightarrow>
    spec_step m (Did (CloneCall x) (CloneResult c)) (m(c := m x))"
| spec_open: "(e = kNone \<longrightarrow> (\<exists>bs. v = Some (bs, 0))) \<Longrightarrow> spec_step m (Opened x e) (m(x := v))"
| spec_end: "spec_step m (Ended x) (m(x := v))"

inductive spec_run :: "(u64 \<rightharpoonup> bytes \<times> nat) \<Rightarrow> event list \<Rightarrow> (u64 \<rightharpoonup> bytes \<times> nat) \<Rightarrow> bool" where
  spec_nil: "spec_run m [] m"
| spec_snoc: "spec_run m es m' \<Longrightarrow> spec_step m' e m'' \<Longrightarrow> spec_run m (es @ [e]) m''"

section \<open>The simulation\<close>

text \<open>A suspended call has a live stream, and the state it holds is still its stream's.\<close>

definition call_fits :: "('n \<Rightarrow> u64 \<rightharpoonup> bytes \<times> nat) \<Rightarrow> (nat \<Rightarrow> u32 \<Rightarrow> bytes) \<Rightarrow> 'n hooks \<Rightarrow> call \<Rightarrow> phase \<Rightarrow> bool" where
  "call_fits cont plain s call ph \<longleftrightarrow> call_ok call \<and>
     (case stream_view cont s (call_stream call) of None \<Rightarrow> False
      | Some w \<Rightarrow> (case ph of Entering \<Rightarrow> True
          | Holding identity i \<Rightarrow> belongs s (call_stream call) i \<and> identity_ok plain (fst w) identity))"

definition calls_ok :: "('n \<Rightarrow> u64 \<rightharpoonup> bytes \<times> nat) \<Rightarrow> (nat \<Rightarrow> u32 \<Rightarrow> bytes) \<Rightarrow> 'n hooks \<Rightarrow>
    (nat \<rightharpoonup> call \<times> phase \<times> nat list) \<Rightarrow> bool" where
  "calls_ok cont plain s calls \<longleftrightarrow>
     (\<forall>t call ph held. calls t = Some (call, ph, held) \<longrightarrow> call_fits cont plain s call ph)"

definition thread_inv :: "'n engine \<Rightarrow> ('n \<Rightarrow> u64 \<rightharpoonup> bytes \<times> nat) \<Rightarrow> (nat \<Rightarrow> u32 \<Rightarrow> bytes) \<Rightarrow> (u64 \<Rightarrow> nat option) \<Rightarrow>
    (u64 \<rightharpoonup> bytes \<times> nat) \<Rightarrow> 'n system \<Rightarrow> bool" where
  "thread_inv en cont plain owner m0 u \<longleftrightarrow>
     (case u of (s, calls, log) \<Rightarrow> hooks_ok en cont plain owner s \<and> calls_ok cont plain s calls \<and>
        spec_run m0 log (stream_view cont s))"

lemma call_fits_later:
  assumes "call_fits cont plain s call ph" "\<And>i. belongs s (call_stream call) i \<Longrightarrow> belongs s' (call_stream call) i"
    and "map_option fst (stream_view cont s' (call_stream call)) = map_option fst (stream_view cont s (call_stream call))"
  shows "call_fits cont plain s' call ph"
  using assms
  by (cases "stream_view cont s (call_stream call)"; cases "stream_view cont s' (call_stream call)"; cases ph)
    (simp_all add: call_fits_def)

lemma calls_ok_later:
  assumes "calls_ok cont plain s calls" "\<And>y i. belongs s y i \<Longrightarrow> belongs s' y i"
    and "\<And>t call ph held. calls t = Some (call, ph, held) \<Longrightarrow>
      map_option fst (stream_view cont s' (call_stream call)) = map_option fst (stream_view cont s (call_stream call))"
  shows "calls_ok cont plain s' calls"
  unfolding calls_ok_def
proof (intro allI impI)
  fix t call ph held assume c: "calls t = Some (call, ph, held)"
  then have f: "call_fits cont plain s call ph" using assms(1) unfolding calls_ok_def by blast
  show "call_fits cont plain s' call ph" by (rule call_fits_later [OF f assms(2) assms(3) [OF c]])
qed

lemma calls_ok_update:
  "calls_ok cont plain s calls \<Longrightarrow> calls_ok cont plain s (calls(t := None))"
  "calls_ok cont plain s calls \<Longrightarrow> call_fits cont plain s call ph \<Longrightarrow> calls_ok cont plain s (calls(t \<mapsto> (call, ph, held)))"
  unfolding calls_ok_def by auto

lemma idles_thread: "idles s (as_thread t s)"
  by (auto simp: idles_def as_thread_def registered_def)

lemma thread_keeps:
  assumes "hooks_ok en cont plain owner s"
  shows "keeps en cont plain owner s (as_thread t s)" "stream_view cont (as_thread t s) = stream_view cont s"
    "hk_native (as_thread t s) = hk_native s"
  by (rule idles_keeps_simple [OF assms idles_thread], simp_all add: as_thread_def)
    (rule idles_view [OF assms idles_thread [unfolded as_thread_def]])

lemma noted_keeps:
  assumes "hooks_ok en cont plain owner s"
  shows "keeps en cont plain owner s (noted env call s)" "stream_view cont (noted env call s) = stream_view cont s"
    "hk_native (noted env call s) = hk_native s"
proof -
  have "keeps en cont plain owner s (noted env call s) \<and> stream_view cont (noted env call s) = stream_view cont s \<and>
    hk_native (noted env call s) = hk_native s"
  proof (cases call)
    case (ReadCall x buffer toRead read)
    note nk = note_suppressed_keeps [where env = env and n = toRead and s = s]
    show ?thesis
      using ReadCall nk(5) idles_keeps_simple [OF assms nk(1-3)] idles_view [OF assms nk(1)] by simp
  qed (simp_all add: keeps_refl [OF assms])
  then show "keeps en cont plain owner s (noted env call s)" "stream_view cont (noted env call s) = stream_view cont s"
    "hk_native (noted env call s) = hk_native s" by blast+
qed

lemma fold_leave_keeps:
  "hooks_ok en cont plain owner s \<Longrightarrow> keeps en cont plain owner s (fold leave_stream is s) \<and>
     stream_view cont (fold leave_stream is s) = stream_view cont s"
proof (induction "is" arbitrary: s)
  case (Cons i "is")
  note lk = leave_keeps [OF Cons.prems, of i]
  from Cons.IH [OF keepsD(1) [OF lk(1)]] show ?case using lk keeps_trans by auto
qed (simp add: keeps_refl)

lemma view_native: "stream_view cont s x = Some w \<Longrightarrow> \<exists>v. cont (hk_native s) x = Some v \<and> fst v = fst w"
  by (cases "cont (hk_native s) x") (auto simp: stream_view_def)

lemma outcome_contents:
  "read_outcome buffer toRead v r v' \<Longrightarrow> fst v' = fst v" "seek_outcome offset mode position v r' v' \<Longrightarrow> fst v' = fst v"
  unfolding read_outcome_def seek_outcome_def by (metis ref_contents(1) snd_conv, metis ref_contents(2) snd_conv)

lemma call_step_views:
  assumes "call_step cont x P s res s'" "\<forall>v r v'. P v r v' \<longrightarrow> fst v' = fst v"
  shows "res = None \<Longrightarrow> stream_view cont s' = stream_view cont s"
    "res = Some r \<Longrightarrow> \<exists>w w'. stream_view cont s x = Some w \<and> P w r w' \<and> stream_view cont s' = (stream_view cont s)(x \<mapsto> w')"
    "map_option fst (stream_view cont s' y) = map_option fst (stream_view cont s y)"
proof -
  have other: "\<And>y. y \<noteq> x \<Longrightarrow> stream_view cont s' y = stream_view cont s y"
    using assms(1) by (simp add: call_step_def)
  show none: "stream_view cont s' = stream_view cont s" if "res = None"
  proof
    fix y show "stream_view cont s' y = stream_view cont s y"
      using other [of y] assms(1) that by (cases "y = x") (simp_all add: call_step_def)
  qed
  show some: "\<exists>w w'. stream_view cont s x = Some w \<and> P w r w' \<and> stream_view cont s' = (stream_view cont s)(x \<mapsto> w')"
    if res: "res = Some r" for r
  proof -
    obtain w w' where w: "stream_view cont s x = Some w" "stream_view cont s' x = Some w'" "P w r w'"
      using assms(1) res by (auto simp: call_step_def)
    then have "stream_view cont s' = (stream_view cont s)(x \<mapsto> w')" using other by auto
    then show ?thesis using w by blast
  qed
  show "map_option fst (stream_view cont s' y) = map_option fst (stream_view cont s y)"
  proof (cases res)
    case None
    then show ?thesis using none by simp
  next
    case (Some r)
    then obtain w w' where w: "stream_view cont s x = Some w" "P w r w'"
      "stream_view cont s' = (stream_view cont s)(x \<mapsto> w')" using some by blast
    have "fst w' = fst w" using assms(2) w(2) by blast
    then show ?thesis using w by (cases "y = x") simp_all
  qed
qed

lemma locked_part_cases:
  assumes ok: "hooks_ok en cont plain owner s" and h: "healthy en cont plain owner env s" and cc: "clones_compressed en env"
    and f: "call_fits cont plain s call (Holding identity i)" and lp: "locked_part en env call identity i s = (res, s')"
  shows "keeps_calls en cont plain owner s s'" "res = None \<Longrightarrow> stream_view cont s' = stream_view cont s"
    "res = Some r \<Longrightarrow> spec_step (stream_view cont s) (Did call r) (stream_view cont s')"
    "stream_view cont s y \<noteq> None \<Longrightarrow> map_option fst (stream_view cont s' y) = map_option fst (stream_view cont s y)"
proof -
  have en: "engine_ok en cont" and lk: "linked en cont plain owner env s" and calm: "calm env"
    using h by (simp_all add: healthy_def)
  obtain w where w: "stream_view cont s (call_stream call) = Some w" "belongs s (call_stream call) i"
    "identity_ok plain (fst w) identity" "call_ok call"
    using f by (auto simp: call_fits_def split: option.splits)
  obtain v where v: "cont (hk_native s) (call_stream call) = Some v" "fst v = fst w" using view_native [OF w(1)] by blast
  have idok: "identity_ok plain (fst v) identity" using w(3) v(2) by simp
  have "keeps_calls en cont plain owner s s' \<and> (res = None \<longrightarrow> stream_view cont s' = stream_view cont s) \<and>
    (\<forall>r. res = Some r \<longrightarrow> spec_step (stream_view cont s) (Did call r) (stream_view cont s')) \<and>
    (\<forall>y. stream_view cont s y \<noteq> None \<longrightarrow> map_option fst (stream_view cont s' y) = map_option fst (stream_view cont s y))"
  proof (cases call)
    case (ReadCall x buffer toRead read)
    obtain q where q: "read_locked en env x buffer toRead read identity i s = (q, s')" "res = map_option ReadResult q"
      using lp ReadCall by (auto split: prod.splits)
    have buf: "toRead = 0 \<or> buffer \<noteq> None" using w(4) ReadCall by simp
    have vx: "cont (hk_native s) x = Some v" and bx: "belongs s x i" using v(1) w(2) ReadCall by simp_all
    note rl = read_locked_cases [OF ok en vx idok calm bx buf q(1)]
    have "\<forall>v r v'. read_outcome buffer toRead v r v' \<longrightarrow> fst v' = fst v" using outcome_contents(1) by blast
    note cs = call_step_views [OF rl(2) this]
    have "spec_step (stream_view cont s) (Did call (ReadResult r)) (stream_view cont s')" if qr: "q = Some r" for r
    proof -
      obtain w w' where "stream_view cont s x = Some w" "read_outcome buffer toRead w r w'"
        "stream_view cont s' = (stream_view cont s)(x \<mapsto> w')" using cs(2) [OF qr] by blast
      then show ?thesis using spec_read [of "stream_view cont s" x w buffer toRead r w' read] ReadCall by simp
    qed
    then show ?thesis using keeps_calls [OF rl(1)] q(2) cs(1,3) by (cases q) simp_all
  next
    case (SeekCall x offset mode position)
    obtain q where q: "seek_locked en env x offset mode position i s = (q, s')" "res = map_option SeekResult q"
      using lp SeekCall by (auto split: prod.splits)
    have vx: "cont (hk_native s) x = Some v" and bx: "belongs s x i" using v(1) w(2) SeekCall by simp_all
    note sl = seek_locked_cases [OF ok en vx bx q(1)]
    have "\<forall>v r v'. seek_outcome offset mode position v r v' \<longrightarrow> fst v' = fst v" using outcome_contents(2) by blast
    note cs = call_step_views [OF sl(2) this]
    have "spec_step (stream_view cont s) (Did call (SeekResult r)) (stream_view cont s')" if qr: "q = Some r" for r
    proof -
      obtain w w' where "stream_view cont s x = Some w" "seek_outcome offset mode position w r w'"
        "stream_view cont s' = (stream_view cont s)(x \<mapsto> w')" using cs(2) [OF qr] by blast
      then show ?thesis
        using spec_seek [of "stream_view cont s" x w r w' offset mode position] SeekCall by (simp add: seek_outcome_def)
    qed
    then show ?thesis using keeps_calls [OF sl(1)] q(2) cs(1,3) by (cases q) simp_all
  next
    case (CloneCall x)
    obtain q where q: "clone_locked en env x i s = (q, s')" "res = map_option CloneResult q"
      using lp CloneCall by (auto split: prod.splits)
    have vx: "cont (hk_native s) x = Some v" and bx: "belongs s x i" using v(1) w(2) CloneCall by simp_all
    note lc = clone_locked_cases [OF ok en vx lk calm cc bx q(1)]
    have "spec_step (stream_view cont s) (Did call (CloneResult c)) (stream_view cont s') \<and>
        (\<forall>y. stream_view cont s y \<noteq> None \<longrightarrow> stream_view cont s' y = stream_view cont s y)" if "q = Some c" for c
    proof (cases "c = 0 \<or> c = x")
      case True
      then have "stream_view cont s' = stream_view cont s" using lc(2) that by (auto simp: clone_step_def)
      then show ?thesis using spec_no_clone [OF True] CloneCall by simp
    next
      case False
      then have c: "stream_view cont s c = None"
        "stream_view cont s' = (stream_view cont s)(c := stream_view cont s x)"
        using lc(2) that by (simp_all add: clone_step_def)
      then show ?thesis using spec_clone [of c x "stream_view cont s"] False CloneCall by auto
    qed
    moreover have "stream_view cont s' = stream_view cont s" if "q = None" using lc(2) that by (simp add: clone_step_def)
    ultimately show ?thesis using lc(1) q(2) by (cases q) simp_all
  qed
  then show "keeps_calls en cont plain owner s s'" "res = None \<Longrightarrow> stream_view cont s' = stream_view cont s"
    "res = Some r \<Longrightarrow> spec_step (stream_view cont s) (Did call r) (stream_view cont s')"
    "stream_view cont s y \<noteq> None \<Longrightarrow> map_option fst (stream_view cont s' y) = map_option fst (stream_view cont s y)"
    by blast+
qed

section \<open>Every step is a step of the streams without hooks\<close>

lemma healthy_thread:
  assumes "healthy en cont plain owner env s"
  shows "healthy en cont plain owner env (as_thread t s)"
proof -
  have "hooks_ok en cont plain owner s" using assms by (simp add: healthy_def)
  then show ?thesis by (rule healthy_keeps [OF assms thread_keeps(1)])
qed

lemma calls_ok_fits: "calls_ok cont plain s calls \<Longrightarrow> calls t = Some (call, ph, held) \<Longrightarrow> call_fits cont plain s call ph"
  unfolding calls_ok_def by blast

lemma calls_ok_keeps:
  assumes "calls_ok cont plain s calls" "keeps en cont plain owner s s'" "stream_view cont s' = stream_view cont s"
  shows "calls_ok cont plain s' calls"
  by (rule calls_ok_later [OF assms(1) keepsD(2) [OF assms(2)]]) (simp_all add: assms(3))

lemma enter_call_inv:
  assumes h: "healthy en cont plain owner env s" and c: "calls_ok cont plain s calls"
    and call: "calls t = Some (call, Entering, held)"
    and e: "enter_stream en env (call_stream call) (noted env call (as_thread t s)) = (Some (identity, i), s')"
  shows "hooks_ok en cont plain owner s'" "stream_view cont s' = stream_view cont s"
    "calls_ok cont plain s' (calls(t \<mapsto> (call, Holding identity i, held)))"
proof -
  have ok: "hooks_ok en cont plain owner s" using h by (simp add: healthy_def)
  note tk = thread_keeps [OF ok, of t]
  note nk = noted_keeps [OF keepsD(1) [OF tk(1)], of env call]
  let ?s = "noted env call (as_thread t s)"
  have k1: "keeps en cont plain owner s ?s" by (rule keeps_trans [OF tk(1) nk(1)])
  have view1: "stream_view cont ?s = stream_view cont s" using tk(2) nk(2) by simp
  have h1: "healthy en cont plain owner env ?s" by (rule healthy_keeps [OF h k1])
  have hs: "hooks_ok en cont plain owner ?s" "engine_ok en cont" "linked en cont plain owner env ?s" "calm env"
    using h1 by (simp_all add: healthy_def)
  have f: "call_fits cont plain s call Entering" by (rule calls_ok_fits [OF c call])
  then obtain w where w: "stream_view cont s (call_stream call) = Some w" "call_ok call"
    by (auto simp: call_fits_def split: option.splits)
  obtain v where v: "cont (hk_native ?s) (call_stream call) = Some v" "fst v = fst w"
    using view_native [of cont ?s "call_stream call" w] w(1) view1 by auto
  have ec: "keeps en cont plain owner ?s s'" "stream_view cont s' = stream_view cont ?s" "belongs s' (call_stream call) i"
    "identity_ok plain (fst v) identity"
    using enter_cases [OF hs(1,2) v(1) hs(3,4)] e by auto
  have k: "keeps en cont plain owner s s'" by (rule keeps_trans [OF k1 ec(1)])
  show "hooks_ok en cont plain owner s'" by (rule keepsD(1) [OF k])
  show view: "stream_view cont s' = stream_view cont s" using ec(2) view1 by simp
  have "call_fits cont plain s' call (Holding identity i)"
    using w v(2) ec(3,4) by (simp add: call_fits_def view)
  then show "calls_ok cont plain s' (calls(t \<mapsto> (call, Holding identity i, held)))"
    using calls_ok_update(2) [OF calls_ok_keeps [OF c k view]] by blast
qed

lemma locked_call_inv:
  assumes h: "healthy en cont plain owner env s" and cc: "clones_compressed en env" and c: "calls_ok cont plain s calls"
    and call: "calls t = Some (call, Holding identity i, held)"
    and lp: "locked_part en env call identity i (as_thread t s) = (res, s')"
  shows "hooks_ok en cont plain owner s'" "calls_ok cont plain s' calls"
    "res = None \<Longrightarrow> stream_view cont s' = stream_view cont s"
    "res = Some r \<Longrightarrow> spec_step (stream_view cont s) (Did call r) (stream_view cont s')"
proof -
  have ok: "hooks_ok en cont plain owner s" using h by (simp add: healthy_def)
  note tk = thread_keeps [OF ok, of t]
  have ok1: "hooks_ok en cont plain owner (as_thread t s)" by (rule keepsD(1) [OF tk(1)])
  have c1: "calls_ok cont plain (as_thread t s) calls" by (rule calls_ok_keeps [OF c tk(1,2)])
  note lc = locked_part_cases [OF ok1 healthy_thread [OF h] cc calls_ok_fits [OF c1 call] lp, unfolded tk(2)]
  show "hooks_ok en cont plain owner s'" using lc(1) by (simp add: keeps_calls_def)
  show "res = None \<Longrightarrow> stream_view cont s' = stream_view cont s"
    "res = Some r \<Longrightarrow> spec_step (stream_view cont s) (Did call r) (stream_view cont s')" using lc(2,3) by blast+
  show "calls_ok cont plain s' calls"
  proof (rule calls_ok_later [OF c1])
    show "belongs s' y j" if "belongs (as_thread t s) y j" for y j using lc(1) that by (simp add: keeps_calls_def)
    show "map_option fst (stream_view cont s' (call_stream call')) =
        map_option fst (stream_view cont (as_thread t s) (call_stream call'))"
      if "calls t' = Some (call', ph, held')" for t' call' ph held'
    proof -
      have "stream_view cont s (call_stream call') \<noteq> None"
        using calls_ok_fits [OF c that] by (auto simp: call_fits_def split: option.splits)
      then show ?thesis using lc(4) by (simp add: tk(2))
    qed
  qed
qed

lemma unused_call: "unused calls x \<Longrightarrow> calls t = Some (call, ph, held) \<Longrightarrow> call_stream call \<noteq> x"
  unfolding unused_def by blast

lemma others_inv:
  assumes c: "calls_ok cont plain s calls" and k: "keeps_calls en cont plain owner (as_thread t s) s'" and u: "unused calls x"
    and v: "\<forall>y. y \<noteq> x \<longrightarrow> stream_view cont s' y = stream_view cont (as_thread t s) y" and ok: "hooks_ok en cont plain owner s"
  shows "hooks_ok en cont plain owner s'" "calls_ok cont plain s' calls"
    "stream_view cont s' = (stream_view cont s)(x := stream_view cont s' x)"
proof -
  note tk = thread_keeps [OF ok, of t]
  have c1: "calls_ok cont plain (as_thread t s) calls" by (rule calls_ok_keeps [OF c tk(1,2)])
  show "hooks_ok en cont plain owner s'" using k by (simp add: keeps_calls_def)
  show "calls_ok cont plain s' calls"
  proof (rule calls_ok_later [OF c1])
    show "belongs s' y j" if "belongs (as_thread t s) y j" for y j using k that by (simp add: keeps_calls_def)
    show "map_option fst (stream_view cont s' (call_stream call')) =
        map_option fst (stream_view cont (as_thread t s) (call_stream call'))"
      if "calls t' = Some (call', ph, held')" for t' call' ph held'
      using v unused_call [OF u that] by simp
  qed
  show "stream_view cont s' = (stream_view cont s)(x := stream_view cont s' x)"
    using v by (simp add: fun_eq_iff tk(2))
qed

lemma frame_inv:
  assumes ok: "hooks_ok en cont plain owner s" and "cache_truthful plain c" "views_kept (hk_cache s) c"
    and s': "s' = s\<lparr>hk_cache := c, hk_engineLoadActive := b\<rparr>"
  shows "hooks_ok en cont plain owner s'" "stream_view cont s' = stream_view cont s"
    "calls_ok cont plain s calls \<Longrightarrow> calls_ok cont plain s' calls"
proof -
  have reg: "registered s' = registered s" by (simp add: s' registered_def fun_eq_iff)
  have "registry_ok s' = registry_ok s" by (rule registry_ok_frame) (simp_all add: reg, simp_all add: s')
  then show "hooks_ok en cont plain owner s'"
    using ok assms(2) state_ok_views [OF _ assms(3)] unfolding hooks_ok_def reg
    by (simp add: s' del: split_paired_Ex) blast
  show v: "stream_view cont s' = stream_view cont s"
    unfolding stream_view_def fun_eq_iff reg by (simp add: s')
  show "calls_ok cont plain s' calls" if "calls_ok cont plain s calls"
    by (rule calls_ok_later [OF that]) (simp_all add: v, simp add: belongs_def reg, simp add: s')
qed

lemma frame_simps:
  "s\<lparr>hk_cache := c\<rparr> = s\<lparr>hk_cache := c, hk_engineLoadActive := hk_engineLoadActive s\<rparr>"
  "SetEngineLoadActive b s = s\<lparr>hk_cache := hk_cache s, hk_engineLoadActive := b\<rparr>"
  by (simp_all add: SetEngineLoadActive_def)

text \<open>The calls of all threads, in the order in which they took effect, are calls of streams
  that read, seek and clone their contents without hooks.\<close>

lemma stream_step_inv:
  assumes en: "engine_ok en cont" and inv: "thread_inv en cont plain owner m0 u" and step: "stream_step en cont plain owner u u'"
  shows "thread_inv en cont plain owner m0 u'"
  using step inv
proof (cases rule: stream_step.cases)
  case (begin_call calls t call s log)
  then have "call_fits cont plain s call Entering"
    by (auto simp: call_fits_def split: option.splits)
  then show ?thesis using begin_call inv calls_ok_update(2) by (auto simp: thread_inv_def)
next
  case (enter_call calls t call held env s identity i s' log)
  then have c: "calls_ok cont plain s calls" using inv by (simp add: thread_inv_def)
  note ei = enter_call_inv [OF enter_call(4) c enter_call(3,5)]
  show ?thesis using enter_call(1,2) inv ei by (simp add: thread_inv_def)
next
  case (retry_call calls t call identity i held env s s' log)
  then have c: "calls_ok cont plain s calls" using inv by (simp add: thread_inv_def)
  note li = locked_call_inv [OF retry_call(4,5) c retry_call(3,6)]
  have "call_fits cont plain s' call (Holding identity i)" by (rule calls_ok_fits [OF li(2) retry_call(3)])
  then have "call_fits cont plain s' call Entering" by (auto simp: call_fits_def split: option.splits)
  then show ?thesis using retry_call(1,2) inv li(1-3) calls_ok_update(2) [OF li(2)] by (simp add: thread_inv_def)
next
  case (finish_call calls t call identity i held env s r s' log)
  then have c: "calls_ok cont plain s calls" using inv by (simp add: thread_inv_def)
  note li = locked_call_inv [OF finish_call(4,5) c finish_call(3,6)]
  let ?s = "fold leave_stream (i # held) s'"
  have fk: "keeps en cont plain owner s' ?s" "stream_view cont ?s = stream_view cont s'"
    using fold_leave_keeps [OF li(1)] by blast+
  have "calls_ok cont plain ?s (calls(t := None))" by (rule calls_ok_keeps [OF calls_ok_update(1) [OF li(2)] fk])
  moreover have "spec_run m0 (log @ [Did call r]) (stream_view cont ?s)"
    using inv finish_call(1) li(4) spec_snoc unfolding fk(2) by (fastforce simp: thread_inv_def)
  ultimately show ?thesis using finish_call(2) keepsD(1) [OF fk(1)] by (simp add: thread_inv_def del: fold_simps)
next
  case (open_stream x calls env s t e s' log)
  then have ok: "hooks_ok en cont plain owner s" and c: "calls_ok cont plain s calls" using inv by (simp_all add: thread_inv_def)
  have ok1: "hooks_ok en cont plain owner (as_thread t s)" by (rule keepsD(1) [OF thread_keeps(1) [OF ok]])
  have lk: "linked en cont plain owner env ((as_thread t s)\<lparr>hk_native := snd (en_open en x (hk_native (as_thread t s)))\<rparr>)"
    using open_stream(6) unfolding linked_def by (simp add: as_thread_def)
  note oc = open_cases [OF ok1 en open_stream(3,5) lk open_stream(7)]
  note oi = others_inv [OF c oc(1) open_stream(4) _ ok]
  have oi: "hooks_ok en cont plain owner s'" "calls_ok cont plain s' calls"
    "stream_view cont s' = (stream_view cont s)(x := stream_view cont s' x)" using oi oc(2) by blast+
  have "spec_step (stream_view cont s) (Opened x e) (stream_view cont s')"
    using spec_open [of e "stream_view cont s' x" "stream_view cont s" x] oc(3) oi(3) by simp
  then show ?thesis using open_stream(1,2) inv oi(1,2) spec_snoc by (fastforce simp: thread_inv_def)
next
  case (close_stream x calls s log t)
  then have ok: "hooks_ok en cont plain owner s" and c: "calls_ok cont plain s calls" using inv by (simp_all add: thread_inv_def)
  have ok1: "hooks_ok en cont plain owner (as_thread t s)" by (rule keepsD(1) [OF thread_keeps(1) [OF ok]])
  note ec = close_cases [OF ok1 en close_stream(3) disjI1 [OF refl]]
  note oi = others_inv [OF c ec(1) close_stream(4) _ ok]
  have oi: "hooks_ok en cont plain owner (HookedCompDoClose en x (as_thread t s))"
    "calls_ok cont plain (HookedCompDoClose en x (as_thread t s)) calls"
    "stream_view cont (HookedCompDoClose en x (as_thread t s)) =
       (stream_view cont s)(x := stream_view cont (HookedCompDoClose en x (as_thread t s)) x)" using oi ec(2) by blast+
  then have "spec_step (stream_view cont s) (Ended x) (stream_view cont (HookedCompDoClose en x (as_thread t s)))"
    by (metis spec_end)
  then show ?thesis using close_stream(1,2) inv oi(1,2) spec_snoc by (fastforce simp: thread_inv_def)
next
  case (destroy_stream x calls s log t)
  then have ok: "hooks_ok en cont plain owner s" and c: "calls_ok cont plain s calls" using inv by (simp_all add: thread_inv_def)
  have ok1: "hooks_ok en cont plain owner (as_thread t s)" by (rule keepsD(1) [OF thread_keeps(1) [OF ok]])
  note ec = close_cases [OF ok1 en destroy_stream(3) disjI2 [OF refl]]
  note oi = others_inv [OF c ec(1) destroy_stream(4) _ ok]
  have oi: "hooks_ok en cont plain owner (HookedCompDtor en x (as_thread t s))"
    "calls_ok cont plain (HookedCompDtor en x (as_thread t s)) calls"
    "stream_view cont (HookedCompDtor en x (as_thread t s)) =
       (stream_view cont s)(x := stream_view cont (HookedCompDtor en x (as_thread t s)) x)" using oi ec(2) by blast+
  then have "spec_step (stream_view cont s) (Ended x) (stream_view cont (HookedCompDtor en x (as_thread t s)))"
    by (metis spec_end)
  then show ?thesis using destroy_stream(1,2) inv oi(1,2) spec_snoc by (fastforce simp: thread_inv_def)
next
  case (cache_evolves c s calls log)
  then have ok: "hooks_ok en cont plain owner s" using inv by (simp add: thread_inv_def)
  note fi = frame_inv [OF ok cache_evolves(3,4) frame_simps(1)]
  show ?thesis using cache_evolves(1,2) inv fi by (simp add: thread_inv_def)
next
  case (load_phase s calls log b)
  then have ok: "hooks_ok en cont plain owner s" using inv by (simp add: thread_inv_def)
  have "cache_truthful plain (hk_cache s)" using ok by (simp add: hooks_ok_def)
  note fi = frame_inv [OF ok this views_kept_refl frame_simps(2)]
  show ?thesis using load_phase(1,2) inv fi by (simp add: thread_inv_def)
qed

inductive stream_reach :: "'n engine \<Rightarrow> ('n \<Rightarrow> u64 \<rightharpoonup> bytes \<times> nat) \<Rightarrow> (nat \<Rightarrow> u32 \<Rightarrow> bytes) \<Rightarrow> (u64 \<Rightarrow> nat option) \<Rightarrow>
    'n hooks \<Rightarrow> 'n system \<Rightarrow> bool" for en cont plain owner s0 where
  reach_start: "stream_reach en cont plain owner s0 (s0, Map.empty, [])"
| reach_step: "stream_reach en cont plain owner s0 u \<Longrightarrow> stream_step en cont plain owner u u' \<Longrightarrow>
    stream_reach en cont plain owner s0 u'"

lemma streams_inv:
  assumes "engine_ok en cont" "hooks_ok en cont plain owner s0" "stream_reach en cont plain owner s0 u"
  shows "thread_inv en cont plain owner (stream_view cont s0) u"
  using assms(3)
proof induction
  case reach_start
  show ?case using assms(2) by (simp add: thread_inv_def calls_ok_def spec_nil)
next
  case (reach_step u u')
  show ?case by (rule stream_step_inv [OF assms(1) reach_step.IH reach_step.hyps(2)])
qed

end
