(* ===== verification/StreamBudget.thy ===== *)
theory StreamBudget
  imports StreamThreads
begin

text \<open>
  The memory of captures.  Whatever the game, the clocks, the faults and the exceptions do, and
  however threads interleave, the budget holds exactly what the states are charged, and no state
  holds more bytes than it is charged.
\<close>

section \<open>The ledger\<close>

definition capture_fits :: "CompressedStreamState \<Rightarrow> bool" where
  "capture_fits st \<longleftrightarrow> length (ss_captureBuffer st) \<le> unat (ss_accountedCaptureBytes st) \<and>
     (ss_captureStatus st = kCaptureActive \<and> \<not> ss_retired st \<longrightarrow>
        ss_accountedCaptureBytes st = u64_of_u32 (si_totalSize (ss_identity st)) \<and>
        length (ss_captureBuffer st) \<le> unat (ss_nextCaptureOffset st) \<and>
        ss_nextCaptureOffset st \<le> si_totalSize (ss_identity st))"

definition charged_bytes :: "'n hooks \<Rightarrow> nat" where
  "charged_bytes s = sum_list (map (\<lambda>st. unat (ss_accountedCaptureBytes st)) (hk_heap s))"

definition captured_bytes :: "'n hooks \<Rightarrow> nat" where
  "captured_bytes s = sum_list (map (\<lambda>st. length (ss_captureBuffer st)) (hk_heap s))"

text \<open>Every reference points to a state that was made.\<close>

definition refs_ok :: "'n hooks \<Rightarrow> bool" where
  "refs_ok s \<longleftrightarrow> (\<forall>x i. registered s x = Some i \<longrightarrow> i < length (hk_heap s)) \<and>
     (\<forall>t x i. hk_memo s t = (x, Some i) \<longrightarrow> i < length (hk_heap s))"

text \<open>\<open>k\<close> is what a call holds that no state is charged for any more.\<close>

definition budgeted :: "nat \<Rightarrow> 'n hooks \<Rightarrow> bool" where
  "budgeted k s \<longleftrightarrow> bb_limit (hk_budget s) = kMaxConcurrentCaptureBytes \<and>
     bb_used (hk_budget s) \<le> kMaxConcurrentCaptureBytes \<and>
     unat (bb_used (hk_budget s)) = k + charged_bytes s \<and> list_all capture_fits (hk_heap s) \<and> refs_ok s"

definition grows :: "'n hooks \<Rightarrow> 'n hooks \<Rightarrow> bool" where
  "grows s s' \<longleftrightarrow> length (hk_heap s) \<le> length (hk_heap s') \<and>
     (\<forall>j < length (hk_heap s). ss_identity (hk_heap s' ! j) = ss_identity (hk_heap s ! j))"

definition fine :: "nat \<Rightarrow> 'n hooks \<Rightarrow> 'n hooks \<Rightarrow> bool" where
  "fine k s s' \<longleftrightarrow> budgeted k s' \<and> grows s s'"

lemma fineD: "fine k s s' \<Longrightarrow> budgeted k s'" "fine k s s' \<Longrightarrow> i < length (hk_heap s) \<Longrightarrow> i < length (hk_heap s')"
  "fine k s s' \<Longrightarrow> i < length (hk_heap s) \<Longrightarrow> ss_identity (hk_heap s' ! i) = ss_identity (hk_heap s ! i)"
  by (auto simp: fine_def grows_def)

lemma fine_refl: "budgeted k s \<Longrightarrow> fine k s s"
  by (simp add: fine_def grows_def)

lemma fine_trans: "fine j s t \<Longrightarrow> fine k t u \<Longrightarrow> fine k s u"
  by (auto simp: fine_def grows_def)

text \<open>Each base operation, then a chain of them.\<close>

lemma fine_frame:
  assumes "budgeted k s" "hk_heap s' = hk_heap s" "hk_budget s' = hk_budget s" "refs_ok s'"
  shows "fine k s s'"
  using assms by (simp add: fine_def grows_def budgeted_def charged_bytes_def)

lemma refs_frame:
  assumes "hk_shards s' = hk_shards s" "hk_memo s' = hk_memo s" "length (hk_heap s) \<le> length (hk_heap s')" "refs_ok s"
  shows "refs_ok s'"
proof -
  have "registered s' = registered s" using assms(1) by (simp add: registered_def fun_eq_iff)
  then show ?thesis using assms(2-4) unfolding refs_ok_def by (metis order_less_le_trans)
qed

lemma fine_simple:
  assumes "budgeted k s" "hk_heap s' = hk_heap s" "hk_budget s' = hk_budget s" "hk_shards s' = hk_shards s"
    and "hk_memo s' = hk_memo s"
  shows "fine k s s'"
proof -
  have "refs_ok s" using assms(1) by (simp add: budgeted_def)
  then have "refs_ok s'" using refs_frame [OF assms(4,5)] assms(2) by simp
  then show ?thesis by (rule fine_frame [OF assms(1-3)])
qed

lemma charged_after_update:
  assumes "i < length (hk_heap s)"
  shows "charged_bytes (update_state i f s) + unat (ss_accountedCaptureBytes (hk_heap s ! i)) =
    charged_bytes s + unat (ss_accountedCaptureBytes (f (hk_heap s ! i)))"
proof -
  let ?c = "map (\<lambda>st. unat (ss_accountedCaptureBytes st)) (hk_heap s)"
  have i: "i < length ?c" using assms by simp
  have "?c ! i \<le> sum_list ?c" using i by (rule elem_le_sum_list)
  then show ?thesis using assms sum_list_update [OF i] by (simp add: charged_bytes_def update_state_def map_update)
qed

lemma fine_update:
  assumes b: "budgeted k s" and i: "i < length (hk_heap s)" and "ss_identity (f (hk_heap s ! i)) = ss_identity (hk_heap s ! i)"
    and "capture_fits (hk_heap s ! i) \<Longrightarrow> capture_fits (f (hk_heap s ! i))"
    and "k' + unat (ss_accountedCaptureBytes (f (hk_heap s ! i))) = k + unat (ss_accountedCaptureBytes (hk_heap s ! i))"
  shows "fine k' s (update_state i f s)"
proof -
  let ?t = "update_state i f s"
  have t: "hk_heap ?t = (hk_heap s)[i := f (hk_heap s ! i)]" "hk_budget ?t = hk_budget s" "hk_shards ?t = hk_shards s"
    "hk_memo ?t = hk_memo s" using i by (simp_all add: update_state_def)
  have "refs_ok ?t" using refs_frame [OF t(3,4)] t(1) b by (simp add: budgeted_def)
  moreover have "list_all capture_fits (hk_heap ?t)"
    using b i assms(4) unfolding t(1) budgeted_def list_all_length by (simp add: nth_list_update)
  moreover have "k' + charged_bytes ?t = k + charged_bytes s" using charged_after_update [OF i, of f] assms(5) by simp
  ultimately have "budgeted k' ?t" using b by (simp add: budgeted_def t(2))
  moreover have "grows s ?t" using i assms(3) by (simp add: grows_def t(1) nth_list_update)
  ultimately show ?thesis by (simp add: fine_def)
qed

text \<open>An update that touches neither the capture nor its charge.\<close>

definition capture_part :: "CompressedStreamState \<Rightarrow> bytes \<times> u64 \<times> CaptureStatus \<times> u32 \<times> StreamIdentity \<times> bool" where
  "capture_part st = (ss_captureBuffer st, ss_accountedCaptureBytes st, ss_captureStatus st, ss_nextCaptureOffset st,
     ss_identity st, ss_retired st)"

lemma fine_other:
  assumes "budgeted k s" "i < length (hk_heap s)" "\<And>st. capture_part (f st) = capture_part st"
  shows "fine k s (update_state i f s)"
  using assms(3) [of "hk_heap s ! i"] by (intro fine_update [OF assms(1,2)]) (simp_all add: capture_part_def capture_fits_def)

lemma fine_count: "budgeted k s \<Longrightarrow> fine k s (count_stat b f n s)" "budgeted k s \<Longrightarrow> fine k s (record_path b p g s)"
  by (auto intro!: fine_simple simp: count_stat_def record_path_def)

lemma fine_native: "budgeted k s \<Longrightarrow> on_native f s = (r, s') \<Longrightarrow> fine k s s'"
  by (auto intro!: fine_simple simp: on_native_def split: prod.splits)

lemma fine_status:
  assumes "budgeted k s" "i < length (hk_heap s)" "status \<noteq> kCaptureActive"
  shows "fine k s (set_capture status i s)"
  unfolding set_capture_def by (rule fine_update [OF assms(1,2)]) (use assms(3) in \<open>simp_all add: capture_fits_def\<close>)

lemma fine_release:
  assumes "budgeted (k + unat n) s"
  shows "fine k s (release_charge n s)"
proof -
  let ?b = "hk_budget s"
  have le: "unat n \<le> unat (bb_used ?b)" using assms by (simp add: budgeted_def)
  then have r: "Release n ?b = (True, ?b\<lparr>bb_used := bb_used ?b - n\<rparr>)" "unat (bb_used ?b - n) = unat (bb_used ?b) - unat n"
    by (simp_all add: Release_cases unat_sub word_le_nat_alt)
  have "bb_used ?b - n \<le> bb_used ?b" using le r(2) by (simp add: word_le_nat_alt)
  then have u: "bb_used ?b - n \<le> kMaxConcurrentCaptureBytes" using assms by (auto simp: budgeted_def)
  have z: "n = 0 \<Longrightarrow> unat n = 0" by simp
  have refs: "refs_ok (s\<lparr>hk_budget := b\<rparr>)" for b
    by (rule refs_frame [of _ s]) (use assms in \<open>simp_all add: budgeted_def\<close>)
  show ?thesis
    using assms r u refs by (cases "n = 0")
      (simp_all add: release_charge_def fine_def grows_def budgeted_def charged_bytes_def word_neq_0_conv)
qed

text \<open>Emptying a buffer takes the charge off the state and gives it back.\<close>

definition cleared :: "CompressedStreamState \<Rightarrow> CompressedStreamState" where
  "cleared st = st\<lparr>ss_accountedCaptureBytes := 0, ss_captureBuffer := []\<rparr>"

lemma cleared_then:
  assumes "i < length (hk_heap s)"
  shows "update_state i f (ClearCaptureBuffer i s) =
    release_charge (ss_accountedCaptureBytes (hk_heap s ! i)) (update_state i (\<lambda>st. f (cleared st)) s)"
  using assms by (simp add: ClearCaptureBuffer_def release_charge_def update_state_def cleared_def)

lemma Clear_update: "update_state i (\<lambda>st. st) s = s"
  by (simp add: update_state_def)

lemma fine_cleared:
  assumes b: "budgeted k s" and i: "i < length (hk_heap s)" and "ss_identity (f (cleared (hk_heap s ! i))) = ss_identity (hk_heap s ! i)"
    and "capture_fits (f (cleared (hk_heap s ! i)))" "ss_accountedCaptureBytes (f (cleared (hk_heap s ! i))) = 0"
  shows "fine k s (update_state i f (ClearCaptureBuffer i s))"
proof -
  let ?n = "ss_accountedCaptureBytes (hk_heap s ! i)" and ?t = "update_state i (\<lambda>st. f (cleared st)) s"
  have "fine (k + unat ?n) s ?t" by (rule fine_update [OF b i]) (use assms(3-5) in simp_all)
  moreover from this have "fine k ?t (release_charge ?n ?t)" using fine_release fineD(1) by blast
  ultimately show ?thesis using cleared_then [OF i] fine_trans by metis
qed

lemma fine_Clear:
  assumes "budgeted k s" "i < length (hk_heap s)" "ss_captureStatus (hk_heap s ! i) \<noteq> kCaptureActive \<or> ss_retired (hk_heap s ! i)"
  shows "fine k s (ClearCaptureBuffer i s)"
  using fine_cleared [OF assms(1,2), of "\<lambda>st. st"] assms(3) by (auto simp: Clear_update cleared_def capture_fits_def)

lemma fine_drop: "budgeted k s \<Longrightarrow> i < length (hk_heap s) \<Longrightarrow> fine k s (drop_state i s)"
  by (simp add: drop_state_def fine_Clear fine_refl)

lemma fine_abandon:
  assumes "budgeted k s" "i < length (hk_heap s)"
  shows "fine k s (abandon_capture i s)"
proof -
  have f: "fine k s (set_capture kCaptureInvalid i s)" by (rule fine_status [OF assms]) simp
  have "ss_captureStatus (hk_heap (set_capture kCaptureInvalid i s) ! i) = kCaptureInvalid"
    using assms(2) by (simp add: set_capture_def update_state_def)
  then have "fine k (set_capture kCaptureInvalid i s) (abandon_capture i s)"
    unfolding abandon_capture_def using fineD(2) [OF f assms(2)] by (intro fine_Clear [OF fineD(1) [OF f]]) simp_all
  then show ?thesis by (rule fine_trans [OF f])
qed

lemma fine_Reset: "budgeted k s \<Longrightarrow> i < length (hk_heap s) \<Longrightarrow> fine k s (ResetCaptureAfterSeek i n s)"
  unfolding ResetCaptureAfterSeek_def by (rule fine_cleared) (simp_all add: cleared_def capture_fits_def)

section \<open>Captures\<close>

lemma Clear_heap: "i < length (hk_heap s) \<Longrightarrow> hk_heap (ClearCaptureBuffer i s) = (hk_heap s)[i := cleared (hk_heap s ! i)]"
  by (simp add: ClearCaptureBuffer_def release_charge_def update_state_def cleared_def)

lemma abandon_heap: "i < length (hk_heap s) \<Longrightarrow>
    hk_heap (abandon_capture i s) = (hk_heap s)[i := cleared ((hk_heap s ! i)\<lparr>ss_captureStatus := kCaptureInvalid\<rparr>)]"
  by (simp add: abandon_capture_def Clear_heap set_capture_def update_state_def cleared_def)

lemma fine_Begin:
  assumes b: "budgeted k s" and i: "i < length (hk_heap s)" and st: "ss_captureStatus (hk_heap s ! i) \<noteq> kCaptureActive"
    and total: "totalSize = si_totalSize (ss_identity (hk_heap s ! i))" and bg: "BeginCapture env i totalSize s = (ok, s')"
  shows "fine k s s' \<and> ss_retired (hk_heap s' ! i) = ss_retired (hk_heap s ! i)"
proof -
  define t where "t = ClearCaptureBuffer i s"
  have ft: "fine k s t" unfolding t_def by (rule fine_Clear [OF b i disjI1 [OF st]])
  note bt = fineD(1) [OF ft]
  have it: "i < length (hk_heap t)" by (rule fineD(2) [OF ft i])
  have ht: "hk_heap t ! i = cleared (hk_heap s ! i)" using i by (simp add: t_def Clear_heap cleared_def)
  have reject: "fine k t (set_capture kCaptureInvalid i (count_stat c f n t)) \<and>
      ss_retired (hk_heap (set_capture kCaptureInvalid i (count_stat c f n t)) ! i) = ss_retired (hk_heap s ! i)" for c f n
  proof -
    have f: "fine k t (count_stat c f n t)" by (rule fine_count(1) [OF bt])
    have "ss_retired (hk_heap (set_capture kCaptureInvalid i (count_stat c f n t)) ! i) = ss_retired (hk_heap s ! i)"
      using ht it by (simp add: set_capture_def update_state_def count_stat_def cleared_def)
    then show ?thesis using fine_trans [OF f fine_status [OF fineD(1) [OF f] fineD(2) [OF f it]]] by simp
  qed
  have "fine k t s' \<and> ss_retired (hk_heap s' ! i) = ss_retired (hk_heap s ! i)"
  proof (cases "totalSize = 0")
    case True
    then have "s' = set_capture kCaptureInvalid i (count_stat False ht_captureBudgetRejects_update 1 t)"
      using bg by (simp add: BeginCapture_def count_stat_def flip: t_def)
    then show ?thesis using reject by simp
  next
    case False
    let ?n = "u64_of_u32 totalSize" and ?b = "hk_budget t"
    show ?thesis
    proof (cases "unat (bb_used ?b) + unat ?n \<le> unat (bb_limit ?b)")
      case False
      then have "s' = set_capture kCaptureInvalid i (count_stat True ht_captureBudgetRejects_update 1 t)"
        using bg \<open>totalSize \<noteq> 0\<close> by (simp add: BeginCapture_def TryReserve_cases flip: t_def)
      then show ?thesis using reject by simp
    next
      case True
      define t1 where "t1 = t\<lparr>hk_budget := ?b\<lparr>bb_used := bb_used ?b + ?n\<rparr>\<rparr>"
      define t2 where "t2 = update_state i (\<lambda>st. st\<lparr>ss_accountedCaptureBytes := ?n\<rparr>) t1"
      have un: "unat (bb_used ?b + ?n) = unat (bb_used ?b) + unat ?n" by (rule unat_add_le) (use True in simp)
      have lim: "bb_limit ?b = kMaxConcurrentCaptureBytes" using bt by (simp add: budgeted_def)
      have "refs_ok t1" by (rule refs_frame [of _ t]) (use bt in \<open>simp_all add: t1_def budgeted_def\<close>)
      then have b1: "budgeted (k + unat ?n) t1"
        using bt un True lim by (simp add: budgeted_def t1_def charged_bytes_def word_le_nat_alt)
      have i1: "i < length (hk_heap t1)" "hk_heap t1 ! i = cleared (hk_heap s ! i)" using it ht by (simp_all add: t1_def)
      have f2: "fine k t1 t2" unfolding t2_def
        by (rule fine_update [OF b1 i1(1)]) (use i1(2) st in \<open>simp_all add: cleared_def capture_fits_def\<close>)
      note b2 = fineD(1) [OF f2]
      have i2: "i < length (hk_heap t2)" by (rule fineD(2) [OF f2 i1(1)])
      have h2: "hk_heap t2 ! i = (cleared (hk_heap s ! i))\<lparr>ss_accountedCaptureBytes := ?n\<rparr>"
        using i1 by (simp add: t2_def update_state_def)
      have s': "s' = (if he_reserveThrows env then abandon_capture i t2
          else update_state i (\<lambda>st. st\<lparr>ss_nextCaptureOffset := 0, ss_captureStatus := kCaptureActive\<rparr>) t2)"
        using bg \<open>totalSize \<noteq> 0\<close> True by (simp add: BeginCapture_def TryReserve_cases Let_def t1_def t2_def flip: t_def split: if_splits)
      have "fine k t2 s'"
      proof (cases "he_reserveThrows env")
        case True
        then show ?thesis using s' fine_abandon [OF b2 i2] by simp
      next
        case False
        have "fine k t2 (update_state i (\<lambda>st. st\<lparr>ss_nextCaptureOffset := 0, ss_captureStatus := kCaptureActive\<rparr>) t2)"
          by (rule fine_update [OF b2 i2]) (use h2 total in \<open>simp_all add: cleared_def capture_fits_def\<close>)
        then show ?thesis using s' False by simp
      qed
      moreover have "ss_retired (hk_heap s' ! i) = ss_retired (hk_heap s ! i)"
        using h2 i2 by (simp add: s' abandon_heap cleared_def update_state_def)
      moreover have "grows t t1" by (simp add: grows_def t1_def)
      ultimately show ?thesis using f2 by (auto simp: fine_def grows_def)
    qed
  qed
  then show ?thesis using ft fine_trans by blast
qed

lemma fine_Append:
  assumes b: "budgeted k s" and i: "i < length (hk_heap s)" and live: "\<not> ss_retired (hk_heap s ! i)"
    and st: "beginCapture \<Longrightarrow> ss_captureStatus (hk_heap s ! i) \<noteq> kCaptureActive"
    and total: "totalSize = si_totalSize (ss_identity (hk_heap s ! i))"
    and ap: "AppendCapture env i totalSize buffer read beginCapture s = (ok, (payload, returned), s')"
  shows "fine (k + unat returned) s s'"
proof -
  have fail: "fine k s t \<Longrightarrow> fine k s (abandon_capture i t)" for t
    using fine_trans fine_abandon fineD(1) fineD(2) [OF _ i] by blast
  show ?thesis
  proof (cases "buffer = None \<or> read = 0 \<or> ss_nextCaptureOffset (hk_heap s ! i) > totalSize \<or>
      read > u64_of_u32 (totalSize - ss_nextCaptureOffset (hk_heap s ! i))")
    case True
    then have "returned = 0 \<and> s' = abandon_capture i s" using ap by (auto simp: AppendCapture_def Let_def split: option.splits)
    then show ?thesis using fail [OF fine_refl [OF b]] by simp
  next
    case False
    then obtain data where data: "buffer = Some data" by auto
    obtain b1 t where t: "(if beginCapture then BeginCapture env i totalSize s else (True, s)) = (b1, t)" by fastforce
    have ft: "fine k s t" and rt: "\<not> ss_retired (hk_heap t ! i)"
      using t fine_Begin [OF b i _ total, of env b1 t] st live fine_refl [OF b] by (auto split: if_splits)
    note bt = fineD(1) [OF ft]
    have it: "i < length (hk_heap t)" by (rule fineD(2) [OF ft i])
    let ?st = "hk_heap t ! i"
    have tt: "totalSize = si_totalSize (ss_identity ?st)" using total fineD(3) [OF ft i] by simp
    show ?thesis
    proof (cases "b1 \<and> ss_captureStatus ?st = kCaptureActive \<and> \<not> read > u64_of_u32 (totalSize - ss_nextCaptureOffset ?st) \<and>
        \<not> he_appendThrows env")
      case False
      then have "returned = 0 \<and> (s' = t \<or> s' = abandon_capture i t)"
        using ap \<open>\<not> (buffer = None \<or> _)\<close> t data by (auto simp: AppendCapture_def Let_def split: if_splits bool.splits)
      then show ?thesis using fail [OF ft] ft by auto
    next
      case True
      let ?f = "\<lambda>st. st\<lparr>ss_captureBuffer := ss_captureBuffer st @ take (unat read) data,
                              ss_nextCaptureOffset := ss_nextCaptureOffset st + u32_of_u64 read\<rparr>"
      let ?g = "\<lambda>st. st\<lparr>ss_accountedCaptureBytes := 0, ss_captureBuffer := [], ss_captureStatus := kCaptureCompleted\<rparr>"
      have cf: "capture_fits ?st" using bt it by (simp add: budgeted_def list_all_length)
      have c: "ss_accountedCaptureBytes ?st = u64_of_u32 totalSize" "length (ss_captureBuffer ?st) \<le> unat (ss_nextCaptureOffset ?st)"
        "ss_nextCaptureOffset ?st \<le> totalSize" using cf True rt by (simp_all add: capture_fits_def tt)
      have le: "unat (ss_nextCaptureOffset ?st) \<le> unat totalSize" using c(3) by (simp add: word_le_nat_alt)
      have "unat read \<le> unat (u64_of_u32 (totalSize - ss_nextCaptureOffset ?st))"
        using True by (simp add: word_le_nat_alt not_less)
      then have rd: "unat read \<le> unat totalSize - unat (ss_nextCaptureOffset ?st)" using c(3) by (simp add: unat_sub)
      have lt: "unat totalSize < 4294967296" by simp
      have un: "unat (ss_nextCaptureOffset ?st + u32_of_u64 read) = unat (ss_nextCaptureOffset ?st) + unat read"
      proof -
        have "unat read < 4294967296" "unat (ss_nextCaptureOffset ?st) + unat read < 4294967296" using rd le lt by linarith+
        then show ?thesis by (simp add: unat_word_ariths unat_u32_of_u64)
      qed
      have "capture_fits (?f ?st)"
        using c rd le un True rt by (simp add: capture_fits_def tt [symmetric] word_le_nat_alt, intro conjI; linarith)
      then have f1: "fine k t (update_state i ?f t)" by (intro fine_update [OF bt it]) simp_all
      note bf = fineD(1) [OF f1]
      have if1: "i < length (hk_heap (update_state i ?f t))" by (rule fineD(2) [OF f1 it])
      have f2: "fine (k + unat (ss_accountedCaptureBytes (hk_heap (update_state i ?f t) ! i))) (update_state i ?f t)
          (update_state i ?g (update_state i ?f t))"
        by (rule fine_update [OF bf if1]) (simp_all add: capture_fits_def)
      let ?u = "update_state i ?f t"
      have s': "returned = 0 \<and> s' = ?u \<or> returned = ss_accountedCaptureBytes (hk_heap ?u ! i) \<and>
          s' = count_stat True ht_capturesCompleted_update 1 (update_state i ?g ?u)"
        using ap \<open>\<not> (buffer = None \<or> _)\<close> t data True by (auto simp: AppendCapture_def Let_def split: if_splits)
      then show ?thesis
      proof
        assume "returned = 0 \<and> s' = ?u"
        then show ?thesis using fine_trans [OF ft f1] by simp
      next
        assume r: "returned = ss_accountedCaptureBytes (hk_heap ?u ! i) \<and>
          s' = count_stat True ht_capturesCompleted_update 1 (update_state i ?g ?u)"
        have "fine (k + unat returned) s (update_state i ?g ?u)" using fine_trans [OF fine_trans [OF ft f1] f2] r by simp
        then show ?thesis using r fine_trans fine_count(1) fineD(1) by blast
      qed
    qed
  qed
qed

section \<open>The registry\<close>

lemma refs_remember: "refs_ok s \<Longrightarrow> (\<And>i. v = Some i \<Longrightarrow> i < length (hk_heap s)) \<Longrightarrow> refs_ok (remember x v s)"
  by (simp add: refs_ok_def remember_def registered_def)

lemma refs_put: "refs_ok s \<Longrightarrow> (\<And>i. v = Some i \<Longrightarrow> i < length (hk_heap s)) \<Longrightarrow> refs_ok (put_registered x v s)"
  by (auto simp: refs_ok_def put_registered_def registered_def Let_def) metis+

lemma budgeted_refs:
  "budgeted k s \<Longrightarrow> refs_ok s" "budgeted k s \<Longrightarrow> registered s x = Some i \<Longrightarrow> i < length (hk_heap s)"
  "budgeted k s \<Longrightarrow> hk_memo s t = (x, Some i) \<Longrightarrow> i < length (hk_heap s)"
  unfolding budgeted_def refs_ok_def by blast+

lemma fine_remember:
  assumes "budgeted k s" "\<And>i. v = Some i \<Longrightarrow> i < length (hk_heap s)"
  shows "fine k s (remember x v s)"
  by (rule fine_frame [OF assms(1)]) (use refs_remember [OF budgeted_refs(1) [OF assms(1)] assms(2)] in \<open>simp_all add: remember_def\<close>)

lemma fine_put:
  assumes "budgeted k s" "\<And>i. v = Some i \<Longrightarrow> i < length (hk_heap s)"
  shows "fine k s (put_registered x v s)"
  by (rule fine_frame [OF assms(1)]) (use refs_put [OF budgeted_refs(1) [OF assms(1)] assms(2)] in \<open>simp_all add: put_registered_def Let_def\<close>)

lemma fine_retire: "budgeted k s \<Longrightarrow> i < length (hk_heap s) \<Longrightarrow> fine k s (retire i s)"
  unfolding retire_def by (rule fine_update) (simp_all add: capture_fits_def)

text \<open>Chains: what is fine stays fine under each operation.\<close>

lemma fine_chain:
  "fine k s t \<Longrightarrow> (\<And>i. v = Some i \<Longrightarrow> i < length (hk_heap s)) \<Longrightarrow> fine k s (remember x v t)"
  "fine k s t \<Longrightarrow> (\<And>i. v = Some i \<Longrightarrow> i < length (hk_heap s)) \<Longrightarrow> fine k s (put_registered x v t)"
  "fine k s t \<Longrightarrow> i < length (hk_heap s) \<Longrightarrow> fine k s (retire i t)"
  "fine k s t \<Longrightarrow> i < length (hk_heap s) \<Longrightarrow> fine k s (drop_state i t)"
  "fine k s t \<Longrightarrow> i < length (hk_heap s) \<Longrightarrow> fine k s (abandon_capture i t)"
  "fine k s t \<Longrightarrow> i < length (hk_heap s) \<Longrightarrow> fine k s (ResetCaptureAfterSeek i n t)"
  "fine k s t \<Longrightarrow> i < length (hk_heap s) \<Longrightarrow> status \<noteq> kCaptureActive \<Longrightarrow> fine k s (set_capture status i t)"
  "fine k s t \<Longrightarrow> fine k s (count_stat b f m t)" "fine k s t \<Longrightarrow> fine k s (record_path b p g t)"
  "fine k s t \<Longrightarrow> i < length (hk_heap s) \<Longrightarrow> (\<And>st. capture_part (h st) = capture_part st) \<Longrightarrow> fine k s (update_state i h t)"
  using fine_trans fineD(1,2) fine_remember fine_put fine_retire fine_drop fine_abandon fine_Reset fine_status
    fine_count fine_other by (metis (no_types, lifting) option.inject)+

lemma fine_Find:
  assumes b: "budgeted k s" and "FindCompressedState x s = (found, s')"
  shows "fine k s s'" "found = Some i \<Longrightarrow> i < length (hk_heap s)"
proof -
  obtain lastStream held where m: "hk_memo s (hk_thread s) = (lastStream, held)" by fastforce
  have "fine k s s' \<and> (\<forall>i. found = Some i \<longrightarrow> i < length (hk_heap s))"
    using assms(2) budgeted_refs(3) [OF b, of "hk_thread s"] budgeted_refs(2) [OF b, of x] m fine_refl [OF b]
    by (auto simp: FindCompressedState_def Let_def intro!: fine_chain split: option.splits if_splits)
  then show "fine k s s'" "found = Some i \<Longrightarrow> i < length (hk_heap s)" by blast+
qed

lemma fine_Publish:
  assumes b: "budgeted k s" and i: "i < length (hk_heap s)" and "PublishCompressedStateIfAbsent x i s = (j, s')"
  shows "fine k s s'" "j < length (hk_heap s)"
  using assms(3) budgeted_refs(2) [OF b, of x] i fine_refl [OF b]
  by (auto simp: PublishCompressedStateIfAbsent_def intro!: fine_chain split: option.splits if_splits)

lemma fine_TryReplace:
  assumes b: "budgeted k s" and "e < length (hk_heap s)" "i < length (hk_heap s)" "TryReplaceCompressedState x e i s = (ok, s')"
  shows "fine k s s'"
  using assms(2-4) fine_refl [OF b]
  by (auto simp: TryReplaceCompressedState_def intro!: fine_chain split: if_splits)

lemma fine_Replace:
  assumes b: "budgeted k s" and "i < length (hk_heap s)"
  shows "fine k s (ReplaceCompressedState x i s)"
  using assms(2) budgeted_refs(2) [OF b, of x] fine_refl [OF b]
  by (auto simp: ReplaceCompressedState_def intro!: fine_chain split: option.split)

lemma fine_Retire:
  assumes b: "budgeted k s"
  shows "fine k s (RetireCompressedState x s)"
  using budgeted_refs(2) [OF b, of x] fine_refl [OF b]
  by (auto simp: RetireCompressedState_def Let_def intro!: fine_chain split: option.split)

lemma fine_make:
  assumes b: "budgeted k s" and "ss_accountedCaptureBytes st = 0" "ss_captureBuffer st = []" "ss_captureStatus st \<noteq> kCaptureActive"
    and "make_state st s = (i, s')"
  shows "fine k s s'" "i < length (hk_heap s')"
proof -
  have s': "s' = s\<lparr>hk_heap := hk_heap s @ [st]\<rparr>" "i = length (hk_heap s)" using assms(5) by (simp_all add: make_state_def)
  have "refs_ok s'" by (rule refs_frame [of _ s]) (use b in \<open>simp_all add: s' budgeted_def\<close>)
  then show "fine k s s'" using b assms(2-4)
    by (simp add: s' fine_def grows_def budgeted_def charged_bytes_def nth_append capture_fits_def)
  show "i < length (hk_heap s')" by (simp add: s')
qed

section \<open>Identities, cursors and payloads\<close>

lemma fine_Inspect:
  assumes b: "budgeted k s" and "InspectCompressedStream en env x s = (identity, s')"
  shows "fine k s s'"
proof -
  let ?source = "en_source en (hk_native s) x"
  obtain archive s1 where r: "resolve_source env ?source s = (archive, s1)" by fastforce
  have f1: "fine k s s1" using r fine_refl [OF b]
    by (auto simp: resolve_source_def intro!: fine_simple [OF b] split: if_splits prod.splits)
  obtain found s2 where fd: "FindCompressedState x s1 = (found, s2)" by fastforce
  have f2: "fine k s s2" by (rule fine_trans [OF f1 fine_Find(1) [OF fineD(1) [OF f1] fd]])
  have f3: "fine k s2 t" if "ResolveDeclaredDecompressedSize env archive off s2 = (n, t)" for off n t
    using that fine_refl [OF fineD(1) [OF f2]] by (auto simp: ResolveDeclaredDecompressedSize_def intro!: fine_simple [OF fineD(1) [OF f2]]
        split: option.splits prod.splits)
  have "s' = s2 \<or> (\<exists>n off. ResolveDeclaredDecompressedSize env archive off s2 = (n, s'))"
    using assms(2) r fd by (auto simp: InspectCompressedStream_def Let_def split: option.splits prod.splits)
  then show ?thesis using f2 fine_trans [OF f2 f3] by blast
qed

lemma fine_Query:
  "budgeted k s \<Longrightarrow> QueryCompressedLogicalCursor en x n s = (c, s') \<Longrightarrow> fine k s s'"
  by (auto simp: QueryCompressedLogicalCursor_def split: prod.splits intro: fine_native)

lemma fine_Original:
  "budgeted k s \<Longrightarrow> CallOriginalCompressedRead en env x buffer toRead read s = (r, s') \<Longrightarrow> fine k s s'"
  by (auto simp: CallOriginalCompressedRead_def split: prod.splits intro!: fine_chain intro: fine_native)

lemma fine_GetOrCreate:
  assumes b: "budgeted k s" and g: "GetOrCreateCompressedState en x identity s = (i, s')"
  shows "fine k s s'" "i < length (hk_heap s')"
proof -
  obtain found s1 where fd: "FindCompressedState x s = (found, s1)" by fastforce
  note f1 = fine_Find(1) [OF b fd]
  have "fine k s s' \<and> i < length (hk_heap s')"
  proof (cases found)
    case (Some j)
    then show ?thesis using f1 fine_Find(2) [OF b fd] g fd fineD(2) [OF f1] by (simp add: GetOrCreateCompressedState_def)
  next
    case None
    obtain c s2 where q: "QueryCompressedLogicalCursor en x (si_totalSize identity) s1 = (c, s2)" by fastforce
    have f2: "fine k s s2" by (rule fine_trans [OF f1 fine_Query [OF fineD(1) [OF f1] q]])
    obtain t st j u where mk: "fine k s t" "make_state st t = (j, u)" "PublishCompressedStateIfAbsent x j u = (i, s')"
      "ss_accountedCaptureBytes st = 0" "ss_captureBuffer st = []" "ss_captureStatus st \<noteq> kCaptureActive"
    proof (cases c)
      case None
      show thesis
        by (rule that [OF fine_chain(8) [OF f2]]) (use g fd q \<open>found = None\<close> None in
          \<open>auto simp: GetOrCreateCompressedState_def new_state_def make_state_def split: prod.splits\<close>)
    next
      case (Some cursor)
      show thesis
        by (rule that [OF f2]) (use g fd q \<open>found = None\<close> Some in
          \<open>auto simp: GetOrCreateCompressedState_def new_state_def make_state_def split: prod.splits\<close>)
    qed
    note fm = fine_make [OF fineD(1) [OF mk(1)] mk(4-6,2)]
    note fp = fine_Publish [OF fineD(1) [OF fm(1)] fm(2) mk(3)]
    show ?thesis using fine_trans [OF mk(1) fine_trans [OF fm(1) fp(1)]] fineD(2) [OF fp(1) fp(2)] by blast
  qed
  then show "fine k s s'" "i < length (hk_heap s')" by blast+
qed

lemma fine_cache: "budgeted k s \<Longrightarrow> fine k s (s\<lparr>hk_cache := c\<rparr>)"
  by (rule fine_simple) simp_all

lemma fine_cache_chain: "fine k s t \<Longrightarrow> fine k s (t\<lparr>hk_cache := c\<rparr>)"
  using fine_trans fine_cache fineD(1) by blast

lemma fine_Attach:
  assumes b: "budgeted k s" and i: "i < length (hk_heap s)"
  shows "fine k s (TryAttachCachedEntry env i s)"
  using i fine_refl [OF b]
  by (auto simp: TryAttachCachedEntry_def Let_def capture_part_def intro!: fine_chain fine_cache_chain split: option.split prod.split)

lemma fine_Serve:
  assumes b: "budgeted k s" and i: "i < length (hk_heap s)" and "ServeCachedRead env i buffer toRead s = (r, s')"
  shows "fine k s s'"
  using assms(3) i fine_refl [OF b]
  by (auto simp: ServeCachedRead_def Let_def capture_part_def intro!: fine_chain fine_cache_chain
      split: option.splits prod.splits if_splits)

lemma fine_find:
  assumes "budgeted k s" "find_replacement x i s = (ok, s')"
  shows "fine k s s'"
  using assms(2) fine_Find(1) [OF assms(1)] by (auto simp: find_replacement_def split: prod.splits option.splits)

lemma fine_upgrade:
  assumes b: "budgeted k s" and i: "i < length (hk_heap s)" and "upgrade_identity en env x identity i s = (ok, s')"
  shows "fine k s s'"
proof (cases "he_upgradeThrows env")
  case True
  then show ?thesis using assms(3) fine_find [OF b] by (simp add: upgrade_identity_def)
next
  case False
  let ?st = "hk_heap s ! i"
  let ?same = "si_source (ss_identity ?st) = si_source identity \<and> si_startOffset (ss_identity ?st) = si_startOffset identity"
  obtain cursor s1 where c: "(if ?same \<and> ss_cursorKnown ?st then (Some (ss_logicalCursor ?st), s)
      else QueryCompressedLogicalCursor en x (si_totalSize identity) s) = (cursor, s1)" by fastforce
  have f1: "fine k s s1" using c fine_refl [OF b] fine_Query [OF b] by (auto split: if_splits)
  let ?fresh = "(new_state identity (case cursor of None \<Rightarrow> 0 | Some c \<Rightarrow> c))\<lparr>ss_cursorKnown := cursor \<noteq> None,
      ss_captureStatus := (if cursor = Some 0 then kCaptureEmpty else kCaptureInvalid)\<rparr>"
  obtain j s2 where m: "make_state ?fresh s1 = (j, s2)" by fastforce
  have fm: "fine k s1 s2" "j < length (hk_heap s2)"
    by (rule fine_make [OF fineD(1) [OF f1] _ _ _ m]; simp add: new_state_def)+
  have f2: "fine k s s2" by (rule fine_trans [OF f1 fm(1)])
  obtain ok1 s3 where t: "TryReplaceCompressedState x i j s2 = (ok1, s3)" by fastforce
  have f3: "fine k s s3" by (rule fine_trans [OF f2 fine_TryReplace [OF fineD(1) [OF f2] fineD(2) [OF f2 i] fm(2) t]])
  have "s' = s3 \<or> (\<exists>ok. find_replacement x i s3 = (ok, s'))"
    using assms(3) False c m t by (cases ok1) (auto simp: upgrade_identity_def Let_def)
  then show ?thesis using f3 fine_trans [OF f3 fine_find [OF fineD(1) [OF f3]]] by blast
qed

lemma fine_unknown:
  assumes b: "budgeted k s" and i: "i < length (hk_heap s)" and "read_unknown en env x buffer toRead read i s = (r, s')"
  shows "fine k s s'"
proof -
  obtain q s1 where o: "CallOriginalCompressedRead en env x buffer toRead read s = (q, s1)" by fastforce
  note f1 = fine_Original [OF b o]
  obtain c s2 where qu: "QueryCompressedLogicalCursor en x (si_totalSize (ss_identity (hk_heap s1 ! i))) s1 = (c, s2)" by fastforce
  have f2: "fine k s s2" by (rule fine_trans [OF f1 fine_Query [OF fineD(1) [OF f1] qu]])
  show ?thesis using assms(3) o qu i f2
    by (auto simp: read_unknown_def Let_def capture_part_def intro!: fine_chain split: option.splits)
qed

lemma retired_other:
  "ss_retired (f (hk_heap s ! i)) = ss_retired (hk_heap s ! i) \<Longrightarrow> ss_retired (hk_heap (update_state i f s) ! i) = ss_retired (hk_heap s ! i)"
  by (simp add: update_state_def)

lemma fine_plan:
  assumes b: "budgeted k s" and i: "i < length (hk_heap s)" and "plan_capture env suppressed identity i s = ((ap, bg), s')"
  shows "fine k s s'" "ap \<Longrightarrow> s' = s" "ap \<and> bg \<Longrightarrow> ss_captureStatus (hk_heap s ! i) = kCaptureEmpty" "bg \<Longrightarrow> ap"
  using assms(3) i fine_refl [OF b]
  by (auto simp: plan_capture_def Let_def intro!: fine_chain split: if_splits)

lemma fine_track:
  assumes b: "budgeted k s" and i: "i < length (hk_heap s)"
  shows "fine k s (track_progress en x identity c toRead hb error read i s)"
    "ss_retired (hk_heap (track_progress en x identity c toRead hb error read i s) ! i) = ss_retired (hk_heap s ! i)"
    "ss_captureStatus (hk_heap (track_progress en x identity c toRead hb error read i s) ! i) \<in>
       {ss_captureStatus (hk_heap s ! i), kCaptureInvalid}"
proof -
  obtain q s1 where qu: "QueryCompressedLogicalCursor en x (si_totalSize identity) s = (q, s1)" by fastforce
  note f1 = fine_Query [OF b qu]
  have h1: "hk_heap s1 = hk_heap s" using qu by (auto simp: QueryCompressedLogicalCursor_def on_native_def split: prod.splits)
  show "fine k s (track_progress en x identity c toRead hb error read i s)"
    using i qu f1 fine_refl [OF b]
    by (auto simp: track_progress_def Let_def capture_part_def intro!: fine_chain split: option.split)
  show "ss_retired (hk_heap (track_progress en x identity c toRead hb error read i s) ! i) = ss_retired (hk_heap s ! i)"
    "ss_captureStatus (hk_heap (track_progress en x identity c toRead hb error read i s) ! i) \<in>
       {ss_captureStatus (hk_heap s ! i), kCaptureInvalid}"
    using i qu h1
    by (auto simp: track_progress_def Let_def update_state_def abandon_heap cleared_def split: option.split)
qed

lemma fine_finish:
  assumes b: "budgeted k s" and i: "i < length (hk_heap s)" and live: "\<not> ss_retired (hk_heap s ! i)"
    and st: "bg \<Longrightarrow> ss_captureStatus (hk_heap s ! i) \<noteq> kCaptureActive" and identity: "identity = ss_identity (hk_heap s ! i)"
    and f: "finish_capture env identity bg toRead result i s = (completed, s')"
  shows "fine (k + unat (snd completed)) s s'"
proof -
  obtain error buffer read where r: "result = (error, buffer, read)" by (cases result)
  obtain ok payload n t where a: "AppendCapture env i (si_totalSize identity) buffer read bg s = (ok, (payload, n), t)"
    by (metis prod.exhaust)
  have total: "si_totalSize identity = si_totalSize (ss_identity (hk_heap s ! i))" using identity by simp
  have "completed = ([], 0) \<and> (s' = s \<or> s' = abandon_capture i s) \<or> completed = (payload, n) \<and> s' = t"
    using f r a by (auto simp: finish_capture_def Let_def split: if_splits)
  then show ?thesis
    using fine_refl [OF b] fine_abandon [OF b i] fine_Append [OF b i live st total a] by auto
qed

lemma fine_completed:
  assumes "budgeted (k + unat (snd completed)) s"
  shows "fine k s (record_completed env identity completed s)"
proof (cases "fst completed = []")
  case True
  then show ?thesis using fine_release [OF assms] by (simp add: record_completed_def)
next
  case False
  have "fine k s (release_charge (snd completed) (s\<lparr>hk_cache := c\<rparr>))" for c
    using fine_trans [OF fine_cache [OF assms]] fine_release fineD(1) [OF fine_cache [OF assms]] by blast
  then show ?thesis using False by (simp add: record_completed_def)
qed

lemma original_heap: "CallOriginalCompressedRead en env x buffer toRead read s = (r, s') \<Longrightarrow> hk_heap s' = hk_heap s"
  by (auto simp: CallOriginalCompressedRead_def on_native_def record_path_def split: prod.splits)

lemma fine_read_native:
  assumes b: "budgeted k s" and i: "i < length (hk_heap s)" and live: "\<not> ss_retired (hk_heap s ! i)"
    and identity: "identity = ss_identity (hk_heap s ! i)"
    and rd: "read_native en env x buffer toRead suppressed identity i s = (r, s')"
  shows "fine k s s'"
proof -
  obtain ap bg s1 where p: "plan_capture env suppressed identity i s = ((ap, bg), s1)" by (metis prod.exhaust)
  note fp = fine_plan [OF b i p]
  obtain error buffer' n s2 where o: "CallOriginalCompressedRead en env x buffer toRead 0 s1 = ((error, buffer', n), s2)"
    by (metis prod.exhaust)
  note f1 = fp(1)
  have f2: "fine k s s2" by (rule fine_trans [OF f1 fine_Original [OF fineD(1) [OF f1] o]])
  have i2: "i < length (hk_heap s2)" by (rule fineD(2) [OF f2 i])
  define s3 where "s3 = track_progress en x identity (ss_logicalCursor (hk_heap s ! i)) toRead (buffer \<noteq> None) error n i s2"
  note ft = fine_track [OF fineD(1) [OF f2] i2, where en = en and x = x and identity = identity and
      c = "ss_logicalCursor (hk_heap s ! i)" and toRead = toRead and hb = "buffer \<noteq> None" and error = error and read = n,
      folded s3_def]
  have f3: "fine k s s3" by (rule fine_trans [OF f2 ft(1)])
  show ?thesis
  proof (cases ap)
    case False
    then have "s' = s3" using rd p o by (simp add: read_native_def Let_def s3_def)
    then show ?thesis using f3 by simp
  next
    case True
    have h2: "hk_heap s2 = hk_heap s" using original_heap [OF o] fp(2) [OF True] by simp
    obtain completed s4 where fc: "finish_capture env identity bg toRead (error, buffer', n) i s3 = (completed, s4)" by fastforce
    have s': "s' = record_completed env identity completed s4"
      using rd p o True fc by (simp add: read_native_def Let_def s3_def)
    have "fine (k + unat (snd completed)) s3 s4"
    proof (rule fine_finish [OF fineD(1) [OF f3] fineD(2) [OF f3 i] _ _ _ fc])
      show "\<not> ss_retired (hk_heap s3 ! i)" using ft(2) h2 live by simp
      show "ss_captureStatus (hk_heap s3 ! i) \<noteq> kCaptureActive" if "bg"
        using ft(3) h2 fp(3) True that by auto
      show "identity = ss_identity (hk_heap s3 ! i)" using fineD(3) [OF f3 i] identity by simp
    qed
    then have f4: "fine (k + unat (snd completed)) s s4" by (rule fine_trans [OF f3])
    show ?thesis unfolding s' by (rule fine_trans [OF f4 fine_completed [OF fineD(1) [OF f4]]])
  qed
qed

lemma attach_state:
  assumes "i < length (hk_heap s)"
  shows "ss_retired (hk_heap (TryAttachCachedEntry env i s) ! i) = ss_retired (hk_heap s ! i)"
  using assms
  by (auto simp: TryAttachCachedEntry_def Let_def update_state_def count_stat_def abandon_heap cleared_def
      split: option.split prod.split)

lemma attach_data:
  assumes "i < length (hk_heap s)" "ss_cacheData (hk_heap s ! i) \<noteq> None"
  shows "ss_cacheData (hk_heap (TryAttachCachedEntry env i s) ! i) \<noteq> None"
  using assms
  by (auto simp: TryAttachCachedEntry_def Let_def update_state_def count_stat_def abandon_heap cleared_def result_bool_def
      split: option.split prod.split)

lemma fine_read_locked:
  assumes b: "budgeted k s" and i: "i < length (hk_heap s)"
    and rd: "read_locked en env x buffer toRead read identity i s = (r, s')"
  shows "fine k s s'"
proof -
  have orig: "CallOriginalCompressedRead en env x buffer toRead read t = (q, u) \<Longrightarrow> fine k s t \<Longrightarrow> fine k s u" for q t u
    using fine_trans fine_Original fineD(1) by blast
  let ?st = "hk_heap s ! i"
  consider (retired) "ss_retired ?st" | (upgrade) "\<not> ss_retired ?st" "ss_identity ?st \<noteq> identity \<and> ss_cacheData ?st = None"
    | (unknown) "\<not> ss_retired ?st" "\<not> (ss_identity ?st \<noteq> identity \<and> ss_cacheData ?st = None)" "\<not> ss_cursorKnown ?st"
    | (known) "\<not> ss_retired ?st" "\<not> (ss_identity ?st \<noteq> identity \<and> ss_cacheData ?st = None)" "ss_cursorKnown ?st" by blast
  then show ?thesis
  proof cases
    case retired
    then show ?thesis using rd fine_find [OF b] by (auto simp: read_locked_def Let_def split: prod.splits bool.splits intro: orig)
  next
    case upgrade
    then show ?thesis using rd fine_upgrade [OF b i]
      by (auto simp: read_locked_def Let_def split: prod.splits bool.splits intro: orig)
  next
    case unknown
    then show ?thesis using rd fine_unknown [OF b i] by (auto simp: read_locked_def Let_def split: prod.splits)
  next
    case known
    define s1 where "s1 = TryAttachCachedEntry env i s"
    have f1: "fine k s s1" unfolding s1_def by (rule fine_Attach [OF b i])
    have i1: "i < length (hk_heap s1)" by (rule fineD(2) [OF f1 i])
    show ?thesis
    proof (cases "ss_cacheData (hk_heap s1 ! i) = None")
      case False
      let ?c = "count_stat (LoadPhaseAccelerationSuppressed env s \<and> measures env) ht_loadPhaseGrandfatheredCacheCalls_update 1 s1"
      have fc: "fine k s ?c" by (rule fine_chain(8) [OF f1])
      obtain q where "ServeCachedRead env i buffer toRead ?c = (q, s')"
        using rd known False by (auto simp: read_locked_def Let_def simp flip: s1_def split: prod.splits)
      from fine_Serve [OF fineD(1) [OF fc] fineD(2) [OF fc i] this] show ?thesis by (rule fine_trans [OF fc])
    next
      case True
      then have "ss_cacheData ?st = None" using attach_data [OF i, of env] unfolding s1_def by blast
      then have id: "identity = ss_identity (hk_heap s1 ! i)" using known fineD(3) [OF f1 i] by simp
      obtain q where "read_native en env x buffer toRead (LoadPhaseAccelerationSuppressed env s) identity i s1 = (q, s')"
        using rd known True by (auto simp: read_locked_def Let_def simp flip: s1_def split: prod.splits)
      from fine_read_native [OF fineD(1) [OF f1] i1 _ id this] attach_state [OF i, of env] known(1)
      show ?thesis using fine_trans [OF f1] by (simp add: s1_def)
    qed
  qed
qed

section \<open>Seeks, clones and the life of a stream\<close>

lemma fine_native_chain:
  assumes "on_native f t = (r, u)" "fine k s t"
  shows "fine k s u"
  by (rule fine_trans [OF assms(2) fine_native [OF fineD(1) [OF assms(2)] assms(1)]])

lemma fine_seek_locked:
  assumes b: "budgeted k s" and i: "i < length (hk_heap s)"
    and sk: "seek_locked en env x offset mode position i s = (r, s')"
  shows "fine k s s'"
proof (cases "ss_retired (hk_heap s ! i)")
  case True
  then show ?thesis using sk fine_find [OF b]
    by (auto simp: seek_locked_def split: prod.splits bool.splits intro: fine_native_chain)
next
  case False
  define s1 where "s1 = TryAttachCachedEntry env i s"
  have f1: "fine k s s1" unfolding s1_def by (rule fine_Attach [OF b i])
  note i1 = fineD(2) [OF f1 i]
  have cached: "fine k s u" if "seek_cached i offset mode position s1 = (q, u)" for q u
    using that i f1 by (auto simp: seek_cached_def Let_def capture_part_def intro!: fine_chain split: option.splits if_splits)
  have native: "fine k s u" if "seek_native en x offset mode position i s1 = (q, u)" for q u
  proof -
    obtain e p t where o: "on_native (en_seek en x offset mode position) s1 = ((e, p), t)" by (metis prod.exhaust)
    have "fine k s t" by (rule fine_trans [OF f1 fine_native [OF fineD(1) [OF f1] o]])
    then show ?thesis using that i o
      by (auto simp: seek_native_def Let_def capture_part_def intro!: fine_chain split: if_splits)
  qed
  show ?thesis using sk False cached native
    by (auto simp: seek_locked_def Let_def simp flip: s1_def split: prod.splits if_splits)
qed

lemma fine_dtor:
  assumes "budgeted k s"
  shows "fine k s (HookedCompDtor en x s)" "fine k s (HookedCompDoClose en x s)"
proof -
  note f = fine_Retire [OF assms, of x]
  have "fine k s ((RetireCompressedState x s)\<lparr>hk_native := n\<rparr>)" for n
    by (rule fine_trans [OF f fine_simple [OF fineD(1) [OF f]]]) simp_all
  then show "fine k s (HookedCompDtor en x s)" "fine k s (HookedCompDoClose en x s)"
    by (simp_all add: HookedCompDtor_def HookedCompDoClose_def Let_def)
qed

lemma fine_open:
  assumes b: "budgeted k s" and op: "HookedCompDoOpen en env x s = (e, s')"
  shows "fine k s s'"
proof -
  note f0 = fine_Retire [OF b, of x]
  obtain e1 s1 where o: "on_native (en_open en x) (RetireCompressedState x s) = (e1, s1)" by fastforce
  have f1: "fine k s s1" by (rule fine_trans [OF f0 fine_native [OF fineD(1) [OF f0] o]])
  have ret: "fine k s t \<Longrightarrow> fine k s (RetireCompressedState x t)" for t using fine_trans fine_Retire fineD(1) by blast
  obtain identity s2 where ins: "InspectCompressedStream en env x s1 = (identity, s2)" by fastforce
  have f2: "fine k s s2" by (rule fine_trans [OF f1 fine_Inspect [OF fineD(1) [OF f1] ins]])
  obtain j s3 where m: "make_state (new_state identity 0) s2 = (j, s3)" by fastforce
  have fm: "fine k s2 s3" "j < length (hk_heap s3)"
    by (rule fine_make [OF fineD(1) [OF f2] _ _ _ m]; simp add: new_state_def)+
  obtain j' s4 where pb: "PublishCompressedStateIfAbsent x j s3 = (j', s4)" by fastforce
  have f4: "fine k s s4" by (rule fine_trans [OF fine_trans [OF f2 fm(1)] fine_Publish(1) [OF fineD(1) [OF fm(1)] fm(2) pb]])
  show ?thesis using op o ins m pb f1 ret [OF f1] ret [OF f2] f4
    by (auto simp: HookedCompDoOpen_def split: if_splits)
qed

lemma fine_publish_clone:
  assumes b: "budgeted k s"
    and "\<forall>st. cs = Some st \<longrightarrow> ss_accountedCaptureBytes st = 0 \<and> ss_captureBuffer st = [] \<and> ss_captureStatus st \<noteq> kCaptureActive"
  shows "fine k s (publish_clone env x c cs s)"
proof (cases "c = 0 \<or> c = x \<or> cs = None \<or> he_replaceThrows env")
  case True
  then show ?thesis using fine_refl [OF b] fine_Retire [OF b] by (auto simp: publish_clone_def split: option.split)
next
  case False
  then obtain st where st: "cs = Some st" by auto
  obtain i t where m: "make_state st s = (i, t)" by fastforce
  have fm: "fine k s t" "i < length (hk_heap t)" by (rule fine_make [OF b _ _ _ m]; use assms(2) st in simp)+
  have "publish_clone env x c cs s = ReplaceCompressedState c i t" using False st m by (simp add: publish_clone_def)
  then show ?thesis using fine_trans [OF fm(1) fine_Replace [OF fineD(1) [OF fm(1)] fm(2)]] by simp
qed

lemma clone_state_clear:
  "ss_accountedCaptureBytes (clone_state p identity b) = 0 \<and> ss_captureBuffer (clone_state p identity b) = [] \<and>
     ss_captureStatus (clone_state p identity b) \<noteq> kCaptureActive"
  by (simp add: clone_state_def Let_def inherit_payload_def new_state_def)

lemma fine_prepare:
  assumes b: "budgeted k s" and pr: "prepare_clone en env c p s = ((cs, refused), s')"
  shows "fine k s s'"
    "\<forall>st. cs = Some st \<longrightarrow> ss_accountedCaptureBytes st = 0 \<and> ss_captureBuffer st = [] \<and> ss_captureStatus st \<noteq> kCaptureActive"
proof -
  obtain b1 s1 where y: "synchronize_clone en c p s = (b1, s1)" by fastforce
  have f1: "fine k s s1"
  proof (cases "ss_cacheData p")
    case (Some d)
    obtain q t where o: "on_native (en_seek en c (u64_of_u32 (ss_logicalCursor p)) SeekSet 0) s = (q, t)" by fastforce
    then have "s1 = t" using y Some by (auto simp: synchronize_clone_def split: prod.splits)
    then show ?thesis using fine_native [OF b o] by simp
  qed (use y fine_refl [OF b] in \<open>simp add: synchronize_clone_def\<close>)
  obtain identity s2 where ins: "InspectCompressedStream en env c s1 = (identity, s2)" by fastforce
  have f2: "fine k s s2" by (rule fine_trans [OF f1 fine_Inspect [OF fineD(1) [OF f1] ins]])
  show "fine k s s'" using pr y ins f1 f2 by (auto simp: prepare_clone_def Let_def split: if_splits)
  show "\<forall>st. cs = Some st \<longrightarrow> ss_accountedCaptureBytes st = 0 \<and> ss_captureBuffer st = [] \<and> ss_captureStatus st \<noteq> kCaptureActive"
    using pr y ins clone_state_clear by (auto simp: prepare_clone_def Let_def split: if_splits)
qed

lemma fine_clone_locked:
  assumes b: "budgeted k s" and cl: "clone_locked en env x i s = (r, s')"
  shows "fine k s s'"
proof -
  have plain: "fine k s (publish_clone env x c None u)" if "on_native (en_clone en x) t = (c, u)" "fine k s t" for c t u
    using that fine_trans fine_native fine_publish_clone fineD(1) by (metis option.distinct(1))
  show ?thesis
  proof (cases "ss_retired (hk_heap s ! i)")
    case True
    then show ?thesis using cl fine_find [OF b]
      by (auto simp: clone_locked_def split: prod.splits bool.splits intro: plain)
  next
    case False
    obtain c s1 where o: "on_native (en_clone en x) s = (c, s1)" by fastforce
    note f1 = fine_native [OF b o]
    obtain cs refused s2 where pr: "prepare_clone en env c (hk_heap s1 ! i) s1 = ((cs, refused), s2)" by (metis prod.exhaust)
    note fp = fine_prepare [OF fineD(1) [OF f1] pr]
    have f2: "fine k s s2" by (rule fine_trans [OF f1 fp(1)])
    have "s' \<in> {publish_clone env x c None s1, HookedCompDtor en c s2, publish_clone env x c cs s2}"
      using cl False o pr by (auto simp: clone_locked_def Let_def split: if_splits)
    then show ?thesis
      using plain [OF o fine_refl [OF b]] fine_trans [OF f2 fine_dtor(1) [OF fineD(1) [OF f2]]]
        fine_trans [OF f2 fine_publish_clone [OF fineD(1) [OF f2] fp(2)]] by blast
  qed
qed

lemma fine_enter:
  assumes b: "budgeted k s" and en: "enter_stream en env x s = (r, s')"
  shows "fine k s s'" "r = Some (identity, i) \<Longrightarrow> i < length (hk_heap s')"
proof -
  obtain identity' s1 where ins: "InspectCompressedStream en env x s = (identity', s1)" by fastforce
  note f1 = fine_Inspect [OF b ins]
  obtain j s2 where g: "GetOrCreateCompressedState en x identity' s1 = (j, s2)" by fastforce
  note fg = fine_GetOrCreate [OF fineD(1) [OF f1] g]
  have f2: "fine k s s2" by (rule fine_trans [OF f1 fg(1)])
  have f3: "fine k s (s2\<lparr>hk_pins := j # hk_pins s2\<rparr>)"
    by (rule fine_trans [OF f2 fine_simple [OF fineD(1) [OF f2]]]) simp_all
  have "fine k s s' \<and> (\<forall>identity i. r = Some (identity, i) \<longrightarrow> i < length (hk_heap s'))"
    using en ins g fine_refl [OF b] f1 f3 fg(2) by (auto simp: enter_stream_def split: if_splits)
  then show "fine k s s'" "r = Some (identity, i) \<Longrightarrow> i < length (hk_heap s')" by blast+
qed

lemma fine_leave: "budgeted k s \<Longrightarrow> i < length (hk_heap s) \<Longrightarrow> fine k s (leave_stream i s)"
  unfolding leave_stream_def
  by (rule fine_trans [OF fine_simple fine_drop [OF fineD(1) [OF fine_simple]]]) simp_all

section \<open>Every run\<close>

text \<open>The hooks before the first stream is opened.\<close>

definition fresh_hooks :: "'n hooks \<Rightarrow> bool" where
  "fresh_hooks s \<longleftrightarrow> hk_heap s = [] \<and> (\<forall>x. registered s x = None) \<and> (\<forall>t. snd (hk_memo s t) = None) \<and>
     hk_budget s = \<lparr>bb_limit = kMaxConcurrentCaptureBytes, bb_used = 0\<rparr>"

text \<open>The parts of all calls, in any order, with any state that was made; between them the
  game, the cache, the archives, the clock and the current thread change as they like.\<close>

inductive capture_run :: "'n hooks \<Rightarrow> bool" where
  run_start: "fresh_hooks s \<Longrightarrow> capture_run s"
| run_enter: "capture_run s \<Longrightarrow> enter_stream en env x s = (r, s') \<Longrightarrow> capture_run s'"
| run_read: "capture_run s \<Longrightarrow> i < length (hk_heap s) \<Longrightarrow>
    read_locked en env x buffer toRead read identity i s = (q, s') \<Longrightarrow> capture_run s'"
| run_seek: "capture_run s \<Longrightarrow> i < length (hk_heap s) \<Longrightarrow>
    seek_locked en env x offset mode position i s = (q', s') \<Longrightarrow> capture_run s'"
| run_clone: "capture_run s \<Longrightarrow> clone_locked en env x i s = (c, s') \<Longrightarrow> capture_run s'"
| run_leave: "capture_run s \<Longrightarrow> i < length (hk_heap s) \<Longrightarrow> capture_run (leave_stream i s)"
| run_open: "capture_run s \<Longrightarrow> HookedCompDoOpen en env x s = (e, s') \<Longrightarrow> capture_run s'"
| run_close: "capture_run s \<Longrightarrow> capture_run (HookedCompDoClose en x s)"
| run_destroy: "capture_run s \<Longrightarrow> capture_run (HookedCompDtor en x s)"
| run_outside: "capture_run s \<Longrightarrow> hk_heap s' = hk_heap s \<Longrightarrow> hk_budget s' = hk_budget s \<Longrightarrow>
    hk_shards s' = hk_shards s \<Longrightarrow> hk_memo s' = hk_memo s \<Longrightarrow> capture_run s'"

lemma run_budgeted: "capture_run s \<Longrightarrow> budgeted 0 s"
proof (induction rule: capture_run.induct)
  case (run_start s)
  have "refs_ok s" unfolding refs_ok_def
  proof (intro conjI allI impI)
    show "registered s x = Some i \<Longrightarrow> i < length (hk_heap s)" for x i using run_start by (simp add: fresh_hooks_def)
    show "i < length (hk_heap s)" if "hk_memo s t = (x, Some i)" for t x i
    proof -
      have "snd (hk_memo s t) = None" using run_start by (simp add: fresh_hooks_def)
      then show ?thesis using that by simp
    qed
  qed
  then show ?case using run_start by (simp add: fresh_hooks_def budgeted_def charged_bytes_def)
next
  case (run_enter s en env x r s')
  then show ?case using fine_enter(1) fineD(1) by blast
next
  case (run_read s i en env x buffer toRead read identity q s')
  then show ?case using fine_read_locked fineD(1) by blast
next
  case (run_seek s i en env x offset mode position q' s')
  then show ?case using fine_seek_locked fineD(1) by blast
next
  case (run_clone s en env x i c s')
  then show ?case using fine_clone_locked fineD(1) by blast
next
  case (run_leave s i)
  then show ?case using fine_leave fineD(1) by blast
next
  case (run_open s en env x e s')
  then show ?case using fine_open fineD(1) by blast
next
  case (run_close s en x)
  then show ?case using fine_dtor(2) fineD(1) by blast
next
  case (run_destroy s en x)
  then show ?case using fine_dtor(1) fineD(1) by blast
next
  case (run_outside s s')
  then show ?case using fine_simple fineD(1) by blast
qed

text \<open>A whole read is such a run, whatever states it goes through.\<close>

lemma run_native: "capture_run s \<Longrightarrow> on_native f s = (r, s') \<Longrightarrow> capture_run s'"
  by (erule run_outside) (auto simp: on_native_def split: prod.splits)

lemma run_original: "capture_run s \<Longrightarrow> CallOriginalCompressedRead en env x buffer toRead read s = (r, s') \<Longrightarrow> capture_run s'"
  by (erule run_outside) (auto simp: CallOriginalCompressedRead_def on_native_def record_path_def split: prod.splits)

lemma run_noted: "capture_run s \<Longrightarrow> capture_run (note_suppressed env n s)"
  by (erule run_outside) (simp_all add: note_suppressed_def count_stat_def Let_def)

lemma fine_original: "capture_run s \<Longrightarrow> CallOriginalCompressedRead en env x buffer toRead read s = (r, s') \<Longrightarrow> fine 0 s s'"
  by (rule fine_Original [OF run_budgeted])

lemma fine_noted: "capture_run s \<Longrightarrow> fine 0 s (note_suppressed env n s)"
  unfolding note_suppressed_def Let_def by (intro fine_chain fine_refl run_budgeted)

text \<open>One round of a call: what it entered is left again in the end.\<close>

lemma round_runs:
  assumes "capture_run s1" "fine 0 s s1" "i < length (hk_heap s1)" "capture_run s2" "fine 0 s1 s2"
  shows "capture_run (leave_stream i s2)" "fine 0 s (leave_stream i s2)"
proof -
  have i2: "i < length (hk_heap s2)" by (rule fineD(2) [OF assms(5,3)])
  show "capture_run (leave_stream i s2)" by (rule run_leave [OF assms(4) i2])
  show "fine 0 s (leave_stream i s2)"
    by (rule fine_trans [OF assms(2) fine_trans [OF assms(5) fine_leave [OF run_budgeted [OF assms(4)] i2]]])
qed

lemma hooked_read_runs:
  assumes "HookedCompDoRead en env x buffer toRead read s = Some y" "capture_run s"
  shows "capture_run (snd y) \<and> fine 0 s (snd y)"
proof (rule HookedCompDoRead.raw_induct [OF _ assms(1),
      where P = "\<lambda>en env x buffer toRead read s y. capture_run s \<longrightarrow> capture_run (snd y) \<and> fine 0 s (snd y)", rule_format,
      OF _ assms(2)])
  fix HookedRead and en :: "'a engine" and env x buffer toRead read s y
  assume IH: "\<And>en env x buffer toRead read s y. HookedRead en env x buffer toRead read s = Some y \<Longrightarrow> capture_run s \<Longrightarrow>
      capture_run (snd y) \<and> fine 0 s (snd y)"
    and body: "(if \<not> accelerates env s then Some (CallOriginalCompressedRead en env x buffer toRead read s)
      else case enter_stream en env x (note_suppressed env toRead s) of
        (None, s1) \<Rightarrow> Some (CallOriginalCompressedRead en env x buffer toRead read s1)
      | (Some (identity, i), s1) \<Rightarrow>
          (case read_locked en env x buffer toRead read identity i s1 of
             (None, s2) \<Rightarrow> Option.bind (HookedRead en env x buffer toRead read s2) (\<lambda>(r, s3). Some (r, leave_stream i s3))
           | (Some r, s2) \<Rightarrow> Some (r, leave_stream i s2))) = Some y"
    and run: "capture_run s"
  define s0 where "s0 = note_suppressed env toRead s"
  have r0: "capture_run s0" "fine 0 s s0" using run_noted [OF run] fine_noted [OF run] by (simp_all add: s0_def)
  obtain e s1 where e: "enter_stream en env x s0 = (e, s1)" by fastforce
  have r1: "capture_run s1" "fine 0 s s1"
    using run_enter [OF r0(1) e] fine_trans [OF r0(2) fine_enter(1) [OF run_budgeted [OF r0(1)] e]] by blast+
  have original: "capture_run u \<and> fine 0 s u"
    if "capture_run t" "fine 0 s t" "CallOriginalCompressedRead en env x buffer toRead read t = (r, u)" for t r u
    using run_original [OF that(1,3)] fine_trans [OF that(2) fine_original [OF that(1,3)]] by blast
  show "capture_run (snd y) \<and> fine 0 s (snd y)"
  proof (cases "accelerates env s")
    case False
    then show ?thesis using body original [OF run fine_refl [OF run_budgeted [OF run]]] by (cases y) simp
  next
    case True
    show ?thesis
    proof (cases e)
      case None
      then show ?thesis using body True e original [OF r1] by (cases y) (simp flip: s0_def)
    next
      case (Some p)
      obtain identity i where p: "p = (identity, i)" by fastforce
      have i1: "i < length (hk_heap s1)" using fine_enter(2) [OF run_budgeted [OF r0(1)] e] Some p by simp
      obtain q s2 where rl: "read_locked en env x buffer toRead read identity i s1 = (q, s2)" by fastforce
      have r2: "capture_run s2" "fine 0 s1 s2"
        using run_read [OF r1(1) i1 rl] fine_read_locked [OF run_budgeted [OF r1(1)] i1 rl] by blast+
      show ?thesis
      proof (cases q)
        case q: (Some r)
        have "y = (r, leave_stream i s2)" using body True e Some p rl q by (simp flip: s0_def)
        then show ?thesis using round_runs [OF r1 i1 r2] by simp
      next
        case None
        then obtain r s3 where h: "HookedRead en env x buffer toRead read s2 = Some (r, s3)" "y = (r, leave_stream i s3)"
          using body True e Some p rl by (auto simp: bind_eq_Some_conv simp flip: s0_def)
        have "capture_run s3 \<and> fine 0 s2 s3" using IH [OF h(1) r2(1)] by simp
        then show ?thesis using round_runs [OF r1 i1] fine_trans [OF r2(2)] h(2) by simp
      qed
    qed
  qed
qed

end
