(* ===== verification/DecompGuarantees.thy ===== *)
theory DecompGuarantees
  imports DecompSystem
begin

text \<open>
  Further guarantees of the cache manager: what an admission may do, that an exception leaves
  the cache as it was, which files and generations the disk operations spare, and the round
  trip of the warm order through its file.
\<close>

section \<open>Recording\<close>

text \<open>
  C28: a recording that changes the charge adds exactly one payload to the queue of its
  archive, at an offset that was not queued or in flight; it charges the payload, and for an
  absent file with an empty queue its header and index too; and the disk total together with
  the new charge stays within the configured cap.
\<close>

theorem admission_within_cap:
  assumes "RecordDecompressed cfg env A (Some a) off payload s = (thrown, s')"
    and "dc_pendingBytes s' \<noteq> dc_pendingBytes s"
  shows "\<exists>c. map_of (dc_caches s) a = Some c \<and> off \<notin> ac_bufferedOffsets c \<and> \<not> thrown \<and>
    unat (dc_pendingBytes s') = unat (dc_pendingBytes s) + length payload +
      (if (ac_view c = None \<or> ac_diskInvalidated c) \<and> ac_bufferedOffsets c = {} then footprint A a else 0) \<and>
    unat (dc_totalCacheBytes s) + unat (dc_pendingBytes s') \<le> unat (cfg_uDecompCacheMaxBytes cfg) \<and>
    map_of (dc_caches s') a = Some (c\<lparr>ac_bufferedOffsets := insert off (ac_bufferedOffsets c),
      ac_pending := ac_pending c @ [\<lparr>pe_startOffset = off,
        pe_accountedBytes = dc_pendingBytes s' - dc_pendingBytes s, pe_data = payload\<rparr>],
      ac_lastAccessMs := re_now env\<rparr>)"
  using assms(1)
proof (cases rule: Record_cases)
  case Rejected
  then show ?thesis using admit_False assms(2) by blast
next
  case (Queued a' c fixed n s1)
  then have a: "a' = a" by simp
  note adm = admit_True [OF Queued(8)]
  have n: "unat n = length payload + unat fixed"
    using Queued(5,7) by (simp add: AddChecked_Some_iff kMaxPayloadSize_def unat_of_nat take_bit_nat_eq_self)
  have alloc: "re_alloc env = AllocOk" "\<not> thrown"
    using Queued(9) assms(2) unfolding adm(1)
    by (cases "re_alloc env"; auto simp: enqueue_def Let_def)+
  have pb: "dc_pendingBytes s' = dc_pendingBytes s + n"
    using Queued(9) alloc unfolding adm(1) by (auto simp: enqueue_def Let_def split: if_splits)
  have mo: "map_of (dc_caches s') a = Some (c\<lparr>ac_bufferedOffsets := insert off (ac_bufferedOffsets c),
      ac_pending := ac_pending c @ [\<lparr>pe_startOffset = off, pe_accountedBytes = n, pe_data = payload\<rparr>],
      ac_lastAccessMs := re_now env\<rparr>)"
    using Queued(2,9) alloc unfolding adm(1) a
    by (auto simp: enqueue_def Let_def map_of_update_cache split: if_splits)
  show ?thesis
    using Queued(2,3) alloc(2) adm(2,4) n fixed_overhead_Some [of A a c fixed] Queued(6) mo unfolding a pb
    by (intro exI [of _ c]) auto
qed (use assms(2) in simp_all)

text \<open>
  When the insertion of an admitted payload throws, the reservation is given back: the
  cache is exactly as it was before the call.
\<close>

theorem exception_restores_cache:
  assumes "RecordDecompressed cfg env A arch off payload s = (True, s')"
  shows "s' = s"
  using assms
proof (cases rule: Record_cases)
  case (Queued a c fixed n s1)
  note adm = admit_True [OF Queued(8)]
  have "re_alloc env \<noteq> AllocOk"
    using Queued(9) by (auto simp: enqueue_def Let_def split: if_splits)
  then have "s' = s1\<lparr>dc_pendingBytes := dc_pendingBytes s1 - n\<rparr>"
    using Queued(9) by (cases "re_alloc env") (simp_all add: enqueue_def Let_def)
  then show ?thesis unfolding adm(1) by simp
qed simp_all

section \<open>What the disk operations spare\<close>

text \<open>
  A cache with queued or in-flight payloads is left alone by every operation that only obeys
  the disk contract.
\<close>

interpretation spared: disk_contract
  "\<lambda>work s. distinct (map fst (dc_caches s)) \<and> (a, c) \<in> set (dc_caches s) \<and> ac_bufferedOffsets c \<noteq> {}"
  for a :: nat and c :: ArchiveCache
proof
  fix work b x and s :: DecompCache
  assume s: "distinct (map fst (dc_caches s)) \<and> (a, c) \<in> set (dc_caches s) \<and> ac_bufferedOffsets c \<noteq> {}"
    and x: "map_of (dc_caches s) b = Some x" "ac_bufferedOffsets x = {}"
  have "b \<noteq> a"
  proof
    assume "b = a"
    then have "x = c" using x(1) s by (metis map_of_is_SomeI option.inject)
    then show False using x(2) s by simp
  qed
  with s show "distinct (map fst (dc_caches (update_cache b drop_generation s))) \<and>
      (a, c) \<in> set (dc_caches (update_cache b drop_generation s)) \<and> ac_bufferedOffsets c \<noteq> {}"
    unfolding caches_update_cache by auto
qed (auto simp: publish_total_def Let_def)

text \<open>
  C29: enforcing the size limit, retiring invalid generations and settling a flush never touch
  a cache that still has queued or in-flight payloads: its mapping, its index, its file name
  and its queue are what they were.
\<close>

theorem eviction_spares_buffered:
  assumes "distinct (map fst (dc_caches (wd w)))" "(a, c) \<in> set (dc_caches (wd w))"
    and "ac_bufferedOffsets c \<noteq> {}"
    and "w' \<in> {EnforceSizeLimit h force w, retire_invalid h w, finish_flush h n w}"
  shows "(a, c) \<in> set (dc_caches (wd w'))"
  using assms spared.Enforce_ok [of w a c] spared.retire_invalid_ok [of w a c]
    spared.finish_flush_ok [of w a c] by auto

lemma dir_find_remove: "PathKey q \<noteq> PathKey p \<Longrightarrow> dir_find p (dir_remove q w) = dir_find p w"
proof -
  assume "PathKey q \<noteq> PathKey p"
  then have "find (\<lambda>(name, item). PathKey name = PathKey p)
      (filter (\<lambda>(name, item). PathKey name \<noteq> PathKey q) xs) =
    find (\<lambda>(name, item). PathKey name = PathKey p) xs" for xs :: "(bytes \<times> dir_item) list"
    by (induction xs) auto
  then show ?thesis by (simp add: dir_find_def dir_remove_def)
qed

lemma load_active_frame:
  "load_active w = (b, w') \<Longrightarrow> wd_dir w' = wd_dir w \<and> dc_caches (wd w') = dc_caches (wd w)"
  by (auto simp: load_active_def on_cache_def split: list.splits)

lemma remove_files_spares:
  "PathKey p \<in> active_keys (wd w) \<Longrightarrow> dir_find p (remove_files qs w) = dir_find p w"
proof (induction qs arbitrary: w)
  case (Cons q qs)
  obtain b w1 where 1: "load_active w = (b, w1)" by force
  obtain r w2 where 2: "delete_file q w1 = (r, w2)" by force
  have w1: "PathKey p \<in> active_keys (wd w1)" "dir_find p w1 = dir_find p w"
    using Cons.prems load_active_frame [OF 1] by (simp_all add: active_keys_def dir_find_def)
  have w2: "PathKey p \<in> active_keys (wd w2)" using w1(1) delete_file_caches [OF 2] by (simp add: active_keys_def)
  have "dir_find p w2 = dir_find p w1" if "PathKey q \<noteq> PathKey p"
    using 2 dir_find_remove [OF that]
    by (auto simp: delete_file_def os_call_def dir_find_def split: option.splits prod.splits bool.splits list.splits)
  moreover have "PathKey q \<noteq> PathKey p" if "PathKey q \<notin> active_keys (wd w1)" using that w1(1) by auto
  ultimately show ?case using w1 w2 Cons.IH by (auto simp: 1 2 split: bool.splits)
qed simp

text \<open>
  Removing the cache files no archive uses never removes the active file of a cache,
  whatever the list of candidates says (names compare without case).
\<close>

theorem active_files_survive:
  assumes "PathKey p \<in> active_keys (wd w)"
  shows "dir_find p (RemoveUnownedFiles w) = dir_find p w"
proof -
  obtain b w1 where 1: "load_active w = (b, w1)" by force
  have w1: "PathKey p \<in> active_keys (wd w1)" "dir_find p w1 = dir_find p w"
    using assms load_active_frame [OF 1] by (simp_all add: active_keys_def dir_find_def)
  have "PathKey p \<in> active_keys (wd (on_cache clear_unowned w1))"
    using w1(1) by (simp add: active_keys_def on_cache_def clear_unowned_def)
  from remove_files_spares [OF this] w1(2) show ?thesis
    by (auto simp: RemoveUnownedFiles_def 1 dir_find_def on_cache_def split: bool.splits)
qed

section \<open>The warm order\<close>

lemma getlines_line:
  "0x0A \<notin> set n \<Longrightarrow> getlines (n @ [0x0A] @ rest) acc = (acc @ n) # getlines rest []"
  by (induction n arbitrary: acc) auto

lemma getlines_lines:
  "\<forall>n \<in> set names. 0x0A \<notin> set n \<Longrightarrow> getlines (warm_priority_lines names) [] = names"
  using getlines_line [of _ "warm_priority_lines ns" "[]" for ns]
  by (induction names) (auto simp: warm_priority_lines_def)

lemma strip_line_id: "n \<noteq> [] \<Longrightarrow> last n \<noteq> 0x0D \<Longrightarrow> last n \<noteq> 0x0A \<Longrightarrow> strip_line n = n"
  by (cases n rule: rev_cases) (simp_all add: strip_line_def)

lemma names_roundtrip:
  assumes "\<forall>n \<in> set names. n \<noteq> [] \<and> 0x0A \<notin> set n \<and> last n \<noteq> 0x0D"
  shows "priority_names (warm_priority_lines names) = take 4096 names"
proof -
  have l: "getlines (warm_priority_lines names) [] = names"
    using assms by (intro getlines_lines) blast
  have s: "map strip_line names = names"
  proof (intro map_idI strip_line_id)
    fix n assume "n \<in> set names"
    then show "n \<noteq> []" "last n \<noteq> 0x0D" using assms by auto
    then show "last n \<noteq> 0x0A" using assms \<open>n \<in> set names\<close> last_in_set by metis
  qed
  have "filter (\<lambda>n. n \<noteq> []) names = names"
    using assms by (simp add: filter_id_conv)
  with l s show ?thesis by (simp add: priority_names_def)
qed

lemma emplace_ranks_nth:
  "distinct ns \<Longrightarrow> i < length ns \<Longrightarrow> (\<forall>n \<in> set ns. m n = None) \<Longrightarrow>
     emplace_ranks ns m (ns ! i) = Some (of_nat (length ns - i))"
proof -
  have keep: "m n = Some r \<Longrightarrow> emplace_ranks ns m n = Some r" for ns m n and r :: u64
  proof (induction ns arbitrary: m)
    case (Cons a ns)
    then show ?case by (cases "n = a") auto
  qed simp
  show "distinct ns \<Longrightarrow> i < length ns \<Longrightarrow> (\<forall>n \<in> set ns. m n = None) \<Longrightarrow> ?thesis"
  proof (induction ns arbitrary: m i)
    case (Cons a ns)
    show ?case
    proof (cases i)
      case 0
      then show ?thesis using Cons.prems(3) keep by simp
    next
      case (Suc j)
      define m' where "m' = m(a \<mapsto> of_nat (length (a # ns)))"
      have "\<forall>n \<in> set ns. m' n = None" using Cons.prems by (auto simp: m'_def)
      moreover have "emplace_ranks (a # ns) m = emplace_ranks ns m'"
        using Cons.prems by (simp add: m'_def)
      ultimately show ?thesis using Suc Cons.prems Cons.IH [of j m'] by simp
    qed
  qed simp
qed


end
