(* ===== verification/DecompQuiet.thy ===== *)
theory DecompQuiet
  imports DecompGuarantees
begin

text \<open>
  A quiet world: no load screen begins and no call fails.  There the disk operations are
  functions of the directory, and their results can be stated exactly.
\<close>

definition quiet :: "world \<Rightarrow> bool" where
  "quiet w \<longleftrightarrow> wd_loads w = [] \<and> wd_sys w = [] \<and> \<not> dc_loadActive (wd w)"

lemma quiet_load_active [simp]: "quiet w \<Longrightarrow> load_active w = (False, w)"
  by (simp add: quiet_def load_active_def)

lemma quiet_os_call [simp]: "quiet w \<Longrightarrow> os_call w = (True, w)"
  by (simp add: quiet_def os_call_def)

lemma quiet_on_cache: "quiet w \<Longrightarrow> (\<And>s. dc_loadActive (f s) = dc_loadActive s) \<Longrightarrow> quiet (on_cache f w)"
  by (simp add: quiet_def on_cache_def)

lemma quiet_update [simp]:
  "quiet (w\<lparr>wd_dir := d\<rparr>) = quiet w" "quiet (w\<lparr>wd_priorityFile := p\<rparr>) = quiet w"
  by (simp_all add: quiet_def)

lemma loadActive_simps [simp]:
  "dc_loadActive (clear_unowned s) = dc_loadActive s"
  "dc_loadActive (publish_total t u s) = dc_loadActive s"
  "dc_loadActive (publish_ready s) = dc_loadActive s"
  "dc_loadActive (restore_headroom n s) = dc_loadActive s"
  "dc_loadActive (update_cache a f s) = dc_loadActive s"
  "dc_loadActive (next_epoch s) = dc_loadActive s"
  "dc_loadActive (count_if b c n s) = dc_loadActive s"
  "dc_loadActive (RequestWarmup cfg q s) = dc_loadActive s"
  "dc_loadActive (RequestFlush s) = dc_loadActive s"
  by (simp_all add: clear_unowned_def publish_total_def Let_def publish_ready_def restore_headroom_def
      raise_headroom_def update_cache_def next_epoch_def count_if_def RequestWarmup_def RequestFlush_def)

section \<open>The exact totals\<close>

text \<open>The cache files of a directory, and the sum of their sizes, which saturates.\<close>

definition cache_files :: "(bytes \<times> dir_item) list \<Rightarrow> (bytes \<times> cfile) list" where
  "cache_files dir = concat (map (\<lambda>(name, item). case item of
     RegularFile f \<Rightarrow> (if IsCacheFilePath name then [(name, f)] else []) | OtherItem \<Rightarrow> []) dir)"

definition cache_bytes :: "(bytes \<times> dir_item) list \<Rightarrow> nat" where
  "cache_bytes dir = sum_list (map (\<lambda>(name, f). length (fl_content f)) (cache_files dir))"

definition unowned_names :: "bytes set \<Rightarrow> (bytes \<times> dir_item) list \<Rightarrow> bytes list" where
  "unowned_names active dir = filter (\<lambda>n. PathKey n \<notin> active) (map fst (cache_files dir))"

lemma cache_files_Cons:
  "cache_files ((name, item) # dir) =
     (case item of RegularFile f \<Rightarrow> (if IsCacheFilePath name then [(name, f)] else []) | OtherItem \<Rightarrow> []) @
     cache_files dir"
  by (simp add: cache_files_def)

lemma quiet_scan:
  "quiet w \<Longrightarrow> cache_bytes dir + unat acc < 2 ^ 64 \<Longrightarrow>
     scan_dir active dir acc unowned w =
       (ScanDone (acc + of_nat (cache_bytes dir)) (unowned @ unowned_names active dir), w)"
proof (induction dir arbitrary: acc unowned)
  case (Cons x dir)
  obtain name item where x: "x = (name, item)" by force
  show ?case
  proof (cases item)
    case OtherItem
    with Cons x show ?thesis
      by (simp add: cache_files_Cons cache_bytes_def unowned_names_def)
  next
    case (RegularFile f)
    show ?thesis
    proof (cases "IsCacheFilePath name")
      case False
      with Cons x RegularFile show ?thesis
        by (simp add: cache_files_Cons cache_bytes_def unowned_names_def)
    next
      case True
      let ?l = "length (fl_content f)"
      have bytes: "cache_bytes (x # dir) = ?l + cache_bytes dir"
        using x RegularFile True by (simp add: cache_bytes_def cache_files_Cons)
      then have lt: "?l + unat acc < 2 ^ 64" "cache_bytes dir + (?l + unat acc) < 2 ^ 64"
        using Cons.prems(2) by linarith+
      have size: "unat (item_size f) = ?l"
        using lt(1) by (simp add: item_size_def unat_of_nat take_bit_nat_eq_self)
      have "unat (AddSaturating acc (item_size f)) = unat acc + ?l"
        using lt(1) unfolding AddSaturating_unat size by simp
      moreover have sum: "unat (acc + of_nat ?l) = unat acc + ?l"
        using lt(1) size unfolding item_size_def by (subst unat_add_noovf) simp_all
      ultimately have acc: "AddSaturating acc (item_size f) = acc + of_nat ?l"
        by (simp only: word_unat_eq_iff)
      with Cons.IH [of "acc + of_nat ?l"] Cons.prems(1) lt(2) sum show ?thesis
        using x RegularFile True acc bytes
        by (simp add: cache_files_Cons unowned_names_def)
    qed
  qed
qed (simp add: cache_bytes_def cache_files_def unowned_names_def)

lemma quiet_Reconcile:
  assumes "quiet w" "cache_bytes (wd_dir w) < 2 ^ 64"
  shows "ReconcileDiskAccounting w =
    on_cache (publish_total (of_nat (cache_bytes (wd_dir w)))
      (unowned_names (active_keys (wd w)) (wd_dir w))) w"
  using assms quiet_scan [OF assms(1), of "wd_dir w" 0 "active_keys (wd w)" "[]"]
  by (simp add: ReconcileDiskAccounting_def)

text \<open>
  C31: a reconciliation that nothing interrupts makes the totals exact: the disk total is the
  sum of the sizes of the cache files in the directory, and the reservations of committed
  files leave the pending charge.
\<close>

theorem reconcile_exact:
  assumes "quiet w" "cache_bytes (wd_dir w) < 2 ^ 64" "books A work (wd w)"
  shows "let s = wd (ReconcileDiskAccounting w) in
    unat (dc_totalCacheBytes s) = cache_bytes (wd_dir w) \<and> dc_committedReservations s = 0 \<and>
    unat (dc_pendingBytes s) = charged work s"
proof -
  have b: "books A work (publish_total t u (wd w))" for t u
    using ledger.publish [OF assms(3)] .
  show ?thesis
    using b assms(2) unfolding quiet_Reconcile [OF assms(1,2)]
    by (auto simp: on_cache_def books_def publish_total_def Let_def unat_of_nat take_bit_nat_eq_self)
qed

end
