(* ===== verification/CacheSamples.thy ===== *)
theory CacheSamples
  imports CacheFormat
begin

text \<open>
  Concrete cache files that the properties of CacheFormat are applied to.
\<close>

section \<open>Concrete files\<close>

text \<open>
  A file with room for two entries, both committed; its second payload is one byte.
\<close>

definition sample_identity :: ArchiveIdentity where
  "sample_identity = \<lparr>ai_fileSize = 100, ai_lastWrite = 7, ai_fingerprint = 9, ai_entryCount = 2\<rparr>"

definition sample_header :: Header where
  "sample_header = \<lparr>h_magic = kMagic, h_version = kVersion, h_bsaFileSize = 100, h_bsaLastWrite = 7,
     h_bsaFingerprint = 9, h_bsaEntryCount = 2, h_indexCapacity = 2, h_entryCount = 2\<rparr>"

definition sample_file :: bytes where
  "sample_file = header_bytes sample_header
     @ entry_bytes \<lparr>e_startOffset = 16, e_decompSize = 3, e_cacheOffset = 84, e_checksum = xxh32 [1, 2, 3]\<rparr>
     @ entry_bytes \<lparr>e_startOffset = 40, e_decompSize = 1, e_cacheOffset = 87, e_checksum = xxh32 [8]\<rparr>
     @ [1, 2, 3] @ [8]"

lemma sample_accepted:
  "vr_ok (Validate (Some sample_file) (length sample_file) (Some sample_identity) FullPayload False)"
  "vr_ok (Validate (Some sample_file) (length sample_file) (Some sample_identity) StructuralOnly True)"
  by code_simp+

lemma sample_shape:
  "unat (h_entryCount (load_header sample_file)) = 2" "data_start (load_header sample_file) = 84"
  "committed_size sample_file = 88" "length sample_file = 88" "sample_file ! 86 = 3"
  by code_simp+

theorem accepted_payloads_disjoint_witness:
  "84 \<le> unat (e_cacheOffset (entry_at sample_file 1)) \<and>
   unat (e_cacheOffset (entry_at sample_file 1)) + unat (e_decompSize (entry_at sample_file 1)) \<le> 88"
  using accepted_payloads_disjoint [OF sample_accepted(1), of 1] by (simp add: sample_shape)

theorem Validate_committed_prefix_witness:
  "Validate (Some (sample_file @ [7, 7])) (length (sample_file @ [7, 7])) (Some sample_identity)
     StructuralOnly True =
   Validate (Some sample_file) (length sample_file) (Some sample_identity) StructuralOnly True"
  by (rule Validate_committed_prefix [OF sample_accepted(2)])
    (simp_all add: sample_shape sizeof_Header_def sizeof_Entry_def)

theorem full_validation_detects_corruption_witness:
  "\<not> vr_ok (Validate (Some (sample_file[86 := 4])) (length sample_file) (Some sample_identity)
     FullPayload False)"
  by (rule full_validation_detects_corruption [OF sample_accepted(1)]) (simp_all add: sample_shape)

end
