(* ===== verification/DecompSamples.thy ===== *)
theory DecompSamples
  imports DecompQuiet CacheSamples
begin

definition sample_archive :: MappedArchive where
  "sample_archive = (closed_archive [0x41])\<lparr>ma_fileSize := 100, ma_fingerprint := 9,
     ma_header := (ma_header (closed_archive []))\<lparr>b_fileCount := 2\<rparr>, ma_valid := True\<rparr>"

definition sample_config :: CacheSettings where
  "sample_config = \<lparr>cfg_bPrefaultDecompCache = False, cfg_bMeasureStats = True,
     cfg_iDecompCacheMode = 1, cfg_uDecompCacheMaxBytes = 1000\<rparr>"

definition sample_host :: host where
  "sample_host = \<lparr>ho_cfg = sample_config, ho_archives = (\<lambda>_. sample_archive),
     ho_lastWrite = (\<lambda>_. 7), ho_now = 50, ho_qpc = 3, ho_pid = 1, ho_planThrows = False,
     ho_requeueThrows = (\<lambda>_. False)\<rparr>"

definition zero_cache :: DecompCache where
  "zero_cache = \<lparr>dc_caches = [], dc_views = [], dc_warmPriorityRank = Map.empty,
     dc_backgroundStarted = False, dc_flushRequested = False, dc_warmRequested = False,
     dc_prefaultEnabled = False, dc_warmComplete = False, dc_lastOverCapNotifyMs = 0,
     dc_ready = False, dc_building = False, dc_loadActive = False, dc_sessionStartMs = 0,
     dc_pendingBytes = 0, dc_committedReservations = 0, dc_totalCacheBytes = 0,
     dc_requiredHeadroom = 0, dc_diag = zero_diagnostics, dc_lastWarmRequestQpc = 0,
     dc_cacheEpoch = 0, dc_warmedBytes = 0, dc_unownedFiles = [], dc_notifies = 0\<rparr>"

definition sample_world :: "(bytes \<times> dir_item) list \<Rightarrow> world" where
  "sample_world dir = \<lparr>wd = zero_cache, wd_dir = dir, wd_loads = [], wd_sys = [],
     wd_tempGeneration = 0, wd_priorityFile = None\<rparr>"

definition sample_path :: bytes where "sample_path = [0x41] @ decomp_suffix"

definition loaded_world :: world where
  "loaded_world = InitializeCache sample_host [7]
     (sample_world [(sample_path, RegularFile (durable_file sample_file))])"

definition sample_env :: lookup_env where
  "sample_env = \<lparr>le_now = 60, le_qpc = 4, le_ticks = 2, le_readable = True, le_owner_valid = True\<rparr>"

lemma sample_index: "index_of sample_file 2 =
    [(16, \<lparr>ce_data = 84, ce_size = 3, ce_checksum = xxh32 [1, 2, 3], ce_slot = 0\<rparr>),
     (40, \<lparr>ce_data = 87, ce_size = 1, ce_checksum = xxh32 [8], ce_slot = 1\<rparr>)]"
  by code_simp

lemma sample_payload: "take 3 (drop 84 sample_file) = [1, 2, 3]"
  by code_simp

lemma sample_validation:
  "vr_ok (Validate (Some sample_file) 88 (Some sample_identity) StructuralOnly True)"
  "vr_validSize (Validate (Some sample_file) 88 (Some sample_identity) StructuralOnly True) = 88"
  "unat (h_entryCount (vr_header (Validate (Some sample_file) 88 (Some sample_identity) StructuralOnly True))) = 2"
  by code_simp+

lemma sample_load:
  assumes "dk_base d = Some (durable_file sample_file)" "dk_sys d = []"
  shows "LoadFile sample_identity d = (Some (loaded_file sample_file 88 2 False), d)"
  using assms sample_validation
  by (simp add: LoadFile_def open_cache_def undisturbed_sys_call undisturbed_sys_calls durable_file_def
      sample_shape(4) sizeof_Header_def Let_def)

lemma sample_path_simps: "CachePathFor sample_archive = sample_path"
  by (simp add: sample_archive_def CachePathFor_def filename_def closed_archive_def sample_path_def)

lemma put_disk_unchanged:
  assumes "regular_file p w = Some f" "dir_put p f w = w"
  shows "put_disk h p (disk_of p w) w = w"
  using assms by (simp add: put_disk_def disk_of_def Let_def)

definition sample_dir :: "(bytes \<times> dir_item) list" where
  "sample_dir = [(sample_path, RegularFile (durable_file sample_file))]"

lemma sample_dir_facts: "cache_files sample_dir = [(sample_path, durable_file sample_file)]"
  "cache_bytes sample_dir = 88"
proof -
  have "IsCacheFilePath sample_path" by code_simp
  then show f: "cache_files sample_dir = [(sample_path, durable_file sample_file)]"
    by (simp add: cache_files_def sample_dir_def)
  show "cache_bytes sample_dir = 88"
    by (simp add: cache_bytes_def f durable_file_def sample_shape(4))
qed

definition sample_cache :: ArchiveCache where
  "sample_cache = \<lparr>ac_view = Some 0, ac_activePath = sample_path, ac_bsaFingerprint = 9,
     ac_diskInvalidated = False, ac_needsReplacement = False, ac_lastAccessMs = 0,
     ac_onDiskBytes = 88, ac_index = index_of sample_file 2, ac_pending = [], ac_bufferedOffsets = {}\<rparr>"

lemma sample_LoadCacheFile:
  assumes "wd_dir w = sample_dir" "wd_loads w = []" "wd_sys w = []"
    and "dc_caches (wd w) = [(7, empty_cache\<lparr>ac_bsaFingerprint := 9\<rparr>)]" "dc_views (wd w) = []"
  shows "\<exists>s. LoadCacheFile sample_host 7 w = (True, w\<lparr>wd := s\<rparr>) \<and> dc_caches s = [(7, sample_cache)] \<and>
    dc_views s = [ld_view (loaded_file sample_file 88 2 False)] \<and> dc_loadActive s = dc_loadActive (wd w) \<and>
    dc_requiredHeadroom s = dc_requiredHeadroom (wd w) \<and> dc_pendingBytes s = dc_pendingBytes (wd w) \<and>
    dc_committedReservations s = dc_committedReservations (wd w) \<and>
    dc_totalCacheBytes s = dc_totalCacheBytes (wd w) \<and> dc_flushRequested s = dc_flushRequested (wd w) \<and>
    dc_warmRequested s = dc_warmRequested (wd w)"
proof -
  have f: "regular_file sample_path w = Some (durable_file sample_file)"
    using assms(1) by (simp add: regular_file_def dir_find_def sample_dir_def)
  have p: "put_disk sample_host sample_path (disk_of sample_path w) w = w"
    by (rule put_disk_unchanged [OF f])
      (use assms(1) in \<open>simp add: dir_put_def dir_find_def sample_dir_def\<close>)
  have l: "LoadFile sample_identity (disk_of sample_path w) =
      (Some (loaded_file sample_file 88 2 False), disk_of sample_path w)"
    by (rule sample_load) (simp_all add: disk_of_def f assms)
  have ident: "archive_identity sample_host 7 (empty_cache\<lparr>ac_bsaFingerprint := 9\<rparr>) = sample_identity"
    by (simp add: archive_identity_def sample_host_def sample_archive_def closed_archive_def sample_identity_def
      zero_bsa_header_def)
  have h: "ho_archives sample_host 7 = sample_archive" by (simp add: sample_host_def)
  let ?l = "loaded_file sample_file 88 2 False"
  have "LoadCacheFile sample_host 7 w = (True, on_cache (install_loaded 7 sample_path ?l) w)"
    by (simp add: LoadCacheFile_def Let_def h sample_path_simps ident f p l assms(4))
  moreover have "dc_caches (install_loaded 7 sample_path ?l (wd w)) = [(7, sample_cache)]"
    using assms(4,5) by (simp add: install_loaded_def add_view_def update_cache_def next_epoch_def
        sample_cache_def empty_cache_def loaded_file_def sample_shape(4))
  moreover have "dc_views (install_loaded 7 sample_path ?l (wd w)) = [ld_view ?l]"
    "dc_loadActive (install_loaded 7 sample_path ?l (wd w)) = dc_loadActive (wd w)"
    using assms(5) by (simp_all add: install_loaded_def add_view_def update_cache_def next_epoch_def)
  moreover have "dc_requiredHeadroom (install_loaded 7 sample_path ?l (wd w)) = dc_requiredHeadroom (wd w)"
    "dc_pendingBytes (install_loaded 7 sample_path ?l (wd w)) = dc_pendingBytes (wd w)"
    "dc_committedReservations (install_loaded 7 sample_path ?l (wd w)) = dc_committedReservations (wd w)"
    "dc_totalCacheBytes (install_loaded 7 sample_path ?l (wd w)) = dc_totalCacheBytes (wd w)"
    "dc_flushRequested (install_loaded 7 sample_path ?l (wd w)) = dc_flushRequested (wd w)"
    "dc_warmRequested (install_loaded 7 sample_path ?l (wd w)) = dc_warmRequested (wd w)"
    by (simp_all add: install_loaded_def add_view_def update_cache_def next_epoch_def)
  ultimately show ?thesis
    by (intro exI [of _ "install_loaded 7 sample_path ?l (wd w)"]) (simp add: on_cache_def)
qed

text \<open>What the scans of a quiet world leave alone.\<close>

definition settled_cache :: "DecompCache \<Rightarrow> bool" where
  "settled_cache s \<longleftrightarrow> \<not> dc_loadActive s \<and> \<not> dc_flushRequested s \<and> \<not> dc_warmRequested s \<and> dc_requiredHeadroom s = 0 \<and> dc_building s \<and>
     dc_pendingBytes s = 0 \<and> dc_committedReservations s = 0 \<and> dc_totalCacheBytes s \<in> {0, 88} \<and>
     dc_caches s = [(7, sample_cache)] \<and> dc_views s = [ld_view (loaded_file sample_file 88 2 False)]"

definition settled_world :: "world \<Rightarrow> bool" where
  "settled_world w \<longleftrightarrow> quiet w \<and> wd_dir w = sample_dir \<and> settled_cache (wd w)"

lemma settled_on_cache:
  assumes "settled_world w" "\<And>s. settled_cache s \<Longrightarrow> settled_cache (f s)"
  shows "settled_world (on_cache f w)"
  using assms(1) assms(2) [of "wd w"]
  by (auto simp: settled_world_def quiet_def on_cache_def settled_cache_def)

lemma settled_updates:
  "settled_cache s \<Longrightarrow> settled_cache (publish_total 88 u s)"
  "settled_cache s \<Longrightarrow> settled_cache (clear_unowned s)"
  "settled_cache s \<Longrightarrow> settled_cache (publish_ready s)"
  "settled_cache s \<Longrightarrow> settled_cache (s\<lparr>dc_requiredHeadroom := 0\<rparr>)"
  "settled_cache s \<Longrightarrow> settled_cache (s\<lparr>dc_lastOverCapNotifyMs := 0\<rparr>)"
  by (auto simp: settled_cache_def publish_total_def clear_unowned_def publish_ready_def Let_def)

lemma settled_active: "settled_world w \<Longrightarrow> unowned_names (active_keys (wd w)) (wd_dir w) = []"
  by (simp add: settled_world_def settled_cache_def unowned_names_def sample_dir_facts active_keys_def
      sample_cache_def sample_path_def)

lemma settled_Reconcile:
  assumes "settled_world w"
  shows "settled_world (ReconcileDiskAccounting w)" "dc_unownedFiles (wd (ReconcileDiskAccounting w)) = []"
    "dc_totalCacheBytes (wd (ReconcileDiskAccounting w)) = 88"
proof -
  have "ReconcileDiskAccounting w = on_cache (publish_total 88 []) w"
    using assms quiet_Reconcile [of w] settled_active [OF assms]
    by (simp add: settled_world_def sample_dir_facts)
  moreover have "settled_world (on_cache (publish_total 88 []) w)"
    by (rule settled_on_cache [OF assms]) (rule settled_updates(1))
  ultimately show "settled_world (ReconcileDiskAccounting w)"
    "dc_unownedFiles (wd (ReconcileDiskAccounting w)) = []"
    "dc_totalCacheBytes (wd (ReconcileDiskAccounting w)) = 88"
    by (simp_all add: publish_total_def Let_def on_cache_def)
qed

lemma settled_Remove:
  assumes "settled_world w" "dc_unownedFiles (wd w) = []"
  shows "settled_world (RemoveUnownedFiles w)"
proof -
  have "RemoveUnownedFiles w = on_cache clear_unowned w"
    using assms by (simp add: RemoveUnownedFiles_def settled_world_def)
  then show ?thesis
    using settled_on_cache [OF assms(1) settled_updates(2)] by simp
qed

lemma settled_Enforce:
  assumes "settled_world w"
  shows "settled_world (EnforceSizeLimit sample_host True w)"
proof -
  define w2 where "w2 = on_cache (\<lambda>s. s\<lparr>dc_requiredHeadroom := 0\<rparr>) w"
  have w2: "settled_world w2" unfolding w2_def by (rule settled_on_cache [OF assms settled_updates(4)])
  note r = settled_Reconcile [OF w2]
  have q: "quiet w" "quiet (ReconcileDiskAccounting w2)"
    using assms(1) r(1) by (simp_all add: settled_world_def)
  have t: "EvictionTarget (cfg_uDecompCacheMaxBytes (ho_cfg sample_host)) 0 = 1000"
    by (simp add: EvictionTarget_def sample_host_def sample_config_def)
  have "EnforceSizeLimit sample_host True w =
      on_cache (\<lambda>s. s\<lparr>dc_lastOverCapNotifyMs := 0\<rparr>) (ReconcileDiskAccounting w2)"
    using q r(3) t assms
    by (simp add: EnforceSizeLimit_def Let_def sample_host_def sample_config_def settled_world_def settled_cache_def
        flip: w2_def)
  then show ?thesis using settled_on_cache [OF r(1) settled_updates(5)] by simp
qed

lemma loaded_settled: "settled_world loaded_world"
proof -
  let ?w = "sample_world sample_dir"
  define w1 where "w1 = on_cache (reset_cache (ho_cfg sample_host) (ho_now sample_host)) ?w"
  have w1: "quiet w1" "wd_dir w1 = sample_dir" "dc_caches (wd w1) = []" "dc_views (wd w1) = []"
    "wd_priorityFile w1 = None" "dc_requiredHeadroom (wd w1) = 0"
    "dc_pendingBytes (wd w1) = 0" "dc_committedReservations (wd w1) = 0" "dc_totalCacheBytes (wd w1) = 0"
    "\<not> dc_flushRequested (wd w1)" "\<not> dc_warmRequested (wd w1)"
    by (simp_all add: w1_def quiet_def on_cache_def reset_cache_def sample_world_def zero_cache_def)
  define w2 where "w2 = on_cache (\<lambda>s. s\<lparr>dc_caches := dc_caches s @
      [(7, empty_cache\<lparr>ac_bsaFingerprint := 9\<rparr>)]\<rparr>) w1"
  obtain s where s: "LoadCacheFile sample_host 7 w2 = (True, w2\<lparr>wd := s\<rparr>)" "dc_caches s = [(7, sample_cache)]"
    "dc_views s = [ld_view (loaded_file sample_file 88 2 False)]" "dc_loadActive s = dc_loadActive (wd w2)" "dc_requiredHeadroom s = dc_requiredHeadroom (wd w2)"
    "dc_pendingBytes s = dc_pendingBytes (wd w2)" "dc_committedReservations s = dc_committedReservations (wd w2)"
    "dc_totalCacheBytes s = dc_totalCacheBytes (wd w2)" "dc_flushRequested s = dc_flushRequested (wd w2)"
    "dc_warmRequested s = dc_warmRequested (wd w2)"
    using sample_LoadCacheFile [of w2] w1 by (auto simp: w2_def on_cache_def quiet_def)
  have a: "IsOpen sample_archive" "b_fileCount (ma_header sample_archive) \<noteq> 0" "ma_fingerprint sample_archive = 9"
    "ho_archives sample_host 7 = sample_archive"
    by (simp_all add: IsOpen_def sample_archive_def sample_host_def)
  have l: "load_archives sample_host [7] 0 w1 = (1, w2\<lparr>wd := s\<rparr>)"
    using a s(1) by (simp add: Let_def flip: w2_def)
  define w4 where "w4 = on_cache (LoadWarmPriority (wd_priorityFile (w2\<lparr>wd := s\<rparr>)) \<circ>
      (\<lambda>s. s\<lparr>dc_ready := 0 < (1 :: nat), dc_building := True\<rparr>)) (w2\<lparr>wd := s\<rparr>)"
  have "settled_world w4"
    using w1 s by (simp add: settled_world_def settled_cache_def w4_def quiet_def on_cache_def w2_def LoadWarmPriority_def)
  then have "settled_world (EnforceSizeLimit sample_host True
      (ReconcileDiskAccounting (RemoveUnownedFiles (ReconcileDiskAccounting w4))))"
    by (intro settled_Enforce settled_Reconcile settled_Remove)
  then have "settled_world (on_cache publish_ready (EnforceSizeLimit sample_host True
      (ReconcileDiskAccounting (RemoveUnownedFiles (ReconcileDiskAccounting w4)))))"
    by (rule settled_on_cache) (rule settled_updates(3))
  moreover have "loaded_world = InitializeCache sample_host [7] ?w"
    by (simp only: loaded_world_def sample_dir_def)
  ultimately show ?thesis
    unfolding InitializeCache_def Let_def w1_def [symmetric] quiet_os_call [OF w1(1)] prod.case bool.case l
      w4_def [symmetric] by simp
qed

section \<open>Witnesses\<close>

lemma loaded_cache: "settled_cache (wd loaded_world)"
  using loaded_settled by (simp add: settled_world_def)

lemma loaded_reach: "cache_reach (\<lambda>_. sample_archive) ([], None, loaded_world)"
  unfolding loaded_world_def by (rule cache_reach.Start) simp

definition sample_recorder :: record_env where
  "sample_recorder = \<lparr>re_now = 70, re_alloc = AllocOk\<rparr>"

lemma sample_admitted:
  assumes "re_now env = 70"
  shows "RecordDecompressed sample_config env (\<lambda>_. sample_archive) (Some 7) 99 [5] (wd loaded_world) =
    enqueue env 7 99 1 [5] ((wd loaded_world)\<lparr>dc_pendingBytes := 1\<rparr>)"
proof -
  have fo: "fixed_overhead sample_archive sample_cache = Some 0"
    by (simp add: fixed_overhead_def sample_cache_def)
  have add: "AddChecked 1 0 = Some (1 :: u64)" by (simp add: AddChecked_def u64_max_def)
  have adm: "admit sample_config 70 1 (wd loaded_world) = (True, (wd loaded_world)\<lparr>dc_pendingBytes := 1\<rparr>)"
    using loaded_cache by (auto simp: settled_cache_def admit_def sample_config_def kMaxPendingMemoryBytes_def
        kBytesPerMB_def)
  have "map_of (ac_index sample_cache) 99 = None" "ac_bufferedOffsets sample_cache = {}"
    by (simp_all add: sample_cache_def sample_index)
  then show ?thesis
    using loaded_cache fo add adm assms
    by (simp add: RecordDecompressed_def settled_cache_def kMaxPayloadSize_def)
qed

lemma sample_recorded:
  "\<exists>s. RecordDecompressed sample_config sample_recorder (\<lambda>_. sample_archive) (Some 7) 99 [5] (wd loaded_world) =
     (False, s) \<and> dc_pendingBytes s = 1 \<and> dc_committedReservations s = 0"
proof -
  have "\<not> kFlushWakeBytes \<le> 1" by (simp add: kFlushWakeBytes_def kBytesPerMB_def word_le_nat_alt)
  then show ?thesis
    using loaded_cache sample_admitted [of sample_recorder]
    by (simp add: settled_cache_def sample_recorder_def enqueue_def Let_def)
qed

lemma pending_ledger_witness:
  "\<exists>w :: world. dc_pendingBytes (wd w) = 1 \<and> charged [] (wd w) = 1"
proof -
  obtain s where s: "RecordDecompressed sample_config sample_recorder (\<lambda>_. sample_archive) (Some 7) 99 [5]
      (wd loaded_world) = (False, s)" "dc_pendingBytes s = 1" "dc_committedReservations s = 0"
    using sample_recorded by blast
  have "cache_reach (\<lambda>_. sample_archive) ([], None, loaded_world\<lparr>wd := s\<rparr>)"
    by (rule cache_reach.Step [OF loaded_reach Records [OF s(1)]])
  from pending_ledger [OF this] s(2,3) show ?thesis
    by (intro exI [of _ "loaded_world\<lparr>wd := s\<rparr>"]) simp
qed

lemma sample_lookup:
  "\<exists>r s. Lookup sample_config sample_env 7 16 (wd loaded_world) = (r, s) \<and> result_bool r"
proof -
  let ?e = "\<lparr>ce_data = 84, ce_size = 3, ce_checksum = xxh32 [1, 2, 3], ce_slot = 0\<rparr>"
  let ?v = "ld_view (loaded_file sample_file 88 2 False)"
  have idx: "map_of (ac_index sample_cache) 16 = Some ?e" "ac_view sample_cache = Some 0"
    "\<not> ac_diskInvalidated sample_cache"
    by (simp_all add: sample_cache_def sample_index)
  have verdict: "entry_verdict True sample_file ?e"
    by (simp add: entry_verdict_def TryChecksumMapped_def entry_payload_def Checksum_def sample_payload)
  have view: "\<not> mv_unusable ?v" "mv_base ?v = sample_file" "mv_verification ?v ! 0 = kVerifyUnknown"
    by (simp_all add: loaded_file_def)
  have ver: "VerifyEntry True 2 True (mv_base ?v) ?e (mv_verification ?v ! 0) =
      (verification_result True True False 2, kVerifyValid)"
    using verdict view by (simp add: VerifyEntry_def Let_def)
  show ?thesis
    using loaded_cache idx view ver
    by (simp add: Lookup_def Let_def settled_cache_def sample_config_def sample_env_def makeResult_def
        verify_in_view_def result_bool_def)
qed


lemma admission_within_cap_witness:
  "\<exists>s. RecordDecompressed sample_config sample_recorder (\<lambda>_. sample_archive) (Some 7) 99 [5] (wd loaded_world) =
     (False, s) \<and> unat (dc_totalCacheBytes (wd loaded_world)) + unat (dc_pendingBytes s) \<le> 1000"
proof -
  obtain s where s: "RecordDecompressed sample_config sample_recorder (\<lambda>_. sample_archive) (Some 7) 99 [5]
      (wd loaded_world) = (False, s)" "dc_pendingBytes s = 1"
    using sample_recorded by blast
  have "dc_pendingBytes s \<noteq> dc_pendingBytes (wd loaded_world)"
    using s(2) loaded_cache by (simp add: settled_cache_def)
  from admission_within_cap [OF s(1) this] s(1) show ?thesis by (auto simp: sample_config_def)
qed

lemma exception_restores_cache_witness:
  "snd (RecordDecompressed sample_config (sample_recorder\<lparr>re_alloc := PushThrows\<rparr>) (\<lambda>_. sample_archive)
     (Some 7) 99 [5] (wd loaded_world)) = wd loaded_world"
proof -
  let ?env = "sample_recorder\<lparr>re_alloc := PushThrows\<rparr>"
  obtain s where "RecordDecompressed sample_config ?env (\<lambda>_. sample_archive) (Some 7) 99 [5] (wd loaded_world) = (True, s)"
    using sample_admitted [of ?env] by (simp add: sample_recorder_def enqueue_def Let_def)
  from exception_restores_cache [OF this] this show ?thesis by simp
qed

lemma eviction_spares_buffered_witness:
  "\<exists>w :: world. (7, sample_cache\<lparr>ac_bufferedOffsets := {99}\<rparr>) \<in>
     set (dc_caches (wd (EnforceSizeLimit sample_host True w)))"
proof -
  let ?w = "loaded_world\<lparr>wd := (wd loaded_world)\<lparr>dc_caches := [(7, sample_cache\<lparr>ac_bufferedOffsets := {99}\<rparr>)]\<rparr>\<rparr>"
  have "(7, sample_cache\<lparr>ac_bufferedOffsets := {99}\<rparr>) \<in>
     set (dc_caches (wd (EnforceSizeLimit sample_host True ?w)))"
    by (rule eviction_spares_buffered [of ?w _ _ _ sample_host True]) simp_all
  then show ?thesis by blast
qed

lemma active_files_survive_witness:
  "dir_find sample_path (RemoveUnownedFiles loaded_world) = Some (RegularFile (durable_file sample_file))"
proof -
  have "PathKey sample_path \<in> active_keys (wd loaded_world)"
    using loaded_cache by (simp add: settled_cache_def active_keys_def sample_cache_def sample_path_def)
  from active_files_survive [OF this] loaded_settled show ?thesis
    by (simp add: settled_world_def dir_find_def sample_dir_def)
qed


lemma reconcile_exact_witness:
  "unat (dc_totalCacheBytes (wd (ReconcileDiskAccounting loaded_world))) = 88"
proof -
  have "books (\<lambda>_. sample_archive) [] (wd loaded_world)"
    using ledger.reach_ok [OF loaded_reach] by simp
  from reconcile_exact [OF _ _ this] loaded_settled show ?thesis
    by (simp add: settled_world_def sample_dir_facts Let_def)
qed

end
