(* ===== verification/StreamSamples.thy ===== *)
theory StreamSamples
  imports StreamGuarantees DecompSamples
begin

text \<open>
  A game whose streams are kept in a map from addresses, and states of the hooks on which the
  properties of the streams are instantiated: a stream served from the cache, and a stream
  being captured.
\<close>

section \<open>The game\<close>

type_synonym shelf = "u64 \<rightharpoonup> bytes \<times> nat"

definition shelf_view :: "shelf \<Rightarrow> u64 \<rightharpoonup> bytes \<times> nat" where
  "shelf_view n x = (case n x of None \<Rightarrow> None | Some v \<Rightarrow> if stream_wf v then Some v else None)"

definition shelf_call :: "u64 \<Rightarrow> 'r \<Rightarrow> (bytes \<times> nat \<Rightarrow> 'r \<times> (bytes \<times> nat)) \<Rightarrow> shelf \<Rightarrow> 'r \<times> shelf" where
  "shelf_call x failure f n =
     (case shelf_view n x of None \<Rightarrow> (failure, n) | Some v \<Rightarrow> (case f v of (r, v') \<Rightarrow> (r, n(x \<mapsto> v'))))"

definition sample_engine :: "shelf engine" where
  "sample_engine = \<lparr>en_source = (\<lambda>_ _. 0x1000), en_startOffset = (\<lambda>_ _. 16), en_vtable = (\<lambda>_ _. 0x40),
     en_read = (\<lambda>x buffer toRead read. shelf_call x (kFileError, buffer, read) (ref_read buffer toRead)),
     en_seek = (\<lambda>x offset mode position. shelf_call x (kFileError, position) (ref_seek offset mode position)),
     en_open = (\<lambda>x n. (kNone, n(x \<mapsto> ([1, 2, 3], 0)))),
     en_close = (\<lambda>x n. n(x := None)), en_dtor = (\<lambda>x n. n(x := None)),
     en_clone = (\<lambda>x n. if n 2 = None \<and> x \<noteq> 2 then (2, n(2 := n x)) else (0, n))\<rparr>"

lemma shelf_call_ok:
  assumes "shelf_view n x = Some v" "\<And>v. stream_wf v \<Longrightarrow> stream_wf (snd (f v))"
  shows "\<exists>n'. shelf_call x failure f n = (fst (f v), n') \<and> shelf_view n' = (shelf_view n)(x \<mapsto> snd (f v))"
proof -
  have "stream_wf v" using assms(1) by (auto simp: shelf_view_def split: option.splits if_splits)
  then have "stream_wf (snd (f v))" by (rule assms(2))
  then have "shelf_view (n(x \<mapsto> snd (f v))) = (shelf_view n)(x \<mapsto> snd (f v))" by (auto simp: shelf_view_def fun_eq_iff)
  then show ?thesis using assms(1) by (simp add: shelf_call_def split_beta)
qed

lemma sample_engine_ok: "engine_ok sample_engine shelf_view"
proof -
  have same: "same_fields sample_engine n n'" for n n' by (simp add: same_fields_def sample_engine_def)
  have fields: "en_source sample_engine n y = en_source sample_engine n' y" "en_vtable sample_engine n y = en_vtable sample_engine n' y"
    "en_startOffset sample_engine n y = en_startOffset sample_engine n' y" for n n' y by (simp_all add: sample_engine_def)
  have "reads_ok sample_engine shelf_view" unfolding reads_ok_def
  proof (intro allI impI)
    fix n x v buffer toRead and read :: u64 assume "shelf_view n x = Some v"
    from shelf_call_ok [where f = "ref_read buffer toRead", OF this stream_wf_read, of "(kFileError, buffer, read)"]
    show "\<exists>n'. en_read sample_engine x buffer toRead read n = (fst (ref_read buffer toRead v), n') \<and>
        shelf_view n' = (shelf_view n)(x \<mapsto> snd (ref_read buffer toRead v)) \<and> same_fields sample_engine n n'"
      using same by (simp add: sample_engine_def)
  qed
  moreover have "seeks_ok sample_engine shelf_view" unfolding seeks_ok_def
  proof (intro allI impI)
    fix n x v offset mode position assume "shelf_view n x = Some v"
    from shelf_call_ok [where f = "ref_seek offset mode position", OF this stream_wf_seek, of "(kFileError, position)"]
    show "\<exists>n'. en_seek sample_engine x offset mode position n = (fst (ref_seek offset mode position v), n') \<and>
        shelf_view n' = (shelf_view n)(x \<mapsto> snd (ref_seek offset mode position v)) \<and> same_fields sample_engine n n'"
      using same by (simp add: sample_engine_def)
  qed
  moreover have "lives_ok sample_engine shelf_view"
    unfolding lives_ok_def others_kept_def using same
    by (auto simp: sample_engine_def shelf_view_def stream_wf_def split: if_splits)
  moreover have "shelf_view n x = Some v \<Longrightarrow> stream_wf v" for n x v
    by (auto simp: shelf_view_def split: option.splits if_splits)
  ultimately show ?thesis unfolding engine_ok_def by blast
qed

section \<open>What a call observes\<close>

definition sample_settings :: HookSettings where
  "sample_settings = \<lparr>hs_bBaselineMode = False, hs_bEnableDecompCache = True, hs_bServeDecompCache = True,
     hs_bEnableDuringSaveLoad = True, hs_cache = sample_config\<rparr>"

text \<open>No page can be queried, and the backing stream of every source is at \<open>0x500\<close>.\<close>

definition sample_process :: process_view where
  "sample_process = \<lparr>pv_query = (\<lambda>_. None), pv_word = (\<lambda>_. 0x500), pv_faults = (\<lambda>_. False),
     pv_getName = (\<lambda>_ _. NameAbsent), pv_rdata = empty_range, pv_lookupThrows = False,
     pv_insertThrows = False, pv_lookupTick = 0, pv_insertTick = 0\<rparr>"

definition sample_hook_env :: hook_env where
  "sample_hook_env = \<lparr>he_cfg = sample_settings, he_pv = sample_process, he_io = (\<lambda>_ _. True), he_lookup = sample_env,
     he_record = sample_recorder, he_ticks = 1, he_compVtable = 0x40, he_copyFaults = False, he_inspectThrows = False,
     he_stateThrows = False, he_replaceThrows = False, he_upgradeThrows = False, he_lookupThrows = False,
     he_reserveThrows = False, he_appendThrows = False\<rparr>"

section \<open>A stream served from the cache\<close>

definition sample_plain :: "nat \<Rightarrow> u32 \<Rightarrow> bytes" where
  "sample_plain a off = (if off = 16 then [1, 2, 3] else if off = 40 then [8] else [])"

definition mapped_cache :: DecompCache where
  "mapped_cache = wd loaded_world"

lemma mapped_cache_simps:
  "dc_caches mapped_cache = [(7, sample_cache)]" "dc_views mapped_cache = [ld_view (loaded_file sample_file 88 2 False)]"
  using loaded_cache by (simp_all add: mapped_cache_def settled_cache_def)

lemma sample_slices: "byte_slice 84 3 sample_file = [1, 2, 3]" "byte_slice 87 1 sample_file = [8]"
  "byte_slice 84 (Suc (Suc (Suc 0))) sample_file = [1, 2, 3]" "byte_slice 87 (Suc 0) sample_file = [8]"
  by code_simp+

lemma mapped_cache_truthful: "cache_truthful sample_plain mapped_cache"
proof (rule cache_truthfulI)
  let ?v = "ld_view (loaded_file sample_file 88 2 False)"
  have "view_covers ?v (ac_index sample_cache)"
    by (simp add: view_covers_def loaded_file_def sample_cache_def sample_index sample_shape(4))
  then show "views_ok mapped_cache" by (simp add: views_ok_def mapped_cache_simps sample_cache_def)
  have "archive_truthful sample_plain [?v] 7 sample_cache"
    by (simp add: archive_truthful_def sample_cache_def sample_index loaded_file_def sample_slices sample_plain_def)
  then show "archive_truthful sample_plain (dc_views mapped_cache) a c" if "(a, c) \<in> set (dc_caches mapped_cache)" for a c
    using that by (simp add: mapped_cache_simps)
qed

definition zero_path :: ReadPath where
  "zero_path = \<lparr>rp_calls = 0, rp_requestedBytes = 0, rp_returnedBytes = 0, rp_failures = 0, rp_qpcTicks = 0\<rparr>"

definition zero_stats :: HookStats where
  "zero_stats = \<lparr>ht_cachePath = zero_path, ht_decompressorPath = zero_path, ht_cacheAttachments = 0,
     ht_cacheSizeMismatches = 0, ht_cacheNotReady = 0, ht_cacheServeDisabled = 0, ht_loadPhaseCompressedCalls = 0,
     ht_loadPhaseCompressedRequestedBytes = 0, ht_loadPhaseGrandfatheredCacheCalls = 0, ht_unknownCompressedCursors = 0,
     ht_captureBudgetRejects = 0, ht_captureSeekInvalidations = 0, ht_capturesCompleted = 0\<rparr>"

definition idle_hooks :: "shelf hooks" where
  "idle_hooks = \<lparr>hk_native = [1 \<mapsto> ([1, 2, 3], 0)], hk_hooksActive = True, hk_engineLoadActive = False,
     hk_sources = empty_table, hk_manager = empty_manager, hk_cache = mapped_cache, hk_heap = [],
     hk_shards = (\<lambda>_. Map.empty), hk_thread = 0, hk_memo = (\<lambda>_. (0, None)), hk_pins = [],
     hk_budget = \<lparr>bb_limit = kMaxConcurrentCaptureBytes, bb_used = 0\<rparr>, hk_stats = zero_stats\<rparr>"

text \<open>Its first byte was read from the mapped payload; the decompressor has not moved.\<close>

definition serving_state :: CompressedStreamState where
  "serving_state = (new_state \<lparr>si_source = 0x1000, si_archive = Some 7, si_startOffset = 16, si_totalSize = 3\<rparr> 1)
     \<lparr>ss_cacheLookupAttempted := True, ss_cacheData := Some 84, ss_cacheSize := 3, ss_cacheOwner := Some 0,
       ss_captureStatus := kCaptureInvalid\<rparr>"

definition serving_hooks :: "shelf hooks" where
  "serving_hooks = put_registered 1 (Some 0) (idle_hooks\<lparr>hk_heap := [serving_state]\<rparr>)"

abbreviation nobody :: "u64 \<Rightarrow> nat option" where
  "nobody \<equiv> \<lambda>_. None"

lemma serving_registered: "registered serving_hooks x = (if x = 1 then Some 0 else None)"
  by (simp add: serving_hooks_def idle_hooks_def registered_def put_registered_def)

lemma serving_simps [simp]:
  "hk_native serving_hooks = [1 \<mapsto> ([1, 2, 3], 0)]" "hk_heap serving_hooks = [serving_state]" "hk_hooksActive serving_hooks"
  "hk_cache serving_hooks = mapped_cache" "hk_sources serving_hooks = empty_table" "hk_manager serving_hooks = empty_manager"
  "hk_memo serving_hooks = (\<lambda>_. (0, None))" "hk_thread serving_hooks = 0"
  by (simp_all add: serving_hooks_def idle_hooks_def put_registered_def Let_def)

lemma shelf_one: "shelf_view [1 \<mapsto> ([1, 2, 3], 0)] = [1 \<mapsto> ([1, 2, 3], 0)]"
  by (simp add: shelf_view_def stream_wf_def fun_eq_iff)

lemma serving_state_ok: "state_ok sample_plain (dc_views mapped_cache) ([1, 2, 3], 0) serving_state"
  by (simp add: state_ok_def serving_state_def new_state_def identity_ok_def sample_plain_def payload_at_def mapped_cache_simps
      loaded_file_def sample_slices sample_shape(4))

lemma serving_hooks_ok: "hooks_ok sample_engine shelf_view sample_plain nobody serving_hooks"
proof -
  have "registry_ok serving_hooks"
    unfolding registry_ok_def by (simp add: serving_registered serving_state_def new_state_def)
  then show ?thesis
    unfolding hooks_ok_def
    by (simp add: serving_registered mapped_cache_truthful owners_ok_empty archives_ok_def shelf_one serving_state_ok)
qed

lemma sample_linked: "hk_manager s = empty_manager \<Longrightarrow> linked sample_engine shelf_view sample_plain nobody sample_hook_env s"
  by (auto simp: linked_def resolve_by_name_def probe_name_def IsReadableRange_def sample_hook_env_def sample_process_def)

lemma serving_healthy: "healthy sample_engine shelf_view sample_plain nobody sample_hook_env serving_hooks"
proof -
  have "calm sample_hook_env" "\<not> pv_insertThrows (he_pv sample_hook_env)" "accelerates sample_hook_env serving_hooks"
    by (simp_all add: calm_def sample_hook_env_def sample_process_def accelerates_def sample_settings_def)
  then show ?thesis
    unfolding healthy_def by (simp add: serving_hooks_ok sample_engine_ok sample_linked)
qed

lemma serving_view: "stream_view shelf_view serving_hooks 1 = Some ([1, 2, 3], 1)"
  by (simp add: stream_view_def serving_registered shelf_one position_in_def serving_state_def new_state_def)

section \<open>Single calls\<close>

text \<open>Two bytes behind the first come from the mapped payload.\<close>

lemma empty_home:
  assumes "k \<noteq> 0"
  shows "probe (st_hash empty_table) k (SourceSlot k) kSourceHashSlots = AtEmpty (SourceSlot k)"
proof -
  have "st_hash empty_table ! SourceSlot k = empty_slot" using SourceSlot_less [of k] by (simp add: empty_table_def)
  then have "probe (st_hash empty_table) k (SourceSlot k) (Suc 4095) = AtEmpty (SourceSlot k)"
    using assms by (simp only: probe.simps Let_def) (simp add: empty_slot_def)
  moreover have "kSourceHashSlots = Suc 4095" by (simp add: kSourceHashSlots_def)
  ultimately show ?thesis by (simp only:)
qed

lemma empty_lookup: "k \<noteq> 0 \<Longrightarrow> SourceLookup (Some inner) now k empty_table = (None, empty_table)"
  by (simp add: SourceLookup_def empty_home) (simp add: empty_table_def)

lemma serving_resolve:
  "hk_sources s = empty_table \<Longrightarrow> resolve_source sample_hook_env 0x1000 s = (None, s)"
  by (simp add: resolve_source_def ResolveSource_def sample_hook_env_def sample_process_def TryReadSourceInner_def
      empty_lookup IsReadableRange_def)

lemma serving_find: "FindCompressedState 1 serving_hooks = (Some 0, remember 1 (Some 0) serving_hooks)"
  by (simp add: FindCompressedState_def serving_registered serving_state_def new_state_def)

lemma serving_find_again:
  "FindCompressedState 1 (remember 1 (Some 0) serving_hooks) = (Some 0, remember 1 (Some 0) serving_hooks)"
  by (simp add: FindCompressedState_def remember_def serving_state_def new_state_def)

definition serving_identity :: StreamIdentity where
  "serving_identity = \<lparr>si_source = 0x1000, si_archive = None, si_startOffset = 16, si_totalSize = 0\<rparr>"

definition serving_entered :: "shelf hooks" where
  "serving_entered = (remember 1 (Some 0) serving_hooks)\<lparr>hk_pins := [0]\<rparr>"

lemma serving_enter: "enter_stream sample_engine sample_hook_env 1 serving_hooks = (Some (serving_identity, 0), serving_entered)"
proof -
  have f: "en_source sample_engine n 1 = 0x1000" "en_startOffset sample_engine n 1 = 16" for n
    by (simp_all add: sample_engine_def)
  have i: "InspectCompressedStream sample_engine sample_hook_env 1 serving_hooks =
      (serving_identity, remember 1 (Some 0) serving_hooks)"
    by (simp add: InspectCompressedStream_def f serving_resolve serving_find
        serving_identity_def remember_def) (simp add: serving_state_def new_state_def ResolveDeclaredDecompressedSize_def)
  have "hk_pins serving_hooks = []" by (simp add: serving_hooks_def put_registered_def idle_hooks_def)
  then show ?thesis
    by (simp add: enter_stream_def i GetOrCreateCompressedState_def serving_find_again serving_entered_def)
      (simp add: sample_hook_env_def remember_def)
qed

section \<open>Single calls\<close>

text \<open>Two bytes behind the first come from the mapped payload.\<close>

lemma calm_note: "note_suppressed sample_hook_env n s = s"
  by (simp add: note_suppressed_def LoadPhaseAccelerationSuppressed_def sample_hook_env_def sample_settings_def count_stat_def)

lemma serving_locked:
  "\<exists>s'. read_locked sample_engine sample_hook_env 1 (Some [0, 0, 0, 0]) 2 0 serving_identity 0 serving_entered =
     (Some (kNone, Some [2, 3, 0, 0], 2), s')"
proof -
  have "\<not> LoadPhaseAccelerationSuppressed sample_hook_env s" for s :: "shelf hooks"
    by (simp add: LoadPhaseAccelerationSuppressed_def sample_hook_env_def sample_settings_def)
  moreover have heap: "hk_heap serving_entered = [serving_state]" "hk_cache serving_entered = mapped_cache"
    by (simp_all add: serving_entered_def remember_def)
  have attach: "TryAttachCachedEntry sample_hook_env 0 serving_entered = serving_entered"
    by (simp add: TryAttachCachedEntry_def heap) (simp add: serving_state_def new_state_def)
  have claim: "ClaimRange 1 0 3 2 = (\<lparr>rc_status = kClaimed, rc_absoluteOffset = 1, rc_relativeOffset = 1, rc_size = 2\<rparr>, 3)"
    by code_simp
  have view: "dc_views mapped_cache ! 0 = ld_view (loaded_file sample_file 88 2 False)" by (simp add: mapped_cache_simps)
  have u2: "u64_of_u32 2 = 2" by code_simp
  have bytes: "byte_slice 85 2 sample_file = [2, 3]" by code_simp
  obtain t where "ServeCachedRead sample_hook_env 0 (Some [0, 0, 0, 0]) 2 serving_entered = ((kNone, Some [2, 3, 0, 0], 2), t)"
    using claim view bytes
    by (simp add: ServeCachedRead_def heap Let_def copy_to_def)
      (simp add: heap copy_to_def u2 serving_state_def new_state_def loaded_file_def sample_hook_env_def IsValid_def)
  moreover have "\<not> ss_retired serving_state" "ss_cacheData serving_state = Some 84" "ss_cursorKnown serving_state"
    by (simp_all add: serving_state_def new_state_def)
  ultimately show ?thesis by (simp add: read_locked_def heap attach Let_def count_stat_def)
qed

lemma serving_read:
  "\<exists>s'. HookedCompDoRead sample_engine sample_hook_env 1 (Some [0, 0, 0, 0]) 2 0 serving_hooks =
     Some ((kNone, Some [2, 3, 0, 0], 2), s')"
proof -
  have acc: "accelerates sample_hook_env serving_hooks" using serving_healthy by (simp add: healthy_def)
  obtain s' where "read_locked sample_engine sample_hook_env 1 (Some [0, 0, 0, 0]) 2 0 serving_identity 0 serving_entered =
     (Some (kNone, Some [2, 3, 0, 0], 2), s')" using serving_locked by blast
  then show ?thesis using acc by (subst HookedCompDoRead.simps) (simp add: calm_note serving_enter)
qed





lemma memo_transparent_witness: "fst (FindCompressedState 1 serving_hooks) = Some 0"
proof -
  have "registry_ok serving_hooks" using serving_hooks_ok by (simp add: hooks_ok_def)
  from memo_transparent [OF this, of 1] show ?thesis by (simp add: serving_registered)
qed

section \<open>Many threads\<close>

text \<open>One thread reads; its call enters, and works under the mutex later.\<close>

definition sample_call :: call where
  "sample_call = ReadCall 1 (Some [0, 0, 0, 0]) 2 0"

lemma serving_run:
  "\<exists>s. stream_reach sample_engine shelf_view sample_plain nobody serving_hooks
     (s, Map.empty, [Did sample_call (ReadResult (kNone, Some [2, 3, 0, 0], 2))])"
proof -
  let ?reach = "stream_reach sample_engine shelf_view sample_plain nobody serving_hooks"
  have same: "as_thread 0 serving_hooks = serving_hooks" "as_thread 0 serving_entered = serving_entered"
    by (simp_all add: as_thread_def serving_entered_def serving_hooks_def idle_hooks_def remember_def put_registered_def Let_def)
  have e: "enter_stream sample_engine sample_hook_env (call_stream sample_call)
      (noted sample_hook_env sample_call (as_thread 0 serving_hooks)) = (Some (serving_identity, 0), serving_entered)"
    by (simp add: sample_call_def same calm_note serving_enter)
  have "?reach (serving_hooks, Map.empty(0 \<mapsto> (sample_call, Entering, [])), [])"
    by (rule reach_step [OF reach_start begin_call]) (simp_all add: sample_call_def serving_view)
  from reach_step [OF this enter_call [OF _ serving_healthy e]]
  have r: "?reach (serving_entered, Map.empty(0 \<mapsto> (sample_call, Holding serving_identity 0, [])), [])" by simp
  obtain t where l: "locked_part sample_engine sample_hook_env sample_call serving_identity 0 (as_thread 0 serving_entered) =
      (Some (ReadResult (kNone, Some [2, 3, 0, 0], 2)), t)"
    using serving_locked by (auto simp: sample_call_def same)
  have ok: "hooks_ok sample_engine shelf_view sample_plain nobody serving_entered"
    using streams_inv [OF sample_engine_ok serving_hooks_ok r] by (simp add: thread_inv_def)
  have "healthy sample_engine shelf_view sample_plain nobody sample_hook_env serving_entered"
    using serving_healthy ok sample_linked [of serving_entered]
    by (simp add: healthy_def accelerates_def serving_entered_def remember_def)
  moreover have "clones_compressed sample_engine sample_hook_env"
    by (simp add: clones_compressed_def sample_engine_def sample_hook_env_def)
  ultimately show ?thesis
    using reach_step [OF r finish_call [OF _ _ _ l]] by auto
qed



section \<open>A capture\<close>

text \<open>The archive of the stream was learned before, and so was the size of its entry.\<close>

definition capturing_start :: "shelf hooks" where
  "capturing_start = idle_hooks\<lparr>hk_cache := zero_cache\<lparr>dc_building := True\<rparr>,
     hk_manager := empty_manager\<lparr>mm_archives := [(closed_archive [])\<lparr>ma_declaredSizes := [16 \<mapsto> 3]\<rparr>]\<rparr>,
     hk_sources := empty_table\<lparr>st_overflow := [0x1000 \<mapsto>
       \<lparr>sv_innerStream = 0x500, sv_archive = ArchiveAt 0, sv_validUntilMs = 9\<rparr>]\<rparr>\<rparr>"

definition captured_identity :: StreamIdentity where
  "captured_identity = \<lparr>si_source = 0x1000, si_archive = Some 0, si_startOffset = 16, si_totalSize = 3\<rparr>"

definition capturing_entered :: "shelf hooks" where
  "capturing_entered = (remember 1 (Some 0) (put_registered 1 (Some 0)
     (capturing_start\<lparr>hk_heap := [new_state captured_identity 0]\<rparr>)))\<lparr>hk_pins := [0]\<rparr>"

lemma sample_words: "u32_of_u64 0 = 0" "u64_of_u32 3 = 3" "u32_of_u64 2 = 2" "u64_of_u32 0 = 0"
  by code_simp+

lemma captured_total: "si_totalSize captured_identity = 3"
  by (simp add: captured_identity_def)

lemma capturing_enter: "enter_stream sample_engine sample_hook_env 1 capturing_start = (Some (captured_identity, 0), capturing_entered)"
proof -
  have f: "en_source sample_engine n 1 = 0x1000" "en_startOffset sample_engine n 1 = 16" for n
    by (simp_all add: sample_engine_def)
  have r: "resolve_source sample_hook_env 0x1000 capturing_start = (Some 0, capturing_start)"
    by (simp add: resolve_source_def ResolveSource_def sample_hook_env_def sample_process_def TryReadSourceInner_def
        capturing_start_def SourceLookup_def empty_home)
  have fd: "FindCompressedState 1 capturing_start = (None, capturing_start)"
    by (simp add: FindCompressedState_def registered_def capturing_start_def idle_hooks_def)
  have d: "ResolveDeclaredDecompressedSize sample_hook_env (Some 0) 16 capturing_start = (3, capturing_start)"
    by (simp add: ResolveDeclaredDecompressedSize_def GetDeclaredDecompressedSize_def capturing_start_def nonzero_size_def empty_manager_def)
  have i: "InspectCompressedStream sample_engine sample_hook_env 1 capturing_start = (captured_identity, capturing_start)"
    by (simp add: InspectCompressedStream_def f r fd d captured_identity_def)
  have q: "QueryCompressedLogicalCursor sample_engine 1 3 capturing_start = (Some 0, capturing_start)"
  proof -
    have k: "ref_seek 0 SeekCur 0 ([1, 2, 3], 0) = ((kNone, 0), ([1, 2, 3], 0))" by code_simp
    have "[1 \<mapsto> ([1, 2, 3], 0)](1 \<mapsto> ([1, 2, 3], 0)) = [1 \<mapsto> ([1, 2, 3], 0)]" by simp
    then show ?thesis
      by (simp add: QueryCompressedLogicalCursor_def on_native_def sample_engine_def shelf_call_def capturing_start_def
          idle_hooks_def shelf_one k sample_words)
  qed
  show ?thesis
    using captured_total q by (simp add: enter_stream_def i GetOrCreateCompressedState_def fd)
      (simp add: sample_hook_env_def capturing_entered_def make_state_def PublishCompressedStateIfAbsent_def
        registered_def capturing_start_def idle_hooks_def remember_def put_registered_def Let_def)
qed

lemma capturing_read:
  "\<exists>q s'. read_locked sample_engine sample_hook_env 1 (Some [0, 0]) 2 0 captured_identity 0 capturing_entered = (q, s') \<and>
     hk_heap s' = [(new_state captured_identity 2)\<lparr>ss_captureBuffer := [1, 2], ss_nextCaptureOffset := 2,
       ss_accountedCaptureBytes := 3, ss_captureStatus := kCaptureActive\<rparr>] \<and> bb_used (hk_budget s') = 3"
proof -
  have heap: "hk_heap capturing_entered = [new_state captured_identity 0]" "\<not> dc_ready (hk_cache capturing_entered)"
    "dc_building (hk_cache capturing_entered)" "hk_native capturing_entered = [1 \<mapsto> ([1, 2, 3], 0)]"
    "hk_budget capturing_entered = \<lparr>bb_limit = kMaxConcurrentCaptureBytes, bb_used = 0\<rparr>"
    by (simp_all add: capturing_entered_def remember_def put_registered_def capturing_start_def Let_def zero_cache_def idle_hooks_def)
  have off: "\<not> LoadPhaseAccelerationSuppressed sample_hook_env s" for s :: "shelf hooks"
    by (simp add: LoadPhaseAccelerationSuppressed_def sample_hook_env_def sample_settings_def)
  define s1 where "s1 = TryAttachCachedEntry sample_hook_env 0 capturing_entered"
  have s1: "hk_heap s1 = [new_state captured_identity 0]" "hk_native s1 = [1 \<mapsto> ([1, 2, 3], 0)]"
    "dc_building (hk_cache s1)" "hk_budget s1 = \<lparr>bb_limit = kMaxConcurrentCaptureBytes, bb_used = 0\<rparr>"
    using heap off [of capturing_entered]
    by (simp_all add: s1_def TryAttachCachedEntry_def Let_def count_stat_def split: option.split)
      (simp_all add: new_state_def captured_identity_def sample_hook_env_def sample_settings_def)
  have k: "ref_read (Some [0, 0]) 2 ([1, 2, 3], 0) = ((kNone, Some [1, 2], 2), ([1, 2, 3], 2))" by code_simp
  have p: "plan_capture sample_hook_env False captured_identity 0 s1 = ((True, True), s1)"
    using s1 by (simp add: plan_capture_def capture_enabled_def) (simp add: new_state_def captured_identity_def sample_hook_env_def
        sample_settings_def sample_config_def kMaxCaptureEntrySize_def kMaxPayloadSize_def sample_words Let_def)
  define s2 where "s2 = record_path (measures sample_hook_env) ht_decompressorPath_update (RecordPath 2 2 False 1)
    (s1\<lparr>hk_native := [1 \<mapsto> ([1, 2, 3], 2)]\<rparr>)"
  have o: "CallOriginalCompressedRead sample_engine sample_hook_env 1 (Some [0, 0]) 2 0 s1 = ((kNone, Some [1, 2], 2), s2)"
    by (simp add: CallOriginalCompressedRead_def on_native_def sample_engine_def shelf_call_def shelf_one k s1 s2_def)
      (simp add: sample_hook_env_def)
  have s2: "hk_heap s2 = [new_state captured_identity 0]" "hk_budget s2 = \<lparr>bb_limit = kMaxConcurrentCaptureBytes, bb_used = 0\<rparr>"
    using s1 by (simp_all add: s2_def record_path_def)
  have pr: "ValidateNativeProgress True 0 3 2 2 True True = \<lparr>pr_valid = True, pr_cursorAfter = 2\<rparr>" by code_simp
  define s3 where "s3 = track_progress sample_engine 1 captured_identity 0 2 True kNone 2 0 s2"
  have s3: "hk_heap s3 = [new_state captured_identity 2]" "hk_budget s3 = \<lparr>bb_limit = kMaxConcurrentCaptureBytes, bb_used = 0\<rparr>"
    using s2 pr by (simp_all add: s3_def track_progress_def update_state_def new_state_def captured_identity_def)
  have t: "TryReserve 3 \<lparr>bb_limit = kMaxConcurrentCaptureBytes, bb_used = 0\<rparr> = (True, \<lparr>bb_limit = kMaxConcurrentCaptureBytes, bb_used = 3\<rparr>)"
    by code_simp
  have "\<exists>s4. finish_capture sample_hook_env captured_identity True 2 (kNone, Some [1, 2], 2) 0 s3 = ((([], 0)), s4) \<and>
     hk_heap s4 = [(new_state captured_identity 2)\<lparr>ss_captureBuffer := [1, 2], ss_nextCaptureOffset := 2,
       ss_accountedCaptureBytes := 3, ss_captureStatus := kCaptureActive\<rparr>] \<and> bb_used (hk_budget s4) = 3"
    using s3 t by (simp add: finish_capture_def AppendCapture_def BeginCapture_def ClearCaptureBuffer_def release_charge_def
        update_state_def new_state_def captured_total sample_words Let_def)
      (simp add: sample_hook_env_def)
  then obtain s4 where s4: "finish_capture sample_hook_env captured_identity True 2 (kNone, Some [1, 2], 2) 0 s3 = ((([], 0)), s4)"
    "hk_heap s4 = [(new_state captured_identity 2)\<lparr>ss_captureBuffer := [1, 2], ss_nextCaptureOffset := 2,
       ss_accountedCaptureBytes := 3, ss_captureStatus := kCaptureActive\<rparr>]" "bb_used (hk_budget s4) = 3" by blast
  have c: "record_completed sample_hook_env captured_identity ([], 0) s4 = s4"
    by (simp add: record_completed_def release_charge_def)
  have st: "ss_identity (new_state captured_identity 0) = captured_identity" "ss_cursorKnown (new_state captured_identity 0)"
    "\<not> ss_retired (new_state captured_identity 0)" "ss_cacheData (new_state captured_identity 0) = None"
    "ss_logicalCursor (new_state captured_identity 0) = 0"
    by (simp_all add: new_state_def)
  have "read_native sample_engine sample_hook_env 1 (Some [0, 0]) 2 False captured_identity 0 s1 = ((kNone, Some [1, 2], 2), s4)"
    using p o s4(1) c by (simp add: read_native_def s1 st flip: s3_def)
  then have "read_locked sample_engine sample_hook_env 1 (Some [0, 0]) 2 0 captured_identity 0 capturing_entered =
      (Some (kNone, Some [1, 2], 2), s4)"
    using off [of capturing_entered] by (simp add: read_locked_def heap st Let_def s1 flip: s1_def)
  then show ?thesis using s4(2,3) by blast
qed

lemma captures_within_budget_witness:
  "\<exists>s :: shelf hooks. capture_run s \<and> captured_bytes s = 2 \<and> unat (bb_used (hk_budget s)) = charged_bytes s \<and> charged_bytes s = 3"
proof -
  have "fresh_hooks capturing_start" by (simp add: fresh_hooks_def capturing_start_def idle_hooks_def registered_def)
  from run_enter [OF run_start [OF this] capturing_enter] have run: "capture_run capturing_entered" .
  have i: "0 < length (hk_heap capturing_entered)" by (simp add: capturing_entered_def remember_def put_registered_def Let_def)
  obtain q s where s: "read_locked sample_engine sample_hook_env 1 (Some [0, 0]) 2 0 captured_identity 0 capturing_entered = (q, s)"
    "hk_heap s = [(new_state captured_identity 2)\<lparr>ss_captureBuffer := [1, 2], ss_nextCaptureOffset := 2,
       ss_accountedCaptureBytes := 3, ss_captureStatus := kCaptureActive\<rparr>]" using capturing_read by blast
  have "capture_run s" by (rule run_read [OF run i s(1)])
  from captures_within_budget [OF this] this s(2) show ?thesis
    by (intro exI [of _ s]) (simp add: captured_bytes_def charged_bytes_def)
qed

end
