(* ===== verification/ArchiveSamples.thy ===== *)
theory ArchiveSamples
  imports ArchiveHooks StreamSamples
begin

text \<open>
  A game with one plain stream, an archive that is mapped in full and an image with its virtual
  tables, on which the properties of the plain hook and of the installation are instantiated.
\<close>

section \<open>A plain stream\<close>

definition plain_view :: "shelf \<Rightarrow> u64 \<rightharpoonup> bytes \<times> nat" where
  "plain_view n x = (case n x of None \<Rightarrow> None
     | Some v \<Rightarrow> if length (fst v) + 4 < 2 ^ 32 \<and> snd v \<le> length (fst v) then Some v else None)"

definition plain_engine :: "shelf archive_engine" where
  "plain_engine = \<lparr>ae_source = (\<lambda>_ _. 0x20000), ae_startOffset = (\<lambda>_ _. 4),
     ae_totalSize = (\<lambda>n x. case n x of None \<Rightarrow> 0 | Some v \<Rightarrow> word_of_nat (length (fst v))),
     ae_currentOffset = (\<lambda>n x. case n x of None \<Rightarrow> 4 | Some v \<Rightarrow> word_of_nat (4 + snd v)),
     ae_setCurrentOffset = (\<lambda>x c n. n(x := map_option (\<lambda>v. (fst v, unat c - 4)) (n x))),
     ae_read = (\<lambda>x buffer toRead read n. case plain_view n x of None \<Rightarrow> ((kFileError, buffer, read), n)
       | Some v \<Rightarrow> (fst (ref_read buffer toRead v), n(x \<mapsto> snd (ref_read buffer toRead v))))\<rparr>"

lemma plain_viewD: "plain_view n x = Some v \<Longrightarrow> n x = Some v \<and> length (fst v) + 4 < 2 ^ 32 \<and> snd v \<le> length (fst v)"
  by (auto simp: plain_view_def split: option.splits if_splits)

lemma plain_engine_ok: "plain_engine_ok plain_engine plain_view"
proof -
  have word: "unat (word_of_nat k :: u32) = k" if "k < 2 ^ 32" for k using that by (simp add: unat_of_nat take_bit_nat_eq_self)
  have 1: "length (fst v) = unat (ae_totalSize plain_engine n x) \<and>
      unat (ae_currentOffset plain_engine n x) = unat (ae_startOffset plain_engine n x) + snd v \<and>
      cursor_ok (ae_startOffset plain_engine n x) (ae_totalSize plain_engine n x) (ae_currentOffset plain_engine n x)"
    if "plain_view n x = Some v" for n x v
  proof -
    note v = plain_viewD [OF that]
    have "unat (word_of_nat (length (fst v)) :: u32) = length (fst v)" "unat (word_of_nat (4 + snd v) :: u32) = 4 + snd v"
      by (rule word; use v in simp)+
    then show ?thesis using v by (simp add: plain_engine_def cursor_ok_def del: of_nat_add)
  qed
  have 2: "fst (ae_read plain_engine x buffer toRead read n) = fst (ref_read buffer toRead v) \<and>
      plain_view (snd (ae_read plain_engine x buffer toRead read n)) = (plain_view n)(x \<mapsto> snd (ref_read buffer toRead v))"
    if "plain_view n x = Some v" for n x v buffer toRead read
    using plain_viewD [OF that] that by (auto simp: plain_engine_def plain_view_def ref_read_def Let_def fun_eq_iff)
  have 3: "plain_view (ae_setCurrentOffset plain_engine x c n) =
      (plain_view n)(x \<mapsto> (fst v, unat c - unat (ae_startOffset plain_engine n x)))"
    if "plain_view n x = Some v" "cursor_ok (ae_startOffset plain_engine n x) (ae_totalSize plain_engine n x) c" for n x v c
  proof -
    have st: "ae_startOffset plain_engine n x = 4" by (simp add: plain_engine_def)
    have "unat c \<le> 4 + length (fst v)" using that(2) 1 [OF that(1)] by (simp add: cursor_ok_def st)
    then show ?thesis
      using plain_viewD [OF that(1)] unfolding st
      by (simp add: plain_engine_def plain_view_def fun_eq_iff)
  qed
  show ?thesis unfolding plain_engine_ok_def using 1 2 3 by blast
qed

definition full_archive :: MappedArchive where
  "full_archive = opened [0x61] (sample_bsa\<lparr>bf_content := [0, 0, 0, 0, 1, 2, 3, 4]\<rparr>) True"

definition mapped_manager :: MemoryMapManager where
  "mapped_manager = empty_manager\<lparr>mm_archives := [full_archive], mm_nameIndex := [[0x61] \<mapsto> 0]\<rparr>"

text \<open>Every address is readable and executable, every word is \<open>0x30000\<close>.\<close>

definition open_query :: "u64 \<Rightarrow> MemoryRegion option" where
  "open_query a = Some \<lparr>mr_committed = True, mr_protect = PAGE_EXECUTE_READ, mr_base = 0x10000, mr_size = 0x7FFFFFFF0000\<rparr>"

definition open_process :: process_view where
  "open_process = sample_process\<lparr>pv_query := open_query, pv_word := (\<lambda>_. 0x30000), pv_getName := (\<lambda>_ _. NameIs [0x61]),
     pv_rdata := \<lparr>ar_begin = 0x10000, ar_end = 0x100000, ar_virtualSize = 0xF0000\<rparr>\<rparr>"

definition plain_settings :: plain_env where
  "plain_settings = \<lparr>pe_bBaselineMode = False, pe_bEnableMmap = True, pe_bEnableDuringSaveLoad = True,
     pe_bMeasureStats = True, pe_pv = open_process, pe_ticks = 3\<rparr>"

definition zero_io :: IoStats where
  "zero_io = \<lparr>io_directMmap = zero_path, io_directStock = zero_path, io_compressedSourceMmap = zero_path,
     io_compressedSourceStock = zero_path, io_loadPhaseUncompressedCalls = 0, io_loadPhaseUncompressedRequestedBytes = 0\<rparr>"

definition plain_state :: "shelf plain_hooks" where
  "plain_state = \<lparr>ph_native = [1 \<mapsto> ([1, 2, 3], 1)], ph_hooksActive = True, ph_engineLoadActive = False,
     ph_sources = empty_table, ph_manager = mapped_manager, ph_depth = 0, ph_stats = zero_io\<rparr>"

lemma open_resolve: "\<exists>t. ResolveSource open_process mapped_manager 0x20000 empty_table = (Some 0, t)"
proof -
  have "IsReadableRange open_query 0x20000 0x30" "IsReadableRange open_query 0x30000 8"
    "IsReadableRange open_query 0x30000 (kRequiredVtableEntries * 8)" "IsExecutableAddress open_query 0x30000"
    "IsInRange 0x30000 (kRequiredVtableEntries * 8) 0x10000 0x100000" "filename [0x61] = [0x61]" "LowerASCII [0x61] = [0x61]"
    by code_simp+
  then show ?thesis
    by (simp add: ResolveSource_def TryReadSourceInner_def open_process_def sample_process_def empty_lookup resolve_by_name_def
        probe_name_def FindIndexByName_def mapped_manager_def Let_def)
qed

lemma plain_state_linked: "plain_linked plain_engine plain_view plain_settings plain_state"
  unfolding plain_linked_def
proof (intro allI impI)
  fix x v a t view
  assume v: "plain_view (ph_native plain_state) x = Some v"
    and r: "ResolveSource (pe_pv plain_settings) (ph_manager plain_state) (ae_source plain_engine (ph_native plain_state) x)
      (ph_sources plain_state) = (Some a, t)"
    and view: "ma_base (mm_archives (ph_manager plain_state) ! a) = Some view"
  have "x = 1" "v = ([1, 2, 3], 1)" using plain_viewD [OF v] by (auto simp: plain_state_def split: if_splits)
  moreover have "a = 0" using r open_resolve by (auto simp: plain_state_def plain_settings_def plain_engine_def)
  then have "view = [0, 0, 0, 0, 1, 2, 3, 4]"
    using view by (simp add: plain_state_def mapped_manager_def full_archive_def opened_def Let_def)
  moreover have "byte_slice 4 3 [0, 0, 0, 0, 1, 2, 3, 4] = [1, 2, 3 :: 8 word]" by code_simp
  ultimately show "fst v = byte_slice (unat (ae_startOffset plain_engine (ph_native plain_state) x))
      (unat (ae_totalSize plain_engine (ph_native plain_state) x)) view"
    by (simp add: plain_engine_def plain_state_def)
qed

lemma mapped_read_transparent_witness:
  "\<exists>s'. HookedDoRead plain_engine plain_settings 1 (Some [9, 9, 9]) 2 0 plain_state = ((kNone, Some [2, 3, 9], 2), s') \<and>
     plain_view (ph_native s') = [1 \<mapsto> ([1, 2, 3], 3)] \<and> rp_calls (io_directMmap (ph_stats s')) = 1"
proof -
  obtain t where t: "ResolveSource open_process mapped_manager 0x20000 empty_table = (Some 0, t)" using open_resolve by blast
  obtain r s' where rd: "HookedDoRead plain_engine plain_settings 1 (Some [9, 9, 9]) 2 0 plain_state = (r, s')" by fastforce
  have v: "plain_view (ph_native plain_state) = [1 \<mapsto> ([1, 2, 3], 1)]"
    by (auto simp: plain_view_def plain_state_def fun_eq_iff)
  have ref: "ref_read (Some [9, 9, 9]) 2 ([1, 2, 3], Suc 0) = ((kNone, Some [2, 3, 9], 2), ([1, 2, 3], 3))" by code_simp
  have cl: "ClaimRange 5 4 3 2 = (\<lparr>rc_status = kClaimed, rc_absoluteOffset = 5, rc_relativeOffset = 1, rc_size = 2\<rparr>, 7)" by code_simp
  have valid: "IsValid \<lparr>rc_status = kClaimed, rc_absoluteOffset = 5, rc_relativeOffset = 1, rc_size = 2\<rparr>" by code_simp
  have at: "At full_archive (u64_of_u32 4) (u64_of_u32 3) \<noteq> None" by code_simp
  have base: "\<exists>view. ma_base full_archive = Some view" by (simp add: full_archive_def opened_def Let_def)
  have "rp_calls (io_directMmap (ph_stats s')) = 1"
    using rd t cl valid at base
    by (auto simp: HookedDoRead_def plain_settings_def plain_state_def note_load_phase_def Let_def mapped_manager_def
        plain_engine_def serve_mapped_def RecordMappedPayload_def RecordPath_def zero_io_def zero_path_def)
  moreover have "r = fst (ref_read (Some [9, 9, 9]) 2 ([1, 2, 3], Suc 0)) \<and>
      plain_view (ph_native s') = (plain_view (ph_native plain_state))(1 \<mapsto> snd (ref_read (Some [9, 9, 9]) 2 ([1, 2, 3], Suc 0)))"
    by (rule mapped_read_transparent [OF plain_engine_ok plain_state_linked _ _ rd]) (simp_all add: v)
  ultimately show ?thesis using rd by (simp add: ref v)
qed

section \<open>An image with two virtual tables\<close>

definition game_image :: pe_image where
  "game_image = \<lparr>pi_base = 0x140000000, pi_e_magic = IMAGE_DOS_SIGNATURE, pi_e_lfanew = 0x80, pi_signature = IMAGE_NT_SIGNATURE,
     pi_sections = [\<lparr>ps_name = rdata_name @ [0, 0], ps_virtualAddress = 0x1000, ps_virtualSize = 0x1000,
       ps_characteristics = IMAGE_SCN_MEM_READ\<rparr>]\<rparr>"

definition game_install :: install_env where
  "game_install = \<lparr>ie_runtime = \<lparr>rt_vr = False, rt_major = 1, rt_minor = 6, rt_patch = 1170, rt_build = 0\<rparr>,
     ie_image = game_image, ie_fields = Field_Init True, ie_vtables = Some (0x140001100, 0x140001200),
     ie_query = open_query, ie_hook = (\<lambda>_. 0x7000)\<rparr>"

definition game_process :: process where
  "game_process = \<lparr>pr_word = (\<lambda>_. 0x140000500), pr_originals = Map.empty, pr_installStarted = False, pr_hooksActive = False\<rparr>"

lemma game_checks: "install_checks game_install game_process = Some (0x140001100, 0x140001200)"
proof -
  have "InitModuleRanges game_image = (True, Some (0x140001000, 0x140002000))" by code_simp
  moreover have "ValidateVtableSlots open_query (\<lambda>_. 0x140000500) (0x140001000, 0x140002000) 0x140001100 [6]"
    "ValidateVtableSlots open_query (\<lambda>_. 0x140000500) (0x140001000, 0x140002000) 0x140001200 [0, 1, 2, 5, 6, 8]"
    by code_simp+
  ultimately show ?thesis
    by (simp add: install_checks_def game_install_def game_process_def IsVerifiedRuntime_def is_version_def fields_valid_def
        Field_Init_def)
qed


end
