(* ===== verification/DecompWarm.thy ===== *)
theory DecompWarm
  imports DecompFlush BsaArchive
begin

text \<open>
  \<open>DecompCache::WarmMappedCaches\<close>: the worker's pass over all mappings, which first touches
  every committed page that is not resident yet and then verifies every entry, and which any
  load screen, flush request, new generation or shutdown interrupts.  Other threads may run
  wherever the pass reads a shared flag: a script says what they do there, an exhausted
  script that they do nothing.
\<close>

section \<open>The pass and its environment\<close>

record warm =
  wm_cache :: DecompCache
  wm_archives :: "nat \<Rightarrow> MappedArchive"
  wm_stop :: bool
  wm_others :: "(bool \<times> (DecompCache \<Rightarrow> DecompCache)) list"

record warm_env =
  we_cfg :: CacheSettings
  we_qpc :: u64
  we_passTicks :: u64
  we_pageSize :: u64
  we_faults :: "nat \<Rightarrow> u64 \<Rightarrow> bool"
  we_lookup :: lookup_env
  we_io :: "u64 \<Rightarrow> u64 \<Rightarrow> bool"
  we_snapshotThrows :: bool

definition on_warm :: "(DecompCache \<Rightarrow> DecompCache) \<Rightarrow> warm \<Rightarrow> warm" where
  "on_warm f w = w\<lparr>wm_cache := f (wm_cache w)\<rparr>"

definition observe :: "warm \<Rightarrow> warm" where
  "observe w =
     (case wm_others w of
        [] \<Rightarrow> w
      | (b, f) # others \<Rightarrow>
          on_warm f (w\<lparr>wm_others := others, wm_stop := wm_stop w \<or> b\<rparr>))"

datatype interruption = StopRequested | LoadStarted | FlushWanted | EpochMoved

datatype warm_status =
    Disabled | SnapshotError | AccountingOverflow | OverRamCeiling | PageSizeError
  | Interrupted interruption | PublishRace | IoFailure | ChecksumFailure
  | DeclaredSizeFailure | Complete

text \<open>The four reads that may end the pass, in their order.\<close>

definition interrupted :: "u64 \<Rightarrow> warm \<Rightarrow> interruption option \<times> warm" where
  "interrupted epoch w =
     (let w1 = observe w in
      if wm_stop w1 then (Some StopRequested, w1)
      else let w2 = observe w1 in
      if dc_loadActive (wm_cache w2) then (Some LoadStarted, w2)
      else let w3 = observe w2 in
      if dc_flushRequested (wm_cache w3) then (Some FlushWanted, w3)
      else let w4 = observe w3 in
      if epoch \<noteq> dc_cacheEpoch (wm_cache w4) then (Some EpochMoved, w4)
      else (None, w4))"

definition finishPass :: "warm_env \<Rightarrow>
    ((u64 \<Rightarrow> u64) \<Rightarrow> DecompCacheDiagnostics \<Rightarrow> DecompCacheDiagnostics) option \<Rightarrow> warm \<Rightarrow> warm" where
  "finishPass env a_counter =
     on_warm (\<lambda>s.
       let measure = cfg_bMeasureStats (we_cfg env);
           s1 = count_if measure dg_warmQpcTicks_update (we_passTicks env) s
       in case a_counter of None \<Rightarrow> s1 | Some counter \<Rightarrow> count_if measure counter 1 s1)"

definition request_warmup :: "warm_env \<Rightarrow> warm \<Rightarrow> warm" where
  "request_warmup env = on_warm (RequestWarmup (we_cfg env) (we_qpc env))"

text \<open>Every interruption but a shutdown asks for another pass.\<close>

definition interrupt_pass :: "warm_env \<Rightarrow> interruption \<Rightarrow> warm \<Rightarrow> warm_status \<times> warm" where
  "interrupt_pass env i w =
     (Interrupted i,
      case i of
        StopRequested \<Rightarrow> finishPass env (Some dg_warmInterruptedStop_update) w
      | LoadStarted \<Rightarrow> finishPass env (Some dg_warmInterruptedLoad_update) (request_warmup env w)
      | FlushWanted \<Rightarrow> finishPass env (Some dg_warmInterruptedFlush_update) (request_warmup env w)
      | EpochMoved \<Rightarrow> finishPass env (Some dg_warmInterruptedEpoch_update) (request_warmup env w))"

text \<open>Both publications check, under the worker's lock, that nothing has changed.\<close>

definition undisturbed_pass :: "u64 \<Rightarrow> warm \<Rightarrow> bool" where
  "undisturbed_pass epoch w \<longleftrightarrow>
     epoch = dc_cacheEpoch (wm_cache w) \<and> \<not> dc_warmRequested (wm_cache w) \<and>
     \<not> dc_flushRequested (wm_cache w) \<and> \<not> dc_loadActive (wm_cache w) \<and> \<not> wm_stop w"

definition publishFailure :: "u64 \<Rightarrow> warm \<Rightarrow> warm" where
  "publishFailure epoch w0 =
     (let w = observe w0 in
      if undisturbed_pass epoch w
      then on_warm (\<lambda>s. s\<lparr>dc_warmedBytes := 0, dc_warmComplete := False\<rparr>) w else w)"

definition publishComplete :: "u64 \<Rightarrow> u64 \<Rightarrow> warm \<Rightarrow> bool \<times> warm" where
  "publishComplete epoch a_bytes w0 =
     (let w = observe w0 in
      if undisturbed_pass epoch w
      then (True, on_warm (\<lambda>s. s\<lparr>dc_warmedBytes := a_bytes, dc_warmComplete := True\<rparr>) w)
      else (False, w))"

section \<open>The snapshot\<close>

record WarmItem =
  wi_archive :: nat
  wi_owner :: nat
  wi_path :: bytes
  wi_lastAccess :: u64

definition committed_bytes :: "MappedView \<Rightarrow> u64" where
  "committed_bytes view = min (of_nat (mv_committedSize view)) (of_nat (mv_size view))"

definition warmed_bytes :: "MappedView \<Rightarrow> u64" where
  "warmed_bytes view = min (of_nat (mv_prefaultedThrough view)) (committed_bytes view)"

text \<open>An archive that served nothing yet takes its rank of the last session.\<close>

definition warm_rank :: "DecompCache \<Rightarrow> ArchiveCache \<Rightarrow> u64" where
  "warm_rank s cache =
     (let lastAccess = ac_lastAccessMs cache in
      if lastAccess = 0 \<and> ac_activePath cache \<noteq> [] then
        (case dc_warmPriorityRank s (filename (ac_activePath cache)) of
           Some rank \<Rightarrow> rank | None \<Rightarrow> lastAccess)
      else lastAccess)"

text \<open>\<open>None\<close> is an overflow of the sums.\<close>

fun warm_snapshot :: "DecompCache \<Rightarrow> (nat \<times> ArchiveCache) list \<Rightarrow> u64 \<Rightarrow> u64 \<Rightarrow> WarmItem list \<Rightarrow>
    (u64 \<times> u64 \<times> WarmItem list) option" where
  "warm_snapshot s [] committedBytes remainingBytes items = Some (committedBytes, remainingBytes, items)"
| "warm_snapshot s ((archive, cache) # cs) committedBytes remainingBytes items =
     (case ac_view cache of
        None \<Rightarrow> warm_snapshot s cs committedBytes remainingBytes items
      | Some v \<Rightarrow>
          let view = dc_views s ! v; committed = committed_bytes view in
          if ac_diskInvalidated cache \<or> committed = 0
          then warm_snapshot s cs committedBytes remainingBytes items
          else
            (case AddChecked committedBytes committed of
               None \<Rightarrow> None
             | Some committedBytes' \<Rightarrow>
                 (case AddChecked remainingBytes (committed - warmed_bytes view) of
                    None \<Rightarrow> None
                  | Some remainingBytes' \<Rightarrow>
                      warm_snapshot s cs committedBytes' remainingBytes'
                        (items @ [\<lparr>wi_archive = archive, wi_owner = v, wi_path = ac_activePath cache,
                           wi_lastAccess = warm_rank s cache\<rparr>]))))"

definition sort_items :: "WarmItem list \<Rightarrow> WarmItem list" where
  "sort_items items = rev (sort_key wi_lastAccess (rev items))"

section \<open>Touching\<close>

lemma chunk_progress:
  assumes "cursor < committed"
  shows "unat (cursor + min kWarmChunkBytes (committed - cursor)) =
      unat cursor + min 8388608 (unat committed - unat cursor)"
    and "cursor + min kWarmChunkBytes (committed - cursor) \<le> committed"
proof -
  have d: "unat (committed - cursor) = unat committed - unat cursor"
    using assms by (intro unat_sub_le) simp
  have k: "unat kWarmChunkBytes = 8388608" by (simp add: kWarmChunkBytes_def kBytesPerMB_def)
  have "unat (min kWarmChunkBytes (committed - cursor)) = min 8388608 (unat committed - unat cursor)"
    by (simp add: unat_min d k)
  moreover have "unat cursor + min 8388608 (unat committed - unat cursor) \<le> unat committed"
    using assms by (simp add: word_less_nat_alt)
  ultimately show u: "unat (cursor + min kWarmChunkBytes (committed - cursor)) =
      unat cursor + min 8388608 (unat committed - unat cursor)"
    using unat_u64_le [of committed] by (subst unat_add_noovf) simp_all
  show "cursor + min kWarmChunkBytes (committed - cursor) \<le> committed"
    using assms unfolding word_le_nat_alt u by (simp add: word_less_nat_alt)
qed

lemma chunk_decreases:
  "cursor < committed \<Longrightarrow>
     unat committed - unat (cursor + min kWarmChunkBytes (committed - cursor)) < unat committed - unat cursor"
  using chunk_progress(1) [of cursor committed] by (simp add: word_less_nat_alt)

text \<open>The chunk loop of one mapping, from \<open>cursor\<close> to the end of its committed prefix.\<close>

function warm_chunks :: "warm_env \<Rightarrow> u64 \<Rightarrow> u64 \<Rightarrow> nat \<Rightarrow> u64 \<Rightarrow> u64 \<Rightarrow> u64 \<Rightarrow> warm \<Rightarrow>
    (warm_status option \<times> u64) \<times> warm" where
  "warm_chunks env epoch previouslyWarmed owner committed cursor touchedThisPass w =
     (if \<not> cursor < committed then ((None, touchedThisPass), w)
      else case interrupted epoch w of
        (Some i, w1) \<Rightarrow>
          (case interrupt_pass env i w1 of (status, w2) \<Rightarrow> ((Some status, touchedThisPass), w2))
      | (None, w1) \<Rightarrow>
          let chunk = min kWarmChunkBytes (committed - cursor) in
          if \<not> TouchMappedPages (we_faults env owner) True cursor (cursor + chunk) (we_pageSize env)
          then ((Some IoFailure, touchedThisPass),
                finishPass env (Some dg_warmIoFailures_update)
                  (on_warm (ReportMappingIoFailure (we_cfg env) (we_qpc env) (Some owner)) w1))
          else
            let touched = touchedThisPass + chunk;
                w2 = on_warm (\<lambda>s. update_view owner (\<lambda>v. v\<lparr>mv_prefaultedThrough := unat (cursor + chunk)\<rparr>)
                  ((count_if (cfg_bMeasureStats (we_cfg env)) dg_warmBytesTouched_update chunk s)
                     \<lparr>dc_warmedBytes := previouslyWarmed + touched\<rparr>)) w1
            in warm_chunks env epoch previouslyWarmed owner committed (cursor + chunk) touched w2)"
  by pat_completeness auto

termination
  by (relation "measure (\<lambda>(env, epoch, prev, owner, committed, cursor, touched, w). unat committed - unat cursor)")
    (simp_all add: chunk_decreases)

declare warm_chunks.simps [simp del]

text \<open>All mappings in the order of their ranks.\<close>

fun warm_touch :: "warm_env \<Rightarrow> u64 \<Rightarrow> u64 \<Rightarrow> WarmItem list \<Rightarrow> u64 \<Rightarrow> warm \<Rightarrow>
    (warm_status option \<times> u64) \<times> warm" where
  "warm_touch env epoch previouslyWarmed [] touchedThisPass w = ((None, touchedThisPass), w)"
| "warm_touch env epoch previouslyWarmed (item # items) touchedThisPass w =
     (let view = dc_views (wm_cache w) ! wi_owner item in
      case warm_chunks env epoch previouslyWarmed (wi_owner item) (committed_bytes view)
             (warmed_bytes view) touchedThisPass w of
        ((Some status, touched), w1) \<Rightarrow> ((Some status, touched), w1)
      | ((None, touched), w1) \<Rightarrow> warm_touch env epoch previouslyWarmed items touched w1)"

section \<open>Verifying\<close>

datatype verify_outcome = AllChecked | BrokeOff | InvalidEntry warm_status

text \<open>The entries of one cache under the shared lock; the flags are read before each.\<close>

fun verify_entries :: "warm_env \<Rightarrow> u64 \<Rightarrow> nat \<Rightarrow> nat \<Rightarrow> (u32 \<times> CachedEntry) list \<Rightarrow> warm \<Rightarrow>
    verify_outcome \<times> warm" where
  "verify_entries env epoch archive owner [] w = (AllChecked, w)"
| "verify_entries env epoch archive owner ((off, entry) # es) w =
     (case interrupted epoch w of
        (Some _, w1) \<Rightarrow> (BrokeOff, w1)
      | (None, w1) \<Rightarrow>
          (case GetDeclaredDecompressedSize (we_io env) (wm_archives w1 archive) off of
             (authoritative, archive') \<Rightarrow>
               let w2 = w1\<lparr>wm_archives := (wm_archives w1)(archive := archive')\<rparr> in
               if authoritative \<noteq> Some (ce_size entry) then (InvalidEntry DeclaredSizeFailure, w2)
               else
                 (case verify_in_view (we_cfg env) (we_lookup env) owner entry (wm_cache w2) of
                    (verification, s) \<Rightarrow>
                      let w3 = w2\<lparr>wm_cache := s\<rparr> in
                      if \<not> vf_valid verification
                      then (InvalidEntry ChecksumFailure, on_warm (count_if True dg_checksumFailures_update 1) w3)
                      else verify_entries env epoch archive owner es w3)))"

fun warm_verify :: "warm_env \<Rightarrow> u64 \<Rightarrow> WarmItem list \<Rightarrow> warm \<Rightarrow> warm_status option \<times> warm" where
  "warm_verify env epoch [] w = (None, w)"
| "warm_verify env epoch (item # items) w =
     (case interrupted epoch w of
        (Some i, w1) \<Rightarrow> (case interrupt_pass env i w1 of (status, w2) \<Rightarrow> (Some status, w2))
      | (None, w1) \<Rightarrow>
          let superseded = (\<lambda>w. case interrupt_pass env EpochMoved w of (status, w') \<Rightarrow> (Some status, w'));
              cacheIt = map_of (dc_caches (wm_cache w1)) (wi_archive item) in
          (case cacheIt of
             None \<Rightarrow> superseded w1
           | Some cache \<Rightarrow>
               if ac_view cache \<noteq> Some (wi_owner item) \<or> ac_diskInvalidated cache then superseded w1
               else
                 (case verify_entries env epoch (wi_archive item) (wi_owner item) (ac_index cache) w1 of
                    (InvalidEntry failure, w2) \<Rightarrow>
                      (Some failure, finishPass env None
                         (on_warm (ReportCacheValidationFailure (we_cfg env) (we_qpc env) (Some (wi_owner item))) w2))
                  | (_, w2) \<Rightarrow>
                      (case interrupted epoch w2 of
                         (Some _, w3) \<Rightarrow> superseded w3
                       | (None, w3) \<Rightarrow> warm_verify env epoch items w3))))"

section \<open>The pass\<close>

text \<open>The last checks and the publication.\<close>

definition warm_publish :: "warm_env \<Rightarrow> u64 \<Rightarrow> u64 \<Rightarrow> warm \<Rightarrow> warm_status \<times> warm" where
  "warm_publish env epoch committedBytes w =
     (let w1 = observe w in
      if epoch \<noteq> dc_cacheEpoch (wm_cache w1) then interrupt_pass env EpochMoved w1
      else let w2 = observe w1 in
      if dc_warmRequested (wm_cache w2) then interrupt_pass env EpochMoved w2
      else case publishComplete epoch committedBytes w2 of
        (True, w3) \<Rightarrow>
          (Complete, finishPass env None
             (on_warm (count_if (cfg_bMeasureStats (we_cfg env)) dg_warmPassesCompleted_update 1) w3))
      | (False, w3) \<Rightarrow>
          let w4 = observe (request_warmup env w3) in
          if dc_loadActive (wm_cache w4)
          then (Interrupted LoadStarted, finishPass env (Some dg_warmInterruptedLoad_update) w4)
          else let w5 = observe w4 in
          if dc_flushRequested (wm_cache w5)
          then (Interrupted FlushWanted, finishPass env (Some dg_warmInterruptedFlush_update) w5)
          else (PublishRace, finishPass env (Some dg_warmInterruptedEpoch_update) w5))"

definition WarmMappedCaches :: "warm_env \<Rightarrow> warm \<Rightarrow> warm_status \<times> warm" where
  "WarmMappedCaches env w =
     (let cfg = we_cfg env in
      if \<not> cfg_bPrefaultDecompCache cfg
      then (Disabled, on_warm (\<lambda>s. s\<lparr>dc_warmedBytes := 0, dc_warmComplete := True\<rparr>) w)
      else
        let w1 = on_warm (count_if (cfg_bMeasureStats cfg) dg_warmPassesStarted_update 1) w;
            epoch = dc_cacheEpoch (wm_cache w1);
            refuse = (\<lambda>status w. (status, finishPass env None (publishFailure epoch w)));
            w2 = observe w1
        in if we_snapshotThrows env then refuse SnapshotError w2
           else case warm_snapshot (wm_cache w2) (dc_caches (wm_cache w2)) 0 0 [] of
             None \<Rightarrow> refuse AccountingOverflow w2
           | Some (committedBytes, remainingBytes, found) \<Rightarrow>
               let items = sort_items found; previouslyWarmed = committedBytes - remainingBytes in
               if cfg_uDecompCacheMaxBytes cfg = 0 \<or> committedBytes > cfg_uDecompCacheMaxBytes cfg
               then refuse OverRamCeiling w2
               else
                 let w3 = on_warm (\<lambda>s. s\<lparr>dc_warmedBytes := previouslyWarmed\<rparr>) w2 in
                 if we_pageSize env = 0 then refuse PageSizeError w3
                 else (case warm_touch env epoch previouslyWarmed items 0 w3 of
                    ((Some status, _), w4) \<Rightarrow> (status, w4)
                  | ((None, _), w4) \<Rightarrow>
                      (case warm_verify env epoch items w4 of
                         (Some status, w5) \<Rightarrow> (status, w5)
                       | (None, w5) \<Rightarrow> warm_publish env epoch committedBytes w5)))"

end
