(* ===== verification/DecompWarmProofs.thy ===== *)
theory DecompWarmProofs
  imports DecompWarm DecompQuiet
begin

text \<open>
  What a warm pass achieves.  The other threads may interfere at every flag the pass reads,
  as long as they obey what all operations of the cache obey: the epoch only grows, and while
  it stays the same no generation is replaced or invalidated, no verified entry becomes
  unverified, and no one else moves the warm frontier of a mapping.
\<close>

section \<open>Steps that keep the generations\<close>

definition generations :: "DecompCache \<Rightarrow> (nat \<times> nat option \<times> (u32 \<times> CachedEntry) list \<times> bool) list" where
  "generations s = map (\<lambda>(a, c). (a, ac_view c, ac_index c, ac_diskInvalidated c)) (dc_caches s)"

definition view_advances :: "MappedView \<Rightarrow> MappedView \<Rightarrow> bool" where
  "view_advances v w \<longleftrightarrow>
     mv_base w = mv_base v \<and> mv_size w = mv_size v \<and> mv_committedSize w = mv_committedSize v \<and>
     warmed_bytes v \<le> warmed_bytes w \<and> length (mv_verification w) = length (mv_verification v) \<and>
     (\<forall>i < length (mv_verification v). mv_verification v ! i = kVerifyValid \<longrightarrow>
        mv_verification w ! i = kVerifyValid)"

definition steady :: "DecompCache \<Rightarrow> DecompCache \<Rightarrow> bool" where
  "steady s s' \<longleftrightarrow>
     dc_cacheEpoch s \<le> dc_cacheEpoch s' \<and> length (dc_views s) \<le> length (dc_views s') \<and>
     (dc_cacheEpoch s' = dc_cacheEpoch s \<longrightarrow>
        generations s' = generations s \<and>
        (\<forall>i < length (dc_views s). view_advances (dc_views s ! i) (dc_views s' ! i)))"

definition same_frontier :: "DecompCache \<Rightarrow> DecompCache \<Rightarrow> bool" where
  "same_frontier s s' \<longleftrightarrow>
     (dc_cacheEpoch s' = dc_cacheEpoch s \<longrightarrow>
        (\<forall>i < length (dc_views s). warmed_bytes (dc_views s' ! i) = warmed_bytes (dc_views s ! i)))"

text \<open>Requests stay until the worker takes them, and the end of a load screen makes one.\<close>

definition keeps_flags :: "DecompCache \<Rightarrow> DecompCache \<Rightarrow> bool" where
  "keeps_flags s s' \<longleftrightarrow>
     (dc_flushRequested s \<longrightarrow> dc_flushRequested s') \<and>
     (dc_warmRequested s \<longrightarrow> dc_warmRequested s') \<and>
     (dc_loadActive s \<longrightarrow> dc_loadActive s' \<or> dc_flushRequested s')"

definition interferes_well :: "(DecompCache \<Rightarrow> DecompCache) \<Rightarrow> bool" where
  "interferes_well f \<longleftrightarrow> (\<forall>s. steady s (f s) \<and> same_frontier s (f s) \<and> keeps_flags s (f s) \<and>
     (views_ok s \<longrightarrow> views_ok (f s)))"

definition orderly :: "warm \<Rightarrow> bool" where
  "orderly w \<longleftrightarrow> (\<forall>(b, f) \<in> set (wm_others w). interferes_well f)"

lemma view_advances_refl [simp]: "view_advances v v"
  by (simp add: view_advances_def)

lemma view_advances_trans: "view_advances u v \<Longrightarrow> view_advances v w \<Longrightarrow> view_advances u w"
  by (auto simp: view_advances_def)

lemma steady_refl [simp]: "steady s s"
  by (simp add: steady_def)

lemma steady_trans:
  assumes "steady s t" "steady t u"
  shows "steady s u"
proof -
  have e: "dc_cacheEpoch s \<le> dc_cacheEpoch t" "dc_cacheEpoch t \<le> dc_cacheEpoch u"
    "length (dc_views s) \<le> length (dc_views t)" "length (dc_views t) \<le> length (dc_views u)"
    using assms by (simp_all add: steady_def)
  have "generations u = generations s \<and>
      (\<forall>i < length (dc_views s). view_advances (dc_views s ! i) (dc_views u ! i))"
    if "dc_cacheEpoch u = dc_cacheEpoch s"
  proof -
    from that e have "dc_cacheEpoch t = dc_cacheEpoch s" "dc_cacheEpoch u = dc_cacheEpoch t" by auto
    with assms show ?thesis
      unfolding steady_def by (auto intro: view_advances_trans less_le_trans)
  qed
  with e show ?thesis by (auto simp: steady_def)
qed

text \<open>States that differ only in flags and counters.\<close>

lemma steady_frame:
  "dc_caches s' = dc_caches s \<Longrightarrow> dc_views s' = dc_views s \<Longrightarrow> dc_cacheEpoch s' = dc_cacheEpoch s \<Longrightarrow>
     steady s s' \<and> same_frontier s s'"
  by (simp add: steady_def same_frontier_def generations_def)

lemma epoch_frames [simp]:
  "dc_cacheEpoch (count_if b k n s) = dc_cacheEpoch s" "dc_cacheEpoch (RequestWarmup cfg q s) = dc_cacheEpoch s"
  "dc_cacheEpoch (RequestFlush s) = dc_cacheEpoch s" "dc_cacheEpoch (update_view v g s) = dc_cacheEpoch s"
  "dc_cacheEpoch (update_cache a h s) = dc_cacheEpoch s"
  by (simp_all add: count_if_def RequestWarmup_def RequestFlush_def Let_def update_view_def update_cache_def)

lemma steady_counts:
  "steady s (count_if b k n s)" "steady s (RequestWarmup cfg q s)" "steady s (RequestFlush s)"
  using steady_frame [of "count_if b k n s" s] steady_frame [of "RequestWarmup cfg q s" s]
    steady_frame [of "RequestFlush s" s] by simp_all

lemma on_warm_sel [simp]:
  "wm_cache (on_warm f w) = f (wm_cache w)" "wm_others (on_warm f w) = wm_others w"
  "wm_stop (on_warm f w) = wm_stop w" "wm_archives (on_warm f w) = wm_archives w"
  by (simp_all add: on_warm_def)

lemma observe_ok:
  "orderly w \<Longrightarrow> orderly (observe w) \<and> steady (wm_cache w) (wm_cache (observe w)) \<and>
     same_frontier (wm_cache w) (wm_cache (observe w))"
  by (auto simp: observe_def orderly_def interferes_well_def same_frontier_def split: list.splits)

lemma same_frontier_trans:
  assumes "steady s t" "steady t u" "same_frontier s t" "same_frontier t u"
  shows "same_frontier s u"
proof -
  have e: "dc_cacheEpoch s \<le> dc_cacheEpoch t" "dc_cacheEpoch t \<le> dc_cacheEpoch u"
    using assms by (simp_all add: steady_def)
  show ?thesis
    using assms e unfolding same_frontier_def steady_def by (metis order_antisym less_le_trans)
qed

text \<open>One read of the four flags.\<close>

definition follows :: "warm \<Rightarrow> warm \<Rightarrow> bool" where
  "follows w w' \<longleftrightarrow> orderly w' \<and> steady (wm_cache w) (wm_cache w')"

lemma follows_trans: "follows u v \<Longrightarrow> follows v w \<Longrightarrow> follows u w"
  by (auto simp: follows_def intro: steady_trans)

lemma follows_refl: "orderly w \<Longrightarrow> follows w w"
  by (simp add: follows_def)

lemma follows_on_warm: "orderly w \<Longrightarrow> steady (wm_cache w) (f (wm_cache w)) \<Longrightarrow> follows w (on_warm f w)"
  by (simp add: follows_def orderly_def)

lemma interrupted_ok:
  assumes "orderly w" "interrupted epoch w = (r, w')"
  shows "follows w w' \<and> same_frontier (wm_cache w) (wm_cache w') \<and>
    (r = None \<longrightarrow> dc_cacheEpoch (wm_cache w') = epoch)"
proof -
  define w1 where "w1 = observe w"
  define w2 where "w2 = observe w1"
  define w3 where "w3 = observe w2"
  define w4 where "w4 = observe w3"
  have 1: "orderly w1" "steady (wm_cache w) (wm_cache w1)" "same_frontier (wm_cache w) (wm_cache w1)"
    using observe_ok [OF assms(1)] by (simp_all add: w1_def)
  have 2: "orderly w2" "steady (wm_cache w) (wm_cache w2)" "same_frontier (wm_cache w) (wm_cache w2)"
    using observe_ok [OF 1(1)] 1 by (auto simp: w2_def intro: steady_trans same_frontier_trans)
  have 3: "orderly w3" "steady (wm_cache w) (wm_cache w3)" "same_frontier (wm_cache w) (wm_cache w3)"
    using observe_ok [OF 2(1)] 2 by (auto simp: w3_def intro: steady_trans same_frontier_trans)
  have 4: "orderly w4" "steady (wm_cache w) (wm_cache w4)" "same_frontier (wm_cache w) (wm_cache w4)"
    using observe_ok [OF 3(1)] 3 by (auto simp: w4_def intro: steady_trans same_frontier_trans)
  show ?thesis
    using assms(2) 1 2 3 4
    by (auto simp: interrupted_def Let_def follows_def split: if_splits
        simp flip: w1_def w2_def w3_def w4_def)
qed

section \<open>Touching\<close>

lemma steadyD:
  assumes "steady s s'" "dc_cacheEpoch s' = dc_cacheEpoch s"
  shows "generations s' = generations s" "length (dc_views s) \<le> length (dc_views s')"
    and "i < length (dc_views s) \<Longrightarrow> view_advances (dc_views s ! i) (dc_views s' ! i)"
  using assms by (auto simp: steady_def)

lemma follows_views: "follows w w' \<Longrightarrow> length (dc_views (wm_cache w)) \<le> length (dc_views (wm_cache w'))"
  by (simp add: follows_def steady_def)

lemma steady_between:
  assumes "steady s t" "steady t u" "dc_cacheEpoch u = dc_cacheEpoch s"
  shows "dc_cacheEpoch t = dc_cacheEpoch s"
  using assms by (auto simp: steady_def)

lemma view_advances_sizes:
  "view_advances v w \<Longrightarrow> committed_bytes w = committed_bytes v"
  by (simp add: view_advances_def committed_bytes_def)

lemma warmed_le [simp]: "warmed_bytes v \<le> committed_bytes v"
  by (simp add: warmed_bytes_def)

lemma steady_touch:
  assumes "i < length (dc_views s)" "warmed_bytes (dc_views s ! i) \<le> n" "n \<le> committed_bytes (dc_views s ! i)"
  shows "steady s (update_view i (\<lambda>v. v\<lparr>mv_prefaultedThrough := unat n\<rparr>) s) \<and>
    warmed_bytes (dc_views (update_view i (\<lambda>v. v\<lparr>mv_prefaultedThrough := unat n\<rparr>) s) ! i) = n"
proof -
  have w: "warmed_bytes ((dc_views s ! i)\<lparr>mv_prefaultedThrough := unat n\<rparr>) = n"
    using assms(3) by (simp add: warmed_bytes_def committed_bytes_def min_def)
  then show ?thesis
    using assms by (auto simp: steady_def generations_def update_view_def nth_list_update view_advances_def)
qed

lemma steady_report:
  "steady s s' \<Longrightarrow> steady s (s'\<lparr>dc_warmedBytes := n\<rparr>)"
  by (auto simp: steady_def generations_def)

text \<open>
  The chunk loop: it only follows the state, and when it runs to its end in the generation it
  started in, the mapping is warm to the end of its committed prefix.
\<close>

lemma warm_chunks_ok:
  assumes "orderly w" "owner < length (dc_views (wm_cache w))"
    and "warmed_bytes (dc_views (wm_cache w) ! owner) = cursor"
    and "committed_bytes (dc_views (wm_cache w) ! owner) = committed"
    and "warm_chunks env epoch prev owner committed cursor touched w = ((None, touched'), w')"
    and "epoch \<le> dc_cacheEpoch (wm_cache w)"
  shows "follows w w' \<and> (dc_cacheEpoch (wm_cache w') = epoch \<longrightarrow>
      warmed_bytes (dc_views (wm_cache w') ! owner) = committed)"
  using assms
proof (induction env epoch prev owner committed cursor touched w arbitrary: touched' w'
    rule: warm_chunks.induct)
  case (1 env epoch prev owner committed cursor touched w)
  have le: "cursor \<le> committed" using "1.prems"(3,4) warmed_le by auto
  show ?case
  proof (cases "cursor < committed")
    case False
    then have "w' = w" "cursor = committed"
      using "1.prems"(5) le by (auto simp: warm_chunks.simps [of env])
    with "1.prems" show ?thesis by (simp add: follows_refl)
  next
    case True
    obtain r w1 where i: "interrupted epoch w = (r, w1)" by force
    have r: "r = None"
      using "1.prems"(5) True i
      by (cases r) (auto simp: warm_chunks.simps [of env] split: prod.splits)
    note w1 = interrupted_ok [OF "1.prems"(1) i]
    have e1: "dc_cacheEpoch (wm_cache w1) = dc_cacheEpoch (wm_cache w)" "dc_cacheEpoch (wm_cache w1) = epoch"
      using w1 r "1.prems"(6) by (auto simp: follows_def steady_def)
    have s1: "steady (wm_cache w) (wm_cache w1)" and o1: "orderly w1" using w1 by (simp_all add: follows_def)
    note d1 = steadyD [OF s1 e1(1)]
    have v1: "warmed_bytes (dc_views (wm_cache w1) ! owner) = cursor"
      "committed_bytes (dc_views (wm_cache w1) ! owner) = committed"
      using w1 e1 "1.prems"(2-4) view_advances_sizes [OF d1(3)] by (simp_all add: same_frontier_def)
    have l1: "owner < length (dc_views (wm_cache w1))" using d1(2) "1.prems"(2) by simp
    let ?chunk = "min kWarmChunkBytes (committed - cursor)"
    let ?f = "\<lambda>s. update_view owner (\<lambda>v. v\<lparr>mv_prefaultedThrough := unat (cursor + ?chunk)\<rparr>)
        ((count_if (cfg_bMeasureStats (we_cfg env)) dg_warmBytesTouched_update ?chunk s)
           \<lparr>dc_warmedBytes := prev + (touched + ?chunk)\<rparr>)"
    have ok: "TouchMappedPages (we_faults env owner) True cursor (cursor + ?chunk) (we_pageSize env)"
      and run: "warm_chunks env epoch prev owner committed (cursor + ?chunk) (touched + ?chunk) (on_warm ?f w1) =
        ((None, touched'), w')"
      using "1.prems"(5) True i r
      by (auto simp: warm_chunks.simps [of env epoch prev owner committed cursor] Let_def split: if_splits)
    have grows: "cursor \<le> cursor + ?chunk" "cursor + ?chunk \<le> committed"
      using chunk_progress [OF True] by (simp_all add: word_le_nat_alt)
    let ?s = "(count_if (cfg_bMeasureStats (we_cfg env)) dg_warmBytesTouched_update ?chunk (wm_cache w1))
           \<lparr>dc_warmedBytes := prev + (touched + ?chunk)\<rparr>"
    have vs: "dc_views ?s = dc_views (wm_cache w1)" by simp
    have t: "steady ?s (?f (wm_cache w1)) \<and> warmed_bytes (dc_views (?f (wm_cache w1)) ! owner) = cursor + ?chunk"
      using steady_touch [of owner ?s "cursor + ?chunk"] l1 v1 grows unfolding vs by simp
    have f2: "steady (wm_cache w1) (?f (wm_cache w1))"
      using steady_trans [OF steady_report [OF steady_counts(1)]] t by blast
    have c2: "committed_bytes (dc_views (?f (wm_cache w1)) ! owner) = committed"
      using l1 v1(2) by (simp add: update_view_def committed_bytes_def)
    have "follows (on_warm ?f w1) w' \<and> (dc_cacheEpoch (wm_cache w') = epoch \<longrightarrow>
      warmed_bytes (dc_views (wm_cache w') ! owner) = committed)"
    proof (rule "1.IH" [OF _ i [symmetric] r refl _ refl refl _ _ _ _ run])
      show "orderly (on_warm ?f w1)" using o1 by (simp add: orderly_def)
    qed (use True ok t c2 l1 e1 "1.prems"(6) in \<open>simp_all add: update_view_def\<close>)
    moreover have "follows w (on_warm ?f w1)"
      using s1 f2 o1 by (auto simp: follows_def orderly_def intro: steady_trans)
    ultimately show ?thesis by (blast intro: follows_trans)
  qed
qed

lemma follows_epoch: "follows w w' \<Longrightarrow> dc_cacheEpoch (wm_cache w) \<le> dc_cacheEpoch (wm_cache w')"
  by (simp add: follows_def steady_def)

lemma fully_warm_stays:
  assumes "steady s s'" "dc_cacheEpoch s' = dc_cacheEpoch s" "i < length (dc_views s)"
    and "warmed_bytes (dc_views s ! i) = committed_bytes (dc_views s ! i)"
  shows "warmed_bytes (dc_views s' ! i) = committed_bytes (dc_views s' ! i)"
proof -
  have v: "view_advances (dc_views s ! i) (dc_views s' ! i)" using steadyD(3) [OF assms(1-3)] .
  then show ?thesis
    using assms(4) view_advances_sizes [OF v] warmed_le [of "dc_views s' ! i"]
    by (simp add: view_advances_def)
qed

lemma warm_touch_ok:
  assumes "orderly w" "\<forall>item \<in> set items. wi_owner item < length (dc_views (wm_cache w))"
    and "warm_touch env epoch prev items touched w = ((None, touched'), w')"
    and "epoch \<le> dc_cacheEpoch (wm_cache w)"
  shows "follows w w' \<and> (dc_cacheEpoch (wm_cache w') = epoch \<longrightarrow>
      (\<forall>item \<in> set items. warmed_bytes (dc_views (wm_cache w') ! wi_owner item) =
         committed_bytes (dc_views (wm_cache w') ! wi_owner item)))"
  using assms
proof (induction items arbitrary: touched w)
  case Nil
  then show ?case by (simp add: follows_refl)
next
  case (Cons item items)
  let ?i = "wi_owner item" and ?s = "wm_cache w"
  let ?v = "dc_views ?s ! ?i"
  obtain t w1 where c: "warm_chunks env epoch prev ?i (committed_bytes ?v) (warmed_bytes ?v) touched w =
      ((None, t), w1)" and r: "warm_touch env epoch prev items t w1 = ((None, touched'), w')"
    using Cons.prems(3) by (auto simp: Let_def split: prod.splits option.splits)
  have i: "?i < length (dc_views ?s)" using Cons.prems(2) by simp
  note w1 = warm_chunks_ok [OF Cons.prems(1) i refl refl c Cons.prems(4)]
  have e1: "epoch \<le> dc_cacheEpoch (wm_cache w1)"
    using w1 follows_epoch Cons.prems(4) by (meson order_trans)
  have o: "\<forall>item \<in> set items. wi_owner item < length (dc_views (wm_cache w1))"
    using Cons.prems(2) follows_views w1 by (fastforce intro: less_le_trans)
  have "orderly w1" using w1 by (simp add: follows_def)
  from Cons.IH [OF this o r e1] have ih: "follows w1 w'"
    "dc_cacheEpoch (wm_cache w') = epoch \<Longrightarrow> \<forall>item \<in> set items.
       warmed_bytes (dc_views (wm_cache w') ! wi_owner item) = committed_bytes (dc_views (wm_cache w') ! wi_owner item)"
    by auto
  have "warmed_bytes (dc_views (wm_cache w') ! ?i) = committed_bytes (dc_views (wm_cache w') ! ?i)"
    if e: "dc_cacheEpoch (wm_cache w') = epoch"
  proof -
    have e1': "dc_cacheEpoch (wm_cache w1) = epoch" using e e1 follows_epoch [OF ih(1)] by simp
    then have ew: "dc_cacheEpoch (wm_cache w1) = dc_cacheEpoch ?s"
      using Cons.prems(4) w1 follows_epoch [of w w1] by simp
    have s1: "steady ?s (wm_cache w1)" "steady (wm_cache w1) (wm_cache w')"
      using w1 ih(1) by (simp_all add: follows_def)
    note d1 = steadyD [OF s1(1) ew]
    show ?thesis
    proof (rule fully_warm_stays [OF s1(2)])
      show "?i < length (dc_views (wm_cache w1))" using d1(2) i by simp
      show "warmed_bytes (dc_views (wm_cache w1) ! ?i) = committed_bytes (dc_views (wm_cache w1) ! ?i)"
        using w1 e1' view_advances_sizes [OF d1(3) [OF i]] by simp
    qed (use e e1' in simp)
  qed
  then show ?case using w1 ih by (auto intro: follows_trans)
qed

section \<open>Verifying\<close>

lemma VerifyEntry_keeps_valid:
  "VerifyEntry r t b base e kVerifyValid = (ver, st) \<Longrightarrow> st = kVerifyValid"
  by (auto simp: VerifyEntry_def split: if_splits)

lemma steady_verify:
  assumes "verify_in_view cfg env v e s = (ver, s')" "v < length (dc_views s)"
  shows "steady s s' \<and> same_frontier s s' \<and> dc_cacheEpoch s' = dc_cacheEpoch s \<and> dc_caches s' = dc_caches s \<and>
    length (dc_views s') = length (dc_views s)"
proof -
  let ?v = "dc_views s ! v"
  obtain st where st: "VerifyEntry (le_readable env) (if cfg_bMeasureStats cfg then le_ticks env else 0)
      (le_owner_valid env) (mv_base ?v) e (mv_verification ?v ! ce_slot e) = (ver, st)"
    using assms(1) by (auto simp: verify_in_view_def Let_def split: prod.splits)
  let ?w = "?v\<lparr>mv_verification := (mv_verification ?v)[ce_slot e := st]\<rparr>"
  have vs: "dc_views s' = (dc_views s)[v := ?w]" "dc_caches s' = dc_caches s" "dc_cacheEpoch s' = dc_cacheEpoch s"
    using assms st by (auto simp: verify_in_view_def Let_def update_view_def)
  have wb: "warmed_bytes ?w = warmed_bytes ?v" by (simp add: warmed_bytes_def committed_bytes_def)
  have "(mv_verification ?v)[ce_slot e := st] ! i = kVerifyValid"
    if iv: "i < length (mv_verification ?v)" "mv_verification ?v ! i = kVerifyValid" for i
    using iv VerifyEntry_keeps_valid st by (cases "i = ce_slot e") auto
  with wb have "view_advances ?v ?w" by (simp add: view_advances_def)
  then have "view_advances (dc_views s ! i) (dc_views s' ! i) \<and>
      warmed_bytes (dc_views s' ! i) = warmed_bytes (dc_views s ! i)" for i
    unfolding vs(1) using wb assms(2) by (cases "i = v") simp_all
  with vs show ?thesis by (simp add: steady_def same_frontier_def generations_def)
qed

lemma verify_entries_ok:
  assumes "orderly w" "owner < length (dc_views (wm_cache w))"
    and "\<forall>(off, e) \<in> set es. ce_slot e < length (mv_verification (dc_views (wm_cache w) ! owner))"
    and "verify_entries env epoch a owner es w = (AllChecked, w')" "epoch \<le> dc_cacheEpoch (wm_cache w)"
  shows "follows w w' \<and> (dc_cacheEpoch (wm_cache w') = epoch \<longrightarrow>
      (\<forall>(off, e) \<in> set es. mv_verification (dc_views (wm_cache w') ! owner) ! ce_slot e = kVerifyValid))"
  using assms
proof (induction es arbitrary: w)
  case Nil
  then show ?case by (simp add: follows_refl)
next
  case (Cons p es)
  obtain off e where p: "p = (off, e)" by force
  obtain r w1 where i: "interrupted epoch w = (r, w1)" by force
  have r: "r = None" using Cons.prems(4) p i by (cases r) auto
  note w1 = interrupted_ok [OF Cons.prems(1) i]
  have e1: "dc_cacheEpoch (wm_cache w1) = epoch" "dc_cacheEpoch (wm_cache w1) = dc_cacheEpoch (wm_cache w)"
    using w1 r Cons.prems(5) by (auto simp: follows_def steady_def)
  have s1: "steady (wm_cache w) (wm_cache w1)" and o1: "orderly w1" using w1 by (simp_all add: follows_def)
  note d1 = steadyD [OF s1 e1(2)]
  obtain auth ar where g: "GetDeclaredDecompressedSize (we_io env) (wm_archives w1 a) off = (auth, ar)" by force
  define w2 where "w2 = w1\<lparr>wm_archives := (wm_archives w1)(a := ar)\<rparr>"
  obtain ver s where v: "verify_in_view (we_cfg env) (we_lookup env) owner e (wm_cache w2) = (ver, s)" by force
  have c2: "wm_cache w2 = wm_cache w1" "wm_others w2 = wm_others w1" by (simp_all add: w2_def)
  have ok: "auth = Some (ce_size e)" "vf_valid ver"
    and run: "verify_entries env epoch a owner es (w2\<lparr>wm_cache := s\<rparr>) = (AllChecked, w')"
    using Cons.prems(4) p i r g v by (auto simp: Let_def simp flip: w2_def split: if_splits)
  have l1: "owner < length (dc_views (wm_cache w1))" using d1(2) Cons.prems(2) by simp
  note st = steady_verify [OF v [unfolded c2] l1]
  let ?w3 = "w2\<lparr>wm_cache := s\<rparr>"
  have f3: "follows w ?w3"
    using s1 st o1 c2 by (auto simp: follows_def orderly_def intro: steady_trans)
  have e3: "dc_cacheEpoch (wm_cache ?w3) = dc_cacheEpoch (wm_cache w)" using st e1 by simp
  note d3 = steadyD [OF _ e3]
  have s3: "steady (wm_cache w) (wm_cache ?w3)" using f3 by (simp add: follows_def)
  have len: "length (mv_verification (dc_views (wm_cache ?w3) ! owner)) =
      length (mv_verification (dc_views (wm_cache w) ! owner))"
    "length (mv_verification (dc_views (wm_cache w1) ! owner)) =
      length (mv_verification (dc_views (wm_cache w) ! owner))"
    using d3(3) [OF s3 Cons.prems(2)] d1(3) [OF Cons.prems(2)] by (simp_all add: view_advances_def)
  have slot: "ce_slot e < length (mv_verification (dc_views (wm_cache w1) ! owner))"
    using Cons.prems(3) len(2) p by simp
  have valid: "mv_verification (dc_views s ! owner) ! ce_slot e = kVerifyValid"
    using verify_in_view_valid [OF v [unfolded c2] ok(2) l1 slot] by blast
  have ih: "follows ?w3 w' \<and> (dc_cacheEpoch (wm_cache w') = epoch \<longrightarrow>
      (\<forall>(off, e) \<in> set es. mv_verification (dc_views (wm_cache w') ! owner) ! ce_slot e = kVerifyValid))"
    by (rule Cons.IH [OF _ _ _ run])
      (use f3 l1 st len Cons.prems(3,5) e3 p in \<open>auto simp: follows_def\<close>)
  have "mv_verification (dc_views (wm_cache w') ! owner) ! ce_slot e = kVerifyValid"
    if e: "dc_cacheEpoch (wm_cache w') = epoch"
  proof -
    have "view_advances (dc_views s ! owner) (dc_views (wm_cache w') ! owner)"
      using ih e st e1 l1 by (intro steadyD(3)) (auto simp: follows_def)
    then show ?thesis using valid slot len by (auto simp: view_advances_def)
  qed
  then show ?case using ih f3 p by (auto intro: follows_trans)
qed

lemma observe_views_ok: "orderly w \<Longrightarrow> views_ok (wm_cache w) \<Longrightarrow> views_ok (wm_cache (observe w))"
  by (auto simp: observe_def orderly_def interferes_well_def split: list.splits)

lemma observe_flags:
  "orderly w \<Longrightarrow> keeps_flags (wm_cache w) (wm_cache (observe w)) \<and> (wm_stop w \<longrightarrow> wm_stop (observe w))"
  by (auto simp: observe_def orderly_def interferes_well_def keeps_flags_def split: list.splits)

text \<open>What interrupted the pass once still does at the next check.\<close>

lemma interrupted_sticky:
  assumes "orderly w" "epoch \<le> dc_cacheEpoch (wm_cache w)" "interrupted epoch w = (Some i, w')"
  shows "fst (interrupted epoch w') \<noteq> None"
proof -
  have w': "orderly w'" "dc_cacheEpoch (wm_cache w) \<le> dc_cacheEpoch (wm_cache w')"
    using interrupted_ok [OF assms(1,3)] by (auto simp: follows_def steady_def)
  define w1 where "w1 = observe w'"
  define w2 where "w2 = observe w1"
  define w3 where "w3 = observe w2"
  define w4 where "w4 = observe w3"
  note flags = observe_flags [OF w'(1), folded w1_def]
  have o1: "orderly w1" "dc_cacheEpoch (wm_cache w') \<le> dc_cacheEpoch (wm_cache w1)"
    using observe_ok [OF w'(1), folded w1_def] by (auto simp: steady_def)
  note flags1 = observe_flags [OF o1(1), folded w2_def]
  have o2: "orderly w2" "dc_cacheEpoch (wm_cache w1) \<le> dc_cacheEpoch (wm_cache w2)"
    using observe_ok [OF o1(1), folded w2_def] by (auto simp: steady_def)
  note flags2 = observe_flags [OF o2(1), folded w3_def]
  have o3: "orderly w3" "dc_cacheEpoch (wm_cache w2) \<le> dc_cacheEpoch (wm_cache w3)"
    using observe_ok [OF o2(1), folded w3_def] by (auto simp: steady_def)
  have o4: "dc_cacheEpoch (wm_cache w3) \<le> dc_cacheEpoch (wm_cache w4)"
    using observe_ok [OF o3(1), folded w4_def] by (auto simp: steady_def)
  have why: "wm_stop w' \<or> dc_loadActive (wm_cache w') \<or> dc_flushRequested (wm_cache w') \<or>
      epoch \<noteq> dc_cacheEpoch (wm_cache w')"
    using assms(3) by (auto simp: interrupted_def Let_def split: if_splits)
  show ?thesis
  proof (cases "epoch = dc_cacheEpoch (wm_cache w')")
    case True
    then show ?thesis
      using why flags flags1 flags2
      by (auto simp: interrupted_def Let_def keeps_flags_def simp flip: w1_def w2_def w3_def w4_def)
  next
    case False
    then have "epoch < dc_cacheEpoch (wm_cache w')" using assms(2) w'(2) by auto
    then have "epoch \<noteq> dc_cacheEpoch (wm_cache w4)" using o1 o2 o3 o4 by auto
    then show ?thesis
      by (auto simp: interrupted_def Let_def simp flip: w1_def w2_def w3_def w4_def)
  qed
qed

lemma verify_entries_broke:
  assumes "orderly w" "owner < length (dc_views (wm_cache w))"
    and "verify_entries env epoch a owner es w = (BrokeOff, w')" "epoch \<le> dc_cacheEpoch (wm_cache w)"
  shows "fst (interrupted epoch w') \<noteq> None"
  using assms
proof (induction es arbitrary: w)
  case (Cons p es)
  obtain off e where p: "p = (off, e)" by force
  obtain r w1 where i: "interrupted epoch w = (r, w1)" by force
  note w1 = interrupted_ok [OF Cons.prems(1) i]
  show ?case
  proof (cases r)
    case (Some x)
    then have "w' = w1" using Cons.prems(3) p i by simp
    then show ?thesis using interrupted_sticky [OF Cons.prems(1,4)] i Some by simp
  next
    case None
    obtain auth ar where g: "GetDeclaredDecompressedSize (we_io env) (wm_archives w1 a) off = (auth, ar)" by force
    define w2 where "w2 = w1\<lparr>wm_archives := (wm_archives w1)(a := ar)\<rparr>"
    obtain ver s where v: "verify_in_view (we_cfg env) (we_lookup env) owner e (wm_cache w2) = (ver, s)" by force
    have c2: "wm_cache w2 = wm_cache w1" "wm_others w2 = wm_others w1" by (simp_all add: w2_def)
    have run: "verify_entries env epoch a owner es (w2\<lparr>wm_cache := s\<rparr>) = (BrokeOff, w')"
      using Cons.prems(3) p i None g v by (auto simp: Let_def simp flip: w2_def split: if_splits)
    have l1: "owner < length (dc_views (wm_cache w1))"
      using w1 follows_views Cons.prems(2) by (meson less_le_trans)
    note st = steady_verify [OF v [unfolded c2] l1]
    show ?thesis
      by (rule Cons.IH [OF _ _ run])
        (use w1 None st c2 l1 in \<open>auto simp: follows_def orderly_def\<close>)
  qed
qed simp

lemma views_ok_steady:
  assumes "views_ok s" "steady s s'" "dc_cacheEpoch s' = dc_cacheEpoch s"
  shows "views_ok s'"
proof (rule views_ok_step [OF assms(1)])
  note d = steadyD [OF assms(2,3)]
  show "i < length (dc_views s') \<and> same_shape (dc_views s ! i) (dc_views s' ! i)"
    if "i < length (dc_views s)" for i
    using d(2) d(3) [OF that] that by (auto simp: same_shape_def view_advances_def)
  fix a c' assume "(a, c') \<in> set (dc_caches s')"
  then have "(a, ac_view c', ac_index c', ac_diskInvalidated c') \<in> set (generations s)"
    unfolding d(1) [symmetric] by (force simp: generations_def)
  then show "ac_view c' = None \<or>
      (\<exists>c. (a, c) \<in> set (dc_caches s) \<and> ac_view c' = ac_view c \<and> ac_index c' = ac_index c)"
    by (auto simp: generations_def)
qed

lemma map_of_generations:
  "map_of (generations s) a = map_option (\<lambda>c. (ac_view c, ac_index c, ac_diskInvalidated c)) (map_of (dc_caches s) a)"
proof -
  have "map_of (map (\<lambda>(a, c). (a, ac_view c, ac_index c, ac_diskInvalidated c)) cs) a =
      map_option (\<lambda>c. (ac_view c, ac_index c, ac_diskInvalidated c)) (map_of cs a)" for cs
    by (induction cs) auto
  then show ?thesis by (simp add: generations_def)
qed

text \<open>An item whose mapping is still current and whose entries are all verified.\<close>

definition item_verified :: "DecompCache \<Rightarrow> WarmItem \<Rightarrow> bool" where
  "item_verified s item \<longleftrightarrow>
     (\<exists>ix. map_of (generations s) (wi_archive item) = Some (Some (wi_owner item), ix, False) \<and>
        (\<forall>(off, e) \<in> set ix.
           mv_verification (dc_views s ! wi_owner item) ! ce_slot e = kVerifyValid))"

lemma item_verified_stays:
  assumes "item_verified s item" "views_ok s" "steady s s'" "dc_cacheEpoch s' = dc_cacheEpoch s"
  shows "item_verified s' item"
proof -
  let ?v = "wi_owner item"
  from assms(1) obtain ix where ix: "map_of (generations s) (wi_archive item) = Some (Some ?v, ix, False)"
    "\<forall>(off, e) \<in> set ix. mv_verification (dc_views s ! ?v) ! ce_slot e = kVerifyValid"
    by (auto simp: item_verified_def)
  note d = steadyD [OF assms(3,4)]
  obtain c where c: "map_of (dc_caches s) (wi_archive item) = Some c" "ac_view c = Some ?v" "ac_index c = ix"
    using ix(1) by (auto simp: map_of_generations)
  then have v: "?v < length (dc_views s)" "view_covers (dc_views s ! ?v) ix"
    using assms(2) map_of_SomeD [OF c(1)] unfolding views_ok_def by fastforce+
  have "mv_verification (dc_views s' ! ?v) ! ce_slot e = kVerifyValid" if "(off, e) \<in> set ix" for off e
    using that ix(2) v d(3) [OF v(1)] by (auto simp: view_advances_def view_covers_def)
  then show ?thesis using ix(1) d(1) by (auto simp: item_verified_def)
qed

lemma warm_verify_ok:
  assumes "orderly w" "\<forall>item \<in> set items. wi_owner item < length (dc_views (wm_cache w))"
    and "warm_verify env epoch items w = (None, w')" "epoch \<le> dc_cacheEpoch (wm_cache w)"
    and "dc_cacheEpoch (wm_cache w) = epoch \<longrightarrow> views_ok (wm_cache w)"
  shows "follows w w' \<and> (dc_cacheEpoch (wm_cache w') = epoch \<longrightarrow> (\<forall>item \<in> set items. item_verified (wm_cache w') item))"
  using assms
proof (induction items arbitrary: w)
  case Nil
  then show ?case by (simp add: follows_refl)
next
  case (Cons item items)
  let ?a = "wi_archive item" and ?v = "wi_owner item"
  obtain r w1 where i: "interrupted epoch w = (r, w1)" by force
  have r: "r = None" using Cons.prems(3) i by (cases r) (auto split: prod.splits)
  note w1 = interrupted_ok [OF Cons.prems(1) i]
  have e1: "dc_cacheEpoch (wm_cache w1) = epoch" "dc_cacheEpoch (wm_cache w1) = dc_cacheEpoch (wm_cache w)"
    using w1 r Cons.prems(4) by (auto simp: follows_def steady_def)
  have s1: "steady (wm_cache w) (wm_cache w1)" and o1: "orderly w1" using w1 by (simp_all add: follows_def)
  have ok1: "views_ok (wm_cache w1)"
    using Cons.prems(5) e1 by (intro views_ok_steady [OF _ s1]) simp_all
  obtain c where c: "map_of (dc_caches (wm_cache w1)) ?a = Some c" "ac_view c = Some ?v" "\<not> ac_diskInvalidated c"
    using Cons.prems(3) i r by (auto simp: Let_def interrupt_pass_def split: option.splits if_splits)
  obtain out w2 where v: "verify_entries env epoch ?a ?v (ac_index c) w1 = (out, w2)" by force
  obtain r3 w3 where i3: "interrupted epoch w2 = (r3, w3)" by force
  have out: "out = AllChecked \<or> out = BrokeOff" and r3: "r3 = None"
    and run: "warm_verify env epoch items w3 = (None, w')"
    using Cons.prems(3) i r c v i3
    by (auto simp: Let_def interrupt_pass_def split: verify_outcome.splits option.splits)
  have cov: "?v < length (dc_views (wm_cache w1))" "view_covers (dc_views (wm_cache w1) ! ?v) (ac_index c)"
    using ok1 c by (auto simp: views_ok_def dest: map_of_SomeD)
  have "out \<noteq> BrokeOff"
    using verify_entries_broke [OF o1 cov(1), of env epoch ?a "ac_index c" w2] v e1(1) i3 r3 by auto
  with out have "out = AllChecked" by simp
  with verify_entries_ok [OF o1 cov(1) _ _ , of "ac_index c" env epoch ?a w2] v cov(2) e1(1)
  have f2: "follows w1 w2" and val: "dc_cacheEpoch (wm_cache w2) = epoch \<Longrightarrow>
      \<forall>(off, e) \<in> set (ac_index c). mv_verification (dc_views (wm_cache w2) ! ?v) ! ce_slot e = kVerifyValid"
    by (auto simp: view_covers_def)
  have o2: "orderly w2" using f2 by (simp add: follows_def)
  note w3 = interrupted_ok [OF o2 i3]
  have f3: "follows w1 w3" using f2 w3 by (blast intro: follows_trans)
  have e3: "dc_cacheEpoch (wm_cache w3) = epoch" using w3 r3 by simp
  then have e2: "dc_cacheEpoch (wm_cache w2) = epoch"
    using follows_epoch [OF f2] w3 e1(1) follows_epoch [of w2 w3] by auto
  have s12: "steady (wm_cache w1) (wm_cache w2)" "steady (wm_cache w2) (wm_cache w3)"
    using f2 w3 by (simp_all add: follows_def)
  have ok2: "views_ok (wm_cache w2)" using views_ok_steady [OF ok1 s12(1)] e1 e2 by simp
  have ok3: "views_ok (wm_cache w3)" using views_ok_steady [OF ok2 s12(2)] e2 e3 by simp
  have "item_verified (wm_cache w2) item"
    using val [OF e2] c steadyD(1) [OF s12(1)] e1 e2
    by (auto simp: item_verified_def map_of_generations)
  then have it3: "item_verified (wm_cache w3) item"
    using item_verified_stays [OF _ ok2 s12(2)] e2 e3 by simp
  have own: "\<forall>item \<in> set items. wi_owner item < length (dc_views (wm_cache w3))"
    using Cons.prems(2) follows_views [OF f3] w1 follows_views [of w w1] by fastforce
  have o3: "orderly w3" using w3 by (simp add: follows_def)
  from Cons.IH [OF o3 own run] e3 ok3 have ih: "follows w3 w'"
    "dc_cacheEpoch (wm_cache w') = epoch \<Longrightarrow> \<forall>item \<in> set items. item_verified (wm_cache w') item" by auto
  have "item_verified (wm_cache w') item" if "dc_cacheEpoch (wm_cache w') = epoch"
    using item_verified_stays [OF it3 ok3] ih(1) that e3 by (simp add: follows_def)
  then show ?case using ih f3 w1 by (auto intro: follows_trans)
qed

section \<open>The whole pass\<close>

definition eligible :: "DecompCache \<Rightarrow> nat \<times> ArchiveCache \<Rightarrow> bool" where
  "eligible s ac \<longleftrightarrow> (case ac_view (snd ac) of None \<Rightarrow> False
     | Some v \<Rightarrow> \<not> ac_diskInvalidated (snd ac) \<and> committed_bytes (dc_views s ! v) \<noteq> 0)"

definition item_of :: "DecompCache \<Rightarrow> nat \<times> ArchiveCache \<Rightarrow> WarmItem" where
  "item_of s ac = \<lparr>wi_archive = fst ac, wi_owner = the (ac_view (snd ac)), wi_path = ac_activePath (snd ac),
     wi_lastAccess = warm_rank s (snd ac)\<rparr>"

lemma warm_snapshot_items:
  "warm_snapshot s cs cb rb items0 = Some (cb', rb', items) \<Longrightarrow>
     items = items0 @ map (item_of s) (filter (eligible s) cs)"
proof (induction cs arbitrary: cb rb items0)
  case (Cons ac cs)
  obtain a c where ac: "ac = (a, c)" by force
  show ?case
  proof (cases "eligible s ac")
    case False
    then have "warm_snapshot s (ac # cs) cb rb items0 = warm_snapshot s cs cb rb items0"
      by (auto simp: ac eligible_def Let_def split: option.splits)
    then show ?thesis using Cons.IH [of cb rb items0] Cons.prems False by simp
  next
    case True
    then obtain v where v: "ac_view c = Some v" "\<not> ac_diskInvalidated c" "committed_bytes (dc_views s ! v) \<noteq> 0"
      by (auto simp: ac eligible_def split: option.splits)
    let ?m = "dc_views s ! v"
    obtain cb1 where cb1: "AddChecked cb (committed_bytes ?m) = Some cb1"
      using Cons.prems v by (cases "AddChecked cb (committed_bytes ?m)") (auto simp: ac Let_def)
    obtain rb1 where rb1: "AddChecked rb (committed_bytes ?m - warmed_bytes ?m) = Some rb1"
      using Cons.prems v cb1
      by (cases "AddChecked rb (committed_bytes ?m - warmed_bytes ?m)") (auto simp: ac Let_def)
    have "warm_snapshot s (ac # cs) cb rb items0 = warm_snapshot s cs cb1 rb1 (items0 @ [item_of s ac])"
      using v by (simp add: ac Let_def cb1 rb1 item_of_def)
    then show ?thesis using Cons.IH Cons.prems True by simp
  qed
qed simp

lemma set_sort_items [simp]: "set (sort_items items) = set items"
  by (simp add: sort_items_def)

lemma finishPass_sel [simp]:
  "dc_views (wm_cache (finishPass env k w)) = dc_views (wm_cache w)"
  "dc_caches (wm_cache (finishPass env k w)) = dc_caches (wm_cache w)"
  "dc_cacheEpoch (wm_cache (finishPass env k w)) = dc_cacheEpoch (wm_cache w)"
  "dc_warmComplete (wm_cache (finishPass env k w)) = dc_warmComplete (wm_cache w)"
  "dc_warmedBytes (wm_cache (finishPass env k w)) = dc_warmedBytes (wm_cache w)"
  by (simp_all add: finishPass_def Let_def count_if_def split: option.splits)

lemma warm_publish_complete:
  assumes "warm_publish env epoch cb w = (Complete, w')" "orderly w"
  shows "\<exists>w1. follows w w1 \<and> dc_cacheEpoch (wm_cache w1) = epoch \<and> dc_views (wm_cache w') = dc_views (wm_cache w1) \<and>
    dc_caches (wm_cache w') = dc_caches (wm_cache w1) \<and> dc_cacheEpoch (wm_cache w') = epoch \<and>
    dc_warmComplete (wm_cache w') \<and> dc_warmedBytes (wm_cache w') = cb"
proof -
  define w1 where "w1 = observe w"
  define w2 where "w2 = observe w1"
  define w3 where "w3 = observe w2"
  have o1: "orderly w1" "steady (wm_cache w) (wm_cache w1)"
    using observe_ok [OF assms(2), folded w1_def] by auto
  have o2: "orderly w2" "steady (wm_cache w) (wm_cache w2)"
    using observe_ok [OF o1(1), folded w2_def] o1 by (auto intro: steady_trans)
  have o3: "orderly w3" "steady (wm_cache w) (wm_cache w3)"
    using observe_ok [OF o2(1), folded w3_def] o2 by (auto intro: steady_trans)
  have u: "undisturbed_pass epoch w3"
    "w' = finishPass env None (on_warm (count_if (cfg_bMeasureStats (we_cfg env)) dg_warmPassesCompleted_update 1)
       (on_warm (\<lambda>s. s\<lparr>dc_warmedBytes := cb, dc_warmComplete := True\<rparr>) w3))"
    using assms(1) by (auto simp: warm_publish_def Let_def interrupt_pass_def publishComplete_def
        simp flip: w1_def w2_def w3_def split: if_splits)
  then show ?thesis
    using o3 by (intro exI [of _ w3]) (auto simp: follows_def undisturbed_pass_def count_if_def)
qed

lemma interrupt_pass_not_complete [simp]: "interrupt_pass env i w \<noteq> (Complete, w')"
  by (simp add: interrupt_pass_def)

lemma warm_chunks_not_complete:
  "fst (fst (warm_chunks env epoch prev owner committed cursor touched w)) \<noteq> Some Complete"
proof (induction env epoch prev owner committed cursor touched w rule: warm_chunks.induct)
  case (1 env epoch prev owner committed cursor touched w)
  obtain r w1 where i: "interrupted epoch w = (r, w1)" by force
  show ?case
    using "1.IH" [OF _ i [symmetric]]
    by (subst warm_chunks.simps) (auto simp: i Let_def split: option.splits prod.splits)
qed

lemma warm_touch_not_complete: "fst (fst (warm_touch env epoch prev items touched w)) \<noteq> Some Complete"
proof (induction items arbitrary: touched w)
  case (Cons item items)
  then show ?case
    using warm_chunks_not_complete [of env epoch prev "wi_owner item" _ _ touched w]
    by (auto simp: Let_def split: prod.splits option.splits) (metis fst_conv)+
qed simp

lemma verify_entries_invalid:
  "verify_entries env epoch a owner es w = (InvalidEntry st, w') \<Longrightarrow> st \<noteq> Complete"
  by (induction es arbitrary: w) (auto simp: Let_def split: prod.splits option.splits if_splits)

lemma warm_verify_not_complete: "fst (warm_verify env epoch items w) \<noteq> Some Complete"
proof (induction items arbitrary: w)
  case (Cons item items)
  then show ?case
    by (auto simp: Let_def dest: verify_entries_invalid split: prod.splits option.splits verify_outcome.splits)
qed simp

lemma warm_pass:
  assumes "WarmMappedCaches env w = (Complete, w')" "orderly w" "views_ok (wm_cache w)"
    and "distinct (map fst (dc_caches (wm_cache w)))" "cfg_bPrefaultDecompCache (we_cfg env)"
  shows "dc_warmComplete (wm_cache w') \<and> views_ok (wm_cache w') \<and>
    distinct (map fst (dc_caches (wm_cache w'))) \<and>
    (\<forall>(a, c) \<in> set (dc_caches (wm_cache w')). \<forall>v. ac_view c = Some v \<and> \<not> ac_diskInvalidated c \<and>
       committed_bytes (dc_views (wm_cache w') ! v) \<noteq> 0 \<longrightarrow>
       warmed_bytes (dc_views (wm_cache w') ! v) = committed_bytes (dc_views (wm_cache w') ! v) \<and>
       (\<forall>(off, e) \<in> set (ac_index c). mv_verification (dc_views (wm_cache w') ! v) ! ce_slot e = kVerifyValid))"
proof -
  define w1 where "w1 = on_warm (count_if (cfg_bMeasureStats (we_cfg env)) dg_warmPassesStarted_update 1) w"
  define e where "e = dc_cacheEpoch (wm_cache w1)"
  define w2 where "w2 = observe w1"
  obtain cb rb found where sn: "warm_snapshot (wm_cache w2) (dc_caches (wm_cache w2)) 0 0 [] = Some (cb, rb, found)"
    using assms(1,5) by (auto simp: WarmMappedCaches_def Let_def simp flip: w1_def w2_def split: if_splits option.splits)
  define w3 where "w3 = on_warm (\<lambda>s. s\<lparr>dc_warmedBytes := cb - rb\<rparr>) w2"
  obtain st t w4 where t: "warm_touch env e (cb - rb) (sort_items found) 0 w3 = ((st, t), w4)"
    by (metis surj_pair)
  obtain st' w5 where v: "warm_verify env e (sort_items found) w4 = (st', w5)" by force
  have run: "st = None" "st' = None" "warm_publish env e cb w5 = (Complete, w')"
    using assms(1,5) sn t v warm_touch_not_complete [of env e "cb - rb" "sort_items found" 0 w3]
      warm_verify_not_complete [of env e "sort_items found" w4]
    by (auto simp: WarmMappedCaches_def Let_def simp flip: w1_def w2_def w3_def e_def
        split: if_splits option.splits)
  have o1: "orderly w1" "views_ok (wm_cache w1)" "distinct (map fst (dc_caches (wm_cache w1)))"
    using assms(2-4) views_ok_frames(4) by (simp_all add: w1_def orderly_def)
  have o2: "follows w1 w2" using observe_ok [OF o1(1), folded w2_def] by (simp add: follows_def)
  have o3: "follows w1 w3"
    using o2 steady_report [of "wm_cache w1" "wm_cache w2"] by (simp add: w3_def follows_def orderly_def)
  have items: "set (sort_items found) = item_of (wm_cache w2) ` set (filter (eligible (wm_cache w2)) (dc_caches (wm_cache w2)))"
    using warm_snapshot_items [OF sn] by simp
  have w3: "dc_caches (wm_cache w3) = dc_caches (wm_cache w2)" "dc_views (wm_cache w3) = dc_views (wm_cache w2)"
    "dc_cacheEpoch (wm_cache w3) = dc_cacheEpoch (wm_cache w2)"
    by (simp_all add: w3_def)
  have ok2: "views_ok (wm_cache w2)" using observe_views_ok [OF o1(1,2)] by (simp add: w2_def)
  then have ok3: "views_ok (wm_cache w3)" by (rule views_ok_frame) (simp_all add: w3)
  have own: "\<forall>item \<in> set (sort_items found). wi_owner item < length (dc_views (wm_cache w3))"
    using ok2 unfolding items w3 by (auto simp: item_of_def eligible_def views_ok_def split: option.splits)
  have e3: "e \<le> dc_cacheEpoch (wm_cache w3)" using follows_epoch [OF o3] by (simp add: e_def)
  have ord3: "orderly w3" using o3 by (simp add: follows_def)
  note t4 = warm_touch_ok [OF ord3 own t [unfolded run] e3]
  have ord4: "orderly w4" and f34: "follows w3 w4" using t4 by (simp_all add: follows_def)
  have e4: "e \<le> dc_cacheEpoch (wm_cache w4)" using follows_epoch [OF f34] e3 by simp
  have own4: "\<forall>item \<in> set (sort_items found). wi_owner item < length (dc_views (wm_cache w4))"
    using own follows_views [OF f34] by fastforce
  have ok4: "dc_cacheEpoch (wm_cache w4) = e \<longrightarrow> views_ok (wm_cache w4)"
  proof
    assume "dc_cacheEpoch (wm_cache w4) = e"
    then have "dc_cacheEpoch (wm_cache w4) = dc_cacheEpoch (wm_cache w3)"
      using e3 follows_epoch [OF f34] by simp
    with ok3 f34 show "views_ok (wm_cache w4)" by (auto simp: follows_def intro: views_ok_steady)
  qed
  note v5 = warm_verify_ok [OF ord4 own4 v [unfolded run] e4 ok4]
  have ord5: "orderly w5" and f45: "follows w4 w5" using v5 by (simp_all add: follows_def)
  obtain w6 where w6: "follows w5 w6" "dc_cacheEpoch (wm_cache w6) = e"
    "dc_views (wm_cache w') = dc_views (wm_cache w6)" "dc_caches (wm_cache w') = dc_caches (wm_cache w6)"
    "dc_cacheEpoch (wm_cache w') = e" "dc_warmComplete (wm_cache w')"
    using warm_publish_complete [OF run(3) ord5] by blast
  have ep: "dc_cacheEpoch (wm_cache w5) = e" "dc_cacheEpoch (wm_cache w4) = e" "dc_cacheEpoch (wm_cache w3) = e"
    using w6(2) e3 follows_epoch [OF f34] follows_epoch [OF f45] follows_epoch [OF w6(1)] by auto
  have st: "steady (wm_cache w3) (wm_cache w6)" "steady (wm_cache w4) (wm_cache w6)"
    "steady (wm_cache w5) (wm_cache w6)" "steady (wm_cache w1) (wm_cache w3)"
    using f34 f45 w6(1) o3 by (auto simp: follows_def intro: steady_trans)
  have ok5: "views_ok (wm_cache w5)"
    using views_ok_steady [of "wm_cache w4"] ok4 f45 ep by (simp add: follows_def)
  then have ok6: "views_ok (wm_cache w6)" by (rule views_ok_steady [OF _ st(3)]) (simp add: ep w6)
  have gen: "generations (wm_cache w6) = generations (wm_cache w3)" "generations (wm_cache w3) = generations (wm_cache w1)"
    using steadyD(1) [OF st(1)] steadyD(1) [OF st(4)] ep w6(2) by (simp_all add: e_def)
  have keys: "map fst (dc_caches s) = map fst (generations s)" for s
    by (simp add: generations_def comp_def case_prod_beta)
  have dist: "distinct (map fst (dc_caches (wm_cache w6)))" "distinct (map fst (dc_caches (wm_cache w3)))"
    using o1(3) by (simp_all only: keys gen)
  have main: "warmed_bytes (dc_views (wm_cache w6) ! v) = committed_bytes (dc_views (wm_cache w6) ! v) \<and>
      (\<forall>(off, e) \<in> set (ac_index c). mv_verification (dc_views (wm_cache w6) ! v) ! ce_slot e = kVerifyValid)"
    if c: "(a, c) \<in> set (dc_caches (wm_cache w6))" "ac_view c = Some v" "\<not> ac_diskInvalidated c"
      "committed_bytes (dc_views (wm_cache w6) ! v) \<noteq> 0" for a c v
  proof -
    have "(a, Some v, ac_index c, False) \<in> set (generations (wm_cache w3))"
      using c(1-3) unfolding gen(1) [symmetric] by (force simp: generations_def)
    then obtain c3 where c3: "(a, c3) \<in> set (dc_caches (wm_cache w3))" "ac_view c3 = Some v"
      "ac_index c3 = ac_index c" "\<not> ac_diskInvalidated c3"
      by (auto simp: generations_def)
    have v3: "v < length (dc_views (wm_cache w3))" using ok3 c3 by (auto simp: views_ok_def)
    have adv: "view_advances (dc_views (wm_cache w3) ! v) (dc_views (wm_cache w6) ! v)"
      using steadyD(3) [OF st(1) _ v3] ep w6(2) by simp
    have "eligible (wm_cache w2) (a, c3)"
      using c3 c(4) view_advances_sizes [OF adv] by (simp add: eligible_def w3)
    then have "item_of (wm_cache w2) (a, c3) \<in> set (sort_items found)"
      using c3(1) unfolding items w3 by auto
    then have it: "\<exists>item \<in> set (sort_items found). wi_archive item = a \<and> wi_owner item = v"
      using c3(2) by (intro bexI [of _ "item_of (wm_cache w2) (a, c3)"]) (simp_all add: item_of_def)
    then obtain item where item: "item \<in> set (sort_items found)" "wi_archive item = a" "wi_owner item = v" by blast
    have "warmed_bytes (dc_views (wm_cache w4) ! v) = committed_bytes (dc_views (wm_cache w4) ! v)"
      using t4 ep item by auto
    then have warm: "warmed_bytes (dc_views (wm_cache w6) ! v) = committed_bytes (dc_views (wm_cache w6) ! v)"
      using own4 item ep w6(2) by (intro fully_warm_stays [OF st(2)]) auto
    have "item_verified (wm_cache w5) item" using v5 ep(1) item(1) by blast
    then have "item_verified (wm_cache w6) item"
      by (rule item_verified_stays [OF _ ok5 st(3)]) (simp add: ep w6(2))
    moreover have "map_of (dc_caches (wm_cache w6)) a = Some c"
      using c(1) dist(1) by simp
    ultimately show ?thesis using warm item by (auto simp: item_verified_def map_of_generations)
  qed
  have "views_ok (wm_cache w')" by (rule views_ok_frame [OF ok6 w6(3,4)])
  moreover have "\<forall>(a, c) \<in> set (dc_caches (wm_cache w')). \<forall>v. ac_view c = Some v \<and> \<not> ac_diskInvalidated c \<and>
       committed_bytes (dc_views (wm_cache w') ! v) \<noteq> 0 \<longrightarrow>
       warmed_bytes (dc_views (wm_cache w') ! v) = committed_bytes (dc_views (wm_cache w') ! v) \<and>
       (\<forall>(off, e) \<in> set (ac_index c). mv_verification (dc_views (wm_cache w') ! v) ! ce_slot e = kVerifyValid)"
    unfolding w6(3,4) using main by blast
  ultimately show ?thesis using w6(6) dist(1) unfolding w6(4) by blast
qed

lemma committed_bytes_unat:
  assumes "mv_committedSize v \<le> mv_size v" "mv_size v < 2 ^ 64"
  shows "unat (committed_bytes v) = mv_committedSize v"
  using assms by (simp add: committed_bytes_def unat_min unat_of_nat take_bit_nat_eq_self)

lemma Lookup_verified:
  assumes "map_of (dc_caches s) a = Some c" "ac_view c = Some v" "\<not> ac_diskInvalidated c"
    and "\<not> mv_unusable (dc_views s ! v)" "map_of (ac_index c) off = Some e" "ce_size e \<noteq> 0"
    and "cfg_bPrefaultDecompCache cfg \<longrightarrow> IsRangeWarm (of_nat (ce_data e)) (u64_of_u32 (ce_size e))
      (of_nat (mv_committedSize (dc_views s ! v))) (of_nat (mv_prefaultedThrough (dc_views s ! v)))"
    and "mv_verification (dc_views s ! v) ! ce_slot e = kVerifyValid"
  shows "\<exists>s'. Lookup cfg env a off s = (\<lparr>lr_data = Some (ce_data e), lr_size = ce_size e, lr_owner = Some v\<rparr>, s') \<and>
    dg_checksumComputations (dc_diag s') = dg_checksumComputations (dc_diag s)"
proof -
  let ?s1 = "update_cache a (\<lambda>c. c\<lparr>ac_lastAccessMs := le_now env\<rparr>)
    (count_if (cfg_bMeasureStats cfg) dg_lookupAttempts_update 1 s)"
  have ver: "VerifyEntry (le_readable env) (if cfg_bMeasureStats cfg then le_ticks env else 0) (le_owner_valid env)
      (mv_base (dc_views ?s1 ! v)) e (mv_verification (dc_views ?s1 ! v) ! ce_slot e) =
      (verification_result True False False 0, kVerifyValid)"
    using assms(6,8) by (simp add: VerifyEntry_def)
  have "Lookup cfg env a off s = makeResult cfg env a v e ?s1"
    using assms by (auto simp: Lookup_def Let_def)
  then show ?thesis
    using ver by (simp add: makeResult_def verify_in_view_def Let_def count_if_def update_view_def update_cache_def)
qed


section \<open>Interrupted passes\<close>

text \<open>The outcomes after which the worker must come back.\<close>

definition must_repeat :: "warm_status \<Rightarrow> bool" where
  "must_repeat st \<longleftrightarrow> st \<in> {Interrupted LoadStarted, Interrupted FlushWanted, Interrupted EpochMoved, PublishRace}"

lemma finishPass_requested [simp]:
  "dc_warmRequested (wm_cache (finishPass env k w)) = dc_warmRequested (wm_cache w)"
  by (simp add: finishPass_def Let_def count_if_def split: option.splits)

lemma request_warmup_requested:
  "cfg_bPrefaultDecompCache (we_cfg env) \<Longrightarrow> dc_warmRequested (wm_cache (request_warmup env w))"
  by (simp add: request_warmup_def RequestWarmup_def Let_def)

lemma interrupt_pass_requested:
  "interrupt_pass env i w = (st, w') \<Longrightarrow> must_repeat st \<Longrightarrow> cfg_bPrefaultDecompCache (we_cfg env) \<Longrightarrow>
     dc_warmRequested (wm_cache w')"
  by (cases i) (auto simp: interrupt_pass_def must_repeat_def request_warmup_requested)

lemma warm_chunks_requested:
  "warm_chunks env epoch prev owner committed cursor touched w = ((Some st, t), w') \<Longrightarrow> must_repeat st \<Longrightarrow>
     cfg_bPrefaultDecompCache (we_cfg env) \<Longrightarrow> dc_warmRequested (wm_cache w')"
proof (induction env epoch prev owner committed cursor touched w arbitrary: t w' rule: warm_chunks.induct)
  case (1 env epoch prev owner committed cursor touched w)
  obtain r w1 where i: "interrupted epoch w = (r, w1)" by force
  show ?case
    using "1.prems" "1.IH" [OF _ i [symmetric]]
    by (subst (asm) warm_chunks.simps)
      (auto simp: i Let_def must_repeat_def dest: interrupt_pass_requested split: option.splits prod.splits if_splits)
qed

lemma warm_touch_requested:
  "warm_touch env epoch prev items touched w = ((Some st, t), w') \<Longrightarrow> must_repeat st \<Longrightarrow>
     cfg_bPrefaultDecompCache (we_cfg env) \<Longrightarrow> dc_warmRequested (wm_cache w')"
  by (induction items arbitrary: touched w)
    (auto simp: Let_def dest: warm_chunks_requested split: prod.splits option.splits)

lemma verify_entries_failure:
  "verify_entries env epoch a owner es w = (InvalidEntry st, w') \<Longrightarrow> \<not> must_repeat st"
  by (induction es arbitrary: w)
    (auto simp: Let_def must_repeat_def split: prod.splits option.splits if_splits)

lemma warm_verify_requested:
  "warm_verify env epoch items w = (Some st, w') \<Longrightarrow> must_repeat st \<Longrightarrow>
     cfg_bPrefaultDecompCache (we_cfg env) \<Longrightarrow> dc_warmRequested (wm_cache w')"
  by (induction items arbitrary: w)
    (auto simp: Let_def dest: interrupt_pass_requested verify_entries_failure
      split: prod.splits option.splits verify_outcome.splits if_splits)

lemma warm_publish_requested:
  assumes "warm_publish env epoch cb w = (st, w')" "must_repeat st" "orderly w"
    and "cfg_bPrefaultDecompCache (we_cfg env)"
  shows "dc_warmRequested (wm_cache w')"
proof -
  define w1 where "w1 = observe w"
  define w2 where "w2 = observe w1"
  define w3 where "w3 = observe w2"
  define w4 where "w4 = observe (request_warmup env w3)"
  define w5 where "w5 = observe w4"
  have o3: "orderly w3"
    using observe_ok assms(3) by (simp add: w1_def w2_def w3_def)
  then have o: "orderly (request_warmup env w3)" by (simp add: orderly_def request_warmup_def)
  have r4: "dc_warmRequested (wm_cache w4)" "orderly w4"
    using observe_flags [OF o] observe_ok [OF o] request_warmup_requested [OF assms(4)]
    by (auto simp: w4_def keeps_flags_def)
  then have r5: "dc_warmRequested (wm_cache w5)"
    using observe_flags [OF r4(2)] by (auto simp: w5_def keeps_flags_def)
  show ?thesis
    using assms r4 r5 interrupt_pass_requested
    by (auto simp: warm_publish_def publishComplete_def Let_def must_repeat_def
        simp flip: w1_def w2_def w3_def w4_def w5_def split: if_splits)
qed

section \<open>What holds between the states of a pass\<close>

lemma Report_started [simp]: "dc_backgroundStarted (ReportMappingIoFailure cfg q owner s) = dc_backgroundStarted s"
  by (auto simp: ReportMappingIoFailure_def invalidate_cache_def Let_def split: option.splits prod.splits)

lemma verify_started: "verify_in_view cfg env v e s = (ver, s') \<Longrightarrow> dc_backgroundStarted s' = dc_backgroundStarted s"
  by (auto simp: verify_in_view_def Let_def split: prod.splits)

text \<open>
  A reflexive and transitive relation that holds across every read of a flag, every change of the
  archives and every change of the cache the pass makes, holds between the ends of the pass.
\<close>

locale pass_relation =
  fixes R :: "warm \<Rightarrow> warm \<Rightarrow> bool"
  assumes stays [simp]: "R w w" and trans: "R u v \<Longrightarrow> R v w \<Longrightarrow> R u w"
    and observe: "R w (observe w)" and archives: "R w (w\<lparr>wm_archives := ar\<rparr>)"
    and cache: "dc_backgroundStarted s = dc_backgroundStarted (wm_cache w) \<Longrightarrow> R w (w\<lparr>wm_cache := s\<rparr>)"
begin

lemma on_warm: "(\<And>s. dc_backgroundStarted (f s) = dc_backgroundStarted s) \<Longrightarrow> R w (on_warm f w)"
  unfolding on_warm_def by (rule cache) simp

lemma finish: "R w (finishPass env k w)"
  unfolding finishPass_def by (rule on_warm) (simp add: Let_def split: option.splits)

lemma request: "R w (request_warmup env w)"
  unfolding request_warmup_def by (rule on_warm) simp

lemma observed: "R w w' \<Longrightarrow> R w (observe w')"
  using observe trans by blast

lemma interrupted: "interrupted epoch w = (r, w') \<Longrightarrow> R w w'"
  by (auto simp: interrupted_def Let_def intro!: observed split: if_splits)

lemma requested: "R w (finishPass env k (request_warmup env w))"
  by (rule trans [OF request finish])

lemma passed: "interrupt_pass env i w = (st, w') \<Longrightarrow> R w w'"
  by (auto simp: interrupt_pass_def intro: finish requested split: interruption.splits)

lemma chunks:
  "warm_chunks env epoch prev owner committed cursor touched w = (x, w') \<Longrightarrow> R w w'"
proof (induction env epoch prev owner committed cursor touched w arbitrary: x w' rule: warm_chunks.induct)
  case (1 env epoch prev owner committed cursor touched w)
  obtain r w1 where i: "interrupted epoch w = (r, w1)" by force
  have s1: "R w w1" by (rule interrupted [OF i])
  let ?chunk = "min kWarmChunkBytes (committed - cursor)"
  let ?f = "\<lambda>s. update_view owner (\<lambda>v. v\<lparr>mv_prefaultedThrough := unat (cursor + ?chunk)\<rparr>)
      ((count_if (cfg_bMeasureStats (we_cfg env)) dg_warmBytesTouched_update ?chunk s)
         \<lparr>dc_warmedBytes := prev + (touched + ?chunk)\<rparr>)"
  let ?g = "ReportMappingIoFailure (we_cfg env) (we_qpc env) (Some owner)"
  have f: "R w1 (on_warm ?f w1)" by (rule on_warm) simp
  have g: "R w1 (finishPass env k (on_warm ?g w1))" for k by (rule trans [OF on_warm finish]) simp
  show ?case
  proof (cases "cursor < committed \<and> r = None \<and>
      TouchMappedPages (we_faults env owner) True cursor (cursor + ?chunk) (we_pageSize env)")
    case True
    then have run: "warm_chunks env epoch prev owner committed (cursor + ?chunk) (touched + ?chunk) (on_warm ?f w1) = (x, w')"
      using "1.prems" by (subst (asm) warm_chunks.simps) (simp add: i Let_def)
    have "R (on_warm ?f w1) w'"
      by (rule "1.IH" [OF _ i [symmetric] _ refl _ refl refl run]) (use True in simp_all)
    then show ?thesis using s1 f trans by blast
  next
    case False
    then consider "w' = w" | st where "interrupt_pass env st w1 = (the (fst x), w')"
      | k where "w' = finishPass env k (on_warm ?g w1)"
      using "1.prems" by (subst (asm) warm_chunks.simps)
        (auto simp: i Let_def split: option.splits prod.splits if_splits)
    then show ?thesis by cases (use s1 g trans passed stays in blast)+
  qed
qed

lemma touch: "warm_touch env epoch prev items touched w = (x, w') \<Longrightarrow> R w w'"
  by (induction items arbitrary: touched w)
    (auto simp: Let_def dest!: chunks intro: trans split: prod.splits option.splits)

lemma entries: "verify_entries env epoch a owner es w = (x, w') \<Longrightarrow> R w w'"
proof (induction es arbitrary: w)
  case (Cons p es)
  obtain r w1 where i: "interrupted epoch w = (r, w1)" by force
  have s1: "R w w1" by (rule interrupted [OF i])
  show ?case
  proof (cases r)
    case None
    obtain off e where p: "p = (off, e)" by force
    obtain auth ar where g: "GetDeclaredDecompressedSize (we_io env) (wm_archives w1 a) off = (auth, ar)" by force
    define w2 where "w2 = w1\<lparr>wm_archives := (wm_archives w1)(a := ar)\<rparr>"
    obtain ver s where v: "verify_in_view (we_cfg env) (we_lookup env) owner e (wm_cache w2) = (ver, s)" by force
    let ?w3 = "w2\<lparr>wm_cache := s\<rparr>"
    have s2: "R w w2" using trans [OF s1 archives] by (simp add: w2_def)
    then have s3: "R w ?w3" using trans cache [OF verify_started [OF v]] by blast
    have s4: "R w (on_warm (count_if True dg_checksumFailures_update 1) ?w3)"
      by (rule trans [OF s3 on_warm]) simp
    consider "w' = w2" | "w' = on_warm (count_if True dg_checksumFailures_update 1) ?w3"
      | "verify_entries env epoch a owner es ?w3 = (x, w')"
      using Cons.prems i None p g v by (auto simp: Let_def simp flip: w2_def split: if_splits)
    then show ?thesis
      by cases (use s2 s3 s4 Cons.IH trans in blast)+
  next
    case (Some x)
    then show ?thesis using Cons.prems i s1 by (cases p) auto
  qed
qed simp

lemma verify: "warm_verify env epoch items w = (x, w') \<Longrightarrow> R w w'"
proof (induction items arbitrary: w)
  case (Cons item items)
  obtain r w1 where i: "interrupted epoch w = (r, w1)" by force
  have s1: "R w w1" by (rule interrupted [OF i])
  let ?g = "ReportCacheValidationFailure (we_cfg env) (we_qpc env) (Some (wi_owner item))"
  consider j st where "interrupt_pass env j w1 = (st, w')"
    | c :: ArchiveCache and out w2 r3 w3 where "verify_entries env epoch (wi_archive item) (wi_owner item) (ac_index c) w1 = (out, w2)"
        "interrupted epoch w2 = (r3, w3)" "(\<exists>st. interrupt_pass env EpochMoved w3 = (st, w')) \<or>
          warm_verify env epoch items w3 = (x, w') \<or> w' = finishPass env None (on_warm ?g w2)"
  proof (cases r)
    case (Some y)
    then obtain st where "interrupt_pass env y w1 = (st, w')"
      using Cons.prems i by (auto split: prod.splits)
    then show ?thesis by (rule that(1))
  next
    case None
    show ?thesis
    proof (cases "\<exists>c. map_of (dc_caches (wm_cache w1)) (wi_archive item) = Some c \<and>
        ac_view c = Some (wi_owner item) \<and> \<not> ac_diskInvalidated c")
      case True
      then obtain c where c: "map_of (dc_caches (wm_cache w1)) (wi_archive item) = Some c"
        "ac_view c = Some (wi_owner item)" "\<not> ac_diskInvalidated c" by blast
      obtain out w2 where v: "verify_entries env epoch (wi_archive item) (wi_owner item) (ac_index c) w1 = (out, w2)"
        by force
      obtain r3 w3 where i3: "interrupted epoch w2 = (r3, w3)" by force
      show ?thesis
        by (rule that(2) [OF v i3])
          (use Cons.prems i None c v i3 in
            \<open>auto simp: Let_def split: verify_outcome.splits option.splits prod.splits\<close>)
    next
      case False
      then obtain st where "interrupt_pass env EpochMoved w1 = (st, w')"
        using Cons.prems i None
        by (auto simp: Let_def split: option.splits if_splits prod.splits)
      then show ?thesis by (rule that(1))
    qed
  qed
  then show ?case
  proof cases
    case 1
    then show ?thesis using s1 passed trans by blast
  next
    case 2
    have s23: "R w w2" "R w w3"
      using s1 entries [OF 2(1)] interrupted [OF 2(2)] by (blast intro: trans)+
    have "R w2 (finishPass env None (on_warm ?g w2))"
      by (rule trans [OF on_warm finish]) (simp add: ReportCacheValidationFailure_def)
    then show ?thesis
      using 2(3) Cons.IH s23 passed trans by metis
  qed
qed simp

lemma published: "publishComplete epoch n w = (b, w') \<Longrightarrow> R w w'" "R w (publishFailure epoch w)"
proof -
  have f: "R w (on_warm (\<lambda>s. s\<lparr>dc_warmedBytes := m, dc_warmComplete := c\<rparr>) (observe w))" for m c
    by (rule trans [OF observe on_warm]) simp
  show "publishComplete epoch n w = (b, w') \<Longrightarrow> R w w'" "R w (publishFailure epoch w)"
    using f observe by (auto simp: publishComplete_def publishFailure_def Let_def split: if_splits)
qed

lemma publish: "warm_publish env epoch n w = (st, w') \<Longrightarrow> R w w'"
proof -
  assume p: "warm_publish env epoch n w = (st, w')"
  define w1 where "w1 = observe w"
  define w2 where "w2 = observe w1"
  obtain b w3 where 3: "publishComplete epoch n w2 = (b, w3)" by force
  define w4 where "w4 = observe (request_warmup env w3)"
  define w5 where "w5 = observe w4"
  let ?c = "on_warm (count_if (cfg_bMeasureStats (we_cfg env)) dg_warmPassesCompleted_update 1) w3"
  have r: "R w w1" "R w w2" unfolding w1_def w2_def using observe trans by blast+
  then have r3: "R w w3" using published(1) [OF 3] trans by blast
  then have r45: "R w w4" "R w w5" unfolding w4_def w5_def using observe request trans by blast+
  have "R w3 ?c" by (rule on_warm) simp
  then have r6: "R w ?c" using r3 trans by blast
  consider i where "interrupt_pass env i w1 = (st, w')" | i where "interrupt_pass env i w2 = (st, w')"
    | "w' = finishPass env None ?c" | k where "w' = finishPass env k w4" | k where "w' = finishPass env k w5"
    using p unfolding warm_publish_def Let_def w1_def [symmetric] w2_def [symmetric] 3 prod.case
      w4_def [symmetric] w5_def [symmetric]
    by (cases b) (auto split: if_splits)
  then show "R w w'"
    by cases (use r r45 r6 passed finish trans in blast)+
qed

lemma pass: "WarmMappedCaches env w = (st, w') \<Longrightarrow> R w w'"
proof -
  assume p: "WarmMappedCaches env w = (st, w')"
  define w1 where "w1 = on_warm (count_if (cfg_bMeasureStats (we_cfg env)) dg_warmPassesStarted_update 1) w"
  define e where "e = dc_cacheEpoch (wm_cache w1)"
  define w2 where "w2 = observe w1"
  have "R w w1" unfolding w1_def by (rule on_warm) simp
  then have r2: "R w w2" unfolding w2_def using observe trans by blast
  have off: "R w (on_warm (\<lambda>s. s\<lparr>dc_warmedBytes := 0, dc_warmComplete := True\<rparr>) w)" by (rule on_warm) simp
  have refuse: "R w (finishPass env None (publishFailure e x))" if "R w x" for x
    using that published(2) finish trans by blast
  have r3: "R w (on_warm (\<lambda>s. s\<lparr>dc_warmedBytes := n\<rparr>) w2)" for n by (rule trans [OF r2 on_warm]) simp
  have run: "R w w'" if "(case warm_touch env e n items 0 (on_warm (\<lambda>s. s\<lparr>dc_warmedBytes := n\<rparr>) w2) of
      ((Some status, _), w4) \<Rightarrow> (status, w4)
    | ((None, _), w4) \<Rightarrow> (case warm_verify env e items w4 of
         (Some status, w5) \<Rightarrow> (status, w5)
       | (None, w5) \<Rightarrow> warm_publish env e m w5)) = (st, w')" for n items m
  proof -
    obtain r4 t w4 where t: "warm_touch env e n items 0 (on_warm (\<lambda>s. s\<lparr>dc_warmedBytes := n\<rparr>) w2) = ((r4, t), w4)"
      by (metis surj_pair)
    obtain r5 w5 where v: "warm_verify env e items w4 = (r5, w5)" by force
    have r: "R w w4" "R w w5" using r3 touch [OF t] verify [OF v] trans by blast+
    then show ?thesis
      using that trans [OF r(2) publish] unfolding t by (cases r4; cases r5) (simp_all add: v)
  qed
  show "R w w'"
    using p r2 r3 off refuse run unfolding WarmMappedCaches_def Let_def w1_def [symmetric] e_def [symmetric] w2_def [symmetric]
    by (auto split: if_splits option.splits)
qed

end

text \<open>The script of the other threads only gets shorter.\<close>

definition same_script :: "warm \<Rightarrow> warm \<Rightarrow> bool" where
  "same_script w w' \<longleftrightarrow> set (wm_others w') \<subseteq> set (wm_others w)"

lemma same_script_orderly: "same_script w w' \<Longrightarrow> orderly w \<Longrightarrow> orderly w'"
  by (auto simp: same_script_def orderly_def)

interpretation script: pass_relation same_script
  by unfold_locales (auto simp: same_script_def observe_def on_warm_def split: list.splits)

text \<open>Only the worker itself says that it has started.\<close>

definition same_start :: "warm \<Rightarrow> warm \<Rightarrow> bool" where
  "same_start w w' \<longleftrightarrow> set (wm_others w') \<subseteq> set (wm_others w) \<and>
     ((\<forall>(b, f) \<in> set (wm_others w). \<forall>s. dc_backgroundStarted (f s) = dc_backgroundStarted s) \<longrightarrow>
        dc_backgroundStarted (wm_cache w') = dc_backgroundStarted (wm_cache w))"

interpretation start: pass_relation same_start
proof
  show "same_start u w" if "same_start u v" "same_start v w" for u v w
    using that unfolding same_start_def by (auto 4 3)
  show "same_start w (observe w)" for w
    by (auto simp: same_start_def observe_def on_warm_def split: list.splits)
qed (auto simp: same_start_def)

text \<open>
  No pass is lost: when a load screen, a flush request, a new generation or a race at the
  publication ends a pass, another warm pass is requested when it returns.
\<close>

theorem interrupted_pass_repeats:
  assumes "WarmMappedCaches env w = (st, w')" "must_repeat st" "orderly w"
  shows "dc_warmRequested (wm_cache w')"
proof -
  have pre: "cfg_bPrefaultDecompCache (we_cfg env)"
    using assms(1,2) by (auto simp: WarmMappedCaches_def must_repeat_def Let_def split: if_splits)
  define w1 where "w1 = on_warm (count_if (cfg_bMeasureStats (we_cfg env)) dg_warmPassesStarted_update 1) w"
  define e where "e = dc_cacheEpoch (wm_cache w1)"
  define w2 where "w2 = observe w1"
  obtain cb rb found where sn: "warm_snapshot (wm_cache w2) (dc_caches (wm_cache w2)) 0 0 [] = Some (cb, rb, found)"
    using assms(1,2) pre
    by (auto simp: WarmMappedCaches_def Let_def must_repeat_def simp flip: w1_def w2_def split: if_splits option.splits)
  define w3 where "w3 = on_warm (\<lambda>s. s\<lparr>dc_warmedBytes := cb - rb\<rparr>) w2"
  obtain r4 t w4 where t: "warm_touch env e (cb - rb) (sort_items found) 0 w3 = ((r4, t), w4)"
    by (metis surj_pair)
  obtain r5 w5 where v: "warm_verify env e (sort_items found) w4 = (r5, w5)" by force
  have "same_script w w3" using script.observe [of w1] by (simp add: w3_def w2_def w1_def same_script_def)
  then have o5: "orderly w5"
    using script.touch [OF t] script.verify [OF v] assms(3)
    by (meson script.trans same_script_orderly)
  consider "(r4, w4) = (Some st, w')" | "(r5, w5) = (Some st, w')" | "warm_publish env e cb w5 = (st, w')"
    using assms(1,2) pre sn t v
    by (auto simp: WarmMappedCaches_def Let_def must_repeat_def simp flip: w1_def w2_def w3_def e_def
        split: if_splits option.splits)
  then show ?thesis
    by cases (use assms(2) pre t v o5 warm_touch_requested warm_verify_requested warm_publish_requested in auto)
qed

end
