(* ===== verification/DecompWorker.thy ===== *)
theory DecompWorker
  imports DecompWarmProofs
begin

text \<open>
  The managed worker of the decompression cache (\<open>StartBackgroundFlush\<close>, the loop of its thread
  and the shutdown by \<open>DecompCache::~DecompCache\<close>) with the threads that send it requests.
  The predicate of the wait is evaluated under the worker's lock, every change of the flags it
  reads is made under that lock, and the notification that follows is a step of its own, so that
  the worker may be anywhere when it arrives.
\<close>

section \<open>The thread\<close>

text \<open>\<open>Asleep\<close> is the wait, with whether the thread was notified; in \<open>Woken\<close> the thread has left the
  wait and holds the lock; \<open>Deciding\<close> holds the signals of a turn, \<open>Flushed\<close> its warm signal.\<close>

datatype worker_pc = NotStarted | Entering | Asleep bool | Woken | Deciding bool bool | Flushed bool | Stopped

record worker =
  wt_world :: world
  wt_archives :: "nat \<Rightarrow> MappedArchive"
  wt_stop :: bool
  wt_pc :: worker_pc
  wt_notifies :: nat

definition on_state :: "(DecompCache \<Rightarrow> DecompCache) \<Rightarrow> worker \<Rightarrow> worker" where
  "on_state f k = k\<lparr>wt_world := on_cache f (wt_world k)\<rparr>"

definition state_of :: "worker \<Rightarrow> DecompCache" where
  "state_of k = wd (wt_world k)"

definition has_work :: "DecompCache \<Rightarrow> bool" where
  "has_work s \<longleftrightarrow> \<not> dc_loadActive s \<and> (dc_flushRequested s \<or> dc_warmRequested s)"

definition wake_condition :: "worker \<Rightarrow> bool" where
  "wake_condition k \<longleftrightarrow> wt_stop k \<or> has_work (state_of k)"

text \<open>The end of the thread, after the loop or after an exception.\<close>

definition worker_leave :: "worker \<Rightarrow> worker" where
  "worker_leave k =
     (let k1 = (if wt_stop k then k else on_state (\<lambda>s. s\<lparr>dc_building := False\<rparr>) k)
      in (on_state (\<lambda>s. s\<lparr>dc_backgroundStarted := False\<rparr>) k1)\<lparr>wt_pc := Stopped\<rparr>)"

text \<open>The test of the loop and the first evaluation of the predicate.\<close>

definition worker_test :: "worker \<Rightarrow> worker" where
  "worker_test k =
     (if wt_stop k then worker_leave k
      else if wake_condition k then k\<lparr>wt_pc := Woken\<rparr> else k\<lparr>wt_pc := Asleep False\<rparr>)"

definition worker_recheck :: "worker \<Rightarrow> worker" where
  "worker_recheck k = (if wake_condition k then k\<lparr>wt_pc := Woken\<rparr> else k\<lparr>wt_pc := Asleep False\<rparr>)"

definition worker_take :: "worker \<Rightarrow> worker" where
  "worker_take k =
     (let s = state_of k in
      if wt_stop k then worker_leave k
      else if dc_loadActive s then k\<lparr>wt_pc := Entering\<rparr>
      else (on_state (\<lambda>s. s\<lparr>dc_flushRequested := False, dc_warmRequested := False\<rparr>) k)
             \<lparr>wt_pc := Deciding (dc_flushRequested s) (dc_warmRequested s)\<rparr>)"

definition flush_needed :: "CacheSettings \<Rightarrow> bool \<Rightarrow> DecompCache \<Rightarrow> bool" where
  "flush_needed cfg flushSignal s \<longleftrightarrow>
     flushSignal \<or> HasPending s \<or> over_cap cfg s \<or> dc_requiredHeadroom s > 0 \<or>
     dc_committedReservations s > 0 \<or> HasInvalidGeneration s"

text \<open>The flush meets the flips of the load flag and the results of system calls of the scripts.\<close>

definition worker_flush :: "host \<Rightarrow> bool list \<Rightarrow> outcome list \<Rightarrow> bool \<Rightarrow> bool \<Rightarrow> worker \<Rightarrow> worker" where
  "worker_flush h loads sys flushSignal warmSignal k =
     (if flush_needed (ho_cfg h) flushSignal (state_of k)
      then k\<lparr>wt_world := (FlushToDisk h ((wt_world k)\<lparr>wd_loads := loads, wd_sys := sys\<rparr>))\<lparr>wd_loads := [], wd_sys := []\<rparr>\<rparr>
      else k)\<lparr>wt_pc := Flushed warmSignal\<rparr>"

definition worker_warm :: "warm_env \<Rightarrow> (bool \<times> (DecompCache \<Rightarrow> DecompCache)) list \<Rightarrow> bool \<Rightarrow> worker \<Rightarrow> worker" where
  "worker_warm env others warmSignal k =
     (let warmAfterFlush = dc_warmRequested (state_of k);
          k1 = on_state (\<lambda>s. s\<lparr>dc_warmRequested := False\<rparr>) k; s = state_of k1
      in (if cfg_bPrefaultDecompCache (we_cfg env) \<and> \<not> dc_loadActive s \<and>
             (warmSignal \<or> warmAfterFlush \<or> \<not> dc_warmComplete s)
          then let w = snd (WarmMappedCaches env
                 \<lparr>wm_cache = s, wm_archives = wt_archives k1, wm_stop = wt_stop k1, wm_others = others\<rparr>)
               in k1\<lparr>wt_world := (wt_world k1)\<lparr>wd := wm_cache w\<rparr>, wt_archives := wm_archives w, wt_stop := wm_stop w\<rparr>
          else k1)\<lparr>wt_pc := Entering\<rparr>)"

section \<open>Other threads\<close>

text \<open>The first half of \<open>SetLoadActive\<close>, under the lock.\<close>

definition load_exchange :: "bool \<Rightarrow> DecompCache \<Rightarrow> DecompCache" where
  "load_exchange b s =
     (let s1 = s\<lparr>dc_loadActive := b\<rparr>
      in if dc_loadActive s \<noteq> b then s1\<lparr>dc_notifies := dc_notifies s1 + 1\<rparr> else s1)"

lemma SetLoadActive_exchange:
  "SetLoadActive cfg q b s = (if dc_loadActive s \<and> \<not> b
     then RequestWarmup cfg q (RequestFlush (load_exchange b s)) else load_exchange b s)"
  by (simp add: SetLoadActive_def load_exchange_def Let_def)

datatype cache_call =
    CallRequestFlush
  | CallRequestWarmup u64
  | CallLoad bool
  | CallLookup lookup_env nat u32
  | CallReport u64 "nat option"
  | CallRecord record_env "nat option" u32 bytes

definition call_effect :: "CacheSettings \<Rightarrow> (nat \<Rightarrow> MappedArchive) \<Rightarrow> cache_call \<Rightarrow> DecompCache \<Rightarrow> DecompCache" where
  "call_effect cfg archives c s =
     (case c of
        CallRequestFlush \<Rightarrow> RequestFlush s
      | CallRequestWarmup q \<Rightarrow> RequestWarmup cfg q s
      | CallLoad b \<Rightarrow> load_exchange b s
      | CallLookup env a off \<Rightarrow> snd (Lookup cfg env a off s)
      | CallReport q owner \<Rightarrow> ReportMappingIoFailure cfg q owner s
      | CallRecord env a off payload \<Rightarrow> snd (RecordDecompressed cfg env archives a off payload s))"

text \<open>A change of the cache by another thread; the notifications it sends are still under way.\<close>

definition post :: "(DecompCache \<Rightarrow> DecompCache) \<Rightarrow> worker \<Rightarrow> worker" where
  "post f k =
     (let k1 = on_state f k
      in k1\<lparr>wt_notifies := wt_notifies k1 + (dc_notifies (state_of k1) - dc_notifies (state_of k))\<rparr>)"

definition deliver :: "worker \<Rightarrow> worker" where
  "deliver k = k\<lparr>wt_notifies := wt_notifies k - 1,
     wt_pc := (case wt_pc k of Asleep b \<Rightarrow> Asleep True | pc \<Rightarrow> pc)\<rparr>"

text \<open>\<open>request_stop\<close> and the load flag of the destructor, with its notification.\<close>

definition shut_down :: "worker \<Rightarrow> worker" where
  "shut_down k = (on_state (\<lambda>s. s\<lparr>dc_loadActive := True\<rparr>) k)\<lparr>wt_stop := True, wt_notifies := wt_notifies k + 1\<rparr>"

definition StartBackgroundFlush :: "CacheSettings \<Rightarrow> u64 \<Rightarrow> bool \<Rightarrow> worker \<Rightarrow> worker" where
  "StartBackgroundFlush cfg q creationThrows k =
     (let s = state_of k in
      if \<not> dc_building s \<and> \<not> HasPending s \<and> \<not> dc_ready s then k
      else if dc_backgroundStarted s then post (RequestWarmup cfg q) (post RequestFlush k)
      else
        let k1 = on_state (\<lambda>s. s\<lparr>dc_backgroundStarted := True\<rparr>) k in
        if creationThrows then on_state (\<lambda>s. s\<lparr>dc_backgroundStarted := False, dc_building := False\<rparr>) k1
        else
          let k2 = post RequestFlush (k1\<lparr>wt_pc := Entering, wt_stop := False\<rparr>)
          in if cfg_bPrefaultDecompCache cfg then post (RequestWarmup cfg q) k2 else k2)"

section \<open>Steps\<close>

text \<open>The steps of the worker itself.\<close>

inductive thread_step :: "CacheSettings \<Rightarrow> worker \<Rightarrow> worker \<Rightarrow> bool" for cfg where
  Test: "wt_pc k = Entering \<Longrightarrow> thread_step cfg k (worker_test k)"
| Recheck: "wt_pc k = Asleep True \<Longrightarrow> thread_step cfg k (worker_recheck k)"
| Take: "wt_pc k = Woken \<Longrightarrow> thread_step cfg k (worker_take k)"
| Flush: "wt_pc k = Deciding f w \<Longrightarrow> ho_cfg h = cfg \<Longrightarrow> ho_archives h = wt_archives k \<Longrightarrow>
    thread_step cfg k (worker_flush h loads sys f w k)"
| Warm: "wt_pc k = Flushed w \<Longrightarrow> we_cfg env = cfg \<Longrightarrow>
    others = map (\<lambda>(stop, c). (stop, if stop then load_exchange True else call_effect cfg (wt_archives k) c)) calls \<Longrightarrow>
    thread_step cfg k (worker_warm env others w k)"

text \<open>Steps of others: a call finds the lock free, a notification arrives, the clock ends the wait, an
  exception ends the worker, a thread of the game starts it, and the process shuts down.\<close>

inductive other_step :: "CacheSettings \<Rightarrow> worker \<Rightarrow> worker \<Rightarrow> bool" for cfg where
  Calls: "wt_pc k \<noteq> Woken \<Longrightarrow> other_step cfg k (post (call_effect cfg (wt_archives k) c) k)"
| Notified: "wt_notifies k > 0 \<Longrightarrow> other_step cfg k (deliver k)"
| TimedOut: "wt_pc k = Asleep b \<Longrightarrow> other_step cfg k (k\<lparr>wt_pc := Woken\<rparr>)"
| Failed: "wt_pc k \<in> {Entering, Woken} \<or> (\<exists>f w. wt_pc k = Deciding f w) \<or> (\<exists>w. wt_pc k = Flushed w) \<Longrightarrow>
    other_step cfg k (worker_leave k)"
| Starts: "wt_pc k \<noteq> Woken \<Longrightarrow> \<not> wt_stop k \<Longrightarrow> other_step cfg k (StartBackgroundFlush cfg q throws k)"
| ShutsDown: "wt_pc k \<noteq> Woken \<Longrightarrow> wt_pc k \<noteq> NotStarted \<Longrightarrow> other_step cfg k (shut_down k)"

inductive worker_reach :: "CacheSettings \<Rightarrow> worker \<Rightarrow> bool" for cfg where
  Initially: "wt_pc k = NotStarted \<Longrightarrow> \<not> wt_stop k \<Longrightarrow> \<not> dc_backgroundStarted (state_of k) \<Longrightarrow> worker_reach cfg k"
| Thread: "worker_reach cfg k \<Longrightarrow> thread_step cfg k k' \<Longrightarrow> worker_reach cfg k'"
| Other: "worker_reach cfg k \<Longrightarrow> other_step cfg k k' \<Longrightarrow> worker_reach cfg k'"

section \<open>Every change that wakes is notified\<close>

definition wakes :: "DecompCache \<Rightarrow> DecompCache \<Rightarrow> bool" where
  "wakes s s' \<longleftrightarrow> dc_notifies s \<le> dc_notifies s' \<and> (has_work s' \<and> \<not> has_work s \<longrightarrow> dc_notifies s < dc_notifies s')"

definition same_signals :: "DecompCache \<Rightarrow> DecompCache \<Rightarrow> bool" where
  "same_signals s s' \<longleftrightarrow> dc_loadActive s' = dc_loadActive s \<and> dc_flushRequested s' = dc_flushRequested s \<and>
     dc_warmRequested s' = dc_warmRequested s \<and> dc_notifies s' = dc_notifies s"

named_theorems signals

lemma wakes_trans: "wakes s t \<Longrightarrow> wakes t u \<Longrightarrow> wakes s u"
  by (auto simp: wakes_def)

lemma same_wakes: "same_signals s s' \<Longrightarrow> wakes s s'"
  by (auto simp: same_signals_def wakes_def has_work_def)

lemma wakes_requests: "wakes s (RequestFlush s)" "wakes s (RequestWarmup cfg q s)" "wakes s (load_exchange b s)"
  by (auto simp: wakes_def has_work_def RequestFlush_def RequestWarmup_def load_exchange_def Let_def count_if_def)

lemma wakes_both: "same_signals s t \<Longrightarrow> wakes s (RequestWarmup cfg q (RequestFlush t))"
  by (blast intro: wakes_trans same_wakes wakes_requests)

lemma same_signals_base [signals]:
  "same_signals s (count_if b k n t) = same_signals s t" "same_signals s (update_view v g t) = same_signals s t"
  "same_signals s (update_cache a h t) = same_signals s t" "same_signals s (next_epoch t) = same_signals s t"
  "same_signals s (raise_headroom m t) = same_signals s t" "same_signals s s"
  "same_signals s (t\<lparr>dc_lastOverCapNotifyMs := l\<rparr>) = same_signals s t" "same_signals s (t\<lparr>dc_pendingBytes := l\<rparr>) = same_signals s t"
  by (simp_all add: same_signals_def count_if_def update_view_def update_cache_def next_epoch_def raise_headroom_def)

lemma same_signals_invalidate: "invalidate_cache a t = (b, t') \<Longrightarrow> same_signals s t' = same_signals s t"
  by (auto simp: invalidate_cache_def signals split: option.splits)

lemma same_signals_verify: "verify_in_view cfg env v e t = (ver, t') \<Longrightarrow> same_signals s t' = same_signals s t"
  by (auto simp: verify_in_view_def Let_def signals split: prod.splits)

lemma wakes_lookup: "wakes s (snd (Lookup cfg env a off s))"
proof -
  have "wakes s (snd (makeResult cfg env a v e t))" if t: "same_signals s t" for v e t
  proof -
    obtain ver t1 where 1: "verify_in_view cfg env v e t = (ver, t1)" by force
    obtain b t2 where 2: "invalidate_cache a (update_view v (\<lambda>w. w\<lparr>mv_unusable := True\<rparr>)
        (count_if (cfg_bMeasureStats cfg) dg_checksumFailures_update 1 t1)) = (b, t2)" by force
    have "same_signals s t1" "same_signals s t2" "same_signals s (next_epoch t2)"
      using t same_signals_verify [OF 1] same_signals_invalidate [OF 2] by (simp_all add: signals)
    then show ?thesis
      by (simp add: makeResult_def 1 2 Let_def same_wakes wakes_both signals)
  qed
  then show ?thesis
    by (simp add: Lookup_def Let_def same_wakes signals split: option.split)
qed

lemma wakes_report: "wakes s (ReportMappingIoFailure cfg q owner s)"
proof (cases owner)
  case (Some v)
  define s1 where "s1 = update_view v (\<lambda>w. w\<lparr>mv_unusable := True\<rparr>) s"
  obtain b s2 where 2: "(case find (\<lambda>(archive, cache). ac_view cache = Some v) (dc_caches s1) of
      None \<Rightarrow> (False, s1) | Some (archive, cache) \<Rightarrow> invalidate_cache archive s1) = (b, s2)" by force
  have "same_signals s s1" by (simp add: s1_def signals)
  then have "same_signals s s2" "same_signals s (next_epoch s2)"
    using 2 by (auto simp: same_signals_invalidate signals split: option.splits)
  then show ?thesis
    using 2 [unfolded s1_def] by (simp add: ReportMappingIoFailure_def Some Let_def same_wakes wakes_both)
qed (simp add: ReportMappingIoFailure_def same_wakes signals)

lemma wakes_record: "wakes s (snd (RecordDecompressed cfg env archives a off payload s))"
proof -
  have reject: "wakes s (reject_over_cap cfg n m s)" for n m
    using wakes_requests(1) by (auto simp: reject_over_cap_def Let_def signals intro!: same_wakes wakes_trans [OF same_wakes wakes_requests(1)])
  have admit: "wakes s (snd (admit cfg n m s)) \<and> (fst (admit cfg n m s) \<longrightarrow> same_signals s (snd (admit cfg n m s)))" for n m
    using reject by (auto simp: admit_def Let_def signals intro: same_wakes)
  have enqueue: "wakes s (snd (enqueue env b off n payload t))" if "same_signals s t" for b n t
    using that by (auto simp: enqueue_def Let_def signals split: alloc_outcome.split
        intro!: same_wakes wakes_trans [OF same_wakes wakes_requests(1)])
  show ?thesis
    using admit enqueue
    by (auto simp: RecordDecompressed_def Let_def signals same_wakes split: option.split prod.split bool.split)
       (metis fst_conv snd_conv)+
qed

lemma wakes_call: "wakes s (call_effect cfg archives c s)"
  by (cases c) (simp_all add: call_effect_def wakes_requests wakes_lookup wakes_report wakes_record)

section \<open>Only the worker says that it runs\<close>

lemma invalidate_started: "invalidate_cache a t = (b, t') \<Longrightarrow> dc_backgroundStarted t' = dc_backgroundStarted t"
  by (auto simp: invalidate_cache_def split: option.splits)

lemma lookup_started: "dc_backgroundStarted (snd (Lookup cfg env a off s)) = dc_backgroundStarted s"
  by (auto simp: Lookup_def makeResult_def Let_def dest!: verify_started invalidate_started split: option.splits prod.splits)

lemma record_started: "dc_backgroundStarted (snd (RecordDecompressed cfg env archives a off payload s)) = dc_backgroundStarted s"
  by (auto simp: RecordDecompressed_def admit_def reject_over_cap_def raise_headroom_def enqueue_def Let_def
      split: option.split prod.split bool.split alloc_outcome.split if_splits)

lemma call_started [simp]: "dc_backgroundStarted (call_effect cfg archives c s) = dc_backgroundStarted s"
  by (cases c) (simp_all add: call_effect_def lookup_started record_started load_exchange_def Let_def)

interpretation running: cache_contract "\<lambda>work s. dc_backgroundStarted s = b" for b :: bool
proof
  show "dc_backgroundStarted (publish_total t unowned s) = b" if "dc_backgroundStarted s = b" for s t unowned
    using that by (simp add: publish_total_def Let_def)
  show "dc_backgroundStarted s' = b" if "dc_backgroundStarted s = b" "plan_flush h s = (items, s')" for s s' h items
    using that by (auto simp: plan_flush_def)
  show "dc_backgroundStarted s' = b" if "dc_backgroundStarted s = b" "install_item h item r s = (c, s')" for s s' h item r c
    using that by (auto simp: install_item_def install_result_def add_view_def requeue_def release_item_def Let_def
        split: option.splits if_splits)
qed simp_all

section \<open>No request is slept through\<close>

definition live :: "worker_pc \<Rightarrow> bool" where
  "live pc \<longleftrightarrow> pc \<noteq> NotStarted \<and> pc \<noteq> Stopped"

definition worker_inv :: "worker \<Rightarrow> bool" where
  "worker_inv k \<longleftrightarrow> (wt_pc k = Asleep False \<and> wake_condition k \<longrightarrow> wt_notifies k > 0) \<and>
     dc_backgroundStarted (state_of k) = live (wt_pc k) \<and> (wt_stop k \<longrightarrow> wt_pc k \<noteq> NotStarted)"

lemma on_state_sel [simp]:
  "state_of (on_state f k) = f (state_of k)" "wt_pc (on_state f k) = wt_pc k" "wt_stop (on_state f k) = wt_stop k"
  "wt_notifies (on_state f k) = wt_notifies k" "wt_archives (on_state f k) = wt_archives k"
  "state_of (k\<lparr>wt_pc := pc\<rparr>) = state_of k" "state_of (k\<lparr>wt_stop := b\<rparr>) = state_of k"
  "state_of (k\<lparr>wt_notifies := n\<rparr>) = state_of k" "state_of (k\<lparr>wt_archives := ar\<rparr>) = state_of k"
  by (simp_all add: on_state_def state_of_def on_cache_def)

lemma wake_condition_sel [simp]: "wake_condition (k\<lparr>wt_pc := pc\<rparr>) = wake_condition k"
  by (simp add: wake_condition_def)

lemma post_sel [simp]:
  "state_of (post f k) = f (state_of k)" "wt_pc (post f k) = wt_pc k" "wt_stop (post f k) = wt_stop k"
  "wt_archives (post f k) = wt_archives k"
  "wt_notifies (post f k) = wt_notifies k + (dc_notifies (f (state_of k)) - dc_notifies (state_of k))"
  by (simp_all add: post_def Let_def)

lemma post_inv:
  assumes "worker_inv k" "wakes (state_of k) (f (state_of k))" "\<And>s. dc_backgroundStarted (f s) = dc_backgroundStarted s"
  shows "worker_inv (post f k)"
proof -
  let ?s = "state_of k"
  have "wt_notifies (post f k) > 0" if "wt_pc k = Asleep False" "wt_stop k \<or> has_work (f ?s)"
  proof (cases "wake_condition k")
    case True
    then show ?thesis using assms(1) that(1) by (simp add: worker_inv_def)
  next
    case False
    then show ?thesis using assms(2) that(2) by (simp add: wakes_def wake_condition_def)
  qed
  then show ?thesis using assms(1,3) by (simp add: worker_inv_def wake_condition_def del: post_sel(5))
qed

lemma flush_started [simp]: "dc_backgroundStarted (wd (FlushToDisk h w)) = dc_backgroundStarted (wd w)"
  by (rule running.FlushToDisk_ok) simp

lemma worker_flush_sel:
  "dc_backgroundStarted (state_of (worker_flush h loads sys f w k)) = dc_backgroundStarted (state_of k)"
  "wt_pc (worker_flush h loads sys f w k) = Flushed w" "wt_stop (worker_flush h loads sys f w k) = wt_stop k"
  by (simp_all add: worker_flush_def state_of_def)

interpretation stopping: pass_relation "\<lambda>w w'. wm_stop w \<longrightarrow> wm_stop w'"
  by unfold_locales (auto simp: observe_def on_warm_def split: list.splits)

lemma worker_warm_sel:
  assumes "\<forall>(b, f) \<in> set others. \<forall>s. dc_backgroundStarted (f s) = dc_backgroundStarted s"
  shows "dc_backgroundStarted (state_of (worker_warm env others w k)) = dc_backgroundStarted (state_of k)"
    "wt_pc (worker_warm env others w k) = Entering" "wt_stop k \<Longrightarrow> wt_stop (worker_warm env others w k)"
proof -
  define s where "s = (state_of k)\<lparr>dc_warmRequested := False\<rparr>"
  define v where "v = \<lparr>wm_cache = s, wm_archives = wt_archives k, wm_stop = wt_stop k, wm_others = others\<rparr>"
  obtain st v' where p: "WarmMappedCaches env v = (st, v')" by force
  have "dc_backgroundStarted (wm_cache v') = dc_backgroundStarted (state_of k)"
    using start.pass [OF p] assms by (simp add: same_start_def v_def s_def)
  moreover have "wt_stop k \<longrightarrow> wm_stop v'" using stopping.pass [OF p] by (simp add: v_def)
  ultimately show "dc_backgroundStarted (state_of (worker_warm env others w k)) = dc_backgroundStarted (state_of k)"
    "wt_pc (worker_warm env others w k) = Entering" "wt_stop k \<Longrightarrow> wt_stop (worker_warm env others w k)"
    using p by (auto simp: worker_warm_def Let_def v_def s_def state_of_def on_state_def on_cache_def)
qed

lemma calls_started:
  "others = map (\<lambda>(stop, c). (stop, if stop then load_exchange True else call_effect cfg archives c)) calls \<Longrightarrow>
     \<forall>(b, f) \<in> set others. \<forall>s. dc_backgroundStarted (f s) = dc_backgroundStarted s"
proof -
  have "dc_backgroundStarted ((if b then load_exchange True else call_effect cfg archives c) s) = dc_backgroundStarted s"
    for b c s by (cases b) (simp_all add: load_exchange_def Let_def)
  then show "others = map (\<lambda>(stop, c). (stop, if stop then load_exchange True else call_effect cfg archives c)) calls \<Longrightarrow>
     \<forall>(b, f) \<in> set others. \<forall>s. dc_backgroundStarted (f s) = dc_backgroundStarted s" by (simp add: split_beta)
qed

lemma leave_inv: "worker_inv k \<Longrightarrow> wt_pc k \<noteq> NotStarted \<Longrightarrow> worker_inv (worker_leave k)"
  by (auto simp: worker_leave_def worker_inv_def live_def Let_def)

lemma thread_inv: "thread_step cfg k k' \<Longrightarrow> worker_inv k \<Longrightarrow> worker_inv k'"
proof (induction rule: thread_step.cases)
  case (Flush k f w h loads sys)
  then show ?case using worker_flush_sel [of h loads sys f w k] by (simp add: worker_inv_def live_def)
next
  case (Warm k w env others calls)
  then show ?case using worker_warm_sel [OF calls_started [OF Warm(5)], where env = env and w = w and k = k] by (simp add: worker_inv_def live_def)
next
  case (Test k)
  then show ?case using leave_inv [of k] by (auto simp: worker_test_def worker_inv_def live_def)
next
  case (Take k)
  then show ?case using leave_inv [of k] by (auto simp: worker_take_def Let_def worker_inv_def live_def)
qed (auto simp: worker_recheck_def worker_inv_def live_def)

lemma start_inv:
  assumes "worker_inv k" "\<not> wt_stop k"
  shows "worker_inv (StartBackgroundFlush cfg q throws k)"
proof -
  define k1 where "k1 = (on_state (\<lambda>s. s\<lparr>dc_backgroundStarted := True\<rparr>) k)\<lparr>wt_pc := Entering, wt_stop := False\<rparr>"
  have "worker_inv k1" by (simp add: k1_def worker_inv_def live_def)
  then have new: "worker_inv (post RequestFlush k1)" "worker_inv (post (RequestWarmup cfg q) (post RequestFlush k1))"
    by (intro post_inv wakes_requests; simp)+
  have again: "worker_inv (post (RequestWarmup cfg q) (post RequestFlush k))"
    using assms(1) by (intro post_inv wakes_requests; simp)
  have "worker_inv (on_state (\<lambda>s. s\<lparr>dc_backgroundStarted := False, dc_building := False\<rparr>)
      (on_state (\<lambda>s. s\<lparr>dc_backgroundStarted := True\<rparr>) k))" if "\<not> dc_backgroundStarted (state_of k)"
    using assms that by (auto simp: worker_inv_def live_def wake_condition_def)
  then show ?thesis
    using assms(1) new again by (simp add: StartBackgroundFlush_def Let_def flip: k1_def)
qed

lemma other_inv: "other_step cfg k k' \<Longrightarrow> worker_inv k \<Longrightarrow> worker_inv k'"
proof (induction rule: other_step.cases)
  case (Calls k c)
  then show ?case using wakes_call by (simp add: post_inv)
next
  case (Starts k q throws)
  then show ?case using start_inv by simp
next
  case (Failed k)
  then show ?case using leave_inv [of k] by auto
qed (auto simp: deliver_def shut_down_def worker_inv_def live_def split: worker_pc.splits)

lemma reach_worker_inv: "worker_reach cfg k \<Longrightarrow> worker_inv k"
proof (induction rule: worker_reach.induct)
  case (Initially k)
  then show ?case by (simp add: worker_inv_def live_def)
qed (blast intro: thread_inv other_inv)+

text \<open>
  C36: the worker of the cache sleeps through no request: whenever it waits and no notification is
  under way, there is no flush and no warm pass to do and no shutdown to obey, however requests,
  load screens, lookups and payloads arrive.  And there is never a second worker: the flag that
  guards its start is set exactly while its thread runs.
\<close>

theorem no_lost_wakeup:
  assumes "worker_reach cfg k"
  shows "(wt_pc k = Asleep False \<and> wt_notifies k = 0 \<longrightarrow> \<not> wake_condition k) \<and>
    dc_backgroundStarted (state_of k) = (wt_pc k \<notin> {NotStarted, Stopped})"
  using reach_worker_inv [OF assms] by (auto simp: worker_inv_def live_def)

section \<open>The shutdown does not wait\<close>

fun worker_rank :: "worker_pc \<Rightarrow> nat" where
  "worker_rank NotStarted = 0"
| "worker_rank Stopped = 0"
| "worker_rank Entering = 1"
| "worker_rank Woken = 1"
| "worker_rank (Asleep b) = 2"
| "worker_rank (Flushed w) = 2"
| "worker_rank (Deciding f w) = 3"

lemma thread_rank:
  "thread_step cfg k k' \<Longrightarrow> wt_stop k \<Longrightarrow> wt_stop k' \<and> Suc (worker_rank (wt_pc k')) \<le> worker_rank (wt_pc k)"
proof (induction rule: thread_step.cases)
  case (Flush k f w h loads sys)
  then show ?case by (simp add: worker_flush_sel)
next
  case (Warm k w env others calls)
  then show ?case using worker_warm_sel [OF calls_started [OF Warm(5)], where env = env and w = w and k = k] by simp
qed (auto simp: worker_test_def worker_recheck_def worker_take_def worker_leave_def wake_condition_def Let_def)

lemma other_rank:
  "other_step cfg k k' \<Longrightarrow> wt_stop k \<Longrightarrow> wt_stop k' \<and> worker_rank (wt_pc k') \<le> worker_rank (wt_pc k)"
  by (induction rule: other_step.cases) (auto simp: deliver_def shut_down_def worker_leave_def Let_def split: worker_pc.splits)

text \<open>A run with the number of steps the worker made in it.\<close>

inductive worker_run :: "CacheSettings \<Rightarrow> nat \<Rightarrow> worker \<Rightarrow> worker \<Rightarrow> bool" for cfg where
  Rest: "worker_run cfg 0 k k"
| Own: "worker_run cfg n k k' \<Longrightarrow> thread_step cfg k' k'' \<Longrightarrow> worker_run cfg (Suc n) k k''"
| Others: "worker_run cfg n k k' \<Longrightarrow> other_step cfg k' k'' \<Longrightarrow> worker_run cfg n k k''"

lemma run_rank:
  "worker_run cfg n k k' \<Longrightarrow> wt_stop k \<Longrightarrow> wt_stop k' \<and> n + worker_rank (wt_pc k') \<le> worker_rank (wt_pc k)"
proof (induction rule: worker_run.induct)
  case (Own n k k' k'')
  then show ?case using thread_rank [of cfg k' k''] by auto
next
  case (Others n k k' k'')
  then show ?case using other_rank [of cfg k' k''] by fastforce
qed simp

lemma run_reach: "worker_run cfg n k k' \<Longrightarrow> worker_reach cfg k \<Longrightarrow> worker_reach cfg k'"
  by (induction rule: worker_run.induct) (auto intro: worker_reach.intros)

lemma step_enabled:
  "wt_pc k \<noteq> NotStarted \<Longrightarrow> wt_pc k \<noteq> Stopped \<Longrightarrow> wt_pc k \<noteq> Asleep False \<Longrightarrow> \<exists>k'. thread_step cfg k k'"
proof (cases "wt_pc k")
  case (Asleep b)
  assume "wt_pc k \<noteq> Asleep False"
  then have "wt_pc k = Asleep True" using Asleep by (cases b) simp_all
  then show ?thesis by (blast intro: thread_step.intros)
next
  case (Deciding f w)
  let ?h = "\<lparr>ho_cfg = cfg, ho_archives = wt_archives k, ho_lastWrite = \<lambda>_. 0, ho_now = 0, ho_qpc = 0, ho_pid = 0,
    ho_planThrows = False, ho_requeueThrows = \<lambda>_. False\<rparr>"
  have "thread_step cfg k (worker_flush ?h [] [] f w k)" by (rule Flush [OF Deciding]) simp_all
  then show ?thesis ..
next
  case (Flushed w)
  let ?env = "\<lparr>we_cfg = cfg, we_qpc = 0, we_passTicks = 0, we_pageSize = 0, we_faults = \<lambda>_ _. False,
    we_lookup = \<lparr>le_now = 0, le_qpc = 0, le_ticks = 0, le_readable = True, le_owner_valid = True\<rparr>, we_io = \<lambda>_ _. True,
    we_snapshotThrows = False\<rparr>"
  have "thread_step cfg k (worker_warm ?env [] w k)" by (rule Warm [OF Flushed, where calls = "[]"]) simp_all
  then show ?thesis ..
qed (auto intro: Test Take)


end
