(* ===== verification/DecompSnapshot.thy ===== *)
theory DecompSnapshot
  imports DecompWarm
begin

text \<open>
  \<open>DecompCache::GetBenchmarkSnapshot\<close>: the point-in-time view of the cache, the payloads that are
  verified and warm, and the residency of the mapped pages, which is asked for in batches.  The
  answer of \<open>QueryWorkingSetEx\<close> for a batch is a parameter, \<open>None\<close> if the call fails.
\<close>

section \<open>The counters\<close>

record BenchmarkSnapshot =
  bs_diagnostics :: DecompCacheDiagnostics
  bs_physicalBytes :: u64
  bs_pendingBytes :: u64
  bs_selectedMappingBytes :: u64
  bs_historicallyWarmedBytes :: u64
  bs_payloadBytes :: u64
  bs_eligiblePayloadBytes :: u64
  bs_residentBytes :: u64
  bs_totalPages :: u64
  bs_residentPages :: u64
  bs_residencyQueryMicros :: u64
  bs_mappingCount :: u64
  bs_entryCount :: u64
  bs_eligibleEntryCount :: u64
  bs_verifiedEntryCount :: u64
  bs_verifiedPayloadBytes :: u64
  bs_prefaultEnabled :: bool
  bs_warmComplete :: bool
  bs_residencyMeasured :: bool

definition snapshot_start :: "DecompCache \<Rightarrow> BenchmarkSnapshot" where
  "snapshot_start s =
     \<lparr>bs_diagnostics = GetDiagnostics s, bs_physicalBytes = dc_totalCacheBytes s, bs_pendingBytes = dc_pendingBytes s,
      bs_selectedMappingBytes = 0, bs_historicallyWarmedBytes = 0, bs_payloadBytes = 0, bs_eligiblePayloadBytes = 0,
      bs_residentBytes = 0, bs_totalPages = 0, bs_residentPages = 0, bs_residencyQueryMicros = 0, bs_mappingCount = 0,
      bs_entryCount = 0, bs_eligibleEntryCount = 0, bs_verifiedEntryCount = 0, bs_verifiedPayloadBytes = 0,
      bs_prefaultEnabled = dc_prefaultEnabled s, bs_warmComplete = (dc_prefaultEnabled s \<and> dc_warmComplete s),
      bs_residencyMeasured = False\<rparr>"

text \<open>An entry is eligible if the committed prefix is warm where its payload lies.\<close>

definition entry_eligible :: "CacheSettings \<Rightarrow> MappedView \<Rightarrow> CachedEntry \<Rightarrow> bool" where
  "entry_eligible cfg view e \<longleftrightarrow> \<not> cfg_bPrefaultDecompCache cfg \<or>
     IsRangeWarm (of_nat (ce_data e)) (u64_of_u32 (ce_size e)) (committed_bytes view) (warmed_bytes view)"

definition entry_verified :: "MappedView \<Rightarrow> CachedEntry \<Rightarrow> bool" where
  "entry_verified view e \<longleftrightarrow> mv_verification view ! ce_slot e = kVerifyValid"

definition snapshot_entry :: "CacheSettings \<Rightarrow> MappedView \<Rightarrow> u32 \<times> CachedEntry \<Rightarrow> BenchmarkSnapshot \<Rightarrow> BenchmarkSnapshot" where
  "snapshot_entry cfg view oe r =
     (let e = snd oe; n = u64_of_u32 (ce_size e);
          r1 = r\<lparr>bs_entryCount := bs_entryCount r + 1, bs_payloadBytes := bs_payloadBytes r + n\<rparr>;
          r2 = (if entry_verified view e
                then r1\<lparr>bs_verifiedEntryCount := bs_verifiedEntryCount r1 + 1,
                        bs_verifiedPayloadBytes := bs_verifiedPayloadBytes r1 + n\<rparr> else r1)
      in if entry_eligible cfg view e
         then r2\<lparr>bs_eligibleEntryCount := bs_eligibleEntryCount r2 + 1,
                 bs_eligiblePayloadBytes := bs_eligiblePayloadBytes r2 + n\<rparr> else r2)"

definition snapshot_usable :: "DecompCache \<Rightarrow> ArchiveCache \<Rightarrow> bool" where
  "snapshot_usable s cache \<longleftrightarrow>
     (case ac_view cache of
        None \<Rightarrow> False
      | Some v \<Rightarrow> \<not> mv_unusable (dc_views s ! v) \<and> \<not> ac_diskInvalidated cache \<and> committed_bytes (dc_views s ! v) \<noteq> 0)"

fun snapshot_caches :: "CacheSettings \<Rightarrow> DecompCache \<Rightarrow> (nat \<times> ArchiveCache) list \<Rightarrow> BenchmarkSnapshot \<Rightarrow>
    (nat \<times> u64) list \<Rightarrow> BenchmarkSnapshot \<times> (nat \<times> u64) list" where
  "snapshot_caches cfg s [] r ranges = (r, ranges)"
| "snapshot_caches cfg s ((archive, cache) # cs) r ranges =
     (if \<not> snapshot_usable s cache then snapshot_caches cfg s cs r ranges
      else
        let v = the (ac_view cache); view = dc_views s ! v; committed = committed_bytes view; warmed = warmed_bytes view;
            r1 = r\<lparr>bs_mappingCount := bs_mappingCount r + 1,
                   bs_selectedMappingBytes := bs_selectedMappingBytes r + committed,
                   bs_historicallyWarmedBytes := bs_historicallyWarmedBytes r + warmed\<rparr>
        in snapshot_caches cfg s cs (fold (snapshot_entry cfg view) (ac_index cache) r1) (ranges @ [(v, committed)]))"

section \<open>Residency\<close>

definition kResidencyBatchPages :: nat where "kResidencyBatchPages = 16384"

text \<open>A page is its mapping, its offset and the bytes of the mapping in it.\<close>

type_synonym page = "nat \<times> u64 \<times> u32"

type_synonym page_query = "(nat \<times> u64) list \<Rightarrow> bool list option"

definition count_page :: "page \<times> bool \<Rightarrow> BenchmarkSnapshot \<Rightarrow> BenchmarkSnapshot" where
  "count_page pv r =
     (let r1 = r\<lparr>bs_totalPages := bs_totalPages r + 1\<rparr>
      in if snd pv then r1\<lparr>bs_residentPages := bs_residentPages r1 + 1,
           bs_residentBytes := bs_residentBytes r1 + u64_of_u32 (snd (snd (fst pv)))\<rparr> else r1)"

definition queryBatch :: "page_query \<Rightarrow> page list \<Rightarrow> BenchmarkSnapshot \<Rightarrow> bool \<times> page list \<times> BenchmarkSnapshot" where
  "queryBatch query pages r =
     (if pages = [] then (True, pages, r)
      else if length pages * 16 > 0xFFFFFFFF then (False, pages, r)
      else case query (map (\<lambda>(owner, offset, n). (owner, offset)) pages) of
        None \<Rightarrow> (False, pages, r)
      | Some valid \<Rightarrow> (True, [], fold count_page (zip pages valid) r))"

partial_function (option) scan_pages :: "page_query \<Rightarrow> u64 \<Rightarrow> nat \<Rightarrow> u64 \<Rightarrow> u64 \<Rightarrow> page list \<Rightarrow> BenchmarkSnapshot \<Rightarrow>
    (bool \<times> page list \<times> BenchmarkSnapshot) option" where
  "scan_pages query pageSize owner bytes offset pages r =
     (if \<not> offset < bytes then Some (True, pages, r)
      else
        let pages1 = pages @ [(owner, offset, ucast (min pageSize (bytes - offset)))] in
        if length pages1 = kResidencyBatchPages then
          (case queryBatch query pages1 r of
             (queryOk, pages2, r2) \<Rightarrow>
               if queryOk then scan_pages query pageSize owner bytes (offset + pageSize) pages2 r2
               else Some (False, pages2, r2))
        else scan_pages query pageSize owner bytes (offset + pageSize) pages1 r)"

fun scan_ranges :: "page_query \<Rightarrow> u64 \<Rightarrow> (nat \<times> u64) list \<Rightarrow> page list \<Rightarrow> BenchmarkSnapshot \<Rightarrow>
    (bool \<times> page list \<times> BenchmarkSnapshot) option" where
  "scan_ranges query pageSize [] pages r = Some (True, pages, r)"
| "scan_ranges query pageSize ((owner, bytes) # ranges) pages r =
     (case scan_pages query pageSize owner bytes 0 pages r of
        None \<Rightarrow> None
      | Some (False, pages1, r1) \<Rightarrow> Some (False, pages1, r1)
      | Some (True, pages1, r1) \<Rightarrow> scan_ranges query pageSize ranges pages1 r1)"

text \<open>The end of the scan: the last batch, the duration and the verdict.\<close>

definition finish_scan :: "page_query \<Rightarrow> u64 \<Rightarrow> bool \<times> page list \<times> BenchmarkSnapshot \<Rightarrow> BenchmarkSnapshot" where
  "finish_scan query micros x =
     (case x of (ok, pages, r) \<Rightarrow>
        let (queryOk, r1) = (if ok then (case queryBatch query pages r of (b, _, r1) \<Rightarrow> (b, r1)) else (False, r));
            r2 = r1\<lparr>bs_residencyQueryMicros := micros, bs_residencyMeasured := queryOk\<rparr>
        in if queryOk then r2 else r2\<lparr>bs_residentBytes := 0, bs_residentPages := 0, bs_totalPages := 0\<rparr>)"

text \<open>\<open>None\<close> is a scan that never ends.\<close>

definition GetBenchmarkSnapshot :: "CacheSettings \<Rightarrow> page_query \<Rightarrow> u64 \<Rightarrow> u64 \<Rightarrow> bool \<Rightarrow> DecompCache \<Rightarrow>
    BenchmarkSnapshot option" where
  "GetBenchmarkSnapshot cfg query pageSize micros a_measureResidency s =
     (case snapshot_caches cfg s (dc_caches s) (snapshot_start s) [] of
        (result, ranges) \<Rightarrow>
          if \<not> a_measureResidency \<or> ranges = [] \<or> pageSize = 0 then Some result
          else map_option (finish_scan query micros) (scan_ranges query pageSize ranges [] result))"

section \<open>What the counters say\<close>

text \<open>The effect of a list of entries, and of a list of pages, in one step.\<close>

definition add_entries :: "CacheSettings \<Rightarrow> (MappedView \<times> CachedEntry) list \<Rightarrow> BenchmarkSnapshot \<Rightarrow> BenchmarkSnapshot" where
  "add_entries cfg ves r =
     (let size = (\<lambda>(v, e). u64_of_u32 (ce_size e)); verified = filter (\<lambda>(v, e). entry_verified v e) ves;
          eligible = filter (\<lambda>(v, e). entry_eligible cfg v e) ves
      in r\<lparr>bs_entryCount := bs_entryCount r + of_nat (length ves),
           bs_payloadBytes := bs_payloadBytes r + sum_list (map size ves),
           bs_verifiedEntryCount := bs_verifiedEntryCount r + of_nat (length verified),
           bs_verifiedPayloadBytes := bs_verifiedPayloadBytes r + sum_list (map size verified),
           bs_eligibleEntryCount := bs_eligibleEntryCount r + of_nat (length eligible),
           bs_eligiblePayloadBytes := bs_eligiblePayloadBytes r + sum_list (map size eligible)\<rparr>)"

definition add_mappings :: "MappedView list \<Rightarrow> BenchmarkSnapshot \<Rightarrow> BenchmarkSnapshot" where
  "add_mappings vs r =
     r\<lparr>bs_mappingCount := bs_mappingCount r + of_nat (length vs),
       bs_selectedMappingBytes := bs_selectedMappingBytes r + sum_list (map committed_bytes vs),
       bs_historicallyWarmedBytes := bs_historicallyWarmedBytes r + sum_list (map warmed_bytes vs)\<rparr>"

definition add_pages :: "(nat \<times> u64 \<Rightarrow> bool) \<Rightarrow> page list \<Rightarrow> BenchmarkSnapshot \<Rightarrow> BenchmarkSnapshot" where
  "add_pages resident ps r =
     (let present = filter (\<lambda>(owner, offset, n). resident (owner, offset)) ps
      in r\<lparr>bs_totalPages := bs_totalPages r + of_nat (length ps),
           bs_residentPages := bs_residentPages r + of_nat (length present),
           bs_residentBytes := bs_residentBytes r + sum_list (map (\<lambda>(owner, offset, n). u64_of_u32 n) present)\<rparr>)"

lemma add_nil [simp]: "add_entries cfg [] r = r" "add_mappings [] r = r" "add_pages resident [] r = r"
  by (simp_all add: add_entries_def add_mappings_def add_pages_def)

lemma add_append:
  "add_entries cfg (xs @ ys) r = add_entries cfg ys (add_entries cfg xs r)"
  "add_mappings (us @ vs) r = add_mappings vs (add_mappings us r)"
  "add_pages resident (ps @ qs) r = add_pages resident qs (add_pages resident ps r)"
  by (simp_all add: add_entries_def add_mappings_def add_pages_def Let_def algebra_simps)

lemma add_commute: "add_mappings vs (add_entries cfg xs r) = add_entries cfg xs (add_mappings vs r)"
  by (simp add: add_entries_def add_mappings_def Let_def)

lemma snapshot_entry_add: "snapshot_entry cfg v oe r = add_entries cfg [(v, snd oe)] r"
  by (simp add: snapshot_entry_def add_entries_def Let_def)

lemma fold_entries: "fold (snapshot_entry cfg v) es r = add_entries cfg (map (\<lambda>oe. (v, snd oe)) es) r"
proof (induction es arbitrary: r)
  case (Cons oe es)
  then show ?case using add_append(1) [of cfg "[(v, snd oe)]" "map (\<lambda>oe. (v, snd oe)) es" r]
    by (simp add: snapshot_entry_add)
qed simp

definition usable_caches :: "DecompCache \<Rightarrow> (nat \<times> ArchiveCache) list \<Rightarrow> ArchiveCache list" where
  "usable_caches s cs = filter (snapshot_usable s) (map snd cs)"

definition cache_view :: "DecompCache \<Rightarrow> ArchiveCache \<Rightarrow> MappedView" where
  "cache_view s c = dc_views s ! the (ac_view c)"

definition usable_entries :: "DecompCache \<Rightarrow> (nat \<times> ArchiveCache) list \<Rightarrow> (MappedView \<times> CachedEntry) list" where
  "usable_entries s cs = concat (map (\<lambda>c. map (\<lambda>oe. (cache_view s c, snd oe)) (ac_index c)) (usable_caches s cs))"

definition usable_ranges :: "DecompCache \<Rightarrow> (nat \<times> ArchiveCache) list \<Rightarrow> (nat \<times> u64) list" where
  "usable_ranges s cs = map (\<lambda>c. (the (ac_view c), committed_bytes (cache_view s c))) (usable_caches s cs)"

lemma snapshot_caches_add:
  "snapshot_caches cfg s cs r ranges =
     (add_entries cfg (usable_entries s cs) (add_mappings (map (cache_view s) (usable_caches s cs)) r),
      ranges @ usable_ranges s cs)"
proof (induction cs arbitrary: r ranges)
  case (Cons ac cs)
  obtain a c where ac: "ac = (a, c)" by force
  have 1: "r\<lparr>bs_mappingCount := bs_mappingCount r + 1, bs_selectedMappingBytes := bs_selectedMappingBytes r + committed_bytes v,
      bs_historicallyWarmedBytes := bs_historicallyWarmedBytes r + warmed_bytes v\<rparr> = add_mappings [v] r" for v
    by (simp add: add_mappings_def)
  let ?vs = "map (cache_view s) (usable_caches s cs)" and ?v = "cache_view s c"
  let ?es = "map (\<lambda>oe. (?v, snd oe)) (ac_index c)"
  have merge: "add_entries cfg (usable_entries s cs) (add_mappings ?vs (add_entries cfg ?es (add_mappings [?v] r))) =
      add_entries cfg (?es @ usable_entries s cs) (add_mappings ([?v] @ ?vs) r)"
    by (simp only: add_append add_commute)
  show ?case
  proof (cases "snapshot_usable s c")
    case True
    then show ?thesis
      using merge by (simp add: ac Cons.IH Let_def 1 fold_entries usable_entries_def usable_caches_def usable_ranges_def
          flip: cache_view_def)
  next
    case False
    then show ?thesis by (simp add: ac Cons.IH usable_entries_def usable_caches_def usable_ranges_def)
  qed
qed (simp add: usable_entries_def usable_caches_def usable_ranges_def)

section \<open>Batches do not matter\<close>

definition pages_of :: "u64 \<Rightarrow> nat \<Rightarrow> u64 \<Rightarrow> u64 \<Rightarrow> page list" where
  "pages_of pageSize owner bytes offset =
     map (\<lambda>o'. (owner, o', ucast (min pageSize (bytes - o')))) (touch_loop pageSize bytes offset)"

definition truthful :: "(nat \<times> u64 \<Rightarrow> bool) \<Rightarrow> page_query \<Rightarrow> bool" where
  "truthful resident query \<longleftrightarrow> (\<forall>ps. query ps = Some (map resident ps))"

lemma fold_count_page:
  "fold count_page (zip ps (map resident (map (\<lambda>(owner, offset, n). (owner, offset)) ps))) r = add_pages resident ps r"
proof (induction ps arbitrary: r)
  case (Cons p ps)
  obtain w off n where p: "p = (w, off, n)" by (cases p)
  have "count_page (p, resident (w, off)) r = add_pages resident [p] r"
    by (simp add: count_page_def add_pages_def Let_def p)
  then show ?case using Cons.IH add_append(3) [of resident "[p]" ps r] by (simp add: p)
qed simp

lemma queryBatch_true:
  assumes "truthful resident query" "length ps \<le> kResidencyBatchPages"
  shows "queryBatch query ps r = (True, [], add_pages resident ps r)"
  using assms fold_count_page [of ps resident r] by (simp add: queryBatch_def truthful_def kResidencyBatchPages_def)

lemma scan_pages_true:
  assumes "truthful resident query" "pageSize \<noteq> 0" "unat bytes + unat pageSize \<le> 2 ^ 64" "length pages < kResidencyBatchPages"
  shows "\<exists>pages' r'. scan_pages query pageSize owner bytes offset pages r = Some (True, pages', r') \<and>
    length pages' < kResidencyBatchPages \<and>
    add_pages resident pages' r' = add_pages resident (pages @ pages_of pageSize owner bytes offset) r"
  using assms
proof (induction pageSize bytes offset arbitrary: pages r rule: touch_loop.induct)
  case (1 pageSize bytes offset)
  let ?p = "(owner, offset, ucast (min pageSize (bytes - offset)) :: u32)" and ?next = "offset + pageSize"
  show ?case
  proof (cases "offset < bytes")
    case False
    then show ?thesis using "1.prems"(4)
      by (subst scan_pages.simps) (simp add: pages_of_def touch_loop.simps [of pageSize bytes offset])
  next
    case inside: True
    define pages1 where "pages1 = (if length pages + 1 = kResidencyBatchPages then [] else pages @ [?p])"
    define r1 where "r1 = (if length pages + 1 = kResidencyBatchPages then add_pages resident (pages @ [?p]) r else r)"
    have l1: "length pages1 < kResidencyBatchPages"
      using "1.prems"(4) by (simp add: pages1_def kResidencyBatchPages_def)
    have sum: "add_pages resident (pages1 @ qs) r1 = add_pages resident (pages @ ?p # qs) r" for qs
      using add_append(3) [of resident "pages @ [?p]" qs r] by (simp add: pages1_def r1_def)
    have step: "scan_pages query pageSize owner bytes offset pages r = scan_pages query pageSize owner bytes ?next pages1 r1"
      using inside queryBatch_true [OF "1.prems"(1), of "pages @ [?p]" r] "1.prems"(4)
      by (subst scan_pages.simps) (simp add: Let_def pages1_def r1_def)
    show ?thesis
    proof (cases "bytes - offset \<le> pageSize")
      case True
      have "unat (bytes - offset) = unat bytes - unat offset" using inside by (intro unat_sub_le) simp
      then have "unat bytes \<le> unat offset + unat pageSize" using True by (simp add: word_le_nat_alt)
      moreover have "unat ?next = unat offset + unat pageSize"
        by (rule unat_add_noovf) (use "1.prems"(3) inside in \<open>simp add: word_less_nat_alt\<close>)
      ultimately have stop: "\<not> ?next < bytes" by (simp add: word_less_nat_alt)
      have "pages_of pageSize owner bytes offset = [?p]"
        using inside True by (simp add: pages_of_def touch_loop.simps [of pageSize bytes offset])
      then show ?thesis
        unfolding step using stop l1 sum [of "[]"] by (subst scan_pages.simps) simp
    next
      case False
      then have "pages_of pageSize owner bytes offset = ?p # pages_of pageSize owner bytes ?next"
        using inside "1.prems"(2) by (simp add: pages_of_def touch_loop.simps [of pageSize bytes offset])
      then show ?thesis
        unfolding step using "1.IH" [OF inside _ "1.prems"(1-3) l1, of r1] False "1.prems"(2) sum by simp
    qed
  qed
qed

definition range_pages :: "u64 \<Rightarrow> (nat \<times> u64) list \<Rightarrow> page list" where
  "range_pages pageSize ranges = concat (map (\<lambda>(owner, bytes). pages_of pageSize owner bytes 0) ranges)"

lemma scan_ranges_true:
  assumes "truthful resident query" "pageSize \<noteq> 0" "\<forall>(owner, bytes) \<in> set ranges. unat bytes + unat pageSize \<le> 2 ^ 64"
    and "length pages < kResidencyBatchPages"
  shows "\<exists>pages' r'. scan_ranges query pageSize ranges pages r = Some (True, pages', r') \<and>
    length pages' < kResidencyBatchPages \<and>
    add_pages resident pages' r' = add_pages resident (pages @ range_pages pageSize ranges) r"
  using assms(3,4)
proof (induction ranges arbitrary: pages r)
  case (Cons ob ranges)
  obtain w b where ob: "ob = (w, b)" by force
  obtain ps1 r1 where 1: "scan_pages query pageSize w b 0 pages r = Some (True, ps1, r1)" "length ps1 < kResidencyBatchPages"
    "add_pages resident ps1 r1 = add_pages resident (pages @ pages_of pageSize w b 0) r"
    using scan_pages_true [OF assms(1,2) _ Cons.prems(2), of b w 0 r] Cons.prems(1) ob by auto
  have "\<exists>pages' r'. scan_ranges query pageSize ranges ps1 r1 = Some (True, pages', r') \<and>
    length pages' < kResidencyBatchPages \<and> add_pages resident pages' r' = add_pages resident (ps1 @ range_pages pageSize ranges) r1"
    using Cons.prems(1) by (intro Cons.IH 1(2)) simp
  moreover have "add_pages resident (ps1 @ range_pages pageSize ranges) r1 =
      add_pages resident (pages @ range_pages pageSize (ob # ranges)) r"
    using 1(3) by (simp add: add_append(3) range_pages_def ob flip: append_assoc)
  ultimately show ?case by (simp add: ob 1(1))
qed (simp add: range_pages_def)

text \<open>
  C38: the snapshot counts what it says.  With a measured residency it returns, and its numbers are
  those of the usable generations: their mappings, entries, verified entries and eligible entries
  with their bytes, and the resident ones among all their pages, however the pages are batched
  into queries.
\<close>

theorem snapshot_exact:
  assumes "truthful resident query" "pageSize \<noteq> 0"
    and "\<forall>c \<in> set (usable_caches s (dc_caches s)). unat (committed_bytes (cache_view s c)) + unat pageSize \<le> 2 ^ 64"
  shows "GetBenchmarkSnapshot cfg query pageSize micros True s =
    (let cs = dc_caches s;
         r = add_entries cfg (usable_entries s cs)
               (add_mappings (map (cache_view s) (usable_caches s cs)) (snapshot_start s))
     in if usable_caches s cs = [] then Some r
        else Some ((add_pages resident (range_pages pageSize (usable_ranges s cs)) r)
               \<lparr>bs_residencyQueryMicros := micros, bs_residencyMeasured := True\<rparr>))"
proof -
  let ?cs = "dc_caches s"
  define r where "r = add_entries cfg (usable_entries s ?cs)
      (add_mappings (map (cache_view s) (usable_caches s ?cs)) (snapshot_start s))"
  have all: "\<forall>(owner, bytes) \<in> set (usable_ranges s ?cs). unat bytes + unat pageSize \<le> 2 ^ 64"
    using assms(3) by (auto simp: usable_ranges_def)
  have "length ([] :: page list) < kResidencyBatchPages" by (simp add: kResidencyBatchPages_def)
  from scan_ranges_true [OF assms(1,2) all this, of r] obtain ps r' where
    sc: "scan_ranges query pageSize (usable_ranges s ?cs) [] r = Some (True, ps, r')" "length ps < kResidencyBatchPages"
    "add_pages resident ps r' = add_pages resident (range_pages pageSize (usable_ranges s ?cs)) r" by auto
  have "queryBatch query ps r' = (True, [], add_pages resident ps r')"
    by (rule queryBatch_true [OF assms(1)]) (use sc(2) in simp)
  moreover have "usable_ranges s ?cs = [] \<longleftrightarrow> usable_caches s ?cs = []" by (simp add: usable_ranges_def)
  ultimately show ?thesis
    using assms(2) sc unfolding GetBenchmarkSnapshot_def snapshot_caches_add Let_def r_def [symmetric]
    by (cases "usable_caches s ?cs = []") (simp_all add: finish_scan_def)
qed

text \<open>A failed query leaves no residency numbers.\<close>

lemma failed_scan: "finish_scan query micros (False, pages, r) =
    r\<lparr>bs_residencyQueryMicros := micros, bs_residencyMeasured := False, bs_residentBytes := 0, bs_residentPages := 0,
      bs_totalPages := 0\<rparr>"
  by (simp add: finish_scan_def)

end
