(* ===== verification/DecompWarmCalm.thy ===== *)
theory DecompWarmCalm
  imports DecompWarmProofs
begin

text \<open>
  Warm passes that nothing disturbs: they run to their end.
\<close>

section \<open>Calm passes\<close>

text \<open>Nobody interferes, nothing is requested, and no load screen is up.\<close>

definition calm :: "warm \<Rightarrow> bool" where
  "calm w \<longleftrightarrow> wm_others w = [] \<and> \<not> wm_stop w \<and> \<not> dc_loadActive (wm_cache w) \<and>
     \<not> dc_flushRequested (wm_cache w) \<and> \<not> dc_warmRequested (wm_cache w)"

lemma observe_alone [simp]: "wm_others w = [] \<Longrightarrow> observe w = w"
  by (simp add: observe_def)

lemma interrupted_calm: "calm w \<Longrightarrow> interrupted (dc_cacheEpoch (wm_cache w)) w = (None, w)"
  by (simp add: interrupted_def calm_def Let_def)

lemma flag_frames [simp]:
  "dc_loadActive (update_view v f s) = dc_loadActive s" "dc_flushRequested (update_view v f s) = dc_flushRequested s"
  "dc_warmRequested (update_view v f s) = dc_warmRequested s" "dc_flushRequested (count_if b k n s) = dc_flushRequested s"
  "dc_warmRequested (count_if b k n s) = dc_warmRequested s"
  by (simp_all add: update_view_def count_if_def)

text \<open>The same caches over the same mappings.\<close>

definition same_maps :: "DecompCache \<Rightarrow> DecompCache \<Rightarrow> bool" where
  "same_maps s s' \<longleftrightarrow> dc_caches s' = dc_caches s \<and> length (dc_views s') = length (dc_views s) \<and>
     (\<forall>i. mv_base (dc_views s' ! i) = mv_base (dc_views s ! i) \<and>
          mv_size (dc_views s' ! i) = mv_size (dc_views s ! i) \<and>
          mv_committedSize (dc_views s' ! i) = mv_committedSize (dc_views s ! i) \<and>
          mv_unusable (dc_views s' ! i) = mv_unusable (dc_views s ! i))"

lemma same_maps_refl [simp]: "same_maps s s"
  by (simp add: same_maps_def)

lemma same_maps_trans: "same_maps s t \<Longrightarrow> same_maps t u \<Longrightarrow> same_maps s u"
  by (simp add: same_maps_def)

lemma same_maps_frame: "dc_caches s' = dc_caches s \<Longrightarrow> dc_views s' = dc_views s \<Longrightarrow> same_maps s s'"
  by (simp add: same_maps_def)

text \<open>States that agree on everything a pass reads but the warm frontiers.\<close>

definition same_payloads :: "warm \<Rightarrow> warm \<Rightarrow> bool" where
  "same_payloads w w' \<longleftrightarrow> calm w' \<and> wm_archives w' = wm_archives w \<and>
     dc_cacheEpoch (wm_cache w') = dc_cacheEpoch (wm_cache w) \<and> same_maps (wm_cache w) (wm_cache w') \<and>
     (\<forall>i. mv_verification (dc_views (wm_cache w') ! i) = mv_verification (dc_views (wm_cache w) ! i))"

lemma same_payloads_trans: "same_payloads u v \<Longrightarrow> same_payloads v w \<Longrightarrow> same_payloads u w"
  by (auto simp: same_payloads_def intro: same_maps_trans)

lemma same_payloads_refl: "calm w \<Longrightarrow> same_payloads w w"
  by (simp add: same_payloads_def)

lemma calm_touch:
  assumes "calm w"
  shows "same_payloads w (on_warm (\<lambda>s. update_view owner (\<lambda>v. v\<lparr>mv_prefaultedThrough := n\<rparr>)
      ((count_if b dg_warmBytesTouched_update k s)\<lparr>dc_warmedBytes := m\<rparr>)) w)"
  using assms by (auto simp: same_payloads_def same_maps_def calm_def update_view_def nth_list_update)

lemma warm_chunks_calm:
  assumes "calm w" "dc_cacheEpoch (wm_cache w) = epoch"
    and "\<And>n. \<not> we_faults env owner n"
  shows "\<exists>t w'. warm_chunks env epoch prev owner committed cursor touched w = ((None, t), w') \<and> same_payloads w w'"
  using assms
proof (induction env epoch prev owner committed cursor touched w rule: warm_chunks.induct)
  case (1 env epoch prev owner committed cursor touched w)
  show ?case
  proof (cases "cursor < committed")
    case False
    then show ?thesis
      using same_payloads_refl [OF "1.prems"(1)] by (subst warm_chunks.simps) simp
  next
    case True
    have i: "interrupted epoch w = (None, w)" using interrupted_calm "1.prems"(1,2) by auto
    let ?chunk = "min kWarmChunkBytes (committed - cursor)"
    have touch: "TouchMappedPages (we_faults env owner) True cursor (cursor + ?chunk) (we_pageSize env)"
      using "1.prems"(3) by (auto simp: TouchMappedPages_def list_all_iff)
    define w2 where "w2 = on_warm (\<lambda>s. update_view owner (\<lambda>v. v\<lparr>mv_prefaultedThrough := unat (cursor + ?chunk)\<rparr>)
        ((count_if (cfg_bMeasureStats (we_cfg env)) dg_warmBytesTouched_update ?chunk s)
           \<lparr>dc_warmedBytes := prev + (touched + ?chunk)\<rparr>)) w"
    have w2: "same_payloads w w2" unfolding w2_def by (rule calm_touch [OF "1.prems"(1)])
    have "\<exists>t w'. warm_chunks env epoch prev owner committed (cursor + ?chunk) (touched + ?chunk) w2 = ((None, t), w') \<and>
        same_payloads w2 w'"
      using w2 "1.prems"
      by (intro "1.IH" [OF _ i [symmetric] refl refl _ refl w2_def]) (auto simp: True touch same_payloads_def)
    then show ?thesis
      using True i touch same_payloads_trans [OF w2]
      by (subst warm_chunks.simps) (auto simp: Let_def simp flip: w2_def)
  qed
qed

lemma warm_touch_calm:
  assumes "calm w" "dc_cacheEpoch (wm_cache w) = epoch" "\<And>v n. \<not> we_faults env v n"
  shows "\<exists>t w'. warm_touch env epoch prev items touched w = ((None, t), w') \<and> same_payloads w w'"
  using assms(1,2)
proof (induction items arbitrary: touched w)
  case Nil
  then show ?case by (simp add: same_payloads_refl)
next
  case (Cons item items)
  let ?v = "dc_views (wm_cache w) ! wi_owner item"
  obtain t w1 where 1: "warm_chunks env epoch prev (wi_owner item) (committed_bytes ?v) (warmed_bytes ?v) touched w =
      ((None, t), w1)" "same_payloads w w1"
    using warm_chunks_calm [OF Cons.prems assms(3)] by blast
  have "calm w1" "dc_cacheEpoch (wm_cache w1) = epoch"
    using 1(2) Cons.prems by (simp_all add: same_payloads_def)
  from Cons.IH [OF this, of t] 1 show ?case
    by (auto simp: Let_def intro: same_payloads_trans)
qed

section \<open>Payloads that verify\<close>

text \<open>An entry that is verified, or will be when someone looks, and whose declared size the
  archive has resolved.\<close>

definition entry_fine :: "warm_env \<Rightarrow> warm \<Rightarrow> nat \<Rightarrow> nat \<Rightarrow> u32 \<times> CachedEntry \<Rightarrow> bool" where
  "entry_fine env w a v oe \<longleftrightarrow>
     (let e = snd oe; view = dc_views (wm_cache w) ! v; st = mv_verification view ! ce_slot e in
      ce_size e \<noteq> 0 \<and> ma_declaredSizes (wm_archives w a) (fst oe) = Some (ce_size e) \<and>
      ce_slot e < length (mv_verification view) \<and>
      (st = kVerifyValid \<or> st = kVerifyUnknown \<and> entry_verdict (le_readable (we_lookup env)) (mv_base view) e))"

lemma verify_calm:
  assumes "calm w" "entry_fine env w a v (off, e)" "v < length (dc_views (wm_cache w))"
  shows "\<exists>ver s. verify_in_view (we_cfg env) (we_lookup env) v e (wm_cache w) = (ver, s) \<and> vf_valid ver \<and>
    calm (w\<lparr>wm_cache := s\<rparr>) \<and> same_maps (wm_cache w) s \<and> dc_cacheEpoch s = dc_cacheEpoch (wm_cache w) \<and>
    (\<forall>b u x. entry_fine env w b u x \<longrightarrow> entry_fine env (w\<lparr>wm_cache := s\<rparr>) b u x)"
proof -
  let ?view = "dc_views (wm_cache w) ! v"
  let ?st = "mv_verification ?view ! ce_slot e"
  obtain ver st where ver: "VerifyEntry (le_readable (we_lookup env))
      (if cfg_bMeasureStats (we_cfg env) then le_ticks (we_lookup env) else 0) (le_owner_valid (we_lookup env))
      (mv_base ?view) e ?st = (ver, st)" by force
  have valid: "vf_valid ver" "st = kVerifyValid"
    using ver assms(2) by (auto simp: VerifyEntry_def entry_fine_def Let_def verification_result_def)
  obtain s where s: "verify_in_view (we_cfg env) (we_lookup env) v e (wm_cache w) = (ver, s)"
    using ver by (auto simp: verify_in_view_def Let_def)
  have vs: "dc_views s = (dc_views (wm_cache w))[v := ?view\<lparr>mv_verification := (mv_verification ?view)[ce_slot e := kVerifyValid]\<rparr>]"
    using s ver assms(3) valid by (auto simp: verify_in_view_def Let_def update_view_def)
  have flags: "dc_loadActive s = dc_loadActive (wm_cache w)" "dc_flushRequested s = dc_flushRequested (wm_cache w)"
    "dc_warmRequested s = dc_warmRequested (wm_cache w)"
    using s ver by (auto simp: verify_in_view_def Let_def)
  have fine: "entry_fine env (w\<lparr>wm_cache := s\<rparr>) b u x" if "entry_fine env w b u x" for b u x
    using that assms(3)
    by (cases "u = v"; cases "ce_slot (snd x) = ce_slot e") (auto simp: entry_fine_def Let_def vs)
  have "dc_views s ! i = (if i = v then ?view\<lparr>mv_verification := (mv_verification ?view)[ce_slot e := kVerifyValid]\<rparr>
      else dc_views (wm_cache w) ! i)" for i
    using assms(3) by (auto simp: vs)
  then have "same_maps (wm_cache w) s"
    using steady_verify [OF s assms(3)] by (simp add: same_maps_def vs)
  then show ?thesis
    using s valid steady_verify [OF s assms(3)] flags fine assms(1) by (auto simp: calm_def)
qed

lemma verify_entries_calm:
  assumes "calm w" "dc_cacheEpoch (wm_cache w) = epoch" "v < length (dc_views (wm_cache w))"
    and "\<forall>x \<in> set es. entry_fine env w a v x"
  shows "\<exists>w'. verify_entries env epoch a v es w = (AllChecked, w') \<and> calm w' \<and>
    same_maps (wm_cache w) (wm_cache w') \<and> dc_cacheEpoch (wm_cache w') = epoch \<and>
    (\<forall>b u x. entry_fine env w b u x \<longrightarrow> entry_fine env w' b u x)"
  using assms
proof (induction es arbitrary: w)
  case (Cons p es)
  obtain off e where p: "p = (off, e)" by force
  have i: "interrupted epoch w = (None, w)" using interrupted_calm Cons.prems(1,2) by auto
  have fine: "entry_fine env w a v (off, e)" using Cons.prems(4) p by simp
  then have g: "GetDeclaredDecompressedSize (we_io env) (wm_archives w a) off = (Some (ce_size e), wm_archives w a)"
    by (simp add: entry_fine_def Let_def GetDeclaredDecompressedSize_def nonzero_size_def)
  obtain ver s where v: "verify_in_view (we_cfg env) (we_lookup env) v e (wm_cache w) = (ver, s)" "vf_valid ver"
    "calm (w\<lparr>wm_cache := s\<rparr>)" "same_maps (wm_cache w) s" "dc_cacheEpoch s = dc_cacheEpoch (wm_cache w)"
    "\<And>b u x. entry_fine env w b u x \<Longrightarrow> entry_fine env (w\<lparr>wm_cache := s\<rparr>) b u x"
    using verify_calm [OF Cons.prems(1) fine Cons.prems(3)] by blast
  have "\<exists>w'. verify_entries env epoch a v es (w\<lparr>wm_cache := s\<rparr>) = (AllChecked, w') \<and> calm w' \<and>
    same_maps (wm_cache (w\<lparr>wm_cache := s\<rparr>)) (wm_cache w') \<and> dc_cacheEpoch (wm_cache w') = epoch \<and>
    (\<forall>b u x. entry_fine env (w\<lparr>wm_cache := s\<rparr>) b u x \<longrightarrow> entry_fine env w' b u x)"
    using v Cons.prems by (intro Cons.IH) (auto simp: same_maps_def)
  then show ?case using i g v p by (auto simp: Let_def intro: same_maps_trans)
qed simp

text \<open>An item of the snapshot that is still current and whose entries are all fine.\<close>

definition item_fine :: "warm_env \<Rightarrow> warm \<Rightarrow> WarmItem \<Rightarrow> bool" where
  "item_fine env w item \<longleftrightarrow>
     wi_owner item < length (dc_views (wm_cache w)) \<and>
     (\<exists>c. map_of (dc_caches (wm_cache w)) (wi_archive item) = Some c \<and> ac_view c = Some (wi_owner item) \<and>
        \<not> ac_diskInvalidated c \<and> (\<forall>x \<in> set (ac_index c). entry_fine env w (wi_archive item) (wi_owner item) x))"

lemma warm_verify_calm:
  assumes "calm w" "dc_cacheEpoch (wm_cache w) = epoch" "\<forall>item \<in> set items. item_fine env w item"
  shows "\<exists>w'. warm_verify env epoch items w = (None, w') \<and> calm w' \<and>
    same_maps (wm_cache w) (wm_cache w') \<and> dc_cacheEpoch (wm_cache w') = epoch"
  using assms
proof (induction items arbitrary: w)
  case (Cons item items)
  have i: "interrupted epoch w = (None, w)" using interrupted_calm Cons.prems(1,2) by auto
  obtain c where c: "map_of (dc_caches (wm_cache w)) (wi_archive item) = Some c" "ac_view c = Some (wi_owner item)"
    "\<not> ac_diskInvalidated c" "\<forall>x \<in> set (ac_index c). entry_fine env w (wi_archive item) (wi_owner item) x"
    "wi_owner item < length (dc_views (wm_cache w))"
    using Cons.prems(3) by (auto simp: item_fine_def)
  obtain w1 where 1: "verify_entries env epoch (wi_archive item) (wi_owner item) (ac_index c) w = (AllChecked, w1)"
    "calm w1" "same_maps (wm_cache w) (wm_cache w1)" "dc_cacheEpoch (wm_cache w1) = epoch"
    "\<And>b u x. entry_fine env w b u x \<Longrightarrow> entry_fine env w1 b u x"
    using verify_entries_calm [OF Cons.prems(1,2) c(5,4)] by blast
  have i1: "interrupted epoch w1 = (None, w1)" using interrupted_calm 1(2,4) by auto
  have "\<forall>item \<in> set items. item_fine env w1 item"
    using Cons.prems(3) 1(3,5) by (fastforce simp: item_fine_def same_maps_def)
  from Cons.IH [OF 1(2,4) this] show ?case
    using i i1 c 1 by (auto simp: Let_def intro: same_maps_trans)
qed simp

lemma warm_snapshot_frame:
  assumes "dc_views s' = dc_views s" "dc_warmPriorityRank s' = dc_warmPriorityRank s"
  shows "warm_snapshot s' cs a b items = warm_snapshot s cs a b items"
proof (induction cs arbitrary: a b items)
  case (Cons x cs)
  have "warm_rank s' = warm_rank s" by (rule ext) (simp add: warm_rank_def assms Let_def)
  then show ?case using Cons by (cases x) (simp add: assms Let_def split: option.split)
qed simp

lemma calm_pass:
  assumes "calm w" "cfg_bPrefaultDecompCache (we_cfg env)" "we_pageSize env \<noteq> 0" "\<not> we_snapshotThrows env"
    and "\<And>v n. \<not> we_faults env v n"
    and "warm_snapshot (wm_cache w) (dc_caches (wm_cache w)) 0 0 [] = Some (cb, rb, found)"
    and "cfg_uDecompCacheMaxBytes (we_cfg env) \<noteq> 0" "cb \<le> cfg_uDecompCacheMaxBytes (we_cfg env)"
    and "\<forall>item \<in> set found. item_fine env w item"
  shows "\<exists>w'. WarmMappedCaches env w = (Complete, w') \<and> dc_warmComplete (wm_cache w') \<and>
    dc_warmedBytes (wm_cache w') = cb \<and> same_maps (wm_cache w) (wm_cache w')"
proof -
  define w1 where "w1 = on_warm (count_if (cfg_bMeasureStats (we_cfg env)) dg_warmPassesStarted_update 1) w"
  define e where "e = dc_cacheEpoch (wm_cache w1)"
  define w3 where "w3 = on_warm (\<lambda>s. s\<lparr>dc_warmedBytes := cb - rb\<rparr>) w1"
  have others: "wm_others w1 = []" using assms(1) by (simp add: w1_def calm_def)
  have sn: "warm_snapshot (wm_cache w1) cs a b items = warm_snapshot (wm_cache w) cs a b items" for cs a b items
    by (rule warm_snapshot_frame) (simp_all add: w1_def count_if_def)
  have found: "warm_snapshot (wm_cache w1) (dc_caches (wm_cache w1)) 0 0 [] = Some (cb, rb, found)"
    using assms(6) unfolding sn by (simp add: w1_def)
  have calm3: "calm w3" "dc_cacheEpoch (wm_cache w3) = e" using assms(1) by (simp_all add: calm_def w3_def w1_def e_def)
  obtain t w4 where 4: "warm_touch env e (cb - rb) (sort_items found) 0 w3 = ((None, t), w4)" "same_payloads w3 w4"
    using warm_touch_calm [OF calm3 assms(5)] by blast
  have calm4: "calm w4" "dc_cacheEpoch (wm_cache w4) = e" using 4(2) calm3 by (simp_all add: same_payloads_def)
  have "item_fine env w4 item" if "item_fine env w item" for item
    using that 4(2) by (auto simp: item_fine_def entry_fine_def Let_def same_payloads_def same_maps_def w3_def w1_def)
  then have "\<forall>item \<in> set (sort_items found). item_fine env w4 item" using assms(9) by simp
  then obtain w5 where 5: "warm_verify env e (sort_items found) w4 = (None, w5)" "calm w5"
    "same_maps (wm_cache w4) (wm_cache w5)" "dc_cacheEpoch (wm_cache w5) = e"
    using warm_verify_calm [OF calm4] by blast
  have "\<exists>w'. warm_publish env e cb w5 = (Complete, w') \<and> dc_warmComplete (wm_cache w') \<and>
      dc_warmedBytes (wm_cache w') = cb \<and> same_maps (wm_cache w5) (wm_cache w')"
    using 5(2,4) by (auto simp: warm_publish_def publishComplete_def undisturbed_pass_def calm_def Let_def count_if_def same_maps_def)
  moreover have "WarmMappedCaches env w = warm_publish env e cb w5"
    using assms(2-4,7,8) found 4(1) 5(1) observe_alone [OF others]
    by (simp add: WarmMappedCaches_def Let_def not_less [symmetric] flip: w1_def w3_def e_def)
  moreover have "same_maps (wm_cache w) (wm_cache w5)"
    using 4(2) 5(3) by (auto simp: same_payloads_def w3_def w1_def same_maps_def)
  ultimately show ?thesis by (auto intro: same_maps_trans)
qed

text \<open>
  C33: a warm pass does finish: when no one interferes, the mappings fit the ceiling, their
  pages can be read and their entries have the recorded checksums and declared sizes, the
  pass runs to its end and publishes that the cache is warm.
\<close>

theorem warm_pass_completes:
  assumes "calm w" "cfg_bPrefaultDecompCache (we_cfg env)" "we_pageSize env \<noteq> 0" "\<not> we_snapshotThrows env"
    and "\<And>v n. \<not> we_faults env v n"
    and "warm_snapshot (wm_cache w) (dc_caches (wm_cache w)) 0 0 [] = Some (cb, rb, found)"
    and "cfg_uDecompCacheMaxBytes (we_cfg env) \<noteq> 0" "cb \<le> cfg_uDecompCacheMaxBytes (we_cfg env)"
    and "\<forall>item \<in> set found. item_fine env w item"
  shows "\<exists>w'. WarmMappedCaches env w = (Complete, w') \<and> dc_warmComplete (wm_cache w') \<and>
    dc_warmedBytes (wm_cache w') = cb"
  using calm_pass [OF assms] by blast

end
