(* ===== verification/DecompWarmSamples.thy ===== *)
theory DecompWarmSamples
  imports DecompWarmCalm DecompSamples
begin

text \<open>A warm pass over the loaded sample cache.\<close>

definition warm_config :: CacheSettings where
  "warm_config = sample_config\<lparr>cfg_bPrefaultDecompCache := True\<rparr>"

definition sample_warm_env :: warm_env where
  "sample_warm_env = \<lparr>we_cfg = warm_config, we_qpc = 5, we_passTicks = 6, we_pageSize = 4096,
     we_faults = (\<lambda>_ _. False), we_lookup = sample_env, we_io = (\<lambda>_ _. True), we_snapshotThrows = False\<rparr>"

definition sample_warm :: "(bool \<times> (DecompCache \<Rightarrow> DecompCache)) list \<Rightarrow> warm" where
  "sample_warm others = \<lparr>wm_cache = wd loaded_world,
     wm_archives = (\<lambda>_. sample_archive\<lparr>ma_declaredSizes := [16 \<mapsto> 3, 40 \<mapsto> 1]\<rparr>),
     wm_stop = False, wm_others = others\<rparr>"

abbreviation sample_view :: MappedView where
  "sample_view \<equiv> ld_view (loaded_file sample_file 88 2 False)"

lemma sample_view_facts:
  "committed_bytes sample_view = 88" "warmed_bytes sample_view = 0" "mv_base sample_view = sample_file"
  "mv_verification sample_view = [kVerifyUnknown, kVerifyUnknown]"
  by (simp_all add: loaded_file_def committed_bytes_def warmed_bytes_def sample_shape(4) numeral_2_eq_2)

lemma sample_verdicts:
  "entry_verdict True sample_file \<lparr>ce_data = 84, ce_size = 3, ce_checksum = xxh32 [1, 2, 3], ce_slot = 0\<rparr>"
  "entry_verdict True sample_file \<lparr>ce_data = 87, ce_size = 1, ce_checksum = xxh32 [8], ce_slot = 1\<rparr>"
proof -
  have "take 1 (drop 87 sample_file) = [8]" by code_simp
  then show "entry_verdict True sample_file \<lparr>ce_data = 87, ce_size = 1, ce_checksum = xxh32 [8], ce_slot = 1\<rparr>"
    by (simp add: entry_verdict_def TryChecksumMapped_def entry_payload_def Checksum_def)
  show "entry_verdict True sample_file \<lparr>ce_data = 84, ce_size = 3, ce_checksum = xxh32 [1, 2, 3], ce_slot = 0\<rparr>"
    by (simp add: entry_verdict_def TryChecksumMapped_def entry_payload_def Checksum_def sample_payload)
qed

lemma sample_snapshot:
  "\<exists>item. warm_snapshot (wd loaded_world) (dc_caches (wd loaded_world)) 0 0 [] = Some (88, 88, [item]) \<and>
     wi_archive item = 7 \<and> wi_owner item = 0"
  using loaded_cache sample_view_facts
  by (simp add: settled_cache_def sample_cache_def AddChecked_def u64_max_def)


lemma sample_calm: "calm (sample_warm [])"
  using loaded_cache by (simp add: calm_def sample_warm_def settled_cache_def)

lemma sample_item_fine:
  assumes "wi_archive item = 7" "wi_owner item = 0"
  shows "item_fine sample_warm_env (sample_warm []) item"
  using assms loaded_cache sample_verdicts
  by (auto simp: item_fine_def entry_fine_def settled_cache_def sample_warm_def sample_warm_env_def sample_env_def
      sample_cache_def sample_index sample_view_facts)

lemma sample_pass_setting:
  "cfg_bPrefaultDecompCache (we_cfg sample_warm_env)" "we_pageSize sample_warm_env \<noteq> 0"
  "\<not> we_snapshotThrows sample_warm_env" "\<And>v n. \<not> we_faults sample_warm_env v n"
  "cfg_uDecompCacheMaxBytes (we_cfg sample_warm_env) \<noteq> 0" "88 \<le> cfg_uDecompCacheMaxBytes (we_cfg sample_warm_env)"
  "wm_cache (sample_warm others) = wd loaded_world"
  by (simp_all add: sample_warm_env_def warm_config_def sample_config_def sample_warm_def)

theorem warm_pass_completes_witness:
  "\<exists>w'. WarmMappedCaches sample_warm_env (sample_warm []) = (Complete, w') \<and> dc_warmComplete (wm_cache w') \<and>
     dc_warmedBytes (wm_cache w') = 88"
proof -
  obtain item where "warm_snapshot (wd loaded_world) (dc_caches (wd loaded_world)) 0 0 [] = Some (88, 88, [item])"
    "wi_archive item = 7" "wi_owner item = 0"
    using sample_snapshot by blast
  then show ?thesis
    by (intro warm_pass_completes [OF sample_calm sample_pass_setting(1-4), of 88 88 "[item]"])
      (simp_all add: sample_pass_setting sample_item_fine)
qed

lemma sample_orderly: "orderly (sample_warm [])"
  by (simp add: orderly_def sample_warm_def)


lemma flush_interferes_well: "interferes_well RequestFlush"
  unfolding interferes_well_def
proof
  fix s
  have "steady s (RequestFlush s)" by (rule steady_counts)
  then show "steady s (RequestFlush s) \<and> same_frontier s (RequestFlush s) \<and> keeps_flags s (RequestFlush s) \<and>
      (views_ok s \<longrightarrow> views_ok (RequestFlush s))"
    by (auto simp: same_frontier_def keeps_flags_def RequestFlush_def Let_def intro: views_ok_frame)
qed

theorem interrupted_pass_repeats_witness:
  "\<exists>w'. WarmMappedCaches sample_warm_env (sample_warm [(False, RequestFlush)]) = (Interrupted FlushWanted, w') \<and>
     dc_warmRequested (wm_cache w')"
proof -
  let ?w = "sample_warm [(False, RequestFlush)]"
  obtain item where item: "warm_snapshot (wd loaded_world) (dc_caches (wd loaded_world)) 0 0 [] = Some (88, 88, [item])"
    "wi_archive item = 7" "wi_owner item = 0"
    using sample_snapshot by blast
  have "\<exists>w'. WarmMappedCaches sample_warm_env ?w = (Interrupted FlushWanted, w')"
  proof -
    define w1 where "w1 = on_warm (count_if (cfg_bMeasureStats (we_cfg sample_warm_env)) dg_warmPassesStarted_update 1) ?w"
    define w2 where "w2 = observe w1"
    have w2: "wm_others w2 = []" "\<not> wm_stop w2" "dc_flushRequested (wm_cache w2)" "\<not> dc_loadActive (wm_cache w2)"
      "dc_views (wm_cache w2) = dc_views (wd loaded_world)" "dc_caches (wm_cache w2) = dc_caches (wd loaded_world)"
      "dc_warmPriorityRank (wm_cache w2) = dc_warmPriorityRank (wd loaded_world)"
      using loaded_cache
      by (simp_all add: w2_def w1_def sample_warm_def observe_def count_if_def RequestFlush_def Let_def settled_cache_def)
    have sn: "warm_snapshot (wm_cache w2) (dc_caches (wm_cache w2)) 0 0 [] = Some (88, 88, [item])"
      unfolding warm_snapshot_frame [OF w2(5,7)] w2(6) by (rule item(1))
    define w3 where "w3 = on_warm (\<lambda>s. s\<lparr>dc_warmedBytes := 0\<rparr>) w2"
    have i: "interrupted e w3 = (Some FlushWanted, w3)" for e
      using w2 by (simp add: interrupted_def w3_def Let_def)
    have v: "committed_bytes (dc_views (wm_cache w3) ! wi_owner item) = 88"
      "warmed_bytes (dc_views (wm_cache w3) ! wi_owner item) = 0"
      using w2(5) loaded_cache item(3) sample_view_facts by (simp_all add: w3_def settled_cache_def)
    obtain t w' where t: "warm_touch sample_warm_env (dc_cacheEpoch (wm_cache w1)) 0 [item] 0 w3 =
        ((Some (Interrupted FlushWanted), t), w')"
      using v by (auto simp: Let_def warm_chunks.simps i interrupt_pass_def)
    have "sort_items [item] = [item]" by (simp add: sort_items_def)
    with t show ?thesis
      using sample_pass_setting sn
      by (simp add: WarmMappedCaches_def Let_def del: warm_touch.simps flip: w1_def w2_def w3_def)
  qed
  then obtain w' where w': "WarmMappedCaches sample_warm_env ?w = (Interrupted FlushWanted, w')" ..
  have "orderly ?w" by (simp add: orderly_def sample_warm_def flush_interferes_well)
  with interrupted_pass_repeats [OF w'] w' show ?thesis by (simp add: must_repeat_def)
qed

end
