(* ===== verification/WorkerSamples.thy ===== *)
theory WorkerSamples
  imports DecompWorker DecompSnapshot DecompWarmSamples
begin

text \<open>A run of the worker that sleeps through a load screen and is shut down, and a snapshot of the
  loaded sample cache.\<close>

definition resting_worker :: "worker_pc \<Rightarrow> bool \<Rightarrow> nat \<Rightarrow> DecompCache \<Rightarrow> worker" where
  "resting_worker pc stop n s = \<lparr>wt_world = (sample_world [])\<lparr>wd := s\<rparr>, wt_archives = \<lambda>_. sample_archive, wt_stop = stop,
     wt_pc = pc, wt_notifies = n\<rparr>"

definition building_cache :: DecompCache where "building_cache = zero_cache\<lparr>dc_building := True\<rparr>"

definition started_cache :: DecompCache where
  "started_cache = RequestFlush (building_cache\<lparr>dc_backgroundStarted := True\<rparr>)"

definition loading_cache :: DecompCache where "loading_cache = load_exchange True started_cache"

lemma resting_sel [simp]:
  "wt_pc (resting_worker pc b n s) = pc" "wt_stop (resting_worker pc b n s) = b" "wt_notifies (resting_worker pc b n s) = n"
  "state_of (resting_worker pc b n s) = s" "(resting_worker pc b n s)\<lparr>wt_pc := pc'\<rparr> = resting_worker pc' b n s"
  "(resting_worker pc b n s)\<lparr>wt_stop := b'\<rparr> = resting_worker pc b' n s"
  "(resting_worker pc b n s)\<lparr>wt_notifies := m\<rparr> = resting_worker pc b m s"
  "on_state f (resting_worker pc b n s) = resting_worker pc b n (f s)"
  by (simp_all add: resting_worker_def state_of_def on_state_def on_cache_def)

lemma loading_facts: "dc_loadActive loading_cache" "dc_flushRequested loading_cache" "\<not> has_work loading_cache"
  "dc_backgroundStarted loading_cache"
  "dc_notifies loading_cache - dc_notifies started_cache = 1" "dc_notifies started_cache - dc_notifies building_cache = 1"
  by (simp_all add: loading_cache_def started_cache_def building_cache_def zero_cache_def load_exchange_def RequestFlush_def
      has_work_def Let_def)

lemma asleep_reached: "worker_reach sample_config (resting_worker (Asleep False) False 0 loading_cache)"
proof -
  let ?k = "\<lambda>pc n. resting_worker pc False n loading_cache"
  have 0: "worker_reach sample_config (resting_worker NotStarted False 0 building_cache)"
    by (rule Initially) (simp_all add: building_cache_def zero_cache_def)
  have "StartBackgroundFlush sample_config 0 False (resting_worker NotStarted False 0 building_cache) =
      resting_worker Entering False 1 started_cache"
    by (simp add: StartBackgroundFlush_def Let_def post_def building_cache_def zero_cache_def sample_config_def started_cache_def
        RequestFlush_def)
  then have 1: "worker_reach sample_config (resting_worker Entering False 1 started_cache)"
    using Other [OF 0 Starts [where q = 0 and throws = False]] by simp
  have "post (call_effect sample_config a (CallLoad True)) (resting_worker Entering False 1 started_cache) = ?k Entering 2" for a
    using loading_facts(5) by (simp add: post_def call_effect_def numeral_2_eq_2 flip: loading_cache_def)
  then have 2: "worker_reach sample_config (?k Entering 2)"
    using Other [OF 1 Calls [where c = "CallLoad True"]] by simp
  have sleep: "worker_reach sample_config (?k (Asleep False) n)" if "worker_reach sample_config (?k Entering n)" for n
    using Thread [OF that Test] loading_facts(3) by (simp add: worker_test_def wake_condition_def)
  have again: "worker_reach sample_config (?k (Asleep False) n)" if "worker_reach sample_config (?k (Asleep False) (Suc n))" for n
  proof -
    have "worker_reach sample_config (deliver (?k (Asleep False) (Suc n)))" by (rule Other [OF that Notified]) simp
    then have "worker_reach sample_config (?k (Asleep True) n)" by (simp add: deliver_def)
    from Thread [OF this Recheck] show ?thesis using loading_facts(3) by (simp add: worker_recheck_def wake_condition_def)
  qed
  show ?thesis using again [OF again [of "Suc 0"]] sleep [OF 2] by (simp add: numeral_2_eq_2)
qed

lemma no_lost_wakeup_witness:
  "worker_reach sample_config (resting_worker (Asleep False) False 0 loading_cache) \<and> dc_flushRequested loading_cache \<and>
     \<not> wake_condition (resting_worker (Asleep False) False 0 loading_cache)"
  using no_lost_wakeup [OF asleep_reached] asleep_reached loading_facts(2) by simp


lemma snapshot_exact_witness:
  "\<exists>r. GetBenchmarkSnapshot sample_config (\<lambda>ps. Some (map (\<lambda>_. True) ps)) 4096 9 True (wd loaded_world) = Some r \<and>
     bs_mappingCount r = 1 \<and> bs_entryCount r = 2 \<and> bs_payloadBytes r = 4 \<and> bs_totalPages r = 1 \<and> bs_residentBytes r = 88"
proof -
  let ?s = "wd loaded_world" and ?q = "\<lambda>ps :: (nat \<times> u64) list. Some (map (\<lambda>_. True) ps)"
  have s: "dc_caches ?s = [(7, sample_cache)]" "dc_views ?s = [sample_view]"
    using loaded_cache by (simp_all add: settled_cache_def)
  have ok: "snapshot_usable ?s sample_cache"
    using sample_view_facts(1) by (simp add: snapshot_usable_def s sample_cache_def loaded_file_def)
  have u: "usable_caches ?s (dc_caches ?s) = [sample_cache]" by (simp add: usable_caches_def ok s(1))
  have v: "cache_view ?s sample_cache = sample_view" by (simp add: cache_view_def s sample_cache_def)
  have ranges: "usable_ranges ?s (dc_caches ?s) = [(0, 88)]"
    by (simp add: usable_ranges_def u v sample_view_facts(1)) (simp add: sample_cache_def)
  have pages: "range_pages 4096 [(0, 88)] = [(0, 0, 88)]" by code_simp
  have es: "map snd (usable_entries ?s (dc_caches ?s)) = [\<lparr>ce_data = 84, ce_size = 3, ce_checksum = xxh32 [1, 2, 3], ce_slot = 0\<rparr>,
     \<lparr>ce_data = 87, ce_size = 1, ce_checksum = xxh32 [8], ce_slot = 1\<rparr>]"
    by (simp add: usable_entries_def u sample_cache_def sample_index comp_def)
  have "length (usable_entries ?s (dc_caches ?s)) = length (map snd (usable_entries ?s (dc_caches ?s)))" by simp
  then have len: "length (usable_entries ?s (dc_caches ?s)) = 2" unfolding es by simp
  have "map (\<lambda>(v, e). u64_of_u32 (ce_size e)) (usable_entries ?s (dc_caches ?s)) =
      map (\<lambda>e. u64_of_u32 (ce_size e)) (map snd (usable_entries ?s (dc_caches ?s)))" by (simp add: split_beta)
  also have "\<dots> = [3, 1]" unfolding es by simp code_simp
  finally have sizes: "map (\<lambda>(v, e). u64_of_u32 (ce_size e)) (usable_entries ?s (dc_caches ?s)) = [3, 1]" .
  have n88: "u64_of_u32 88 = 88" by code_simp
  have t: "truthful (\<lambda>_. True) ?q" by (simp add: truthful_def)
  have "\<forall>c \<in> set (usable_caches ?s (dc_caches ?s)). unat (committed_bytes (cache_view ?s c)) + unat (4096 :: u64) \<le> 2 ^ 64"
    by (simp add: u v sample_view_facts(1))
  from snapshot_exact [OF t _ this, of sample_config 9] show ?thesis
    unfolding Let_def ranges pages u
    by (simp add: add_pages_def add_entries_def add_mappings_def Let_def len sizes snapshot_start_def n88 v sample_view_facts(1))
qed

end
