(* ===== verification/SourceSeqlock.thy ===== *)
theory SourceSeqlock
  imports SourceCache
begin

text \<open>
  One slot of the source table under concurrency (Skyrim/src/Hooks.cpp, \<open>SourceLookup\<close> and
  \<open>SourceInsert\<close>): the insertion mutex admits one writer, which makes the generation odd,
  stores the fields one by one and makes it even again; readers load the generation, the
  fields and the generation again, and start over unless both loads agree on an even value.
  A reader may also push the deadline of an expired miss.  Every load and store is a step.
\<close>

datatype writer_pc =
    WIdle
  | WOdd u64 archive_ptr u64
  | WInner u64 archive_ptr u64
  | WArchive u64 archive_ptr u64
  | WDeadline u64 archive_ptr u64

datatype reader_pc =
    RStart
  | RBefore u64
  | RInner u64 u64
  | RArchive u64 u64 archive_ptr
  | RDeadline u64 u64 archive_ptr u64
  | RAccepted u64 archive_ptr u64

text \<open>\<open>sl_published\<close> is a ghost: the pairs that were ever complete; \<open>sl_writes\<close> counts them.\<close>

record slot_sys =
  sl_entry :: SourceHashEntry
  sl_writer :: writer_pc
  sl_readers :: "nat \<Rightarrow> reader_pc"
  sl_published :: "(u64 \<times> archive_ptr) set"
  sl_writes :: nat

definition slot_init :: "SourceHashEntry \<Rightarrow> slot_sys" where
  "slot_init e = \<lparr>sl_entry = e\<lparr>sh_generation := 0\<rparr>, sl_writer = WIdle, sl_readers = (\<lambda>_. RStart),
     sl_published = {(sh_innerStream e, sh_archive e)}, sl_writes = 0\<rparr>"

definition writer_step :: "u64 \<times> archive_ptr \<times> u64 \<Rightarrow> slot_sys \<Rightarrow> slot_sys" where
  "writer_step new s =
     (let e = sl_entry s in
      case sl_writer s of
        WIdle \<Rightarrow> (case new of (i, a, d) \<Rightarrow>
          s\<lparr>sl_entry := e\<lparr>sh_generation := sh_generation e + 1\<rparr>, sl_writer := WOdd i a d\<rparr>)
      | WOdd i a d \<Rightarrow> s\<lparr>sl_entry := e\<lparr>sh_innerStream := i\<rparr>, sl_writer := WInner i a d\<rparr>
      | WInner i a d \<Rightarrow> s\<lparr>sl_entry := e\<lparr>sh_archive := a\<rparr>, sl_writer := WArchive i a d\<rparr>
      | WArchive i a d \<Rightarrow> s\<lparr>sl_entry := e\<lparr>sh_validUntilMs := d\<rparr>, sl_writer := WDeadline i a d\<rparr>
      | WDeadline i a d \<Rightarrow>
          s\<lparr>sl_entry := e\<lparr>sh_generation := sh_generation e + 1\<rparr>, sl_writer := WIdle,
            sl_published := insert (i, a) (sl_published s), sl_writes := sl_writes s + 1\<rparr>)"

definition reader_step :: "nat \<Rightarrow> slot_sys \<Rightarrow> slot_sys" where
  "reader_step r s =
     (let e = sl_entry s;
          pc = (case sl_readers s r of
              RStart \<Rightarrow> if sh_generation e AND 1 \<noteq> 0 then RStart else RBefore (sh_generation e)
            | RBefore before \<Rightarrow> RInner before (sh_innerStream e)
            | RInner before i \<Rightarrow> RArchive before i (sh_archive e)
            | RArchive before i a \<Rightarrow> RDeadline before i a (sh_validUntilMs e)
            | RDeadline before i a d \<Rightarrow> if before \<noteq> sh_generation e then RStart else RAccepted i a d
            | RAccepted i a d \<Rightarrow> RStart)
      in s\<lparr>sl_readers := (sl_readers s)(r := pc)\<rparr>)"

text \<open>The compare-exchange of a reader that found an expired miss.\<close>

definition push_deadline :: "u64 \<Rightarrow> u64 \<Rightarrow> slot_sys \<Rightarrow> slot_sys" where
  "push_deadline expected deadline s =
     (if sh_validUntilMs (sl_entry s) = expected
      then s\<lparr>sl_entry := (sl_entry s)\<lparr>sh_validUntilMs := deadline\<rparr>\<rparr> else s)"

inductive slot_reach :: "SourceHashEntry \<Rightarrow> slot_sys \<Rightarrow> bool" for e where
  init: "slot_reach e (slot_init e)"
| written: "slot_reach e s \<Longrightarrow> slot_reach e (writer_step new s)"
| loaded: "slot_reach e s \<Longrightarrow> slot_reach e (reader_step r s)"
| pushed: "slot_reach e s \<Longrightarrow> slot_reach e (push_deadline expected deadline s)"

section \<open>Coherence\<close>

text \<open>What a reader has loaded still is the pair in the slot, unless the generation moved.\<close>

fun reader_ok :: "SourceHashEntry \<Rightarrow> (u64 \<times> archive_ptr) set \<Rightarrow> reader_pc \<Rightarrow> bool" where
  "reader_ok e P RStart = True"
| "reader_ok e P (RBefore b) \<longleftrightarrow> even (unat b) \<and> b \<le> sh_generation e"
| "reader_ok e P (RInner b i) \<longleftrightarrow> even (unat b) \<and> b \<le> sh_generation e \<and>
     (b = sh_generation e \<longrightarrow> i = sh_innerStream e)"
| "reader_ok e P (RArchive b i a) \<longleftrightarrow> even (unat b) \<and> b \<le> sh_generation e \<and>
     (b = sh_generation e \<longrightarrow> i = sh_innerStream e \<and> a = sh_archive e)"
| "reader_ok e P (RDeadline b i a d) \<longleftrightarrow> even (unat b) \<and> b \<le> sh_generation e \<and>
     (b = sh_generation e \<longrightarrow> i = sh_innerStream e \<and> a = sh_archive e)"
| "reader_ok e P (RAccepted i a d) \<longleftrightarrow> (i, a) \<in> P"

fun writer_ok :: "SourceHashEntry \<Rightarrow> (u64 \<times> archive_ptr) set \<Rightarrow> writer_pc \<Rightarrow> bool" where
  "writer_ok e P WIdle \<longleftrightarrow> (sh_innerStream e, sh_archive e) \<in> P"
| "writer_ok e P (WOdd i a d) = True"
| "writer_ok e P (WInner i a d) \<longleftrightarrow> sh_innerStream e = i"
| "writer_ok e P (WArchive i a d) \<longleftrightarrow> sh_innerStream e = i \<and> sh_archive e = a"
| "writer_ok e P (WDeadline i a d) \<longleftrightarrow> sh_innerStream e = i \<and> sh_archive e = a"

definition slot_inv :: "slot_sys \<Rightarrow> bool" where
  "slot_inv s \<longleftrightarrow>
     unat (sh_generation (sl_entry s)) = 2 * sl_writes s + (if sl_writer s = WIdle then 0 else 1) \<and>
     writer_ok (sl_entry s) (sl_published s) (sl_writer s) \<and>
     (\<forall>r. reader_ok (sl_entry s) (sl_published s) (sl_readers s r))"

lemma reader_ok_mono: "reader_ok e P pc \<Longrightarrow> P \<subseteq> Q \<Longrightarrow> reader_ok e Q pc"
  by (cases pc) auto

text \<open>Once the generation has moved past them, the fields no longer matter to the readers.\<close>

lemma reader_ok_advance:
  "reader_ok e P pc \<Longrightarrow> sh_generation e < sh_generation e' \<Longrightarrow> reader_ok e' P pc"
  by (cases pc) auto

lemma reader_ok_odd:
  assumes "reader_ok e P pc" "odd (unat (sh_generation e))" "sh_generation e' = sh_generation e"
  shows "reader_ok e' P pc"
  using assms by (cases pc) auto

lemma even_gen: "x AND 1 = 0 \<longleftrightarrow> even (unat x)" for x :: u64
  using bit_unsigned_iff [where ?'a = nat, of x 0] by (auto simp: and_one_eq mod2_eq_if bit_0)

lemma gen_step:
  fixes g :: u64
  assumes "unat g < 2 ^ 64 - 1"
  shows "unat (g + 1) = unat g + 1" "g < g + 1"
  using assms by (simp_all add: unat_add_noovf word_less_nat_alt)

lemma slot_inv_writer:
  assumes "slot_inv s" "sl_writes (writer_step new s) < 2 ^ 63"
  shows "slot_inv (writer_step new s)"
proof -
  let ?e = "sl_entry s"
  have g: "unat (sh_generation ?e) = 2 * sl_writes s + (if sl_writer s = WIdle then 0 else 1)"
    and w: "writer_ok ?e (sl_published s) (sl_writer s)"
    and r: "\<And>r. reader_ok ?e (sl_published s) (sl_readers s r)"
    using assms(1) by (simp_all add: slot_inv_def)
  show ?thesis
  proof (cases "sl_writer s")
    case WIdle
    obtain i a d where new: "new = (i, a, d)" by (cases new)
    have n: "unat (sh_generation ?e) < 2 ^ 64 - 1" using g WIdle assms(2) by (simp add: writer_step_def Let_def new)
    show ?thesis
      using WIdle g gen_step [OF n] r reader_ok_advance [OF r]
      by (simp add: slot_inv_def writer_step_def Let_def new)
  next
    case (WOdd i a d)
    then show ?thesis using g w reader_ok_odd [OF r] by (simp add: slot_inv_def writer_step_def Let_def)
  next
    case (WInner i a d)
    then show ?thesis using g w reader_ok_odd [OF r] by (simp add: slot_inv_def writer_step_def Let_def)
  next
    case (WArchive i a d)
    then show ?thesis using g w reader_ok_odd [OF r] by (simp add: slot_inv_def writer_step_def Let_def)
  next
    case (WDeadline i a d)
    have n: "unat (sh_generation ?e) < 2 ^ 64 - 1" using g WDeadline assms(2) by (simp add: writer_step_def Let_def)
    have "reader_ok (?e\<lparr>sh_generation := sh_generation ?e + 1\<rparr>) (insert (i, a) (sl_published s)) (sl_readers s r)" for r
      by (rule reader_ok_mono [OF reader_ok_advance [OF r]]) (use gen_step [OF n] in auto)
    then show ?thesis
      using WDeadline g w gen_step [OF n] by (simp add: slot_inv_def writer_step_def Let_def)
  qed
qed

lemma slot_inv_reader:
  assumes "slot_inv s"
  shows "slot_inv (reader_step q s)"
proof -
  have r: "reader_ok (sl_entry s) (sl_published s) (sl_readers s r)" for r
    using assms by (simp add: slot_inv_def)
  have idle: "sl_writer s = WIdle" if "even (unat (sh_generation (sl_entry s)))"
    using assms that by (auto simp: slot_inv_def split: if_splits)
  have pair: "(sh_innerStream (sl_entry s), sh_archive (sl_entry s)) \<in> sl_published s"
    if "even (unat (sh_generation (sl_entry s)))"
    using assms idle [OF that] by (simp add: slot_inv_def)
  show ?thesis
    using assms r [of q] pair
    by (cases "sl_readers s q") (auto simp: slot_inv_def reader_step_def Let_def even_gen)
qed

lemma slot_inv_push: "slot_inv s \<Longrightarrow> slot_inv (push_deadline x d s)"
proof -
  have "reader_ok (e\<lparr>sh_validUntilMs := d\<rparr>) P pc = reader_ok e P pc"
    "writer_ok (e\<lparr>sh_validUntilMs := d\<rparr>) P w = writer_ok e P w" for e P pc w
    by (cases pc; simp) (cases w; simp)
  then show "slot_inv s \<Longrightarrow> slot_inv (push_deadline x d s)"
    by (cases "sl_writer s") (auto simp: slot_inv_def push_deadline_def)
qed

lemma writes_mono: "sl_writes s \<le> sl_writes (writer_step new s)"
  by (simp add: writer_step_def Let_def split: writer_pc.split prod.split)

lemma slot_reach_inv: "slot_reach e s \<Longrightarrow> sl_writes s < 2 ^ 63 \<Longrightarrow> slot_inv s"
proof (induction rule: slot_reach.induct)
  case init
  then show ?case by (simp add: slot_inv_def slot_init_def)
next
  case (written s new)
  then show ?case using slot_inv_writer writes_mono [of s new] by simp
next
  case (loaded s r)
  then show ?case by (intro slot_inv_reader) (simp add: reader_step_def Let_def)
next
  case (pushed s x d)
  then show ?case by (intro slot_inv_push) (simp add: push_deadline_def split: if_splits)
qed

text \<open>
  C16: readers of a slot never see a torn entry: however the stores of a writer, the loads of any
  number of readers and their deadline updates interleave, the backing stream and archive a
  reader accepts were published together.
\<close>

theorem no_torn_source:
  assumes "slot_reach e s" "sl_writes s < 2 ^ 63" "sl_readers s r = RAccepted inner archive deadline"
  shows "(inner, archive) \<in> sl_published s"
proof -
  have "reader_ok (sl_entry s) (sl_published s) (sl_readers s r)"
    using slot_reach_inv [OF assms(1,2)] by (simp add: slot_inv_def)
  then show ?thesis by (simp add: assms(3))
qed

text \<open>A reader that has loaded the old pair when the writer comes starts over.\<close>

definition torn_entry :: SourceHashEntry where
  "torn_entry = \<lparr>sh_key = 16, sh_generation = 0, sh_innerStream = 1, sh_archive = ArchiveAt 1, sh_validUntilMs = 0\<rparr>"

definition torn_run :: slot_sys where
  "torn_run =
     (let w = writer_step (2, ArchiveAt 2, 0); r = reader_step 0
      in (r ^^ 8) ((w ^^ 5) ((r ^^ 2) (slot_init torn_entry))))"

lemma no_torn_source_witness:
  "\<exists>s. slot_reach torn_entry s \<and> sl_readers s 0 = RAccepted 2 (ArchiveAt 2) 0 \<and>
     (2, ArchiveAt 2) \<in> sl_published s"
proof -
  have r: "slot_reach e s \<Longrightarrow> slot_reach e ((reader_step 0 ^^ n) s)"
    and w: "slot_reach e s \<Longrightarrow> slot_reach e ((writer_step new ^^ n) s)" for e s n new
    by (induction n) (auto intro: slot_reach.loaded slot_reach.written)
  have "slot_reach torn_entry torn_run"
    unfolding torn_run_def Let_def by (intro r w slot_reach.init)
  moreover have "sl_writes torn_run = 1" "sl_readers torn_run 0 = RAccepted 2 (ArchiveAt 2) 0"
    by (simp_all add: torn_run_def eval_nat_numeral slot_init_def reader_step_def
        writer_step_def torn_entry_def Let_def)
  ultimately show ?thesis using no_torn_source [of torn_entry torn_run 0 2 "ArchiveAt 2" 0] by auto
qed

end
