(* ===== verification/CommitSamples.thy ===== *)
theory CommitSamples
  imports CacheLoad
begin

text \<open>
  Concrete runs of the cache-file writers: an archive of two entries whose cache file holds
  one payload, to which a second one is appended, with and without a failing call.
\<close>

definition id2 :: ArchiveIdentity where
  "id2 = \<lparr>ai_fileSize = 100, ai_lastWrite = 7, ai_fingerprint = 9, ai_entryCount = 2\<rparr>"

definition pend :: "u32 \<Rightarrow> bytes \<Rightarrow> PreparedPending" where
  "pend off bs = \<lparr>pp_off = off, pp_data = bs, pp_size = of_nat (length bs), pp_checksum = xxh32 bs\<rparr>"

definition work2 :: OLWork where
  "work2 = \<lparr>wk_archive = 0, wk_basePath = [], wk_identity = id2, wk_cancellable = False,
     wk_resetFile = False, wk_sourceView = None, wk_verifiedOffsets = [],
     wk_pending = [\<lparr>op_off = 16, op_accountedBytes = 3, op_data = [1, 2, 3]\<rparr>]\<rparr>"

definition p1 :: PreparedPending where "p1 = pend 16 [1, 2, 3]"
definition p2 :: PreparedPending where "p2 = pend 40 [8]"

definition es1 :: "Entry list" where
  "es1 = [\<lparr>e_startOffset = 16, e_decompSize = 3, e_cacheOffset = 84, e_checksum = xxh32 [1, 2, 3]\<rparr>]"

definition old1 :: bytes where "old1 = fresh_image id2 es1 [p1]"

definition disk1 :: "outcome list \<Rightarrow> disk" where
  "disk1 script = \<lparr>dk_base = Some (durable_file old1), dk_temp = None, dk_cancel = [], dk_sys = script\<rparr>"

lemma prepared_samples: "\<forall>p \<in> set [p1]. prepared_ok p \<and> pp_size p \<le> kMaxPayloadSize"
  "\<forall>p \<in> set [p2]. prepared_ok p \<and> pp_size p \<le> kMaxPayloadSize"
  by (simp_all add: p1_def p2_def pend_def prepared_ok_def kMaxPayloadSize_def)

lemma layout1: "layout_entries 84 [p1] = Some es1"
  by (simp add: p1_def pend_def es1_def AddChecked_def u64_max_def u64_of_u32_def)

lemma old1_full: "cache_accepted old1 (Some id2) FullPayload False" and committed_old1: "committed_of old1 = es1"
  unfolding old1_def
  using fresh_image_accepted [OF prepared_samples(1) _ _ _ _ layout1, of id2]
  by (simp_all add: id2_def kMaxIndexCapacity_def p1_def)

lemma cache_accepted_weaken:
  "cache_accepted c ident FullPayload False \<Longrightarrow> cache_accepted c ident mode allow"
  by (auto simp: cache_accepted_def entry_accepted_def Let_def)

lemma header_old1: "load_header old1 = fresh_header id2 1"
proof -
  have "load_header (fresh_image id2 es1 [p1]) = fresh_header id2 (length es1)"
    unfolding fresh_image_def by (rule load_header_image) (simp add: fresh_header_def kMagic_def)
  then show ?thesis by (simp add: old1_def es1_def)
qed

lemma count_old1: "unat (h_entryCount (load_header old1)) = Suc 0"
  by (simp add: header_old1 fresh_header_def)

lemma entries_old1: "committed_entries old1 (Suc 0) = es1"
  using committed_old1 by (simp only: count_old1)

lemma size_old1: "committed_size old1 = 87" "length old1 = 87"
proof -
  show s: "committed_size old1 = 87"
    by (simp add: committed_size_eq count_old1 entries_old1 payload_start_def header_old1 data_start_def
        fresh_header_def id2_def sizeof_Header_def sizeof_Entry_def es1_def)
  then show "length old1 = 87"
    using cache_acceptedD(4) [OF old1_full] by (simp add: committed_size_eq)
qed

lemma old1_ok: "vr_ok (Validate (Some old1) (length old1) (Some id2) mode allow)"
  using cache_accepted_weaken [OF old1_full] by (simp add: Validate_ok_iff)

lemma base_disk1: "dk_base (disk1 s) = Some (durable_file old1)" "content BaseFile (disk1 s) = old1"
  "dk_sys (disk1 s) = s"
  by (simp_all add: disk1_def the_file.simps durable_file_def)

lemma slots_old1: "slots_left old1 = 1"
  unfolding slots_left_def by (simp add: header_old1 fresh_header_def id2_def)

lemma append_sample: "(\<forall>p \<in> set [p2]. prepared_ok p) \<and> length [p2] \<le> slots_left old1"
  using prepared_samples(2) by (simp add: slots_old1)

lemma len_old1: "length old1 < 2 ^ 64" "length old1 < 2 ^ 63"
  by (simp_all add: size_old1(2))

lemma window_prologue:
  assumes "append_prologue False (load_header old1) (committed_size old1) [p2] (disk1 s) = (r, d')"
  shows "content BaseFile d' \<in> set (window BaseFile d')"
proof -
  have acc: "cache_accepted old1 (Some id2) FullPayload False" by (rule old1_full)
  have "window_inv BaseFile (carries old1) (disk1 s)"
    using carries_self [OF acc] by (simp add: window_inv_def disk1_def the_file.simps durable_file_def)
  from append_prologue_carries [OF acc len_old1(1) append_sample this assms] show ?thesis
    by (simp add: window_inv_def)
qed

lemma crash_image_current: "w \<in> set win \<Longrightarrow> crash_image win w"
  by (auto simp: crash_image_def)

lemma append_crash_safe_witness:
  "let (r, d') = append_prologue False (load_header old1) (committed_size old1) [p2]
         (disk1 [Succeeds, Succeeds, Succeeds, Fails 0]) in
   committed_of (content BaseFile d') = committed_of old1"
proof -
  obtain r d' where run: "append_prologue False (load_header old1) (committed_size old1) [p2]
         (disk1 [Succeeds, Succeeds, Succeeds, Fails 0]) = (r, d')" by force
  have "crash_image (window BaseFile d') (content BaseFile d')"
    by (rule crash_image_current [OF window_prologue [OF run]])
  from append_crash_safe [OF old1_ok len_old1(1) append_sample base_disk1(1) run this]
  have "committed_of (content BaseFile d') = committed_of old1" by blast
  then show ?thesis by (simp only: run Let_def prod.case)
qed

definition es2 :: "Entry list" where
  "es2 = [\<lparr>e_startOffset = 40, e_decompSize = 1, e_cacheOffset = 87, e_checksum = xxh32 [8]\<rparr>]"

lemma layout2: "layout_entries (of_nat (committed_size old1)) [p2] = Some es2"
  by (simp add: size_old1 es2_def p2_def pend_def AddChecked_def u64_max_def u64_of_u32_def)

lemma payload_bytes_p2 [simp]: "payload_bytes [p2] = [8]"
  by (simp add: payload_bytes_def p2_def pend_def)

lemma append_phases_progress_witness:
  "\<exists>d'. append_phases False (load_header old1) (committed_size old1) [p2] (disk1 []) = (True, d') \<and>
     dk_sys d' = []"
  by (rule append_phases_progress [OF layout2]) (use prepared_samples(2) in \<open>simp_all add: size_old1 disk1_def\<close>)

lemma header_slots_old1: "unat (h_indexCapacity (load_header old1)) = 2"
  by (simp add: header_old1 fresh_header_def id2_def)

lemma payload_old1: "payload_of old1 (hd es1) = [1, 2, 3]"
  using fresh_image_payload [of "[p1]" 84 es1 id2 0] prepared_samples(1) layout1
  by (simp add: old1_def es1_def payload_of_def p1_def pend_def id2_def)

lemma append_commits_witness:
  "\<exists>d' new. append_phases False (load_header old1) (committed_size old1) [p2] (disk1 []) = (True, d') \<and>
     content BaseFile d' = new \<and> map (payload_of new) (committed_of new) = [[1, 2, 3], [8]]"
proof -
  obtain d' where run: "append_phases False (load_header old1) (committed_size old1) [p2] (disk1 []) = (True, d')"
    using append_phases_progress_witness by blast
  have dist: "distinct (map e_startOffset (committed_of old1) @ map pp_off [p2])"
    unfolding committed_old1 by (simp add: es1_def p2_def pend_def)
  have len: "length old1 < 2 ^ 64" by (simp add: size_old1(2))
  have room: "length [p2] \<le> unat (h_indexCapacity (load_header old1)) - unat (h_entryCount (load_header old1))"
    by (simp add: header_slots_old1 count_old1)
  from append_commits [OF old1_ok [of StructuralOnly True] len prepared_samples(2) dist room
      base_disk1(2) run]
  obtain new es where new: "content BaseFile d' = new" "committed_of new = committed_of old1 @ es"
    "map (payload_of new) es = map pp_data [p2]"
    "\<forall>e \<in> set (committed_of old1). payload_of new e = payload_of old1 e"
    by blast
  have "map (payload_of new) (committed_of old1) = [[1, 2, 3]]"
    using new(4) payload_old1 unfolding committed_old1 by (simp add: es1_def)
  with new(2,3) have "map (payload_of new) (committed_of new) = [[1, 2, 3], [8]]"
    by (simp add: p2_def pend_def)
  with run new(1) show ?thesis by (intro exI conjI)
qed

text \<open>The disk refuses the payload, writing one byte of it, and recovers afterwards.\<close>

lemma failed_prologue:
  "\<exists>d'. append_prologue False (load_header old1) (committed_size old1) [p2]
      (disk1 [Succeeds, Succeeds, Succeeds, Fails 1]) = (False, d') \<and> dk_sys d' = [] \<and>
     length (content BaseFile d') < 2 ^ 63"
proof -
  have "\<exists>d'. append_payloads False 87 [p2] True (disk1 [Succeeds, Succeeds, Succeeds, Fails 1]) = (False, d') \<and>
      dk_sys d' = [] \<and> length (content BaseFile d') < 2 ^ 63"
    by (simp add: append_payloads_def Truncate_def Seek_def sys_call_def next_sys_def base_disk1
        WriteAt_def write_chunks.simps [of BaseFile False 87 "[8]"] Let_def p2_def pend_def length_write_span kWriteChunk_def)
  then show ?thesis
    unfolding append_prologue_def layout2 by (auto simp: size_old1)
qed

lemma rollback_restores_witness:
  "\<exists>r d' c. append_prologue False (load_header old1) (committed_size old1) [p2]
        (disk1 [Succeeds, Succeeds, Succeeds, Fails 1]) = (r, d') \<and> \<not> r \<and>
     dk_base (rollback (load_header old1) (committed_size old1) d') = Some (durable_file c) \<and>
     Validate (Some c) (length c) (Some id2) StructuralOnly True =
       Validate (Some old1) (length old1) (Some id2) StructuralOnly True"
proof -
  let ?d = "disk1 [Succeeds, Succeeds, Succeeds, Fails 1]"
  obtain d' where run: "append_prologue False (load_header old1) (committed_size old1) [p2] ?d = (False, d')"
    and s: "dk_sys d' = []"
    using failed_prologue by blast
  from rollback_restores [OF old1_ok [of StructuralOnly True] len_old1(2) append_sample base_disk1(1) run s]
    run show ?thesis by blast
qed

lemma append_header_atomic_witness:
  "\<exists>d1 d2. append_prologue False (load_header old1) (committed_size old1) [p2] (disk1 []) = (True, d1) \<and>
     WriteAt BaseFile False 0 (header_bytes (fresh_header id2 2)) d1 = (True, d2) \<and>
     (\<forall>c \<in> {content BaseFile d2}. c = content BaseFile d2 \<or> committed_of c = committed_of old1)"
proof -
  obtain d1 where run: "append_prologue False (load_header old1) (committed_size old1) [p2] (disk1 []) = (True, d1)"
    and s: "dk_sys d1 = []"
    using undisturbed_append_prologue [OF layout2, of "disk1 []"] prepared_samples(2)
    by (auto simp: size_old1 disk1_def)
  let ?hb = "header_bytes (fresh_header id2 2)"
  have hb: "length ?hb = 44" by (simp add: fresh_header_def kMagic_def)
  define d2 where "d2 = change_file BaseFile (write_span 0 ?hb) d1"
  have wr: "WriteAt BaseFile False 0 ?hb d1 = (True, d2)"
    unfolding d2_def by (rule WriteAt_undisturbed [OF s]) (use hb in \<open>auto simp: kWriteChunk_def\<close>)
  have img: "crash_image (window BaseFile d2) (content BaseFile d2)"
    by (rule crash_image_current) (simp add: d2_def)
  from append_header_atomic [OF old1_ok [of StructuralOnly True] len_old1(1) append_sample base_disk1(1)
      run _ _ _ wr img]
  have "content BaseFile d2 = content BaseFile d2 \<or> committed_of (content BaseFile d2) = committed_of old1"
    by (auto simp: sizeof_Header_def kWriteChunk_def hb)
  with run wr show ?thesis by auto
qed

lemma fresh_progress_witness:
  "\<exists>r d'. WriteFreshFile work2 [p1] (disk1 []) = (r, d') \<and> ol_ok r"
  by (rule fresh_progress)
    (use prepared_samples(1) in \<open>simp_all add: disk1_def work2_def id2_def kMaxIndexCapacity_def
       payload_bytes_def p1_def pend_def\<close>)

lemma fresh_all_or_nothing_witness:
  "\<exists>r d' v. WriteFreshFile work2 [p1] (disk1 []) = (r, d') \<and> ol_view r = Some v \<and>
     serves v (ol_index r) 16 = Some [1, 2, 3]"
proof -
  obtain r d' where run: "WriteFreshFile work2 [p1] (disk1 []) = (r, d')" "ol_ok r"
    using fresh_succeeds [of "disk1 []" work2 "[p1]"] prepared_samples(1)
    by (auto simp: disk1_def work2_def id2_def kMaxIndexCapacity_def payload_bytes_def p1_def pend_def)
  have "ai_entryCount (wk_identity work2) \<le> kMaxIndexCapacity"
    by (simp add: work2_def id2_def kMaxIndexCapacity_def)
  from fresh_all_or_nothing [OF run(1) prepared_samples(1) this] run
  show ?thesis by (auto simp: p1_def pend_def)
qed

text \<open>The file of a failed append, loaded by the next process.\<close>

lemma failed_append_loads:
  "\<exists>r d' l d3. append_prologue False (load_header old1) (committed_size old1) [p2]
        (disk1 [Succeeds, Succeeds, Succeeds, Fails 1]) = (r, d') \<and>
     content BaseFile d' \<in> set (window BaseFile d') \<and>
     LoadFile id2 \<lparr>dk_base = Some (durable_file (content BaseFile d')), dk_temp = None, dk_cancel = [],
       dk_sys = []\<rparr> = (Some l, d3)"
proof -
  let ?d = "disk1 [Succeeds, Succeeds, Succeeds, Fails 1]"
  obtain d' where run: "append_prologue False (load_header old1) (committed_size old1) [p2] ?d = (False, d')"
    and short: "length (content BaseFile d') < 2 ^ 63"
    using failed_prologue by blast
  let ?c = "content BaseFile d'"
  have acc: "cache_accepted old1 (Some id2) StructuralOnly True"
    using old1_ok by (simp flip: Validate_ok_iff)
  have inw: "?c \<in> set (window BaseFile d')" by (rule window_prologue [OF run])
  have carr: "carries old1 ?c"
    by (rule crash_carries [OF acc len_old1(1) append_sample base_disk1(1) run crash_image_current [OF inw]])
  have "cache_accepted ?c (Some id2) StructuralOnly True"
    using carries_validates [OF acc carr] acc by (simp flip: Validate_ok_iff)
  with short obtain l d3 where "LoadFile id2 \<lparr>dk_base = Some (durable_file ?c), dk_temp = None,
      dk_cancel = [], dk_sys = []\<rparr> = (Some l, d3)"
    using LoadFile_undisturbed [of "\<lparr>dk_base = Some (durable_file ?c), dk_temp = None, dk_cancel = [],
        dk_sys = []\<rparr>" "durable_file ?c" id2] by (auto simp: durable_file_def)
  with run inw show ?thesis by blast
qed


lemma load_progress_witness:
  "\<exists>l d'. LoadFile id2 (disk1 []) = (Some l, d') \<and> \<not> ld_needsReplacement l"
  by (rule load_progress [OF _ base_disk1(1)])
    (use old1_ok in \<open>simp_all add: disk1_def durable_file_def size_old1(2)\<close>)

end
