(* ===== verification/BA2Archive.thy ===== *)
theory BA2Archive
  imports BsaManager
begin

text \<open>
  Fallout4/src/BA2MemoryMap.h and BA2MemoryMap.cpp: the archives of the Fallout 4 plug-in, their
  records and chunks, and the archive manager.  A mapped file is the list of its bytes, a pointer
  into it is an offset, and what the operating system answers is part of the file.
\<close>

section \<open>The format\<close>

record BA2_Header =
  bh_magic :: bytes
  bh_version :: u32
  bh_type :: bytes
  bh_fileCount :: u32
  bh_nameTableOffset :: u64

record GeneralFileRecord =
  gr_nameHash :: u32
  gr_extension :: bytes
  gr_dirHash :: u32
  gr_flags :: u32
  gr_offset :: u64
  gr_packedSize :: u32
  gr_unpackedSize :: u32
  gr_bnam :: u32

record DX10Header =
  dh_nameHash :: u32
  dh_extension :: bytes
  dh_dirHash :: u32
  dh_unknownFlag :: u8
  dh_numChunks :: u8
  dh_chunkHeaderSize :: "16 word"
  dh_height :: "16 word"
  dh_width :: "16 word"
  dh_numMips :: u8
  dh_format :: u8
  dh_isCubeMap :: "16 word"

record DX10Chunk =
  dk_offset :: u64
  dk_packedSize :: u32
  dk_unpackedSize :: u32
  dk_startMip :: "16 word"
  dk_endMip :: "16 word"
  dk_bnam :: u32

definition sizeof_BA2_Header :: nat where "sizeof_BA2_Header = 24"
definition sizeof_GeneralFileRecord :: nat where "sizeof_GeneralFileRecord = 36"
definition sizeof_DX10Header :: nat where "sizeof_DX10Header = 24"
definition sizeof_DX10Chunk :: nat where "sizeof_DX10Chunk = 24"

definition get16 :: "bytes \<Rightarrow> 16 word" where "get16 b = le16 (b ! 0) (b ! 1)"

definition load_ba2_header :: "bytes \<Rightarrow> BA2_Header" where
  "load_ba2_header b =
     \<lparr>bh_magic = take 4 b, bh_version = get32 (drop 4 b), bh_type = take 4 (drop 8 b), bh_fileCount = get32 (drop 12 b),
      bh_nameTableOffset = get64 (drop 16 b)\<rparr>"

definition load_general :: "bytes \<Rightarrow> GeneralFileRecord" where
  "load_general b =
     \<lparr>gr_nameHash = get32 b, gr_extension = take 4 (drop 4 b), gr_dirHash = get32 (drop 8 b), gr_flags = get32 (drop 12 b),
      gr_offset = get64 (drop 16 b), gr_packedSize = get32 (drop 24 b), gr_unpackedSize = get32 (drop 28 b),
      gr_bnam = get32 (drop 32 b)\<rparr>"

definition load_dx10 :: "bytes \<Rightarrow> DX10Header" where
  "load_dx10 b =
     \<lparr>dh_nameHash = get32 b, dh_extension = take 4 (drop 4 b), dh_dirHash = get32 (drop 8 b), dh_unknownFlag = b ! 12,
      dh_numChunks = b ! 13, dh_chunkHeaderSize = get16 (drop 14 b), dh_height = get16 (drop 16 b),
      dh_width = get16 (drop 18 b), dh_numMips = b ! 20, dh_format = b ! 21, dh_isCubeMap = get16 (drop 22 b)\<rparr>"

definition load_chunk :: "bytes \<Rightarrow> DX10Chunk" where
  "load_chunk b =
     \<lparr>dk_offset = get64 b, dk_packedSize = get32 (drop 8 b), dk_unpackedSize = get32 (drop 12 b),
      dk_startMip = get16 (drop 16 b), dk_endMip = get16 (drop 18 b), dk_bnam = get32 (drop 20 b)\<rparr>"

record BA2Entry =
  be_startOffset :: u32
  be_packedSize :: u32
  be_unpackedSize :: u32
  be_isCompressed :: bool

section \<open>Archives\<close>

record ba2_file =
  af_content :: bytes
  af_opens :: bool
  af_sizeKnown :: bool
  af_mapping :: bool
  af_view :: bool

datatype BA2Type = Unknown | GNRL | DX10

record BA2Archive =
  aa_path :: bytes
  aa_fileHandle :: "ba2_file option"
  aa_mapHandle :: bool
  aa_base :: "bytes option"
  aa_fileSize :: u64
  aa_header :: BA2_Header
  aa_type :: BA2Type
  aa_fullyUncompressed :: bool
  aa_uncompressedCount :: u32

definition ba2_new :: BA2Archive where
  "ba2_new =
     \<lparr>aa_path = [], aa_fileHandle = None, aa_mapHandle = False, aa_base = None, aa_fileSize = 0,
      aa_header = \<lparr>bh_magic = replicate 4 0, bh_version = 0, bh_type = replicate 4 0, bh_fileCount = 0, bh_nameTableOffset = 0\<rparr>,
      aa_type = Unknown, aa_fullyUncompressed = False, aa_uncompressedCount = 0\<rparr>"

text \<open>A closed archive keeps its path, its header and its type.\<close>

definition ba2_Close :: "BA2Archive \<Rightarrow> BA2Archive" where
  "ba2_Close a = a\<lparr>aa_base := None, aa_mapHandle := False, aa_fileHandle := None, aa_fileSize := 0,
     aa_uncompressedCount := 0, aa_fullyUncompressed := False\<rparr>"

definition ba2_moved_from :: "BA2Archive \<Rightarrow> BA2Archive" where
  "ba2_moved_from o' = o'\<lparr>aa_path := [], aa_fileHandle := None, aa_mapHandle := False, aa_base := None, aa_fileSize := 0\<rparr>"

definition ba2_move_construct :: "BA2Archive \<Rightarrow> BA2Archive \<times> BA2Archive" where
  "ba2_move_construct o' =
     (\<lparr>aa_path = aa_path o', aa_fileHandle = aa_fileHandle o', aa_mapHandle = aa_mapHandle o', aa_base = aa_base o',
       aa_fileSize = aa_fileSize o', aa_header = aa_header o', aa_type = aa_type o',
       aa_fullyUncompressed = aa_fullyUncompressed o', aa_uncompressedCount = aa_uncompressedCount o'\<rparr>, ba2_moved_from o')"

definition ba2_move_assign :: "BA2Archive \<Rightarrow> BA2Archive \<Rightarrow> BA2Archive \<times> BA2Archive" where
  "ba2_move_assign this o' =
     ((ba2_Close this)\<lparr>aa_path := aa_path o', aa_fileHandle := aa_fileHandle o', aa_mapHandle := aa_mapHandle o',
       aa_base := aa_base o', aa_fileSize := aa_fileSize o', aa_header := aa_header o', aa_type := aa_type o',
       aa_fullyUncompressed := aa_fullyUncompressed o', aa_uncompressedCount := aa_uncompressedCount o'\<rparr>, ba2_moved_from o')"

definition ba2_IsOpen :: "BA2Archive \<Rightarrow> bool" where "ba2_IsOpen a \<longleftrightarrow> aa_base a \<noteq> None"

text \<open>The pointer \<open>base_ + offset\<close> is given as \<open>offset\<close>; the sum of the check has 64 bits.\<close>

definition ba2_At :: "BA2Archive \<Rightarrow> u64 \<Rightarrow> u64 \<Rightarrow> u64 option" where
  "ba2_At a offset n = (if offset + n > aa_fileSize a then None else Some offset)"

section \<open>Parsing\<close>

text \<open>The chunks of one texture: whether all could be read, the cursor behind them, and whether
  all of them are uncompressed.\<close>

fun parse_chunks :: "bytes \<Rightarrow> nat \<Rightarrow> nat \<Rightarrow> bool \<Rightarrow> (nat \<times> bool) option" where
  "parse_chunks b 0 cursor allUncompressed = Some (cursor, allUncompressed)"
| "parse_chunks b (Suc n) cursor allUncompressed =
     (if cursor + sizeof_DX10Chunk > length b then None
      else
        let chunk = load_chunk (drop cursor b)
        in parse_chunks b n (cursor + sizeof_DX10Chunk) (if dk_packedSize chunk \<noteq> 0 then False else allUncompressed))"

text \<open>The textures: whether all could be read, and the count so far.\<close>

fun parse_textures :: "bytes \<Rightarrow> nat \<Rightarrow> nat \<Rightarrow> u32 \<Rightarrow> bool \<times> u32" where
  "parse_textures b 0 cursor found = (True, found)"
| "parse_textures b (Suc n) cursor found =
     (if cursor + sizeof_DX10Header > length b then (False, found)
      else
        let tex = load_dx10 (drop cursor b)
        in case parse_chunks b (unat (dh_numChunks tex)) (cursor + sizeof_DX10Header) True of
             None \<Rightarrow> (False, found)
           | Some (cursor', allUncompressed) \<Rightarrow>
               parse_textures b n cursor' (if allUncompressed then found + 1 else found))"

definition general_at :: "bytes \<Rightarrow> nat \<Rightarrow> GeneralFileRecord" where
  "general_at b i = load_general (drop (sizeof_BA2_Header + i * sizeof_GeneralFileRecord) b)"

definition general_tableEnd :: "BA2_Header \<Rightarrow> u64" where
  "general_tableEnd h = of_nat sizeof_BA2_Header + u64_of_u32 (bh_fileCount h) * of_nat sizeof_GeneralFileRecord"

definition count_general :: "bytes \<Rightarrow> nat \<Rightarrow> u32" where
  "count_general b n = foldl (\<lambda>found i. if gr_packedSize (general_at b i) = 0 then found + 1 else found) 0 [0..<n]"

definition ba2_ParseHeader :: "bytes \<Rightarrow> BA2Archive \<Rightarrow> bool \<times> BA2Archive" where
  "ba2_ParseHeader view a0 =
     (let a = a0\<lparr>aa_header := load_ba2_header view\<rparr>; h = aa_header a in
      if bh_magic h \<noteq> [0x42, 0x54, 0x44, 0x58] then (False, a)
      else if bh_version h \<noteq> 1 \<and> bh_version h \<noteq> 7 \<and> bh_version h \<noteq> 8 then (False, a)
      else
        let kind = (if bh_type h = [0x47, 0x4E, 0x52, 0x4C] then Some GNRL
                    else if bh_type h = [0x44, 0x58, 0x31, 0x30] then Some DX10 else None)
        in case kind of
             None \<Rightarrow> (False, a)
           | Some t \<Rightarrow>
               let a1 = a\<lparr>aa_type := t, aa_uncompressedCount := 0\<rparr> in
               if bh_version h \<ge> 7 then (True, a1\<lparr>aa_fullyUncompressed := False\<rparr>)
               else
                 let parsed = (if t = GNRL
                       then if aa_fileSize a1 < general_tableEnd h then (False, 0)
                            else (True, count_general view (unat (bh_fileCount h)))
                       else parse_textures view (unat (bh_fileCount h)) sizeof_BA2_Header 0);
                     a2 = a1\<lparr>aa_uncompressedCount := snd parsed\<rparr>
                 in if fst parsed then (True, a2\<lparr>aa_fullyUncompressed := (snd parsed = bh_fileCount h)\<rparr>) else (False, a2))"

definition ba2_Open :: "bytes \<Rightarrow> ba2_file \<Rightarrow> BA2Archive \<Rightarrow> bool \<times> BA2Archive" where
  "ba2_Open archivePath f a0 =
     (let a1 = (ba2_Close a0)\<lparr>aa_path := archivePath\<rparr> in
      if \<not> af_opens f then (False, a1)
      else
        let a2 = a1\<lparr>aa_fileHandle := Some f\<rparr> in
        if \<not> af_sizeKnown f \<or> length (af_content f) < sizeof_BA2_Header then (False, ba2_Close a2)
        else
          let a3 = a2\<lparr>aa_fileSize := of_nat (length (af_content f))\<rparr> in
          if \<not> af_mapping f then (False, ba2_Close a3)
          else
            let a4 = a3\<lparr>aa_mapHandle := True\<rparr> in
            if \<not> af_view f then (False, ba2_Close a4)
            else
              let (parsed, a5) = ba2_ParseHeader (af_content f) (a4\<lparr>aa_base := Some (af_content f)\<rparr>)
              in if parsed then (True, a5) else (False, ba2_Close a5))"

definition entry_of :: "u64 \<Rightarrow> u32 \<Rightarrow> u32 \<Rightarrow> BA2Entry" where
  "entry_of offset packed unpacked =
     \<lparr>be_startOffset = u32_of_u64 offset, be_packedSize = packed, be_unpackedSize = unpacked, be_isCompressed = (packed \<noteq> 0)\<rparr>"

text \<open>The inner loop breaks where the file ends; the outer loop goes on from that cursor.\<close>

fun enum_chunks :: "bytes \<Rightarrow> nat \<Rightarrow> nat \<Rightarrow> BA2Entry list \<times> nat" where
  "enum_chunks b 0 cursor = ([], cursor)"
| "enum_chunks b (Suc n) cursor =
     (if cursor + sizeof_DX10Chunk > length b then ([], cursor)
      else
        let chunk = load_chunk (drop cursor b); (es, c) = enum_chunks b n (cursor + sizeof_DX10Chunk)
        in (entry_of (dk_offset chunk) (dk_packedSize chunk) (dk_unpackedSize chunk) # es, c))"

fun enum_textures :: "bytes \<Rightarrow> nat \<Rightarrow> nat \<Rightarrow> BA2Entry list" where
  "enum_textures b 0 cursor = []"
| "enum_textures b (Suc n) cursor =
     (if cursor + sizeof_DX10Header > length b then []
      else
        let tex = load_dx10 (drop cursor b);
            (es, c) = enum_chunks b (unat (dh_numChunks tex)) (cursor + sizeof_DX10Header)
        in es @ enum_textures b n c)"

definition EnumerateEntries :: "BA2Archive \<Rightarrow> BA2Entry list" where
  "EnumerateEntries a =
     (case aa_base a of
        None \<Rightarrow> []
      | Some view \<Rightarrow>
          let h = aa_header a; v1 = (bh_version h = 1); v7dx10 = (bh_version h = 7 \<and> aa_type a = DX10) in
          if \<not> v1 \<and> \<not> v7dx10 then []
          else (case aa_type a of
             GNRL \<Rightarrow>
               if aa_fileSize a < general_tableEnd h then []
               else map (\<lambda>i. let r = general_at view i in entry_of (gr_offset r) (gr_packedSize r) (gr_unpackedSize r))
                      [0..<unat (bh_fileCount h)]
           | DX10 \<Rightarrow> enum_textures view (unat (bh_fileCount h)) sizeof_BA2_Header
           | Unknown \<Rightarrow> []))"

section \<open>The manager\<close>

record ba2_dir_entry =
  ad_name :: bytes
  ad_regular :: bool
  ad_file :: ba2_file

record BA2Manager =
  am_archives :: "BA2Archive list"
  am_nameIndex :: "bytes \<rightharpoonup> u32"

definition ba2_extension :: bytes where "ba2_extension = [0x2E, 0x62, 0x61, 0x32]"

definition ba2_candidate :: "ba2_dir_entry \<Rightarrow> bool" where
  "ba2_candidate e \<longleftrightarrow> ad_regular e \<and> LowerASCII (extension (ad_name e)) = ba2_extension"

definition ba2_path :: "bytes \<Rightarrow> ba2_dir_entry \<Rightarrow> bytes" where
  "ba2_path dir e = dir @ [0x5C] @ ad_name e"

text \<open>One entry of the directory; a later archive of the same name takes its place in the index.\<close>

definition ba2_load :: "bytes \<Rightarrow> BA2Manager \<times> nat \<Rightarrow> ba2_dir_entry \<Rightarrow> BA2Manager \<times> nat" where
  "ba2_load dir mn e =
     (case mn of (m, mapped) \<Rightarrow>
        if \<not> ba2_candidate e then (m, mapped)
        else case ba2_Open (ba2_path dir e) (ad_file e) ba2_new of
          (False, _) \<Rightarrow> (m, mapped)
        | (True, archive) \<Rightarrow>
            let idx = of_nat (length (am_archives m))
            in (m\<lparr>am_nameIndex := (am_nameIndex m)(LowerASCII (ad_name e) \<mapsto> idx),
                  am_archives := am_archives m @ [fst (ba2_move_construct archive)]\<rparr>, mapped + 1))"

text \<open>The listing is \<open>None\<close> if the directory does not exist.\<close>

definition ba2_Initialize :: "bytes \<Rightarrow> ba2_dir_entry list option \<Rightarrow> BA2Manager \<Rightarrow> bool \<times> BA2Manager" where
  "ba2_Initialize dataPath listing m =
     (case listing of
        None \<Rightarrow> (False, m)
      | Some es \<Rightarrow> (case foldl (ba2_load dataPath) (m, 0) es of (m1, mapped) \<Rightarrow> (mapped > 0, m1)))"

definition ba2_Shutdown :: "BA2Manager \<Rightarrow> BA2Manager" where
  "ba2_Shutdown m = m\<lparr>am_nameIndex := Map.empty, am_archives := []\<rparr>"

definition ba2_FindByName :: "bytes \<Rightarrow> BA2Manager \<Rightarrow> BA2Archive option" where
  "ba2_FindByName filename m =
     (case am_nameIndex m (LowerASCII filename) of
        None \<Rightarrow> None
      | Some idx \<Rightarrow> if unat idx < length (am_archives m) then Some (am_archives m ! unat idx) else None)"

definition ba2_GetTotalMappedBytes :: "BA2Manager \<Rightarrow> u64" where
  "ba2_GetTotalMappedBytes m = foldl (\<lambda>total a. total + aa_fileSize a) 0 (am_archives m)"

section \<open>What an archive lists\<close>

text \<open>The reference reading of a version 1 file: its files, each with its chunks as triples of
  offset, packed size and unpacked size.  A general record is one chunk.\<close>

type_synonym chunk = "u64 \<times> u32 \<times> u32"

definition chunk_at :: "bytes \<Rightarrow> nat \<Rightarrow> chunk" where
  "chunk_at b pos = (let c = load_chunk (drop pos b) in (dk_offset c, dk_packedSize c, dk_unpackedSize c))"

definition general_chunk :: "GeneralFileRecord \<Rightarrow> chunk" where
  "general_chunk r = (gr_offset r, gr_packedSize r, gr_unpackedSize r)"

fun texture_chunks :: "bytes \<Rightarrow> nat \<Rightarrow> nat \<Rightarrow> chunk list list option" where
  "texture_chunks b 0 pos = Some []"
| "texture_chunks b (Suc n) pos =
     (let k = unat (dh_numChunks (load_dx10 (drop pos b))); next = pos + 24 + 24 * k in
      if next > length b then None
      else map_option ((#) (map (\<lambda>i. chunk_at b (pos + 24 + 24 * i)) [0..<k])) (texture_chunks b n next))"

definition ba2_files :: "bytes \<Rightarrow> chunk list list option" where
  "ba2_files b =
     (let h = load_ba2_header b; n = unat (bh_fileCount h) in
      if bh_type h = [0x47, 0x4E, 0x52, 0x4C]
      then (if 24 + 36 * n \<le> length b then Some (map (\<lambda>i. [general_chunk (general_at b i)]) [0..<n]) else None)
      else texture_chunks b n 24)"

definition chunk_packed :: "chunk \<Rightarrow> bool" where "chunk_packed c \<longleftrightarrow> fst (snd c) \<noteq> 0"

definition chunk_entry :: "chunk \<Rightarrow> BA2Entry" where
  "chunk_entry c = entry_of (fst c) (fst (snd c)) (snd (snd c))"

lemmas ba2_sizes = sizeof_BA2_Header_def sizeof_GeneralFileRecord_def sizeof_DX10Header_def sizeof_DX10Chunk_def

lemma chunks_upt: "map (\<lambda>i. chunk_at b (p + 24 * i)) [0..<Suc n] =
    chunk_at b p # map (\<lambda>i. chunk_at b (p + 24 + 24 * i)) [0..<n]"
proof -
  have "[0..<Suc n] = 0 # map Suc [0..<n]" by (simp add: map_Suc_upt upt_conv_Cons del: upt_Suc)
  then show ?thesis by (simp add: comp_def algebra_simps del: upt_Suc)
qed

lemma parse_chunks_eq:
  "p \<le> length b \<Longrightarrow> parse_chunks b n p u =
     (if p + 24 * n \<le> length b
      then Some (p + 24 * n, u \<and> list_all (\<lambda>c. \<not> chunk_packed c) (map (\<lambda>i. chunk_at b (p + 24 * i)) [0..<n])) else None)"
proof (induction n arbitrary: p u)
  case (Suc n)
  show ?case
  proof (cases "p + 24 \<le> length b")
    case True
    let ?c = "load_chunk (drop p b)"
    have "dk_packedSize ?c \<noteq> 0 \<longleftrightarrow> chunk_packed (chunk_at b p)" by (simp add: chunk_packed_def chunk_at_def Let_def)
    then show ?thesis
      using Suc.IH [OF True] True unfolding chunks_upt by (auto simp: Let_def ba2_sizes algebra_simps)
  qed (simp add: ba2_sizes)
qed simp

lemma enum_chunks_eq:
  "p + 24 * n \<le> length b \<Longrightarrow> enum_chunks b n p = (map chunk_entry (map (\<lambda>i. chunk_at b (p + 24 * i)) [0..<n]), p + 24 * n)"
proof (induction n arbitrary: p)
  case (Suc n)
  have "enum_chunks b n (p + 24) = (map chunk_entry (map (\<lambda>i. chunk_at b (p + 24 + 24 * i)) [0..<n]), p + 24 + 24 * n)"
    using Suc.prems by (intro Suc.IH) simp
  then show ?case
    using Suc.prems unfolding chunks_upt
    by (simp add: Let_def ba2_sizes chunk_entry_def chunk_at_def algebra_simps)
qed simp

definition unpacked_files :: "chunk list list \<Rightarrow> chunk list list" where
  "unpacked_files fs = filter (list_all (\<lambda>c. \<not> chunk_packed c)) fs"

lemma parse_textures_eq:
  "p \<le> length b \<Longrightarrow>
   (case texture_chunks b n p of
      None \<Rightarrow> \<not> fst (parse_textures b n p found)
    | Some fs \<Rightarrow> parse_textures b n p found = (True, found + of_nat (length (unpacked_files fs))) \<and>
        enum_textures b n p = map chunk_entry (concat fs) \<and> length fs = n)"
proof (induction n arbitrary: p found)
  case (Suc n)
  define k where "k = unat (dh_numChunks (load_dx10 (drop p b)))"
  show ?case
  proof (cases "p + 24 + 24 * k \<le> length b")
    case False
    then have "parse_chunks b k (p + 24) True = None" if "p + 24 \<le> length b" using parse_chunks_eq [OF that] by simp
    then show ?thesis using False by (auto simp: Let_def ba2_sizes simp flip: k_def)
  next
    case True
    let ?cs = "map (\<lambda>i. chunk_at b (p + 24 + 24 * i)) [0..<k]"
    have pc: "parse_chunks b k (p + 24) True = Some (p + 24 + 24 * k, list_all (\<lambda>c. \<not> chunk_packed c) ?cs)"
      using parse_chunks_eq [of "p + 24" b k True] True by simp
    have ec: "enum_chunks b k (p + 24) = (map chunk_entry ?cs, p + 24 + 24 * k)"
      using enum_chunks_eq [of "p + 24" k b] True by simp
    show ?thesis
      using Suc.IH [OF True] True pc ec
      by (auto simp: Let_def ba2_sizes unpacked_files_def algebra_simps simp flip: k_def split: option.splits)
  qed
qed (simp add: unpacked_files_def)

lemma count_general_eq:
  "count_general b n = of_nat (length (unpacked_files (map (\<lambda>i. [general_chunk (general_at b i)]) [0..<n])))"
  by (induction n) (simp_all add: count_general_def unpacked_files_def chunk_packed_def general_chunk_def)

lemma unat_u32_less: "unat (x :: u32) < 4294967296"
  using unsigned_less [of x, where ?'a = nat] by simp

lemma general_tableEnd_unat: "unat (general_tableEnd h) = 24 + 36 * unat (bh_fileCount h)"
proof -
  have f: "unat (bh_fileCount h) < 4294967296" by (rule unat_u32_less)
  have m: "unat (bh_fileCount h) * 36 < 18446744073709551616" "24 + unat (bh_fileCount h) * 36 < 18446744073709551616"
    using f by linarith+
  have "unat (u64_of_u32 (bh_fileCount h) * 36 :: u64) = unat (bh_fileCount h) * 36"
    using m(1) by (simp add: unat_word_ariths)
  then show ?thesis
    using m(2) unfolding general_tableEnd_def ba2_sizes by (simp add: unat_word_ariths)
qed

definition ba2_format_ok :: "bytes \<Rightarrow> bool" where
  "ba2_format_ok b \<longleftrightarrow>
     (let h = load_ba2_header b in
      24 \<le> length b \<and> bh_magic h = [0x42, 0x54, 0x44, 0x58] \<and> bh_version h \<in> {1, 7, 8} \<and>
      bh_type h \<in> {[0x47, 0x4E, 0x52, 0x4C], [0x44, 0x58, 0x31, 0x30]} \<and> (bh_version h = 1 \<longrightarrow> ba2_files b \<noteq> None))"

lemma all_unpacked: "length (unpacked_files fs) = length fs \<longleftrightarrow> (\<forall>c \<in> set (concat fs). \<not> chunk_packed c)"
proof (cases "\<forall>cs \<in> set fs. list_all (\<lambda>c. \<not> chunk_packed c) cs")
  case True
  then show ?thesis by (auto simp: unpacked_files_def list_all_iff)
next
  case False
  then obtain cs where "cs \<in> set fs" "\<not> list_all (\<lambda>c. \<not> chunk_packed c) cs" by blast
  then have "length (unpacked_files fs) < length fs" unfolding unpacked_files_def by (rule length_filter_less)
  then show ?thesis using False by (auto simp: list_all_iff)
qed

lemma ba2_parsed:
  assumes "length b < 2 ^ 63" "24 \<le> length b" "aa_fileSize a = of_nat (length b)" "ba2_ParseHeader b a = (ok, a')"
  shows "ok = ba2_format_ok b"
    and "ok \<Longrightarrow> aa_base a' = aa_base a \<and> aa_fileSize a' = aa_fileSize a \<and> aa_path a' = aa_path a \<and> aa_header a' = load_ba2_header b \<and>
      (bh_version (aa_header a') = 1 \<longrightarrow> (\<exists>fs. ba2_files b = Some fs \<and> length fs = unat (bh_fileCount (aa_header a')) \<and>
         aa_uncompressedCount a' = of_nat (length (unpacked_files fs)) \<and>
         aa_fullyUncompressed a' = (aa_uncompressedCount a' = bh_fileCount (aa_header a')) \<and>
         (aa_base a = Some b \<longrightarrow> EnumerateEntries a' = map chunk_entry (concat fs))))"
proof -
  define h where "h = load_ba2_header b"
  define n where "n = unat (bh_fileCount h)"
  have sz: "unat (aa_fileSize a) = length b" using assms(1,3) by (simp add: unat_of_nat take_bit_nat_eq_self)
  have fits: "\<not> aa_fileSize a < general_tableEnd h \<longleftrightarrow> 24 + 36 * n \<le> length b"
    using general_tableEnd_unat [of h] sz by (simp add: word_less_nat_alt n_def not_less)
  note tx = parse_textures_eq [OF assms(2), where n = n and found = 0]
  have g: "map (\<lambda>i. entry_of (gr_offset (general_at b i)) (gr_packedSize (general_at b i)) (gr_unpackedSize (general_at b i))) [0..<n] =
      map chunk_entry (concat (map (\<lambda>i. [general_chunk (general_at b i)]) [0..<n]))"
    by (induction n) (simp_all add: chunk_entry_def general_chunk_def)
  have seven: "\<not> (7 :: u32) \<le> 1" by code_simp
  have versions: "bh_version h \<noteq> 1 \<Longrightarrow> bh_version h = 7 \<or> bh_version h = 8 \<Longrightarrow> bh_version h \<ge> 7" by auto
  note d = assms(4) [unfolded ba2_ParseHeader_def Let_def, folded h_def]
  show "ok = ba2_format_ok b"
    using d assms(2) fits tx versions seven
    by (auto simp: ba2_format_ok_def ba2_files_def Let_def ba2_sizes simp flip: h_def n_def split: if_splits option.splits)
  assume ok
  let ?set = "\<lambda>t c. a\<lparr>aa_header := h, aa_type := t, aa_uncompressedCount := c, aa_fullyUncompressed := (c = bh_fileCount h)\<rparr>"
  consider (ng) t where "7 \<le> bh_version h" "a' = a\<lparr>aa_header := h, aa_type := t, aa_uncompressedCount := 0, aa_fullyUncompressed := False\<rparr>"
    | (general) "bh_version h = 1" "bh_type h = [0x47, 0x4E, 0x52, 0x4C]" "24 + 36 * n \<le> length b" "a' = ?set GNRL (count_general b n)"
    | (textures) c where "bh_version h = 1" "bh_type h \<noteq> [0x47, 0x4E, 0x52, 0x4C]" "parse_textures b n 24 0 = (True, c)"
        "a' = ?set DX10 c"
    using d \<open>ok\<close> fits by (cases "parse_textures b n 24 0") (auto simp: ba2_sizes simp flip: n_def split: if_splits option.splits prod.splits)
  then show "aa_base a' = aa_base a \<and> aa_fileSize a' = aa_fileSize a \<and> aa_path a' = aa_path a \<and>
      aa_header a' = load_ba2_header b \<and>
      (bh_version (aa_header a') = 1 \<longrightarrow> (\<exists>fs. ba2_files b = Some fs \<and> length fs = unat (bh_fileCount (aa_header a')) \<and>
         aa_uncompressedCount a' = of_nat (length (unpacked_files fs)) \<and>
         aa_fullyUncompressed a' = (aa_uncompressedCount a' = bh_fileCount (aa_header a')) \<and>
         (aa_base a = Some b \<longrightarrow> EnumerateEntries a' = map chunk_entry (concat fs))))"
  proof cases
    case ng
    then show ?thesis using seven by (auto simp: h_def)
  next
    case general
    let ?fs = "map (\<lambda>i. [general_chunk (general_at b i)]) [0..<n]"
    have "ba2_files b = Some ?fs" using general(2,3) by (simp add: ba2_files_def Let_def flip: h_def n_def)
    moreover have "EnumerateEntries a' = map chunk_entry (concat ?fs)" if "aa_base a = Some b"
      using general fits g that by (simp add: EnumerateEntries_def Let_def flip: n_def)
    ultimately show ?thesis
      using general(1,4) by (simp add: count_general_eq n_def) (simp add: h_def)
  next
    case textures
    obtain fs where fs: "texture_chunks b n 24 = Some fs" using tx textures(3) by (cases "texture_chunks b n 24") simp_all
    then have "c = of_nat (length (unpacked_files fs))" "enum_textures b n 24 = map chunk_entry (concat fs)" "length fs = n"
      using tx textures(3) by simp_all
    moreover have "ba2_files b = Some fs" using textures(2) fs by (simp add: ba2_files_def Let_def flip: h_def n_def)
    moreover have "EnumerateEntries a' = enum_textures b n 24" if "aa_base a = Some b"
      using textures(1,4) that by (simp add: EnumerateEntries_def Let_def ba2_sizes flip: n_def)
    ultimately show ?thesis using textures(1,4) by (simp add: n_def) (simp add: h_def)
  qed
qed

lemma Open_cases_ba2:
  assumes "length (af_content f) < 2 ^ 63" "ba2_Open path f a0 = (ok, a)"
  shows "ok = (af_opens f \<and> af_sizeKnown f \<and> af_mapping f \<and> af_view f \<and> ba2_format_ok (af_content f)) \<and>
    (if ok then aa_base a = Some (af_content f) \<and> unat (aa_fileSize a) = length (af_content f) \<and>
       (bh_version (aa_header a) = 1 \<longrightarrow> (\<exists>fs. ba2_files (af_content f) = Some fs \<and>
          length fs = unat (bh_fileCount (aa_header a)) \<and>
          EnumerateEntries a = map chunk_entry (concat fs) \<and>
          unat (aa_uncompressedCount a) = length (unpacked_files fs) \<and>
          aa_fullyUncompressed a = (\<forall>e \<in> set (EnumerateEntries a). \<not> be_isCompressed e)))
     else aa_base a = None \<and> aa_fileSize a = 0 \<and> EnumerateEntries a = [])"
proof -
  let ?b = "af_content f"
  define a4 where "a4 = (ba2_Close a0)\<lparr>aa_path := path, aa_fileHandle := Some f, aa_fileSize := of_nat (length ?b),
      aa_mapHandle := True, aa_base := Some ?b\<rparr>"
  obtain p a5 where p: "ba2_ParseHeader ?b a4 = (p, a5)" by force
  have sel: "aa_fileSize a4 = of_nat (length ?b)" "aa_base a4 = Some ?b" by (simp_all add: a4_def)
  have size: "unat (of_nat (length ?b) :: u64) = length ?b" using assms(1) by (simp add: unat_of_nat take_bit_nat_eq_self)
  have fail: "EnumerateEntries (ba2_Close x) = []" "EnumerateEntries (ba2_Close x\<lparr>aa_path := q\<rparr>) = []" for x q
    by (simp_all add: EnumerateEntries_def ba2_Close_def)
  show ?thesis
  proof (cases "af_opens f \<and> af_sizeKnown f \<and> 24 \<le> length ?b \<and> af_mapping f \<and> af_view f")
    case False
    moreover have "24 \<le> length ?b" if "ba2_format_ok ?b" using that by (simp add: ba2_format_ok_def Let_def)
    ultimately show ?thesis
      using assms(2) fail by (auto simp: ba2_Open_def Let_def ba2_sizes ba2_Close_def not_le split: if_splits)
  next
    case True
    then have run: "(ok, a) = (if p then (True, a5) else (False, ba2_Close a5))"
      using assms(2) p by (simp add: ba2_Open_def Let_def ba2_sizes a4_def split: if_splits)
    have l24: "24 \<le> length ?b" using True by simp
    note ps = ba2_parsed [OF assms(1) l24 sel(1) p]
    show ?thesis
    proof (cases p)
      case False
      then show ?thesis using run ps(1) fail by (simp add: ba2_Close_def)
    next
      case ok: True
      have facts: "aa_base a5 = Some ?b" "unat (aa_fileSize a5) = length ?b" using ps(2) [OF ok] sel size by simp_all
      have listed: "unat (aa_uncompressedCount a5) = length (unpacked_files fs) \<and>
          aa_fullyUncompressed a5 = (\<forall>e \<in> set (EnumerateEntries a5). \<not> be_isCompressed e)"
        if fs: "length fs = unat (bh_fileCount (aa_header a5))" "aa_uncompressedCount a5 = of_nat (length (unpacked_files fs))"
          "aa_fullyUncompressed a5 = (aa_uncompressedCount a5 = bh_fileCount (aa_header a5))"
          "EnumerateEntries a5 = map chunk_entry (concat fs)" for fs
      proof -
        have "length (unpacked_files fs) \<le> length fs" by (simp add: unpacked_files_def)
        then have "length (unpacked_files fs) < 4294967296"
          using fs(1) unat_u32_less [of "bh_fileCount (aa_header a5)"] by linarith
        then have c: "unat (aa_uncompressedCount a5) = length (unpacked_files fs)"
          using fs(2) by (simp add: unat_of_nat take_bit_nat_eq_self)
        then have "aa_fullyUncompressed a5 \<longleftrightarrow> length (unpacked_files fs) = length fs"
          using fs(1,3) by (simp add: word_unat_eq_iff)
        also have "\<dots> \<longleftrightarrow> (\<forall>e \<in> set (EnumerateEntries a5). \<not> be_isCompressed e)"
          unfolding all_unpacked fs(4) by (auto simp: chunk_entry_def entry_of_def chunk_packed_def)
        finally show ?thesis using c by simp
      qed
      have "bh_version (aa_header a5) = 1 \<longrightarrow> (\<exists>fs. ba2_files ?b = Some fs \<and>
          length fs = unat (bh_fileCount (aa_header a5)) \<and> EnumerateEntries a5 = map chunk_entry (concat fs) \<and>
          unat (aa_uncompressedCount a5) = length (unpacked_files fs) \<and>
          aa_fullyUncompressed a5 = (\<forall>e \<in> set (EnumerateEntries a5). \<not> be_isCompressed e))"
        using ps(2) [OF ok] sel(2) listed by meson
      moreover have "ok = True" "a = a5" using run ok by simp_all
      moreover have "ba2_format_ok ?b" using ps(1) ok by simp
      ultimately show ?thesis using True facts by simp
    qed
  qed
qed

text \<open>
  C9: an archive opens exactly if the file can be mapped and has a well-formed header, in version 1
  with all its records inside the file.  A version 1 archive then lists every chunk of every file,
  in their order and with its sizes, counts the files without a compressed chunk, and calls itself
  fully uncompressed exactly if nothing it lists is compressed.
\<close>

theorem archive_lists_all:
  assumes "length (af_content f) < 2 ^ 63" "ba2_Open path f a0 = (ok, a)"
  shows "ok = (af_opens f \<and> af_sizeKnown f \<and> af_mapping f \<and> af_view f \<and> ba2_format_ok (af_content f)) \<and>
    (if ok then aa_base a = Some (af_content f) \<and> unat (aa_fileSize a) = length (af_content f) \<and>
       (bh_version (aa_header a) = 1 \<longrightarrow> (\<exists>fs. ba2_files (af_content f) = Some fs \<and>
          length fs = unat (bh_fileCount (aa_header a)) \<and>
          EnumerateEntries a = map chunk_entry (concat fs) \<and>
          unat (aa_uncompressedCount a) = length (unpacked_files fs) \<and>
          aa_fullyUncompressed a = (\<forall>e \<in> set (EnumerateEntries a). \<not> be_isCompressed e)))
     else aa_base a = None \<and> aa_fileSize a = 0 \<and> EnumerateEntries a = [])"
  by (rule Open_cases_ba2 [OF assms])

lemma Open_lists:
  "length (af_content f) < 2 ^ 63 \<Longrightarrow> ba2_Open path f a0 = (True, a) \<Longrightarrow>
   bh_version (aa_header a) = 1 \<longrightarrow> (\<exists>fs. ba2_files (af_content f) = Some fs \<and> EnumerateEntries a = map chunk_entry (concat fs))"
  using Open_cases_ba2 [of f path a0 True a] by auto

section \<open>Two limits of 32 and 64 bits\<close>

text \<open>
  C39: a range that \<open>At\<close> accepts lies in the file as long as the sum of its offset and its size does
  not wrap, and then exactly those ranges are accepted; but the sum is not checked, so that every
  open archive accepts ranges far outside its file.
\<close>

theorem At_wraps:
  "(if unat offset + unat n < 2 ^ 64 then ba2_At a offset n \<noteq> None \<longleftrightarrow> unat offset + unat n \<le> unat (aa_fileSize a)
    else ba2_At a offset n \<noteq> None \<longleftrightarrow> unat offset + unat n \<le> unat (aa_fileSize a) + 2 ^ 64) \<and>
   ba2_At a (- 1) 1 = Some (- 1)"
proof (rule conjI)
  show "ba2_At a (- 1) 1 = Some (- 1)" by (simp add: ba2_At_def)
  show "(if unat offset + unat n < 2 ^ 64 then ba2_At a offset n \<noteq> None \<longleftrightarrow> unat offset + unat n \<le> unat (aa_fileSize a)
      else ba2_At a offset n \<noteq> None \<longleftrightarrow> unat offset + unat n \<le> unat (aa_fileSize a) + 2 ^ 64)"
  proof (cases "unat offset + unat n < 2 ^ 64")
    case True
    then have "unat (offset + n) = unat offset + unat n" by (simp add: unat_add_noovf)
    then show ?thesis using True by (simp add: ba2_At_def word_less_nat_alt not_less)
  next
    case False
    have "unat offset < 2 ^ 64" "unat n < 2 ^ 64"
      using unsigned_less [of offset, where ?'a = nat] unsigned_less [of n, where ?'a = nat] by simp_all
    then have "(unat offset + unat n) mod 2 ^ 64 = unat offset + unat n - 2 ^ 64"
      using False mod_less [of "unat offset + unat n - 2 ^ 64" "2 ^ 64 :: nat"] le_mod_geq [of "2 ^ 64 :: nat" "unat offset + unat n"]
      by linarith
    then have "unat (offset + n) = unat offset + unat n - 2 ^ 64"
      by (simp add: unat_word_ariths)
    then show ?thesis using False by (simp add: ba2_At_def word_less_nat_alt not_less) linarith
  qed
qed

lemma entry_start: "u64_of_u32 (be_startOffset (chunk_entry c)) = fst c \<longleftrightarrow> unat (fst c) < 2 ^ 32"
proof -
  have "unat (u64_of_u32 (be_startOffset (chunk_entry c))) = unat (fst c) mod 4294967296"
    by (simp add: chunk_entry_def entry_of_def unat_u32_of_u64)
  then show ?thesis by (simp add: word_unat_eq_iff) (metis mod_less mod_less_divisor zero_less_numeral)
qed

text \<open>The chunks that the texture records of a file of version 7 lead to: of each texture the
  chunks that fit into the file, the next record behind them.\<close>

fun reachable_chunks :: "bytes \<Rightarrow> nat \<Rightarrow> nat \<Rightarrow> chunk list" where
  "reachable_chunks b 0 pos = []"
| "reachable_chunks b (Suc n) pos =
     (if pos + 24 > length b then []
      else
        let k = min (unat (dh_numChunks (load_dx10 (drop pos b)))) ((length b - (pos + 24)) div 24)
        in map (\<lambda>i. chunk_at b (pos + 24 + 24 * i)) [0..<k] @ reachable_chunks b n (pos + 24 + 24 * k))"

definition listed_chunks :: "bytes \<Rightarrow> chunk list" where
  "listed_chunks b =
     (let h = load_ba2_header b in
      if bh_version h = 1 then (case ba2_files b of None \<Rightarrow> [] | Some fs \<Rightarrow> concat fs)
      else if bh_version h = 7 \<and> bh_type h = [0x44, 0x58, 0x31, 0x30]
           then reachable_chunks b (unat (bh_fileCount h)) 24
      else [])"

lemma enum_chunks_reach:
  "p \<le> length b \<Longrightarrow> enum_chunks b n p =
     (let k = min n ((length b - p) div 24)
      in (map chunk_entry (map (\<lambda>i. chunk_at b (p + 24 * i)) [0..<k]), p + 24 * k))"
proof (induction n arbitrary: p)
  case (Suc n)
  show ?case
  proof (cases "p + 24 \<le> length b")
    case True
    let ?k = "min n ((length b - (p + 24)) div 24)"
    have "(length b - p) div 24 = Suc ((length b - (p + 24)) div 24)"
      using True by (simp add: div_if [of "length b - p"])
    then have k: "min (Suc n) ((length b - p) div 24) = Suc ?k" by simp
    show ?thesis
      using Suc.IH [OF True] True unfolding k Let_def chunks_upt
      by (simp add: Let_def ba2_sizes chunk_entry_def chunk_at_def algebra_simps)
  qed (use Suc.prems in \<open>simp add: ba2_sizes\<close>)
qed simp

lemma enum_textures_reach: "enum_textures b n p = map chunk_entry (reachable_chunks b n p)"
proof (induction n arbitrary: p)
  case (Suc n)
  show ?case
  proof (cases "p + 24 \<le> length b")
    case True
    then show ?thesis
      using Suc.IH enum_chunks_reach [OF True] by (simp add: Let_def ba2_sizes)
  qed (simp add: ba2_sizes)
qed simp

lemma ParseHeader_header:
  "ba2_ParseHeader v a0 = (True, a) \<Longrightarrow>
     aa_header a = load_ba2_header v \<and> aa_base a = aa_base a0 \<and>
     (aa_type a = DX10 \<longleftrightarrow> bh_type (load_ba2_header v) = [0x44, 0x58, 0x31, 0x30])"
  by (auto simp: ba2_ParseHeader_def Let_def split: if_splits)

lemma Open_header:
  assumes "ba2_Open path f a0 = (True, a)"
  shows "aa_header a = load_ba2_header (af_content f) \<and> aa_base a = Some (af_content f) \<and>
    (aa_type a = DX10 \<longleftrightarrow> bh_type (load_ba2_header (af_content f)) = [0x44, 0x58, 0x31, 0x30])"
proof -
  obtain a1 where "ba2_ParseHeader (af_content f) a1 = (True, a)" "aa_base a1 = Some (af_content f)"
    using assms by (auto simp: ba2_Open_def Let_def split: if_splits prod.splits)
  then show ?thesis using ParseHeader_header by metis
qed

lemma Enumerate_listed:
  assumes "length (af_content f) < 2 ^ 63" "ba2_Open path f a0 = (True, a)"
  shows "EnumerateEntries a = map chunk_entry (listed_chunks (af_content f))"
proof (cases "bh_version (aa_header a) = 1")
  case True
  with Open_lists [OF assms] Open_header [OF assms(2)] show ?thesis by (auto simp: listed_chunks_def Let_def)
next
  case False
  with Open_header [OF assms(2)] show ?thesis
    by (cases "aa_type a")
      (auto simp: EnumerateEntries_def listed_chunks_def Let_def enum_textures_reach sizeof_BA2_Header_def)
qed

text \<open>
  C40: an archive, of whichever version it opens, lists the chunks of its file in their order, and
  the places it lists are the true ones exactly if all of these chunks begin in the first 4 GiB of
  the file; behind that the listed offset is another place in the file.
\<close>

theorem offsets_lost:
  assumes "length (af_content f) < 2 ^ 63" "ba2_Open path f a0 = (True, a)"
  shows "length (EnumerateEntries a) = length (listed_chunks (af_content f)) \<and>
    (map (\<lambda>e. u64_of_u32 (be_startOffset e)) (EnumerateEntries a) = map fst (listed_chunks (af_content f)) \<longleftrightarrow>
       (\<forall>c \<in> set (listed_chunks (af_content f)). unat (fst c) < 2 ^ 32))"
  by (simp add: Enumerate_listed [OF assms] entry_start map_eq_conv)

section \<open>The scan\<close>

definition ba2_opened :: "bytes \<Rightarrow> ba2_dir_entry \<Rightarrow> BA2Archive" where
  "ba2_opened dir e = snd (ba2_Open (ba2_path dir e) (ad_file e) ba2_new)"

definition ba2_usable :: "bytes \<Rightarrow> ba2_dir_entry \<Rightarrow> bool" where
  "ba2_usable dir e \<longleftrightarrow> ba2_candidate e \<and> fst (ba2_Open (ba2_path dir e) (ad_file e) ba2_new)"

definition ba2_empty :: BA2Manager where "ba2_empty = \<lparr>am_archives = [], am_nameIndex = Map.empty\<rparr>"

lemma ba2_load_cases:
  "ba2_load dir (m, k) e =
     (if ba2_usable dir e
      then (m\<lparr>am_nameIndex := (am_nameIndex m)(LowerASCII (ad_name e) \<mapsto> of_nat (length (am_archives m))),
              am_archives := am_archives m @ [ba2_opened dir e]\<rparr>, k + 1)
      else (m, k))"
proof -
  have "fst (ba2_move_construct x) = x" for x by (simp add: ba2_move_construct_def)
  then show ?thesis
    by (simp add: ba2_load_def ba2_usable_def ba2_opened_def Let_def split: prod.split bool.split)
qed

definition ba2_inv :: "bytes \<Rightarrow> ba2_dir_entry list \<Rightarrow> BA2Manager \<times> nat \<Rightarrow> bool" where
  "ba2_inv dir es mk \<longleftrightarrow>
     length (am_archives (fst mk)) \<le> length es \<and> (snd mk > 0 \<longleftrightarrow> list_ex (ba2_usable dir) es) \<and>
     (\<forall>q. ba2_FindByName q (fst mk) = map_option (ba2_opened dir)
        (find (\<lambda>e. LowerASCII (ad_name e) = LowerASCII q \<and> ba2_usable dir e) (rev es))) \<and>
     (\<forall>name idx. am_nameIndex (fst mk) name = Some idx \<longrightarrow> unat idx < length (am_archives (fst mk)))"

lemma ba2_load_inv:
  assumes inv: "ba2_inv dir es (m, k)" and short: "length es < 2 ^ 32"
  shows "ba2_inv dir (es @ [e]) (ba2_load dir (m, k) e)"
proof (cases "ba2_usable dir e")
  case False
  then show ?thesis using inv by (simp add: ba2_load_cases ba2_inv_def)
next
  case True
  let ?n = "length (am_archives m)"
  define m' where "m' = m\<lparr>am_nameIndex := (am_nameIndex m)(LowerASCII (ad_name e) \<mapsto> of_nat ?n),
      am_archives := am_archives m @ [ba2_opened dir e]\<rparr>"
  have step: "ba2_load dir (m, k) e = (m', k + 1)" using True by (simp add: ba2_load_cases m'_def)
  have bound: "?n \<le> length es" and found: "ba2_FindByName q m = map_option (ba2_opened dir)
      (find (\<lambda>e. LowerASCII (ad_name e) = LowerASCII q \<and> ba2_usable dir e) (rev es))"
    and range: "am_nameIndex m name = Some idx \<Longrightarrow> unat idx < ?n" for q name idx
    using inv by (simp_all add: ba2_inv_def)
  have n: "unat (word_of_nat ?n :: u32) = ?n"
    using bound short by (simp add: unat_of_nat take_bit_nat_eq_self)
  have "ba2_FindByName q m' = (if LowerASCII (ad_name e) = LowerASCII q then Some (ba2_opened dir e) else ba2_FindByName q m)" for q
  proof (cases "LowerASCII (ad_name e) = LowerASCII q")
    case True
    then show ?thesis by (simp add: ba2_FindByName_def m'_def n)
  next
    case False
    then show ?thesis
      using range [of "LowerASCII q"]
      by (cases "am_nameIndex m (LowerASCII q)") (simp_all add: ba2_FindByName_def m'_def nth_append)
  qed
  then have "ba2_FindByName q m' = map_option (ba2_opened dir)
      (find (\<lambda>e. LowerASCII (ad_name e) = LowerASCII q \<and> ba2_usable dir e) (rev (es @ [e])))" for q
    using True found [of q] by simp
  moreover have "unat idx < length (am_archives m')" if "am_nameIndex m' name = Some idx" for name idx
    using that range [of name idx] n by (auto simp: m'_def split: if_splits)
  moreover have "length (am_archives m') \<le> length (es @ [e])" using bound by (simp add: m'_def)
  ultimately show ?thesis using True by (simp add: step ba2_inv_def del: rev_append)
qed

lemma ba2_scan_inv: "length es < 2 ^ 32 \<Longrightarrow> ba2_inv dir es (foldl (ba2_load dir) (ba2_empty, 0) es)"
proof (induction es rule: rev_induct)
  case Nil
  then show ?case by (simp add: ba2_inv_def ba2_empty_def ba2_FindByName_def)
next
  case (snoc e es)
  then show ?case using ba2_load_inv [of dir es] by (cases "foldl (ba2_load dir) (ba2_empty, 0) es") simp
qed

text \<open>
  A first scan of a directory succeeds exactly if it has an archive that opens, and a name then
  finds, up to ASCII case, the last archive of that name in the order of the directory that opens,
  and no other.
\<close>

theorem ba2_scan_then_find:
  assumes "ba2_Initialize dir (Some es) ba2_empty = (ok, m)" "length es < 2 ^ 32"
  shows "ok = list_ex (ba2_usable dir) es \<and>
    ba2_FindByName q m = map_option (ba2_opened dir)
      (find (\<lambda>e. LowerASCII (ad_name e) = LowerASCII q \<and> ba2_usable dir e) (rev es))"
proof -
  obtain m' k where f: "foldl (ba2_load dir) (ba2_empty, 0) es = (m', k)" by force
  then show ?thesis
    using ba2_scan_inv [OF assms(2), of dir] assms(1) by (simp add: ba2_Initialize_def f ba2_inv_def)
qed

section \<open>Samples\<close>

text \<open>A general archive with one stored file, whose data begins behind 4 GiB according to its record.\<close>

definition small_ba2 :: "u64 \<Rightarrow> ba2_file" where
  "small_ba2 offset =
     \<lparr>af_content = [0x42, 0x54, 0x44, 0x58] @ put32 1 @ [0x47, 0x4E, 0x52, 0x4C] @ put32 1 @ put64 0 @
        put32 0 @ [0, 0, 0, 0] @ put32 0 @ put32 0 @ put64 offset @ put32 0 @ put32 8 @ put32 0xBAADF00D,
      af_opens = True, af_sizeKnown = True, af_mapping = True, af_view = True\<rparr>"

lemma small_ba2_opens:
  "fst (ba2_Open [0x61] (small_ba2 0x100000018) ba2_new)"
  "bh_version (aa_header (snd (ba2_Open [0x61] (small_ba2 0x100000018) ba2_new))) = 1"
  "map be_startOffset (EnumerateEntries (snd (ba2_Open [0x61] (small_ba2 0x100000018) ba2_new))) = [0x18]"
  "ba2_files (af_content (small_ba2 0x100000018)) = Some [[(0x100000018, 0, 8)]]"
  "length (af_content (small_ba2 0x100000018)) = 60" "ba2_format_ok (af_content (small_ba2 0x100000018))"
  by code_simp+

lemma archive_lists_all_witness:
  "\<exists>a. ba2_Open [0x61] (small_ba2 0x100000018) ba2_new = (True, a) \<and> aa_fullyUncompressed a \<and>
     unat (aa_uncompressedCount a) = 1"
proof -
  obtain a where a: "ba2_Open [0x61] (small_ba2 0x100000018) ba2_new = (True, a)"
    using small_ba2_opens(1) by (metis prod.collapse)
  have len: "length (af_content (small_ba2 0x100000018)) < 2 ^ 63" using small_ba2_opens(5) by simp
  have "\<not> be_isCompressed (chunk_entry (0x100000018, 0, 8))" by code_simp
  moreover have "length (unpacked_files [[(0x100000018, 0, 8)]]) = 1" by code_simp
  ultimately show ?thesis
    using archive_lists_all [OF len a] a small_ba2_opens(2,4) by auto
qed

lemma offsets_lost_witness:
  "\<exists>a. ba2_Open [0x61] (small_ba2 0x100000018) ba2_new = (True, a) \<and>
     listed_chunks (af_content (small_ba2 0x100000018)) = [(0x100000018, 0, 8)] \<and>
     map (\<lambda>e. u64_of_u32 (be_startOffset e)) (EnumerateEntries a) \<noteq> [0x100000018]"
proof -
  obtain a where a: "ba2_Open [0x61] (small_ba2 0x100000018) ba2_new = (True, a)"
    using small_ba2_opens(1) by (metis prod.collapse)
  have len: "length (af_content (small_ba2 0x100000018)) < 2 ^ 63" using small_ba2_opens(5) by simp
  have far: "\<not> unat (0x100000018 :: u64) < 2 ^ 32" by simp
  have cs: "listed_chunks (af_content (small_ba2 0x100000018)) = [(0x100000018, 0, 8)]" by code_simp
  from offsets_lost [OF len a] show ?thesis using a cs far by auto
qed

lemma ba2_scan_then_find_witness:
  "\<exists>m. ba2_Initialize [0x44] (Some [\<lparr>ad_name = [0x61, 0x2E, 0x42, 0x41, 0x32], ad_regular = True, ad_file = small_ba2 24\<rparr>])
       ba2_empty = (True, m) \<and> ba2_FindByName [0x41, 0x2E, 0x62, 0x61, 0x32] m \<noteq> None"
proof -
  let ?e = "\<lparr>ad_name = [0x61, 0x2E, 0x42, 0x41, 0x32], ad_regular = True, ad_file = small_ba2 24\<rparr>"
  obtain ok m where i: "ba2_Initialize [0x44] (Some [?e]) ba2_empty = (ok, m)" by force
  have "ba2_usable [0x44] ?e" "LowerASCII (ad_name ?e) = LowerASCII [0x41, 0x2E, 0x62, 0x61, 0x32]" by code_simp+
  with ba2_scan_then_find [OF i, of "[0x41, 0x2E, 0x62, 0x61, 0x32]"] i show ?thesis by simp
qed

end
