(* ===== verification/FastCopy.thy ===== *)
theory FastCopy
  imports FFC_Prelude "HOL-Library.Monad_Syntax"
begin

text \<open>
  Fallout4/src/FastCopy.h: the copy of large blocks with non-temporal stores, over a memory of
  bytes with 64-bit addresses.  A store of 32 bytes needs an address that is a multiple of 32; a
  store elsewhere faults, which is the result \<open>None\<close>, as is a loop that does not end.
\<close>

section \<open>Memory\<close>

type_synonym memory = "u64 \<Rightarrow> u8"

definition memcpy :: "memory \<Rightarrow> u64 \<Rightarrow> u64 \<Rightarrow> u64 \<Rightarrow> memory" where
  "memcpy m d s n = (\<lambda>a. if a - d < n then m (s + (a - d)) else m a)"

definition loadu_si256 :: "memory \<Rightarrow> u64 \<Rightarrow> bytes" where
  "loadu_si256 m a = map (\<lambda>i. m (a + of_nat i)) [0..<32]"

definition stream_si256 :: "memory \<Rightarrow> u64 \<Rightarrow> bytes \<Rightarrow> memory option" where
  "stream_si256 m a v = (if a AND 31 = 0 then Some (\<lambda>x. if x - a < 32 then v ! unat (x - a) else m x) else None)"

section \<open>The copy\<close>

definition kNtThreshold :: u64 where "kNtThreshold = 128 * 1024"

definition copy_block :: "memory \<Rightarrow> u64 \<Rightarrow> u64 \<Rightarrow> u64 \<Rightarrow> memory option" where
  "copy_block m d s off =
     (let a = loadu_si256 m (s + off); b = loadu_si256 m (s + off + 32);
          c = loadu_si256 m (s + off + 64); e = loadu_si256 m (s + off + 96)
      in do { m1 \<leftarrow> stream_si256 m (d + off) a; m2 \<leftarrow> stream_si256 m1 (d + off + 32) b;
              m3 \<leftarrow> stream_si256 m2 (d + off + 64) c; stream_si256 m3 (d + off + 96) e })"

partial_function (option) copy_blocks :: "memory \<Rightarrow> u64 \<Rightarrow> u64 \<Rightarrow> u64 \<Rightarrow> u64 \<Rightarrow> memory option" where
  "copy_blocks m d s bulk off =
     (if off < bulk then Option.bind (copy_block m d s off) (\<lambda>m'. copy_blocks m' d s bulk (off + 128)) else Some m)"

definition FastCopyLarge :: "bool \<Rightarrow> memory \<Rightarrow> u64 \<Rightarrow> u64 \<Rightarrow> u64 \<Rightarrow> memory option" where
  "FastCopyLarge bUseNonTemporalCopy m0 dst src n0 =
     (if n0 < kNtThreshold \<or> \<not> bUseNonTemporalCopy then Some (memcpy m0 dst src n0)
      else
        let misalign = dst AND 31;
            prefix0 = (if misalign \<noteq> 0 then 32 - misalign else 0);
            (m, d, s, n) =
              (if prefix0 \<noteq> 0
               then (let prefix = (if prefix0 > n0 then n0 else prefix0)
                     in (memcpy m0 dst src prefix, dst + prefix, src + prefix, n0 - prefix))
               else (m0, dst, src, n0));
            bulk = n AND NOT 127
        in do { m' \<leftarrow> copy_blocks m d s bulk 0;
                Some (if n - bulk > 0 then memcpy m' (d + bulk) (s + bulk) (n - bulk) else m') })"

section \<open>It is a copy\<close>

text \<open>Neither of two blocks of \<open>n\<close> bytes begins inside the other.\<close>

definition apart :: "u64 \<Rightarrow> u64 \<Rightarrow> u64 \<Rightarrow> bool" where
  "apart d s n \<longleftrightarrow> n \<le> d - s \<and> n \<le> s - d"

lemma unat_diff: "unat (a - b) = (if unat b \<le> unat a then unat a - unat b else unat a + 2 ^ 64 - unat b)" for a b :: u64
  by (simp add: unat_sub_if_size word_size)

lemma apart_outside:
  assumes "apart d s n" "unat i < unat n" "unat j < unat n"
  shows "s + i \<noteq> d + j"
proof
  assume eq: "s + i = d + j"
  then have e: "d - s = i - j" "s - d = j - i" by (simp_all add: algebra_simps)
  have "unat n \<le> unat (i - j)" "unat n \<le> unat (j - i)" using assms(1) e by (simp_all add: apart_def word_le_nat_alt)
  then show False using assms(2,3) by (simp add: unat_diff split: if_splits)
qed

lemma memcpy_at: "memcpy m d s n (d + i) = (if i < n then m (s + i) else m (d + i))"
  by (simp add: memcpy_def)

lemma memcpy_at_shift: "memcpy m (d + k) (s + k) n (d + i) = (if i - k < n then m (s + i) else m (d + i))"
proof -
  have "d + i - (d + k) = i - k" "s + k + (i - k) = s + i" by simp_all
  then show ?thesis by (simp only: memcpy_def)
qed

lemma memcpy_append:
  assumes "apart d s n" "unat n1 + unat n2 \<le> unat n"
  shows "memcpy (memcpy m d s n1) (d + n1) (s + n1) n2 = memcpy m d s (n1 + n2)"
proof
  fix x
  define i where "i = x - d"
  have x: "x = d + i" "x - d = i" "x - (d + n1) = i - n1" by (simp_all add: i_def algebra_simps)
  have n12: "unat (n1 + n2) = unat n1 + unat n2" by (rule unat_add_le [OF assms(2)])
  have two: "unat n1 + unat n2 < 18446744073709551616" by (rule le_less_trans [OF assms(2) unat_u64_lt])
  show "memcpy (memcpy m d s n1) (d + n1) (s + n1) n2 x = memcpy m d s (n1 + n2) x"
  proof (cases "i < n1")
    case True
    then have l: "unat i < unat n1" by (simp add: word_less_nat_alt)
    then have "\<not> i - n1 < n2" using two by (simp add: word_less_nat_alt unat_diff)
    then show ?thesis using l n12 by (simp add: memcpy_def x(2,3) word_less_nat_alt)
  next
    case False
    then have l: "unat n1 \<le> unat i" by (simp add: word_less_nat_alt)
    then have iff: "i - n1 < n2 \<longleftrightarrow> i < n1 + n2" using n12 by (simp add: word_less_nat_alt unat_diff) linarith
    have "memcpy m d s n1 (s + i) = m (s + i)" if "i < n1 + n2"
    proof -
      have "unat i < unat n" using that n12 assms(2) by (simp add: word_less_nat_alt)
      then have "\<not> s + i - d < n1"
        using apart_outside [OF assms(1), of i "s + i - d"] assms(2) by (auto simp: word_less_nat_alt)
      then show ?thesis by (simp add: memcpy_def)
    qed
    moreover have "memcpy m d s n1 (d + i) = m (d + i)" using False by (simp add: memcpy_at)
    ultimately show ?thesis unfolding x(1) memcpy_at_shift iff memcpy_at [of m d s "n1 + n2"] by simp
  qed
qed

lemma apart_mono: "apart d s n \<Longrightarrow> unat k + unat n' \<le> unat n \<Longrightarrow> apart (d + k) (s + k) n'"
  by (simp add: apart_def word_le_nat_alt)

lemma stream_load:
  assumes "a AND 31 = 0"
  shows "stream_si256 m a (loadu_si256 m s) = Some (memcpy m a s 32)"
proof -
  have "loadu_si256 m s ! unat (x - a) = m (s + (x - a))" if "x - a < 32" for x
    using that by (simp add: loadu_si256_def word_less_nat_alt)
  then show ?thesis using assms by (auto simp: stream_si256_def memcpy_def)
qed

lemma load_outside:
  assumes "apart d s n" "unat n1 + 32 \<le> unat n" "unat k + 32 \<le> unat n"
  shows "loadu_si256 (memcpy m d s n1) (s + k) = loadu_si256 m (s + k)"
proof -
  have "memcpy m d s n1 (s + k + of_nat i) = m (s + k + of_nat i)" if "i < 32" for i
  proof -
    have i: "unat (of_nat i :: u64) = i" using that by (simp add: unat_of_nat take_bit_nat_eq_self)
    have "unat (k + of_nat i) = unat k + unat (of_nat i :: u64)"
      using that assms(3) by (intro unat_add_le [where c = n]) (simp add: i)
    then have "unat (k + of_nat i) = unat k + i" by (simp add: i)
    then have "unat (k + of_nat i) < unat n" using that assms(3) by simp
    then have "\<not> s + (k + of_nat i) - d < n1"
      using apart_outside [OF assms(1), of "k + of_nat i" "s + (k + of_nat i) - d"] assms(2)
      by (auto simp: word_less_nat_alt)
    then show ?thesis by (simp add: memcpy_def algebra_simps)
  qed
  then show ?thesis by (simp add: loadu_si256_def)
qed

lemma copy_block_eq:
  assumes "apart (d + off) (s + off) 128" "(d + off) AND 31 = 0" "(d + off + 32) AND 31 = 0"
    "(d + off + 64) AND 31 = 0" "(d + off + 96) AND 31 = 0"
  shows "copy_block m d s off = Some (memcpy m (d + off) (s + off) 128)"
proof -
  let ?d = "d + off" and ?s = "s + off"
  note app = memcpy_append [OF assms(1)] and out = load_outside [OF assms(1)]
  let ?m1 = "memcpy m ?d ?s 32" and ?m2 = "memcpy m ?d ?s 64" and ?m3 = "memcpy m ?d ?s 96"
  have "memcpy ?m1 (?d + 32) (?s + 32) 32 = ?m2" "memcpy ?m2 (?d + 64) (?s + 64) 32 = ?m3"
    "memcpy ?m3 (?d + 96) (?s + 96) 32 = memcpy m ?d ?s 128"
    using app [of 32 32 m] app [of 64 32 m] app [of 96 32 m] by simp_all
  moreover have "loadu_si256 m (?s + 32) = loadu_si256 ?m1 (?s + 32)" "loadu_si256 m (?s + 64) = loadu_si256 ?m2 (?s + 64)"
    "loadu_si256 m (?s + 96) = loadu_si256 ?m3 (?s + 96)"
    using out [of 32 32 m] out [of 64 64 m] out [of 96 96 m] by simp_all
  ultimately show ?thesis using assms(2-5) by (simp add: copy_block_def stream_load)
qed

lemma unat_take: "unat (take_bit k a) = unat a mod 2 ^ k" for a :: u64
  by (simp only: unsigned_take_bit_eq) (simp only: take_bit_eq_mod)

lemma unat_misalign: "unat (a AND 31) = unat a mod 32" for a :: u64
proof -
  have "a AND 31 = take_bit 5 a" by (simp only: take_bit_eq_mask mask_eq_exp_minus_1) simp
  then show ?thesis using unat_take [of 5 a] by simp
qed

lemma aligned_iff: "a AND 31 = 0 \<longleftrightarrow> 32 dvd unat a" for a :: u64
  by (simp add: word_unat_eq_iff unat_misalign dvd_eq_mod_eq_0)

lemma aligned_add: "32 dvd unat a \<Longrightarrow> 32 dvd unat b \<Longrightarrow> 32 dvd unat (a + b)" for a b :: u64
  by (simp add: unat_word_ariths dvd_mod)

lemma unat_bulk: "unat (n AND NOT 127) = unat n - unat n mod 128" for n :: u64
proof -
  have m: "n AND 127 = take_bit 7 n" by (simp only: take_bit_eq_mask mask_eq_exp_minus_1) simp
  have sum: "(n AND NOT 127) + (n AND 127) = n"
    by (subst disjunctive_add) (auto simp: bit_simps intro: bit_word_eqI)
  have le: "take_bit 7 n \<le> n" using unat_take [of 7 n] by (simp only: word_le_nat_alt) simp
  have "n AND NOT 127 = n - take_bit 7 n" using sum unfolding m by (metis add_diff_cancel_right')
  then have "unat (n AND NOT 127) = unat n - unat (take_bit 7 n)" using unat_sub_le [OF le] by simp
  then show ?thesis using unat_take [of 7 n] by simp
qed

lemma copy_blocks_eq:
  assumes "apart d s n" "unat bulk \<le> unat n" "32 dvd unat d"
  shows "unat off + 128 * k = unat bulk \<Longrightarrow> 128 dvd unat off \<Longrightarrow>
    copy_blocks (memcpy m d s off) d s bulk off = Some (memcpy m d s bulk)"
proof (induction k arbitrary: off)
  case 0
  then have "off = bulk" by (simp add: word_unat_eq_iff)
  then show ?case by (simp add: copy_blocks.simps)
next
  case (Suc k)
  have room: "unat off + unat (128 :: u64) \<le> unat n" using Suc.prems(1) assms(2) by simp
  have next_off: "unat (off + 128) = unat off + 128" using unat_add_le [OF room] by simp
  have off32: "32 dvd unat off" using Suc.prems(2) by (rule dvd_trans [rotated]) simp
  have less: "off < bulk" using Suc.prems(1) by (simp add: word_less_nat_alt)
  have d: "32 dvd unat (d + off)" using assms(3) off32 by (rule aligned_add)
  have block: "copy_block (memcpy m d s off) d s off = Some (memcpy (memcpy m d s off) (d + off) (s + off) 128)"
    using apart_mono [OF assms(1), of off 128] room d aligned_add [OF d, of 32] aligned_add [OF d, of 64] aligned_add [OF d, of 96]
    by (intro copy_block_eq) (simp_all add: aligned_iff)
  have joined: "memcpy (memcpy m d s off) (d + off) (s + off) 128 = memcpy m d s (off + 128)"
    using memcpy_append [OF assms(1), of off 128] room by simp
  have rest: "copy_blocks (memcpy m d s (off + 128)) d s bulk (off + 128) = Some (memcpy m d s bulk)"
    using Suc.prems next_off by (intro Suc.IH) simp_all
  show ?case
    by (subst copy_blocks.simps) (simp add: less block joined rest)
qed

lemma pad32: "32 dvd a + (if a mod 32 \<noteq> 0 then 32 - a mod 32 else 0)" for a :: nat
proof -
  have "32 dvd a + (32 - r)" if "a = 32 * q + r" "r < 32" for q r
    using that by (intro dvdI [of _ _ "q + 1"]) simp
  from this [of "a div 32" "a mod 32"] show ?thesis by (auto simp: dvd_eq_mod_eq_0)
qed

lemma memcpy_0 [simp]: "memcpy m d s 0 = m" by (simp add: memcpy_def)

lemma FastCopyLarge_eq:
  assumes "apart d s n"
  shows "FastCopyLarge nt m d s n = Some (memcpy m d s n)"
proof (cases "n < kNtThreshold \<or> \<not> nt")
  case True
  then show ?thesis by (simp add: FastCopyLarge_def)
next
  case False
  define p where "p = (if d AND 31 \<noteq> 0 then 32 - (d AND 31) else 0)"
  have n: "128 * 1024 \<le> unat n" using False by (simp add: kNtThreshold_def word_less_nat_alt)
  have mis: "unat (d AND 31) < 32" by (simp add: unat_misalign)
  then have p_un: "unat p = (if unat d mod 32 \<noteq> 0 then 32 - unat d mod 32 else 0)"
    by (simp add: p_def unat_diff unat_misalign word_unat_eq_iff)
  then have p32: "unat p < 32" by auto
  have "32 dvd unat d + unat p" unfolding p_un by (rule pad32)
  then have aligned: "32 dvd unat (d + p)" by (simp add: unat_word_ariths dvd_mod)
  define n' where "n' = n - p"
  define bulk where "bulk = n' AND NOT 127"
  have p_le: "p \<le> n" using n p32 by (simp add: word_le_nat_alt)
  then have n': "unat n' = unat n - unat p" by (simp add: n'_def unat_sub_le)
  have b_un: "unat bulk = unat n' - unat n' mod 128" unfolding bulk_def by (rule unat_bulk)
  then have b_le: "bulk \<le> n'" by (simp add: word_le_nat_alt)
  have near: "apart (d + p) (s + p) n'" using apart_mono [OF assms, of p n'] n' p_le by (simp add: word_le_nat_alt)
  define M where "M = memcpy m d s p"
  have start: "(if p \<noteq> 0 then let prefix = if p > n then n else p
       in (memcpy m d s prefix, d + prefix, s + prefix, n - prefix) else (m, d, s, n)) = (M, d + p, s + p, n')"
    using p_le by (simp add: M_def n'_def not_less [symmetric])
  have dvd: "unat bulk = 128 * (unat n' div 128)" using b_un by (simp add: minus_mod_eq_mult_div)
  have blocks: "copy_blocks M (d + p) (s + p) bulk 0 = Some (memcpy M (d + p) (s + p) bulk)"
    using copy_blocks_eq [OF near _ aligned, of bulk 0 "unat n' div 128" M] dvd b_le by (simp add: word_le_nat_alt)
  have bn: "unat bulk + unat (n' - bulk) \<le> unat n'" using b_le by (simp add: unat_sub_le word_le_nat_alt)
  have tail: "(if n' - bulk > 0 then memcpy (memcpy M (d + p) (s + p) bulk) (d + p + bulk) (s + p + bulk) (n' - bulk)
      else memcpy M (d + p) (s + p) bulk) = memcpy M (d + p) (s + p) n'"
    using memcpy_append [OF near bn, of M] by (auto simp: word_gt_0)
  have "memcpy M (d + p) (s + p) n' = memcpy m d s n"
    using memcpy_append [OF assms, of p n' m] n' p_le by (simp add: M_def n'_def word_le_nat_alt)
  moreover have "FastCopyLarge nt m d s n = Option.bind (copy_blocks M (d + p) (s + p) bulk 0)
      (\<lambda>m'. Some (if n' - bulk > 0 then memcpy m' (d + p + bulk) (s + p + bulk) (n' - bulk) else m'))"
    unfolding FastCopyLarge_def if_not_P [OF False] Let_def p_def [symmetric] start [unfolded Let_def] prod.case
    by (simp only: bulk_def)
  ultimately show ?thesis by (simp only: blocks Option.bind.simps tail)
qed

text \<open>
  C11: the copy with non-temporal stores never faults, ends, and is the plain copy of two blocks that
  do not overlap, for every alignment and size.
\<close>

theorem fast_copy_is_copy: "apart d s n \<Longrightarrow> FastCopyLarge nt m d s n = Some (memcpy m d s n)"
  by (rule FastCopyLarge_eq)

lemma fast_copy_is_copy_witness:
  "\<exists>m. FastCopyLarge True ucast 0x1000005 0x2000000 0x30001 = Some m \<and> m 0x1030004 = ucast (0x202FFFF :: u64) \<and>
     m 0x1030006 = ucast (0x1030006 :: u64)"
proof -
  have "apart 0x1000005 0x2000000 0x30001" by code_simp
  then have "FastCopyLarge True ucast 0x1000005 0x2000000 0x30001 = Some (memcpy ucast 0x1000005 0x2000000 0x30001)"
    by (rule fast_copy_is_copy)
  moreover have "memcpy ucast 0x1000005 0x2000000 0x30001 0x1030004 = ucast (0x202FFFF :: u64)"
    "memcpy ucast 0x1000005 0x2000000 0x30001 0x1030006 = ucast (0x1030006 :: u64)" by code_simp+
  ultimately show ?thesis by blast
qed

end
