(* ===== verification/MmapStream.thy ===== *)
theory MmapStream
  imports FastCopy StreamCursor
begin

text \<open>
  Fallout4/src/MmapStream.h and MmapStream.cpp: streams over mapped memory, call by call, over the
  memory of FastCopy.  Names of the game's interface (\<open>kNone\<close>, \<open>kSet\<close>, ...) are those the code
  uses.  A stream runs as a plain file of its bytes does while its data are mapped.  Cloning is
  kept apart: a clone does not own the view its data lie in, so the view can go before the clone.
\<close>

section \<open>Streams\<close>

datatype mmap_error = kNone | kUnsupported | kInvalidParam
datatype mmap_seek_mode = kSet | kCurrent | kEnd | SeekModeOther

record MmapStream =
  ms_data :: u64
  ms_size :: u32
  ms_cursor :: u32
  ms_name :: bytes
  ms_archive :: "nat option"
  ms_viewOwner :: "nat option"

definition mmap_stream :: "u64 \<Rightarrow> u32 \<Rightarrow> bytes \<Rightarrow> nat option \<Rightarrow> MmapStream" where
  "mmap_stream data n name archive =
     \<lparr>ms_data = data, ms_size = n, ms_cursor = 0, ms_name = name, ms_archive = archive, ms_viewOwner = None\<rparr>"

definition mmap_stream_cached :: "u64 \<Rightarrow> u32 \<Rightarrow> bytes \<Rightarrow> nat option \<Rightarrow> nat option \<Rightarrow> MmapStream" where
  "mmap_stream_cached data n name archive viewOwner =
     \<lparr>ms_data = data, ms_size = n, ms_cursor = 0, ms_name = name, ms_archive = archive, ms_viewOwner = viewOwner\<rparr>"

section \<open>Counters\<close>

definition kMmapHistBuckets :: nat where "kMmapHistBuckets = 11"

definition MmapSizeBucket :: "u64 \<Rightarrow> nat" where
  "MmapSizeBucket n =
     (if n = 0 then 0 else if n \<le> 16 then 1 else if n \<le> 64 then 2 else if n \<le> 256 then 3 else if n \<le> 1024 then 4
      else if n \<le> 4096 then 5 else if n \<le> 16384 then 6 else if n \<le> 65536 then 7 else if n \<le> 262144 then 8
      else if n \<le> 1048576 then 9 else 10)"

record mmap_counters =
  g_mmapDoReadCalls :: "u64 list"
  g_mmapDoReadNs :: "u64 list"

definition mmap_counters0 :: mmap_counters where
  "mmap_counters0 = \<lparr>g_mmapDoReadCalls = replicate kMmapHistBuckets 0, g_mmapDoReadNs = replicate kMmapHistBuckets 0\<rparr>"

definition note_mmap_read :: "u64 \<Rightarrow> u64 \<Rightarrow> mmap_counters \<Rightarrow> mmap_counters" where
  "note_mmap_read n ns c =
     (let b = MmapSizeBucket n
      in c\<lparr>g_mmapDoReadCalls := (g_mmapDoReadCalls c)[b := g_mmapDoReadCalls c ! b + 1],
           g_mmapDoReadNs := (g_mmapDoReadNs c)[b := g_mmapDoReadNs c ! b + ns]\<rparr>)"

section \<open>Calls\<close>

definition mmap_DoOpen :: "MmapStream \<Rightarrow> mmap_error \<times> MmapStream" where "mmap_DoOpen s = (kNone, s)"
definition mmap_DoClose :: "MmapStream \<Rightarrow> MmapStream" where "mmap_DoClose s = s\<lparr>ms_cursor := 0\<rparr>"
definition mmap_DoGetKey :: "MmapStream \<Rightarrow> u64" where "mmap_DoGetKey s = 0"

text \<open>All fields of the information but the file size are zero.\<close>

definition mmap_DoGetInfo :: "MmapStream \<Rightarrow> mmap_error \<times> u64" where
  "mmap_DoGetInfo s = (kNone, u64_of_u32 (ms_size s))"

definition mmap_DoClone :: "MmapStream \<Rightarrow> MmapStream" where
  "mmap_DoClone s = mmap_stream (ms_data s) (ms_size s) (ms_name s) (ms_archive s)"

text \<open>The measured time of the call is a parameter.\<close>

definition mmap_DoRead ::
  "bool \<Rightarrow> bool \<Rightarrow> u64 \<Rightarrow> u64 \<Rightarrow> u64 \<Rightarrow> memory \<times> mmap_counters \<times> MmapStream \<Rightarrow>
   (mmap_error \<times> u64 \<times> memory \<times> mmap_counters \<times> MmapStream) option" where
  "mmap_DoRead nt timing ns a_buffer a_bytes mcs =
     (case mcs of (m, c, s) \<Rightarrow>
        let remaining = (if ms_cursor s < ms_size s then u64_of_u32 (ms_size s - ms_cursor s) else 0);
            n = min a_bytes remaining
        in do {
          (m', s') \<leftarrow> (if n > 0
             then do { m' \<leftarrow> FastCopyLarge nt m a_buffer (ms_data s + u64_of_u32 (ms_cursor s)) n;
                       Some (m', s\<lparr>ms_cursor := ms_cursor s + u32_of_u64 n\<rparr>) }
             else Some (m, s));
          Some (kNone, n, m', if timing then note_mmap_read n ns c else c, s') })"

definition mmap_DoReadAt :: "bool \<Rightarrow> u64 \<Rightarrow> u64 \<Rightarrow> u64 \<Rightarrow> memory \<Rightarrow> MmapStream \<Rightarrow> (mmap_error \<times> u64 \<times> memory) option" where
  "mmap_DoReadAt nt a_buffer a_bytes a_pos m s =
     (if a_pos \<ge> u64_of_u32 (ms_size s) then Some (kNone, 0, m)
      else
        let available = u64_of_u32 (ms_size s) - a_pos; n = min a_bytes available
        in do { m' \<leftarrow> (if n > 0 then FastCopyLarge nt m a_buffer (ms_data s + a_pos) n else Some m);
                Some (kNone, n, m') })"

definition mmap_DoWrite :: "MmapStream \<Rightarrow> mmap_error \<times> u64" where "mmap_DoWrite s = (kUnsupported, 0)"

text \<open>The position is signed and its sum wraps at 64 bits; an unknown mode leaves the result unset.\<close>

definition mmap_DoSeek :: "u64 \<Rightarrow> mmap_seek_mode \<Rightarrow> MmapStream \<Rightarrow> mmap_error \<times> u64 option \<times> MmapStream" where
  "mmap_DoSeek a_offset a_seekMode s =
     (case (case a_seekMode of
              kSet \<Rightarrow> Some a_offset
            | kCurrent \<Rightarrow> Some (u64_of_u32 (ms_cursor s) + a_offset)
            | kEnd \<Rightarrow> Some (u64_of_u32 (ms_size s) + a_offset)
            | SeekModeOther \<Rightarrow> None) of
        None \<Rightarrow> (kInvalidParam, None, s)
      | Some newPos \<Rightarrow>
          let clamped = (if newPos <s 0 then 0 else if u64_of_u32 (ms_size s) <s newPos then u64_of_u32 (ms_size s) else newPos);
              s' = s\<lparr>ms_cursor := u32_of_u64 clamped\<rparr>
          in (kNone, Some (u64_of_u32 (ms_cursor s')), s'))"

definition mmap_DoSetEndOfStream :: "MmapStream \<Rightarrow> mmap_error" where "mmap_DoSetEndOfStream s = kUnsupported"

text \<open>The range that is handed to \<open>PrefetchVirtualMemory\<close>, if the system has that function.\<close>

definition DoPrefetch :: "bool \<Rightarrow> u64 \<Rightarrow> u64 \<Rightarrow> (u64 \<times> u64) option" where
  "DoPrefetch hasFn addr n = (if hasFn then Some (addr, n) else None)"

definition mmap_DoPrefetchAt :: "bool \<Rightarrow> u64 \<Rightarrow> u64 \<Rightarrow> MmapStream \<Rightarrow> mmap_error \<times> (u64 \<times> u64) option" where
  "mmap_DoPrefetchAt hasFn a_bytes a_offset s =
     (if a_offset \<ge> u64_of_u32 (ms_size s) then (kNone, None)
      else let n = min a_bytes (u64_of_u32 (ms_size s) - a_offset) in (kNone, DoPrefetch hasFn (ms_data s + a_offset) n))"

definition mmap_DoPrefetchAll :: "bool \<Rightarrow> MmapStream \<Rightarrow> mmap_error \<times> (u64 \<times> u64) option" where
  "mmap_DoPrefetchAll hasFn s = (kNone, DoPrefetch hasFn (ms_data s) (u64_of_u32 (ms_size s)))"

text \<open>The value of the completion tag is \<open>None\<close> if there is no tag.  The number of bytes that were
  read stays inside the call.\<close>

definition mmap_DoStartTaggedPrioritizedRead ::
  "bool \<Rightarrow> u64 \<Rightarrow> u64 \<Rightarrow> u64 \<Rightarrow> u32 option \<Rightarrow> u32 \<Rightarrow> memory \<Rightarrow> MmapStream \<Rightarrow> (mmap_error \<times> u32 \<times> memory) option" where
  "mmap_DoStartTaggedPrioritizedRead nt a_buffer a_bytes a_offset a_completionTag waitValue m s =
     do { (err, read, m') \<leftarrow> mmap_DoReadAt nt a_buffer a_bytes a_offset m s;
          Some (err, (case a_completionTag of Some t \<Rightarrow> t | None \<Rightarrow> waitValue), m') }"

definition mmap_DoWaitTags :: "MmapStream \<Rightarrow> mmap_error" where "mmap_DoWaitTags s = kNone"
definition mmap_DoGetName :: "MmapStream \<Rightarrow> bool \<times> bytes" where "mmap_DoGetName s = (True, ms_name s)"
definition mmap_DoCreateAsync :: "MmapStream \<Rightarrow> mmap_error" where "mmap_DoCreateAsync s = kUnsupported"
definition mmap_DoQTaggedPrioritizedReadSupported :: "MmapStream \<Rightarrow> bool" where
  "mmap_DoQTaggedPrioritizedReadSupported s = True"
definition mmap_DoCreateOp :: "MmapStream \<Rightarrow> mmap_error" where "mmap_DoCreateOp s = kUnsupported"
definition mmap_DoGetIsFromArchive :: "MmapStream \<Rightarrow> bool" where "mmap_DoGetIsFromArchive s = True"

definition GetDirectPointer :: "MmapStream \<Rightarrow> u64" where "GetDirectPointer s = ms_data s + u64_of_u32 (ms_cursor s)"

text \<open>An object of the game is told by the first pointer in it.\<close>

definition IsMmapStream :: "u64 \<Rightarrow> u64 option \<Rightarrow> bool" where
  "IsMmapStream vtable a_stream = (case a_stream of None \<Rightarrow> False | Some objVtbl \<Rightarrow> objVtbl = vtable)"

definition As :: "u64 \<Rightarrow> u64 option \<Rightarrow> u64 option" where
  "As vtable a_stream = (if IsMmapStream vtable a_stream then a_stream else None)"

section \<open>Clones and the view of a stream\<close>

text \<open>
  A view of a cache file stays mapped as long as someone shares its ownership: the cache, until a
  flush or a rewrite lets it go, or a live stream whose \<open>viewOwner_\<close> it is.
\<close>

record mmap_world =
  mw_streams :: "nat \<rightharpoonup> MmapStream"
  mw_cacheViews :: "nat set"

definition view_mapped :: "mmap_world \<Rightarrow> nat \<Rightarrow> bool" where
  "view_mapped w v \<longleftrightarrow> v \<in> mw_cacheViews w \<or> (\<exists>i s. mw_streams w i = Some s \<and> ms_viewOwner s = Some v)"

datatype world_op = CloneStream nat nat | ReleaseStream nat | DropView nat

fun world_step :: "world_op \<Rightarrow> mmap_world \<Rightarrow> mmap_world" where
  "world_step (CloneStream i j) w =
     (case mw_streams w i of
        None \<Rightarrow> w
      | Some s \<Rightarrow> w\<lparr>mw_streams := (mw_streams w)(j \<mapsto> mmap_DoClone s)\<rparr>)"
| "world_step (ReleaseStream i) w = w\<lparr>mw_streams := (mw_streams w)(i := None)\<rparr>"
| "world_step (DropView v) w = w\<lparr>mw_cacheViews := mw_cacheViews w - {v}\<rparr>"

text \<open>What the header promises holds for the stream the factory made: whatever others do, its
  view stays mapped until it is released or replaced.\<close>

lemma owner_pins_view:
  assumes "mw_streams w i = Some s" "ms_viewOwner s = Some v"
    "\<And>op. op \<in> set ops \<Longrightarrow> op \<noteq> ReleaseStream i \<and> (\<forall>k. op \<noteq> CloneStream k i)"
  shows "view_mapped (foldl (\<lambda>w op. world_step op w) w ops) v"
proof -
  have "mw_streams (foldl (\<lambda>w op. world_step op w) w ops) i = Some s"
    using assms(1,3)
  proof (induction ops arbitrary: w)
    case (Cons op ops)
    have "mw_streams (world_step op w) i = Some s"
      using Cons.prems(1) Cons.prems(2) [of op] by (cases op) (auto split: option.split)
    from Cons.IH [OF this] Cons.prems(2) show ?case by simp
  qed simp
  with assms(2) show ?thesis by (auto simp: view_mapped_def)
qed

text \<open>A clone is not pinned.  When the stream it was made from is released and the cache lets the
  view go, the clone still reads the same range, and the view is unmapped.\<close>

lemma clone_dangles:
  assumes "mw_streams w i = Some s" "ms_viewOwner s = Some v" "i \<noteq> j"
    "\<And>k t. mw_streams w k = Some t \<Longrightarrow> ms_viewOwner t = Some v \<Longrightarrow> k = i \<or> k = j"
  shows "\<exists>w' c. w' = foldl (\<lambda>w op. world_step op w) w [CloneStream i j, ReleaseStream i, DropView v] \<and>
    mw_streams w' j = Some c \<and> ms_data c = ms_data s \<and> ms_size c = ms_size s \<and> \<not> view_mapped w' v"
  using assms by (auto simp: view_mapped_def mmap_DoClone_def mmap_stream_def)

section \<open>The plain file\<close>

record plain_file =
  pf_bytes :: bytes
  pf_pos :: nat

datatype stream_call =
  ReadCall u64 u64 | ReadAtCall u64 u64 u64 | TaggedReadCall u64 u64 u64 | SeekCall u64 mmap_seek_mode
| CloseCall | WriteCall

datatype stream_answer = Got mmap_error bytes | Placed mmap_error "nat option" | Done

definition plain_seek :: "int \<Rightarrow> mmap_seek_mode \<Rightarrow> plain_file \<Rightarrow> nat option" where
  "plain_seek offset mode f =
     (let base = (case mode of kSet \<Rightarrow> Some 0 | kCurrent \<Rightarrow> Some (int (pf_pos f)) | kEnd \<Rightarrow> Some (int (length (pf_bytes f)))
        | SeekModeOther \<Rightarrow> None)
      in map_option (\<lambda>b. nat (max 0 (min (int (length (pf_bytes f))) (b + offset)))) base)"

fun plain_step :: "stream_call \<Rightarrow> plain_file \<Rightarrow> stream_answer \<times> plain_file" where
  "plain_step (ReadCall buf n) f =
     (let got = take (unat n) (drop (pf_pos f) (pf_bytes f)) in (Got kNone got, f\<lparr>pf_pos := pf_pos f + length got\<rparr>))"
| "plain_step (ReadAtCall buf n pos) f = (Got kNone (take (unat n) (drop (unat pos) (pf_bytes f))), f)"
| "plain_step (TaggedReadCall buf n pos) f = (Got kNone (take (unat n) (drop (unat pos) (pf_bytes f))), f)"
| "plain_step (SeekCall offset mode) f =
     (case plain_seek (sint offset) mode f of
        None \<Rightarrow> (Placed kInvalidParam None, f)
      | Some p \<Rightarrow> (Placed kNone (Some p), f\<lparr>pf_pos := p\<rparr>))"
| "plain_step CloseCall f = (Done, f\<lparr>pf_pos := 0\<rparr>)"
| "plain_step WriteCall f = (Got kUnsupported [], f)"

text \<open>What the caller finds in its buffer.\<close>

definition block :: "memory \<Rightarrow> u64 \<Rightarrow> nat \<Rightarrow> bytes" where
  "block m a n = map (\<lambda>i. m (a + of_nat i)) [0..<n]"

fun mmap_step :: "bool \<Rightarrow> bool \<Rightarrow> u64 \<Rightarrow> stream_call \<Rightarrow> memory \<times> mmap_counters \<times> MmapStream \<Rightarrow>
    (stream_answer \<times> memory \<times> mmap_counters \<times> MmapStream) option" where
  "mmap_step nt timing ns (ReadCall buf n) mcs =
     do { (e, k, m', c', s') \<leftarrow> mmap_DoRead nt timing ns buf n mcs; Some (Got e (block m' buf (unat k)), m', c', s') }"
| "mmap_step nt timing ns (ReadAtCall buf n pos) (m, c, s) =
     do { (e, k, m') \<leftarrow> mmap_DoReadAt nt buf n pos m s; Some (Got e (block m' buf (unat k)), m', c, s) }"
| "mmap_step nt timing ns (TaggedReadCall buf n pos) (m, c, s) =
     do { (e, tag, m') \<leftarrow> mmap_DoStartTaggedPrioritizedRead nt buf n pos None 0 m s;
          Some (Got e (block m' buf (min (unat n) (unat (ms_size s) - unat pos))), m', c, s) }"
| "mmap_step nt timing ns (SeekCall offset mode) (m, c, s) =
     (case mmap_DoSeek offset mode s of (e, p, s') \<Rightarrow> Some (Placed e (map_option unat p), m, c, s'))"
| "mmap_step nt timing ns CloseCall (m, c, s) = Some (Done, m, c, mmap_DoClose s)"
| "mmap_step nt timing ns WriteCall (m, c, s) = (case mmap_DoWrite s of (e, k) \<Rightarrow> Some (Got e (replicate (unat k) 0), m, c, s))"

fun plain_run :: "stream_call list \<Rightarrow> plain_file \<Rightarrow> stream_answer list \<times> plain_file" where
  "plain_run [] f = ([], f)"
| "plain_run (call # calls) f =
     (let (a, f1) = plain_step call f; (as, f2) = plain_run calls f1 in (a # as, f2))"

fun mmap_run :: "bool \<Rightarrow> bool \<Rightarrow> u64 \<Rightarrow> stream_call list \<Rightarrow> memory \<times> mmap_counters \<times> MmapStream \<Rightarrow>
    (stream_answer list \<times> memory \<times> mmap_counters \<times> MmapStream) option" where
  "mmap_run nt timing ns [] mcs = Some ([], mcs)"
| "mmap_run nt timing ns (call # calls) mcs =
     do { (a, mcs1) \<leftarrow> mmap_step nt timing ns call mcs; (as, mcs2) \<leftarrow> mmap_run nt timing ns calls mcs1; Some (a # as, mcs2) }"

text \<open>The caller's buffer lies outside the data of the stream, and a seek does not move the
  position out of the 63 bits of a signed sum.\<close>

fun call_ok :: "u64 \<Rightarrow> u32 \<Rightarrow> stream_call \<Rightarrow> bool" where
  "call_ok data n (ReadCall buf k) \<longleftrightarrow> apart buf data (u64_of_u32 n)"
| "call_ok data n (ReadAtCall buf k pos) \<longleftrightarrow> apart buf data (u64_of_u32 n)"
| "call_ok data n (TaggedReadCall buf k pos) \<longleftrightarrow> apart buf data (u64_of_u32 n)"
| "call_ok data n (SeekCall offset mode) \<longleftrightarrow> sint offset < 2 ^ 63 - 2 ^ 32"
| "call_ok data n _ \<longleftrightarrow> True"

definition plain_of :: "memory \<Rightarrow> MmapStream \<Rightarrow> plain_file" where
  "plain_of m s = \<lparr>pf_bytes = block m (ms_data s) (unat (ms_size s)), pf_pos = unat (ms_cursor s)\<rparr>"

section \<open>Blocks of memory\<close>

lemma length_block [simp]: "length (block m a n) = n" by (simp add: block_def)

lemma block_slice: "p + k \<le> n \<Longrightarrow> take k (drop p (block m a n)) = block m (a + of_nat p) k"
  by (rule nth_equalityI) (simp_all add: block_def algebra_simps)

lemma unat_wd: "k < 18446744073709551616 \<Longrightarrow> unat (of_nat k :: u64) = k"
  by (simp add: unat_of_nat take_bit_nat_eq_self)

lemma unat_index: "i < unat n \<Longrightarrow> unat (of_nat i :: u64) = i" for n :: u64
  by (rule unat_wd) (rule less_trans [OF _ unat_u64_lt])

lemma apart_slice:
  assumes "apart b d N" "unat c + unat n \<le> unat N" "0 < n"
  shows "apart b (d + c) n"
proof -
  have n: "0 < unat n" using assms(3) by (simp add: word_less_nat_alt)
  have x: "unat N \<le> unat (b - d)" "unat N \<le> unat (d - b)" using assms(1) by (simp_all add: apart_def word_le_nat_alt)
  have total: "unat (b - d) + unat (d - b) = 18446744073709551616"
  proof -
    have "b \<noteq> d" using x(1) n assms(2) by auto
    then have "unat b \<noteq> unat d" by (simp add: word_unat_eq_iff)
    moreover have "unat b \<le> 18446744073709551615" "unat d \<le> 18446744073709551615" by (rule unat_u64_le)+
    moreover have "unat (b - d) = unat b - unat d" "unat (d - b) = unat d + 18446744073709551616 - unat b" if "unat d < unat b"
      using that by (simp_all add: unat_diff)
    moreover have "unat (d - b) = unat d - unat b" "unat (b - d) = unat b + 18446744073709551616 - unat d" if "unat b < unat d"
      using that by (simp_all add: unat_diff)
    ultimately show ?thesis by linarith
  qed
  have e: "b - (d + c) = (b - d) - c" "d + c - b = (d - b) + c" by simp_all
  have "unat ((b - d) - c) = unat (b - d) - unat c" using x(1) assms(2) by (simp add: unat_diff)
  moreover have "unat (d - b) + unat c < 18446744073709551616" using total x(1) assms(2) n by linarith
  then have "unat ((d - b) + c) = unat (d - b) + unat c" by (simp add: unat_add_noovf)
  ultimately show ?thesis
    using x assms(2) unfolding apart_def word_le_nat_alt e by linarith
qed

lemma copied_block: "unat n = k \<Longrightarrow> block (memcpy m b d n) b k = block m d k"
proof (rule nth_equalityI)
  fix i
  assume "unat n = k" "i < length (block (memcpy m b d n) b k)"
  then have "unat (of_nat i :: u64) = i" "i < unat n" using unat_index [of i n] by simp_all
  then show "block (memcpy m b d n) b k ! i = block m d k ! i"
    using \<open>unat n = k\<close> by (simp add: block_def memcpy_at word_less_nat_alt)
qed simp

lemma kept_block:
  assumes "apart b d N" "unat n \<le> unat N"
  shows "block (memcpy m b src n) d (unat N) = block m d (unat N)"
proof (rule nth_equalityI)
  fix i
  assume "i < length (block (memcpy m b src n) d (unat N))"
  then have i: "unat (of_nat i :: u64) = i" "i < unat N" using unat_index [of i N] by simp_all
  have "\<not> d + of_nat i - b < n"
    using apart_outside [OF assms(1), of "of_nat i" "d + of_nat i - b"] i assms(2) by (auto simp: word_less_nat_alt)
  then show "block (memcpy m b src n) d (unat N) ! i = block m d (unat N) ! i"
    using i by (simp add: block_def memcpy_def)
qed simp

section \<open>Each call\<close>

lemma u64_of_u32_0: "unat (u64_of_u32 n) = unat n" by (rule unat_u64_of_u32)

lemma copy_slice:
  assumes "apart buf (ms_data s) (u64_of_u32 (ms_size s))" "unat c + unat k \<le> unat (ms_size s)" "0 < k"
  shows "\<exists>m'. FastCopyLarge nt m buf (ms_data s + c) k = Some m' \<and>
    block m' buf (unat k) = take (unat k) (drop (unat c) (block m (ms_data s) (unat (ms_size s)))) \<and>
    block m' (ms_data s) (unat (ms_size s)) = block m (ms_data s) (unat (ms_size s))"
proof -
  have near: "apart buf (ms_data s + c) k" using assms by (intro apart_slice [OF assms(1)]) simp_all
  have "block (memcpy m buf (ms_data s + c) k) buf (unat k) = block m (ms_data s + c) (unat k)"
    by (simp add: copied_block)
  also have "\<dots> = take (unat k) (drop (unat c) (block m (ms_data s) (unat (ms_size s))))"
    using assms(2) by (simp add: block_slice)
  finally have got: "block (memcpy m buf (ms_data s + c) k) buf (unat k) =
      take (unat k) (drop (unat c) (block m (ms_data s) (unat (ms_size s))))" .
  have "block (memcpy m buf (ms_data s + c) k) (ms_data s) (unat (ms_size s)) = block m (ms_data s) (unat (ms_size s))"
    using kept_block [OF assms(1), of k m "ms_data s + c"] assms(2) by simp
  then show ?thesis using got FastCopyLarge_eq [OF near] by blast
qed

lemma DoReadAt_cases:
  assumes "k = min n (u64_of_u32 (ms_size s) - pos)" "\<not> unat (ms_size s) \<le> unat pos"
  shows "mmap_DoReadAt nt buf n pos m s =
    (if k = 0 then Some (kNone, 0, m)
     else do { m' \<leftarrow> FastCopyLarge nt m buf (ms_data s + pos) k; Some (kNone, k, m') })"
proof -
  have "\<not> pos \<ge> u64_of_u32 (ms_size s)" using assms(2) by (simp add: word_le_nat_alt)
  then show ?thesis unfolding mmap_DoReadAt_def Let_def assms(1) [symmetric] by (cases "k = 0") (simp_all add: word_gt_0)
qed

lemma read_at_step:
  assumes "apart buf (ms_data s) (u64_of_u32 (ms_size s))"
  shows "\<exists>k m'. mmap_DoReadAt nt buf n pos m s = Some (kNone, k, m') \<and>
     unat k = min (unat n) (unat (ms_size s) - unat pos) \<and>
     block m' buf (unat k) = take (unat n) (drop (unat pos) (block m (ms_data s) (unat (ms_size s)))) \<and>
     block m' (ms_data s) (unat (ms_size s)) = block m (ms_data s) (unat (ms_size s))"
proof (cases "unat (ms_size s) \<le> unat pos")
  case True
  then show ?thesis by (simp add: mmap_DoReadAt_def word_le_nat_alt) (simp add: block_def)
next
  case False
  define k where "k = min n (u64_of_u32 (ms_size s) - pos)"
  have k: "unat k = min (unat n) (unat (ms_size s) - unat pos)"
    using False by (simp add: k_def unat_min unat_sub_le word_le_nat_alt)
  have take: "take (unat k) (drop (unat pos) (block m (ms_data s) (unat (ms_size s)))) =
      take (unat n) (drop (unat pos) (block m (ms_data s) (unat (ms_size s))))"
    by (rule nth_equalityI) (simp_all add: k)
  show ?thesis
  proof (cases "k = 0")
    case True
    then have "unat n = 0" using k False by simp
    moreover have "block m buf 0 = []" by (simp add: block_def)
    ultimately show ?thesis using True DoReadAt_cases [OF k_def False, of nt buf m] by simp
  next
    case pos: False
    then have "0 < k" by (simp add: word_gt_0)
    moreover have "unat pos + unat k \<le> unat (ms_size s)" using k False by simp
    ultimately show ?thesis
      using copy_slice [OF assms, of pos k nt m] DoReadAt_cases [OF k_def False, of nt buf m] pos k take by auto
  qed
qed

lemma DoRead_cases:
  assumes "k = min n (if ms_cursor s < ms_size s then u64_of_u32 (ms_size s - ms_cursor s) else 0)"
  shows "mmap_DoRead nt timing ns buf n (m, c, s) =
    (let c' = (if timing then note_mmap_read k ns c else c)
     in if k = 0 then Some (kNone, 0, m, c', s)
        else do { m' \<leftarrow> FastCopyLarge nt m buf (ms_data s + u64_of_u32 (ms_cursor s)) k;
                  Some (kNone, k, m', c', s\<lparr>ms_cursor := ms_cursor s + u32_of_u64 k\<rparr>) })"
  unfolding mmap_DoRead_def prod.case Let_def assms [symmetric]
  by (cases "k = 0") (simp_all add: word_gt_0 bind_assoc)

lemma read_step:
  assumes "apart buf (ms_data s) (u64_of_u32 (ms_size s))" "unat (ms_cursor s) \<le> unat (ms_size s)"
  shows "\<exists>m' c' s'. mmap_step nt timing ns (ReadCall buf n) (m, c, s) = Some (fst (plain_step (ReadCall buf n) (plain_of m s)), m', c', s') \<and>
     plain_of m' s' = snd (plain_step (ReadCall buf n) (plain_of m s)) \<and>
     unat (ms_cursor s') \<le> unat (ms_size s') \<and> ms_data s' = ms_data s \<and> ms_size s' = ms_size s"
proof -
  define k where "k = min n (if ms_cursor s < ms_size s then u64_of_u32 (ms_size s - ms_cursor s) else 0)"
  have k: "unat k = min (unat n) (unat (ms_size s) - unat (ms_cursor s))"
    using assms(2) by (simp add: k_def unat_min unat_sub_le word_less_nat_alt word_le_nat_alt)
  have take: "take (unat k) (drop (unat (ms_cursor s)) (block m (ms_data s) (unat (ms_size s)))) =
      take (unat n) (drop (unat (ms_cursor s)) (block m (ms_data s) (unat (ms_size s))))"
    by (rule nth_equalityI) (simp_all add: k)
  show ?thesis
  proof (cases "k = 0")
    case True
    then have "unat n = 0 \<or> unat (ms_size s) = unat (ms_cursor s)" using k assms(2) by (auto simp: min_def split: if_splits)
    then have none: "take (unat n) (drop (unat (ms_cursor s)) (block m (ms_data s) (unat (ms_size s)))) = []" by auto
    have "min (unat (ms_size s) - unat (ms_cursor s)) (unat n) = 0" using k True by (simp add: min.commute)
    moreover have "block m buf 0 = []" by (simp add: block_def)
    ultimately show ?thesis
      using True assms(2) none DoRead_cases [OF k_def, of nt timing ns buf m c] by (simp add: plain_of_def Let_def)
  next
    case pos: False
    then have "0 < k" by (simp add: word_gt_0)
    moreover have sum: "unat (ms_cursor s) + unat k \<le> unat (ms_size s)" using k assms(2) by simp
    ultimately obtain m' where m': "FastCopyLarge nt m buf (ms_data s + u64_of_u32 (ms_cursor s)) k = Some m'"
      "block m' buf (unat k) = take (unat n) (drop (unat (ms_cursor s)) (block m (ms_data s) (unat (ms_size s))))"
      "block m' (ms_data s) (unat (ms_size s)) = block m (ms_data s) (unat (ms_size s))"
      using copy_slice [OF assms(1), of "u64_of_u32 (ms_cursor s)" k nt m] take by auto
    have "unat k < 4294967296" using sum unat_u32_lt [of "ms_size s"] by linarith
    then have "unat (ms_cursor s + u32_of_u64 k) = unat (ms_cursor s) + unat k"
      using unat_add_le [of "ms_cursor s" "u32_of_u64 k" "ms_size s"] sum by simp
    moreover have "length (take (unat n) (drop (unat (ms_cursor s)) (block m (ms_data s) (unat (ms_size s))))) = unat k"
      by (simp add: k)
    ultimately show ?thesis
      using m' pos sum DoRead_cases [OF k_def, of nt timing ns buf m c] by (simp add: plain_of_def Let_def)
  qed
qed

lemma sint_u64_of_u32: "sint (u64_of_u32 x) = int (unat x)"
proof -
  have u: "uint (u64_of_u32 x) = int (unat x)" by (metis unat_u64_of_u32 uint_nat of_nat_unat)
  have "int (unat x) < 4294967296" using unat_u32_lt [of x] by linarith
  then show ?thesis by (simp add: sint_u64 u)
qed

lemma sint_plus:
  fixes a b :: u64
  assumes "- 9223372036854775808 \<le> sint a + sint b" "sint a + sint b < 9223372036854775808"
  shows "sint (a + b) = sint a + sint b"
proof -
  have "uint (a + b) = (if uint a + uint b < 18446744073709551616 then uint a + uint b else uint a + uint b - 18446744073709551616)"
    by (simp add: uint_plus_if_size word_size)
  then show ?thesis
    using assms uint_u64_bounds [of a] uint_u64_bounds [of b] by (auto simp: sint_u64 split: if_splits)
qed

lemma seek_word:
  assumes "sint offset < 2 ^ 63 - 2 ^ 32"
  shows "sint (u64_of_u32 x + offset) = int (unat x) + sint offset"
proof -
  have "int (unat x) < 4294967296" using unat_u32_lt [of x] by linarith
  moreover have "- 9223372036854775808 \<le> sint offset" using sint_ge [of offset] by simp
  moreover have "sint offset < 9223372032559808512" using assms by simp
  ultimately have "- 9223372036854775808 \<le> int (unat x) + sint offset" "int (unat x) + sint offset < 9223372036854775808"
    by linarith+
  then show ?thesis using sint_plus [of "u64_of_u32 x" offset] by (simp only: sint_u64_of_u32)
qed

lemma clamp_le: "nat (max 0 (min (int k) q)) \<le> k"
  by (simp add: nat_le_iff)

lemma clamp_word:
  assumes "sint p = q" "q < 9223372036854775808"
  shows "unat (if p <s 0 then 0 else if u64_of_u32 n <s p then u64_of_u32 n else p) = nat (max 0 (min (int (unat n)) q))"
proof -
  have zero: "p <s 0 \<longleftrightarrow> q < 0" using assms(1) by (simp add: word_sless_alt)
  have less: "u64_of_u32 n <s p \<longleftrightarrow> int (unat n) < q" using assms(1) by (simp add: word_sless_alt sint_u64_of_u32)
  have "int (unat p) = q" if "0 \<le> q" using that assms(1) uint_u64_bounds [of p] by (auto simp: sint_u64 split: if_splits)
  then show ?thesis unfolding zero less by auto
qed

lemma seek_step:
  assumes "sint offset < 2 ^ 63 - 2 ^ 32" "unat (ms_cursor s) \<le> unat (ms_size s)"
  shows "\<exists>m' c' s'. mmap_step nt timing ns (SeekCall offset mode) (m, c, s) =
      Some (fst (plain_step (SeekCall offset mode) (plain_of m s)), m', c', s') \<and>
     plain_of m' s' = snd (plain_step (SeekCall offset mode) (plain_of m s)) \<and>
     unat (ms_cursor s') \<le> unat (ms_size s') \<and> ms_data s' = ms_data s \<and> ms_size s' = ms_size s"
proof -
  have settle: ?thesis
    if "(case mode of kSet \<Rightarrow> Some offset | kCurrent \<Rightarrow> Some (u64_of_u32 (ms_cursor s) + offset)
          | kEnd \<Rightarrow> Some (u64_of_u32 (ms_size s) + offset) | SeekModeOther \<Rightarrow> None) = Some p"
      "plain_seek (sint offset) mode (plain_of m s) = Some (nat (max 0 (min (int (unat (ms_size s))) (sint p))))" for p
  proof -
    define w where "w = (if p <s 0 then 0 else if u64_of_u32 (ms_size s) <s p then u64_of_u32 (ms_size s) else p)"
    have "sint p < 9223372036854775808" using uint_u64_bounds [of p] by (auto simp: sint_u64 split: if_splits)
    then have w: "unat w = nat (max 0 (min (int (unat (ms_size s))) (sint p)))"
      unfolding w_def by (intro clamp_word) simp_all
    then have le: "unat w \<le> unat (ms_size s)" by (simp only: clamp_le)
    then have "unat w < 4294967296" using le unat_u32_lt [of "ms_size s"] by linarith
    then have "unat (u32_of_u64 w) = unat w" by (rule unat_u32_of_u64_small)
    then show ?thesis
      using that w le by (simp add: mmap_DoSeek_def plain_of_def Let_def flip: w_def)
  qed
  show ?thesis
  proof (cases mode)
    case kSet
    then show ?thesis by (intro settle [of offset]) (simp_all add: plain_seek_def plain_of_def)
  next
    case kCurrent
    then show ?thesis
      by (intro settle [of "u64_of_u32 (ms_cursor s) + offset"]) (simp_all add: plain_seek_def plain_of_def seek_word [OF assms(1)])
  next
    case kEnd
    then show ?thesis
      by (intro settle [of "u64_of_u32 (ms_size s) + offset"]) (simp_all add: plain_seek_def plain_of_def seek_word [OF assms(1)])
  next
    case SeekModeOther
    then show ?thesis using assms(2) by (simp add: mmap_DoSeek_def plain_seek_def plain_of_def)
  qed
qed

lemma close_step:
  "call = CloseCall \<or> call = WriteCall \<Longrightarrow> unat (ms_cursor s) \<le> unat (ms_size s) \<Longrightarrow>
   \<exists>m' c' s'. mmap_step nt timing ns call (m, c, s) = Some (fst (plain_step call (plain_of m s)), m', c', s') \<and>
     plain_of m' s' = snd (plain_step call (plain_of m s)) \<and>
     unat (ms_cursor s') \<le> unat (ms_size s') \<and> ms_data s' = ms_data s \<and> ms_size s' = ms_size s"
  by (elim disjE) (simp_all add: mmap_DoClose_def mmap_DoWrite_def plain_of_def)

lemma mmap_step_plain:
  assumes "call_ok (ms_data s) (ms_size s) call" "unat (ms_cursor s) \<le> unat (ms_size s)"
  shows "\<exists>m' c' s'. mmap_step nt timing ns call (m, c, s) = Some (fst (plain_step call (plain_of m s)), m', c', s') \<and>
     plain_of m' s' = snd (plain_step call (plain_of m s)) \<and>
     unat (ms_cursor s') \<le> unat (ms_size s') \<and> ms_data s' = ms_data s \<and> ms_size s' = ms_size s"
proof (cases call)
  case (ReadCall buf n)
  then show ?thesis using assms read_step [of buf s nt timing ns n m c] by simp
next
  case (ReadAtCall buf n pos)
  then have "apart buf (ms_data s) (u64_of_u32 (ms_size s))" using assms(1) by simp
  from read_at_step [OF this, of nt n pos m] show ?thesis
    using ReadAtCall assms(2) by (auto simp: plain_of_def)
next
  case (TaggedReadCall buf n pos)
  then have "apart buf (ms_data s) (u64_of_u32 (ms_size s))" using assms(1) by simp
  from read_at_step [OF this, of nt n pos m] show ?thesis
    using TaggedReadCall assms(2) by (auto simp: plain_of_def mmap_DoStartTaggedPrioritizedRead_def)
next
  case (SeekCall offset mode)
  then show ?thesis using assms seek_step [of offset s nt timing ns mode m c] by simp
qed (use close_step assms(2) in blast)+

lemma plain_step_bytes: "pf_bytes (snd (plain_step call f)) = pf_bytes f"
  by (cases call) (simp_all add: Let_def split: option.split)



end
