(* ===== verification/Spec2Isabelle.thy ===== *)
theory Spec2Isabelle
  imports ArchiveSamples WorkerSamples SourceSeqlock DecompWarmSamples CommitSamples StreamCursor ByteBudget Policies SectionSelect BsaManager BA2Archive MmapStream
begin

text \<open>
  Faster File Copy: a verification library.

  The Skyrim plug-in of the repository (\<open>src/Skyrim/src\<close>) maps the game's BSA archives,
  serves uncompressed entries from the mappings, and keeps a persistent cache of decompressed
  entries: what the game decompresses once is captured, queued, flushed to one cache file per
  archive, and served from a mapping of that file in later sessions.  The theories follow the
  code part by part, each part's state as a record and each operation as one definition.

  \<^item> \<open>FFC_Prelude\<close> holds the types and the lemmas all parts share: bytes, little-endian
    fields, checked 64-bit sums, lists and words.
  \<^item> \<open>XXH32\<close> and \<open>CacheFormat\<close> are \<open>CacheFormat.h\<close>: the payload checksum and
    \<open>Validate\<close>, equal to a declarative description of a well-formed cache file.
  \<^item> \<open>CasLoop\<close> proves interleaved compare-exchange loops linearizable once, in a locale;
    \<open>StreamCursor\<close> (\<open>StreamCursor.h\<close>) and \<open>ByteBudget\<close> (\<open>AtomicByteBudget.h\<close>)
    interpret it on their attempts.
  \<^item> \<open>Policies\<close> are the policy headers (\<open>CacheLimitPolicy.h\<close>, \<open>CacheWarmPolicy.h\<close>,
    \<open>CompressedReadPolicy.h\<close>, \<open>CompressedEntryLayout.h\<close>); \<open>SectionSelect\<close> is
    \<open>PESectionSelect.h\<close> with the scan of \<open>Hooks.cpp\<close> that uses it.
  \<^item> \<open>BsaArchive\<close> and \<open>BsaManager\<close> are \<open>BSAMemoryMap.h/.cpp\<close>: opening,
    fingerprinting, bounded reads, declared sizes and the archive manager.
  \<^item> \<open>CacheFiles\<close> models the writers of \<open>DecompCache.cpp\<close> (\<open>WriteFreshFile\<close>,
    \<open>AppendFile\<close>, \<open>MapCommittedFile\<close>) over a disk whose writes are durable only after
    a flush; \<open>CacheCommit\<close> and \<open>CommitProgress\<close> prove that a crash, a failing call
    or a cancellation leaves the old cache or the whole new one, and that undisturbed writers
    finish.  \<open>CacheLoad\<close> is \<open>LoadCacheFile\<close>.
  \<^item> \<open>EntryVerify\<close> is \<open>VerifyEntry\<close>, sequentially and as a protocol of several
    threads on one verification byte, and \<open>TouchMappedPages\<close>.
  \<^item> \<open>DecompState\<close>, \<open>DecompDisk\<close> and \<open>DecompFlush\<close> are the class
    \<open>DecompCache\<close>: its fields, lookup, admission, start-up, reconciliation, eviction,
    flush and warm order.  \<open>DecompAccounting\<close> proves the ledger of pending bytes,
    \<open>DecompSystem\<close> closes the operations under a step relation and interprets the
    contracts of the cache on it, \<open>DecompGuarantees\<close> and \<open>DecompQuiet\<close> hold what
    the operations promise.
  \<^item> \<open>DecompWarm\<close> is the worker's warm pass, with other threads running at each of its
    reads of a shared flag; \<open>DecompWarmProofs\<close> and \<open>DecompWarmCalm\<close> show what a
    finished pass guarantees and that undisturbed passes finish.
  \<^item> \<open>DecompWorker\<close> is the managed worker thread (\<open>StartBackgroundFlush\<close>, the
    destructor): which waits it leaves, that no request is slept through and that it stops.
    \<open>DecompSnapshot\<close> is \<open>GetBenchmarkSnapshot\<close> with its residency scan.
  \<^item> \<open>SourceCache\<close> is the part of \<open>Hooks.cpp\<close> that finds the archive of a stream: the
    probes of addresses, the table of known sources and the resolution by name.
    \<open>SourceCacheProofs\<close> shows that the table is a map, \<open>ResolveAgain\<close> that resolving
    again gives the same archive, and \<open>SourceSeqlock\<close> that a reader of a slot never accepts
    a pair that was not published together.
  \<^item> \<open>StreamState\<close> and \<open>StreamHooks\<close> are the hooks of compressed streams
    (\<open>HookedCompDoRead\<close> and its five siblings, the registry of side states, the captures):
    the functions of the game are a record of parameters, and a call is split where it takes the
    I/O mutex.  The loops that start over are partial functions with an optional result.
  \<^item> \<open>StreamFrames\<close>, \<open>StreamLocal\<close>, \<open>StreamServe\<close>, \<open>StreamNative\<close>,
    \<open>StreamCapture\<close>, \<open>StreamPhases\<close>, \<open>StreamRegistry\<close>, \<open>StreamSwap\<close>,
    \<open>StreamEnter\<close>, \<open>StreamReads\<close>, \<open>StreamRounds\<close>, \<open>StreamSeeks\<close> and
    \<open>StreamLife\<close> prove, step by step, that a hooked call returns and does what the same call
    does on a stream without hooks; \<open>StreamCache\<close> states what they rely on in the cache,
    \<open>StreamThreads\<close> interleaves the calls of many threads, \<open>StreamBudget\<close> follows the
    memory of the captures, and \<open>StreamGuarantees\<close> collects the results.
  \<^item> \<open>ArchiveHooks\<close> is the hook of plain streams, the counters of the read paths and the
    installation of all hooks.
  \<^item> \<open>BA2Archive\<close> is \<open>BA2MemoryMap.h/.cpp\<close> of the Fallout 4 plug-in: opening and
    parsing archives, listing their chunks, the archive manager.  It shows what a version 1
    archive lists, and two limits of the code: a bounds check whose sum wraps, and offsets that
    are cut to 32 bits.  \<open>FastCopy\<close> is its \<open>FastCopy.h\<close>, shown to be a plain copy, and
    \<open>MmapStream\<close> its streams over mapped memory, which run as plain files do.
  \<^item> The theories named \<open>Samples\<close> hold concrete files, archives, games and caches on which
    the properties are instantiated.

  Calls to the operating system are scripts or functions given to the operations: which call
  fails, which page cannot be read, what a clock says, what other threads do in between.
  An exhausted script stands for calls that succeed and threads that do nothing.  Loops end
  structurally, by a measure, or are partial functions that are shown to return; no definition
  uses fuel.

  Not modelled: reading the INI files and the start-up of the plug-ins, which only call the
  Win32 and SKSE interfaces; log lines, the thread that prints statistics and the benchmark
  driver, which compute nothing that other parts use; the hooks and the cache of the Fallout 4
  plug-in, older siblings of the Skyrim code; tests, tools and build files.
\<close>

end
